(* ===== verification/Cc_Prelude.thy ===== *)
theory Cc_Prelude
  imports Main "HOL-Library.Word"
begin

unbundle bit_operations_syntax

text \<open>
  The prelude of the development: the names of the machine types the library
  works on, the value of a list of digits, the lemma collections the component
  proofs share, and generic facts about words and lists.

  The configuration modelled throughout is the 64-bit one: a \<open>cc_unit\<close> has
  64 bits (\<open>CCN_UNIT_SIZE == 8\<close>) and a \<open>cc_dunit\<close> 128.  Buffers are lists; a
  read of \<open>p[i]\<close> is \<open>p ! i\<close>, and every theorem states the length its buffers need.
\<close>

section \<open>Machine types\<close>

type_synonym byte = "8 word"
type_synonym u32 = "32 word"
type_synonym cc_unit = "64 word"
type_synonym cc_dunit = "128 word"
type_synonym bytes = "8 word list"
type_synonym units = "64 word list"

named_theorems unat_push \<open>equations that move unat through a word operation\<close>
named_theorems len_simps \<open>lengths of the buffers an operation returns\<close>

section \<open>Words\<close>

lemma unat_ucast_mod [unat_push]:
  "unat (ucast (x :: 'a::len word) :: 'b::len word) = unat x mod 2 ^ LENGTH('b)"
  by (simp add: unsigned_ucast_eq take_bit_eq_mod)

lemma unat_drop_bit_div [unat_push]:
  "unat (drop_bit n (x :: 'a::len word)) = unat x div 2 ^ n"
  by (simp only: unat_drop_bit_eq drop_bit_nat_def)

lemma unat_push_bit_mod [unat_push]:
  "unat (push_bit n (x :: 'a::len word)) = (unat x * 2 ^ n) mod 2 ^ LENGTH('a)"
  by (simp only: unsigned_push_bit_eq take_bit_nat_def push_bit_nat_def)

lemma unat_and_mask [unat_push]:
  "unat ((x :: 'a::len word) AND mask n) = unat x mod 2 ^ n"
proof -
  have "x AND mask n = take_bit n x" by (simp add: take_bit_eq_mask)
  then show ?thesis by (simp only: unsigned_take_bit_eq take_bit_nat_def)
qed

lemmas [unat_push] = unat_word_ariths(1,2)

lemma word_bound: "unat (x :: 'a::len word) < 2 ^ LENGTH('a)"
  by (rule unsigned_less)

text \<open>Disjoint bits: an OR of a shifted part and a low part is their sum.\<close>

lemma nat_push_or:
  fixes a b :: nat
  assumes "b < 2 ^ n"
  shows "push_bit n a OR b = a * 2 ^ n + b"
proof -
  have b: "b = take_bit n b" using assms by (simp add: take_bit_nat_eq_self)
  have "push_bit n a AND b = 0"
    by (subst b) (auto intro!: bit_eqI simp: bit_simps)
  then have "push_bit n a OR b = push_bit n a + b" by (simp add: disjunctive_add_eq_or)
  then show ?thesis by (simp add: push_bit_nat_def)
qed

lemma unat_or_push_bit:
  fixes x y :: "'a::len word"
  assumes "unat y < 2 ^ n" and "unat x * 2 ^ n < 2 ^ LENGTH('a)"
  shows "unat (push_bit n x OR y) = unat x * 2 ^ n + unat y"
  using assms
  by (simp add: unsigned_or_eq unsigned_push_bit_eq push_bit_nat_def take_bit_nat_eq_self
      flip: nat_push_or)

text \<open>A word is the sum of its high and its low part.\<close>

lemma nat_split_bits: "(a :: nat) = 2 ^ n * (a div 2 ^ n) + a mod 2 ^ n"
  by simp

lemma digit_div: "a < P \<Longrightarrow> (a + P * y) div P = (y :: nat)"
  by simp

lemma digit_mod: "a < P \<Longrightarrow> (a + P * y) mod P = (a :: nat)"
  by simp

lemma digit_mod_mult:
  fixes a P Q y :: nat
  assumes "a < P"
  shows "(a + P * y) mod (P * Q) = a + P * (y mod Q)"
  unfolding mod_mult2_eq digit_div [OF assms] digit_mod [OF assms] by (rule add.commute)

section \<open>Values of digit lists\<close>

text \<open>
  \<open>le_val b ds\<close> reads \<open>ds\<close> as a number in base \<open>b\<close>, least significant digit first:
  the order of a bignum's \<open>cc_unit\<close>s and of the little-endian loads.
\<close>

fun le_val :: "nat \<Rightarrow> 'a::len word list \<Rightarrow> nat" where
  "le_val b [] = 0"
| "le_val b (d # ds) = unat d + b * le_val b ds"

definition ccn_val :: "units \<Rightarrow> nat" where
  "ccn_val s = le_val (2 ^ 64) s"

abbreviation be_val :: "bytes \<Rightarrow> nat" where
  "be_val bs \<equiv> le_val 256 (rev bs)"

lemma le_val_append: "le_val b (xs @ ys) = le_val b xs + b ^ length xs * le_val b ys"
  by (induction xs) (simp_all add: algebra_simps)

lemma le_val_replicate_0 [simp]: "le_val b (replicate n 0) = 0"
  by (induction n) simp_all

lemma le_val_bound:
  fixes xs :: "'a::len word list"
  assumes "b = 2 ^ LENGTH('a)"
  shows "le_val b xs < b ^ length xs"
proof (induction xs)
  case Nil
  then show ?case by simp
next
  case (Cons x xs)
  have "unat x < b" using assms word_bound [of x] by simp
  moreover have "Suc (le_val b xs) \<le> b ^ length xs" using Cons.IH by simp
  then have "b + b * le_val b xs \<le> b * b ^ length xs"
    using mult_le_mono2 [of "Suc (le_val b xs)" "b ^ length xs" b] by simp
  ultimately show ?case by simp
qed

lemma ccn_val_simps [simp]:
  "ccn_val [] = 0" "ccn_val (u # s) = unat u + 2 ^ 64 * ccn_val s" "ccn_val (replicate n 0) = 0"
  by (simp_all add: ccn_val_def)

lemma ccn_val_bound: "ccn_val xs < 2 ^ (64 * length xs)"
  using le_val_bound [of "2 ^ 64" xs] by (simp add: power_mult ccn_val_def)

lemma ccn_val_append: "ccn_val (xs @ ys) = ccn_val xs + 2 ^ (64 * length xs) * ccn_val ys"
  using le_val_append [of "2 ^ 64" xs ys] by (simp add: power_mult ccn_val_def)

text \<open>Gluing a carry chain: the high part consumes the carry of the low part.\<close>

lemma glue_carry:
  fixes P Q :: nat
  assumes "r1 + P * c1 = s1 + t" and "r2 + Q * c2 = s2 + c1"
  shows "(r1 + P * r2) + P * Q * c2 = (s1 + P * s2) + t"
proof -
  have "P * r2 + P * Q * c2 = P * (s2 + c1)"
    using arg_cong [OF assms(2), of "\<lambda>x. P * x"] by (simp add: algebra_simps)
  with assms(1) show ?thesis by (simp add: distrib_left)
qed

lemma glue_borrow:
  fixes P Q :: nat
  assumes "r1 + t = s1 + P * c1" and "r2 + c1 = s2 + Q * c2"
  shows "(r1 + P * r2) + t = (s1 + P * s2) + P * Q * c2"
proof -
  have "P * r2 + P * c1 = P * s2 + P * Q * c2"
    using arg_cong [OF assms(2), of "\<lambda>x. P * x"] by (simp add: algebra_simps)
  with assms(1) show ?thesis by simp
qed

lemma le_val_inj:
  fixes xs ys :: "'a::len word list"
  assumes "length xs = length ys" and "le_val (2 ^ LENGTH('a)) xs = le_val (2 ^ LENGTH('a)) ys"
  shows "xs = ys"
  using assms
proof (induction xs ys rule: list_induct2)
  case Nil
  then show ?case by simp
next
  case (Cons x xs y ys)
  let ?b = "2 ^ LENGTH('a) :: nat"
  from Cons.prems have eq: "unat x + ?b * le_val ?b xs = unat y + ?b * le_val ?b ys" by simp
  have "unat x = (unat x + ?b * le_val ?b xs) mod ?b" using word_bound [of x] by simp
  also have "\<dots> = unat y" unfolding eq using word_bound [of y] by simp
  finally have xy: "unat x = unat y" .
  with eq have "le_val ?b xs = le_val ?b ys" by simp
  with xy Cons.IH show ?case by (simp add: word_unat_eq_iff)
qed

lemma ccn_val_inj: "length r = length s \<Longrightarrow> ccn_val r = ccn_val s \<Longrightarrow> r = s"
  unfolding ccn_val_def by (rule le_val_inj) simp_all

lemma be_val_bound: "be_val bs < 256 ^ length bs"
  using le_val_bound [of 256 "rev bs"] by simp

lemma be_val_Cons: "be_val (b # bs) = unat b * 256 ^ length bs + be_val bs"
  by (simp add: le_val_append)

lemma be_val_append: "be_val (xs @ ys) = be_val xs * 256 ^ length ys + be_val ys"
  by (simp add: le_val_append algebra_simps)

end
