(* ===== verification/Cc_Priv.thy ===== *)
theory Cc_Priv
  imports Cc_Prelude
begin

unbundle bit_operations_syntax

text \<open>
  The word-level helpers of \<open>cc/corecrypto/cc_priv.h\<close>, \<open>cc/src\<close> and
  \<open>ccn/corecrypto/ccn_op.h\<close>: loads and stores in both byte orders, the step and
  select macros the constant-time code is written with, the bit-counting fallbacks,
  and the byte-array comparison.  The lemmas say what each branch-free formula
  computes, so that the components never unfold one again.
\<close>

section \<open>Loads and stores\<close>

text \<open>\<open>cc_error.h\<close>; \<open>CCERR_OK\<close> is 0.\<close>

definition CCERR_PARAMETER :: int where
  "CCERR_PARAMETER = -7"

definition cc_store64_be :: "cc_unit \<Rightarrow> bytes" where
  "cc_store64_be x = [ucast (drop_bit 56 x), ucast (drop_bit 48 x), ucast (drop_bit 40 x),
     ucast (drop_bit 32 x), ucast (drop_bit 24 x), ucast (drop_bit 16 x),
     ucast (drop_bit 8 x), ucast x]"

definition cc_load64_be :: "bytes \<Rightarrow> cc_unit" where
  "cc_load64_be y = push_bit 56 (ucast (y ! 0)) OR push_bit 48 (ucast (y ! 1)) OR
     push_bit 40 (ucast (y ! 2)) OR push_bit 32 (ucast (y ! 3)) OR push_bit 24 (ucast (y ! 4)) OR
     push_bit 16 (ucast (y ! 5)) OR push_bit 8 (ucast (y ! 6)) OR ucast (y ! 7)"

definition cc_store32_be :: "u32 \<Rightarrow> bytes" where
  "cc_store32_be x = [ucast (drop_bit 24 x), ucast (drop_bit 16 x), ucast (drop_bit 8 x), ucast x]"

definition cc_load32_be :: "bytes \<Rightarrow> u32" where
  "cc_load32_be y = push_bit 24 (ucast (y ! 0)) OR push_bit 16 (ucast (y ! 1)) OR
     push_bit 8 (ucast (y ! 2)) OR ucast (y ! 3)"

definition cc_store64_le :: "cc_unit \<Rightarrow> bytes" where
  "cc_store64_le x = [ucast x, ucast (drop_bit 8 x), ucast (drop_bit 16 x), ucast (drop_bit 24 x),
     ucast (drop_bit 32 x), ucast (drop_bit 40 x), ucast (drop_bit 48 x), ucast (drop_bit 56 x)]"

definition cc_load64_le :: "bytes \<Rightarrow> cc_unit" where
  "cc_load64_le y = push_bit 56 (ucast (y ! 7)) OR push_bit 48 (ucast (y ! 6)) OR
     push_bit 40 (ucast (y ! 5)) OR push_bit 32 (ucast (y ! 4)) OR push_bit 24 (ucast (y ! 3)) OR
     push_bit 16 (ucast (y ! 2)) OR push_bit 8 (ucast (y ! 1)) OR ucast (y ! 0)"

definition cc_store32_le :: "u32 \<Rightarrow> bytes" where
  "cc_store32_le x = [ucast x, ucast (drop_bit 8 x), ucast (drop_bit 16 x), ucast (drop_bit 24 x)]"

definition cc_load32_le :: "bytes \<Rightarrow> u32" where
  "cc_load32_le y = push_bit 24 (ucast (y ! 3)) OR push_bit 16 (ucast (y ! 2)) OR
     push_bit 8 (ucast (y ! 1)) OR ucast (y ! 0)"

lemma length_store [len_simps, simp]:
  "length (cc_store64_be x) = 8" "length (cc_store64_le x) = 8"
  "length (cc_store32_be z) = 4" "length (cc_store32_le z) = 4"
  by (simp_all add: cc_store64_be_def cc_store64_le_def cc_store32_be_def cc_store32_le_def)

text \<open>
  A load is the value of the bytes it reads, a store the base-256 digits of the word.
  The straight-line code is compared with two recursive readings of the same thing,
  \<open>load_le\<close> and \<open>store_le\<close>, which induction handles.
\<close>

fun load_le :: "bytes \<Rightarrow> 'a::len word" where
  "load_le [] = 0"
| "load_le (b # bs) = push_bit 8 (load_le bs) OR ucast b"

fun store_le :: "nat \<Rightarrow> 'a::len word \<Rightarrow> bytes" where
  "store_le 0 x = []"
| "store_le (Suc n) x = ucast x # store_le n (drop_bit 8 x)"

lemma length_store_le [simp]: "length (store_le n x) = n"
  by (induction n arbitrary: x) simp_all

lemma unat_ucast_byte:
  fixes a :: byte
  assumes "8 \<le> LENGTH('a::len)"
  shows "unat (ucast a :: 'a word) = unat a"
proof -
  have "(2::nat) ^ 8 \<le> 2 ^ LENGTH('a)" using assms by (rule power_increasing) simp
  then show ?thesis using word_bound [of a] by (simp add: unat_ucast_mod)
qed

lemma unat_load_le:
  assumes "8 * length bs \<le> LENGTH('a::len)"
  shows "unat (load_le bs :: 'a word) = le_val 256 bs"
  using assms
proof (induction bs)
  case Nil
  then show ?case by simp
next
  case (Cons b bs)
  let ?w = "load_le bs :: 'a word"
  have w: "unat ?w = le_val 256 bs" using Cons by simp
  have "unat ?w * 2 ^ 8 < 2 ^ LENGTH('a)"
  proof -
    have "le_val 256 bs < 256 ^ length bs" using le_val_bound [of 256 bs] by simp
    then have "unat ?w * 2 ^ 8 < 256 ^ Suc (length bs)" by (simp add: w)
    also have "\<dots> = 2 ^ (8 * length (b # bs))" by (simp only: power_mult length_Cons) simp
    also have "\<dots> \<le> 2 ^ LENGTH('a)" using Cons.prems by (rule power_increasing) simp
    finally show ?thesis .
  qed
  moreover have "unat (ucast b :: 'a word) = unat b" using Cons.prems by (simp add: unat_ucast_byte)
  ultimately have "unat (push_bit 8 ?w OR ucast b) = unat ?w * 2 ^ 8 + unat b"
    using word_bound [of b] by (simp add: unat_or_push_bit)
  with w show ?case by simp
qed

lemma le_val_store_le:
  "8 \<le> LENGTH('a::len) \<Longrightarrow> le_val 256 (store_le n (x :: 'a word)) = unat x mod 256 ^ n"
proof (induction n arbitrary: x)
  case 0
  then show ?case by simp
next
  case (Suc n)
  have "unat x mod 256 ^ Suc n = unat x mod 256 + 256 * (unat x div 256 mod 256 ^ n)"
    by (simp add: mod_mult2_eq)
  with Suc show ?case by (simp add: unat_ucast_mod unat_drop_bit_div)
qed

lemma load_32_64:
  "cc_load32_le [a, b, c, d] = load_le [a, b, c, d]"
  "cc_load32_be [d, c, b, a] = load_le [a, b, c, d]"
  "cc_load64_le [a, b, c, d, e, f, g, h] = load_le [a, b, c, d, e, f, g, h]"
  "cc_load64_be [h, g, f, e, d, c, b, a] = load_le [a, b, c, d, e, f, g, h]"
  by (simp_all add: cc_load32_le_def cc_load32_be_def cc_load64_le_def cc_load64_be_def
      push_bit_or push_bit_push_bit or.assoc)

lemma store_32_64:
  "cc_store32_le x = store_le 4 x" "cc_store32_be x = rev (store_le 4 x)"
  "cc_store64_le y = store_le 8 y" "cc_store64_be y = rev (store_le 8 y)"
  by (simp_all add: cc_store32_le_def cc_store32_be_def cc_store64_le_def cc_store64_be_def
      numeral_eq_Suc drop_bit_drop_bit)

lemma list_of_4: "length xs = 4 \<Longrightarrow> xs = [xs ! 0, xs ! 1, xs ! 2, xs ! 3]"
  by (rule nth_equalityI) (auto simp: less_Suc_eq numeral_eq_Suc)

lemma list_of_8: "length xs = 8 \<Longrightarrow>
    xs = [xs ! 0, xs ! 1, xs ! 2, xs ! 3, xs ! 4, xs ! 5, xs ! 6, xs ! 7]"
  by (rule nth_equalityI) (auto simp: less_Suc_eq numeral_eq_Suc)

lemma load32_le_eq: "length bs = 4 \<Longrightarrow> cc_load32_le bs = load_le bs"
  by (subst list_of_4, assumption, subst list_of_4, assumption) (rule load_32_64)

lemma load32_be_eq: "length bs = 4 \<Longrightarrow> cc_load32_be bs = load_le (rev bs)"
  by (subst list_of_4, assumption, subst list_of_4, assumption) (simp add: load_32_64 del: load_le.simps)

lemma load64_le_eq: "length bs = 8 \<Longrightarrow> cc_load64_le bs = load_le bs"
  by (subst list_of_8, assumption, subst list_of_8, assumption) (rule load_32_64)

lemma load64_be_eq: "length bs = 8 \<Longrightarrow> cc_load64_be bs = load_le (rev bs)"
  by (subst list_of_8, assumption, subst list_of_8, assumption) (simp add: load_32_64 del: load_le.simps)

lemma unat_load:
  "length bs = 4 \<Longrightarrow> unat (cc_load32_le bs) = le_val 256 bs"
  "length bs = 4 \<Longrightarrow> unat (cc_load32_be bs) = be_val bs"
  "length cs = 8 \<Longrightarrow> unat (cc_load64_le cs) = le_val 256 cs"
  "length cs = 8 \<Longrightarrow> unat (cc_load64_be cs) = be_val cs"
  by (simp_all add: load32_le_eq load32_be_eq load64_le_eq load64_be_eq unat_load_le)

lemma val_store:
  "le_val 256 (cc_store32_le x) = unat x" "be_val (cc_store32_be x) = unat x"
  "le_val 256 (cc_store64_le y) = unat y" "be_val (cc_store64_be y) = unat y"
  using word_bound [of x] word_bound [of y] by (simp_all add: store_32_64 le_val_store_le)

text \<open>Each load sees through the store of the same shape, and each store through the load.\<close>

lemma load_store [simp]:
  "cc_load32_le (cc_store32_le x) = x" "cc_load32_be (cc_store32_be x) = x"
  "cc_load64_le (cc_store64_le y) = y" "cc_load64_be (cc_store64_be y) = y"
  by (simp_all add: word_unat_eq_iff unat_load val_store)

lemma store_load:
  "length bs = 4 \<Longrightarrow> cc_store32_le (cc_load32_le bs) = bs"
  "length bs = 4 \<Longrightarrow> cc_store32_be (cc_load32_be bs) = bs"
  "length cs = 8 \<Longrightarrow> cc_store64_le (cc_load64_le cs) = cs"
  "length cs = 8 \<Longrightarrow> cc_store64_be (cc_load64_be cs) = cs"
  using le_val_inj [of "cc_store32_le (cc_load32_le bs)" bs]
    le_val_inj [of "rev (cc_store32_be (cc_load32_be bs))" "rev bs"]
    le_val_inj [of "cc_store64_le (cc_load64_le cs)" cs]
    le_val_inj [of "rev (cc_store64_be (cc_load64_be cs))" "rev cs"]
  by (simp_all add: val_store unat_load)

section \<open>Branch-free selection\<close>

text \<open>The macros \<open>CC_HEAVISIDE_STEP\<close> and \<open>CC_MUXU\<close>, as functions to the value they assign.\<close>

definition cc_heaviside_step :: "cc_unit \<Rightarrow> cc_unit" where
  "cc_heaviside_step s =
     (let t = (s AND 0xffffffff) OR drop_bit 32 s in drop_bit 32 (0xffffffff + t))"

definition cc_muxu :: "cc_unit \<Rightarrow> cc_unit \<Rightarrow> cc_unit \<Rightarrow> cc_unit" where
  "cc_muxu s a b = (let cond = s - 1 in (NOT cond AND a) OR (cond AND b))"

lemma mask_32: "(0xffffffff :: cc_unit) = mask 32"
  by (simp add: mask_eq_exp_minus_1)

lemma cc_heaviside_step_eq [simp]: "cc_heaviside_step s = (if s = 0 then 0 else 1)"
proof -
  define t where "t = (s AND mask 32) OR drop_bit 32 s"
  have "unat t < 2 ^ 32"
  proof -
    have "drop_bit 32 t = 0"
      unfolding t_def by (rule bit_word_eqI) (auto simp: bit_simps)
    then have "unat t div 2 ^ 32 = 0" by (metis unat_drop_bit_div unsigned_0)
    then show ?thesis by simp
  qed
  then have "unat (mask 32 + t) = 0xffffffff + unat t"
    by (simp add: unat_word_ariths flip: mask_32)
  then have "unat (drop_bit 32 (mask 32 + t)) = (0xffffffff + unat t) div 2 ^ 32"
    by (simp add: unat_drop_bit_div)
  also have "\<dots> = (if unat t = 0 then 0 else 1)" using \<open>unat t < 2 ^ 32\<close> by auto
  finally have step: "drop_bit 32 (mask 32 + t) = (if t = 0 then 0 else 1)"
    by (auto simp: word_unat_eq_iff split: if_splits)
  have "t = 0 \<longleftrightarrow> s = 0"
  proof
    assume "t = 0"
    then have "s AND mask 32 = 0" "drop_bit 32 s = 0" by (simp_all add: t_def or_eq_0_iff)
    then have "unat s mod 2 ^ 32 = 0" "unat s div 2 ^ 32 = 0"
      by (metis unat_and_mask unsigned_0, metis unat_drop_bit_div unsigned_0)
    then have "unat s = 0" using nat_split_bits [of "unat s" 32] by simp
    then show "s = 0" by (simp add: unat_0_iff)
  qed (simp add: t_def)
  with step show ?thesis
    by (simp add: cc_heaviside_step_def Let_def mask_32 t_def)
qed

lemma cc_muxu_eq [simp]: "cc_muxu 1 a b = a" "cc_muxu 0 a b = b"
  by (simp_all add: cc_muxu_def)

section \<open>The constant-time operations of \<open>ccn_op.h\<close>\<close>

definition ccop_msb :: "cc_unit \<Rightarrow> cc_unit" where
  "ccop_msb a = signed_drop_bit 63 a"

definition ccop_is_zero :: "cc_unit \<Rightarrow> cc_unit" where
  "ccop_is_zero a = ccop_msb (NOT a AND (a - 1))"

definition ccop_eq :: "cc_unit \<Rightarrow> cc_unit \<Rightarrow> cc_unit" where
  "ccop_eq a b = ccop_is_zero (a XOR b)"

definition ccop_neq :: "cc_unit \<Rightarrow> cc_unit \<Rightarrow> cc_unit" where
  "ccop_neq a b = NOT (ccop_eq a b)"

definition ccop_lt :: "cc_unit \<Rightarrow> cc_unit \<Rightarrow> cc_unit" where
  "ccop_lt a b = ccop_msb (a XOR ((a XOR b) OR ((a - b) XOR a)))"

definition ccop_gt :: "cc_unit \<Rightarrow> cc_unit \<Rightarrow> cc_unit" where
  "ccop_gt a b = ccop_lt b a"

definition ccop_lte :: "cc_unit \<Rightarrow> cc_unit \<Rightarrow> cc_unit" where
  "ccop_lte a b = NOT (ccop_gt a b)"

definition ccop_gte :: "cc_unit \<Rightarrow> cc_unit \<Rightarrow> cc_unit" where
  "ccop_gte a b = NOT (ccop_lt a b)"

definition ccop_sel :: "cc_unit \<Rightarrow> cc_unit \<Rightarrow> cc_unit \<Rightarrow> cc_unit" where
  "ccop_sel sel a b = (NOT sel AND b) OR (sel AND a)"

lemma bit_unat_iff: "bit (a :: 'a::len word) n \<longleftrightarrow> odd (unat a div 2 ^ n)"
proof -
  have "bit (unat a) n \<longleftrightarrow> bit a n" by (simp add: bit_unsigned_iff)
  then show ?thesis by (simp add: bit_nat_def)
qed

lemma bit_msb_iff: "bit (a :: cc_unit) 63 \<longleftrightarrow> 2 ^ 63 \<le> unat a"
proof -
  have "unat a div 2 ^ 63 < 2" using word_bound [of a] by (simp add: less_mult_imp_div_less)
  then have "unat a div 2 ^ 63 = 0 \<or> unat a div 2 ^ 63 = 1" by auto
  then show ?thesis unfolding bit_unat_iff by (auto simp: div_eq_0_iff)
qed

lemma ccop_msb_eq: "ccop_msb a = (if bit a 63 then -1 else 0)"
proof (rule bit_word_eqI)
  fix n :: nat
  assume "n < LENGTH(64)"
  then have "n = 0 \<or> n \<noteq> 0 \<and> n < 64" by auto
  then show "bit (ccop_msb a) n \<longleftrightarrow> bit (if bit a 63 then -1 else 0 :: cc_unit) n"
    by (auto simp: ccop_msb_def bit_signed_drop_bit_iff)
qed

lemma ccop_is_zero_eq [simp]: "ccop_is_zero a = (if a = 0 then -1 else 0)"
proof (cases "a = 0")
  case True
  then show ?thesis by (simp add: ccop_is_zero_def ccop_msb_eq bit_minus_1_iff)
next
  case False
  then have "unat (a - 1) = unat a - 1" by (simp add: unat_minus_one)
  then have "\<not> (\<not> bit a 63 \<and> bit (a - 1) 63)" unfolding bit_msb_iff by linarith
  then have "\<not> bit (NOT a AND (a - 1)) 63" by (auto simp: bit_simps)
  with False show ?thesis by (simp add: ccop_is_zero_def ccop_msb_eq)
qed

lemma xor_eq_0_word: "(a :: 'a::len word) XOR b = 0 \<longleftrightarrow> a = b"
proof
  assume "a XOR b = 0"
  then have "(a XOR b) XOR b = b" by simp
  then show "a = b" by (simp add: xor.assoc)
qed simp

lemma ccop_eq_eq [simp]: "ccop_eq a b = (if a = b then -1 else 0)"
  by (simp add: ccop_eq_def xor_eq_0_word)

lemma ccop_neq_eq [simp]: "ccop_neq a b = (if a \<noteq> b then -1 else 0)"
  by (simp add: ccop_neq_def)

lemma ccop_lt_eq [simp]: "ccop_lt a b = (if a < b then -1 else 0)"
proof -
  have d: "unat (a - b) = (if unat b \<le> unat a then unat a - unat b else unat a + 2 ^ 64 - unat b)"
    by (simp add: unat_sub_if_size word_size)
  have bounds: "unat a < 2 ^ 64" "unat b < 2 ^ 64" using word_bound [of a] word_bound [of b] by simp_all
  have "bit (a XOR ((a XOR b) OR ((a - b) XOR a))) 63 \<longleftrightarrow>
      (if bit a 63 = bit b 63 then bit (a - b) 63 else bit b 63)"
    by (auto simp: bit_simps)
  also have "\<dots> \<longleftrightarrow> unat a < unat b"
    unfolding bit_msb_iff d using bounds by auto
  finally show ?thesis by (simp add: ccop_lt_def ccop_msb_eq word_less_nat_alt)
qed

lemma ccop_gt_eq [simp]: "ccop_gt a b = (if a > b then -1 else 0)"
  by (simp add: ccop_gt_def)

lemma ccop_lte_eq [simp]: "ccop_lte a b = (if a \<le> b then -1 else 0)"
  by (auto simp: ccop_lte_def)

lemma ccop_gte_eq [simp]: "ccop_gte a b = (if a \<ge> b then -1 else 0)"
  by (auto simp: ccop_gte_def)

lemma ccop_sel_eq [simp]: "ccop_sel (-1) a b = a" "ccop_sel 0 a b = b"
  by (simp_all add: ccop_sel_def)

section \<open>Counting zero bits\<close>

text \<open>
  The portable loops of \<open>cc_clz64\<close> and \<open>cc_ctz64\<close> (the compiler builtins compute
  the same function on non-zero data).  The counters are \<open>unsigned int\<close>, 32 bits.
\<close>

fun cc_clz64_loop :: "nat \<Rightarrow> nat \<Rightarrow> cc_unit \<Rightarrow> u32 \<Rightarrow> u32" where
  "cc_clz64_loop 0 i data b = b"
| "cc_clz64_loop (Suc k) i data b =
     (let bt = ucast (drop_bit i data AND 1) :: u32;
          b = b + (1 - bt)
      in cc_clz64_loop k (Suc i) data (b AND (bt - 1)))"

definition cc_clz64 :: "cc_unit \<Rightarrow> u32" where
  "cc_clz64 data = cc_clz64_loop 64 0 data 0"

fun cc_ctz64_loop :: "nat \<Rightarrow> cc_unit \<Rightarrow> u32 \<Rightarrow> u32" where
  "cc_ctz64_loop 0 data b = b"
| "cc_ctz64_loop (Suc i) data b =
     (let bt = ucast (drop_bit i data AND 1) :: u32;
          b = b + (1 - bt)
      in cc_ctz64_loop i data (b AND (bt - 1)))"

definition cc_ctz64 :: "cc_unit \<Rightarrow> u32" where
  "cc_ctz64 data = cc_ctz64_loop 64 data 0"

lemma bit_step: "(ucast (drop_bit i (x :: cc_unit) AND 1) :: u32) = of_bool (bit x i)"
  by (rule bit_word_eqI) (auto simp: bit_simps bit_1_iff)

lemma count_step:
  "(b + (1 - of_bool p)) AND (of_bool p - 1 :: u32) = (if p then 0 else b + 1)"
  by simp

lemma mod_Suc_power: "(w :: nat) mod 2 ^ Suc i = w mod 2 ^ i + (if odd (w div 2 ^ i) then 2 ^ i else 0)"
  by (simp add: mod_mult2_eq mult.commute [of 2] odd_iff_mod_2_eq_one)

lemma clz_loop_inv:
  assumes "i + k \<le> 64" and "unat b \<le> i"
    and "unat x mod 2 ^ i < 2 ^ (i - unat b)"
    and "unat b < i \<Longrightarrow> 2 ^ (i - unat b - 1) \<le> unat x mod 2 ^ i"
  shows "unat (cc_clz64_loop k i x b) \<le> i + k \<and>
    unat x mod 2 ^ (i + k) < 2 ^ (i + k - unat (cc_clz64_loop k i x b)) \<and>
    (unat (cc_clz64_loop k i x b) < i + k \<longrightarrow>
      2 ^ (i + k - unat (cc_clz64_loop k i x b) - 1) \<le> unat x mod 2 ^ (i + k))"
  using assms
proof (induction k arbitrary: i b)
  case 0
  then show ?case by simp
next
  case (Suc k)
  let ?b = "if bit x i then 0 else b + 1"
  have b: "unat (b + 1) = unat b + 1"
    using Suc.prems(1,2) by (simp add: unat_word_ariths)
  have step: "cc_clz64_loop (Suc k) i x b = cc_clz64_loop k (Suc i) x ?b"
    by (simp add: bit_step count_step Let_def)
  have m: "unat x mod 2 ^ Suc i = unat x mod 2 ^ i + (if bit x i then 2 ^ i else 0)"
    by (simp only: mod_Suc_power bit_unat_iff)
  have "unat x mod 2 ^ i < 2 ^ i" by simp
  then have "unat x mod 2 ^ Suc i < 2 ^ (Suc i - unat ?b)"
    unfolding m using Suc.prems(3) by (simp add: b)
  moreover have "unat ?b < Suc i \<Longrightarrow> 2 ^ (Suc i - unat ?b - 1) \<le> unat x mod 2 ^ Suc i"
    unfolding m using Suc.prems(4) by (auto simp: b split: if_splits)
  moreover have "unat ?b \<le> Suc i" using Suc.prems(2) by (simp add: b)
  ultimately show ?case
    using Suc.IH [of "Suc i" ?b] Suc.prems(1) unfolding step by simp
qed

text \<open>On non-zero data the count places the data between two powers of two.\<close>

lemma cc_clz64_bounds:
  assumes "x \<noteq> 0"
  shows "unat (cc_clz64 x) < 64" "unat x < 2 ^ (64 - unat (cc_clz64 x))"
    "2 ^ (63 - unat (cc_clz64 x)) \<le> unat x"
proof -
  let ?c = "unat (cc_clz64 x)"
  have m: "unat x mod 2 ^ 64 = unat x" using word_bound [of x] by simp
  have inv: "?c \<le> 64 \<and> unat x < 2 ^ (64 - ?c) \<and> (?c < 64 \<longrightarrow> 2 ^ (64 - ?c - 1) \<le> unat x)"
    using clz_loop_inv [of 0 64 0 x] unfolding cc_clz64_def by (simp add: m [simplified])
  with assms show c: "?c < 64" by (cases "?c = 64") (auto simp: unat_0_iff)
  with inv show "unat x < 2 ^ (64 - ?c)" "2 ^ (63 - ?c) \<le> unat x" by (simp_all add: diff_diff_eq)
qed

lemma ctz_loop_inv:
  assumes "i \<le> 64" and "unat b \<le> 64 - i"
    and "2 ^ unat b dvd unat x div 2 ^ i"
    and "unat b < 64 - i \<Longrightarrow> odd (unat x div 2 ^ i div 2 ^ unat b)"
    and "unat b = 64 - i \<Longrightarrow> unat x div 2 ^ i = 0"
  shows "unat (cc_ctz64_loop i x b) \<le> 64 \<and> 2 ^ unat (cc_ctz64_loop i x b) dvd unat x \<and>
    (unat (cc_ctz64_loop i x b) < 64 \<longrightarrow> odd (unat x div 2 ^ unat (cc_ctz64_loop i x b))) \<and>
    (unat (cc_ctz64_loop i x b) = 64 \<longrightarrow> unat x = 0)"
  using assms
proof (induction i arbitrary: b)
  case 0
  then show ?case by auto
next
  case (Suc i)
  let ?b = "if bit x i then 0 else b + 1"
  have b: "unat (b + 1) = unat b + 1"
    using Suc.prems(1,2) by (simp add: unat_word_ariths)
  have step: "cc_ctz64_loop (Suc i) x b = cc_ctz64_loop i x ?b"
    by (simp add: bit_step count_step Let_def)
  have halve: "unat x div 2 ^ i = 2 * (unat x div 2 ^ Suc i) + of_bool (bit x i)"
    unfolding bit_unat_iff power_Suc2 div_mult2_eq by simp
  have "2 ^ unat ?b dvd unat x div 2 ^ i"
    unfolding halve using Suc.prems(3) by (simp add: b)
  moreover have "odd (unat x div 2 ^ i div 2 ^ unat ?b)" if "unat ?b < 64 - i"
    unfolding halve using Suc.prems(4) that by (simp add: b split: if_splits)
  moreover have "unat x div 2 ^ i = 0" if "unat ?b = 64 - i"
  proof -
    from that Suc.prems(1) have "\<not> bit x i" by (auto split: if_splits)
    with that Suc.prems(5) show ?thesis unfolding halve by (simp add: b)
  qed
  moreover have "unat ?b \<le> 64 - i"
  proof (cases "bit x i")
    case False
    with Suc.prems(1,2) show ?thesis by (simp add: b)
  qed simp
  ultimately show ?case
    using Suc.IH [of ?b] Suc.prems(1) unfolding step by simp
qed

text \<open>On non-zero data the count is the exponent of two in the data.\<close>

lemma cc_ctz64_spec:
  assumes "x \<noteq> 0"
  shows "unat (cc_ctz64 x) < 64" "2 ^ unat (cc_ctz64 x) dvd unat x"
    "odd (unat x div 2 ^ unat (cc_ctz64 x))"
proof -
  let ?c = "unat (cc_ctz64 x)"
  have inv: "?c \<le> 64 \<and> 2 ^ ?c dvd unat x \<and> (?c < 64 \<longrightarrow> odd (unat x div 2 ^ ?c)) \<and> (?c = 64 \<longrightarrow> unat x = 0)"
    unfolding cc_ctz64_def by (rule ctz_loop_inv) (use word_bound [of x] in simp_all)
  with assms show c: "?c < 64" by (cases "?c = 64") (auto simp: unat_0_iff)
  with inv show "2 ^ ?c dvd unat x" "odd (unat x div 2 ^ ?c)" by simp_all
qed

section \<open>Byte arrays\<close>

text \<open>
  \<open>cc_xor\<close> runs its index downwards and writes each position once, so the result
  does not depend on \<open>r\<close> being \<open>s\<close> or \<open>t\<close> itself.
\<close>

fun cc_xor :: "nat \<Rightarrow> bytes \<Rightarrow> bytes \<Rightarrow> bytes" where
  "cc_xor 0 s t = []"
| "cc_xor (Suc n) s t = cc_xor n s t @ [s ! n XOR t ! n]"

lemma length_cc_xor [len_simps, simp]: "length (cc_xor n s t) = n"
  by (induction n) simp_all

lemma nth_cc_xor: "i < n \<Longrightarrow> cc_xor n s t ! i = s ! i XOR t ! i"
  by (induction n) (auto simp: nth_append less_Suc_eq)

lemma cc_xor_cancel:
  assumes "length s = n"
  shows "cc_xor n (cc_xor n s t) t = s" "cc_xor n t (cc_xor n s t) = s"
    "cc_xor n (cc_xor n t s) t = s"
  using assms by (auto intro!: nth_equalityI simp: nth_cc_xor xor.assoc xor.left_commute xor.commute)

fun cc_cmp_loop :: "bytes \<Rightarrow> bytes \<Rightarrow> nat \<Rightarrow> nat \<Rightarrow> byte \<Rightarrow> byte" where
  "cc_cmp_loop s t 0 i flag = flag"
| "cc_cmp_loop s t (Suc k) i flag = cc_cmp_loop s t k (Suc i) (flag OR (s ! i XOR t ! i))"

definition cc_cmp_safe :: "nat \<Rightarrow> bytes \<Rightarrow> bytes \<Rightarrow> int" where
  "cc_cmp_safe num ptr1 ptr2 =
     (let flag = cc_cmp_loop ptr1 ptr2 num 0 (if num \<le> 0 then 1 else 0);
          flag = ucast (cc_heaviside_step (ucast flag)) :: byte
      in uint flag)"

lemma cc_cmp_loop_0:
  "cc_cmp_loop s t k i flag = 0 \<longleftrightarrow> flag = 0 \<and> (\<forall>j < k. s ! (i + j) = t ! (i + j))"
proof (induction k arbitrary: i flag)
  case 0
  then show ?case by simp
next
  case (Suc k)
  have "(\<forall>j < Suc k. s ! (i + j) = t ! (i + j)) \<longleftrightarrow>
      s ! i = t ! i \<and> (\<forall>j < k. s ! (Suc i + j) = t ! (Suc i + j))"
    by (auto simp: less_Suc_eq_0_disj)
  with Suc.IH show ?case by (auto simp: or_eq_0_iff xor_eq_0_word)
qed

lemma cc_cmp_safe_eq:
  "cc_cmp_safe num s t = (if 0 < num \<and> (\<forall>j < num. s ! j = t ! j) then 0 else 1)"
proof -
  have u: "(ucast (f :: byte) :: cc_unit) = 0 \<longleftrightarrow> f = 0" for f
    using unat_ucast_byte [of f, where 'a = 64] by (simp add: word_unat_eq_iff)
  show ?thesis
    by (auto simp: cc_cmp_safe_def Let_def u cc_cmp_loop_0)
qed

lemma cc_cmp_safe_take:
  assumes "num \<le> length s" "num \<le> length t"
  shows "cc_cmp_safe num s t = 0 \<longleftrightarrow> 0 < num \<and> take num s = take num t"
proof -
  have "take num s = take num t \<longleftrightarrow> (\<forall>j < num. s ! j = t ! j)"
    using assms by (auto simp: list_eq_iff_nth_eq)
  then show ?thesis by (auto simp: cc_cmp_safe_eq)
qed

end
