(* ===== verification/Ccn_Arith.thy ===== *)
theory Ccn_Arith
  imports Cc_Priv
begin

unbundle bit_operations_syntax

text \<open>
  Multiprecision addition, subtraction and comparison (\<open>ccn/src\<close>).  A bignum of
  \<open>n\<close> units is a list of \<open>n\<close> 64-bit words, least significant first, and its number
  is \<open>ccn_val\<close>.  A C function that fills \<open>r\<close> and returns a carry is a HOL function
  to the pair of the carry and the contents of \<open>r\<close>.  Each loop reads and writes
  index \<open>i\<close> only in round \<open>i\<close>, so the results hold for \<open>r\<close> overlapping \<open>s\<close> or \<open>t\<close>
  exactly, which the callers use.
\<close>

section \<open>Addition\<close>

fun ccn_add_loop :: "cc_dunit \<Rightarrow> units \<Rightarrow> units \<Rightarrow> cc_dunit \<times> units" where
  "ccn_add_loop carry (s # ss) (t # ts) =
     (let carry = carry + (ucast s + ucast t);
          r = ucast carry;
          (c, rs) = ccn_add_loop (drop_bit 64 carry) ss ts
      in (c, r # rs))"
| "ccn_add_loop carry _ _ = (carry, [])"

definition ccn_add :: "nat \<Rightarrow> units \<Rightarrow> units \<Rightarrow> cc_unit \<times> units" where
  "ccn_add count s t =
     (let (carry, r) = ccn_add_loop 0 (take count s) (take count t) in (ucast carry, r))"

fun ccn_add1_loop :: "cc_dunit \<Rightarrow> units \<Rightarrow> cc_dunit \<times> units" where
  "ccn_add1_loop carry (s # ss) =
     (let carry = carry + ucast s;
          r = ucast carry;
          (c, rs) = ccn_add1_loop (drop_bit 64 carry) ss
      in (c, r # rs))"
| "ccn_add1_loop carry [] = (carry, [])"

definition ccn_add1 :: "nat \<Rightarrow> units \<Rightarrow> cc_unit \<Rightarrow> cc_unit \<times> units" where
  "ccn_add1 n s v =
     (if n = 0 then (v, [])
      else let (carry, r) = ccn_add1_loop (ucast v) (take n s) in (ucast carry, r))"

text \<open>The double-width accumulator never overflows: its low half is the digit, its high half the carry.\<close>

lemma unat_ucast_unit [simp]: "unat (ucast (x :: cc_unit) :: cc_dunit) = unat x"
  using word_bound [of x] by (simp add: unat_ucast_mod)

lemma dunit_split:
  fixes d :: cc_dunit
  shows "unat (ucast d :: cc_unit) + 2 ^ 64 * unat (drop_bit 64 d) = unat d"
    and "unat (drop_bit 64 d) < 2 ^ 64"
proof -
  show "unat (ucast d :: cc_unit) + 2 ^ 64 * unat (drop_bit 64 d) = unat d"
    using nat_split_bits [of "unat d" 64] by (simp add: unat_ucast_mod unat_drop_bit_div)
  have "unat d < 2 ^ 64 * 2 ^ 64" using word_bound [of d] by simp
  then show "unat (drop_bit 64 d) < 2 ^ 64"
    by (simp only: unat_drop_bit_div less_mult_imp_div_less)
qed

lemma unat_dadd:
  "unat c + unat d < 2 ^ 128 \<Longrightarrow> unat (c + d :: cc_dunit) = unat c + unat d"
  by (simp add: unat_word_ariths)

lemma ccn_add_loop_val:
  assumes "length ss = length ts" "unat carry \<le> 1" "ccn_add_loop carry ss ts = (c, r)"
  shows "length r = length ss \<and> unat c \<le> 1 \<and>
    ccn_val r + 2 ^ (64 * length ss) * unat c = ccn_val ss + ccn_val ts + unat carry"
  using assms
proof (induction ss ts arbitrary: carry c r rule: list_induct2)
  case Nil
  then show ?case by simp
next
  case (Cons s ss t ts)
  let ?d = "carry + (ucast s + ucast t) :: cc_dunit"
  have st: "unat s < 2 ^ 64" "unat t < 2 ^ 64" using word_bound [of s] word_bound [of t] by simp_all
  then have d: "unat ?d = unat carry + unat s + unat t"
    using Cons.prems(1) by (simp add: unat_dadd)
  from Cons.prems(2) obtain rs where rs: "ccn_add_loop (drop_bit 64 ?d) ss ts = (c, rs)"
    and r: "r = ucast ?d # rs" by (auto simp: Let_def split: prod.splits)
  have hi: "unat (drop_bit 64 ?d) \<le> 1"
    unfolding unat_drop_bit_div d using st Cons.prems(1) by simp
  from Cons.IH [OF hi rs] have "length rs = length ss" "unat c \<le> 1"
    and v: "ccn_val rs + 2 ^ (64 * length ss) * unat c = ccn_val ss + ccn_val ts + unat (drop_bit 64 ?d)"
    by simp_all
  moreover have "ccn_val r + 2 ^ (64 * length (s # ss)) * unat c =
      ccn_val (s # ss) + ccn_val (t # ts) + unat carry"
    using dunit_split(1) [of ?d] d arg_cong [OF v, of "\<lambda>x. 2 ^ 64 * x"]
    by (simp add: r algebra_simps power_add)
  ultimately show ?case by (simp add: r)
qed

lemma ccn_add_val:
  assumes "length s = n" "length t = n" "ccn_add n s t = (c, r)"
  shows "length r = n" "unat c \<le> 1"
    "ccn_val r + 2 ^ (64 * n) * unat c = ccn_val s + ccn_val t"
proof -
  from assms obtain d where d: "ccn_add_loop 0 s t = (d, r)" and c: "c = ucast d"
    by (auto simp: ccn_add_def split: prod.splits)
  from ccn_add_loop_val [OF _ _ d] assms(1,2) have *: "length r = n" "unat d \<le> 1"
    "ccn_val r + 2 ^ (64 * n) * unat d = ccn_val s + ccn_val t" by simp_all
  moreover from *(2) have "unat c = unat d" by (simp add: c unat_ucast_mod)
  ultimately show "length r = n" "unat c \<le> 1"
    "ccn_val r + 2 ^ (64 * n) * unat c = ccn_val s + ccn_val t" by simp_all
qed

lemma ccn_add1_loop_val:
  assumes "unat carry < 2 ^ 64" "ccn_add1_loop carry ss = (c, r)"
  shows "length r = length ss \<and> unat c < 2 ^ 64 \<and> (ss \<noteq> [] \<longrightarrow> unat c \<le> 1) \<and>
    ccn_val r + 2 ^ (64 * length ss) * unat c = ccn_val ss + unat carry"
  using assms
proof (induction ss arbitrary: carry c r)
  case Nil
  then show ?case by simp
next
  case (Cons s ss)
  let ?d = "carry + ucast s :: cc_dunit"
  have s: "unat s < 2 ^ 64" using word_bound [of s] by simp
  then have d: "unat ?d = unat carry + unat s" using Cons.prems(1) by (simp add: unat_dadd)
  from Cons.prems(2) obtain rs where rs: "ccn_add1_loop (drop_bit 64 ?d) ss = (c, rs)"
    and r: "r = ucast ?d # rs" by (auto simp: Let_def split: prod.splits)
  have "unat carry + unat s < 2 * 2 ^ 64" using s Cons.prems(1) by simp
  then have "unat (drop_bit 64 ?d) < 2" unfolding unat_drop_bit_div d by (rule less_mult_imp_div_less)
  then have hi: "unat (drop_bit 64 ?d) < 2 ^ 64" and hi1: "unat (drop_bit 64 ?d) \<le> 1" by simp_all
  from Cons.IH [OF hi rs] have IH: "length rs = length ss" "unat c < 2 ^ 64" "ss \<noteq> [] \<Longrightarrow> unat c \<le> 1"
    and v: "ccn_val rs + 2 ^ (64 * length ss) * unat c = ccn_val ss + unat (drop_bit 64 ?d)"
    by simp_all
  have "unat c \<le> 1" using IH(3) hi1 v by (cases "ss = []") (auto simp: \<open>length rs = length ss\<close>)
  moreover have "ccn_val r + 2 ^ (64 * length (s # ss)) * unat c = ccn_val (s # ss) + unat carry"
    using dunit_split(1) [of ?d] d arg_cong [OF v, of "\<lambda>x. 2 ^ 64 * x"]
    by (simp add: r algebra_simps power_add)
  ultimately show ?case using IH by (simp add: r)
qed

lemma ccn_add1_val:
  assumes "length s = n" "ccn_add1 n s v = (c, r)"
  shows "length r = n" "0 < n \<Longrightarrow> unat c \<le> 1"
    "ccn_val r + 2 ^ (64 * n) * unat c = ccn_val s + unat v"
proof -
  have "length r = n \<and> (0 < n \<longrightarrow> unat c \<le> 1) \<and> ccn_val r + 2 ^ (64 * n) * unat c = ccn_val s + unat v"
  proof (cases "n = 0")
    case True
    with assms show ?thesis by (simp add: ccn_add1_def)
  next
    case False
    with assms obtain d where d: "ccn_add1_loop (ucast v) s = (d, r)" and c: "c = ucast d"
      by (auto simp: ccn_add1_def split: prod.splits)
    from ccn_add1_loop_val [OF _ d] assms(1) False word_bound [of v]
    have *: "length r = n" "unat d \<le> 1" "ccn_val r + 2 ^ (64 * n) * unat d = ccn_val s + unat v"
      by auto
    moreover from *(2) have "unat c = unat d" by (simp add: c unat_ucast_mod)
    ultimately show ?thesis by simp
  qed
  then show "length r = n" "0 < n \<Longrightarrow> unat c \<le> 1"
    "ccn_val r + 2 ^ (64 * n) * unat c = ccn_val s + unat v" by simp_all
qed

text \<open>A sum and its carry are determined by the number they stand for.\<close>

lemma val_carry_unique:
  assumes "length r = n" "length r' = n"
    "ccn_val r + 2 ^ (64 * n) * unat c = ccn_val r' + 2 ^ (64 * n) * unat (c' :: cc_unit)"
  shows "r = r'" "c = (c' :: cc_unit)"
proof -
  let ?B = "2 ^ (64 * n) :: nat"
  have b: "ccn_val r < ?B" "ccn_val r' < ?B" using ccn_val_bound assms by metis+
  have "ccn_val r = (ccn_val r + ?B * unat c) mod ?B" using b by simp
  also have "\<dots> = ccn_val r'" unfolding assms(3) using b by simp
  finally have "ccn_val r = ccn_val r'" .
  then show "r = r'" using ccn_val_inj [of r r'] assms by simp
  with assms(3) show "c = c'" by (simp add: word_unat_eq_iff)
qed

text \<open>
  The variant for compilers without a 128-bit integer adds the two halves of each unit
  in 64-bit arithmetic (\<open>ccn_add.c\<close>, the \<open>#else\<close> branch).
\<close>

definition CCN_UNIT_LOWER_HALF_MASK :: cc_unit where
  "CCN_UNIT_LOWER_HALF_MASK = drop_bit 32 (NOT 0)"

fun ccn_add_half_loop :: "cc_unit \<Rightarrow> units \<Rightarrow> units \<Rightarrow> cc_unit \<times> units" where
  "ccn_add_half_loop carry (s # ss) (t # ts) =
     (let carry = carry + (s AND CCN_UNIT_LOWER_HALF_MASK);
          carry = carry + (t AND CCN_UNIT_LOWER_HALF_MASK);
          lo = carry AND CCN_UNIT_LOWER_HALF_MASK;
          carry = drop_bit 32 carry;
          carry = carry + drop_bit 32 s;
          carry = carry + drop_bit 32 t;
          r = push_bit 32 carry OR lo;
          (c, rs) = ccn_add_half_loop (drop_bit 32 carry) ss ts
      in (c, r # rs))"
| "ccn_add_half_loop carry _ _ = (carry, [])"

definition ccn_add_half :: "nat \<Rightarrow> units \<Rightarrow> units \<Rightarrow> cc_unit \<times> units" where
  "ccn_add_half count s t = ccn_add_half_loop 0 (take count s) (take count t)"

lemma lower_half_mask: "CCN_UNIT_LOWER_HALF_MASK = mask 32"
  by (rule bit_word_eqI) (auto simp: CCN_UNIT_LOWER_HALF_MASK_def bit_simps)

lemma unat_uadd: "unat a + unat b < 2 ^ 64 \<Longrightarrow> unat (a + b :: cc_unit) = unat a + unat b"
  by (simp add: unat_word_ariths)

lemma unat_halves: "unat (drop_bit 32 (a :: cc_unit)) < 2 ^ 32" "unat (a AND mask 32) < 2 ^ 32"
proof -
  have "unat a < 2 ^ 32 * 2 ^ 32" using word_bound [of a] by simp
  then show "unat (drop_bit 32 a) < 2 ^ 32"
    by (simp only: unat_drop_bit_div less_mult_imp_div_less)
  show "unat (a AND mask 32) < 2 ^ 32" by (simp only: unat_and_mask) simp
qed

lemma half_join:
  assumes "unat lo < 2 ^ 32"
  shows "unat (push_bit 32 c OR lo :: cc_unit) + 2 ^ 64 * unat (drop_bit 32 c) = 2 ^ 32 * unat c + unat lo"
proof -
  have "push_bit 32 c = push_bit 32 (c AND mask 32)"
    by (rule bit_word_eqI) (auto simp: bit_simps)
  then have "unat (push_bit 32 c OR lo) = 2 ^ 32 * (unat c mod 2 ^ 32) + unat lo"
    using unat_or_push_bit [of lo 32 "c AND mask 32"] assms unat_halves(2) [of c]
    by (simp add: unat_and_mask mult.commute)
  moreover have "2 ^ 32 * unat c = 2 ^ 64 * (unat c div 2 ^ 32) + 2 ^ 32 * (unat c mod 2 ^ 32)"
    using arg_cong [OF nat_split_bits [of "unat c" 32], of "\<lambda>x. 2 ^ 32 * x"] by (simp only: distrib_left) simp
  ultimately show ?thesis by (simp only: unat_drop_bit_div)
qed

lemma ccn_add_half_step:
  fixes carry s t :: cc_unit
  assumes "unat carry \<le> 1"
  defines "c1 \<equiv> carry + (s AND mask 32) + (t AND mask 32) :: cc_unit"
  defines "c2 \<equiv> drop_bit 32 c1 + drop_bit 32 s + drop_bit 32 t"
  shows "unat (drop_bit 32 c2) \<le> 1"
    "unat (push_bit 32 c2 OR (c1 AND mask 32)) + 2 ^ 64 * unat (drop_bit 32 c2) =
     unat s + unat t + unat carry"
proof -
  note h = unat_halves [of s] unat_halves [of t]
  have c1: "unat c1 = unat carry + unat (s AND mask 32) + unat (t AND mask 32)"
    unfolding c1_def using h assms(1) by (simp add: unat_uadd)
  then have "unat c1 < 2 * 2 ^ 32 + 2 ^ 32" using h assms(1) by simp
  have hi1: "unat (drop_bit 32 c1) \<le> 1"
    unfolding unat_drop_bit_div c1 using h assms(1) by simp
  have c2: "unat c2 = unat (drop_bit 32 c1) + unat (drop_bit 32 s) + unat (drop_bit 32 t)"
    unfolding c2_def using h hi1 by (simp add: unat_uadd)
  show "unat (drop_bit 32 c2) \<le> 1"
    unfolding unat_drop_bit_div [of 32 c2] c2 using h hi1 by simp
  have split: "unat x = 2 ^ 32 * unat (drop_bit 32 x) + unat (x AND mask 32)" for x :: cc_unit
    unfolding unat_drop_bit_div unat_and_mask by (rule nat_split_bits)
  show "unat (push_bit 32 c2 OR (c1 AND mask 32)) + 2 ^ 64 * unat (drop_bit 32 c2) =
     unat s + unat t + unat carry"
    unfolding half_join [OF unat_halves(2)] c2
    using c1 split [of c1] split [of s] split [of t] by simp
qed

lemma ccn_add_half_loop_val:
  assumes "length ss = length ts" "unat carry \<le> 1" "ccn_add_half_loop carry ss ts = (c, r)"
  shows "length r = length ss \<and> unat c \<le> 1 \<and>
    ccn_val r + 2 ^ (64 * length ss) * unat c = ccn_val ss + ccn_val ts + unat carry"
  using assms
proof (induction ss ts arbitrary: carry c r rule: list_induct2)
  case Nil
  then show ?case by simp
next
  case (Cons s ss t ts)
  define c1 where "c1 = carry + (s AND mask 32) + (t AND mask 32)"
  define c2 where "c2 = drop_bit 32 c1 + drop_bit 32 s + drop_bit 32 t"
  note step = ccn_add_half_step [OF Cons.prems(1), of s t, folded c1_def, folded c2_def]
  from Cons.prems(2) obtain rs where rs: "ccn_add_half_loop (drop_bit 32 c2) ss ts = (c, rs)"
    and r: "r = (push_bit 32 c2 OR (c1 AND mask 32)) # rs"
    by (auto simp: Let_def lower_half_mask c1_def c2_def split: prod.splits)
  from Cons.IH [OF step(1) rs] have "length rs = length ss" "unat c \<le> 1"
    and v: "ccn_val rs + 2 ^ (64 * length ss) * unat c = ccn_val ss + ccn_val ts + unat (drop_bit 32 c2)"
    by simp_all
  moreover have "ccn_val r + 2 ^ (64 * length (s # ss)) * unat c =
      ccn_val (s # ss) + ccn_val (t # ts) + unat carry"
    using step(2) arg_cong [OF v, of "\<lambda>x. 2 ^ 64 * x"]
    by (simp add: r algebra_simps power_add)
  ultimately show ?case by (simp add: r)
qed

lemma ccn_add_half_eq:
  assumes "length s = n" "length t = n"
  shows "ccn_add_half n s t = ccn_add n s t"
proof -
  obtain c r c' r' where e: "ccn_add n s t = (c, r)" "ccn_add_half n s t = (c', r')"
    by (metis prod.exhaust)
  note a = ccn_add_val [OF assms e(1)]
  have h: "length r' = n" "ccn_val r' + 2 ^ (64 * n) * unat c' = ccn_val s + ccn_val t"
    using ccn_add_half_loop_val [of s t 0 c' r'] e(2) assms by (simp_all add: ccn_add_half_def)
  from val_carry_unique [of r n r' c c'] a h e show ?thesis by simp
qed

section \<open>Subtraction\<close>

fun ccn_sub_loop :: "cc_dunit \<Rightarrow> units \<Rightarrow> units \<Rightarrow> cc_dunit \<times> units" where
  "ccn_sub_loop borrow (s # ss) (t # ts) =
     (let borrow = ucast s - ucast t - borrow;
          r = ucast borrow;
          (b, rs) = ccn_sub_loop (drop_bit (64 * 2 - 1) borrow) ss ts
      in (b, r # rs))"
| "ccn_sub_loop borrow _ _ = (borrow, [])"

definition ccn_sub :: "nat \<Rightarrow> units \<Rightarrow> units \<Rightarrow> cc_unit \<times> units" where
  "ccn_sub count s t =
     (let (borrow, r) = ccn_sub_loop 0 (take count s) (take count t) in (ucast borrow, r))"

fun ccn_sub1_loop :: "cc_dunit \<Rightarrow> units \<Rightarrow> cc_dunit \<times> units" where
  "ccn_sub1_loop borrow (s # ss) =
     (let borrow = ucast s - borrow;
          r = ucast borrow;
          (b, rs) = ccn_sub1_loop (drop_bit (64 * 2 - 1) borrow) ss
      in (b, r # rs))"
| "ccn_sub1_loop borrow [] = (borrow, [])"

definition ccn_sub1 :: "nat \<Rightarrow> units \<Rightarrow> cc_unit \<Rightarrow> cc_unit \<times> units" where
  "ccn_sub1 n s v =
     (if n = 0 then (v, [])
      else let (borrow, r) = ccn_sub1_loop (ucast v) (take n s) in (ucast borrow, r))"

text \<open>Bit 127 of the double-width difference is the borrow.\<close>

lemma ccn_sub_step:
  fixes y :: cc_dunit and s :: cc_unit
  assumes "unat y \<le> 2 ^ 64"
  defines "d \<equiv> ucast s - y"
  shows "unat (drop_bit (64 * 2 - 1) d) \<le> 1"
    "unat (ucast d :: cc_unit) + unat y = unat s + 2 ^ 64 * unat (drop_bit (64 * 2 - 1) d)"
proof -
  have s: "unat s < 2 ^ 64" using word_bound [of s] by simp
  have d: "unat d = (if unat y \<le> unat s then unat s - unat y else unat s + 2 ^ 128 - unat y)"
    unfolding d_def by (simp add: unat_sub_if_size word_size)
  show "unat (drop_bit (64 * 2 - 1) d) \<le> 1"
    unfolding unat_drop_bit_div using word_bound [of d] by simp
  show "unat (ucast d :: cc_unit) + unat y = unat s + 2 ^ 64 * unat (drop_bit (64 * 2 - 1) d)"
  proof (cases "unat y \<le> unat s")
    case True
    with d s show ?thesis by (simp add: unat_ucast_mod unat_drop_bit_div)
  next
    case False
    define k where "k = unat s + 2 ^ 64 - unat y"
    have k: "k < 2 ^ 64" "k + unat y = unat s + 2 ^ 64" using False assms(1) by (simp_all add: k_def)
    have "unat d = k + 2 ^ 64 * (2 ^ 64 - 1)" using d False assms(1) by (simp add: k_def)
    then have "unat d mod 2 ^ 64 = k" "unat d div 2 ^ 127 = 1"
      using k(1) by (simp_all only: mod_mult_self2 mod_less) simp
    with k show ?thesis by (simp add: unat_ucast_mod unat_drop_bit_div)
  qed
qed

lemma ccn_sub_loop_val:
  assumes "length ss = length ts" "unat borrow \<le> 1" "ccn_sub_loop borrow ss ts = (b, r)"
  shows "length r = length ss \<and> unat b \<le> 1 \<and>
    ccn_val r + ccn_val ts + unat borrow = ccn_val ss + 2 ^ (64 * length ss) * unat b"
  using assms
proof (induction ss ts arbitrary: borrow b r rule: list_induct2)
  case Nil
  then show ?case by simp
next
  case (Cons s ss t ts)
  define y where "y = ucast t + borrow"
  have "unat t < 2 ^ 64" using word_bound [of t] by simp
  then have y: "unat y = unat t + unat borrow" "unat y \<le> 2 ^ 64"
    using Cons.prems(1) by (simp_all add: y_def unat_dadd)
  define d where "d = ucast s - y"
  have d_eq: "ucast s - ucast t - borrow = d" by (simp add: d_def y_def)
  note step = ccn_sub_step [OF y(2), of s, folded d_def]
  from Cons.prems(2) obtain rs where rs: "ccn_sub_loop (drop_bit (64 * 2 - 1) d) ss ts = (b, rs)"
    and r: "r = ucast d # rs" by (auto simp: Let_def d_eq split: prod.splits)
  from Cons.IH [OF step(1) rs] have "length rs = length ss" "unat b \<le> 1"
    and v: "ccn_val rs + ccn_val ts + unat (drop_bit (64 * 2 - 1) d) =
      ccn_val ss + 2 ^ (64 * length ss) * unat b"
    by simp_all
  moreover have "ccn_val r + ccn_val (t # ts) + unat borrow =
      ccn_val (s # ss) + 2 ^ (64 * length (s # ss)) * unat b"
    using step(2) y(1) arg_cong [OF v, of "\<lambda>x. 2 ^ 64 * x"]
    by (simp add: r algebra_simps power_add)
  ultimately show ?case by (simp add: r)
qed

lemma ccn_sub_val:
  assumes "length s = n" "length t = n" "ccn_sub n s t = (b, r)"
  shows "length r = n" "unat b \<le> 1"
    "ccn_val r + ccn_val t = ccn_val s + 2 ^ (64 * n) * unat b"
proof -
  from assms obtain d where d: "ccn_sub_loop 0 s t = (d, r)" and b: "b = ucast d"
    by (auto simp: ccn_sub_def split: prod.splits)
  from ccn_sub_loop_val [OF _ _ d] assms(1,2) have *: "length r = n" "unat d \<le> 1"
    "ccn_val r + ccn_val t = ccn_val s + 2 ^ (64 * n) * unat d" by simp_all
  moreover from *(2) have "unat b = unat d" by (simp add: b unat_ucast_mod)
  ultimately show "length r = n" "unat b \<le> 1"
    "ccn_val r + ccn_val t = ccn_val s + 2 ^ (64 * n) * unat b" by simp_all
qed

lemma ccn_sub1_loop_val:
  assumes "unat borrow < 2 ^ 64" "ccn_sub1_loop borrow ss = (b, r)"
  shows "length r = length ss \<and> unat b < 2 ^ 64 \<and> (ss \<noteq> [] \<longrightarrow> unat b \<le> 1) \<and>
    ccn_val r + unat borrow = ccn_val ss + 2 ^ (64 * length ss) * unat b"
  using assms
proof (induction ss arbitrary: borrow b r)
  case Nil
  then show ?case by simp
next
  case (Cons s ss)
  define d where "d = ucast s - borrow"
  have "unat borrow \<le> 2 ^ 64" using Cons.prems(1) by simp
  note step = ccn_sub_step [OF this, of s, folded d_def]
  from Cons.prems(2) obtain rs where rs: "ccn_sub1_loop (drop_bit (64 * 2 - 1) d) ss = (b, rs)"
    and r: "r = ucast d # rs" by (auto simp: Let_def d_def split: prod.splits)
  have "unat (drop_bit (64 * 2 - 1) d) < 2 ^ 64" using step(1) by simp
  from Cons.IH [OF this rs] have IH: "length rs = length ss" "unat b < 2 ^ 64" "ss \<noteq> [] \<Longrightarrow> unat b \<le> 1"
    and v: "ccn_val rs + unat (drop_bit (64 * 2 - 1) d) = ccn_val ss + 2 ^ (64 * length ss) * unat b"
    by simp_all
  have "unat b \<le> 1" using IH step(1) v by (cases "ss = []") auto
  moreover have "ccn_val r + unat borrow = ccn_val (s # ss) + 2 ^ (64 * length (s # ss)) * unat b"
    using step(2) arg_cong [OF v, of "\<lambda>x. 2 ^ 64 * x"]
    by (simp add: r algebra_simps power_add)
  ultimately show ?case using IH by (simp add: r)
qed

lemma ccn_sub1_val:
  assumes "length s = n" "ccn_sub1 n s v = (b, r)"
  shows "length r = n" "0 < n \<Longrightarrow> unat b \<le> 1"
    "ccn_val r + unat v = ccn_val s + 2 ^ (64 * n) * unat b"
proof -
  have "length r = n \<and> (0 < n \<longrightarrow> unat b \<le> 1) \<and> ccn_val r + unat v = ccn_val s + 2 ^ (64 * n) * unat b"
  proof (cases "n = 0")
    case True
    with assms show ?thesis by (simp add: ccn_sub1_def)
  next
    case False
    with assms obtain d where d: "ccn_sub1_loop (ucast v) s = (d, r)" and b: "b = ucast d"
      by (auto simp: ccn_sub1_def split: prod.splits)
    from ccn_sub1_loop_val [OF _ d] assms(1) False word_bound [of v]
    have *: "length r = n" "unat d \<le> 1" "ccn_val r + unat v = ccn_val s + 2 ^ (64 * n) * unat d"
      by auto
    moreover from *(2) have "unat b = unat d" by (simp add: b unat_ucast_mod)
    ultimately show ?thesis by simp
  qed
  then show "length r = n" "0 < n \<Longrightarrow> unat b \<le> 1"
    "ccn_val r + unat v = ccn_val s + 2 ^ (64 * n) * unat b" by simp_all
qed

text \<open>The half-word variant borrows from bit 63 of each 32-bit difference.\<close>

fun ccn_sub_half_loop :: "cc_unit \<Rightarrow> units \<Rightarrow> units \<Rightarrow> cc_unit \<times> units" where
  "ccn_sub_half_loop borrow (s # ss) (t # ts) =
     (let borrow = (s AND CCN_UNIT_LOWER_HALF_MASK) - (t AND CCN_UNIT_LOWER_HALF_MASK) - borrow;
          lo = borrow AND CCN_UNIT_LOWER_HALF_MASK;
          borrow = drop_bit (64 - 1) borrow;
          borrow = drop_bit 32 s - drop_bit 32 t - borrow;
          r = push_bit 32 borrow OR lo;
          (b, rs) = ccn_sub_half_loop (drop_bit (64 - 1) borrow) ss ts
      in (b, r # rs))"
| "ccn_sub_half_loop borrow _ _ = (borrow, [])"

definition ccn_sub_half :: "nat \<Rightarrow> units \<Rightarrow> units \<Rightarrow> cc_unit \<times> units" where
  "ccn_sub_half count s t = ccn_sub_half_loop 0 (take count s) (take count t)"

lemma sub_half_digit:
  fixes a x :: cc_unit
  assumes "unat a < 2 ^ 32" "unat x \<le> 2 ^ 32"
  shows "unat (drop_bit 63 (a - x)) \<le> 1"
    "unat ((a - x) AND mask 32) + unat x = unat a + 2 ^ 32 * unat (drop_bit 63 (a - x))"
proof -
  define d where "d = a - x"
  have d: "unat d = (if unat x \<le> unat a then unat a - unat x else unat a + 2 ^ 64 - unat x)"
    unfolding d_def by (simp add: unat_sub_if_size word_size)
  have "unat (drop_bit 63 d) \<le> 1"
    unfolding unat_drop_bit_div using word_bound [of d] by simp
  moreover have "unat (d AND mask 32) + unat x = unat a + 2 ^ 32 * unat (drop_bit 63 d)"
  proof (cases "unat x \<le> unat a")
    case True
    with d assms show ?thesis by (simp add: unat_and_mask unat_drop_bit_div)
  next
    case False
    define k where "k = unat a + 2 ^ 32 - unat x"
    have k: "k < 2 ^ 32" "k + unat x = unat a + 2 ^ 32" using False assms by (simp_all add: k_def)
    have "unat d = k + 2 ^ 32 * (2 ^ 32 - 1)" using d False assms by (simp add: k_def)
    then have "unat d mod 2 ^ 32 = k" "unat d div 2 ^ 63 = 1"
      using k(1) by (simp_all only: mod_mult_self2 mod_less) simp
    with k show ?thesis by (simp add: unat_and_mask unat_drop_bit_div)
  qed
  ultimately show "unat (drop_bit 63 (a - x)) \<le> 1"
    "unat ((a - x) AND mask 32) + unat x = unat a + 2 ^ 32 * unat (drop_bit 63 (a - x))"
    by (simp_all add: d_def)
qed

lemma ccn_sub_half_step:
  fixes borrow s t :: cc_unit
  assumes "unat borrow \<le> 1"
  defines "d1 \<equiv> (s AND mask 32) - ((t AND mask 32) + borrow)"
  defines "d2 \<equiv> drop_bit 32 s - (drop_bit 32 t + drop_bit 63 d1)"
  shows "unat (drop_bit 63 d2) \<le> 1"
    "unat (push_bit 32 d2 OR (d1 AND mask 32)) + unat t + unat borrow =
     unat s + 2 ^ 64 * unat (drop_bit 63 d2)"
proof -
  note h = unat_halves [of s] unat_halves [of t]
  have x1: "unat ((t AND mask 32) + borrow) = unat (t AND mask 32) + unat borrow"
    using h assms(1) by (simp add: unat_uadd)
  have s1: "unat (drop_bit 63 d1) \<le> 1" and
    v1: "unat (d1 AND mask 32) + (unat (t AND mask 32) + unat borrow) =
      unat (s AND mask 32) + 2 ^ 32 * unat (drop_bit 63 d1)"
    using sub_half_digit [of "s AND mask 32" "(t AND mask 32) + borrow", folded d1_def] h assms(1)
    by (simp_all add: x1)
  have x2: "unat (drop_bit 32 t + drop_bit 63 d1) = unat (drop_bit 32 t) + unat (drop_bit 63 d1)"
    using h s1 by (simp add: unat_uadd)
  have s2: "unat (drop_bit 63 d2) \<le> 1" and
    v2: "unat (d2 AND mask 32) + (unat (drop_bit 32 t) + unat (drop_bit 63 d1)) =
      unat (drop_bit 32 s) + 2 ^ 32 * unat (drop_bit 63 d2)"
    using sub_half_digit [of "drop_bit 32 s" "drop_bit 32 t + drop_bit 63 d1", folded d2_def] h s1
    by (simp_all add: x2)
  from s2 show "unat (drop_bit 63 d2) \<le> 1" .
  have "push_bit 32 d2 = push_bit 32 (d2 AND mask 32)"
    by (rule bit_word_eqI) (auto simp: bit_simps)
  then have j: "unat (push_bit 32 d2 OR (d1 AND mask 32)) =
      unat (d2 AND mask 32) * 2 ^ 32 + unat (d1 AND mask 32)"
    using unat_or_push_bit [of "d1 AND mask 32" 32 "d2 AND mask 32"]
      unat_halves(2) [of d1] unat_halves(2) [of d2] by simp
  have split: "unat x = 2 ^ 32 * unat (drop_bit 32 x) + unat (x AND mask 32)" for x :: cc_unit
    unfolding unat_drop_bit_div unat_and_mask by (rule nat_split_bits)
  show "unat (push_bit 32 d2 OR (d1 AND mask 32)) + unat t + unat borrow =
     unat s + 2 ^ 64 * unat (drop_bit 63 d2)"
    unfolding j using v1 v2 split [of s] split [of t] by simp
qed

lemma ccn_sub_half_loop_val:
  assumes "length ss = length ts" "unat borrow \<le> 1" "ccn_sub_half_loop borrow ss ts = (b, r)"
  shows "length r = length ss \<and> unat b \<le> 1 \<and>
    ccn_val r + ccn_val ts + unat borrow = ccn_val ss + 2 ^ (64 * length ss) * unat b"
  using assms
proof (induction ss ts arbitrary: borrow b r rule: list_induct2)
  case Nil
  then show ?case by simp
next
  case (Cons s ss t ts)
  define d1 where "d1 = (s AND mask 32) - ((t AND mask 32) + borrow)"
  define d2 where "d2 = drop_bit 32 s - (drop_bit 32 t + drop_bit 63 d1)"
  note step = ccn_sub_half_step [OF Cons.prems(1), of s t, folded d1_def, folded d2_def]
  have e: "(s AND mask 32) - (t AND mask 32) - borrow = d1"
    "drop_bit 32 s - drop_bit 32 t - drop_bit 63 d1 = d2"
    by (simp_all add: d1_def d2_def)
  from Cons.prems(2) obtain rs where rs: "ccn_sub_half_loop (drop_bit 63 d2) ss ts = (b, rs)"
    and r: "r = (push_bit 32 d2 OR (d1 AND mask 32)) # rs"
    by (auto simp: Let_def lower_half_mask e split: prod.splits)
  from Cons.IH [OF step(1) rs] have "length rs = length ss" "unat b \<le> 1"
    and v: "ccn_val rs + ccn_val ts + unat (drop_bit 63 d2) = ccn_val ss + 2 ^ (64 * length ss) * unat b"
    by simp_all
  moreover have "ccn_val r + ccn_val (t # ts) + unat borrow =
      ccn_val (s # ss) + 2 ^ (64 * length (s # ss)) * unat b"
    using step(2) arg_cong [OF v, of "\<lambda>x. 2 ^ 64 * x"]
    by (simp add: r algebra_simps power_add)
  ultimately show ?case by (simp add: r)
qed

lemma val_borrow_unique:
  assumes "length r = n" "length r' = n" "unat (b :: cc_unit) \<le> 1" "unat (b' :: cc_unit) \<le> 1"
    "ccn_val r + y = x + 2 ^ (64 * n) * unat b" "ccn_val r' + y = x + 2 ^ (64 * n) * unat b'"
  shows "r = r'" "b = b'"
proof -
  have le: "unat b = 0 \<or> unat b = 1" "unat b' = 0 \<or> unat b' = 1" using assms(3,4) by auto
  have bd: "ccn_val r < 2 ^ (64 * n)" "ccn_val r' < 2 ^ (64 * n)" using ccn_val_bound assms(1,2) by metis+
  have "unat b = unat b'" using le bd assms(5,6) by auto
  then show "b = b'" by (simp add: word_unat_eq_iff)
  with assms(5,6) have "ccn_val r = ccn_val r'" by simp
  then show "r = r'" using ccn_val_inj [of r r'] assms(1,2) by simp
qed

lemma ccn_sub_half_eq:
  assumes "length s = n" "length t = n"
  shows "ccn_sub_half n s t = ccn_sub n s t"
proof -
  obtain c r c' r' where e: "ccn_sub n s t = (c, r)" "ccn_sub_half n s t = (c', r')"
    by (metis prod.exhaust)
  note a = ccn_sub_val [OF assms e(1)]
  have h: "length r' = n" "unat c' \<le> 1" "ccn_val r' + ccn_val t = ccn_val s + 2 ^ (64 * n) * unat c'"
    using ccn_sub_half_loop_val [of s t 0 c' r'] e(2) assms by (simp_all add: ccn_sub_half_def)
  from val_borrow_unique [OF a(1) h(1) a(2) h(2) a(3) h(3)] e show ?thesis by simp
qed

section \<open>Operands of different lengths, negation\<close>

text \<open>\<open>ccn_addn\<close> and \<open>ccn_subn\<close> of \<open>ccn.h\<close> run the carry of the low part into the high part.\<close>

definition ccn_addn :: "nat \<Rightarrow> units \<Rightarrow> nat \<Rightarrow> units \<Rightarrow> cc_unit \<times> units" where
  "ccn_addn n s nt t =
     (let (c, r) = ccn_add nt s t;
          (c', r') = ccn_add1 (n - nt) (drop nt s) c
      in (c', r @ r'))"

definition ccn_subn :: "nat \<Rightarrow> units \<Rightarrow> nat \<Rightarrow> units \<Rightarrow> cc_unit \<times> units" where
  "ccn_subn n s nt t =
     (let (c, r) = ccn_sub nt s t;
          (c', r') = ccn_sub1 (n - nt) (drop nt s) c
      in (c', r @ r'))"

definition ccn_neg :: "nat \<Rightarrow> units \<Rightarrow> units" where
  "ccn_neg n x = snd (ccn_add1 n (map (\<lambda>u. u XOR -1) (take n x)) 1)"

lemma ccn_take_simps [simp]:
  "ccn_add n (take n s) t = ccn_add n s t" "ccn_add n s (take n t) = ccn_add n s t"
  "ccn_sub n (take n s) t = ccn_sub n s t" "ccn_sub n s (take n t) = ccn_sub n s t"
  "ccn_add1 n (take n s) v = ccn_add1 n s v" "ccn_sub1 n (take n s) v = ccn_sub1 n s v"
  by (simp_all add: ccn_add_def ccn_sub_def ccn_add1_def ccn_sub1_def)

lemma val_take_drop: "k \<le> length s \<Longrightarrow> ccn_val s = ccn_val (take k s) + 2 ^ (64 * k) * ccn_val (drop k s)"
  using ccn_val_append [of "take k s" "drop k s"] by simp

lemma ccn_addn_val:
  assumes "length s = n" "length t = nt" "nt \<le> n" "ccn_addn n s nt t = (c, r)"
  shows "length r = n" "unat c \<le> 1"
    "ccn_val r + 2 ^ (64 * n) * unat c = ccn_val s + ccn_val t"
proof -
  obtain c1 r1 where e1: "ccn_add nt (take nt s) t = (c1, r1)" by fastforce
  obtain c2 r2 where e2: "ccn_add1 (n - nt) (drop nt s) c1 = (c2, r2)" by fastforce
  have cr: "c = c2" "r = r1 @ r2" using assms(4) e1 e2 by (simp_all add: ccn_addn_def)
  note a = ccn_add_val [OF _ assms(2) e1] ccn_add1_val [OF _ e2]
  have l: "length r1 = nt" "length r2 = n - nt" using a assms by simp_all
  then show "length r = n" using cr assms by simp
  show "unat c \<le> 1"
  proof (cases "n - nt = 0")
    case True
    then show ?thesis using e2 a(2) assms cr by (simp add: ccn_add1_def)
  next
    case False
    then show ?thesis using a(5) assms cr by simp
  qed
  have p: "(2 :: nat) ^ (64 * n) = 2 ^ (64 * nt) * 2 ^ (64 * (n - nt))"
    using assms(3) by (simp flip: power_add distrib_left)
  have s: "ccn_val s = ccn_val (take nt s) + 2 ^ (64 * nt) * ccn_val (drop nt s)"
    using val_take_drop assms by simp
  show "ccn_val r + 2 ^ (64 * n) * unat c = ccn_val s + ccn_val t"
    unfolding cr ccn_val_append l p s by (rule glue_carry [OF a(3) a(6)]) (use assms in simp_all)
qed

lemma ccn_subn_val:
  assumes "length s = n" "length t = nt" "nt \<le> n" "ccn_subn n s nt t = (c, r)"
  shows "length r = n" "unat c \<le> 1"
    "ccn_val r + ccn_val t = ccn_val s + 2 ^ (64 * n) * unat c"
proof -
  obtain c1 r1 where e1: "ccn_sub nt (take nt s) t = (c1, r1)" by fastforce
  obtain c2 r2 where e2: "ccn_sub1 (n - nt) (drop nt s) c1 = (c2, r2)" by fastforce
  have cr: "c = c2" "r = r1 @ r2" using assms(4) e1 e2 by (simp_all add: ccn_subn_def)
  note a = ccn_sub_val [OF _ assms(2) e1] ccn_sub1_val [OF _ e2]
  have l: "length r1 = nt" "length r2 = n - nt" using a assms by simp_all
  then show "length r = n" using cr assms by simp
  show "unat c \<le> 1"
  proof (cases "n - nt = 0")
    case True
    then show ?thesis using e2 a(2) assms cr by (simp add: ccn_sub1_def)
  next
    case False
    then show ?thesis using a(5) assms cr by simp
  qed
  have p: "(2 :: nat) ^ (64 * n) = 2 ^ (64 * nt) * 2 ^ (64 * (n - nt))"
    using assms(3) by (simp flip: power_add distrib_left)
  have s: "ccn_val s = ccn_val (take nt s) + 2 ^ (64 * nt) * ccn_val (drop nt s)"
    using val_take_drop assms by simp
  show "ccn_val r + ccn_val t = ccn_val s + 2 ^ (64 * n) * unat c"
    unfolding cr ccn_val_append l p s by (rule glue_borrow [OF a(3) a(6)]) (use assms in simp_all)
qed

lemma ccn_val_not: "ccn_val (map (\<lambda>u. u XOR -1) x) + ccn_val x + 1 = 2 ^ (64 * length x)"
proof (induction x)
  case Nil
  then show ?case by simp
next
  case (Cons u x)
  have "NOT u = -1 - u" by (simp add: not_eq_complement)
  then have "unat (NOT u) + unat u = 2 ^ 64 - 1"
    using word_bound [of u] by (simp add: unat_sub_if_size unsigned_minus_1_eq_mask mask_eq_exp_minus_1)
  with Cons.IH [THEN arg_cong, of "\<lambda>z. 2 ^ 64 * z"] show ?case
    by (simp add: algebra_simps power_add)
qed

text \<open>Two's complement: the negation of a number is its complement to \<open>2 ^ (64 * n)\<close>, and 0 of 0.\<close>

lemma ccn_neg_val:
  assumes "length x = n"
  shows "length (ccn_neg n x) = n" "ccn_val (ccn_neg n x) = (2 ^ (64 * n) - ccn_val x) mod 2 ^ (64 * n)"
proof -
  let ?B = "2 ^ (64 * n) :: nat"
  obtain c r where e: "ccn_add1 n (map (\<lambda>u. u XOR -1) x) 1 = (c, r)" by fastforce
  have r: "ccn_neg n x = r" using e assms by (simp add: ccn_neg_def)
  note a = ccn_add1_val [OF _ e]
  show l: "length (ccn_neg n x) = n" using a(1) assms r by simp
  have "ccn_val r + ?B * unat c = ?B - ccn_val x"
    using a(3) ccn_val_not [of x] assms by simp
  moreover have "ccn_val r < ?B" using ccn_val_bound [of r] l r by simp
  ultimately have "ccn_val r = (?B - ccn_val x) mod ?B"
    by (metis mod_mult_self2 mod_less)
  with r show "ccn_val (ccn_neg n x) = (?B - ccn_val x) mod ?B" by simp
qed

text \<open>Truncation is a remainder, dropping low units a quotient.\<close>

lemma val_take_mod: "ccn_val (take n r) = ccn_val r mod 2 ^ (64 * n)"
proof (cases "n \<le> length r")
  case True
  have "ccn_val (take n r) < 2 ^ (64 * n)" using ccn_val_bound [of "take n r"] True by (simp add: min_absorb2)
  then show ?thesis using val_take_drop [OF True] by simp
next
  case False
  then have "(2 :: nat) ^ (64 * length r) \<le> 2 ^ (64 * n)" by (intro power_increasing) simp_all
  with ccn_val_bound [of r] have "ccn_val r < 2 ^ (64 * n)" by (rule order_less_le_trans)
  with False show ?thesis by simp
qed

lemma val_drop_div: "ccn_val (drop n r) = ccn_val r div 2 ^ (64 * n)"
proof (cases "n \<le> length r")
  case True
  have "ccn_val (take n r) < 2 ^ (64 * n)" using ccn_val_bound [of "take n r"] True by (simp add: min_absorb2)
  then show ?thesis using val_take_drop [OF True] by simp
next
  case False
  then have "(2 :: nat) ^ (64 * length r) \<le> 2 ^ (64 * n)" by (intro power_increasing) simp_all
  with ccn_val_bound [of r] have "ccn_val r < 2 ^ (64 * n)" by (rule order_less_le_trans)
  with False show ?thesis by simp
qed

end
