(* ===== verification/Ccn_Count.thy ===== *)
theory Ccn_Count
  imports Ccn_Arith
begin

unbundle bit_operations_syntax

text \<open>
  Lengths, bit positions and comparison of bignums (\<open>ccn_n.c\<close>, \<open>ccn_bitlen.c\<close>,
  \<open>ccn_trailing_zeros.c\<close>, \<open>ccn_cmp.c\<close>, \<open>ccn_cmpn.c\<close>, the inline functions of \<open>ccn.h\<close>).
  The loops visit every unit whatever the data: a function \<open>_loop s k\<close> is the state
  after \<open>k\<close> rounds.  The \<open>cc_size\<close> counters are 64-bit words.
\<close>

section \<open>The number of used units\<close>

fun ccn_n_ref :: "nat \<Rightarrow> units \<Rightarrow> nat" where
  "ccn_n_ref 0 s = 0"
| "ccn_n_ref (Suc n) s = (if s ! n = 0 then ccn_n_ref n s else n + 1)"

fun ccn_n_loop :: "units \<Rightarrow> nat \<Rightarrow> cc_unit" where
  "ccn_n_loop s 0 = 0"
| "ccn_n_loop s (Suc ix) =
     (let s_tmp = cc_heaviside_step (s ! ix) in cc_muxu s_tmp (of_nat (Suc ix)) (ccn_n_loop s ix))"

definition ccn_n :: "nat \<Rightarrow> units \<Rightarrow> nat" where
  "ccn_n n s = unat (ccn_n_loop s n)"

definition ccn_is_zero :: "nat \<Rightarrow> units \<Rightarrow> bool" where
  "ccn_is_zero n s \<longleftrightarrow> ccn_n n s = 0"

definition ccn_is_one :: "nat \<Rightarrow> units \<Rightarrow> bool" where
  "ccn_is_one n s \<longleftrightarrow> ccn_n n s = 1 \<and> s ! 0 = 1"

definition ccn_is_zero_or_one :: "nat \<Rightarrow> units \<Rightarrow> bool" where
  "ccn_is_zero_or_one n s \<longleftrightarrow> n = 0 \<or> (ccn_n n s \<le> 1 \<and> s ! 0 \<le> 1)"

lemma ccn_n_ref_le: "ccn_n_ref n s \<le> n"
  by (induction n) auto

lemma ccn_n_loop_eq: "ccn_n_loop s n = of_nat (ccn_n_ref n s)"
  by (induction n) (simp_all add: Let_def)

lemma ccn_n_eq: "n < 2 ^ 64 \<Longrightarrow> ccn_n n s = ccn_n_ref n s"
  using ccn_n_ref_le [of n s] by (simp add: ccn_n_def ccn_n_loop_eq unat_of_nat)

lemma val_take_Suc: "n < length s \<Longrightarrow> ccn_val (take (Suc n) s) = ccn_val (take n s) + 2 ^ (64 * n) * unat (s ! n)"
  by (simp add: take_Suc_conv_app_nth ccn_val_append)

lemma ccn_n_ref_val:
  "n \<le> length s \<Longrightarrow> ccn_val (take (ccn_n_ref n s) s) = ccn_val (take n s)"
  by (induction n) (simp_all add: val_take_Suc)

lemma ccn_n_ref_top: "ccn_n_ref n s = Suc m \<Longrightarrow> s ! m \<noteq> 0"
  by (induction n) (auto split: if_splits)

lemma ccn_val_0_iff: "ccn_val s = 0 \<longleftrightarrow> (\<forall>x \<in> set s. x = 0)"
  by (induction s) (auto simp: unat_0_iff)

lemma ccn_n_ref_0: "n \<le> length s \<Longrightarrow> ccn_n_ref n s = 0 \<longleftrightarrow> ccn_val (take n s) = 0"
  by (induction n) (auto simp: val_take_Suc unat_0_iff)

lemma ccn_is_zero_iff:
  "n < 2 ^ 64 \<Longrightarrow> n \<le> length s \<Longrightarrow> ccn_is_zero n s \<longleftrightarrow> ccn_val (take n s) = 0"
  by (simp add: ccn_is_zero_def ccn_n_eq ccn_n_ref_0)

lemma ccn_n_ref_bounds:
  assumes "n \<le> length s" "ccn_n_ref n s = Suc m"
  shows "2 ^ (64 * m) \<le> ccn_val (take n s)" "ccn_val (take n s) < 2 ^ (64 * Suc m)"
proof -
  have m: "Suc m \<le> length s" using ccn_n_ref_le [of n s] assms by simp
  have v: "ccn_val (take n s) = ccn_val (take (Suc m) s)" using ccn_n_ref_val assms by metis
  have "unat (s ! m) \<noteq> 0" using ccn_n_ref_top [OF assms(2)] by (simp add: unat_0_iff)
  then have "2 ^ (64 * m) * 1 \<le> 2 ^ (64 * m) * unat (s ! m)" by (intro mult_le_mono2) simp
  then show "2 ^ (64 * m) \<le> ccn_val (take n s)" unfolding v using m by (simp add: val_take_Suc trans_le_add2)
  show "ccn_val (take n s) < 2 ^ (64 * Suc m)"
    unfolding v using ccn_val_bound [of "take (Suc m) s"] m by (simp add: min_absorb2)
qed

lemma ccn_is_one_iff:
  assumes "n < 2 ^ 64" "n \<le> length s"
  shows "ccn_is_one n s \<longleftrightarrow> ccn_val (take n s) = 1"
proof -
  consider "ccn_n_ref n s = 0" | "ccn_n_ref n s = Suc 0" | m where "ccn_n_ref n s = Suc (Suc m)"
    by (metis not0_implies_Suc)
  then show ?thesis
  proof cases
    case 1
    then show ?thesis using assms ccn_n_ref_0 [of n s] by (simp add: ccn_is_one_def ccn_n_eq)
  next
    case 2
    then have n: "0 < n" using ccn_n_ref_le [of n s] by simp
    then have "s \<noteq> []" using assms by auto
    moreover have "ccn_val (take n s) = ccn_val (take (Suc 0) s)" using ccn_n_ref_val [of n s] 2 assms by simp
    ultimately have "ccn_val (take n s) = unat (s ! 0)" by (cases s) simp_all
    then show ?thesis using 2 assms by (auto simp: ccn_is_one_def ccn_n_eq word_unat_eq_iff)
  next
    case 3
    have "(2 :: nat) ^ 1 \<le> 2 ^ (64 * Suc m)" by (rule power_increasing) simp_all
    then show ?thesis
      using 3 assms ccn_n_ref_bounds(1) [OF assms(2) 3] by (auto simp: ccn_is_one_def ccn_n_eq)
  qed
qed

section \<open>Bit length and trailing zeros\<close>

fun ccn_bitlen_loop :: "units \<Rightarrow> nat \<Rightarrow> cc_unit" where
  "ccn_bitlen_loop s 0 = 0"
| "ccn_bitlen_loop s (Suc i) =
     (let st = cc_heaviside_step (s ! i);
          clz = ucast (cc_clz64 (s ! i OR 1))
      in cc_muxu st (of_nat (64 * (i + 1)) - clz) (ccn_bitlen_loop s i))"

definition ccn_bitlen :: "nat \<Rightarrow> units \<Rightarrow> nat" where
  "ccn_bitlen count s = unat (ccn_bitlen_loop s count)"

fun ccn_trailing_zeros_loop :: "units \<Rightarrow> nat \<Rightarrow> cc_unit \<Rightarrow> cc_unit" where
  "ccn_trailing_zeros_loop s 0 tz = tz"
| "ccn_trailing_zeros_loop s (Suc i) tz =
     (let st = cc_heaviside_step (s ! i);
          msb = push_bit (64 - 1) 1;
          ctz = ucast (cc_ctz64 (s ! i OR msb))
      in ccn_trailing_zeros_loop s i (cc_muxu st (of_nat (64 * i) + ctz) tz))"

definition ccn_trailing_zeros :: "nat \<Rightarrow> units \<Rightarrow> nat" where
  "ccn_trailing_zeros count s = unat (ccn_trailing_zeros_loop s count 0)"

lemma clz_or_1:
  fixes u :: cc_unit
  assumes "u \<noteq> 0"
  defines "c \<equiv> unat (cc_clz64 (u OR 1))"
  shows "c < 64" "unat u < 2 ^ (64 - c)" "2 ^ (63 - c) \<le> unat u"
proof -
  have nz: "u OR 1 \<noteq> 0" by (simp add: or_eq_0_iff)
  have or1: "unat (u OR 1) = unat u + of_bool (even (unat u))"
    by (simp only: unsigned_or_eq unsigned_1) (rule or_one_eq)
  note b = cc_clz64_bounds [OF nz, folded c_def]
  from b(1) show "c < 64" .
  from b(2) show "unat u < 2 ^ (64 - c)" unfolding or1 by simp
  show "2 ^ (63 - c) \<le> unat u"
  proof (rule ccontr)
    assume "\<not> 2 ^ (63 - c) \<le> unat u"
    with b(3) have "even (unat u)" "2 ^ (63 - c) = unat u + 1"
      unfolding or1 by (cases "even (unat u)"; simp)+
    then have "odd ((2 :: nat) ^ (63 - c))" by simp
    then have "(2 :: nat) ^ (63 - c) = 1" by simp
    with \<open>2 ^ (63 - c) = unat u + 1\<close> have "unat u = 0" by simp
    with assms show False by (simp add: unat_0_iff)
  qed
qed

lemma ctz_or_msb:
  fixes u :: cc_unit
  assumes "u \<noteq> 0"
  defines "c \<equiv> unat (cc_ctz64 (u OR push_bit 63 1))"
  shows "c < 64" "2 ^ c dvd unat u" "odd (unat u div 2 ^ c)"
proof -
  have nz: "u OR push_bit 63 1 \<noteq> 0" by (simp add: or_eq_0_iff)
  note b = cc_ctz64_spec [OF nz, folded c_def]
  from b(1) show c: "c < 64" .
  have "u OR push_bit 63 1 = push_bit 63 1 OR take_bit 63 u"
    by (rule bit_word_eqI, simp only: bit_or_iff bit_push_bit_iff bit_1_iff bit_take_bit_iff) auto
  then have y: "unat (u OR push_bit 63 1) = 2 ^ 63 + unat u mod 2 ^ 63"
    using unat_or_push_bit [of "take_bit 63 u" 63 1] by (simp add: unsigned_take_bit_eq take_bit_nat_def)
  have "2 ^ c dvd unat u \<and> odd (unat u div 2 ^ c)"
  proof (cases "2 ^ 63 \<le> unat u")
    case True
    then have "unat (u OR push_bit 63 1) = unat u"
      unfolding y using word_bound [of u] by (simp add: le_mod_geq)
    with b show ?thesis by simp
  next
    case False
    then have y': "unat (u OR push_bit 63 1) = 2 ^ 63 + unat u" unfolding y by simp
    have p: "(2 :: nat) ^ 63 = 2 ^ c * 2 ^ (63 - c)" using c by (simp flip: power_add)
    then have "(2 :: nat) ^ c dvd 2 ^ 63" by (metis dvd_triv_left)
    with b(2) have d: "2 ^ c dvd unat u" unfolding y' by (metis dvd_add_right_iff)
    have "c \<noteq> 63"
    proof
      assume "c = 63"
      with d False have "unat u = 0" by (metis dvd_imp_le not_gr_zero)
      with assms show False by (simp add: unat_0_iff)
    qed
    then have ev: "even ((2 :: nat) ^ (63 - c))" using c by simp
    have "(2 ^ 63 + unat u) div 2 ^ c = 2 ^ (63 - c) + unat u div 2 ^ c"
      unfolding p by simp
    with b(3) ev d show ?thesis unfolding y' by simp
  qed
  then show "2 ^ c dvd unat u" "odd (unat u div 2 ^ c)" by simp_all
qed

lemma unat_64_mult:
  assumes "64 * (n + 1) < 2 ^ 64"
  shows "unat (64 + 64 * of_nat n :: cc_unit) = 64 * (n + 1)"
proof -
  have "64 + 64 * of_nat n = (of_nat (64 * (n + 1)) :: cc_unit)" by simp
  then show ?thesis using assms by (simp only: unat_of_nat) simp
qed

lemma unat_64_mult0:
  assumes "64 * n < 2 ^ 64"
  shows "unat (64 * of_nat n :: cc_unit) = 64 * n"
proof -
  have "64 * of_nat n = (of_nat (64 * n) :: cc_unit)" by simp
  then show ?thesis using assms by (simp only: unat_of_nat) simp
qed

lemma ccn_bitlen_loop_inv:
  assumes "n < 2 ^ 58" "n \<le> length s"
  shows "unat (ccn_bitlen_loop s n) \<le> 64 * n \<and>
    ccn_val (take n s) < 2 ^ unat (ccn_bitlen_loop s n) \<and>
    (0 < unat (ccn_bitlen_loop s n) \<longrightarrow> 2 ^ (unat (ccn_bitlen_loop s n) - 1) \<le> ccn_val (take n s))"
  using assms
proof (induction n)
  case 0
  then show ?case by simp
next
  case (Suc n)
  let ?u = "s ! n" and ?c = "unat (cc_clz64 (s ! n OR 1))"
  note IH = Suc.IH [OF Suc_lessD [OF Suc.prems(1)] Suc_leD [OF Suc.prems(2)]]
  have v: "ccn_val (take (Suc n) s) = ccn_val (take n s) + 2 ^ (64 * n) * unat ?u"
    using Suc.prems by (simp add: val_take_Suc)
  show ?case
  proof (cases "?u = 0")
    case True
    with IH v show ?thesis by (simp add: Let_def)
  next
    case False
    note c = clz_or_1 [OF False]
    have "unat (ucast (cc_clz64 (?u OR 1)) :: cc_unit) = ?c" using c(1) by (simp add: unat_ucast_mod)
    moreover have "unat (64 + 64 * of_nat n :: cc_unit) = 64 * (n + 1)"
      using Suc.prems(1) by (intro unat_64_mult) simp
    ultimately have bl: "unat (ccn_bitlen_loop s (Suc n)) = 64 * n + (64 - ?c)"
      using False c(1) by (simp add: Let_def unat_sub_if_size)
    have lo: "ccn_val (take n s) < 2 ^ (64 * n)"
      using ccn_val_bound [of "take n s"] Suc.prems(2) by (simp add: min_absorb2)
    have "2 ^ (64 * n) * (unat ?u + 1) \<le> 2 ^ (64 * n) * 2 ^ (64 - ?c)"
      using c(2) by (intro mult_le_mono2) simp
    with lo have "ccn_val (take (Suc n) s) < 2 ^ (64 * n + (64 - ?c))"
      unfolding v by (simp add: power_add)
    moreover have "2 ^ (64 * n) * 2 ^ (63 - ?c) \<le> 2 ^ (64 * n) * unat ?u"
      using c(3) by (intro mult_le_mono2)
    then have "2 ^ (64 * n + (63 - ?c)) \<le> ccn_val (take (Suc n) s)"
      unfolding v power_add by (rule trans_le_add2)
    moreover have "64 * n + (64 - ?c) - 1 = 64 * n + (63 - ?c)" using c(1) by simp
    moreover have "64 * n + (64 - ?c) \<le> 64 * Suc n" by simp
    ultimately show ?thesis unfolding bl by metis
  qed
qed

text \<open>The bit length is the least exponent whose power of two exceeds the number.\<close>

lemma ccn_bitlen_bounds:
  assumes "n < 2 ^ 58" "length s = n"
  shows "ccn_bitlen n s \<le> 64 * n" "ccn_val s < 2 ^ ccn_bitlen n s"
    "0 < ccn_bitlen n s \<Longrightarrow> 2 ^ (ccn_bitlen n s - 1) \<le> ccn_val s"
  using ccn_bitlen_loop_inv [of n s] assms by (simp_all add: ccn_bitlen_def)

lemma ccn_bitlen_le_iff:
  assumes "n < 2 ^ 58" "length s = n"
  shows "ccn_bitlen n s \<le> k \<longleftrightarrow> ccn_val s < 2 ^ k"
proof
  assume "ccn_bitlen n s \<le> k"
  then have "(2 :: nat) ^ ccn_bitlen n s \<le> 2 ^ k" by (rule power_increasing) simp
  with ccn_bitlen_bounds(2) [OF assms] show "ccn_val s < 2 ^ k" by (rule order_less_le_trans)
next
  assume *: "ccn_val s < 2 ^ k"
  show "ccn_bitlen n s \<le> k"
  proof (rule ccontr)
    assume "\<not> ccn_bitlen n s \<le> k"
    then have "(2 :: nat) ^ k \<le> 2 ^ (ccn_bitlen n s - 1)" by (intro power_increasing) simp_all
    also have "\<dots> \<le> ccn_val s" using ccn_bitlen_bounds(3) [OF assms] \<open>\<not> ccn_bitlen n s \<le> k\<close> by simp
    finally show False using * by simp
  qed
qed

lemma ccn_bitlen_0_iff: "n < 2 ^ 58 \<Longrightarrow> length s = n \<Longrightarrow> ccn_bitlen n s = 0 \<longleftrightarrow> ccn_val s = 0"
  using ccn_bitlen_le_iff [of n s 0] by simp

lemma ccn_tz_loop_inv:
  assumes "n < 2 ^ 58" "n \<le> length s"
  shows "ccn_val (take n s) = 0 \<and> ccn_trailing_zeros_loop s n tz = tz \<or>
    unat (ccn_trailing_zeros_loop s n tz) < 64 * n \<and>
    2 ^ unat (ccn_trailing_zeros_loop s n tz) dvd ccn_val (take n s) \<and>
    odd (ccn_val (take n s) div 2 ^ unat (ccn_trailing_zeros_loop s n tz))"
  using assms
proof (induction n arbitrary: tz)
  case 0
  then show ?case by simp
next
  case (Suc n)
  let ?u = "s ! n" and ?c = "unat (cc_ctz64 (s ! n OR push_bit 63 1))"
  define tz' where "tz' = cc_muxu (cc_heaviside_step ?u) (of_nat (64 * n) + ucast (cc_ctz64 (?u OR push_bit 63 1))) tz"
  note IH = Suc.IH [OF Suc_lessD [OF Suc.prems(1)] Suc_leD [OF Suc.prems(2)], of tz']
  have step: "ccn_trailing_zeros_loop s (Suc n) tz = ccn_trailing_zeros_loop s n tz'"
    by (simp add: Let_def tz'_def)
  have v: "ccn_val (take (Suc n) s) = ccn_val (take n s) + 2 ^ (64 * n) * unat ?u"
    using Suc.prems by (simp add: val_take_Suc)
  let ?t = "unat (ccn_trailing_zeros_loop s n tz')"
  show ?case
  proof (cases "ccn_val (take n s) = 0")
    case True
    with IH have r: "ccn_trailing_zeros_loop s n tz' = tz'" by auto
    show ?thesis
    proof (cases "?u = 0")
      case True
      with \<open>ccn_val (take n s) = 0\<close> r v show ?thesis by (simp add: step tz'_def)
    next
      case False
      note c = ctz_or_msb [OF False]
      have "unat (64 * of_nat n :: cc_unit) = 64 * n"
        using Suc.prems(1) unat_64_mult0 [of n] by simp
      then have t: "unat tz' = 64 * n + ?c"
        using False c(1) Suc.prems(1) by (simp add: tz'_def unat_uadd unat_ucast_mod)
      have d: "2 ^ (64 * n + ?c) dvd ccn_val (take (Suc n) s)"
        unfolding v True power_add using c(2) by (simp add: mult_dvd_mono)
      have "ccn_val (take (Suc n) s) div 2 ^ (64 * n + ?c) = unat ?u div 2 ^ ?c"
        unfolding v True by (simp add: power_add)
      with c d t show ?thesis unfolding step r t by simp
    qed
  next
    case False
    with IH have t: "?t < 64 * n" "2 ^ ?t dvd ccn_val (take n s)" "odd (ccn_val (take n s) div 2 ^ ?t)"
      by auto
    have p: "(2 :: nat) ^ (64 * n) = 2 ^ ?t * 2 ^ (64 * n - ?t)" using t(1) by (simp flip: power_add)
    have "ccn_val (take (Suc n) s) div 2 ^ ?t = ccn_val (take n s) div 2 ^ ?t + 2 ^ (64 * n - ?t) * unat ?u"
      unfolding v p by (simp add: mult.assoc)
    moreover have "even ((2 :: nat) ^ (64 * n - ?t))" using t(1) by simp
    moreover have "2 ^ ?t dvd ccn_val (take (Suc n) s)"
      unfolding v p using t(2) by (simp add: mult.assoc)
    ultimately show ?thesis unfolding step using t by simp
  qed
qed

lemma ccn_trailing_zeros_spec:
  assumes "n < 2 ^ 58" "length s = n" "ccn_val s \<noteq> 0"
  shows "ccn_trailing_zeros n s < 64 * n" "2 ^ ccn_trailing_zeros n s dvd ccn_val s"
    "odd (ccn_val s div 2 ^ ccn_trailing_zeros n s)"
  using ccn_tz_loop_inv [of n s 0] assms by (simp_all add: ccn_trailing_zeros_def)

lemma ccn_trailing_zeros_0: "n < 2 ^ 58 \<Longrightarrow> length s = n \<Longrightarrow> ccn_val s = 0 \<Longrightarrow> ccn_trailing_zeros n s = 0"
  using ccn_tz_loop_inv [of n s 0] by (auto simp: ccn_trailing_zeros_def)

section \<open>Comparison\<close>

fun ccn_cmp_loop :: "units \<Rightarrow> units \<Rightarrow> nat \<Rightarrow> cc_unit \<times> cc_unit" where
  "ccn_cmp_loop s t 0 = (0, 0)"
| "ccn_cmp_loop s t (Suc ix) =
     (let (six, tix) = ccn_cmp_loop s t ix;
          sel = ccop_eq (s ! ix) (t ! ix)
      in (ccop_sel sel six (s ! ix), ccop_sel sel tix (t ! ix)))"

definition ccn_cmp :: "nat \<Rightarrow> units \<Rightarrow> units \<Rightarrow> int" where
  "ccn_cmp n s t =
     (let (six, tix) = ccn_cmp_loop s t n;
          d1 = uint (ccop_neq six tix AND 1);
          d2 = uint (ccop_lt six tix AND 2)
      in d1 - d2)"

definition ccn_cmpn :: "nat \<Rightarrow> units \<Rightarrow> nat \<Rightarrow> units \<Rightarrow> int" where
  "ccn_cmpn ns s nt t =
     (let nm = min ns nt;
          rv = ccn_cmp nm s t;
          (ns, s, urv) = (if ns < nt then (nt, t, -1) else (ns, s, 1))
      in if ccn_is_zero (ns - nm) (drop nm s) then rv else urv)"

lemma ccn_cmp_loop_inv:
  assumes "n \<le> length s" "n \<le> length t"
  shows "case ccn_cmp_loop s t n of (a, b) \<Rightarrow>
    (a < b \<longleftrightarrow> ccn_val (take n s) < ccn_val (take n t)) \<and>
    (a = b \<longleftrightarrow> ccn_val (take n s) = ccn_val (take n t))"
  using assms
proof (induction n)
  case 0
  then show ?case by simp
next
  case (Suc n)
  obtain a b where ab: "ccn_cmp_loop s t n = (a, b)" by fastforce
  have v: "ccn_val (take (Suc n) s) = ccn_val (take n s) + 2 ^ (64 * n) * unat (s ! n)"
    "ccn_val (take (Suc n) t) = ccn_val (take n t) + 2 ^ (64 * n) * unat (t ! n)"
    using Suc.prems by (simp_all add: val_take_Suc)
  have less: "x + P * p < y + P * q" if "p < q" "x < P" for x y p q P :: nat
  proof -
    have "x + P * p < P * Suc p" using that by simp
    also have "\<dots> \<le> P * q" using that by (intro mult_le_mono2) simp
    finally show ?thesis by simp
  qed
  have lo: "ccn_val (take n s) < 2 ^ (64 * n)" "ccn_val (take n t) < 2 ^ (64 * n)"
    using ccn_val_bound [of "take n s"] ccn_val_bound [of "take n t"] Suc.prems by (simp_all add: min_absorb2)
  consider "s ! n = t ! n" | "s ! n < t ! n" | "t ! n < s ! n" by (metis linorder_neq_iff)
  then show ?case
  proof cases
    case 1
    with Suc ab show ?thesis by (simp add: v)
  next
    case 2
    then have "unat (s ! n) < unat (t ! n)" by (simp add: word_less_nat_alt)
    from less [OF this lo(1), of "ccn_val (take n t)"] 2 show ?thesis by (auto simp: v ab)
  next
    case 3
    then have "unat (t ! n) < unat (s ! n)" by (simp add: word_less_nat_alt)
    from less [OF this lo(2), of "ccn_val (take n s)"] 3 show ?thesis by (auto simp: v ab)
  qed
qed

lemma ccn_cmp_eq:
  assumes "n \<le> length s" "n \<le> length t"
  shows "ccn_cmp n s t = sgn (int (ccn_val (take n s)) - int (ccn_val (take n t)))"
proof -
  obtain a b where ab: "ccn_cmp_loop s t n = (a, b)" by fastforce
  from ccn_cmp_loop_inv [OF assms] show ?thesis
    by (auto simp: ccn_cmp_def ab sgn_if)
qed

text \<open>Operands of different lengths compare as the numbers they stand for.\<close>

lemma ccn_cmpn_eq:
  assumes "length s = ns" "length t = nt" "ns < 2 ^ 64" "nt < 2 ^ 64"
  shows "ccn_cmpn ns s nt t = sgn (int (ccn_val s) - int (ccn_val t))"
proof -
  have main: "sgn (int (ccn_val (take (length b) a)) - int (ccn_val b)) =
        (if ccn_val (drop (length b) a) = 0 then sgn (int (ccn_val a) - int (ccn_val b))
         else sgn (int (ccn_val (take (length b) a)) - int (ccn_val b)))
      \<and> (ccn_val (drop (length b) a) \<noteq> 0 \<longrightarrow> ccn_val b < ccn_val a)"
    if "length b \<le> length a" for a b
  proof (cases "ccn_val (drop (length b) a) = 0")
    case True
    then show ?thesis using val_take_drop [OF that] by simp
  next
    case False
    have "2 ^ (64 * length b) * 1 \<le> 2 ^ (64 * length b) * ccn_val (drop (length b) a)"
      using False by (intro mult_le_mono2) simp
    then have "ccn_val b < ccn_val a"
      using val_take_drop [OF that] ccn_val_bound [of b] by linarith
    with False show ?thesis by simp
  qed
  have z: "ccn_is_zero (length a - length b) (drop (length b) a) \<longleftrightarrow> ccn_val (drop (length b) a) = 0"
    if "length a < 2 ^ 64" for a b :: units
    using that by (simp add: ccn_is_zero_iff)
  show ?thesis
  proof (cases "ns < nt")
    case True
    then show ?thesis
      using main [of s t] z [of t s] assms
      by (auto simp: ccn_cmpn_def ccn_cmp_eq sgn_if split: if_splits)
  next
    case False
    then show ?thesis
      using main [of t s] z [of s t] assms
      by (auto simp: ccn_cmpn_def ccn_cmp_eq sgn_if min_absorb2 split: if_splits)
  qed
qed

section \<open>Single bits, assignment\<close>

definition ccn_bit :: "units \<Rightarrow> nat \<Rightarrow> cc_unit" where
  "ccn_bit x k = 1 AND drop_bit (k mod 64) (x ! (k div 64))"

definition ccn_set_bit :: "units \<Rightarrow> nat \<Rightarrow> cc_unit \<Rightarrow> units" where
  "ccn_set_bit x k v =
     (if v \<noteq> 0 then x[k div 64 := x ! (k div 64) OR push_bit (k mod 64) 1]
      else x[k div 64 := x ! (k div 64) AND NOT (push_bit (k mod 64) 1)])"

definition ccn_set :: "nat \<Rightarrow> units \<Rightarrow> units" where
  "ccn_set n s = take n s"

definition ccn_zero :: "nat \<Rightarrow> units" where
  "ccn_zero n = replicate n 0"

definition ccn_seti :: "nat \<Rightarrow> cc_unit \<Rightarrow> units" where
  "ccn_seti n v = v # ccn_zero (n - 1)"

definition ccn_setn :: "nat \<Rightarrow> nat \<Rightarrow> units \<Rightarrow> units" where
  "ccn_setn n s_size s = ccn_set s_size s @ ccn_zero (n - s_size)"

fun ccn_xor :: "nat \<Rightarrow> units \<Rightarrow> units \<Rightarrow> units" where
  "ccn_xor 0 s t = []"
| "ccn_xor (Suc n) s t = ccn_xor n s t @ [s ! n XOR t ! n]"

lemma ccn_seti_val: "0 < n \<Longrightarrow> length (ccn_seti n v) = n \<and> ccn_val (ccn_seti n v) = unat v"
  by (simp add: ccn_seti_def ccn_zero_def)

lemma ccn_setn_val:
  "length s = k \<Longrightarrow> k \<le> n \<Longrightarrow> length (ccn_setn n k s) = n \<and> ccn_val (ccn_setn n k s) = ccn_val s"
  by (simp add: ccn_setn_def ccn_zero_def ccn_set_def ccn_val_append)

text \<open>Bit \<open>k\<close> of a bignum is bit \<open>k\<close> of the number it stands for.\<close>

lemma bit_ccn_val: "k < 64 * length x \<Longrightarrow> bit (ccn_val x) k \<longleftrightarrow> bit (x ! (k div 64)) (k mod 64)"
proof (induction x arbitrary: k)
  case Nil
  then show ?case by simp
next
  case (Cons u x)
  have j: "ccn_val (u # x) = push_bit 64 (ccn_val x) OR unat u"
    using nat_push_or [of "unat u" 64 "ccn_val x"] word_bound [of u] by simp
  show ?case
  proof (cases "k < 64")
    case True
    then show ?thesis by (simp add: j bit_or_iff bit_push_bit_iff bit_unsigned_iff del: ccn_val_simps)
  next
    case False
    then have k: "(k - 64) div 64 = k div 64 - 1" "(k - 64) mod 64 = k mod 64" "0 < k div 64"
      by (simp_all add: le_mod_geq [symmetric] le_div_geq)
    have "\<not> bit (unat u) k" using False bit_imp_le_length [of u k] by (auto simp: bit_unsigned_iff)
    with False Cons.IH [of "k - 64"] Cons.prems k show ?thesis
      by (simp add: j bit_or_iff bit_push_bit_iff nth_Cons' del: ccn_val_simps)
  qed
qed

lemma ccn_bit_val:
  assumes "k < 64 * length x"
  shows "ccn_bit x k = of_bool (bit (ccn_val x) k)"
  unfolding bit_ccn_val [OF assms] ccn_bit_def
  by (rule bit_word_eqI) (auto simp: bit_simps bit_1_iff)

lemma ccn_set_bit_val:
  assumes "k < 64 * length x"
  shows "length (ccn_set_bit x k v) = length x"
    "ccn_val (ccn_set_bit x k v) = (if v \<noteq> 0 then set_bit k (ccn_val x) else unset_bit k (ccn_val x))"
proof -
  show l: "length (ccn_set_bit x k v) = length x" by (simp add: ccn_set_bit_def)
  have k: "k div 64 < length x" using assms by simp
  have eq: "j = k \<longleftrightarrow> j div 64 = k div 64 \<and> j mod 64 = k mod 64" for j :: nat
    by (metis div_mult_mod_eq)
  show "ccn_val (ccn_set_bit x k v) =
    (if v \<noteq> 0 then set_bit k (ccn_val x) else unset_bit k (ccn_val x))"
  proof (rule bit_eqI)
    fix j :: nat
    show "bit (ccn_val (ccn_set_bit x k v)) j \<longleftrightarrow>
      bit (if v \<noteq> 0 then set_bit k (ccn_val x) else unset_bit k (ccn_val x)) j"
    proof (cases "j < 64 * length x")
      case True
      then have j: "j div 64 < length x" by simp
      define m where "m = (push_bit (k mod 64) 1 :: cc_unit)"
      have m: "bit m (j mod 64) \<longleftrightarrow> j mod 64 = k mod 64"
        unfolding m_def by (simp only: bit_push_bit_iff bit_1_iff) auto
      have sb: "ccn_set_bit x k v = (if v \<noteq> 0 then x[k div 64 := x ! (k div 64) OR m]
          else x[k div 64 := x ! (k div 64) AND NOT m])"
        by (simp only: ccn_set_bit_def m_def)
      have "bit (ccn_set_bit x k v ! (j div 64)) (j mod 64) \<longleftrightarrow>
          (if j = k then v \<noteq> 0 else bit (x ! (j div 64)) (j mod 64))"
      proof (cases "j div 64 = k div 64")
        case True
        then show ?thesis
          using m k eq [of j]
          by (auto simp: sb bit_or_iff bit_and_iff bit_not_iff)
      next
        case False
        then show ?thesis by (auto simp: ccn_set_bit_def)
      qed
      then show ?thesis
        using True by (simp add: bit_ccn_val l bit_set_bit_iff bit_unset_bit_iff)
    next
      case False
      have z: "\<not> bit (ccn_val y) j" if "length y = length x" for y
      proof -
        have "(2 :: nat) ^ (64 * length y) \<le> 2 ^ j" using that False by (intro power_increasing) simp_all
        with ccn_val_bound [of y] have "ccn_val y < 2 ^ j" by (rule order_less_le_trans)
        then show ?thesis by (simp add: bit_nat_def)
      qed
      from False assms have "j \<noteq> k" by auto
      with z [OF l] z [of x] show ?thesis by (simp add: bit_set_bit_iff bit_unset_bit_iff)
    qed
  qed
qed

end
