(* ===== verification/Ccn_Mux.thy ===== *)
theory Ccn_Mux
  imports Ccn_Count
begin

unbundle bit_operations_syntax

text \<open>
  Masked conditional operations (\<open>ccn_mux.h\<close>, \<open>ccn_mux.c\<close>, \<open>ccn_cond_*.c\<close>,
  \<open>ccn_abs.c\<close>).  Each call draws a fresh mask from a global xorshift state, which the
  definitions take and return.  The lemmas show that the results depend on the selector
  only: whatever the state of the mask generator, a true selector takes the first
  operand and a false one the second.
\<close>

section \<open>The mask generator\<close>

definition ccn_mux_next_mask :: "cc_unit \<Rightarrow> cc_unit \<times> cc_unit" where
  "ccn_mux_next_mask state =
     (let state = state XOR push_bit 13 state;
          state = state XOR drop_bit 7 state;
          state = state XOR push_bit 17 state
      in (state, state))"

definition ccn_mux_seed_mask :: "cc_unit \<Rightarrow> cc_unit \<Rightarrow> cc_unit" where
  "ccn_mux_seed_mask seed state = state XOR seed"

text \<open>The macro \<open>ccn_mux_ror\<close> (the portable variant): the pair of the rotated word and the shift.\<close>

definition ccn_mux_ror :: "cc_unit \<Rightarrow> cc_unit \<Rightarrow> cc_unit" where
  "ccn_mux_ror m0 s =
     (let s = s AND (64 - 1);
          s = s OR 32
      in drop_bit (unat s) m0 OR push_bit (64 - unat s) m0)"

definition ccn_mux_setup :: "cc_unit \<Rightarrow> cc_unit \<Rightarrow> (cc_unit \<times> cc_unit \<times> cc_unit) \<times> cc_unit" where
  "ccn_mux_setup s state =
     (let (msk, state) = ccn_mux_next_mask state;
          m0 = 0x5555555555555555;
          s = s OR push_bit 1 msk;
          m1 = ccn_mux_ror m0 s
      in ((m0, m1, msk), state))"

definition ccn_mux_op :: "cc_unit \<Rightarrow> cc_unit \<Rightarrow> cc_unit \<Rightarrow> cc_unit \<Rightarrow> cc_unit \<Rightarrow> cc_unit" where
  "ccn_mux_op a b m0 m1 msk =
     (let ab = a XOR b;
          r = b XOR msk;
          t0 = r XOR (ab AND m0);
          t0 = t0 XOR (ab AND m1)
      in t0 XOR msk)"

definition ccn_mux :: "nat \<Rightarrow> cc_unit \<Rightarrow> units \<Rightarrow> units \<Rightarrow> cc_unit \<Rightarrow> units \<times> cc_unit" where
  "ccn_mux n s a b state =
     (let ((m0, m1, msk), state) = ccn_mux_setup s state
      in (map (\<lambda>i. ccn_mux_op (a ! i) (b ! i) m0 m1 msk) [0..<n], state))"

text \<open>The alternating pattern is periodic with period two under rotation.\<close>

lemma bit_0x55: "bit (0x5555555555555555 :: cc_unit) n \<longleftrightarrow> n < 64 \<and> even n"
proof (cases "n < 64")
  case True
  then have "n \<in> set [0..<64]" by simp
  moreover have "\<forall>n \<in> set [0..<64]. bit (0x5555555555555555 :: cc_unit) n = even n" by code_simp
  ultimately show ?thesis using True by blast
next
  case False
  then show ?thesis using bit_imp_le_length [of "0x5555555555555555 :: cc_unit" n] by auto
qed

lemma ror_pattern:
  fixes m :: cc_unit
  assumes "0 < k" "k < 64" and m: "\<And>n. bit m n \<longleftrightarrow> n < 64 \<and> even n"
  shows "drop_bit k m OR push_bit (64 - k) m = (if even k then m else NOT m)"
proof (rule bit_word_eqI)
  fix n :: nat
  assume n: "n < LENGTH(64)"
  have "bit (drop_bit k m OR push_bit (64 - k) m) n \<longleftrightarrow> even (n + k)"
  proof (cases "n + k < 64")
    case True
    with assms(1,2) show ?thesis by (auto simp: bit_or_iff bit_drop_bit_eq bit_push_bit_iff m add.commute)
  next
    case False
    then have "even (n - (64 - k)) \<longleftrightarrow> even (n + k)" using assms(1,2)
      by (auto simp: even_diff_nat)
    with False assms(1,2) n show ?thesis
      by (auto simp: bit_or_iff bit_drop_bit_eq bit_push_bit_iff m)
  qed
  with n show "bit (drop_bit k m OR push_bit (64 - k) m) n \<longleftrightarrow> bit (if even k then m else NOT m) n"
    by (simp add: bit_not_iff m)
qed

lemma shift_amount:
  fixes s :: cc_unit
  defines "k \<equiv> unat ((s AND 63) OR 32)"
  shows "0 < k" "k < 64" "even k \<longleftrightarrow> \<not> bit s 0"
proof -
  define w where "w = (s AND 63) OR 32"
  have m: "(63 :: cc_unit) = mask 6" "(32 :: cc_unit) = push_bit 5 1" by (simp_all add: mask_eq_exp_minus_1)
  have b: "bit w n \<longleftrightarrow> n < 6 \<and> bit s n \<or> n = 5" for n
    unfolding w_def m by (simp only: bit_or_iff bit_and_iff bit_mask_iff bit_push_bit_iff bit_1_iff) auto
  have k: "k = unat w" by (simp add: k_def w_def)
  have "w = w AND mask 6" by (rule bit_word_eqI) (auto simp: b bit_and_iff bit_mask_iff)
  then have "k = k mod 2 ^ 6" unfolding k by (metis unat_and_mask)
  then show "k < 64" by simp
  have "bit w 5" by (simp add: b)
  then have "w \<noteq> 0" by auto
  then show "0 < k" by (simp add: k unat_gt_0)
  have "odd k \<longleftrightarrow> bit w 0" by (simp add: k bit_unat_iff)
  then show "even k \<longleftrightarrow> \<not> bit s 0" by (auto simp: b)
qed

lemma ccn_mux_ror_eq:
  "ccn_mux_ror 0x5555555555555555 s =
    (if bit s 0 then NOT 0x5555555555555555 else 0x5555555555555555)"
  using ror_pattern [OF shift_amount(1,2) [of s] bit_0x55] shift_amount(3) [of s]
  unfolding ccn_mux_ror_def Let_def by auto

text \<open>Setup, whatever the generator's state, gives complementary or equal masks.\<close>

lemma ccn_mux_setup_eq:
  obtains m msk where "ccn_mux_setup s state =
    ((m, if bit s 0 then NOT m else m, msk), snd (ccn_mux_next_mask state))"
proof -
  obtain msk state' where n: "ccn_mux_next_mask state = (msk, state')" by fastforce
  have "bit (s OR push_bit 1 msk) 0 \<longleftrightarrow> bit s 0" by (simp only: bit_or_iff bit_push_bit_iff) simp
  then show ?thesis
    using n that [of "0x5555555555555555" msk] unfolding ccn_mux_setup_def ccn_mux_ror_eq Let_def by simp
qed

lemma ccn_mux_op_eq [simp]:
  "ccn_mux_op a b m (NOT m) msk = a" "ccn_mux_op a b m m msk = b"
  by (auto intro!: bit_word_eqI simp: ccn_mux_op_def Let_def bit_simps)

lemma ccn_mux_eq:
  assumes "length a = n" "length b = n"
  shows "fst (ccn_mux n s a b state) = (if bit s 0 then a else b)"
proof (rule ccn_mux_setup_eq [of s state])
  fix m msk
  assume "ccn_mux_setup s state = ((m, if bit s 0 then NOT m else m, msk), snd (ccn_mux_next_mask state))"
  with assms show ?thesis
    by (auto simp: ccn_mux_def intro!: nth_equalityI)
qed

end
