(* ===== verification/Ccn_Shift.thy ===== *)
theory Ccn_Shift
  imports Ccn_Count
begin

unbundle bit_operations_syntax

text \<open>
  Shifts of bignums by any number of bits (\<open>ccn_shift_left.c\<close>, \<open>ccn_shift_right.c\<close>,
  the \<open>_multi\<close> variants, and \<open>ccn_select\<close> of \<open>ccn_internal.h\<close>).  The single-unit shifts
  avoid the undefined shift by 64 with a mask; the lemmas show that they multiply and
  divide by a power of two.  The shift count is a \<open>size_t\<close>, here a natural number.
\<close>

section \<open>Shifting right\<close>

fun ccn_shift_right_loop :: "nat \<Rightarrow> nat \<Rightarrow> cc_unit \<Rightarrow> cc_unit \<Rightarrow> units \<Rightarrow> units" where
  "ccn_shift_right_loop k m kmask prev [] = [drop_bit k prev]"
| "ccn_shift_right_loop k m kmask prev (v # s) =
     (drop_bit k prev OR (push_bit m v AND kmask)) # ccn_shift_right_loop k m kmask v s"

definition ccn_shift_right :: "nat \<Rightarrow> units \<Rightarrow> nat \<Rightarrow> units" where
  "ccn_shift_right count s k =
     (if count = 0 then []
      else let knz = cc_heaviside_step (of_nat k);
               kmask = - knz;
               m = 64 - k - unat (knz XOR 1);
               prev = s ! 0
           in ccn_shift_right_loop k m kmask prev (drop 1 (take count s)))"

text \<open>
  The reference: every digit is the \<open>k\<close>-shifted middle of two neighbours, the unit above
  the last one being \<open>c\<close>.
\<close>

definition funnel_right :: "nat \<Rightarrow> cc_unit \<Rightarrow> cc_unit \<Rightarrow> cc_unit" where
  "funnel_right k hi lo = ucast (drop_bit k (push_bit 64 (ucast hi) OR ucast lo :: cc_dunit))"

fun shift_right_list :: "nat \<Rightarrow> units \<Rightarrow> cc_unit \<Rightarrow> units" where
  "shift_right_list k [] c = []"
| "shift_right_list k (a # s) c = funnel_right k (hd (s @ [c])) a # shift_right_list k s c"

lemma unat_funnel_right:
  "unat (funnel_right k hi lo) = (unat lo + 2 ^ 64 * unat hi) div 2 ^ k mod 2 ^ 64"
proof -
  have "unat hi * 2 ^ 64 < 2 ^ 64 * 2 ^ 64" using word_bound [of hi] by simp
  then have eq: "unat (push_bit 64 (ucast hi) OR ucast lo :: cc_dunit) = unat lo + 2 ^ 64 * unat hi"
    using unat_or_push_bit [of "ucast lo :: cc_dunit" 64 "ucast hi"] word_bound [of lo] by simp
  show ?thesis unfolding funnel_right_def unat_ucast_mod unat_drop_bit_div eq by simp
qed

lemma funnel_right_bits:
  assumes "k < 64"
  shows "funnel_right k hi lo = drop_bit k lo OR (if k = 0 then 0 else push_bit (64 - k) hi)"
proof (rule bit_word_eqI)
  fix n :: nat
  assume n: "n < LENGTH(64)"
  then have "bit (funnel_right k hi lo) n \<longleftrightarrow> (if k + n < 64 then bit lo (k + n) else bit hi (k + n - 64))"
    using assms bit_imp_le_length [of lo "k + n"]
    by (auto simp: funnel_right_def bit_simps)
  also have "\<dots> \<longleftrightarrow> bit (drop_bit k lo OR (if k = 0 then 0 else push_bit (64 - k) hi)) n"
    using assms n bit_imp_le_length [of lo "k + n"] by (auto simp: bit_simps add.commute [of k n])
  finally show "bit (funnel_right k hi lo) n \<longleftrightarrow>
    bit (drop_bit k lo OR (if k = 0 then 0 else push_bit (64 - k) hi)) n" .
qed

lemma length_shift_right_list [simp]: "length (shift_right_list k s c) = length s"
  by (induction s) simp_all

lemma div_mod_low:
  fixes a y k :: nat
  assumes "k \<le> 64"
  shows "(a + 2 ^ 64 * y) div 2 ^ k mod 2 ^ 64 = (a + 2 ^ 64 * (y mod 2 ^ 64)) div 2 ^ k mod 2 ^ 64"
proof -
  have p: "(2 :: nat) ^ 128 = 2 ^ k * (2 ^ 64 * 2 ^ (64 - k))" using assms by (simp flip: power_add)
  have "2 ^ 64 * y = 2 ^ 64 * (y mod 2 ^ 64) + 2 ^ 128 * (y div 2 ^ 64)"
    using arg_cong [OF nat_split_bits [of y 64], of "\<lambda>x. 2 ^ 64 * x"] by (simp only: distrib_left) simp
  then have "a + 2 ^ 64 * y = (a + 2 ^ 64 * (y mod 2 ^ 64)) + 2 ^ k * (2 ^ 64 * 2 ^ (64 - k) * (y div 2 ^ 64))"
    unfolding p by (simp only: ac_simps)
  then have "(a + 2 ^ 64 * y) div 2 ^ k =
      (a + 2 ^ 64 * (y mod 2 ^ 64)) div 2 ^ k + 2 ^ 64 * (2 ^ (64 - k) * (y div 2 ^ 64))"
    by (simp only: div_mult_self2 power_not_zero mult.assoc) simp
  then show ?thesis by (simp only: mod_mult_self2)
qed

lemma ccn_val_mod: "s \<noteq> [] \<Longrightarrow> ccn_val s mod 2 ^ 64 = unat (hd s)"
  using word_bound [of "hd s"] by (cases s) simp_all

lemma shift_right_list_val:
  assumes "k \<le> 64"
  shows "ccn_val (shift_right_list k s c) =
    (ccn_val s + 2 ^ (64 * length s) * unat c) div 2 ^ k mod 2 ^ (64 * length s)"
proof (induction s)
  case Nil
  then show ?case by simp
next
  case (Cons a s)
  let ?y = "ccn_val s + 2 ^ (64 * length s) * unat c"
  let ?x = "unat a + 2 ^ 64 * ?y"
  have h: "unat (hd (s @ [c])) = ?y mod 2 ^ 64"
  proof (cases s)
    case Nil
    then show ?thesis using word_bound [of c] by simp
  next
    case (Cons b t)
    have "?y = ccn_val (s @ [c])" by (simp add: ccn_val_append)
    then show ?thesis using ccn_val_mod [of "s @ [c]"] by simp
  qed
  have lo: "unat (funnel_right k (hd (s @ [c])) a) = ?x div 2 ^ k mod 2 ^ 64"
    unfolding unat_funnel_right h by (rule div_mod_low [OF assms, symmetric])
  have "?x div 2 ^ k div 2 ^ 64 = ?x div 2 ^ 64 div 2 ^ k"
    by (simp only: div_mult2_eq [symmetric] mult.commute)
  also have "\<dots> = ?y div 2 ^ k" using digit_div [of "unat a" "2 ^ 64" ?y] word_bound [of a] by simp
  finally have hi: "?x div 2 ^ k div 2 ^ 64 = ?y div 2 ^ k" .
  have p: "(2 :: nat) ^ (64 * length (a # s)) = 2 ^ 64 * 2 ^ (64 * length s)" by (simp add: power_add)
  have x: "ccn_val (a # s) + 2 ^ (64 * length (a # s)) * unat c = ?x"
    unfolding p by (simp add: algebra_simps)
  have "ccn_val (shift_right_list k (a # s) c) = ?x div 2 ^ k mod 2 ^ (64 * length (a # s))"
    unfolding p mod_mult2_eq hi shift_right_list.simps ccn_val_simps lo Cons.IH by (simp only: add.commute)
  then show ?case unfolding x .
qed

lemma ccn_shift_right_loop_eq:
  assumes "k < 64"
  shows "ccn_shift_right_loop k (if k = 0 then 63 else 64 - k) (if k = 0 then 0 else -1) prev s =
    shift_right_list k (prev # s) 0"
  by (induction s arbitrary: prev) (use assms in \<open>auto simp: funnel_right_bits\<close>)

lemma ccn_shift_right_list:
  assumes "k < 64" "length s = n"
  shows "ccn_shift_right n s k = shift_right_list k s 0"
proof (cases s)
  case Nil
  with assms show ?thesis by (simp add: ccn_shift_right_def)
next
  case (Cons a t)
  have "(of_nat k :: cc_unit) = 0 \<longleftrightarrow> k = 0"
    using assms(1) by (simp add: word_unat_eq_iff unat_of_nat)
  with Cons assms ccn_shift_right_loop_eq [OF assms(1), of a t] show ?thesis
    by (auto simp: ccn_shift_right_def Let_def simp del: shift_right_list.simps split: if_splits)
qed

lemma ccn_shift_right_val:
  assumes "k < 64" "length s = n"
  shows "length (ccn_shift_right n s k) = n" "ccn_val (ccn_shift_right n s k) = ccn_val s div 2 ^ k"
proof -
  show "length (ccn_shift_right n s k) = n" using assms by (simp add: ccn_shift_right_list)
  have "ccn_val s div 2 ^ k < 2 ^ (64 * n)"
    using ccn_val_bound [of s] assms by (meson div_le_dividend order_le_less_trans)
  then show "ccn_val (ccn_shift_right n s k) = ccn_val s div 2 ^ k"
    using shift_right_list_val [of k s 0] assms by (simp add: ccn_shift_right_list)
qed

section \<open>Shifting left\<close>

fun ccn_shift_left_loop :: "nat \<Rightarrow> nat \<Rightarrow> cc_unit \<Rightarrow> nat \<Rightarrow> units \<Rightarrow> cc_unit \<Rightarrow> units" where
  "ccn_shift_left_loop k m kmask 0 s sip1 = [push_bit k sip1]"
| "ccn_shift_left_loop k m kmask (Suc i) s sip1 =
     (let si = s ! i
      in ccn_shift_left_loop k m kmask i s si @ [push_bit k sip1 OR (drop_bit m si AND kmask)])"

definition ccn_shift_left :: "nat \<Rightarrow> units \<Rightarrow> nat \<Rightarrow> units" where
  "ccn_shift_left count s k =
     (if count = 0 then []
      else let knz = cc_heaviside_step (of_nat k);
               kmask = - knz;
               i = count - 1;
               m = 64 - k - unat (knz XOR 1);
               sip1 = s ! i
           in ccn_shift_left_loop k m kmask i s sip1)"

definition shift_left_digit :: "nat \<Rightarrow> cc_unit \<Rightarrow> cc_unit \<Rightarrow> cc_unit" where
  "shift_left_digit k s below = push_bit k s OR (if k = 0 then 0 else drop_bit (64 - k) below)"

fun shift_left_list :: "nat \<Rightarrow> cc_unit \<Rightarrow> units \<Rightarrow> units" where
  "shift_left_list k below [] = []"
| "shift_left_list k below (a # s) = shift_left_digit k a below # shift_left_list k a s"

lemma length_shift_left_list [simp]: "length (shift_left_list k b s) = length s"
  by (induction s arbitrary: b) simp_all

lemma shift_left_list_snoc:
  "shift_left_list k b (s @ [a]) = shift_left_list k b s @ [shift_left_digit k a (last (b # s))]"
  by (induction s arbitrary: b) simp_all

lemma unat_shift_left_digit:
  assumes "k < 64"
  shows "unat (shift_left_digit k a b) = unat a * 2 ^ k mod 2 ^ 64 + unat b div 2 ^ (64 - k)"
proof (cases "k = 0")
  case True
  then show ?thesis using word_bound [of a] word_bound [of b] by (simp add: shift_left_digit_def)
next
  case False
  have "unat b < 2 ^ k * 2 ^ (64 - k)" using word_bound [of b] assms by (simp flip: power_add)
  then have "unat b div 2 ^ (64 - k) < 2 ^ k" by (rule less_mult_imp_div_less)
  then have b: "unat (drop_bit (64 - k) b) < 2 ^ k" by (simp only: unat_drop_bit_div)
  have p: "(2 :: nat) ^ 64 = 2 ^ (64 - k) * 2 ^ k" using assms by (simp flip: power_add)
  have eq: "push_bit k a = push_bit k (a AND mask (64 - k))"
    by (rule bit_word_eqI) (use assms in \<open>auto simp: bit_simps\<close>)
  have "unat a mod 2 ^ (64 - k) * 2 ^ k < 2 ^ (64 - k) * 2 ^ k" by simp
  also have "\<dots> = 2 ^ 64" by (rule p [symmetric])
  finally have "unat (a AND mask (64 - k)) * 2 ^ k < 2 ^ LENGTH(64)"
    by (simp add: unat_and_mask)
  from unat_or_push_bit [OF b this] show ?thesis
    using False unfolding shift_left_digit_def eq unat_and_mask unat_drop_bit_div p
    by (simp add: mult_mod_left)
qed

lemma shift_left_list_val:
  assumes "k < 64"
  shows "ccn_val (shift_left_list k b s) =
    (ccn_val s * 2 ^ k + unat b div 2 ^ (64 - k)) mod 2 ^ (64 * length s)"
proof (induction s arbitrary: b)
  case Nil
  then show ?case by simp
next
  case (Cons a s)
  let ?d = "unat a * 2 ^ k mod 2 ^ 64 + unat b div 2 ^ (64 - k)"
  let ?y = "ccn_val s * 2 ^ k + unat a div 2 ^ (64 - k)"
  have p: "(2 :: nat) ^ (64 * length (a # s)) = 2 ^ 64 * 2 ^ (64 * length s)" by (simp add: power_add)
  have d: "?d < 2 ^ 64"
    using word_bound [of "shift_left_digit k a b"] by (simp add: unat_shift_left_digit [OF assms])
  have q: "(2 :: nat) ^ 64 = 2 ^ (64 - k) * 2 ^ k" using assms by (simp flip: power_add)
  have "unat a * 2 ^ k div 2 ^ 64 = unat a div 2 ^ (64 - k)"
    unfolding q by simp
  then have "unat a * 2 ^ k = unat a * 2 ^ k mod 2 ^ 64 + 2 ^ 64 * (unat a div 2 ^ (64 - k))"
    by (metis mult.commute add.commute div_mult_mod_eq)
  then have x: "ccn_val (a # s) * 2 ^ k + unat b div 2 ^ (64 - k) = ?d + 2 ^ 64 * ?y"
    by (simp add: algebra_simps)
  have "(?d + 2 ^ 64 * ?y) mod 2 ^ (64 * length (a # s)) = ?d + 2 ^ 64 * (?y mod 2 ^ (64 * length s))"
    unfolding p by (rule digit_mod_mult [OF d])
  then show ?case
    unfolding x by (simp add: Cons.IH unat_shift_left_digit [OF assms])
qed

lemma ccn_shift_left_loop_eq:
  assumes "k < 64" "i < length s"
  shows "ccn_shift_left_loop k (if k = 0 then 63 else 64 - k) (if k = 0 then 0 else -1) i s (s ! i) =
    shift_left_list k 0 (take (Suc i) s)"
  using assms(2)
proof (induction i)
  case 0
  then show ?case by (cases s) (simp_all add: shift_left_digit_def)
next
  case (Suc i)
  then have "last (0 # take (Suc i) s) = s ! i" by (simp add: take_Suc_conv_app_nth)
  with Suc assms(1) show ?case
    by (simp add: take_Suc_conv_app_nth [of "Suc i"] shift_left_list_snoc shift_left_digit_def
        del: take_Suc)
qed

lemma ccn_shift_left_list:
  assumes "k < 64" "length s = n"
  shows "ccn_shift_left n s k = shift_left_list k 0 s"
proof (cases "n = 0")
  case True
  with assms show ?thesis by (simp add: ccn_shift_left_def)
next
  case False
  have "(of_nat k :: cc_unit) = 0 \<longleftrightarrow> k = 0"
    using assms(1) by (simp add: word_unat_eq_iff unat_of_nat)
  with False assms ccn_shift_left_loop_eq [OF assms(1), of "n - 1" s] show ?thesis
    by (auto simp: ccn_shift_left_def Let_def split: if_splits)
qed

lemma ccn_shift_left_val:
  assumes "k < 64" "length s = n"
  shows "length (ccn_shift_left n s k) = n"
    "ccn_val (ccn_shift_left n s k) = ccn_val s * 2 ^ k mod 2 ^ (64 * n)"
  using shift_left_list_val [of k 0 s] assms by (simp_all add: ccn_shift_left_list)

section \<open>Shifts by more than a unit\<close>

fun ccn_select_loop :: "units \<Rightarrow> cc_unit \<Rightarrow> nat \<Rightarrow> nat \<Rightarrow> cc_unit \<Rightarrow> cc_unit" where
  "ccn_select_loop r i j 0 ri = ri"
| "ccn_select_loop r i j (Suc m) ri =
     (let i_neq_j = cc_heaviside_step (i XOR of_nat j)
      in ccn_select_loop r i (Suc j) m (ri OR (r ! j AND (i_neq_j - 1))))"

definition ccn_select :: "nat \<Rightarrow> nat \<Rightarrow> units \<Rightarrow> cc_unit \<Rightarrow> cc_unit" where
  "ccn_select start end' r i = ccn_select_loop r i start (end' - start) 0"

fun ccn_shift_left_multi_loop :: "nat \<Rightarrow> cc_unit \<Rightarrow> units \<Rightarrow> units" where
  "ccn_shift_left_multi_loop 0 offset r = r"
| "ccn_shift_left_multi_loop (Suc i) offset r =
     ccn_shift_left_multi_loop i offset (r[i := ccn_select 0 (i + 1) r (of_nat i - offset)])"

definition ccn_shift_left_multi :: "nat \<Rightarrow> units \<Rightarrow> nat \<Rightarrow> units" where
  "ccn_shift_left_multi n s k =
     (let offset = of_nat (k div 64);
          lshift = k mod 64;
          r = ccn_shift_left n s lshift
      in ccn_shift_left_multi_loop n offset r)"

fun ccn_shift_right_multi_loop :: "nat \<Rightarrow> nat \<Rightarrow> nat \<Rightarrow> cc_unit \<Rightarrow> units \<Rightarrow> units" where
  "ccn_shift_right_multi_loop n i 0 offset r = r"
| "ccn_shift_right_multi_loop n i (Suc m) offset r =
     ccn_shift_right_multi_loop n (Suc i) m offset (r[i := ccn_select i n r (of_nat i + offset)])"

definition ccn_shift_right_multi :: "nat \<Rightarrow> units \<Rightarrow> nat \<Rightarrow> units" where
  "ccn_shift_right_multi n s k =
     (let offset = of_nat (k div 64);
          rshift = k mod 64;
          r = ccn_shift_right n s rshift
      in ccn_shift_right_multi_loop n 0 n offset r)"

lemma ccn_select_loop_eq:
  assumes "j + m < 2 ^ 64"
  shows "ccn_select_loop r i j m ri =
    (if j \<le> unat i \<and> unat i < j + m then ri OR r ! unat i else ri)"
  using assms
proof (induction m arbitrary: j ri)
  case 0
  then show ?case by auto
next
  case (Suc m)
  have "i = of_nat j \<longleftrightarrow> unat i = j"
    using Suc.prems by (simp add: word_unat_eq_iff unat_of_nat)
  then have "i XOR of_nat j = 0 \<longleftrightarrow> unat i = j" by (simp only: xor_eq_0_word)
  with Suc.IH [of "Suc j"] Suc.prems show ?case by auto
qed

lemma ccn_select_eq:
  "end' < 2 ^ 64 \<Longrightarrow> start \<le> end' \<Longrightarrow>
   ccn_select start end' r i = (if start \<le> unat i \<and> unat i < end' then r ! unat i else 0)"
  by (simp add: ccn_select_def ccn_select_loop_eq)

lemma unat_index_sub:
  assumes "i < 2 ^ 58" "q < 2 ^ 58"
  shows "unat (of_nat i - of_nat q :: cc_unit) = (if q \<le> i then i - q else i + 2 ^ 64 - q)"
  using assms by (simp add: unat_sub_if_size word_size unat_of_nat)

lemma unat_index_add:
  assumes "i < 2 ^ 58" "q < 2 ^ 58"
  shows "unat (of_nat i + of_nat q :: cc_unit) = i + q"
  using assms by (simp add: unat_word_ariths unat_of_nat)

lemma length_multi_loop [simp]:
  "length (ccn_shift_left_multi_loop m off r) = length r"
  "length (ccn_shift_right_multi_loop n i m off r) = length r"
  by (induction m arbitrary: r i) simp_all

lemma ccn_shift_left_multi_loop_nth:
  assumes "m < 2 ^ 58" "q < 2 ^ 58" "m \<le> length r" "p < length r"
  shows "ccn_shift_left_multi_loop m (of_nat q) r ! p =
    (if p < m then (if q \<le> p then r ! (p - q) else 0) else r ! p)"
  using assms
proof (induction m arbitrary: r)
  case 0
  then show ?case by simp
next
  case (Suc m)
  let ?r = "r[m := ccn_select 0 (m + 1) r (of_nat m - of_nat q)]"
  have "?r ! m = (if q \<le> m then r ! (m - q) else 0)"
    using Suc.prems by (auto simp: ccn_select_eq unat_index_sub split: if_splits)
  with Suc.IH [of ?r] Suc.prems show ?case by (auto simp: less_Suc_eq)
qed

lemma ccn_shift_right_multi_loop_nth:
  assumes "n < 2 ^ 58" "q < 2 ^ 58" "length r = n" "i + m = n" "p < n"
  shows "ccn_shift_right_multi_loop n i m (of_nat q) r ! p =
    (if i \<le> p then (if p + q < n then r ! (p + q) else 0) else r ! p)"
  using assms(3-)
proof (induction m arbitrary: r i)
  case 0
  then show ?case by simp
next
  case (Suc m)
  let ?r = "r[i := ccn_select i n r (of_nat i + of_nat q)]"
  have "?r ! i = (if i + q < n then r ! (i + q) else 0)"
    using Suc.prems assms(1,2) by (simp add: ccn_select_eq unat_index_add)
  with Suc.IH [of ?r "Suc i"] Suc.prems show ?case
    by (cases "i = p") (auto simp: nth_list_update)
qed

text \<open>Together: shifting left multiplies, shifting right divides, for every count.\<close>

lemma shift_left_multi_units:
  assumes "n < 2 ^ 58" "q < 2 ^ 58" "length r = n"
  shows "ccn_shift_left_multi_loop n (of_nat q) r = take n (replicate q 0 @ r)"
  by (rule nth_equalityI)
    (use assms in \<open>auto simp: ccn_shift_left_multi_loop_nth nth_append\<close>)

lemma shift_right_multi_units:
  assumes "n < 2 ^ 58" "q < 2 ^ 58" "length r = n"
  shows "ccn_shift_right_multi_loop n 0 n (of_nat q) r = drop q r @ replicate (min q n) 0"
  by (rule nth_equalityI)
    (use assms in \<open>auto simp: ccn_shift_right_multi_loop_nth nth_append add.commute min_def\<close>)

lemma pow_div_mod: "(2 :: nat) ^ k = 2 ^ (k mod 64) * 2 ^ (64 * (k div 64))"
  by (simp flip: power_add)

lemma ccn_shift_left_multi_val:
  assumes "length s = n" "n < 2 ^ 58" "k < 2 ^ 64"
  shows "length (ccn_shift_left_multi n s k) = n"
    "ccn_val (ccn_shift_left_multi n s k) = ccn_val s * 2 ^ k mod 2 ^ (64 * n)"
proof -
  let ?r = "ccn_shift_left n s (k mod 64)"
  have r: "length ?r = n" "ccn_val ?r = ccn_val s * 2 ^ (k mod 64) mod 2 ^ (64 * n)"
    by (simp_all add: ccn_shift_left_val assms(1))
  have eq: "ccn_shift_left_multi n s k = take n (replicate (k div 64) 0 @ ?r)"
    using shift_left_multi_units [of n "k div 64" ?r] r(1) assms by (simp add: ccn_shift_left_multi_def Let_def)
  show "length (ccn_shift_left_multi n s k) = n" using r by (simp add: eq)
  show "ccn_val (ccn_shift_left_multi n s k) = ccn_val s * 2 ^ k mod 2 ^ (64 * n)"
    unfolding eq val_take_mod ccn_val_append r pow_div_mod [of k] by (simp add: mod_mult_right_eq ac_simps)
qed

lemma ccn_shift_right_multi_val:
  assumes "length s = n" "n < 2 ^ 58" "k < 2 ^ 64"
  shows "length (ccn_shift_right_multi n s k) = n"
    "ccn_val (ccn_shift_right_multi n s k) = ccn_val s div 2 ^ k"
proof -
  let ?r = "ccn_shift_right n s (k mod 64)"
  have r: "length ?r = n" "ccn_val ?r = ccn_val s div 2 ^ (k mod 64)"
    by (simp_all add: ccn_shift_right_val assms(1))
  have eq: "ccn_shift_right_multi n s k = drop (k div 64) ?r @ replicate (min (k div 64) n) 0"
    using shift_right_multi_units [of n "k div 64" ?r] r(1) assms by (simp add: ccn_shift_right_multi_def Let_def)
  show "length (ccn_shift_right_multi n s k) = n" using r by (simp add: eq)
  show "ccn_val (ccn_shift_right_multi n s k) = ccn_val s div 2 ^ k"
    by (subst pow_div_mod) (simp add: eq ccn_val_append val_drop_div r div_mult2_eq)
qed

end
