(* ===== verification/Ccn_Cond.thy ===== *)
theory Ccn_Cond
  imports Ccn_Mux Ccn_Shift
begin

unbundle bit_operations_syntax

text \<open>
  The conditional operations built on the masked selection: \<open>ccn_cond_swap.c\<close>,
  \<open>ccn_cond_add.c\<close>, \<open>ccn_cond_neg.c\<close>, \<open>ccn_cond_shift_right.c\<close> and
  \<open>ccn_abs.c\<close>.  Each is shown to be the plain operation when the selector is 1 and the
  identity when it is 0, whatever the mask generator's state.
\<close>

definition ccn_cond_swap_unit ::
  "cc_unit \<Rightarrow> cc_unit \<Rightarrow> cc_unit \<Rightarrow> cc_unit \<Rightarrow> cc_unit \<Rightarrow> cc_unit \<times> cc_unit" where
  "ccn_cond_swap_unit r0 r1 m0 m1 msk =
     (let ab = r0 XOR r1;
          r0 = r0 XOR msk;
          r1 = r1 XOR msk;
          t0 = r0 XOR (ab AND m0);
          t1 = r1 XOR (ab AND m0);
          t0 = t0 XOR (ab AND m1);
          t1 = t1 XOR (ab AND m1)
      in (t0 XOR msk, t1 XOR msk))"

definition ccn_cond_swap :: "nat \<Rightarrow> cc_unit \<Rightarrow> units \<Rightarrow> units \<Rightarrow> cc_unit \<Rightarrow> (units \<times> units) \<times> cc_unit" where
  "ccn_cond_swap n ki r0 r1 state =
     (let ((m0, m1, msk), state) = ccn_mux_setup ki state;
          rs = map (\<lambda>i. ccn_cond_swap_unit (r0 ! i) (r1 ! i) m0 m1 msk) [0..<n]
      in ((map fst rs, map snd rs), state))"

fun ccn_cond_add_loop ::
  "cc_unit \<times> cc_unit \<times> cc_unit \<Rightarrow> cc_dunit \<Rightarrow> units \<Rightarrow> units \<Rightarrow> cc_dunit \<times> units" where
  "ccn_cond_add_loop (m0, m1, msk) c (x # xs) (y # ys) =
     (let u1 = x;
          c = c + (ucast x + ucast y);
          u0 = ucast c;
          (c, rs) = ccn_cond_add_loop (m0, m1, msk) (drop_bit 64 c) xs ys
      in (c, ccn_mux_op u0 u1 m0 m1 msk # rs))"
| "ccn_cond_add_loop ms c _ _ = (c, [])"

definition ccn_cond_add ::
  "nat \<Rightarrow> cc_unit \<Rightarrow> units \<Rightarrow> units \<Rightarrow> cc_unit \<Rightarrow> (cc_unit \<times> units) \<times> cc_unit" where
  "ccn_cond_add n s x y state =
     (let (ms, state) = ccn_mux_setup s state;
          (c, r) = ccn_cond_add_loop ms 0 (take n x) (take n y)
      in ((ucast c AND s, r), state))"

fun ccn_cond_neg_loop :: "cc_unit \<times> cc_unit \<times> cc_unit \<Rightarrow> cc_dunit \<Rightarrow> units \<Rightarrow> units" where
  "ccn_cond_neg_loop ms c [] = []"
| "ccn_cond_neg_loop (m0, m1, msk) c (x # xs) =
     (let u0 = x XOR -1;
          u1 = x;
          c = c + ucast u0;
          u0 = ucast c
      in ccn_mux_op u0 u1 m0 m1 msk # ccn_cond_neg_loop (m0, m1, msk) (drop_bit 64 c) xs)"

definition ccn_cond_neg :: "nat \<Rightarrow> cc_unit \<Rightarrow> units \<Rightarrow> cc_unit \<Rightarrow> units \<times> cc_unit" where
  "ccn_cond_neg n s x state =
     (let (ms, state) = ccn_mux_setup s state in (ccn_cond_neg_loop ms 1 (take n x), state))"

fun ccn_cond_shift_right_loop ::
  "cc_unit \<times> cc_unit \<times> cc_unit \<Rightarrow> nat \<Rightarrow> nat \<Rightarrow> units \<Rightarrow> cc_unit \<Rightarrow> units" where
  "ccn_cond_shift_right_loop ms k 0 a c = []"
| "ccn_cond_shift_right_loop (m0, m1, msk) k (Suc i) a c =
     (let u0 = ucast (drop_bit k (push_bit 64 (ucast c) OR ucast (a ! i) :: cc_dunit));
          u1 = a ! i
      in ccn_cond_shift_right_loop (m0, m1, msk) k i a u1 @ [ccn_mux_op u0 u1 m0 m1 msk])"

definition ccn_cond_shift_right_carry ::
  "nat \<Rightarrow> cc_unit \<Rightarrow> units \<Rightarrow> nat \<Rightarrow> cc_unit \<Rightarrow> cc_unit \<Rightarrow> units \<times> cc_unit" where
  "ccn_cond_shift_right_carry n s a k c state =
     (let (ms, state) = ccn_mux_setup s state in (ccn_cond_shift_right_loop ms k n a c, state))"

definition ccn_cond_shift_right ::
  "nat \<Rightarrow> cc_unit \<Rightarrow> units \<Rightarrow> nat \<Rightarrow> cc_unit \<Rightarrow> units \<times> cc_unit" where
  "ccn_cond_shift_right n s a k state = ccn_cond_shift_right_carry n s a k 0 state"

definition ccn_abs :: "nat \<Rightarrow> units \<Rightarrow> units \<Rightarrow> cc_unit \<Rightarrow> (cc_unit \<times> units) \<times> cc_unit" where
  "ccn_abs n s t state =
     (let (c, r) = ccn_sub n s t;
          (_, q) = ccn_sub n t s;
          (r, state) = ccn_mux n c q r state
      in ((c, r), state))"

section \<open>Swap\<close>

lemma ccn_cond_swap_unit_eq [simp]:
  "ccn_cond_swap_unit a b m (NOT m) msk = (b, a)" "ccn_cond_swap_unit a b m m msk = (a, b)"
  by (auto intro!: bit_word_eqI simp: ccn_cond_swap_unit_def Let_def bit_simps)

lemma ccn_cond_swap_eq:
  assumes "length a = n" "length b = n"
  shows "fst (ccn_cond_swap n ki a b state) = (if bit ki 0 then (b, a) else (a, b))"
proof (rule ccn_mux_setup_eq [of ki state])
  fix m msk
  assume "ccn_mux_setup ki state = ((m, if bit ki 0 then NOT m else m, msk), snd (ccn_mux_next_mask state))"
  with assms show ?thesis
    by (auto simp: ccn_cond_swap_def Let_def comp_def intro!: nth_equalityI)
qed

section \<open>Addition and negation\<close>

lemma ccn_cond_add_loop_eq:
  "length xs = length ys \<Longrightarrow> ccn_cond_add_loop (m, NOT m, msk) c xs ys = ccn_add_loop c xs ys"
  "length xs = length ys \<Longrightarrow> ccn_cond_add_loop (m, m, msk) c xs ys = (fst (ccn_add_loop c xs ys), xs)"
  by (induction xs ys arbitrary: c rule: list_induct2) (auto simp: Let_def split: prod.splits)

lemma bit_sel: "(s :: cc_unit) = 0 \<or> s = 1 \<Longrightarrow> bit s 0 \<longleftrightarrow> s = 1"
  by auto

lemma ccn_cond_add_eq:
  assumes "length x = n" "length y = n" "s = 0 \<or> s = 1"
  shows "fst (ccn_cond_add n s x y state) = (if s = 1 then ccn_add n x y else (0, x))"
proof (rule ccn_mux_setup_eq [of s state])
  fix m msk
  assume st: "ccn_mux_setup s state = ((m, if bit s 0 then NOT m else m, msk), snd (ccn_mux_next_mask state))"
  obtain c r where l: "ccn_add_loop 0 x y = (c, r)" by fastforce
  have "unat c \<le> 1" using ccn_add_loop_val [OF _ _ l] assms by simp
  then have "unat c = 0 \<or> unat c = 1" by auto
  then have "c = 0 \<or> c = 1" by (auto simp: word_unat_eq_iff)
  then show ?thesis
    using st assms l bit_sel [OF assms(3)]
    by (auto simp: ccn_cond_add_def ccn_add_def ccn_cond_add_loop_eq)
qed

lemma ccn_cond_neg_loop_eq:
  "ccn_cond_neg_loop (m, NOT m, msk) c xs = snd (ccn_add1_loop c (map (\<lambda>u. u XOR -1) xs))"
  "ccn_cond_neg_loop (m, m, msk) c xs = xs"
  by (induction xs arbitrary: c) (auto simp: Let_def split: prod.splits)

lemma ccn_cond_neg_eq:
  assumes "length x = n"
  shows "fst (ccn_cond_neg n s x state) = (if bit s 0 then ccn_neg n x else x)"
proof (rule ccn_mux_setup_eq [of s state])
  fix m msk
  assume "ccn_mux_setup s state = ((m, if bit s 0 then NOT m else m, msk), snd (ccn_mux_next_mask state))"
  with assms show ?thesis
    by (cases "n = 0")
      (auto simp: ccn_cond_neg_def ccn_neg_def ccn_add1_def ccn_cond_neg_loop_eq split: prod.splits)
qed

section \<open>Shift\<close>

lemma shift_right_list_snoc:
  "shift_right_list k (s @ [a]) c = shift_right_list k s a @ [funnel_right k c a]"
proof (induction s)
  case (Cons b s)
  then show ?case by (cases s) simp_all
qed simp

lemma ccn_cond_shift_right_loop_eq:
  "n \<le> length a \<Longrightarrow> ccn_cond_shift_right_loop (m, NOT m, msk) k n a c = shift_right_list k (take n a) c"
  "n \<le> length a \<Longrightarrow> ccn_cond_shift_right_loop (m, m, msk) k n a c = take n a"
  by (induction n arbitrary: c)
    (simp_all add: take_Suc_conv_app_nth shift_right_list_snoc funnel_right_def)

lemma ccn_cond_shift_right_carry_val:
  assumes "length a = n" "k \<le> 64"
  shows "bit s 0 \<Longrightarrow> ccn_val (fst (ccn_cond_shift_right_carry n s a k c state)) =
      (ccn_val a + 2 ^ (64 * n) * unat c) div 2 ^ k mod 2 ^ (64 * n)"
    "\<not> bit s 0 \<Longrightarrow> fst (ccn_cond_shift_right_carry n s a k c state) = a"
proof -
  obtain m msk where e: "ccn_mux_setup s state =
      ((m, if bit s 0 then NOT m else m, msk), snd (ccn_mux_next_mask state))"
    by (rule ccn_mux_setup_eq)
  then show "bit s 0 \<Longrightarrow> ccn_val (fst (ccn_cond_shift_right_carry n s a k c state)) =
      (ccn_val a + 2 ^ (64 * n) * unat c) div 2 ^ k mod 2 ^ (64 * n)"
    using assms shift_right_list_val [of k a c]
    by (simp add: ccn_cond_shift_right_carry_def ccn_cond_shift_right_loop_eq)
  from e show "\<not> bit s 0 \<Longrightarrow> fst (ccn_cond_shift_right_carry n s a k c state) = a"
    using assms by (simp add: ccn_cond_shift_right_carry_def ccn_cond_shift_right_loop_eq)
qed

section \<open>Absolute difference\<close>

lemma ccn_abs_val:
  assumes "length s = n" "length t = n" "fst (ccn_abs n s t state) = (c, r)"
  shows "length r = n" "int (ccn_val r) = \<bar>int (ccn_val s) - int (ccn_val t)\<bar>"
    "c = (if ccn_val s < ccn_val t then 1 else 0)"
proof -
  obtain b r1 where e1: "ccn_sub n s t = (b, r1)" by fastforce
  obtain b' r2 where e2: "ccn_sub n t s = (b', r2)" by fastforce
  note v1 = ccn_sub_val [OF assms(1,2) e1] and v2 = ccn_sub_val [OF assms(2,1) e2]
  have cr: "c = b" "r = (if bit b 0 then r2 else r1)"
    using assms(3) e1 e2 ccn_mux_eq [OF v2(1) v1(1), of b state]
    by (auto simp: ccn_abs_def split: prod.splits)
  have bounds: "ccn_val s < 2 ^ (64 * n)" "ccn_val t < 2 ^ (64 * n)"
    "ccn_val r1 < 2 ^ (64 * n)" "ccn_val r2 < 2 ^ (64 * n)"
    using ccn_val_bound assms(1,2) v1(1) v2(1) by metis+
  have u: "unat b = 0 \<or> unat b = 1" "unat b' = 0 \<or> unat b' = 1" using v1(2) v2(2) by auto
  show "length r = n" using cr v1(1) v2(1) by simp
  have b: "bit b 0 \<longleftrightarrow> unat b = 1" using u(1) by (auto simp: word_unat_eq_iff bit_unat_iff)
  show "c = (if ccn_val s < ccn_val t then 1 else 0)"
    using u(1) v1(3) bounds cr(1) by (auto simp: word_unat_eq_iff)
  show "int (ccn_val r) = \<bar>int (ccn_val s) - int (ccn_val t)\<bar>"
    using u v1(3) v2(3) bounds cr(2) b by auto
qed

end
