(* ===== verification/Ccn_Mul.thy ===== *)
theory Ccn_Mul
  imports Ccn_Cond
begin

unbundle bit_operations_syntax

text \<open>
  Multiplication: by a unit (\<open>ccn_mul1.c\<close>, \<open>ccn_addmul1.c\<close>), the schoolbook product
  that takes the multiplier two units at a time and the one that adds a row per unit
  (\<open>ccn_mul.c\<close>), and the low half of a product (\<open>ccn_div_exact.c\<close>).  The double-width
  accumulators are 128-bit words; the lemmas show they never overflow.
\<close>

section \<open>Multiplication by one unit\<close>

fun ccn_mul1_loop :: "cc_unit \<Rightarrow> cc_unit \<Rightarrow> units \<Rightarrow> cc_unit \<times> units" where
  "ccn_mul1_loop v carry [] = (carry, [])"
| "ccn_mul1_loop v carry (s # ss) =
     (let prod = ucast s :: cc_dunit;
          prod = prod * ucast v;
          prod = prod + ucast carry;
          (c, rs) = ccn_mul1_loop v (ucast (drop_bit 64 prod)) ss
      in (c, ucast prod # rs))"

definition ccn_mul1 :: "nat \<Rightarrow> units \<Rightarrow> cc_unit \<Rightarrow> cc_unit \<times> units" where
  "ccn_mul1 n s v = ccn_mul1_loop v 0 (take n s)"

fun ccn_addmul1_loop :: "cc_unit \<Rightarrow> cc_unit \<Rightarrow> units \<Rightarrow> units \<Rightarrow> cc_unit \<times> units" where
  "ccn_addmul1_loop v carry (r # rs) (s # ss) =
     (let prod = ucast s :: cc_dunit;
          prod = prod * ucast v;
          prod = prod + ucast r;
          prod = prod + ucast carry;
          (c, rs) = ccn_addmul1_loop v (ucast (drop_bit 64 prod)) rs ss
      in (c, ucast prod # rs))"
| "ccn_addmul1_loop v carry _ _ = (carry, [])"

definition ccn_addmul1 :: "nat \<Rightarrow> units \<Rightarrow> units \<Rightarrow> cc_unit \<Rightarrow> cc_unit \<times> units" where
  "ccn_addmul1 n r s v = ccn_addmul1_loop v 0 (take n r) (take n s)"

lemma unit_prod_bound: "unat (a :: cc_unit) * unat (b :: cc_unit) \<le> (2 ^ 64 - 1) * (2 ^ 64 - 1)"
  using word_bound [of a] word_bound [of b] by (intro mult_le_mono) simp_all

lemma unat_dmul: "unat (ucast (a :: cc_unit) * ucast (b :: cc_unit) :: cc_dunit) = unat a * unat b"
  using unit_prod_bound [of a b] by (simp add: unat_word_ariths)

lemma unat_muladd:
  "unat (ucast (a :: cc_unit) * ucast (b :: cc_unit) + ucast (x :: cc_unit) + ucast (y :: cc_unit) :: cc_dunit) =
    unat a * unat b + unat x + unat y"
  using unit_prod_bound [of a b] word_bound [of x] word_bound [of y]
  by (simp add: unat_dadd unat_dmul)

lemma dunit_split':
  fixes d :: cc_dunit
  shows "unat (ucast d :: cc_unit) + 2 ^ 64 * unat (ucast (drop_bit 64 d) :: cc_unit) = unat d"
  using dunit_split [of d] by (simp add: unat_ucast_mod)

lemma ccn_mul1_loop_val:
  assumes "ccn_mul1_loop v carry ss = (c, r)"
  shows "length r = length ss \<and>
    ccn_val r + 2 ^ (64 * length ss) * unat c = ccn_val ss * unat v + unat carry"
  using assms
proof (induction ss arbitrary: carry c r)
  case Nil
  then show ?case by simp
next
  case (Cons s ss)
  let ?p = "ucast s * ucast v + ucast carry :: cc_dunit"
  have p: "unat ?p = unat s * unat v + unat carry"
    using unat_muladd [of s v carry 0] by simp
  from Cons.prems obtain rs where rs: "ccn_mul1_loop v (ucast (drop_bit 64 ?p)) ss = (c, rs)"
    and r: "r = ucast ?p # rs" by (auto simp: Let_def split: prod.splits)
  from Cons.IH [OF rs] have l: "length rs = length ss"
    and v: "ccn_val rs + 2 ^ (64 * length ss) * unat c =
      ccn_val ss * unat v + unat (ucast (drop_bit 64 ?p) :: cc_unit)" by simp_all
  have "ccn_val r + 2 ^ (64 * length (s # ss)) * unat c = ccn_val (s # ss) * unat v + unat carry"
    using dunit_split' [of ?p] p arg_cong [OF v, of "\<lambda>x. 2 ^ 64 * x"]
    by (simp add: r algebra_simps power_add)
  with l show ?case by (simp add: r)
qed

lemma ccn_mul1_val:
  assumes "length s = n" "ccn_mul1 n s v = (c, r)"
  shows "length r = n" "ccn_val r + 2 ^ (64 * n) * unat c = ccn_val s * unat v"
  using ccn_mul1_loop_val [of v 0 s c r] assms by (simp_all add: ccn_mul1_def)

lemma ccn_addmul1_loop_val:
  assumes "length rs = length ss" "ccn_addmul1_loop v carry rs ss = (c, r)"
  shows "length r = length ss \<and>
    ccn_val r + 2 ^ (64 * length ss) * unat c = ccn_val rs + ccn_val ss * unat v + unat carry"
  using assms
proof (induction rs ss arbitrary: carry c r rule: list_induct2)
  case Nil
  then show ?case by simp
next
  case (Cons a as s ss)
  let ?p = "ucast s * ucast v + ucast a + ucast carry :: cc_dunit"
  have p: "unat ?p = unat s * unat v + unat a + unat carry" by (rule unat_muladd)
  from Cons.prems obtain rs where rs: "ccn_addmul1_loop v (ucast (drop_bit 64 ?p)) as ss = (c, rs)"
    and r: "r = ucast ?p # rs" by (auto simp: Let_def split: prod.splits)
  from Cons.IH [OF rs] have l: "length rs = length ss"
    and v: "ccn_val rs + 2 ^ (64 * length ss) * unat c =
      ccn_val as + ccn_val ss * unat v + unat (ucast (drop_bit 64 ?p) :: cc_unit)" by simp_all
  have "ccn_val r + 2 ^ (64 * length (s # ss)) * unat c =
      ccn_val (a # as) + ccn_val (s # ss) * unat v + unat carry"
    using dunit_split' [of ?p] p arg_cong [OF v, of "\<lambda>x. 2 ^ 64 * x"]
    by (simp add: r algebra_simps power_add)
  with l show ?case by (simp add: r)
qed

lemma ccn_addmul1_val:
  assumes "length r = n" "length s = n" "ccn_addmul1 n r s v = (c, r')"
  shows "length r' = n" "ccn_val r' + 2 ^ (64 * n) * unat c = ccn_val r + ccn_val s * unat v"
  using ccn_addmul1_loop_val [of r s v 0 c r'] assms by (simp_all add: ccn_addmul1_def)

section \<open>The product, two units of the multiplier at a time\<close>

text \<open>
  The inner loop of \<open>ccn_mul\<close>: the state is \<open>(prevmul, carry1, carry2, prevDigit)\<close>, the
  second list the digits \<open>destptr[1], destptr[2], ...\<close> still to be read.
\<close>

fun ccn_mul_inner ::
  "cc_unit \<Rightarrow> cc_unit \<Rightarrow> units \<Rightarrow> units \<Rightarrow> cc_unit \<times> cc_dunit \<times> cc_dunit \<times> cc_dunit \<Rightarrow>
   units \<times> cc_unit \<times> cc_dunit \<times> cc_dunit \<times> cc_dunit" where
  "ccn_mul_inner mult1 mult2 (curmul # s) (d # dest) (prevmul, carry1, carry2, prevDigit) =
     (let prevDigit = prevDigit + (carry1 + carry2);
          prod1 = ucast curmul * ucast mult1;
          prod2 = ucast prevmul * ucast mult2;
          carry1 = drop_bit 64 prod1;
          carry2 = drop_bit 64 prod2;
          prod1 = prod1 AND mask 64;
          prod2 = prod2 AND mask 64;
          prodsum = prod1 + prod2 + prevDigit;
          carry1 = carry1 + drop_bit 64 prodsum;
          (out, st) = ccn_mul_inner mult1 mult2 s dest (curmul, carry1, carry2, ucast d)
      in (ucast prodsum # out, st))"
| "ccn_mul_inner mult1 mult2 _ _ st = ([], st)"

definition ccn_mul_row2 :: "nat \<Rightarrow> units \<Rightarrow> cc_unit \<Rightarrow> cc_unit \<Rightarrow> nat \<Rightarrow> units \<Rightarrow> units" where
  "ccn_mul_row2 count s mult1 mult2 ix r =
     (let (out, prevmul, carry1, carry2, prevDigit) =
            ccn_mul_inner mult1 mult2 (take count s) (take count (drop (ix + 1) r)) (0, 0, 0, ucast (r ! ix));
          prod1 = prevDigit + carry1;
          prod1 = prod1 + ucast prevmul * ucast mult2;
          prod1 = prod1 + carry2;
          carry1 = drop_bit 64 prod1
      in take ix r @ out @ [ucast prod1, ucast carry1] @ drop (ix + count + 2) r)"

fun ccn_mul_row1_loop :: "cc_unit \<Rightarrow> units \<Rightarrow> units \<Rightarrow> cc_dunit \<Rightarrow> units" where
  "ccn_mul_row1_loop mult1 (a # s) (d # dest) carry1 =
     (let prod1 = ucast a;
          prod1 = prod1 * ucast mult1;
          prod1 = prod1 + ucast d;
          prod1 = prod1 + carry1
      in ucast prod1 # ccn_mul_row1_loop mult1 s dest (drop_bit 64 prod1))"
| "ccn_mul_row1_loop mult1 _ _ carry1 = [ucast carry1]"

definition ccn_mul_row1 :: "nat \<Rightarrow> units \<Rightarrow> cc_unit \<Rightarrow> nat \<Rightarrow> units \<Rightarrow> units" where
  "ccn_mul_row1 count s mult1 ix r =
     take ix r @ ccn_mul_row1_loop mult1 (take count s) (take count (drop ix r)) 0 @ drop (ix + count + 1) r"

text \<open>The outer loop follows \<open>bptr\<close> through \<open>t\<close>; \<open>count\<close> is at least 1.\<close>

fun ccn_mul_rows :: "nat \<Rightarrow> units \<Rightarrow> units \<Rightarrow> nat \<Rightarrow> units \<Rightarrow> units" where
  "ccn_mul_rows count s (mult1 # mult2 # bptr) ix r =
     ccn_mul_rows count s bptr (ix + 2) (ccn_mul_row2 count s mult1 mult2 ix r)"
| "ccn_mul_rows count s [mult1] ix r = ccn_mul_row1 count s mult1 ix r"
| "ccn_mul_rows count s [] ix r = r"

definition ccn_mul :: "nat \<Rightarrow> units \<Rightarrow> units \<Rightarrow> units" where
  "ccn_mul count s t = ccn_mul_rows count s (take count t) 0 (ccn_zero (count * 2))"

lemma unat_mask64: "unat (x AND mask 64 :: cc_dunit) = unat x mod 2 ^ 64"
  by (rule unat_and_mask)

lemma ccn_mul_inner_step:
  fixes curmul prevmul mult1 mult2 :: cc_unit and carry1 carry2 d :: cc_dunit
  assumes "unat carry1 < 2 * 2 ^ 64" "unat carry2 < 2 ^ 64" "unat d < 2 ^ 64"
  defines "p1 \<equiv> ucast curmul * ucast mult1 :: cc_dunit"
    and "p2 \<equiv> ucast prevmul * ucast mult2 :: cc_dunit"
  defines "ps \<equiv> (p1 AND mask 64) + (p2 AND mask 64) + (d + (carry1 + carry2))"
  defines "c1 \<equiv> drop_bit 64 p1 + drop_bit 64 ps"
  shows "unat c1 < 2 * 2 ^ 64 \<and> unat (drop_bit 64 p2) < 2 ^ 64 \<and>
     unat (ucast ps :: cc_unit) + 2 ^ 64 * (unat c1 + unat (drop_bit 64 p2)) =
     unat d + unat carry1 + unat carry2 + unat curmul * unat mult1 + unat prevmul * unat mult2"
proof -
  have p: "unat p1 = unat curmul * unat mult1" "unat p2 = unat prevmul * unat mult2"
    unfolding p1_def p2_def by (rule unat_dmul)+
  have h2: "unat (drop_bit 64 p2) < 2 ^ 64" by (rule dunit_split(2))
  have h1: "unat (drop_bit 64 p1) < 2 ^ 64" by (rule dunit_split(2))
  have m: "unat (p1 AND mask 64) < 2 ^ 64" "unat (p2 AND mask 64) < 2 ^ 64"
    unfolding unat_mask64 by simp_all
  have pd: "unat (d + (carry1 + carry2)) = unat d + (unat carry1 + unat carry2)"
    using assms(1-3) by (simp add: unat_dadd)
  then have ps: "unat ps = unat (p1 AND mask 64) + unat (p2 AND mask 64) + (unat d + (unat carry1 + unat carry2))"
    unfolding ps_def using m assms(1-3) by (simp add: unat_dadd)
  then have "unat ps < 6 * 2 ^ 64" using m assms(1-3) by simp
  then have hs: "unat (drop_bit 64 ps) < 6" by (simp add: unat_drop_bit_div less_mult_imp_div_less)
  then have c1: "unat c1 = unat (drop_bit 64 p1) + unat (drop_bit 64 ps)"
    unfolding c1_def using h1 by (simp add: unat_dadd)
  have "unat q = unat (q AND mask 64) + 2 ^ 64 * unat (drop_bit 64 q)" for q :: cc_dunit
    unfolding unat_mask64 unat_drop_bit_div by simp
  from this [of p1] this [of p2] dunit_split(1) [of ps]
  have "unat (ucast ps :: cc_unit) + 2 ^ 64 * (unat c1 + unat (drop_bit 64 p2)) =
     unat d + unat carry1 + unat carry2 + unat curmul * unat mult1 + unat prevmul * unat mult2"
    unfolding c1 using p ps by simp
  with hs h1 h2 show ?thesis by (simp add: c1)
qed

lemma ccn_mul_inner_val:
  assumes "length s = length dest" "unat c1 < 2 * 2 ^ 64" "unat c2 < 2 ^ 64" "unat pd < 2 ^ 64"
    "ccn_mul_inner m1 m2 s dest (pm, c1, c2, pd) = (out, pm', c1', c2', pd')"
  shows "length out = length s \<and> unat c1' < 2 * 2 ^ 64 \<and> unat c2' < 2 ^ 64 \<and> unat pd' < 2 ^ 64 \<and>
    ccn_val out + 2 ^ (64 * length s) * (unat pd' + unat c1' + unat c2' + unat pm' * unat m2) =
    unat pd + 2 ^ 64 * ccn_val dest + unat c1 + unat c2 + unat pm * unat m2 +
      ccn_val s * (unat m1 + 2 ^ 64 * unat m2)"
  using assms
proof (induction s dest arbitrary: pm c1 c2 pd out rule: list_induct2)
  case Nil
  then show ?case by simp
next
  case (Cons cur s d dest)
  define p1 where "p1 = (ucast cur * ucast m1 :: cc_dunit)"
  define p2 where "p2 = (ucast pm * ucast m2 :: cc_dunit)"
  define ps where "ps = (p1 AND mask 64) + (p2 AND mask 64) + (pd + (c1 + c2))"
  define q where "q = drop_bit 64 p1 + drop_bit 64 ps"
  have step: "unat q < 2 * 2 ^ 64" "unat (drop_bit 64 p2) < 2 ^ 64"
    "unat (ucast ps :: cc_unit) + 2 ^ 64 * (unat q + unat (drop_bit 64 p2)) =
     unat pd + unat c1 + unat c2 + unat cur * unat m1 + unat pm * unat m2"
    using ccn_mul_inner_step [where curmul = cur and prevmul = pm and ?mult1.0 = m1 and ?mult2.0 = m2,
        OF Cons.prems(1-3)]
    by (simp_all only: p1_def p2_def ps_def q_def)
  from Cons.prems(4) obtain out' where
    rec: "ccn_mul_inner m1 m2 s dest (cur, q, drop_bit 64 p2, ucast d) = (out', pm', c1', c2', pd')"
    and out: "out = ucast ps # out'"
    by (auto simp: Let_def p1_def [symmetric] p2_def [symmetric] ps_def [symmetric] q_def [symmetric]
        split: prod.splits)
  have "unat (ucast d :: cc_dunit) < 2 ^ 64" using word_bound [of d] by simp
  note IH = Cons.IH [OF step(1,2) this rec]
  then have l: "length out' = length s" and
    v: "ccn_val out' + 2 ^ (64 * length s) * (unat pd' + unat c1' + unat c2' + unat pm' * unat m2) =
      unat d + 2 ^ 64 * ccn_val dest + unat q + unat (drop_bit 64 p2) + unat cur * unat m2 +
      ccn_val s * (unat m1 + 2 ^ 64 * unat m2)" by simp_all
  have "ccn_val out + 2 ^ (64 * length (cur # s)) * (unat pd' + unat c1' + unat c2' + unat pm' * unat m2) =
      unat (ucast ps :: cc_unit) + 2 ^ 64 * (ccn_val out' +
        2 ^ (64 * length s) * (unat pd' + unat c1' + unat c2' + unat pm' * unat m2))"
    by (simp add: out power_add algebra_simps)
  also have "\<dots> = (unat (ucast ps :: cc_unit) + 2 ^ 64 * (unat q + unat (drop_bit 64 p2))) +
      2 ^ 64 * (unat d + 2 ^ 64 * ccn_val dest) + 2 ^ 64 * (unat cur * unat m2) +
      2 ^ 64 * (ccn_val s * (unat m1 + 2 ^ 64 * unat m2))"
    unfolding v by (simp add: algebra_simps)
  also have "\<dots> = unat pd + 2 ^ 64 * ccn_val (d # dest) + unat c1 + unat c2 + unat pm * unat m2 +
      ccn_val (cur # s) * (unat m1 + 2 ^ 64 * unat m2)"
    unfolding step(3) by (simp add: algebra_simps)
  finally show ?case using IH out by simp
qed

text \<open>A partial product leaves the digits above it zero, which is what the rows rely on.\<close>

lemma val_zero_tail:
  assumes "ccn_val r < 2 ^ (64 * k)"
  shows "drop k r = replicate (length r - k) 0"
proof -
  have "ccn_val (drop k r) = 0" using assms by (simp add: val_drop_div)
  then show ?thesis by (simp add: ccn_val_0_iff replicate_eqI)
qed

lemma split_row:
  assumes "ccn_val r < 2 ^ (64 * (ix + n))" "ix + n < length r"
  obtains lo mid k where "r = lo @ mid @ replicate (Suc k) 0" "length lo = ix" "length mid = n"
    "length r = ix + n + Suc k"
proof
  let ?k = "length r - ix - n - 1"
  have "length r - (ix + n) = Suc ?k" using assms(2) by simp
  then have "drop (ix + n) r = replicate (Suc ?k) 0"
    using val_zero_tail [OF assms(1)] by metis
  then have "drop n (drop ix r) = replicate (Suc ?k) 0" by (simp add: add.commute)
  then show "r = take ix r @ take n (drop ix r) @ replicate (Suc ?k) 0"
    by (metis append_take_drop_id)
qed (use assms in simp_all)

lemma muladd_bound:
  fixes a P b m Q :: nat
  assumes "a < P" "b < P" "m < Q"
  shows "a + b * m < P * Q"
proof -
  have "b * m \<le> (P - 1) * (Q - 1)" using assms by (intro mult_le_mono) simp_all
  moreover have "(P - 1) * (Q - 1) + P \<le> P * Q"
  proof (cases P; cases Q)
    fix p q assume "P = Suc p" "Q = Suc q"
    then show ?thesis by simp
  qed (use assms in simp_all)
  ultimately show ?thesis using assms by linarith
qed

lemma ccn_mul_row2_val:
  assumes "length s = n" "0 < n" "ix + n + 2 \<le> length r" "ccn_val r < 2 ^ (64 * (ix + n))"
  shows "length (ccn_mul_row2 n s m1 m2 ix r) = length r"
    "ccn_val (ccn_mul_row2 n s m1 m2 ix r) =
      ccn_val r + 2 ^ (64 * ix) * (ccn_val s * (unat m1 + 2 ^ 64 * unat m2))"
proof -
  obtain lo mid k where r: "r = lo @ mid @ replicate (Suc k) 0" "length lo = ix" "length mid = n"
    "length r = ix + n + Suc k"
    using split_row [OF assms(4)] assms(3) by auto
  then obtain d ds where mid: "mid = d # ds" using assms(2) by (cases mid) auto
  have "0 < k" using assms(3) r(4) by simp
  then obtain k' where k: "k = Suc k'" by (cases k) auto
  have rd: "r = lo @ d # ds @ 0 # 0 # replicate k' 0" using r(1) by (simp add: mid k)
  have ds: "length ds = n - 1" "take n (drop (ix + 1) r) = ds @ [0]" "r ! ix = d"
    "drop (ix + n + 2) r = replicate k' 0" "take ix r = lo"
    using r(2,3) assms(2) by (auto simp: rd mid nth_append)
  obtain out pm c1 c2 pd where inner:
    "ccn_mul_inner m1 m2 s (ds @ [0]) (0, 0, 0, ucast d) = (out, pm, c1, c2, pd)"
    by (metis prod_cases5)
  have "unat (ucast d :: cc_dunit) < 2 ^ 64" using word_bound [of d] by simp
  with ccn_mul_inner_val [OF _ _ _ _ inner] assms(1,2) ds(1)
  have I: "length out = n" "unat c1 < 2 * 2 ^ 64" "unat c2 < 2 ^ 64" "unat pd < 2 ^ 64"
    "ccn_val out + 2 ^ (64 * n) * (unat pd + unat c1 + unat c2 + unat pm * unat m2) =
     ccn_val mid + ccn_val s * (unat m1 + 2 ^ 64 * unat m2)"
    by (simp_all add: mid ccn_val_append)
  have "ccn_val mid < 2 ^ (64 * n)" "ccn_val s < 2 ^ (64 * n)"
    using ccn_val_bound [of mid] ccn_val_bound [of s] r(3) assms(1) by simp_all
  then have "ccn_val mid + ccn_val s * (unat m1 + 2 ^ 64 * unat m2) < 2 ^ (64 * n) * 2 ^ 128"
    using word_bound [of m1] word_bound [of m2] by (intro muladd_bound) simp_all
  then have "ccn_val out + 2 ^ (64 * n) * (unat pd + unat c1 + unat c2 + unat pm * unat m2) < 2 ^ (64 * n) * 2 ^ 128"
    unfolding I(5) .
  then have "2 ^ (64 * n) * (unat pd + unat c1 + unat c2 + unat pm * unat m2) < 2 ^ (64 * n) * 2 ^ 128"
    by (rule le_less_trans [OF le_add2])
  then have tot: "unat pd + unat c1 + unat c2 + unat pm * unat m2 < 2 ^ 128"
    by (simp only: mult_less_cancel1)
  define w where "w = pd + c1 + ucast pm * ucast m2 + c2"
  have w: "unat w = unat pd + unat c1 + unat c2 + unat pm * unat m2"
  proof -
    have a: "unat (pd + c1) = unat pd + unat c1" using I(2-4) by (simp add: unat_dadd)
    then have b: "unat (pd + c1 + ucast pm * ucast m2) = unat pd + unat c1 + unat pm * unat m2"
      using tot by (subst unat_dadd) (simp_all add: unat_dmul)
    then show ?thesis
      unfolding w_def using tot by (subst unat_dadd) simp_all
  qed
  have row: "ccn_mul_row2 n s m1 m2 ix r = lo @ out @ [ucast w, ucast (drop_bit 64 w)] @ replicate k' 0"
    using inner ds assms(1) by (simp add: ccn_mul_row2_def Let_def w_def)
  show "length (ccn_mul_row2 n s m1 m2 ix r) = length r"
    using r(2-4) I(1) k by (simp add: row)
  have "ccn_val (out @ [ucast w, ucast (drop_bit 64 w)] @ replicate k' 0) =
      ccn_val out + 2 ^ (64 * n) * (unat (ucast w :: cc_unit) + 2 ^ 64 * unat (ucast (drop_bit 64 w) :: cc_unit))"
    by (simp add: ccn_val_append I(1))
  then have "ccn_val (out @ [ucast w, ucast (drop_bit 64 w)] @ replicate k' 0) =
      ccn_val mid + ccn_val s * (unat m1 + 2 ^ 64 * unat m2)"
    by (simp only: dunit_split' w I(5))
  then have "ccn_val (ccn_mul_row2 n s m1 m2 ix r) =
      ccn_val lo + 2 ^ (64 * ix) * (ccn_val mid + ccn_val s * (unat m1 + 2 ^ 64 * unat m2))"
    by (simp only: row ccn_val_append [of lo] r(2))
  moreover have "ccn_val r = ccn_val lo + 2 ^ (64 * ix) * ccn_val mid"
    unfolding r(1) using r(2) by (simp add: ccn_val_append)
  ultimately show "ccn_val (ccn_mul_row2 n s m1 m2 ix r) =
      ccn_val r + 2 ^ (64 * ix) * (ccn_val s * (unat m1 + 2 ^ 64 * unat m2))"
    by (simp add: distrib_left)
qed

lemma ccn_mul_row1_loop_val:
  assumes "length s = length dest" "unat c < 2 ^ 64"
  shows "length (ccn_mul_row1_loop m s dest c) = Suc (length s) \<and>
    ccn_val (ccn_mul_row1_loop m s dest c) = ccn_val dest + ccn_val s * unat m + unat c"
  using assms
proof (induction s dest arbitrary: c rule: list_induct2)
  case Nil
  then show ?case by (simp add: unat_ucast_mod)
next
  case (Cons a s d dest)
  define p where "p = ucast a * ucast m + ucast d + c"
  have c: "c = ucast (ucast c :: cc_unit)"
    using Cons.prems by (simp add: word_unat_eq_iff unat_ucast_mod)
  have p: "unat p = unat a * unat m + unat d + unat c"
    unfolding p_def by (subst (1) c, subst unat_muladd) (use Cons.prems in \<open>simp add: unat_ucast_mod\<close>)
  let ?rest = "ccn_mul_row1_loop m s dest (drop_bit 64 p)"
  have step: "ccn_mul_row1_loop m (a # s) (d # dest) c = ucast p # ?rest"
    by (simp add: p_def Let_def)
  from Cons.IH [OF dunit_split(2) [of p]] dunit_split(1) [of p] p show ?case
    unfolding step by (simp add: algebra_simps)
qed

lemma ccn_mul_row1_val:
  assumes "length s = n" "0 < n" "ix + n + 1 \<le> length r" "ccn_val r < 2 ^ (64 * (ix + n))"
  shows "length (ccn_mul_row1 n s m ix r) = length r"
    "ccn_val (ccn_mul_row1 n s m ix r) = ccn_val r + 2 ^ (64 * ix) * (ccn_val s * unat m)"
proof -
  obtain lo mid k where r: "r = lo @ mid @ replicate (Suc k) 0" "length lo = ix" "length mid = n"
    "length r = ix + n + Suc k"
    using split_row [OF assms(4)] assms(3) by auto
  let ?out = "ccn_mul_row1_loop m s mid 0"
  note v = ccn_mul_row1_loop_val [of s mid 0 m]
  have row: "ccn_mul_row1 n s m ix r = lo @ ?out @ replicate k 0"
    using r assms(1) by (simp add: ccn_mul_row1_def)
  show "length (ccn_mul_row1 n s m ix r) = length r"
    unfolding row using v r(2-4) assms(1) by simp
  show "ccn_val (ccn_mul_row1 n s m ix r) = ccn_val r + 2 ^ (64 * ix) * (ccn_val s * unat m)"
    unfolding row using v r(2-4) assms(1) by (simp add: r(1) ccn_val_append distrib_left)
qed

lemma ccn_mul_rows_val:
  assumes "length s = n" "0 < n" "ix + n + length t \<le> length r" "ccn_val r < 2 ^ (64 * (ix + n))"
  shows "length (ccn_mul_rows n s t ix r) = length r \<and>
    ccn_val (ccn_mul_rows n s t ix r) = ccn_val r + 2 ^ (64 * ix) * (ccn_val s * ccn_val t)"
  using assms
proof (induction n s t ix r rule: ccn_mul_rows.induct)
  case (1 n s m1 m2 t ix r)
  let ?r = "ccn_mul_row2 n s m1 m2 ix r"
  have pre: "ix + n + 2 \<le> length r" using 1(4) by simp
  note row = ccn_mul_row2_val [OF 1(2) 1(3) pre 1(5), of m1 m2]
  have b: "ccn_val s < 2 ^ (64 * n)" "unat m1 + 2 ^ 64 * unat m2 < 2 ^ 128"
    using ccn_val_bound [of s] 1(2) word_bound [of m1] word_bound [of m2] by simp_all
  have p: "(2 :: nat) ^ (64 * (ix + n)) = 2 ^ (64 * ix) * 2 ^ (64 * n)"
    "(2 :: nat) ^ (64 * (ix + 2 + n)) = 2 ^ (64 * (ix + n)) * 2 ^ 128"
    "(2 :: nat) ^ (64 * (ix + 2)) = 2 ^ (64 * ix) * 2 ^ 128"
    by (simp_all only: power_add [symmetric] distrib_left) simp_all
  have "2 ^ (64 * ix) * ccn_val s < 2 ^ (64 * (ix + n))" unfolding p(1) using b(1) by simp
  from muladd_bound [OF 1(5) this b(2)] have "ccn_val ?r < 2 ^ (64 * (ix + 2 + n))"
    unfolding row(2) p(2) by (simp add: mult.assoc)
  then have "length (ccn_mul_rows n s t (ix + 2) ?r) = length ?r \<and>
      ccn_val (ccn_mul_rows n s t (ix + 2) ?r) = ccn_val ?r + 2 ^ (64 * (ix + 2)) * (ccn_val s * ccn_val t)"
    using 1(1-4) row(1) by simp
  then show ?case unfolding p(3) by (simp add: row algebra_simps)
next
  case (2 n s m ix r)
  then show ?case using ccn_mul_row1_val [of s n ix r m] by simp
next
  case (3 n s ix r)
  then show ?case by simp
qed

text \<open>The schoolbook loops compute the product.\<close>

lemma ccn_mul_val:
  assumes "length s = n" "length t = n" "0 < n"
  shows "length (ccn_mul n s t) = 2 * n" "ccn_val (ccn_mul n s t) = ccn_val s * ccn_val t"
  using ccn_mul_rows_val [of s n 0 t "ccn_zero (n * 2)"] assms
  by (simp_all add: ccn_mul_def ccn_zero_def)

section \<open>The product, a row per unit\<close>

text \<open>
  The variant of \<open>ccn_mul\<close> for processors with an assembly \<open>ccn_mul1\<close> and
  \<open>ccn_addmul1\<close>: the first row is a product, the others are accumulated one unit higher.
\<close>

fun ccn_mul_accumulate :: "nat \<Rightarrow> units \<Rightarrow> units \<Rightarrow> units \<Rightarrow> units" where
  "ccn_mul_accumulate sn s [] r = r"
| "ccn_mul_accumulate sn s (v # t) r =
     (let (c, r') = ccn_addmul1 sn (drop 1 r) s v
      in take 1 r @ ccn_mul_accumulate sn s t (r' @ [c]))"

definition ccn_mul_by_rows :: "nat \<Rightarrow> units \<Rightarrow> units \<Rightarrow> units" where
  "ccn_mul_by_rows n s t =
     (let (c, r) = ccn_mul1 n s (t ! 0) in ccn_mul_accumulate n s (drop 1 (take n t)) (r @ [c]))"

lemma ccn_mul_accumulate_val:
  assumes "length s = n" "length r = Suc n"
  shows "length (ccn_mul_accumulate n s t r) = Suc n + length t \<and>
    ccn_val (ccn_mul_accumulate n s t r) = ccn_val r + 2 ^ 64 * (ccn_val s * ccn_val t)"
  using assms
proof (induction t arbitrary: r)
  case Nil
  then show ?case by simp
next
  case (Cons v t)
  from Cons.prems obtain d ds where r: "r = d # ds" "length ds = n" by (cases r) auto
  obtain c r' where e: "ccn_addmul1 n ds s v = (c, r')" by fastforce
  note a = ccn_addmul1_val [OF r(2) Cons.prems(1) e]
  have "ccn_val (r' @ [c]) = ccn_val ds + ccn_val s * unat v"
    using a by (simp add: ccn_val_append)
  with Cons.IH [of "r' @ [c]"] Cons.prems(1) a(1) show ?case
    by (simp add: r e algebra_simps)
qed

lemma ccn_mul_by_rows_eq:
  assumes "length s = n" "length t = n" "0 < n"
  shows "ccn_mul_by_rows n s t = ccn_mul n s t"
proof -
  from assms obtain v vs where t: "t = v # vs" by (cases t) auto
  obtain c r where e: "ccn_mul1 n s v = (c, r)" by fastforce
  note a = ccn_mul1_val [OF assms(1) e]
  have "length (ccn_mul_by_rows n s t) = 2 * n \<and> ccn_val (ccn_mul_by_rows n s t) = ccn_val s * ccn_val t"
    using ccn_mul_accumulate_val [of s n "r @ [c]" vs] a e assms t
    by (simp add: ccn_mul_by_rows_def ccn_val_append algebra_simps)
  with ccn_mul_val [OF assms] show ?thesis by (intro ccn_val_inj) simp_all
qed

end
