(* ===== verification/Ccn_Codec.thy ===== *)
theory Ccn_Codec
  imports Ccn_Count
begin

unbundle bit_operations_syntax

text \<open>
  Bignums as big-endian byte strings: \<open>ccn_read_uint.c\<close>, \<open>ccn_write_uint.c\<close> and
  \<open>ccn_write_int.c\<close>.  A function that reports an error code returns it as \<open>Inl\<close>;
  a function that fills an output buffer returns the bytes it wrote.
\<close>

definition INT_MAX :: nat where
  "INT_MAX = 2 ^ 31 - 1"

section \<open>Reading\<close>

text \<open>The bytes beyond the capacity of \<open>r\<close> are skipped and collected in \<open>rc\<close>.\<close>

fun ccn_read_uint_overflow :: "nat \<Rightarrow> byte \<Rightarrow> bytes \<Rightarrow> byte \<times> bytes" where
  "ccn_read_uint_overflow capacity rc [] = (rc, [])"
| "ccn_read_uint_overflow capacity rc (b # data) =
     (if capacity < length (b # data) then ccn_read_uint_overflow capacity (rc OR b) data
      else (rc, b # data))"

fun ccn_read_uint_partial :: "cc_unit \<Rightarrow> bytes \<Rightarrow> cc_unit" where
  "ccn_read_uint_partial v [] = v"
| "ccn_read_uint_partial v (d # data) = ccn_read_uint_partial (push_bit 8 v OR ucast d) data"

function (sequential) ccn_read_uint_units :: "bytes \<Rightarrow> units" where
  "ccn_read_uint_units data =
     (if 8 \<le> length data
      then cc_load64_be (drop (length data - 8) data) # ccn_read_uint_units (take (length data - 8) data)
      else if data \<noteq> [] then [ccn_read_uint_partial 0 data] else [])"
  by pat_completeness auto
termination by (relation "measure length") auto

declare ccn_read_uint_units.simps [simp del]

definition ccn_read_uint :: "nat \<Rightarrow> bytes \<Rightarrow> int + units" where
  "ccn_read_uint n data =
     (let (rc, data) = ccn_read_uint_overflow (8 * n) 0 data
      in if rc \<noteq> 0 then Inl CCERR_PARAMETER
         else let r = ccn_read_uint_units data in Inr (r @ replicate (n - length r) 0))"

lemma ccn_read_uint_overflow_eq:
  "ccn_read_uint_overflow c rc data =
    (foldl (OR) rc (take (length data - c) data), drop (length data - c) data)"
proof (induction c rc data rule: ccn_read_uint_overflow.induct)
  case (2 c rc b data)
  then show ?case by (cases "c \<le> length data") (simp_all add: Suc_diff_le)
qed simp

lemma foldl_or_0: "foldl (OR) (rc :: byte) bs = 0 \<longleftrightarrow> rc = 0 \<and> (\<forall>b \<in> set bs. b = 0)"
  by (induction bs arbitrary: rc) (auto simp: or_eq_0_iff)

lemma be_val_0_iff: "be_val bs = 0 \<longleftrightarrow> (\<forall>b \<in> set bs. b = 0)"
proof -
  have "le_val 256 (xs :: bytes) = 0 \<longleftrightarrow> (\<forall>b \<in> set xs. b = 0)" for xs
    by (induction xs) (auto simp: unat_0_iff)
  then show ?thesis by simp
qed

lemma ccn_read_uint_partial_eq:
  "ccn_read_uint_partial (load_le xs) data = load_le (rev data @ xs)"
  by (induction data arbitrary: xs) (simp_all flip: load_le.simps(2))

lemma ccn_read_uint_units_val:
  "ccn_val (ccn_read_uint_units data) = be_val data \<and>
   length (ccn_read_uint_units data) = (length data + 7) div 8"
proof (induction data rule: ccn_read_uint_units.induct)
  case (1 data)
  show ?case
  proof (cases "8 \<le> length data")
    case True
    let ?k = "length data - 8"
    have "be_val data = be_val (take ?k data) * 256 ^ 8 + be_val (drop ?k data)"
      using be_val_append [of "take ?k data" "drop ?k data"] True by simp
    moreover have "unat (cc_load64_be (drop ?k data)) = be_val (drop ?k data)"
      using True by (simp add: unat_load)
    moreover have "(?k + 7) div 8 + 1 = (length data + 7) div 8" using True by simp
    ultimately show ?thesis
      using 1 [OF True] True by (simp add: ccn_read_uint_units.simps [of data])
  next
    case False
    show ?thesis
    proof (cases "data = []")
      case True
      then show ?thesis by (simp add: ccn_read_uint_units.simps [of "[]"])
    next
      case nonempty: False
      then have "(length data + 7) div 8 = 1" using False by (cases data) simp_all
      moreover have "unat (ccn_read_uint_partial 0 data) = be_val data"
        using ccn_read_uint_partial_eq [of "[]" data] unat_load_le [of "rev data", where 'a = 64] False
        by simp
      ultimately show ?thesis using False nonempty by (simp add: ccn_read_uint_units.simps [of data])
    qed
  qed
qed

text \<open>Reading succeeds exactly when the number fits, and yields it with zeros above.\<close>

lemma ccn_read_uint_eq:
  "ccn_read_uint n data =
    (if be_val data < 2 ^ (64 * n)
     then Inr (ccn_read_uint_units (drop (length data - 8 * n) data) @
       replicate (n - (min (length data) (8 * n) + 7) div 8) 0)
     else Inl CCERR_PARAMETER)"
proof -
  let ?k = "length data - 8 * n"
  have p: "(256 :: nat) ^ (8 * n) = 2 ^ (64 * n)" by (simp add: power_mult)
  have "length (drop ?k data) \<le> 8 * n" by simp
  then have "(256 :: nat) ^ length (drop ?k data) \<le> 256 ^ (8 * n)" by (intro power_increasing) simp_all
  then have lo: "be_val (drop ?k data) < 2 ^ (64 * n)"
    using be_val_bound [of "drop ?k data"] unfolding p by (rule order_less_le_trans [rotated])
  have "be_val data < 2 ^ (64 * n) \<longleftrightarrow> be_val (take ?k data) = 0"
  proof (cases "?k = 0")
    case True
    with lo show ?thesis by simp
  next
    case False
    then have "be_val data = be_val (take ?k data) * 2 ^ (64 * n) + be_val (drop ?k data)"
      using be_val_append [of "take ?k data" "drop ?k data"] p by simp
    with lo show ?thesis
      by (cases "be_val (take ?k data)") auto
  qed
  moreover have "length data - ?k = min (length data) (8 * n)" by simp
  ultimately show ?thesis
    using ccn_read_uint_units_val [of "drop ?k data"]
    by (auto simp: ccn_read_uint_def ccn_read_uint_overflow_eq foldl_or_0 be_val_0_iff Let_def)
qed

lemma ccn_read_uint_val:
  assumes "ccn_read_uint n data = Inr r"
  shows "length r = n" "ccn_val r = be_val data"
proof -
  let ?k = "length data - 8 * n"
  from assms have fit: "be_val data < 2 ^ (64 * n)"
    and r: "r = ccn_read_uint_units (drop ?k data) @ replicate (n - (min (length data) (8 * n) + 7) div 8) 0"
    by (auto simp: ccn_read_uint_eq split: if_splits)
  have "length data - ?k = min (length data) (8 * n)" by simp
  then have u: "length (ccn_read_uint_units (drop ?k data)) = (min (length data) (8 * n) + 7) div 8"
    "ccn_val (ccn_read_uint_units (drop ?k data)) = be_val (drop ?k data)"
    using ccn_read_uint_units_val [of "drop ?k data"] by simp_all
  have "(min (length data) (8 * n) + 7) div 8 \<le> n" by simp
  with u show "length r = n" by (simp add: r)
  have "be_val (take ?k data) = 0"
  proof (rule ccontr)
    assume "be_val (take ?k data) \<noteq> 0"
    moreover from this have "0 < ?k" by (cases "?k = 0") simp_all
    ultimately have "be_val (take ?k data) * 256 ^ (8 * n) \<le> be_val data"
      "(256 :: nat) ^ (8 * n) \<le> be_val (take ?k data) * 256 ^ (8 * n)"
      using be_val_append [of "take ?k data" "drop ?k data"] by simp_all
    from order_trans [OF this(2,1)] fit show False by (simp add: power_mult)
  qed
  then have "be_val data = be_val (drop ?k data)"
    using be_val_append [of "take ?k data" "drop ?k data"] by simp
  with u show "ccn_val r = be_val data" by (simp add: r ccn_val_append)
qed

section \<open>Writing\<close>

text \<open>\<open>CC_BITLEN_TO_BYTELEN\<close> rounds up.\<close>

definition cc_bitlen_to_bytelen :: "nat \<Rightarrow> nat" where
  "cc_bitlen_to_bytelen x = (x + 7) div 8"

definition ccn_write_uint_size :: "nat \<Rightarrow> units \<Rightarrow> nat" where
  "ccn_write_uint_size n s = cc_bitlen_to_bytelen (ccn_bitlen n s)"

text \<open>
  The store loops run from the end of the buffer; the bytes of the last, partial unit are
  shifted out of \<open>v\<close> one by one, which is \<open>store_le\<close>.
\<close>

fun ccn_write_uint_units :: "units \<Rightarrow> nat \<Rightarrow> nat \<Rightarrow> bytes" where
  "ccn_write_uint_units s i out_size =
     (if 8 \<le> out_size then ccn_write_uint_units s (i + 1) (out_size - 8) @ cc_store64_be (s ! i)
      else if 0 < out_size then rev (store_le out_size (s ! i)) else [])"

declare ccn_write_uint_units.simps [simp del]

definition ccn_write_uint_padded_ct :: "nat \<Rightarrow> units \<Rightarrow> nat \<Rightarrow> int + nat \<times> bytes" where
  "ccn_write_uint_padded_ct n s out_size =
     (if INT_MAX \<le> out_size \<or> INT_MAX \<le> 8 * n then Inl CCERR_PARAMETER
      else let leading_zeros = (if 8 * n < out_size then out_size - 8 * n else 0);
               out_size = out_size - leading_zeros;
               size = ccn_write_uint_size n s
           in if size \<le> out_size
              then Inr (leading_zeros + (out_size - size),
                        replicate leading_zeros 0 @ ccn_write_uint_units s 0 out_size)
              else Inl CCERR_PARAMETER)"

text \<open>
  \<open>ccn_write_uint\<close>: \<open>i\<close> is the unit \<open>v\<close> comes from, \<open>j\<close> (at most 7) the number of its
  bytes already dropped.
\<close>

function (sequential) ccn_write_uint_loop :: "nat \<Rightarrow> units \<Rightarrow> nat \<Rightarrow> nat \<Rightarrow> cc_unit \<Rightarrow> nat \<Rightarrow> bytes" where
  "ccn_write_uint_loop n s i j v out_size =
     (if 8 \<le> out_size \<and> j < 8
      then (if i + 1 < n then ccn_write_uint_loop n s (i + 1) 0 (s ! (i + 1)) (out_size - (8 - j))
            else ccn_write_uint_loop n s i 0 (drop_bit (8 * (8 - j)) v) (out_size - (8 - j)))
           @ rev (store_le (8 - j) v)
      else rev (store_le out_size v))"
  by pat_completeness auto
termination by (relation "measure (\<lambda>(n, s, i, j, v, out_size). out_size)") auto

declare ccn_write_uint_loop.simps [simp del]

definition ccn_write_uint :: "nat \<Rightarrow> units \<Rightarrow> nat \<Rightarrow> bytes" where
  "ccn_write_uint n s out_size =
     (let s_size = ccn_write_uint_size n s;
          out_size = (if s_size < out_size then s_size else out_size);
          i = (s_size - out_size) div 8;
          j = (s_size - out_size) mod 8
      in ccn_write_uint_loop n s i j (drop_bit (j * 8) (s ! i)) out_size)"

text \<open>The wrapper of \<open>ccn.h\<close> falls back to the truncating routine, which starts at \<open>out\<close>.\<close>

definition ccn_write_uint_padded :: "nat \<Rightarrow> units \<Rightarrow> nat \<Rightarrow> nat \<times> bytes" where
  "ccn_write_uint_padded n s out_size =
     (case ccn_write_uint_padded_ct n s out_size of
        Inr (offset, out) \<Rightarrow> (offset, out)
      | Inl _ \<Rightarrow> (0, ccn_write_uint n s out_size))"

definition ccn_write_int_size :: "nat \<Rightarrow> units \<Rightarrow> nat" where
  "ccn_write_int_size n s =
     (let bl = ccn_bitlen n s; nbytes = (bl + 7) div 8
      in if bl mod 8 = 0 then nbytes + 1 else nbytes)"

text \<open>\<open>--out_size\<close> on a zero \<open>size_t\<close> wraps.\<close>

definition ccn_write_int :: "nat \<Rightarrow> units \<Rightarrow> nat \<Rightarrow> bytes" where
  "ccn_write_int n s out_size =
     (if ccn_bitlen n s mod 8 = 0
      then 0 # ccn_write_uint n s ((out_size + 2 ^ 64 - 1) mod 2 ^ 64)
      else ccn_write_uint n s out_size)"

lemma length_ccn_write_uint_units [simp]: "length (ccn_write_uint_units s i k) = k"
  by (induction s i k rule: ccn_write_uint_units.induct)
    (simp add: ccn_write_uint_units.simps [of _ _ "_ :: nat"])

lemma length_ccn_write_uint_loop [simp]: "length (ccn_write_uint_loop n s i j v k) = k"
  by (induction n s i j v k rule: ccn_write_uint_loop.induct)
    (subst ccn_write_uint_loop.simps, simp)

lemma pow_256: "(256 :: nat) ^ k = 2 ^ (8 * k)"
  by (simp add: power_mult)

lemma be_val_store [simp]: "be_val (rev (store_le k (v :: cc_unit))) = unat v mod 256 ^ k"
  by (simp add: le_val_store_le)

lemma val_drop_unit: "i < length s \<Longrightarrow> ccn_val (drop i s) = unat (s ! i) + 2 ^ 64 * ccn_val (drop (i + 1) s)"
  by (simp flip: Cons_nth_drop_Suc)

lemma ccn_write_uint_units_val:
  assumes "i \<le> length s" "k \<le> 8 * (length s - i)"
  shows "be_val (ccn_write_uint_units s i k) = ccn_val (drop i s) mod 256 ^ k"
  using assms
proof (induction s i k rule: ccn_write_uint_units.induct)
  case (1 s i k)
  show ?case
  proof (cases "8 \<le> k")
    case True
    then have i: "i < length s" using 1(3) by simp
    have p: "(256 :: nat) ^ k = 2 ^ 64 * 256 ^ (k - 8)"
      using True power_add [of "256 :: nat" 8 "k - 8"] by simp
    have "be_val (ccn_write_uint_units s i k) =
        unat (s ! i) + 2 ^ 64 * (ccn_val (drop (i + 1) s) mod 256 ^ (k - 8))"
      using True 1(1) [OF True] 1(3) i
      by (simp add: ccn_write_uint_units.simps [of s i k] be_val_append val_store del: rev_append)
    also have "\<dots> = ccn_val (drop i s) mod 256 ^ k"
      unfolding p val_drop_unit [OF i] using word_bound [of "s ! i"] by (subst digit_mod_mult) simp_all
    finally show ?thesis .
  next
    case False
    show ?thesis
    proof (cases "k = 0")
      case True
      then show ?thesis by (simp add: ccn_write_uint_units.simps [of s i 0])
    next
      case pos: False
      then have i: "i < length s" using 1(3) by simp
      have p: "(2 :: nat) ^ 64 = 256 ^ k * 2 ^ (64 - 8 * k)"
        using False unfolding pow_256 by (simp flip: power_add)
      have "unat (s ! i) mod 256 ^ k = ccn_val (drop i s) mod 256 ^ k"
        unfolding val_drop_unit [OF i] p by (simp add: mult.assoc)
      then show ?thesis
        using False pos by (simp add: ccn_write_uint_units.simps [of s i k] del: rev_rev_ident)
    qed
  qed
qed

lemma ccn_write_uint_loop_0: "n \<le> i + 1 \<Longrightarrow> be_val (ccn_write_uint_loop n s i j 0 k) = 0"
proof (induction k arbitrary: j rule: less_induct)
  case (less k)
  have "8 \<le> k \<Longrightarrow> j < 8 \<Longrightarrow> be_val (ccn_write_uint_loop n s i 0 0 (k - (8 - j))) = 0"
    by (rule less.IH) (use less.prems in simp_all)
  then show ?case
    using less.prems by (subst ccn_write_uint_loop.simps) (simp add: be_val_append del: rev_append rev_rev_ident)
qed

lemma ccn_write_uint_loop_val:
  assumes "length s = n" "i < n" "j < 8" "8 \<le> k \<or> j + k \<le> 8" "v = drop_bit (8 * j) (s ! i)"
  shows "be_val (ccn_write_uint_loop n s i j v k) = ccn_val (drop i s) div 256 ^ j mod 256 ^ k"
  using assms
proof (induction k arbitrary: i j v rule: less_induct)
  case (less k)
  define w where "w = ccn_val (drop (i + 1) s)"
  have p64: "(2 :: nat) ^ 64 = 256 ^ j * 256 ^ (8 - j)"
    using less.prems(3) by (simp flip: power_add)
  have v: "unat v = unat (s ! i) div 256 ^ j" by (simp add: less.prems(5) unat_drop_bit_div pow_256)
  have "unat (s ! i) < 256 ^ (8 - j) * 256 ^ j" using word_bound [of "s ! i"] p64 by (simp add: mult.commute)
  then have vb: "unat v < 256 ^ (8 - j)" unfolding v by (rule less_mult_imp_div_less)
  have "ccn_val (drop i s) = unat (s ! i) + 2 ^ 64 * w"
    unfolding w_def by (rule val_drop_unit) (use less.prems in simp)
  then have dv: "ccn_val (drop i s) div 256 ^ j = unat v + 256 ^ (8 - j) * w"
    unfolding v p64 by (simp add: mult.assoc)
  show ?case
  proof (cases "8 \<le> k")
    case True
    let ?rest = "if i + 1 < n then ccn_write_uint_loop n s (i + 1) 0 (s ! (i + 1)) (k - (8 - j))
      else ccn_write_uint_loop n s i 0 (drop_bit (8 * (8 - j)) v) (k - (8 - j))"
    have rest: "be_val ?rest = w mod 256 ^ (k - (8 - j))"
    proof (cases "i + 1 < n")
      case True
      have "be_val (ccn_write_uint_loop n s (i + 1) 0 (s ! (i + 1)) (k - (8 - j))) =
          ccn_val (drop (i + 1) s) div 256 ^ 0 mod 256 ^ (k - (8 - j))"
        by (rule less.IH) (use less.prems True \<open>8 \<le> k\<close> in auto)
      with True show ?thesis by (simp add: w_def)
    next
      case False
      have "unat (drop_bit (8 * (8 - j)) v) = 0"
        using vb by (simp add: unat_drop_bit_div flip: pow_256)
      then have "drop_bit (8 * (8 - j)) v = 0" by (simp add: unat_0_iff)
      moreover have "w = 0" using False less.prems(1) by (simp add: w_def)
      ultimately show ?thesis using False by (simp add: ccn_write_uint_loop_0 del: rev_rev_ident)
    qed
    have p: "(256 :: nat) ^ k = 256 ^ (8 - j) * 256 ^ (k - (8 - j))"
      using True less.prems(3) by (simp flip: power_add)
    have "ccn_write_uint_loop n s i j v k = ?rest @ rev (store_le (8 - j) v)"
      using True less.prems(3) by (subst ccn_write_uint_loop.simps) (simp only: if_True simp_thms)
    then have "be_val (ccn_write_uint_loop n s i j v k) =
        w mod 256 ^ (k - (8 - j)) * 256 ^ (8 - j) + unat v mod 256 ^ (8 - j)"
      by (simp only: be_val_append rest be_val_store length_rev length_store_le)
    then show ?thesis unfolding dv p digit_mod_mult [OF vb] using vb by simp
  next
    case False
    then have jk: "j + k \<le> 8" using less.prems(4) by simp
    have "ccn_write_uint_loop n s i j v k = rev (store_le k v)"
      using False by (subst ccn_write_uint_loop.simps) simp
    then have b: "be_val (ccn_write_uint_loop n s i j v k) = unat v mod 256 ^ k"
      by (simp only: be_val_store)
    have p: "(256 :: nat) ^ (8 - j) = 256 ^ k * 256 ^ (8 - j - k)"
      using jk by (simp flip: power_add)
    show ?thesis unfolding dv b p by (simp add: mult.assoc)
  qed
qed

text \<open>The size is the number of base-256 digits of the number.\<close>

lemma ccn_write_uint_size_bounds:
  assumes "length s = n" "n < 2 ^ 58"
  shows "ccn_write_uint_size n s \<le> 8 * n" "ccn_val s < 256 ^ ccn_write_uint_size n s"
    "0 < ccn_write_uint_size n s \<Longrightarrow> 256 ^ (ccn_write_uint_size n s - 1) \<le> ccn_val s"
proof -
  let ?b = "ccn_bitlen n s" and ?z = "ccn_write_uint_size n s"
  note b = ccn_bitlen_bounds [OF assms(2,1)]
  have z: "?z = (?b + 7) div 8" by (simp add: ccn_write_uint_size_def cc_bitlen_to_bytelen_def)
  show "?z \<le> 8 * n" using b(1) by (simp add: z)
  have "?b \<le> 8 * ?z" by (simp add: z)
  then show "ccn_val s < 256 ^ ?z"
    using ccn_bitlen_le_iff [OF assms(2,1), of "8 * ?z"] by (simp add: power_mult)
  assume "0 < ?z"
  then have "0 < ?b" "8 * (?z - 1) \<le> ?b - 1" by (simp_all add: z)
  then have "(2 :: nat) ^ (8 * (?z - 1)) \<le> 2 ^ (?b - 1)" by (intro power_increasing) simp_all
  with b(3) \<open>0 < ?b\<close> show "256 ^ (?z - 1) \<le> ccn_val s" by (simp add: power_mult)
qed

lemma ccn_write_uint_size_least:
  assumes "length s = n" "n < 2 ^ 58"
  shows "ccn_write_uint_size n s \<le> k \<longleftrightarrow> ccn_val s < 256 ^ k"
  using ccn_bitlen_le_iff [OF assms(2,1), of "8 * k"]
  by (auto simp: ccn_write_uint_size_def cc_bitlen_to_bytelen_def power_mult)

text \<open>
  \<open>ccn_write_uint\<close> drops the least significant bytes that do not fit.  It is right whenever
  at least eight bytes are written, or the bytes wanted lie in one unit.
\<close>

lemma ccn_write_uint_val:
  fixes s :: units and out_size n :: nat
  assumes "length s = n" "n < 2 ^ 58"
  defines "k \<equiv> min out_size (ccn_write_uint_size n s)"
  defines "skip \<equiv> ccn_write_uint_size n s - k"
  assumes "8 \<le> k \<or> skip mod 8 + k \<le> 8"
  shows "length (ccn_write_uint n s out_size) = k"
    "be_val (ccn_write_uint n s out_size) = ccn_val s div 256 ^ skip"
proof -
  let ?z = "ccn_write_uint_size n s"
  have k: "(if ?z < out_size then ?z else out_size) = k" by (simp add: k_def)
  have w: "ccn_write_uint n s out_size =
      ccn_write_uint_loop n s (skip div 8) (skip mod 8) (drop_bit (skip mod 8 * 8) (s ! (skip div 8))) k"
    by (simp add: ccn_write_uint_def Let_def k skip_def)
  then show "length (ccn_write_uint n s out_size) = k" by simp
  note z = ccn_write_uint_size_bounds [OF assms(1,2)]
  have pz: "(256 :: nat) ^ ?z = 256 ^ skip * 256 ^ k"
    by (simp add: skip_def k_def flip: power_add)
  show "be_val (ccn_write_uint n s out_size) = ccn_val s div 256 ^ skip"
  proof (cases "k = 0")
    case True
    then have "ccn_write_uint n s out_size = []" by (metis \<open>length (ccn_write_uint n s out_size) = k\<close> length_0_conv)
    moreover have "skip = ?z" using True by (simp add: skip_def)
    ultimately show ?thesis using z(2) by simp
  next
    case False
    then have "skip < ?z" using k_def by (auto simp: skip_def)
    then have i: "skip div 8 < n" using z(1) by simp
    have "be_val (ccn_write_uint n s out_size) = ccn_val (drop (skip div 8) s) div 256 ^ (skip mod 8) mod 256 ^ k"
      unfolding w by (rule ccn_write_uint_loop_val) (use assms i in \<open>auto simp: mult.commute\<close>)
    also have "ccn_val (drop (skip div 8) s) div 256 ^ (skip mod 8) = ccn_val s div 256 ^ skip"
    proof -
      have "(2 :: nat) ^ (64 * (skip div 8)) * 256 ^ (skip mod 8) = 256 ^ skip"
        unfolding pow_256 power_add [symmetric] by (rule arg_cong [where f = "\<lambda>x. 2 ^ x"]) (use mult_div_mod_eq [of 8 skip] in linarith)
      then show ?thesis by (simp add: val_drop_div flip: div_mult2_eq)
    qed
    also have "ccn_val s div 256 ^ skip mod 256 ^ k = ccn_val s div 256 ^ skip"
      using z(2) unfolding pz by (simp add: less_mult_imp_div_less mult.commute)
    finally show ?thesis .
  qed
qed

lemma ccn_write_uint_full:
  assumes "length s = n" "n < 2 ^ 58" "ccn_write_uint_size n s \<le> out_size"
  shows "length (ccn_write_uint n s out_size) = ccn_write_uint_size n s"
    "be_val (ccn_write_uint n s out_size) = ccn_val s"
  using ccn_write_uint_val [OF assms(1,2), of out_size] assms(3)
  by (simp_all add: min_absorb2 linorder_linear)

text \<open>A big-endian string is determined by its length and its value.\<close>

lemma be_val_inj: "length xs = length ys \<Longrightarrow> be_val xs = be_val ys \<Longrightarrow> xs = ys"
  using le_val_inj [of "rev xs" "rev ys"] by simp

lemma ccn_write_uint_padded_ct_eq:
  assumes "length s = n" "n < 2 ^ 28 - 1" "out_size < INT_MAX"
  shows "ccn_write_uint_padded_ct n s out_size =
    (if ccn_val s < 256 ^ out_size
     then Inr (out_size - ccn_write_uint_size n s,
       replicate (out_size - 8 * n) 0 @ ccn_write_uint_units s 0 (min out_size (8 * n)))
     else Inl CCERR_PARAMETER)"
proof -
  have n: "n < 2 ^ 58" using assms(2) by simp
  have "ccn_write_uint_size n s \<le> min out_size (8 * n) \<longleftrightarrow> ccn_val s < 256 ^ out_size"
    using ccn_write_uint_size_least [OF assms(1) n, of out_size] ccn_write_uint_size_bounds(1) [OF assms(1) n] by auto
  then show ?thesis
    using assms(2,3) by (auto simp: ccn_write_uint_padded_ct_def Let_def INT_MAX_def min_def)
qed

lemma ccn_write_uint_padded_ct_val:
  assumes "length s = n" "n < 2 ^ 28 - 1" "ccn_write_uint_padded_ct n s out_size = Inr (offset, out)"
  shows "length out = out_size" "be_val out = ccn_val s" "offset = out_size - ccn_write_uint_size n s"
proof -
  have k: "out_size < INT_MAX" using assms(3) by (auto simp: ccn_write_uint_padded_ct_def split: if_splits)
  note eq = assms(3) [unfolded ccn_write_uint_padded_ct_eq [OF assms(1,2) k]]
  from eq have fit: "ccn_val s < 256 ^ out_size" and o: "offset = out_size - ccn_write_uint_size n s"
    and out: "out = replicate (out_size - 8 * n) 0 @ ccn_write_uint_units s 0 (min out_size (8 * n))"
    by (auto split: if_splits)
  from o show "offset = out_size - ccn_write_uint_size n s" .
  show "length out = out_size" by (simp add: out)
  have "ccn_val s < 256 ^ (8 * n)" using ccn_val_bound [of s] assms(1) by (simp add: power_mult)
  then have "ccn_val s < 256 ^ min out_size (8 * n)" using fit by (simp add: min_def)
  then show "be_val out = ccn_val s"
    using ccn_write_uint_units_val [of 0 s "min out_size (8 * n)"] assms(1)
    by (simp add: out be_val_append del: rev_append)
qed

text \<open>The round trips: what is written is read back, and a canonical string is written back.\<close>

lemma read_write_uint:
  assumes "length s = n" "n < 2 ^ 58" "ccn_write_uint_size n s \<le> out_size"
  shows "ccn_read_uint n (ccn_write_uint n s out_size) = Inr s"
proof -
  let ?d = "ccn_write_uint n s out_size"
  have v: "be_val ?d = ccn_val s" by (rule ccn_write_uint_full(2) [OF assms])
  then have "be_val ?d < 2 ^ (64 * n)" using ccn_val_bound [of s] assms(1) by simp
  then obtain r where r: "ccn_read_uint n ?d = Inr r" by (simp add: ccn_read_uint_eq del: rev_rev_ident)
  from ccn_read_uint_val [OF r] v assms(1) have "r = s" by (intro ccn_val_inj) simp_all
  with r show ?thesis by simp
qed

lemma read_write_uint_padded:
  assumes "length s = n" "n < 2 ^ 28 - 1" "ccn_write_uint_padded_ct n s out_size = Inr (offset, out)"
  shows "ccn_read_uint n out = Inr s"
proof -
  note w = ccn_write_uint_padded_ct_val [OF assms]
  then have "be_val out < 2 ^ (64 * n)" using ccn_val_bound [of s] assms(1) by simp
  then obtain r where r: "ccn_read_uint n out = Inr r" by (simp add: ccn_read_uint_eq)
  from ccn_read_uint_val [OF r] w assms(1) have "r = s" by (intro ccn_val_inj) simp_all
  with r show ?thesis by simp
qed

lemma write_read_uint:
  assumes "ccn_read_uint n data = Inr s" "n < 2 ^ 28 - 1" "length data < INT_MAX"
  shows "\<exists>offset. ccn_write_uint_padded_ct n s (length data) = Inr (offset, data)"
proof -
  note r = ccn_read_uint_val [OF assms(1)]
  have "ccn_val s < 256 ^ length data" using be_val_bound [of data] r(2) by simp
  then obtain offset out where w: "ccn_write_uint_padded_ct n s (length data) = Inr (offset, out)"
    using ccn_write_uint_padded_ct_eq [OF r(1) assms(2,3)] by simp
  from ccn_write_uint_padded_ct_val [OF r(1) assms(2) w] r(2) have "out = data"
    by (intro be_val_inj) simp_all
  with w show ?thesis by blast
qed

section \<open>Two's complement output\<close>

text \<open>
  \<open>ccn_write_int\<close> prepends a zero byte exactly when the top bit of the leading byte would
  read as a sign; \<open>ccn_write_int_size\<close> accounts for it.
\<close>

lemma ccn_write_int_size_eq:
  "ccn_write_int_size n s = ccn_write_uint_size n s + (if ccn_bitlen n s mod 8 = 0 then 1 else 0)"
  by (simp add: ccn_write_int_size_def ccn_write_uint_size_def cc_bitlen_to_bytelen_def Let_def)

lemma ccn_write_int_val:
  assumes "length s = n" "n < 2 ^ 58"
  defines "out \<equiv> ccn_write_int n s (ccn_write_int_size n s)"
  shows "length out = ccn_write_int_size n s" "be_val out = ccn_val s" "out \<noteq> []" "\<not> bit (hd out) 7"
proof -
  let ?z = "ccn_write_uint_size n s" and ?b = "ccn_bitlen n s"
  note full = ccn_write_uint_full [OF assms(1,2), of ?z, simplified]
  have z: "?z \<le> 8 * n" by (rule ccn_write_uint_size_bounds(1) [OF assms(1,2)])
  then have zb: "?z < 2 ^ 61" using assms(2) by simp
  have w: "(?z + 1 + 2 ^ 64 - 1) mod 2 ^ 64 = ?z" using zb by simp
  have out: "out = (if ?b mod 8 = 0 then 0 # ccn_write_uint n s ?z else ccn_write_uint n s ?z)"
    unfolding out_def ccn_write_int_def ccn_write_int_size_eq using w by simp
  show l: "length out = ccn_write_int_size n s" using full by (simp add: out ccn_write_int_size_eq)
  show v: "be_val out = ccn_val s" using full by (simp add: out le_val_append)
  have "0 < ccn_write_int_size n s"
    by (auto simp: ccn_write_int_size_eq ccn_write_uint_size_def cc_bitlen_to_bytelen_def)
  with l show ne: "out \<noteq> []" by auto
  show "\<not> bit (hd out) 7"
  proof (cases "?b mod 8 = 0")
    case True
    then show ?thesis by (simp add: out)
  next
    case False
    then obtain a as where o: "out = a # as" using ne by (cases out) auto
    have la: "length as = ?z - 1" using l False by (simp add: o ccn_write_int_size_eq)
    have zz: "?b \<le> 8 * (?z - 1) + 7"
    proof -
      have "b mod 8 \<noteq> 0 \<Longrightarrow> b \<le> 8 * ((b + 7) div 8 - 1) + 7" for b :: nat by presburger
      then show ?thesis using False unfolding ccn_write_uint_size_def cc_bitlen_to_bytelen_def .
    qed
    then have "ccn_val s < 2 ^ (8 * (?z - 1) + 7)" by (simp only: ccn_bitlen_le_iff [OF assms(2,1), symmetric])
    moreover have "ccn_val s = unat a * 2 ^ (8 * (?z - 1)) + be_val as"
      using v la by (simp add: o le_val_append pow_256 mult.commute)
    ultimately have "unat a * 2 ^ (8 * (?z - 1)) < 2 ^ 7 * 2 ^ (8 * (?z - 1))"
      unfolding power_add mult.commute [of "2 ^ 7"] by linarith
    then have "unat a < 2 ^ 7" by simp
    then show ?thesis by (simp add: o bit_unat_iff)
  qed
qed

text \<open>
  Fewer than eight bytes that straddle two units: the two top units are not joined and the first bytes come out as zero.
\<close>

lemma truncated_write_straddling_units:
  "ccn_write_uint_size 2 [0x1122334455667788, 0x99aabbcc] = 12 \<and>
   ccn_write_uint 2 [0x1122334455667788, 0x99aabbcc] 7 = [0, 0, 0, 0, 0x11, 0x22, 0x33] \<and>
   rev (take 7 (drop 5 (store_le 8 (0x1122334455667788 :: cc_unit) @ store_le 4 (0x99aabbcc :: cc_unit)))) =
     [0x99, 0xaa, 0xbb, 0xcc, 0x11, 0x22, 0x33 :: byte]"
  by code_simp

end
