(* ===== verification/Ccder_Encode.thy ===== *)
theory Ccder_Encode
  imports Ccn_Codec
begin

unbundle bit_operations_syntax

text \<open>
  The DER encoder (\<open>ccder/src/ccder_blob_encode_*.c\<close>, \<open>ccder_blob_reserve*.c\<close>,
  \<open>ccder_sizeof*.c\<close>).  A \<open>ccder_blob\<close> is a window into a buffer, written from its end
  downwards: the record holds the buffer and the two pointers as indices into it.  Each
  operation is the C function, returning its \<open>bool\<close> and the blob after the call.

  The specification of an encoder is the byte string it emits: \<open>emits f bs\<close> says that \<open>f\<close>
  puts \<open>bs\<close> just below \<open>der_end\<close> and moves \<open>der_end\<close> down when it fits the window, and
  fails otherwise.  Encoders compose backwards, as the code calls them.
\<close>

section \<open>Blobs\<close>

type_synonym ccder_tag = "64 word"

record ccder_blob =
  mem :: bytes
  der :: nat
  der_end :: nat

definition ccder_blob_size :: "ccder_blob \<Rightarrow> nat" where
  "ccder_blob_size b = der_end b - der b"

definition poke :: "byte \<Rightarrow> ccder_blob \<Rightarrow> ccder_blob" where
  "poke x b = b\<lparr>mem := (mem b)[der_end b - 1 := x], der_end := der_end b - 1\<rparr>"

definition write_at :: "nat \<Rightarrow> bytes \<Rightarrow> bytes \<Rightarrow> bytes" where
  "write_at pos bs m = take pos m @ bs @ drop (pos + length bs) m"

definition blob_wf :: "ccder_blob \<Rightarrow> bool" where
  "blob_wf b \<longleftrightarrow> der b \<le> der_end b \<and> der_end b \<le> length (mem b)"

definition put :: "bytes \<Rightarrow> ccder_blob \<Rightarrow> ccder_blob" where
  "put bs b = b\<lparr>mem := write_at (der_end b - length bs) bs (mem b), der_end := der_end b - length bs\<rparr>"

definition emits :: "(ccder_blob \<Rightarrow> bool \<times> ccder_blob) \<Rightarrow> bytes \<Rightarrow> bool" where
  "emits f bs \<longleftrightarrow> (\<forall>b. blob_wf b \<longrightarrow>
     (if length bs \<le> ccder_blob_size b then f b = (True, put bs b) else \<not> fst (f b)))"

text \<open>\<open>if (!f(to)) return false; return g(to);\<close>\<close>

definition and_then :: "(ccder_blob \<Rightarrow> bool \<times> ccder_blob) \<Rightarrow> (ccder_blob \<Rightarrow> bool \<times> ccder_blob) \<Rightarrow>
    ccder_blob \<Rightarrow> bool \<times> ccder_blob" where
  "and_then f g b = (let (ok, b) = f b in if ok then g b else (False, b))"

lemma length_write_at: "pos + length bs \<le> length m \<Longrightarrow> length (write_at pos bs m) = length m"
  by (simp add: write_at_def)

lemma write_at_nil: "pos \<le> length m \<Longrightarrow> write_at pos [] m = m"
  by (simp add: write_at_def)

lemma write_at_append:
  assumes "pos + length xs + length ys \<le> length m"
  shows "write_at pos xs (write_at (pos + length xs) ys m) = write_at pos (xs @ ys) m"
  using assms by (simp add: write_at_def ac_simps)

lemma write_at_comm:
  assumes "pos + length xs + length ys \<le> length m"
  shows "write_at (pos + length xs) ys (write_at pos xs m) = write_at pos (xs @ ys) m"
  using assms by (simp add: write_at_def ac_simps)

lemma put_fields [simp]:
  "der (put bs b) = der b" "der_end (put bs b) = der_end b - length bs"
  "blob_wf b \<Longrightarrow> length bs \<le> ccder_blob_size b \<Longrightarrow> length (mem (put bs b)) = length (mem b)"
  by (simp_all add: put_def length_write_at blob_wf_def ccder_blob_size_def)

lemma blob_wf_put [simp]: "blob_wf b \<Longrightarrow> length bs \<le> ccder_blob_size b \<Longrightarrow> blob_wf (put bs b)"
  by (auto simp: blob_wf_def ccder_blob_size_def put_def length_write_at)

lemma size_put [simp]: "ccder_blob_size (put bs b) = ccder_blob_size b - length bs"
  by (simp add: ccder_blob_size_def)

lemma put_put:
  assumes "blob_wf b" "length xs + length ys \<le> ccder_blob_size b"
  shows "put ys (put xs b) = put (ys @ xs) b"
proof -
  let ?p = "der_end b - length xs - length ys"
  have "?p + length ys = der_end b - length xs" using assms by (simp add: blob_wf_def ccder_blob_size_def)
  moreover have "?p + length ys + length xs \<le> length (mem b)"
    using assms by (simp add: blob_wf_def ccder_blob_size_def)
  ultimately show ?thesis
    using write_at_append [of ?p ys xs "mem b"] by (simp add: put_def diff_diff_eq add.commute)
qed

lemma put_nil: "blob_wf b \<Longrightarrow> put [] b = b"
  by (simp add: put_def write_at_nil blob_wf_def)

lemma poke_put:
  assumes "blob_wf b" "0 < ccder_blob_size b"
  shows "poke x b = put [x] b"
proof -
  let ?i = "der_end b - 1"
  have "?i < length (mem b)" using assms by (simp add: blob_wf_def ccder_blob_size_def)
  then show ?thesis by (simp add: poke_def put_def write_at_def upd_conv_take_nth_drop)
qed

lemma poke_put_list:
  assumes "blob_wf b" "Suc (length bs) \<le> ccder_blob_size b"
  shows "poke x (put bs b) = put (x # bs) b"
  using poke_put [of "put bs b" x] put_put [of b bs "[x]"] assms by simp

lemma emits_and_then:
  assumes "emits f xs" "emits g ys"
  shows "emits (and_then f g) (ys @ xs)"
proof -
  have "if length (ys @ xs) \<le> ccder_blob_size b then and_then f g b = (True, put (ys @ xs) b)
    else \<not> fst (and_then f g b)" if b: "blob_wf b" for b
  proof (cases "length xs \<le> ccder_blob_size b")
    case True
    then have f: "f b = (True, put xs b)" using assms(1) b by (auto simp: emits_def)
    have "if length ys \<le> ccder_blob_size (put xs b) then g (put xs b) = (True, put ys (put xs b))
      else \<not> fst (g (put xs b))"
      using assms(2) b True unfolding emits_def by (metis blob_wf_put)
    with f True b show ?thesis by (auto simp: and_then_def put_put split: if_splits)
  next
    case False
    then have "\<not> fst (f b)" using assms(1) b by (auto simp: emits_def)
    with False show ?thesis by (auto simp: and_then_def split: prod.splits)
  qed
  then show ?thesis by (simp add: emits_def)
qed

lemma emits_cong: "(\<And>b. blob_wf b \<Longrightarrow> f b = g b) \<Longrightarrow> emits g bs \<Longrightarrow> emits f bs"
  by (simp add: emits_def)

section \<open>Tags and lengths\<close>

definition CCDER_TAGNUM_MASK :: ccder_tag where
  "CCDER_TAGNUM_MASK = NOT (push_bit (64 - 3) 7)"

definition CCDER_CONSTRUCTED :: ccder_tag where
  "CCDER_CONSTRUCTED = push_bit (64 - 3) 1"

definition CCDER_CONTEXT_SPECIFIC :: ccder_tag where
  "CCDER_CONTEXT_SPECIFIC = push_bit (64 - 2) 2"

definition CCDER_INTEGER :: ccder_tag where
  "CCDER_INTEGER = 0x02"

definition CCDER_BIT_STRING :: ccder_tag where
  "CCDER_BIT_STRING = 0x03"

definition CCDER_OCTET_STRING :: ccder_tag where
  "CCDER_OCTET_STRING = 0x04"

definition CCDER_OBJECT_IDENTIFIER :: ccder_tag where
  "CCDER_OBJECT_IDENTIFIER = 0x06"

definition CCDER_CONSTRUCTED_SEQUENCE :: ccder_tag where
  "CCDER_CONSTRUCTED_SEQUENCE = 0x10 OR CCDER_CONSTRUCTED"

definition ccder_blob_encode_tag :: "ccder_blob \<Rightarrow> ccder_tag \<Rightarrow> bool \<times> ccder_blob" where
  "ccder_blob_encode_tag blob tag =
     (let tag0 = ucast (drop_bit (64 - 8) tag) :: byte;
          num = tag AND CCDER_TAGNUM_MASK
      in if num < 0x1f
         then if ccder_blob_size blob < 1 then (False, blob)
              else (True, poke ((tag0 AND 0xe0) OR ucast num) blob)
         else if num \<le> 0x7f
         then if ccder_blob_size blob < 2 then (False, blob)
              else (True, poke (tag0 OR 0x1f) (poke (ucast num) blob))
         else if num \<le> 0x3fff
         then if ccder_blob_size blob < 3 then (False, blob)
              else (True, poke (tag0 OR 0x1f) (poke (ucast (drop_bit 7 num) OR 0x80)
                     (poke (ucast (num AND 0x7f)) blob)))
         else if num \<le> 0x1fffff
         then if ccder_blob_size blob < 4 then (False, blob)
              else (True, poke (tag0 OR 0x1f) (poke (ucast (drop_bit 14 num) OR 0x80)
                     (poke (ucast (drop_bit 7 num) OR 0x80) (poke (ucast (num AND 0x7f)) blob))))
         else if num \<le> 0xfffffff
         then if ccder_blob_size blob < 5 then (False, blob)
              else (True, poke (tag0 OR 0x1f) (poke (ucast (drop_bit 21 num) OR 0x80)
                     (poke (ucast (drop_bit 14 num) OR 0x80) (poke (ucast (drop_bit 7 num) OR 0x80)
                     (poke (ucast (num AND 0x7f)) blob)))))
         else if ccder_blob_size blob < 6 then (False, blob)
              else (True, poke (tag0 OR 0x1f) (poke (ucast (drop_bit 28 num) OR 0x80)
                     (poke (ucast (drop_bit 21 num) OR 0x80) (poke (ucast (drop_bit 14 num) OR 0x80)
                     (poke (ucast (drop_bit 7 num) OR 0x80) (poke (ucast (num AND 0x7f)) blob)))))))"

definition ccder_blob_encode_len :: "ccder_blob \<Rightarrow> nat \<Rightarrow> bool \<times> ccder_blob" where
  "ccder_blob_encode_len to l =
     (if 0xffffffff < l then (False, to)
      else if l \<le> 0x7f
      then if der_end to < der to + 1 then (False, to) else (True, poke (of_nat l) to)
      else if l \<le> 0xff
      then if der_end to < der to + 2 then (False, to) else (True, poke 0x81 (poke (of_nat l) to))
      else if l \<le> 0xffff
      then if der_end to < der to + 3 then (False, to)
           else (True, poke 0x82 (poke (of_nat (l div 2 ^ 8)) (poke (of_nat l) to)))
      else if l \<le> 0xffffff
      then if der_end to < der to + 4 then (False, to)
           else (True, poke 0x83 (poke (of_nat (l div 2 ^ 16)) (poke (of_nat (l div 2 ^ 8)) (poke (of_nat l) to))))
      else if der_end to < der to + 5 then (False, to)
           else (True, poke 0x84 (poke (of_nat (l div 2 ^ 24)) (poke (of_nat (l div 2 ^ 16))
                  (poke (of_nat (l div 2 ^ 8)) (poke (of_nat l) to))))))"

definition ccder_blob_encode_tl :: "ccder_blob \<Rightarrow> ccder_tag \<Rightarrow> nat \<Rightarrow> bool \<times> ccder_blob" where
  "ccder_blob_encode_tl to tag len =
     and_then (\<lambda>b. ccder_blob_encode_len b len) (\<lambda>b. ccder_blob_encode_tag b tag) to"

definition ccder_sizeof_tag :: "ccder_tag \<Rightarrow> nat" where
  "ccder_sizeof_tag tag =
     (let num = tag AND CCDER_TAGNUM_MASK
      in if num < 0x1f then 1 else if num \<le> 0x7f then 2 else if num \<le> 0x3fff then 3
         else if num \<le> 0x1fffff then 4 else if num \<le> 0xfffffff then 5 else 6)"

definition ccder_sizeof_len :: "nat \<Rightarrow> nat" where
  "ccder_sizeof_len l =
     (if l \<le> 0x000000000000007f then 1
      else if l \<le> 0x00000000000000ff then 2
      else if l \<le> 0x000000000000ffff then 3
      else if l \<le> 0x0000000000ffffff then 4
      else if l \<le> 0x00000000ffffffff then 5
      else if l \<le> 0x000000ffffffffff then 6
      else if l \<le> 0x0000ffffffffffff then 7
      else if l \<le> 0x00ffffffffffffff then 8
      else 9)"

definition ccder_sizeof :: "ccder_tag \<Rightarrow> nat \<Rightarrow> nat" where
  "ccder_sizeof tag len = ccder_sizeof_tag tag + ccder_sizeof_len len + len"

text \<open>The bytes of a tag and of a length.\<close>

definition tag_num_bytes :: "ccder_tag \<Rightarrow> bytes" where
  "tag_num_bytes num =
     (if num \<le> 0x7f then [ucast num]
      else (if 0xfffffff < num then [ucast (drop_bit 28 num) OR 0x80] else []) @
           (if 0x1fffff < num then [ucast (drop_bit 21 num) OR 0x80] else []) @
           (if 0x3fff < num then [ucast (drop_bit 14 num) OR 0x80] else []) @
           [ucast (drop_bit 7 num) OR 0x80, ucast (num AND 0x7f)])"

definition tag_bytes :: "ccder_tag \<Rightarrow> bytes" where
  "tag_bytes tag =
     (let tag0 = ucast (drop_bit 56 tag) :: byte;
          num = tag AND CCDER_TAGNUM_MASK
      in if num < 0x1f then [(tag0 AND 0xe0) OR ucast num]
         else (tag0 OR 0x1f) # tag_num_bytes num)"

definition len_bytes :: "nat \<Rightarrow> bytes" where
  "len_bytes l =
     (if l \<le> 0x7f then [of_nat l]
      else if l \<le> 0xff then [0x81, of_nat l]
      else if l \<le> 0xffff then [0x82, of_nat (l div 2 ^ 8), of_nat l]
      else if l \<le> 0xffffff then [0x83, of_nat (l div 2 ^ 16), of_nat (l div 2 ^ 8), of_nat l]
      else [0x84, of_nat (l div 2 ^ 24), of_nat (l div 2 ^ 16), of_nat (l div 2 ^ 8), of_nat l])"

lemma length_tag_bytes: "length (tag_bytes tag) = ccder_sizeof_tag tag"
proof -
  let ?n = "tag AND CCDER_TAGNUM_MASK"
  have "?n < 0x1f \<Longrightarrow> ?n \<le> 0x7f" "?n \<le> 0x7f \<Longrightarrow> ?n \<le> 0x3fff" "?n \<le> 0x3fff \<Longrightarrow> ?n \<le> 0x1fffff"
    "?n \<le> 0x1fffff \<Longrightarrow> ?n \<le> 0xfffffff"
    by (auto simp: word_le_nat_alt word_less_nat_alt)
  then show ?thesis
    by (auto simp: tag_bytes_def tag_num_bytes_def ccder_sizeof_tag_def Let_def not_le)
qed

lemma length_len_bytes: "l \<le> 0xffffffff \<Longrightarrow> length (len_bytes l) = ccder_sizeof_len l"
  by (simp add: len_bytes_def ccder_sizeof_len_def)

lemma emitsI:
  assumes "\<And>b. blob_wf b \<Longrightarrow> length bs \<le> ccder_blob_size b \<Longrightarrow> f b = (True, put bs b)"
    and "\<And>b. blob_wf b \<Longrightarrow> ccder_blob_size b < length bs \<Longrightarrow> \<not> fst (f b)"
  shows "emits f bs"
  using assms by (auto simp: emits_def not_le)

lemma ccder_blob_encode_len_emits:
  assumes "l \<le> 0xffffffff"
  shows "emits (\<lambda>b. ccder_blob_encode_len b l) (len_bytes l)"
proof (rule emitsI)
  fix b
  assume b: "blob_wf b" "length (len_bytes l) \<le> ccder_blob_size b"
  then have "der b + length (len_bytes l) \<le> der_end b"
    unfolding ccder_blob_size_def blob_wf_def by linarith
  then show "ccder_blob_encode_len b l = (True, put (len_bytes l) b)"
    using assms b
    by (auto simp: ccder_blob_encode_len_def len_bytes_def poke_put poke_put_list put_put split: if_splits)
next
  fix b
  assume "blob_wf b" "ccder_blob_size b < length (len_bytes l)"
  then have "der_end b < der b + length (len_bytes l)" by (simp add: ccder_blob_size_def blob_wf_def)
  then show "\<not> fst (ccder_blob_encode_len b l)"
    using assms by (auto simp: ccder_blob_encode_len_def len_bytes_def split: if_splits)
qed

lemma ccder_blob_encode_len_too_long: "0xffffffff < l \<Longrightarrow> ccder_blob_encode_len b l = (False, b)"
  by (simp add: ccder_blob_encode_len_def)

lemma ccder_blob_encode_tag_emits: "emits (\<lambda>b. ccder_blob_encode_tag b tag) (tag_bytes tag)"
proof -
  let ?n = "tag AND CCDER_TAGNUM_MASK"
  have o: "?n < 0x1f \<Longrightarrow> ?n \<le> 0x7f" "?n \<le> 0x7f \<Longrightarrow> ?n \<le> 0x3fff" "?n \<le> 0x3fff \<Longrightarrow> ?n \<le> 0x1fffff"
    "?n \<le> 0x1fffff \<Longrightarrow> ?n \<le> 0xfffffff" "0xfffffff < ?n \<Longrightarrow> 0x1fffff < ?n"
    "0x1fffff < ?n \<Longrightarrow> 0x3fff < ?n" "0x3fff < ?n \<Longrightarrow> 0x7f < ?n"
    by (auto simp: word_le_nat_alt word_less_nat_alt)
  have o': "\<not> 0x1f \<le> ?n \<Longrightarrow> ?n \<le> 0x7f" using o(1) by (simp add: not_le)
  show ?thesis
  proof (rule emitsI)
    fix b
    assume "blob_wf b" "length (tag_bytes tag) \<le> ccder_blob_size b"
    then show "ccder_blob_encode_tag b tag = (True, put (tag_bytes tag) b)"
      using o' o(2-4) unfolding ccder_blob_encode_tag_def tag_bytes_def tag_num_bytes_def Let_def linorder_not_le [symmetric]
      by (cases "?n \<le> 0x7f"; cases "?n \<le> 0x3fff"; cases "?n \<le> 0x1fffff"; cases "?n \<le> 0xfffffff")
        (simp_all add: poke_put poke_put_list put_put split del: if_split split: if_split_asm if_split)
  next
    fix b
    assume "blob_wf b" "ccder_blob_size b < length (tag_bytes tag)"
    then show "\<not> fst (ccder_blob_encode_tag b tag)"
      using o by (auto simp: ccder_blob_encode_tag_def tag_bytes_def tag_num_bytes_def Let_def not_le
          split: if_splits)
  qed
qed

lemma ccder_blob_encode_tl_emits:
  "len \<le> 0xffffffff \<Longrightarrow> emits (\<lambda>b. ccder_blob_encode_tl b tag len) (tag_bytes tag @ len_bytes len)"
  unfolding ccder_blob_encode_tl_def
  using emits_and_then [OF ccder_blob_encode_len_emits ccder_blob_encode_tag_emits] by simp

text \<open>A tag-length-value item, and its size as \<open>ccder_sizeof\<close> computes it.\<close>

definition tlv :: "ccder_tag \<Rightarrow> bytes \<Rightarrow> bytes" where
  "tlv tag body = tag_bytes tag @ len_bytes (length body) @ body"

lemma length_tlv: "length body \<le> 0xffffffff \<Longrightarrow> length (tlv tag body) = ccder_sizeof tag (length body)"
  by (simp add: tlv_def ccder_sizeof_def length_tag_bytes length_len_bytes)

section \<open>Reserving and writing bodies\<close>

text \<open>The reserved range is given by its two indices into the same buffer.\<close>

definition ccder_blob_reserve :: "ccder_blob \<Rightarrow> nat \<Rightarrow> bool \<times> ccder_blob \<times> nat \<times> nat" where
  "ccder_blob_reserve to size' =
     (if ccder_blob_size to < size' then (False, to, 0, 0)
      else (True, to\<lparr>der_end := der_end to - size'\<rparr>, der_end to - size', der_end to))"

definition ccder_blob_reserve_tl :: "ccder_blob \<Rightarrow> ccder_tag \<Rightarrow> nat \<Rightarrow> bool \<times> ccder_blob \<times> nat \<times> nat" where
  "ccder_blob_reserve_tl to tag reserve_size =
     (let (ok, to, r0, r1) = ccder_blob_reserve to reserve_size
      in if \<not> ok then (False, to, 0, 0)
         else let (ok, to) = ccder_blob_encode_tl to tag reserve_size
              in if \<not> ok then (False, to, 0, 0) else (True, to, r0, r1))"

definition ccder_blob_encode_body :: "ccder_blob \<Rightarrow> nat \<Rightarrow> bytes \<Rightarrow> bool \<times> ccder_blob" where
  "ccder_blob_encode_body to size' body =
     (let (ok, to, r0, r1) = ccder_blob_reserve to size'
      in if \<not> ok then (False, to) else (True, to\<lparr>mem := write_at r0 (take size' body) (mem to)\<rparr>))"

definition ccder_blob_encode_body_tl :: "ccder_blob \<Rightarrow> ccder_tag \<Rightarrow> nat \<Rightarrow> bytes \<Rightarrow> bool \<times> ccder_blob" where
  "ccder_blob_encode_body_tl to tag size' body =
     and_then (\<lambda>b. ccder_blob_encode_body b size' body) (\<lambda>b. ccder_blob_encode_tl b tag size') to"

definition ccder_blob_encode_implicit_integer ::
  "ccder_blob \<Rightarrow> ccder_tag \<Rightarrow> nat \<Rightarrow> units \<Rightarrow> bool \<times> ccder_blob" where
  "ccder_blob_encode_implicit_integer to implicit_tag n s =
     (let (ok, to, r0, r1) = ccder_blob_reserve_tl to implicit_tag (ccn_write_int_size n s)
      in if \<not> ok then (False, to)
         else (True, to\<lparr>mem := write_at r0 (ccn_write_int n s (r1 - r0)) (mem to)\<rparr>))"

definition ccder_blob_encode_integer :: "ccder_blob \<Rightarrow> nat \<Rightarrow> units \<Rightarrow> bool \<times> ccder_blob" where
  "ccder_blob_encode_integer to n s = ccder_blob_encode_implicit_integer to CCDER_INTEGER n s"

definition ccder_blob_encode_implicit_uint64 ::
  "ccder_blob \<Rightarrow> ccder_tag \<Rightarrow> cc_unit \<Rightarrow> bool \<times> ccder_blob" where
  "ccder_blob_encode_implicit_uint64 to implicit_tag value =
     ccder_blob_encode_implicit_integer to implicit_tag 1 [value]"

definition ccder_blob_encode_uint64 :: "ccder_blob \<Rightarrow> cc_unit \<Rightarrow> bool \<times> ccder_blob" where
  "ccder_blob_encode_uint64 to value = ccder_blob_encode_implicit_uint64 to CCDER_INTEGER value"

definition ccder_blob_encode_implicit_octet_string ::
  "ccder_blob \<Rightarrow> ccder_tag \<Rightarrow> nat \<Rightarrow> units \<Rightarrow> bool \<times> ccder_blob" where
  "ccder_blob_encode_implicit_octet_string to implicit_tag n s =
     (let (ok, to, r0, r1) = ccder_blob_reserve_tl to implicit_tag (ccn_write_uint_size n s)
      in if \<not> ok then (False, to)
         else (True, to\<lparr>mem := write_at r0 (ccn_write_int n s (r1 - r0)) (mem to)\<rparr>))"

definition ccder_blob_encode_octet_string :: "ccder_blob \<Rightarrow> nat \<Rightarrow> units \<Rightarrow> bool \<times> ccder_blob" where
  "ccder_blob_encode_octet_string to n s = ccder_blob_encode_implicit_octet_string to CCDER_OCTET_STRING n s"

definition ccder_blob_encode_implicit_raw_octet_string ::
  "ccder_blob \<Rightarrow> ccder_tag \<Rightarrow> nat \<Rightarrow> bytes \<Rightarrow> bool \<times> ccder_blob" where
  "ccder_blob_encode_implicit_raw_octet_string to implicit_tag s_size s =
     ccder_blob_encode_body_tl to implicit_tag s_size s"

definition ccder_blob_encode_raw_octet_string :: "ccder_blob \<Rightarrow> nat \<Rightarrow> bytes \<Rightarrow> bool \<times> ccder_blob" where
  "ccder_blob_encode_raw_octet_string blob s_size s =
     ccder_blob_encode_implicit_raw_octet_string blob CCDER_OCTET_STRING s_size s"

text \<open>An OID is the memory from its first byte on; it includes its own tag and length.\<close>

definition ccoid_size :: "bytes \<Rightarrow> nat" where
  "ccoid_size oid = 2 + unat (oid ! 1)"

definition ccoid_payload :: "bytes \<Rightarrow> bytes" where
  "ccoid_payload oid = oid"

definition ccder_blob_encode_oid :: "ccder_blob \<Rightarrow> bytes \<Rightarrow> bool \<times> ccder_blob" where
  "ccder_blob_encode_oid to oid = ccder_blob_encode_body to (ccoid_size oid) (ccoid_payload oid)"

lemma ccder_blob_encode_body_emits:
  assumes "size' \<le> length body"
  shows "emits (\<lambda>b. ccder_blob_encode_body b size' body) (take size' body)"
  using assms
  by (intro emitsI) (auto simp: ccder_blob_encode_body_def ccder_blob_reserve_def put_def min_absorb2)

lemma ccder_blob_encode_body_tl_emits:
  assumes "length body = size'" "size' \<le> 0xffffffff"
  shows "emits (\<lambda>b. ccder_blob_encode_body_tl b tag size' body) (tlv tag body)"
  unfolding ccder_blob_encode_body_tl_def tlv_def
  using emits_and_then [OF ccder_blob_encode_body_emits ccder_blob_encode_tl_emits] assms
  by (metis append.assoc order_refl take_all)

text \<open>
  Reserving first and filling the range afterwards emits the same bytes, provided the
  filler writes exactly the reserved number of bytes.
\<close>

lemma reserve_tl_emits:
  assumes "length body \<le> 0xffffffff"
  shows "emits (\<lambda>to. let (ok, to, r0, r1) = ccder_blob_reserve_tl to tag (length body)
      in if \<not> ok then (False, to) else (True, to\<lparr>mem := write_at r0 body (mem to)\<rparr>)) (tlv tag body)"
proof (rule emitsI)
  note tl = ccder_blob_encode_tl_emits [OF assms, of tag, unfolded emits_def]
  let ?k = "length body" and ?h = "tag_bytes tag @ len_bytes (length body)"
  { fix b
    assume b: "blob_wf b" "length (tlv tag body) \<le> ccder_blob_size b"
    let ?c = "b\<lparr>der_end := der_end b - ?k\<rparr>"
    have k: "?k \<le> ccder_blob_size b" using b(2) by (simp add: tlv_def)
    have c: "blob_wf ?c" "length ?h \<le> ccder_blob_size ?c"
      using b by (auto simp: blob_wf_def ccder_blob_size_def tlv_def)
    with tl have "ccder_blob_encode_tl ?c tag ?k = (True, put ?h ?c)" by auto
    moreover have "put ?h ?c\<lparr>mem := write_at (der_end b - ?k) body (mem (put ?h ?c))\<rparr> = put (tlv tag body) b"
    proof -
      let ?p = "der_end b - ?k - length ?h"
      have p: "?p + length ?h = der_end b - ?k" "?p + length ?h + ?k \<le> length (mem b)"
        using b k by (auto simp: blob_wf_def ccder_blob_size_def tlv_def)
      have "write_at (der_end b - ?k) body (write_at ?p ?h (mem b)) = write_at ?p (?h @ body) (mem b)"
        using write_at_comm [OF p(2)] p(1) by simp
      then show ?thesis by (simp add: put_def tlv_def diff_diff_eq add.commute add.left_commute)
    qed
    ultimately show "(let (ok, to, r0, r1) = ccder_blob_reserve_tl b tag ?k
        in if \<not> ok then (False, to) else (True, to\<lparr>mem := write_at r0 body (mem to)\<rparr>)) = (True, put (tlv tag body) b)"
      using k by (simp add: ccder_blob_reserve_tl_def ccder_blob_reserve_def) }
  { fix b
    assume b: "blob_wf b" "ccder_blob_size b < length (tlv tag body)"
    show "\<not> fst (let (ok, to, r0, r1) = ccder_blob_reserve_tl b tag ?k
        in if \<not> ok then (False, to) else (True, to\<lparr>mem := write_at r0 body (mem to)\<rparr>))"
    proof (cases "?k \<le> ccder_blob_size b")
      case True
      let ?c = "b\<lparr>der_end := der_end b - ?k\<rparr>"
      have c: "blob_wf ?c" "\<not> length ?h \<le> ccder_blob_size ?c"
        using b True by (auto simp: blob_wf_def ccder_blob_size_def tlv_def)
      with tl have "\<not> fst (ccder_blob_encode_tl ?c tag ?k)" by auto
      with True show ?thesis
        by (auto simp: ccder_blob_reserve_tl_def ccder_blob_reserve_def split: prod.splits)
    next
      case False
      then show ?thesis by (simp add: ccder_blob_reserve_tl_def ccder_blob_reserve_def)
    qed }
qed

lemma ccder_blob_encode_implicit_integer_emits:
  assumes "length s = n" "n < 2 ^ 28"
  shows "emits (\<lambda>b. ccder_blob_encode_implicit_integer b tag n s)
    (tlv tag (ccn_write_int n s (ccn_write_int_size n s)))"
proof -
  let ?k = "ccn_write_int_size n s"
  have n: "n < 2 ^ 58" using assms(2) by simp
  note w = ccn_write_int_val [OF assms(1) n]
  have "?k \<le> 8 * n + 1"
    using ccn_write_uint_size_bounds(1) [OF assms(1) n] by (simp add: ccn_write_int_size_eq)
  then have k: "length (ccn_write_int n s ?k) \<le> 0xffffffff" using w(1) assms(2) by simp
  have r: "r1 - r0 = ?k" if "ccder_blob_reserve_tl b tag ?k = (True, to, r0, r1)" "blob_wf b" for b to r0 r1
    using that
    by (auto simp: ccder_blob_reserve_tl_def ccder_blob_reserve_def ccder_blob_size_def blob_wf_def
        split: if_splits prod.splits)
  have "ccder_blob_encode_implicit_integer b tag n s =
      (let (ok, to, r0, r1) = ccder_blob_reserve_tl b tag ?k
       in if \<not> ok then (False, to) else (True, to\<lparr>mem := write_at r0 (ccn_write_int n s ?k) (mem to)\<rparr>))"
    if "blob_wf b" for b
    using r [OF _ that] by (auto simp: ccder_blob_encode_implicit_integer_def split: prod.splits)
  from emits_cong [OF this reserve_tl_emits [OF k, of tag, unfolded w(1)]] show ?thesis .
qed

lemma ccder_blob_encode_implicit_uint64_emits:
  "emits (\<lambda>b. ccder_blob_encode_implicit_uint64 b tag v)
    (tlv tag (ccn_write_int 1 [v] (ccn_write_int_size 1 [v])))"
  unfolding ccder_blob_encode_implicit_uint64_def
  by (rule ccder_blob_encode_implicit_integer_emits) simp_all

text \<open>The sizes the \<open>ccder_sizeof_*\<close> functions promise.\<close>

definition ccder_sizeof_implicit_integer :: "ccder_tag \<Rightarrow> nat \<Rightarrow> units \<Rightarrow> nat" where
  "ccder_sizeof_implicit_integer implicit_tag n s = ccder_sizeof implicit_tag (ccn_write_int_size n s)"

definition ccder_sizeof_implicit_octet_string :: "ccder_tag \<Rightarrow> nat \<Rightarrow> units \<Rightarrow> nat" where
  "ccder_sizeof_implicit_octet_string implicit_tag n s = ccder_sizeof implicit_tag (ccn_write_uint_size n s)"

definition ccder_sizeof_implicit_raw_octet_string :: "ccder_tag \<Rightarrow> nat \<Rightarrow> nat" where
  "ccder_sizeof_implicit_raw_octet_string implicit_tag s_size = ccder_sizeof implicit_tag s_size"

definition ccder_sizeof_implicit_uint64 :: "ccder_tag \<Rightarrow> cc_unit \<Rightarrow> nat" where
  "ccder_sizeof_implicit_uint64 implicit_tag value = ccder_sizeof_implicit_integer implicit_tag 1 [value]"

definition ccder_sizeof_integer :: "nat \<Rightarrow> units \<Rightarrow> nat" where
  "ccder_sizeof_integer n s = ccder_sizeof_implicit_integer CCDER_INTEGER n s"

definition ccder_sizeof_octet_string :: "nat \<Rightarrow> units \<Rightarrow> nat" where
  "ccder_sizeof_octet_string n s = ccder_sizeof_implicit_octet_string CCDER_OCTET_STRING n s"

definition ccder_sizeof_raw_octet_string :: "nat \<Rightarrow> nat" where
  "ccder_sizeof_raw_octet_string s_size = ccder_sizeof_implicit_raw_octet_string CCDER_OCTET_STRING s_size"

definition ccder_sizeof_uint64 :: "cc_unit \<Rightarrow> nat" where
  "ccder_sizeof_uint64 value = ccder_sizeof_implicit_uint64 CCDER_INTEGER value"

definition ccder_sizeof_oid :: "bytes \<Rightarrow> nat" where
  "ccder_sizeof_oid oid = ccoid_size oid"

text \<open>A null OID is \<open>None\<close>.\<close>

definition ccder_sizeof_eckey :: "nat \<Rightarrow> bytes option \<Rightarrow> nat \<Rightarrow> nat" where
  "ccder_sizeof_eckey priv_size oid pub_size =
     (let size' = ccder_sizeof_uint64 1 + ccder_sizeof CCDER_OCTET_STRING priv_size;
          size' = (case oid of None \<Rightarrow> size'
                   | Some oid \<Rightarrow> size' + ccder_sizeof (CCDER_CONTEXT_SPECIFIC OR CCDER_CONSTRUCTED OR 0) (ccder_sizeof_oid oid));
          size' = (if pub_size \<noteq> 0
                   then let bitlen = ccder_sizeof CCDER_BIT_STRING (pub_size + 1)
                        in size' + ccder_sizeof (CCDER_CONTEXT_SPECIFIC OR CCDER_CONSTRUCTED OR 1) bitlen
                   else size')
      in ccder_sizeof CCDER_CONSTRUCTED_SEQUENCE size')"

lemma ccder_sizeof_implicit_integer_eq:
  assumes "length s = n" "n < 2 ^ 28"
  shows "length (tlv tag (ccn_write_int n s (ccn_write_int_size n s))) = ccder_sizeof_implicit_integer tag n s"
proof -
  have n: "n < 2 ^ 58" using assms(2) by simp
  note w = ccn_write_int_val [OF assms(1) n]
  have "ccn_write_int_size n s \<le> 8 * n + 1"
    using ccn_write_uint_size_bounds(1) [OF assms(1) n] by (simp add: ccn_write_int_size_eq)
  then show ?thesis using w(1) assms(2) by (simp add: ccder_sizeof_implicit_integer_def length_tlv)
qed

section \<open>Elliptic curve private keys\<close>

text \<open>RFC 5915; a null \<open>pub_key\<close> is the empty string, as only a non-empty one is written.\<close>

definition ccder_blob_encode_eckey ::
  "ccder_blob \<Rightarrow> nat \<Rightarrow> bytes \<Rightarrow> bytes option \<Rightarrow> nat \<Rightarrow> bytes \<Rightarrow> bool \<times> ccder_blob" where
  "ccder_blob_encode_eckey to priv_byte_size priv_key oid pub_byte_size pub_key =
     (let end0 = der_end to;
          pub = (\<lambda>to.
            if pub_key \<noteq> [] \<and> pub_byte_size \<noteq> 0
            then let pub_key_end = der_end to
                 in and_then (\<lambda>b. ccder_blob_encode_body b pub_byte_size pub_key)
                     (and_then (\<lambda>b. ccder_blob_encode_body b 1 [0])
                       (and_then (\<lambda>b. ccder_blob_encode_tl b CCDER_BIT_STRING (pub_key_end - der_end b))
                         (\<lambda>b. ccder_blob_encode_tl b (CCDER_CONTEXT_SPECIFIC OR CCDER_CONSTRUCTED OR 1)
                                (pub_key_end - der_end b)))) to
            else (True, to));
          parameters = (\<lambda>to.
            case oid of None \<Rightarrow> (True, to)
            | Some oid \<Rightarrow>
                let oid_end = der_end to
                in and_then (\<lambda>b. ccder_blob_encode_oid b oid)
                     (\<lambda>b. ccder_blob_encode_tl b (CCDER_CONTEXT_SPECIFIC OR CCDER_CONSTRUCTED OR 0)
                            (oid_end - der_end b)) to)
      in if priv_byte_size = 0 then (False, to)
         else and_then pub
                (and_then parameters
                  (and_then (\<lambda>b. ccder_blob_encode_raw_octet_string b priv_byte_size priv_key)
                    (and_then (\<lambda>b. ccder_blob_encode_uint64 b 1)
                      (\<lambda>b. ccder_blob_encode_tl b CCDER_CONSTRUCTED_SEQUENCE (end0 - der_end b))))) to)"

text \<open>
  An encoder followed by the tag and the length of what it wrote, measured by the
  distance the window's end has moved.
\<close>

definition closing :: "(ccder_blob \<Rightarrow> bool \<times> ccder_blob) \<Rightarrow> ccder_tag \<Rightarrow> ccder_blob \<Rightarrow> bool \<times> ccder_blob" where
  "closing f tag to =
     (let e = der_end to in and_then f (\<lambda>b. ccder_blob_encode_tl b tag (e - der_end b)) to)"

lemma emits_closing:
  assumes "emits f xs" "length xs \<le> 0xffffffff"
  shows "emits (closing f tag) (tlv tag xs)"
proof -
  note tl = ccder_blob_encode_tl_emits [OF assms(2), of tag]
  have "closing f tag b = and_then f (\<lambda>b. ccder_blob_encode_tl b tag (length xs)) b \<or>
      (\<not> length xs \<le> ccder_blob_size b \<and> \<not> fst (closing f tag b))" if b: "blob_wf b" for b
  proof (cases "length xs \<le> ccder_blob_size b")
    case True
    then have "f b = (True, put xs b)" using assms(1) b by (auto simp: emits_def)
    moreover have "der_end b - (der_end b - length xs) = length xs"
      using True b by (simp add: ccder_blob_size_def blob_wf_def)
    ultimately show ?thesis by (simp add: closing_def and_then_def Let_def)
  next
    case False
    then have "\<not> fst (f b)" using assms(1) b by (auto simp: emits_def)
    with False show ?thesis by (auto simp: closing_def and_then_def Let_def split: prod.splits)
  qed
  then show ?thesis
    using emits_and_then [OF assms(1) tl] unfolding emits_def tlv_def by fastforce
qed

lemma and_then_assoc: "and_then (and_then f g) h = and_then f (and_then g h)"
  by (rule ext) (simp add: and_then_def Let_def split: prod.splits)

lemma emits_skip: "emits (\<lambda>to. (True, to)) []"
  by (rule emitsI) (simp_all add: put_nil)

definition eckey_parameters :: "bytes option \<Rightarrow> bytes" where
  "eckey_parameters oid =
     (case oid of None \<Rightarrow> []
      | Some oid \<Rightarrow> tlv (CCDER_CONTEXT_SPECIFIC OR CCDER_CONSTRUCTED OR 0) (take (ccoid_size oid) oid))"

definition eckey_public :: "bytes \<Rightarrow> bytes" where
  "eckey_public pub =
     (if pub = [] then []
      else tlv (CCDER_CONTEXT_SPECIFIC OR CCDER_CONSTRUCTED OR 1) (tlv CCDER_BIT_STRING (0 # pub)))"

definition eckey_bytes :: "bytes \<Rightarrow> bytes option \<Rightarrow> bytes \<Rightarrow> bytes" where
  "eckey_bytes priv oid pub =
     tlv CCDER_CONSTRUCTED_SEQUENCE
       (tlv CCDER_INTEGER [1] @ tlv CCDER_OCTET_STRING priv @ eckey_parameters oid @ eckey_public pub)"

lemma length_tag_le: "length (tag_bytes tag) \<le> 6"
  by (auto simp: length_tag_bytes ccder_sizeof_tag_def Let_def)

lemma length_len_le: "length (len_bytes l) \<le> 5"
  by (auto simp: len_bytes_def)

lemma length_tlv_le: "length (tlv tag body) \<le> length body + 11"
  using length_tag_le [of tag] length_len_le [of "length body"] by (simp add: tlv_def)

lemma write_int_one: "ccn_write_int 1 [1] (ccn_write_int_size 1 [1]) = [1]"
proof -
  note w = ccn_write_int_val [of "[1]" 1]
  have "ccn_bitlen 1 [1] = 1" by code_simp
  then have "ccn_write_int_size 1 [1] = 1" by (simp add: ccn_write_int_size_def)
  with w(1,2) show ?thesis
    by (intro be_val_inj) simp_all
qed

lemma ccder_blob_encode_eckey_emits:
  assumes "length priv = priv_byte_size" "0 < priv_byte_size" "length pub = pub_byte_size"
    "priv_byte_size < 2 ^ 30" "pub_byte_size < 2 ^ 30"
    "\<And>o'. oid = Some o' \<Longrightarrow> ccoid_size o' \<le> length o'"
  shows "emits (\<lambda>b. ccder_blob_encode_eckey b priv_byte_size priv oid pub_byte_size pub)
    (eckey_bytes priv oid pub)"
proof -
  let ?ctx1 = "CCDER_CONTEXT_SPECIFIC OR CCDER_CONSTRUCTED OR 1"
  let ?ctx0 = "CCDER_CONTEXT_SPECIFIC OR CCDER_CONSTRUCTED OR 0"
  define e_pub where "e_pub = (\<lambda>to.
    if pub \<noteq> [] \<and> pub_byte_size \<noteq> 0
    then closing (closing (and_then (\<lambda>b. ccder_blob_encode_body b pub_byte_size pub)
      (\<lambda>b. ccder_blob_encode_body b 1 [0])) CCDER_BIT_STRING) ?ctx1 to
    else (True, to))"
  define e_par where "e_par = (\<lambda>to. case oid of None \<Rightarrow> (True, to)
    | Some oid \<Rightarrow> closing (\<lambda>b. ccder_blob_encode_oid b oid) ?ctx0 to)"
  have oid_le: "ccoid_size o' \<le> 257" for o'
    using word_bound [of "o' ! 1"] by (simp add: ccoid_size_def)
  have pub: "emits e_pub (eckey_public pub)"
  proof (cases "pub = []")
    case True
    then show ?thesis using emits_skip by (simp add: e_pub_def eckey_public_def)
  next
    case False
    have "emits (and_then (\<lambda>b. ccder_blob_encode_body b pub_byte_size pub)
      (\<lambda>b. ccder_blob_encode_body b 1 [0])) (0 # pub)"
      using emits_and_then [OF ccder_blob_encode_body_emits [of pub_byte_size pub]
          ccder_blob_encode_body_emits [of 1 "[0]"]] assms(3) by simp
    then show ?thesis
      using False assms(3,5) length_tlv_le [of CCDER_BIT_STRING "0 # pub"]
      by (auto simp: e_pub_def eckey_public_def intro!: emits_closing)
  qed
  have par: "emits e_par (eckey_parameters oid)"
  proof (cases oid)
    case None
    then show ?thesis using emits_skip by (simp add: e_par_def eckey_parameters_def)
  next
    case (Some o')
    then show ?thesis
      using assms(6) [OF Some] oid_le [of o'] ccder_blob_encode_body_emits [of "ccoid_size o'" o']
      by (auto simp: e_par_def eckey_parameters_def ccder_blob_encode_oid_def ccoid_payload_def
          intro!: emits_closing)
  qed
  have raw: "emits (\<lambda>b. ccder_blob_encode_raw_octet_string b priv_byte_size priv) (tlv CCDER_OCTET_STRING priv)"
    unfolding ccder_blob_encode_raw_octet_string_def ccder_blob_encode_implicit_raw_octet_string_def
    by (rule ccder_blob_encode_body_tl_emits) (use assms in simp_all)
  have one: "emits (\<lambda>b. ccder_blob_encode_uint64 b 1) (tlv CCDER_INTEGER [1])"
    unfolding ccder_blob_encode_uint64_def
    by (rule ccder_blob_encode_implicit_uint64_emits [of CCDER_INTEGER 1, unfolded write_int_one])
  note all = emits_and_then [OF emits_and_then [OF emits_and_then [OF pub par] raw] one]
  have "length (tlv CCDER_INTEGER [1] @ tlv CCDER_OCTET_STRING priv @ eckey_parameters oid @ eckey_public pub) \<le> 0xffffffff"
    using length_tlv_le [of CCDER_INTEGER "[1]"] length_tlv_le [of CCDER_OCTET_STRING priv]
      length_tlv_le [of ?ctx1 "tlv CCDER_BIT_STRING (0 # pub)"] length_tlv_le [of CCDER_BIT_STRING "0 # pub"]
      length_tlv_le [of ?ctx0 "take (ccoid_size (the oid)) (the oid)"] oid_le [of "the oid"] assms
    by (auto simp: eckey_parameters_def eckey_public_def split: option.splits)
  from emits_closing [OF all, of CCDER_CONSTRUCTED_SEQUENCE] this
  have cl: "emits (closing (and_then (and_then (and_then e_pub e_par)
      (\<lambda>b. ccder_blob_encode_raw_octet_string b priv_byte_size priv)) (\<lambda>b. ccder_blob_encode_uint64 b 1))
      CCDER_CONSTRUCTED_SEQUENCE) (eckey_bytes priv oid pub)"
    by (simp add: eckey_bytes_def)
  show ?thesis
  proof (rule emits_cong [OF _ cl])
    fix b
    have ep: "e_pub = (\<lambda>to. if pub \<noteq> [] \<and> pub_byte_size \<noteq> 0
        then let pub_key_end = der_end to
             in and_then (\<lambda>b. ccder_blob_encode_body b pub_byte_size pub)
                 (and_then (\<lambda>b. ccder_blob_encode_body b 1 [0])
                   (and_then (\<lambda>b. ccder_blob_encode_tl b CCDER_BIT_STRING (pub_key_end - der_end b))
                     (\<lambda>b. ccder_blob_encode_tl b ?ctx1 (pub_key_end - der_end b)))) to
        else (True, to))"
      by (rule ext) (auto simp: e_pub_def closing_def and_then_def Let_def split: prod.splits)
    show "ccder_blob_encode_eckey b priv_byte_size priv oid pub_byte_size pub =
      closing (and_then (and_then (and_then e_pub e_par)
        (\<lambda>b. ccder_blob_encode_raw_octet_string b priv_byte_size priv)) (\<lambda>b. ccder_blob_encode_uint64 b 1))
        CCDER_CONSTRUCTED_SEQUENCE b"
      using assms(2)
      by (simp add: ccder_blob_encode_eckey_def ep closing_def e_par_def and_then_assoc Let_def cong: option.case_cong)
  qed
qed

section \<open>Octet strings of numbers\<close>

text \<open>
  \<open>ccder_blob_encode_implicit_octet_string\<close> reserves \<open>ccn_write_uint_size\<close> bytes but
  fills them with \<open>ccn_write_int\<close>, which prepends a zero byte when the bit length is a
  multiple of eight.  The item is right when it is not.
\<close>

lemma reserve_tl_range:
  assumes "ccder_blob_reserve_tl b tag k = (True, to, r0, r1)" "blob_wf b"
  shows "r1 - r0 = k"
  using assms
  by (auto simp: ccder_blob_reserve_tl_def ccder_blob_reserve_def ccder_blob_size_def blob_wf_def
      split: if_splits prod.splits)

lemma ccder_blob_encode_implicit_octet_string_emits:
  assumes "length s = n" "n < 2 ^ 28" "ccn_bitlen n s mod 8 \<noteq> 0"
  shows "emits (\<lambda>b. ccder_blob_encode_implicit_octet_string b tag n s)
    (tlv tag (ccn_write_uint n s (ccn_write_uint_size n s)))"
proof -
  let ?k = "ccn_write_uint_size n s"
  have n: "n < 2 ^ 58" using assms(2) by simp
  note w = ccn_write_uint_full [OF assms(1) n order_refl]
  have k: "length (ccn_write_uint n s ?k) \<le> 0xffffffff"
    using w(1) ccn_write_uint_size_bounds(1) [OF assms(1) n] assms(2) by simp
  have "ccder_blob_encode_implicit_octet_string b tag n s =
      (let (ok, to, r0, r1) = ccder_blob_reserve_tl b tag ?k
       in if \<not> ok then (False, to) else (True, to\<lparr>mem := write_at r0 (ccn_write_uint n s ?k) (mem to)\<rparr>))"
    if "blob_wf b" for b
    using reserve_tl_range [OF _ that] assms(3)
    by (auto simp: ccder_blob_encode_implicit_octet_string_def ccn_write_int_def split: prod.splits)
  from emits_cong [OF this reserve_tl_emits [OF k, of tag, unfolded w(1)]] show ?thesis .
qed

text \<open>Otherwise the least significant byte is lost: the body is a zero and the bytes above it.\<close>

lemma ccder_blob_encode_implicit_octet_string_shifted:
  assumes "length s = n" "n < 2 ^ 28" "ccn_bitlen n s mod 8 = 0" "0 < ccn_bitlen n s"
  shows "emits (\<lambda>b. ccder_blob_encode_implicit_octet_string b tag n s)
    (tlv tag (0 # ccn_write_uint n s (ccn_write_uint_size n s - 1)))"
proof -
  let ?k = "ccn_write_uint_size n s"
  let ?body = "0 # ccn_write_uint n s (?k - 1)"
  have n: "n < 2 ^ 58" using assms(2) by simp
  have k: "0 < ?k" using assms(4) by (simp add: ccn_write_uint_size_def cc_bitlen_to_bytelen_def)
  have kb: "?k \<le> 8 * n" by (rule ccn_write_uint_size_bounds(1) [OF assms(1) n])
  have w: "length ?body = ?k" using k by (simp add: ccn_write_uint_def Let_def)
  have o: "(?k + 2 ^ 64 - 1) mod 2 ^ 64 = ?k - 1"
  proof -
    have "?k + 2 ^ 64 - 1 = (?k - 1) + 2 ^ 64" "?k - 1 < 2 ^ 64" using k kb assms(2) by simp_all
    then show ?thesis by (metis mod_add_self2 mod_less)
  qed
  have l: "length ?body \<le> 0xffffffff" unfolding w using kb assms(2) by simp
  have "ccder_blob_encode_implicit_octet_string b tag n s =
      (let (ok, to, r0, r1) = ccder_blob_reserve_tl b tag ?k
       in if \<not> ok then (False, to) else (True, to\<lparr>mem := write_at r0 ?body (mem to)\<rparr>))"
    if "blob_wf b" for b
    using reserve_tl_range [OF _ that] assms(3) o
    by (auto simp: ccder_blob_encode_implicit_octet_string_def ccn_write_int_def split: prod.splits)
  from emits_cong [OF this reserve_tl_emits [OF l, of tag, unfolded w]] show ?thesis .
qed

end
