(* ===== verification/Ccder_Decode.thy ===== *)
theory Ccder_Decode
  imports Ccder_Encode
begin

unbundle bit_operations_syntax

text \<open>
  The DER decoder (\<open>ccder/src/ccder_blob_decode_*.c\<close>, \<open>ccder_priv.h\<close>).  A
  \<open>ccder_read_blob\<close> is the list of bytes from \<open>der\<close> to \<open>der_end\<close>; the null blob is
  the empty list, which every decoder refuses as it refuses a null pointer.  A decoder
  returns the blob after the call and \<open>None\<close> where the code returns false.

  The lemmas are the round trips with the encoder, for each kind of item, and the
  converse for the strict variants: a strict decoder accepts canonical encodings only.
\<close>

section \<open>Tags and lengths\<close>

fun ccder_blob_decode_tag_loop :: "ccder_tag \<Rightarrow> bytes \<Rightarrow> (ccder_tag \<times> bytes) option" where
  "ccder_blob_decode_tag_loop num [] = None"
| "ccder_blob_decode_tag_loop num (v # p) =
     (if num AND push_bit (64 - 7) 0x7f \<noteq> 0 then None
      else let num = push_bit 7 num OR ucast (v AND 0x7f)
           in if v AND 0x80 \<noteq> 0 then ccder_blob_decode_tag_loop num p else Some (num, p))"

definition ccder_blob_decode_tag :: "bytes \<Rightarrow> bytes \<times> ccder_tag option" where
  "ccder_blob_decode_tag from' =
     (case from' of
        [] \<Rightarrow> (from', None)
      | b # p \<Rightarrow>
          let tag0 = ucast b :: ccder_tag;
              num = tag0 AND 0x1f;
              res = (if num = 0x1f
                     then case ccder_blob_decode_tag_loop 0 p of
                            None \<Rightarrow> None
                          | Some (num, p) \<Rightarrow>
                              if num AND push_bit 4 (push_bit (64 - 7) 0x7f) \<noteq> 0 then None else Some (num, p)
                     else Some (num, p))
          in (case res of
                None \<Rightarrow> (from', None)
              | Some (num, p) \<Rightarrow> (p, Some (push_bit ((8 - 1) * 8) (tag0 AND 0xe0) OR num))))"

definition ccder_blob_decode_len_internal :: "bool \<Rightarrow> bytes \<Rightarrow> bytes \<times> nat option" where
  "ccder_blob_decode_len_internal strict from' =
     (let res = (case from' of
          [] \<Rightarrow> None
        | b # p \<Rightarrow>
            if unat b < 0x80 then Some (unat b, p)
            else if b = 0x81
            then (case p of
                    b0 # p \<Rightarrow> let len = unat b0 in if strict \<and> len < 0x80 then None else Some (len, p)
                  | _ \<Rightarrow> None)
            else if b = 0x82
            then (case p of
                    b1 # b0 # p \<Rightarrow>
                      let len = unat b1 * 2 ^ 8 + unat b0
                      in if strict \<and> len \<le> 0xff then None else Some (len, p)
                  | _ \<Rightarrow> None)
            else if b = 0x83
            then (case p of
                    b2 # b1 # b0 # p \<Rightarrow>
                      let len = unat b2 * 2 ^ 16 + unat b1 * 2 ^ 8 + unat b0
                      in if strict \<and> len \<le> 0xffff then None else Some (len, p)
                  | _ \<Rightarrow> None)
            else if b = 0x84
            then (case p of
                    b3 # b2 # b1 # b0 # p \<Rightarrow>
                      let len = unat b3 * 2 ^ 24 + unat b2 * 2 ^ 16 + unat b1 * 2 ^ 8 + unat b0
                      in if strict \<and> len \<le> 0xffffff then None else Some (len, p)
                  | _ \<Rightarrow> None)
            else None)
      in case res of
           None \<Rightarrow> (from', None)
         | Some (len, p) \<Rightarrow> if len \<le> length p then (p, Some len) else (from', None))"

definition ccder_blob_decode_len_strict :: "bytes \<Rightarrow> bytes \<times> nat option" where
  "ccder_blob_decode_len_strict from' = ccder_blob_decode_len_internal True from'"

definition ccder_blob_decode_len :: "bytes \<Rightarrow> bytes \<times> nat option" where
  "ccder_blob_decode_len from' = ccder_blob_decode_len_internal False from'"

definition ccder_blob_decode_tl_internal :: "bool \<Rightarrow> bytes \<Rightarrow> ccder_tag \<Rightarrow> bytes \<times> nat option" where
  "ccder_blob_decode_tl_internal strict from' expected_tag =
     (case ccder_blob_decode_tag from' of
        (from', None) \<Rightarrow> (from', None)
      | (from', Some tag) \<Rightarrow>
          if tag \<noteq> expected_tag then (from', None)
          else if strict then ccder_blob_decode_len_strict from' else ccder_blob_decode_len from')"

definition ccder_blob_decode_tl_strict :: "bytes \<Rightarrow> ccder_tag \<Rightarrow> bytes \<times> nat option" where
  "ccder_blob_decode_tl_strict from' expected_tag = ccder_blob_decode_tl_internal True from' expected_tag"

definition ccder_blob_decode_tl :: "bytes \<Rightarrow> ccder_tag \<Rightarrow> bytes \<times> nat option" where
  "ccder_blob_decode_tl from' expected_tag = ccder_blob_decode_tl_internal False from' expected_tag"

section \<open>Ranges, sequences, integers\<close>

definition ccder_blob_decode_range_internal :: "bool \<Rightarrow> bytes \<Rightarrow> ccder_tag \<Rightarrow> bytes \<times> bytes option" where
  "ccder_blob_decode_range_internal strict from' expected_tag =
     (case ccder_blob_decode_tl_internal strict from' expected_tag of
        (from', Some len) \<Rightarrow> (drop len from', Some (take len from'))
      | (from', None) \<Rightarrow> (from', None))"

definition ccder_blob_decode_range :: "bytes \<Rightarrow> ccder_tag \<Rightarrow> bytes \<times> bytes option" where
  "ccder_blob_decode_range from' expected_tag = ccder_blob_decode_range_internal False from' expected_tag"

definition ccder_blob_decode_range_strict :: "bytes \<Rightarrow> ccder_tag \<Rightarrow> bytes \<times> bytes option" where
  "ccder_blob_decode_range_strict from' expected_tag = ccder_blob_decode_range_internal True from' expected_tag"

definition ccder_blob_decode_sequence_tl_strict :: "bytes \<Rightarrow> bytes \<times> bytes option" where
  "ccder_blob_decode_sequence_tl_strict from' = ccder_blob_decode_range_strict from' CCDER_CONSTRUCTED_SEQUENCE"

definition ccder_blob_decode_sequence_tl :: "bytes \<Rightarrow> bytes \<times> bytes option" where
  "ccder_blob_decode_sequence_tl from' = ccder_blob_decode_range from' CCDER_CONSTRUCTED_SEQUENCE"

definition ccder_blob_decode_uint_skip_leading_zeroes :: "bytes \<Rightarrow> bytes option" where
  "ccder_blob_decode_uint_skip_leading_zeroes from' =
     (case from' of
        [] \<Rightarrow> None
      | b # p \<Rightarrow>
          if b AND 0x80 \<noteq> 0 then None
          else if b = 0
          then (case p of [] \<Rightarrow> Some [] | c # _ \<Rightarrow> if c AND 0x80 = 0 then None else Some p)
          else Some from')"

definition ccder_blob_decode_uint_range :: "bytes \<Rightarrow> nat \<Rightarrow> units option" where
  "ccder_blob_decode_uint_range int_blob n =
     (case ccder_blob_decode_uint_skip_leading_zeroes int_blob of
        None \<Rightarrow> None
      | Some int_blob \<Rightarrow> (case ccn_read_uint n int_blob of Inl _ \<Rightarrow> None | Inr r \<Rightarrow> Some r))"

definition ccder_blob_decode_uint_strict :: "bytes \<Rightarrow> nat \<Rightarrow> bytes \<times> units option" where
  "ccder_blob_decode_uint_strict from' n =
     (case ccder_blob_decode_range_strict from' CCDER_INTEGER of
        (from', None) \<Rightarrow> (from', None)
      | (from', Some int_blob) \<Rightarrow> (from', ccder_blob_decode_uint_range int_blob n))"

definition ccder_blob_decode_uint :: "bytes \<Rightarrow> nat \<Rightarrow> bytes \<times> units option" where
  "ccder_blob_decode_uint from' n =
     (case ccder_blob_decode_range from' CCDER_INTEGER of
        (from', None) \<Rightarrow> (from', None)
      | (from', Some int_blob) \<Rightarrow> (from', ccder_blob_decode_uint_range int_blob n))"

fun ccder_uint64_loop :: "cc_unit \<Rightarrow> bytes \<Rightarrow> cc_unit" where
  "ccder_uint64_loop v [] = v"
| "ccder_uint64_loop v (b # bs) = ccder_uint64_loop (push_bit 8 v OR ucast b) bs"

definition ccder_blob_decode_uint64 :: "bytes \<Rightarrow> bytes \<times> cc_unit option" where
  "ccder_blob_decode_uint64 from' =
     (case ccder_blob_decode_range from' CCDER_INTEGER of
        (from', None) \<Rightarrow> (from', None)
      | (from', Some int_blob) \<Rightarrow>
          (case ccder_blob_decode_uint_skip_leading_zeroes int_blob of
             None \<Rightarrow> (from', None)
           | Some int_blob \<Rightarrow>
               if 8 < length int_blob then (from', None)
               else (from', Some (ccder_uint64_loop 0 int_blob))))"

definition ccder_blob_decode_uint_n :: "bytes \<Rightarrow> bytes \<times> nat option" where
  "ccder_blob_decode_uint_n from' =
     (case ccder_blob_decode_range from' CCDER_INTEGER of
        (from', None) \<Rightarrow> (from', None)
      | (from', Some int_blob) \<Rightarrow>
          (case ccder_blob_decode_uint_skip_leading_zeroes int_blob of
             None \<Rightarrow> (from', None)
           | Some int_blob \<Rightarrow> (from', Some ((length int_blob + 8 - 1) div 8))))"

text \<open>A decoded OID is a pointer to its tag: the bytes from there on.\<close>

definition ccder_blob_decode_oid :: "bytes \<Rightarrow> bytes \<times> bytes option" where
  "ccder_blob_decode_oid from' =
     (let oid = from'
      in case ccder_blob_decode_range from' CCDER_OBJECT_IDENTIFIER of
           (from', None) \<Rightarrow> (from', None)
         | (from', Some skip_range) \<Rightarrow> (from', Some oid))"

definition ccder_blob_decode_bitstring :: "bytes \<Rightarrow> bytes \<times> (bytes \<times> nat) option" where
  "ccder_blob_decode_bitstring from' =
     (case ccder_blob_decode_range from' CCDER_BIT_STRING of
        (from', None) \<Rightarrow> (from', None)
      | (from', Some bit_range) \<Rightarrow>
          (case bit_range of
             [] \<Rightarrow> (from', Some ([], 0))
           | unused # rest \<Rightarrow>
               (from', Some (rest, if unat unused \<le> length rest * 8 then length rest * 8 - unat unused else 0))))"

definition ccder_blob_decode_seqii_internal :: "bool \<Rightarrow> bytes \<Rightarrow> nat \<Rightarrow> bytes \<times> (units \<times> units) option" where
  "ccder_blob_decode_seqii_internal strict from' n =
     (let sequence_tl = (if strict then ccder_blob_decode_sequence_tl_strict else ccder_blob_decode_sequence_tl);
          uint' = (if strict then ccder_blob_decode_uint_strict else ccder_blob_decode_uint)
      in case sequence_tl from' of
           (from', None) \<Rightarrow> (from', None)
         | (from', Some seq) \<Rightarrow>
             (case uint' seq n of
                (seq, None) \<Rightarrow> (from', None)
              | (seq, Some r) \<Rightarrow>
                  (case uint' seq n of
                     (seq, None) \<Rightarrow> (from', None)
                   | (seq, Some s) \<Rightarrow> if seq \<noteq> [] then (from', None) else (from', Some (r, s)))))"

definition ccder_blob_decode_seqii_strict :: "bytes \<Rightarrow> nat \<Rightarrow> bytes \<times> (units \<times> units) option" where
  "ccder_blob_decode_seqii_strict from' n = ccder_blob_decode_seqii_internal True from' n"

definition ccder_blob_decode_seqii :: "bytes \<Rightarrow> nat \<Rightarrow> bytes \<times> (units \<times> units) option" where
  "ccder_blob_decode_seqii from' n = ccder_blob_decode_seqii_internal False from' n"

text \<open>The outputs of \<open>ccder_blob_decode_eckey\<close>; null pointers are \<open>None\<close> and the empty string.\<close>

record ccder_eckey =
  eckey_version :: cc_unit
  priv_key :: bytes
  eckey_oid :: "bytes option"
  pub_key :: bytes
  pub_key_bit_count :: nat

definition ccder_blob_decode_eckey :: "bytes \<Rightarrow> bytes \<times> ccder_eckey option" where
  "ccder_blob_decode_eckey from' =
     (case ccder_blob_decode_sequence_tl from' of
        (from', None) \<Rightarrow> (from', None)
      | (from', Some seq) \<Rightarrow>
          (from',
           (case ccder_blob_decode_uint64 seq of
              (seq, None) \<Rightarrow> None
            | (seq, Some version) \<Rightarrow>
                if version \<noteq> 1 then None
                else (case ccder_blob_decode_range seq CCDER_OCTET_STRING of
                  (seq, None) \<Rightarrow> None
                | (seq, Some priv) \<Rightarrow>
                    (case (case ccder_blob_decode_range seq (CCDER_CONTEXT_SPECIFIC OR CCDER_CONSTRUCTED OR 0) of
                             (_, None) \<Rightarrow> Some (seq, None)
                           | (at_oid, Some inner_blob) \<Rightarrow>
                               (case ccder_blob_decode_oid inner_blob of
                                  (_, Some oid) \<Rightarrow> Some (at_oid, Some oid)
                                | (_, None) \<Rightarrow> None)) of
                       None \<Rightarrow> None
                     | Some (seq, oid) \<Rightarrow>
                         (case ccder_blob_decode_range seq (CCDER_CONTEXT_SPECIFIC OR CCDER_CONSTRUCTED OR 1) of
                            (_, None) \<Rightarrow>
                              Some \<lparr>eckey_version = version, priv_key = priv, eckey_oid = oid,
                                    pub_key = [], pub_key_bit_count = 0\<rparr>
                          | (at_pub_key, Some inner_blob) \<Rightarrow>
                              (case ccder_blob_decode_bitstring inner_blob of
                                 (_, Some (bits, count)) \<Rightarrow>
                                   Some \<lparr>eckey_version = version, priv_key = priv, eckey_oid = oid,
                                         pub_key = bits, pub_key_bit_count = count\<rparr>
                               | (_, None) \<Rightarrow> None)))))))"

section \<open>Lengths: round trip and canonicity\<close>

lemma unat_byte_of_nat [simp]: "unat (of_nat l :: byte) = l mod 256"
  by (simp add: unat_of_nat)

lemma base256_split: "(l :: nat) = 256 * (l div 256) + l mod 256"
  by simp

lemma base256_3:
  assumes "l < 16777216"
  shows "l div 65536 mod 256 * 65536 + l div 256 mod 256 * 256 + l mod 256 = (l :: nat)"
proof -
  have "l div 65536 = l div 256 div 256" by (simp flip: div_mult2_eq)
  moreover have "l div 256 div 256 < 256" using assms by (simp add: less_mult_imp_div_less)
  ultimately show ?thesis
    using base256_split [of l] base256_split [of "l div 256"] by (simp only: mod_less)
qed

lemma base256_4:
  assumes "l < 4294967296"
  shows "l div 16777216 mod 256 * 16777216 + l div 65536 mod 256 * 65536 + l div 256 mod 256 * 256 + l mod 256 = (l :: nat)"
proof -
  have "l div 16777216 = l div 256 div 65536" "l div 65536 = l div 256 div 256" by (simp_all flip: div_mult2_eq)
  moreover have lt: "l div 256 < 16777216" using assms by (simp add: less_mult_imp_div_less)
  then have "l div 256 div 65536 < 256" by (simp add: less_mult_imp_div_less)
  ultimately show ?thesis
    using base256_split [of l] base256_3 [OF lt] by (simp only: mod_less)
qed

lemma base256_digits:
  fixes a b c :: nat
  assumes "c < 256"
  shows "(a * 256 + c) div 256 = a" "(a * 256 + c) mod 256 = c"
  using assms by simp_all

lemma ccder_decode_len_bytes:
  assumes "l \<le> 0xffffffff" "l \<le> length rest"
  shows "ccder_blob_decode_len_internal strict (len_bytes l @ rest) = (rest, Some l)"
proof -
  consider "l \<le> 0x7f" | "0x7f < l" "l \<le> 0xff" | "0xff < l" "l \<le> 0xffff" | "0xffff < l" "l \<le> 0xffffff"
    | "0xffffff < l" "l \<le> 0xffffffff" using assms(1) by linarith
  then show ?thesis
  proof cases
    case 1
    then show ?thesis using assms(2) by (simp add: len_bytes_def ccder_blob_decode_len_internal_def)
  next
    case 2
    then show ?thesis using assms(2) by (simp add: len_bytes_def ccder_blob_decode_len_internal_def)
  next
    case 3
    then have "l div 2 ^ 8 mod 256 * 2 ^ 8 + l mod 256 = l" by (simp add: less_mult_imp_div_less)
    with 3 show ?thesis using assms(2) by (simp add: len_bytes_def ccder_blob_decode_len_internal_def)
  next
    case 4
    then have "l div 65536 mod 256 * 65536 + l div 256 mod 256 * 256 + l mod 256 = l" by (intro base256_3) simp
    with 4 show ?thesis using assms(2) by (simp add: len_bytes_def ccder_blob_decode_len_internal_def)
  next
    case 5
    then have "l div 16777216 mod 256 * 16777216 + l div 65536 mod 256 * 65536 + l div 256 mod 256 * 256 + l mod 256 = l"
      by (intro base256_4) simp
    with 5 show ?thesis using assms(2) by (simp add: len_bytes_def ccder_blob_decode_len_internal_def)
  qed
qed

lemma byte_of_nat_digit: "l mod 256 = unat b \<Longrightarrow> (of_nat l :: byte) = b"
  by (simp add: word_unat_eq_iff)

lemma byte_lt: "unat (b :: byte) < 256"
  using word_bound [of b] by simp

text \<open>The strict decoder accepts the shortest form only.\<close>

lemma ccder_decode_len_strict_canonical:
  assumes "ccder_blob_decode_len_internal True bs = (rest, Some l)"
  shows "bs = len_bytes l @ rest" "l \<le> length rest" "l \<le> 0xffffffff"
proof -
  obtain b p where bs: "bs = b # p"
    using assms by (cases bs) (auto simp: ccder_blob_decode_len_internal_def)
  have digits: "unat x < 256" for x :: byte by (rule byte_lt)
  have "bs = len_bytes l @ rest \<and> l \<le> length rest \<and> l \<le> 0xffffffff"
  proof (cases "unat b < 0x80")
    case True
    then show ?thesis
      using assms by (auto simp: bs ccder_blob_decode_len_internal_def len_bytes_def split: if_splits)
  next
    case False
    then consider "b = 0x81" | "b = 0x82" | "b = 0x83" | "b = 0x84"
      using assms by (auto simp: bs ccder_blob_decode_len_internal_def split: if_splits)
    then show ?thesis
    proof cases
      case 1
      then obtain b0 q where p: "p = b0 # q"
        using assms by (cases p) (auto simp: bs ccder_blob_decode_len_internal_def)
      have "\<not> unat b0 < 0x80 \<and> unat b0 \<le> length q \<and> rest = q \<and> l = unat b0"
        using assms 1 p by (auto simp: bs ccder_blob_decode_len_internal_def Let_def split: if_splits)
      then show ?thesis using 1 p digits [of b0] by (simp add: bs len_bytes_def)
    next
      case 2
      then obtain b1 b0 q where p: "p = b1 # b0 # q"
        using assms by (auto simp: bs ccder_blob_decode_len_internal_def split: list.splits)
      define v where "v = unat b1 * 256 + unat b0"
      have v: "v div 256 = unat b1" "v mod 256 = unat b0" "v < 65536"
        using digits [of b0] digits [of b1] unfolding v_def by simp_all
      have "\<not> v \<le> 0xff \<and> v \<le> length q \<and> rest = q \<and> l = v"
        using assms 2 p unfolding v_def
        by (auto simp: bs ccder_blob_decode_len_internal_def Let_def split: if_splits)
      then show ?thesis using 2 p v by (simp add: bs len_bytes_def word_unat_eq_iff)
    next
      case 3
      then obtain b2 b1 b0 q where p: "p = b2 # b1 # b0 # q"
        using assms by (auto simp: bs ccder_blob_decode_len_internal_def split: list.splits)
      define v where "v = unat b2 * 65536 + unat b1 * 256 + unat b0"
      have v: "v div 65536 = unat b2" "v div 256 mod 256 = unat b1" "v mod 256 = unat b0" "v < 16777216"
      proof -
        have e: "v = (unat b2 * 256 + unat b1) * 256 + unat b0" by (simp add: v_def)
        have "v div 65536 = v div 256 div 256" by (simp flip: div_mult2_eq)
        then show "v div 65536 = unat b2" "v div 256 mod 256 = unat b1" "v mod 256 = unat b0"
          unfolding e by (simp_all only: base256_digits [OF digits])
        show "v < 16777216" using digits [of b0] digits [of b1] digits [of b2] unfolding v_def by linarith
      qed
      have "\<not> v \<le> 0xffff \<and> v \<le> length q \<and> rest = q \<and> l = v"
        using assms 3 p unfolding v_def
        by (auto simp: bs ccder_blob_decode_len_internal_def Let_def split: if_splits)
      then show ?thesis using 3 p v digits [of b2] by (simp add: bs len_bytes_def word_unat_eq_iff)
    next
      case 4
      then obtain b3 b2 b1 b0 q where p: "p = b3 # b2 # b1 # b0 # q"
        using assms by (auto simp: bs ccder_blob_decode_len_internal_def split: list.splits)
      define v where "v = unat b3 * 16777216 + unat b2 * 65536 + unat b1 * 256 + unat b0"
      have v: "v div 16777216 = unat b3" "v div 65536 mod 256 = unat b2" "v div 256 mod 256 = unat b1"
          "v mod 256 = unat b0" "v \<le> 0xffffffff"
      proof -
        have e: "v = ((unat b3 * 256 + unat b2) * 256 + unat b1) * 256 + unat b0" by (simp add: v_def)
        have "v div 65536 = v div 256 div 256" "v div 16777216 = v div 256 div 256 div 256"
          by (simp_all flip: div_mult2_eq)
        then show "v div 16777216 = unat b3" "v div 65536 mod 256 = unat b2" "v div 256 mod 256 = unat b1"
          "v mod 256 = unat b0"
          unfolding e by (simp_all only: base256_digits [OF digits])
        show "v \<le> 0xffffffff"
          using digits [of b0] digits [of b1] digits [of b2] digits [of b3] unfolding v_def by linarith
      qed
      have "\<not> v \<le> 0xffffff \<and> v \<le> length q \<and> rest = q \<and> l = v"
        using assms 4 p unfolding v_def
        by (auto simp: bs ccder_blob_decode_len_internal_def Let_def split: if_splits)
      then show ?thesis using 4 p v digits [of b3] by (simp add: bs len_bytes_def word_unat_eq_iff)
    qed
  qed
  then show "bs = len_bytes l @ rest" "l \<le> length rest" "l \<le> 0xffffffff" by simp_all
qed

section \<open>Tags: round trip\<close>

lemma tag_constants:
  "(0x1f :: 64 word) = mask 5" "(0x1f :: byte) = mask 5" "(0xe0 :: byte) = push_bit 5 (mask 3)"
  "(0xe0 :: 64 word) = push_bit 5 (mask 3)" "(0x7f :: byte) = mask 7" "(0x7f :: 64 word) = mask 7"
  "(0x80 :: byte) = push_bit 7 1"
  by code_simp+

lemma bit_0x80: "bit (0x80 :: byte) n \<longleftrightarrow> n = 7"
  unfolding tag_constants by (simp only: bit_push_bit_iff bit_1_iff) auto

lemma bit_or_0x80: "bit (x OR 0x80 :: byte) n \<longleftrightarrow> bit x n \<or> n = 7"
  by (simp only: bit_or_iff bit_0x80)

lemma bit_low_byte: "bit (ucast (x AND mask 7 :: byte) :: 64 word) n \<longleftrightarrow> n < 7 \<and> bit x n"
  by (auto simp: bit_ucast_iff bit_and_iff bit_mask_iff)

lemma ccder_tag_loop_step:
  fixes N :: ccder_tag
  shows "ccder_blob_decode_tag_loop (drop_bit (k + 7) N) ((ucast (drop_bit k N) OR 0x80) # rest) =
    ccder_blob_decode_tag_loop (drop_bit k N) rest"
proof -
  have m: "drop_bit (k + 7) N AND push_bit (64 - 7) 0x7f = 0"
    unfolding tag_constants
    by (rule bit_word_eqI) (auto simp: bit_simps dest: bit_imp_le_length)
  have c: "(ucast (drop_bit k N) OR 0x80 :: byte) AND 0x80 \<noteq> 0"
  proof -
    have "bit ((ucast (drop_bit k N) OR 0x80 :: byte) AND 0x80) 7"
      by (simp only: bit_and_iff bit_or_iff bit_0x80 simp_thms)
    then show ?thesis by auto
  qed
  have e: "push_bit 7 (drop_bit (k + 7) N) OR ucast ((ucast (drop_bit k N) OR 0x80 :: byte) AND 0x7f) = drop_bit k N"
    unfolding tag_constants(5)
  proof (rule bit_word_eqI)
    fix n :: nat
    assume "n < LENGTH(64)"
    then show "bit (push_bit 7 (drop_bit (k + 7) N) OR ucast ((ucast (drop_bit k N) OR 0x80 :: byte) AND mask 7)) n
        = bit (drop_bit k N) n"
      unfolding bit_or_iff [of _ "ucast _"] bit_low_byte
      unfolding bit_or_0x80
      by (cases "n < 7") (auto simp: bit_or_iff bit_push_bit_iff bit_drop_bit_eq bit_ucast_iff add.commute)
  qed
  show ?thesis unfolding ccder_blob_decode_tag_loop.simps Let_def e using m c by simp
qed

lemma ccder_tag_loop_last:
  fixes N :: ccder_tag
  shows "ccder_blob_decode_tag_loop (drop_bit 7 N) (ucast (N AND 0x7f) # rest) = Some (N, rest)"
proof -
  have m: "drop_bit 7 N AND push_bit (64 - 7) 0x7f = 0"
    unfolding tag_constants
    by (rule bit_word_eqI) (auto simp: bit_simps dest: bit_imp_le_length)
  have c: "(ucast (N AND 0x7f) :: byte) AND 0x80 = 0"
    unfolding tag_constants(6)
    by (rule bit_word_eqI, simp only: bit_and_iff bit_ucast_iff bit_mask_iff bit_0x80) auto
  have e: "push_bit 7 (drop_bit 7 N) OR ucast ((ucast (N AND 0x7f) :: byte) AND 0x7f) = N"
    unfolding tag_constants(5,6)
  proof (rule bit_word_eqI)
    fix n :: nat
    assume "n < LENGTH(64)"
    then show "bit (push_bit 7 (drop_bit 7 N) OR ucast ((ucast (N AND mask 7) :: byte) AND mask 7)) n = bit N n"
      unfolding bit_or_iff [of _ "ucast _"] bit_low_byte
      by (cases "n < 7") (auto simp: bit_and_iff bit_mask_iff bit_push_bit_iff bit_drop_bit_eq bit_ucast_iff)
  qed
  show ?thesis unfolding ccder_blob_decode_tag_loop.simps Let_def e using m c by simp
qed

lemma ccder_tag_loop_num:
  assumes "N < 2 ^ 35"
  shows "ccder_blob_decode_tag_loop 0 (tag_num_bytes N @ rest) = Some (N, rest)"
proof -
  have z: "drop_bit k N = 0" if "unat N < 2 ^ k" for k
    using that by (simp add: word_unat_eq_iff unat_drop_bit_div)
  have N: "unat N < 2 ^ 35" using assms by (simp add: word_less_nat_alt)
  have last: "ccder_blob_decode_tag_loop (drop_bit 7 N) (ucast (N AND 0x7f) # rest) = Some (N, rest)"
    by (rule ccder_tag_loop_last)
  have s7: "ccder_blob_decode_tag_loop (drop_bit 14 N) ((ucast (drop_bit 7 N) OR 0x80) # xs) =
      ccder_blob_decode_tag_loop (drop_bit 7 N) xs" for xs using ccder_tag_loop_step [of 7 N xs] by simp
  have s14: "ccder_blob_decode_tag_loop (drop_bit 21 N) ((ucast (drop_bit 14 N) OR 0x80) # xs) =
      ccder_blob_decode_tag_loop (drop_bit 14 N) xs" for xs using ccder_tag_loop_step [of 14 N xs] by simp
  have s21: "ccder_blob_decode_tag_loop (drop_bit 28 N) ((ucast (drop_bit 21 N) OR 0x80) # xs) =
      ccder_blob_decode_tag_loop (drop_bit 21 N) xs" for xs using ccder_tag_loop_step [of 21 N xs] by simp
  have s28: "ccder_blob_decode_tag_loop (drop_bit 35 N) ((ucast (drop_bit 28 N) OR 0x80) # xs) =
      ccder_blob_decode_tag_loop (drop_bit 28 N) xs" for xs using ccder_tag_loop_step [of 28 N xs] by simp
  have le: "N \<le> 0x7f \<longleftrightarrow> unat N < 2 ^ 7" "0x3fff < N \<longleftrightarrow> \<not> unat N < 2 ^ 14"
    "0x1fffff < N \<longleftrightarrow> \<not> unat N < 2 ^ 21" "0xfffffff < N \<longleftrightarrow> \<not> unat N < 2 ^ 28"
    by (auto simp: word_le_nat_alt word_less_nat_alt)
  consider "unat N < 2 ^ 7" | "\<not> unat N < 2 ^ 7" "unat N < 2 ^ 14" | "\<not> unat N < 2 ^ 14" "unat N < 2 ^ 21"
    | "\<not> unat N < 2 ^ 21" "unat N < 2 ^ 28" | "\<not> unat N < 2 ^ 28" by blast
  then show ?thesis
  proof cases
    case 1
    have "N = N AND 0x7f"
      using 1 unfolding tag_constants(6) by (simp add: word_unat_eq_iff unat_and_mask)
    with last z [OF 1] 1 show ?thesis by (simp add: tag_num_bytes_def le del: ccder_blob_decode_tag_loop.simps)
  next
    case 2
    then show ?thesis using last s7 z [OF 2(2)] by (simp add: tag_num_bytes_def le del: ccder_blob_decode_tag_loop.simps)
  next
    case 3
    then show ?thesis using last s7 s14 z [OF 3(2)] by (simp add: tag_num_bytes_def le del: ccder_blob_decode_tag_loop.simps)
  next
    case 4
    then show ?thesis using last s7 s14 s21 z [OF 4(2)] by (simp add: tag_num_bytes_def le del: ccder_blob_decode_tag_loop.simps)
  next
    case 5
    then show ?thesis using last s7 s14 s21 s28 z [OF N] by (simp add: tag_num_bytes_def le del: ccder_blob_decode_tag_loop.simps)
  qed
qed

lemma tagnum_mask_bit: "bit CCDER_TAGNUM_MASK n \<longleftrightarrow> n < 61"
proof -
  have "(7 :: ccder_tag) = mask 3" by (simp add: mask_eq_exp_minus_1)
  then show ?thesis
    by (simp only: CCDER_TAGNUM_MASK_def bit_not_iff bit_push_bit_iff bit_mask_iff) auto
qed

lemma tag_high_bits:
  "push_bit ((8 - 1) * 8) (x AND 0xe0) OR (tag AND CCDER_TAGNUM_MASK) = tag"
  if "\<And>n. 5 \<le> n \<Longrightarrow> n < 8 \<Longrightarrow> bit x n \<longleftrightarrow> bit tag (56 + n)" for x tag :: ccder_tag
proof (rule bit_word_eqI)
  fix n :: nat
  assume "n < LENGTH(64)"
  then show "bit (push_bit ((8 - 1) * 8) (x AND 0xe0) OR (tag AND CCDER_TAGNUM_MASK)) n \<longleftrightarrow> bit tag n"
    using that [of "n - 56"] unfolding tag_constants(4)
    by (auto simp: bit_or_iff bit_push_bit_iff bit_and_iff bit_mask_iff tagnum_mask_bit)
qed

text \<open>Every tag whose number fits 35 bits decodes to itself.\<close>

lemma ccder_decode_tag_bytes:
  assumes "tag AND CCDER_TAGNUM_MASK < 2 ^ 35"
  shows "ccder_blob_decode_tag (tag_bytes tag @ rest) = (rest, Some tag)"
proof -
  define N where "N = tag AND CCDER_TAGNUM_MASK"
  define t0 where "t0 = (ucast (drop_bit 56 tag) :: byte)"
  have t0: "bit t0 n \<longleftrightarrow> n < 8 \<and> bit tag (56 + n)" for n
    by (auto simp: t0_def bit_ucast_iff bit_drop_bit_eq)
  show ?thesis
  proof (cases "N < 0x1f")
    case True
    have N5: "n < 5" if b: "bit N n" for n
    proof -
      have "unat N < 2 ^ 5" using True by (simp add: word_less_nat_alt)
      then have "N = N AND mask 5" by (simp add: word_unat_eq_iff unat_and_mask)
      with b show "n < 5" by (metis bit_and_iff bit_mask_iff)
    qed
    define x where "x = (ucast ((t0 AND 0xe0) OR ucast N) :: ccder_tag)"
    have x: "bit x n \<longleftrightarrow> n < 8 \<and> (5 \<le> n \<and> bit t0 n \<or> bit N n)" for n
      using N5 [of n] unfolding x_def tag_constants(3)
      by (cases "bit N n") (auto simp: bit_ucast_iff bit_or_iff bit_and_iff bit_push_bit_iff bit_mask_iff)
    have n: "x AND 0x1f = N"
      unfolding tag_constants(1) by (rule bit_word_eqI) (use N5 in \<open>fastforce simp: bit_and_iff bit_mask_iff x\<close>)
    have h: "push_bit ((8 - 1) * 8) (x AND 0xe0) OR N = tag"
      unfolding N_def by (rule tag_high_bits) (use N5 x t0 in fastforce)
    have "tag_bytes tag = [(t0 AND 0xe0) OR ucast N]"
      using True by (simp add: tag_bytes_def N_def t0_def)
    moreover have "N \<noteq> 0x1f" using True by auto
    ultimately show ?thesis using n h by (simp add: ccder_blob_decode_tag_def flip: x_def)
  next
    case False
    define x where "x = (ucast (t0 OR 0x1f) :: ccder_tag)"
    have x: "bit x n \<longleftrightarrow> n < 8 \<and> (bit t0 n \<or> n < 5)" for n
      unfolding x_def tag_constants(2) by (auto simp: bit_ucast_iff bit_or_iff bit_mask_iff t0)
    have n: "x AND 0x1f = 0x1f"
      unfolding tag_constants(1) by (rule bit_word_eqI) (auto simp: bit_and_iff bit_mask_iff x)
    have h: "push_bit ((8 - 1) * 8) (x AND 0xe0) OR N = tag"
      unfolding N_def by (rule tag_high_bits) (use x t0 in auto)
    have m: "N AND push_bit 4 (push_bit (64 - 7) 0x7f) = 0"
      unfolding tag_constants(6) N_def
      by (rule bit_word_eqI) (auto simp: bit_and_iff bit_push_bit_iff bit_mask_iff tagnum_mask_bit)
    have tb: "tag_bytes tag = (t0 OR 0x1f) # tag_num_bytes N"
      using False by (simp add: tag_bytes_def N_def t0_def)
    have loop: "ccder_blob_decode_tag_loop 0 (tag_num_bytes N @ rest) = Some (N, rest)"
      by (rule ccder_tag_loop_num) (use assms N_def in simp)
    show ?thesis
      unfolding tb ccder_blob_decode_tag_def append_Cons list.case Let_def x_def [symmetric]
      using n h m loop by simp
  qed
qed

section \<open>Items: round trips\<close>

abbreviation tag_ok :: "ccder_tag \<Rightarrow> bool" where
  "tag_ok tag \<equiv> tag AND CCDER_TAGNUM_MASK < 2 ^ 35"

lemma tag_ok_constants [simp]:
  "tag_ok CCDER_INTEGER" "tag_ok CCDER_BIT_STRING" "tag_ok CCDER_OCTET_STRING"
  "tag_ok CCDER_OBJECT_IDENTIFIER" "tag_ok CCDER_CONSTRUCTED_SEQUENCE"
  "tag_ok (CCDER_CONTEXT_SPECIFIC OR CCDER_CONSTRUCTED)"
  "tag_ok (CCDER_CONTEXT_SPECIFIC OR CCDER_CONSTRUCTED OR 1)"
  by code_simp+

lemma ccder_decode_range_tlv:
  assumes "tag_ok tag" "length body \<le> 0xffffffff"
  shows "ccder_blob_decode_range_internal strict (tlv tag body @ rest) tag = (rest, Some body)"
  using ccder_decode_tag_bytes [OF assms(1), of "len_bytes (length body) @ body @ rest"]
    ccder_decode_len_bytes [OF assms(2), of "body @ rest"]
  by (simp add: tlv_def ccder_blob_decode_range_internal_def ccder_blob_decode_tl_internal_def
      ccder_blob_decode_len_strict_def ccder_blob_decode_len_def)

lemma ccder_decode_range_other:
  assumes "tag_ok tag" "tag \<noteq> expected"
  shows "snd (ccder_blob_decode_range_internal strict (tlv tag body @ rest) expected) = None"
  using ccder_decode_tag_bytes [OF assms(1), of "len_bytes (length body) @ body @ rest"] assms(2)
  by (simp add: tlv_def ccder_blob_decode_range_internal_def ccder_blob_decode_tl_internal_def)

text \<open>What a range decoder returns is taken from its input, in order.\<close>

lemma ccder_tag_loop_suffix:
  "ccder_blob_decode_tag_loop num bs = Some (num', rest) \<Longrightarrow> \<exists>h. bs = h @ rest"
proof (induction num bs arbitrary: num' rest rule: ccder_blob_decode_tag_loop.induct)
  case (2 num v p)
  show ?case
  proof (cases "v AND 0x80 \<noteq> 0")
    case True
    with 2 obtain h where "p = h @ rest" by (auto simp: Let_def split: if_splits)
    then have "v # p = (v # h) @ rest" by simp
    then show ?thesis by blast
  next
    case False
    with 2(2) have "v # p = [v] @ rest" by (auto simp: Let_def split: if_splits)
    then show ?thesis by blast
  qed
qed simp

lemma ccder_decode_tag_suffix: "ccder_blob_decode_tag bs = (rest, res) \<Longrightarrow> \<exists>h. bs = h @ rest"
  by (auto simp: ccder_blob_decode_tag_def Let_def dest: ccder_tag_loop_suffix
      split: list.splits option.splits if_splits prod.splits)

lemma ccder_decode_len_suffix:
  assumes "ccder_blob_decode_len_internal strict bs = (rest, Some l)"
  shows "\<exists>h. bs = h @ rest \<and> l \<le> length rest"
  using assms
  by (auto simp: ccder_blob_decode_len_internal_def Let_def
      split: list.splits option.splits if_splits prod.splits)

lemma ccder_decode_range_bounds:
  assumes "ccder_blob_decode_range_internal strict bs tag = (rest, Some body)"
  shows "\<exists>h. bs = h @ body @ rest"
proof -
  obtain p where tag: "ccder_blob_decode_tag bs = (p, Some tag)"
    and len: "\<exists>q l. ccder_blob_decode_len_internal strict p = (q, Some l) \<and> rest = drop l q \<and> body = take l q"
    using assms
    by (auto simp: ccder_blob_decode_range_internal_def ccder_blob_decode_tl_internal_def
        ccder_blob_decode_len_strict_def ccder_blob_decode_len_def split: prod.splits option.splits if_splits)
  from len obtain q l where q: "ccder_blob_decode_len_internal strict p = (q, Some l)"
    "rest = drop l q" "body = take l q" by blast
  from ccder_decode_tag_suffix [OF tag] ccder_decode_len_suffix [OF q(1)] show ?thesis
    by (auto simp: q(2,3))
qed

section \<open>Integers\<close>

lemma sign_bit: "(b :: byte) AND 0x80 = 0 \<longleftrightarrow> unat b < 0x80"
proof -
  have "b AND 0x80 = 0 \<longleftrightarrow> \<not> bit b 7"
  proof
    assume z: "b AND 0x80 = 0"
    have "bit (b AND 0x80) 7 \<longleftrightarrow> bit b 7" by (simp only: bit_and_iff bit_0x80 simp_thms)
    with z show "\<not> bit b 7" by simp
  next
    assume "\<not> bit b 7"
    then show "b AND 0x80 = 0"
      by (intro bit_word_eqI, simp only: bit_and_iff bit_0x80) auto
  qed
  moreover have "unat b div 2 ^ 7 < 2" using byte_lt [of b] by (simp add: less_mult_imp_div_less)
  then have "unat b div 2 ^ 7 = 0 \<or> unat b div 2 ^ 7 = 1" by auto
  ultimately show ?thesis unfolding bit_unat_iff by (auto simp: div_eq_0_iff)
qed

lemma muladd_less: "a < P \<Longrightarrow> b < Q \<Longrightarrow> a + P * b < P * (Q :: nat)"
proof -
  assume "a < P" "b < Q"
  then have "a + P * b < P * Suc b" "P * Suc b \<le> P * Q"
    by (simp, intro mult_le_mono2, simp)
  then show ?thesis by (rule order_less_le_trans)
qed

text \<open>The bit length of a number given by bytes without a leading zero.\<close>

lemma bitlen_of_bytes:
  assumes "length s = n" "n < 2 ^ 58" "ccn_val s = be_val (b # bs)" "b \<noteq> 0"
  shows "ccn_write_uint_size n s = Suc (length bs)"
    "ccn_bitlen n s mod 8 = 0 \<longleftrightarrow> 0x80 \<le> unat b"
proof -
  let ?z = "Suc (length bs)" and ?bl = "ccn_bitlen n s"
  have b: "0 < unat b" using assms(4) by (simp add: unat_gt_0)
  have v: "ccn_val s = unat b * 256 ^ length bs + be_val bs"
    unfolding assms(3) by (rule be_val_Cons)
  have lo: "256 ^ length bs \<le> ccn_val s" using b v by (simp add: trans_le_add1)
  have hi: "ccn_val s < 256 ^ ?z" using be_val_bound [of "b # bs"] assms(3) by simp
  have "ccn_write_uint_size n s \<le> ?z" "\<not> ccn_write_uint_size n s \<le> length bs"
    using ccn_write_uint_size_least [OF assms(1,2)] lo hi by simp_all
  then show z: "ccn_write_uint_size n s = ?z" by simp
  have r: "8 * length bs < ?bl" "?bl \<le> 8 * ?z"
    using ccn_bitlen_le_iff [OF assms(2,1), of "8 * length bs"] ccn_bitlen_le_iff [OF assms(2,1), of "8 * ?z"] lo hi
    unfolding pow_256 by linarith+
  have "?bl mod 8 = 0 \<longleftrightarrow> \<not> ?bl \<le> 8 * length bs + 7" using r by presburger
  also have "\<dots> \<longleftrightarrow> \<not> ccn_val s < 2 ^ 7 * 256 ^ length bs"
    unfolding ccn_bitlen_le_iff [OF assms(2,1)] by (simp add: pow_256 power_add mult.commute)
  also have "\<dots> \<longleftrightarrow> 0x80 \<le> unat b"
  proof -
    have "ccn_val s < 2 ^ 7 * 256 ^ length bs \<longleftrightarrow> unat b < 2 ^ 7"
    proof
      assume "unat b < 2 ^ 7"
      then show "ccn_val s < 2 ^ 7 * 256 ^ length bs"
        unfolding v using muladd_less [of "be_val bs" "256 ^ length bs" "unat b" "2 ^ 7"] be_val_bound [of bs]
        by (simp add: mult.commute)
    next
      assume "ccn_val s < 2 ^ 7 * 256 ^ length bs"
      then have "unat b * 256 ^ length bs < 2 ^ 7 * 256 ^ length bs" unfolding v by linarith
      then show "unat b < 2 ^ 7" by simp
    qed
    then show ?thesis by auto
  qed
  finally show "?bl mod 8 = 0 \<longleftrightarrow> 0x80 \<le> unat b" .
qed

text \<open>
  The content octets of an encoded number pass the sign check, and what is read back is
  the number.  Conversely the check admits the shortest content octets only.
\<close>

lemma write_uint_bytes:
  assumes "length s = n" "n < 2 ^ 58" "ccn_val s = be_val (b # bs)" "b \<noteq> 0"
  shows "ccn_write_uint n s (ccn_write_uint_size n s) = b # bs"
  using ccn_write_uint_full [OF assms(1,2) order_refl] bitlen_of_bytes(1) [OF assms] assms(3)
  by (intro be_val_inj) simp_all

lemma write_uint_zero:
  assumes "length s = n" "n < 2 ^ 58" "ccn_val s = 0"
  shows "ccn_write_uint_size n s = 0" "ccn_bitlen n s = 0" "ccn_write_uint n s k = []"
proof -
  show b: "ccn_bitlen n s = 0" using ccn_bitlen_0_iff [OF assms(2,1)] assms(3) by simp
  then show z: "ccn_write_uint_size n s = 0" by (simp add: ccn_write_uint_size_def cc_bitlen_to_bytelen_def)
  have "length (ccn_write_uint n s k) = 0" by (simp add: ccn_write_uint_def z)
  then show "ccn_write_uint n s k = []" by simp
qed

lemma write_uint_cases:
  assumes "length s = n" "n < 2 ^ 58"
  obtains (zero) "ccn_val s = 0"
  | (bytes) b bs where "ccn_val s = be_val (b # bs)" "b \<noteq> 0"
proof (cases "ccn_val s = 0")
  case False
  let ?z = "ccn_write_uint_size n s"
  note full = ccn_write_uint_full [OF assms order_refl]
  have "0 < ?z" using False ccn_write_uint_size_bounds(2) [OF assms] by (cases "?z") auto
  with full(1) obtain b bs where bs: "ccn_write_uint n s ?z = b # bs" "length bs = ?z - 1"
    by (cases "ccn_write_uint n s ?z") auto
  have "b \<noteq> 0"
  proof
    assume "b = 0"
    then have "ccn_val s = be_val bs" using full(2) bs by (simp add: be_val_Cons del: rev.simps)
    then have "ccn_val s < 256 ^ (?z - 1)" using be_val_bound [of bs] bs(2) by simp
    with ccn_write_uint_size_bounds(3) [OF assms \<open>0 < ?z\<close>] show False by simp
  qed
  with bytes full(2) bs show ?thesis by metis
qed (rule zero)

lemma write_int_size_wrap: "k < 2 ^ 62 \<Longrightarrow> (k + 1 + 2 ^ 64 - 1) mod 2 ^ 64 = (k :: nat)"
  by simp

lemma write_int_eq:
  assumes "length s = n" "n < 2 ^ 58"
  shows "ccn_write_int n s (ccn_write_int_size n s) =
    (if ccn_bitlen n s mod 8 = 0 then 0 # ccn_write_uint n s (ccn_write_uint_size n s)
     else ccn_write_uint n s (ccn_write_uint_size n s))"
proof -
  have "ccn_write_uint_size n s < 2 ^ 62" using ccn_write_uint_size_bounds(1) [OF assms] assms(2) by simp
  from write_int_size_wrap [OF this] show ?thesis
    by (simp add: ccn_write_int_def ccn_write_int_size_eq)
qed

lemma skip_write_int:
  assumes "length s = n" "n < 2 ^ 58"
  shows "ccder_blob_decode_uint_skip_leading_zeroes (ccn_write_int n s (ccn_write_int_size n s)) =
    Some (ccn_write_uint n s (ccn_write_uint_size n s))"
  using assms
proof (cases rule: write_uint_cases)
  case zero
  then show ?thesis
    by (simp add: write_int_eq [OF assms] write_uint_zero [OF assms] ccder_blob_decode_uint_skip_leading_zeroes_def)
next
  case (bytes b bs)
  show ?thesis
    using bitlen_of_bytes(2) [OF assms bytes] bytes(2)
    by (auto simp: write_int_eq [OF assms] write_uint_bytes [OF assms bytes]
        ccder_blob_decode_uint_skip_leading_zeroes_def sign_bit)
qed

lemma decode_uint_range_write_int:
  assumes "length s = n" "n < 2 ^ 58"
  shows "ccder_blob_decode_uint_range (ccn_write_int n s (ccn_write_int_size n s)) n = Some s"
  using read_write_uint [OF assms order_refl]
  by (simp add: ccder_blob_decode_uint_range_def skip_write_int [OF assms])

lemma decode_uint_range_canonical:
  assumes "ccder_blob_decode_uint_range body n = Some s" "n < 2 ^ 58"
  shows "length s = n" "body = ccn_write_int n s (ccn_write_int_size n s)"
proof -
  from assms(1) obtain p where skip: "ccder_blob_decode_uint_skip_leading_zeroes body = Some p"
    and read: "ccn_read_uint n p = Inr s"
    by (auto simp: ccder_blob_decode_uint_range_def split: option.splits sum.splits)
  note r = ccn_read_uint_val [OF read]
  from r(1) show l: "length s = n" .
  show "body = ccn_write_int n s (ccn_write_int_size n s)"
  proof (cases p)
    case Nil
    then have "body = [0]" using skip
      by (auto simp: ccder_blob_decode_uint_skip_leading_zeroes_def split: list.splits if_splits)
    then show ?thesis
      using r(2) Nil by (simp add: write_int_eq [OF l assms(2)] write_uint_zero [OF l assms(2)])
  next
    case (Cons b bs)
    have b: "b \<noteq> 0 \<and> (body = p \<and> unat b < 0x80 \<or> body = 0 # p \<and> 0x80 \<le> unat b)"
      using skip Cons
      by (auto simp: ccder_blob_decode_uint_skip_leading_zeroes_def sign_bit split: list.splits if_splits)
    have v: "ccn_val s = be_val (b # bs)" using r(2) Cons by simp
    show ?thesis
      using b bitlen_of_bytes(2) [OF l assms(2) v] Cons
      by (auto simp: write_int_eq [OF l assms(2)] write_uint_bytes [OF l assms(2) v])
  qed
qed

lemma length_write_int_le:
  assumes "length s = n" "n < 2 ^ 28"
  shows "length (ccn_write_int n s (ccn_write_int_size n s)) \<le> 8 * n + 1"
proof -
  have n: "n < 2 ^ 58" using assms(2) by simp
  show ?thesis
    using ccn_write_int_val(1) [OF assms(1) n] ccn_write_uint_size_bounds(1) [OF assms(1) n]
    by (simp add: ccn_write_int_size_eq)
qed

text \<open>An integer item decodes to the number it was made from, by either decoder.\<close>

lemma decode_encode_uint:
  assumes "length s = n" "n < 2 ^ 28"
  defines "item \<equiv> tlv CCDER_INTEGER (ccn_write_int n s (ccn_write_int_size n s))"
  shows "ccder_blob_decode_uint (item @ rest) n = (rest, Some s)"
    "ccder_blob_decode_uint_strict (item @ rest) n = (rest, Some s)"
proof -
  have n: "n < 2 ^ 58" using assms(2) by simp
  have l: "length (ccn_write_int n s (ccn_write_int_size n s)) \<le> 0xffffffff"
    using length_write_int_le [OF assms(1,2)] assms(2) by simp
  show "ccder_blob_decode_uint (item @ rest) n = (rest, Some s)"
    "ccder_blob_decode_uint_strict (item @ rest) n = (rest, Some s)"
    using ccder_decode_range_tlv [OF tag_ok_constants(1) l] decode_uint_range_write_int [OF assms(1) n]
    by (simp_all add: item_def ccder_blob_decode_uint_def ccder_blob_decode_range_def
        ccder_blob_decode_uint_strict_def ccder_blob_decode_range_strict_def)
qed

text \<open>
  The strict decoder: after the tag, both the length octets and the content octets it
  accepted are those the encoder would write for the number it returns.
\<close>

lemma decode_uint_strict_canonical:
  assumes "ccder_blob_decode_uint_strict bs n = (rest, Some s)" "n < 2 ^ 58"
  defines "body \<equiv> ccn_write_int n s (ccn_write_int_size n s)"
  shows "length s = n"
    "ccder_blob_decode_tag bs = (len_bytes (length body) @ body @ rest, Some CCDER_INTEGER)"
proof -
  obtain body' where r: "ccder_blob_decode_range_internal True bs CCDER_INTEGER = (rest, Some body')"
    and u: "ccder_blob_decode_uint_range body' n = Some s"
    using assms(1)
    by (auto simp: ccder_blob_decode_uint_strict_def ccder_blob_decode_range_strict_def
        split: prod.splits option.splits)
  note c = decode_uint_range_canonical [OF u assms(2)]
  from c(1) show "length s = n" .
  from r obtain p q l where tag: "ccder_blob_decode_tag bs = (p, Some CCDER_INTEGER)"
    and len: "ccder_blob_decode_len_internal True p = (q, Some l)" "rest = drop l q" "body' = take l q"
    by (auto simp: ccder_blob_decode_range_internal_def ccder_blob_decode_tl_internal_def
        ccder_blob_decode_len_strict_def split: prod.splits option.splits if_splits)
  note k = ccder_decode_len_strict_canonical [OF len(1)]
  have "q = body' @ rest" "length body' = l" using k(2) len by simp_all
  with tag k(1) c(2) show "ccder_blob_decode_tag bs = (len_bytes (length body) @ body @ rest, Some CCDER_INTEGER)"
    by (simp add: body_def)
qed

text \<open>
  The tag is not held to its shortest form: the two-byte long form of tag number 2 passes
  the strict decoder as an INTEGER.
\<close>

lemma decode_uint_strict_long_tag:
  "ccder_blob_decode_uint_strict [0x02, 0x01, 0x05] 1 = ([], Some [5])"
  "ccder_blob_decode_uint_strict [0x1f, 0x02, 0x01, 0x05] 1 = ([], Some [5])"
proof -
  have n: "(1 :: nat) < 2 ^ 28" "length [5 :: cc_unit] = 1" by simp_all
  have t: "ccder_blob_decode_tag [0x02, 0x01, 0x05] = ([0x01, 0x05], Some CCDER_INTEGER)"
    "ccder_blob_decode_tag [0x1f, 0x02, 0x01, 0x05] = ([0x01, 0x05], Some CCDER_INTEGER)"
    by code_simp+
  have w: "ccn_write_int 1 [5] (ccn_write_int_size 1 [5]) = [5]"
  proof -
    have "ccn_bitlen 1 [5] = 3" by code_simp
    then have "ccn_write_int_size 1 [5] = 1" by (simp add: ccn_write_int_size_def)
    with ccn_write_int_val(1,2) [of "[5]" 1] show ?thesis by (intro be_val_inj) simp_all
  qed
  have l: "ccder_blob_decode_len_strict [0x01, 0x05] = ([0x05], Some 1)"
    by code_simp
  have u: "ccder_blob_decode_uint_range [5] 1 = Some [5]"
    using decode_uint_range_write_int [of "[5]" 1] by (simp only: w) simp
  show "ccder_blob_decode_uint_strict [0x02, 0x01, 0x05] 1 = ([], Some [5])"
    "ccder_blob_decode_uint_strict [0x1f, 0x02, 0x01, 0x05] 1 = ([], Some [5])"
    using t l u
    by (simp_all add: ccder_blob_decode_uint_strict_def ccder_blob_decode_range_strict_def
        ccder_blob_decode_range_internal_def ccder_blob_decode_tl_internal_def)
qed

lemma ccder_uint64_loop_eq: "ccder_uint64_loop (load_le xs) bs = load_le (rev bs @ xs)"
  by (induction bs arbitrary: xs) (simp_all flip: load_le.simps(2))

lemma ccder_uint64_loop_val:
  assumes "length bs \<le> 8"
  shows "unat (ccder_uint64_loop 0 bs) = be_val bs"
  using ccder_uint64_loop_eq [of "[]" bs] unat_load_le [of "rev bs", where 'a = 64] assms by simp

lemma decode_encode_uint64:
  "ccder_blob_decode_uint64 (tlv CCDER_INTEGER (ccn_write_int 1 [v] (ccn_write_int_size 1 [v])) @ rest) = (rest, Some v)"
proof -
  let ?body = "ccn_write_int 1 [v] (ccn_write_int_size 1 [v])"
  let ?u = "ccn_write_uint 1 [v] (ccn_write_uint_size 1 [v])"
  have n: "length [v] = 1" "(1 :: nat) < 2 ^ 28" "(1 :: nat) < 2 ^ 58" by simp_all
  have l: "length ?body \<le> 0xffffffff" using length_write_int_le [OF n(1,2)] by simp
  note full = ccn_write_uint_full [OF n(1,3) order_refl]
  have u: "length ?u \<le> 8" using full(1) ccn_write_uint_size_bounds(1) [OF n(1,3)] by simp
  have "unat (ccder_uint64_loop 0 ?u) = unat v"
    unfolding ccder_uint64_loop_val [OF u] full(2) by simp
  then have "ccder_uint64_loop 0 ?u = v" by (simp add: word_unat_eq_iff)
  with u show ?thesis
    using ccder_decode_range_tlv [OF tag_ok_constants(1) l, of False rest] skip_write_int [OF n(1,3)]
    by (simp add: ccder_blob_decode_uint64_def ccder_blob_decode_range_def)
qed

text \<open>A signature, a sequence of two integers.\<close>

definition seqii_bytes :: "nat \<Rightarrow> units \<Rightarrow> units \<Rightarrow> bytes" where
  "seqii_bytes n r s = tlv CCDER_CONSTRUCTED_SEQUENCE
     (tlv CCDER_INTEGER (ccn_write_int n r (ccn_write_int_size n r)) @
      tlv CCDER_INTEGER (ccn_write_int n s (ccn_write_int_size n s)))"

lemma decode_encode_seqii:
  assumes "length r = n" "length s = n" "n < 2 ^ 26"
  shows "ccder_blob_decode_seqii_internal strict (seqii_bytes n r s @ rest) n = (rest, Some (r, s))"
proof -
  have n: "n < 2 ^ 28" using assms(3) by simp
  let ?i = "\<lambda>s. tlv CCDER_INTEGER (ccn_write_int n s (ccn_write_int_size n s))"
  have "length (?i r @ ?i s) \<le> 0xffffffff"
    using length_write_int_le [OF assms(1) n] length_write_int_le [OF assms(2) n]
      length_tlv_le [of CCDER_INTEGER "ccn_write_int n r (ccn_write_int_size n r)"]
      length_tlv_le [of CCDER_INTEGER "ccn_write_int n s (ccn_write_int_size n s)"] assms(3)
    by simp
  note seq = ccder_decode_range_tlv [OF tag_ok_constants(5) this]
  note u = decode_encode_uint [OF assms(1) n, of "?i s"] decode_encode_uint [OF assms(2) n, of "[]"]
  show ?thesis
    using seq [of strict rest] u
    by (cases strict) (simp_all add: ccder_blob_decode_seqii_internal_def seqii_bytes_def
        ccder_blob_decode_sequence_tl_strict_def ccder_blob_decode_sequence_tl_def
        ccder_blob_decode_range_strict_def ccder_blob_decode_range_def)
qed

lemma decode_encode_bitstring:
  assumes "length bits < 0xffffffff" "unat unused \<le> 8 * length bits"
  shows "ccder_blob_decode_bitstring (tlv CCDER_BIT_STRING (unused # bits) @ rest) =
    (rest, Some (bits, 8 * length bits - unat unused))"
  using ccder_decode_range_tlv [OF tag_ok_constants(2), of "unused # bits" False rest] assms
  by (simp add: ccder_blob_decode_bitstring_def ccder_blob_decode_range_def mult.commute)

lemma decode_oid:
  assumes "length arcs \<le> 0xffffffff"
  shows "ccder_blob_decode_oid (tlv CCDER_OBJECT_IDENTIFIER arcs @ rest) =
    (rest, Some (tlv CCDER_OBJECT_IDENTIFIER arcs @ rest))"
  using ccder_decode_range_tlv [OF tag_ok_constants(4) assms, of False rest]
  by (simp add: ccder_blob_decode_oid_def ccder_blob_decode_range_def)

section \<open>Elliptic curve private keys\<close>

lemma ccoid_size_tlv:
  assumes "length arcs < 0x80"
  shows "ccoid_size (tlv CCDER_OBJECT_IDENTIFIER arcs) = length (tlv CCDER_OBJECT_IDENTIFIER arcs)"
proof -
  have "tag_bytes CCDER_OBJECT_IDENTIFIER = [0x06]" by code_simp
  then show ?thesis using assms by (simp add: ccoid_size_def tlv_def len_bytes_def)
qed

lemma decode_params:
  assumes "\<And>o'. oid = Some o' \<Longrightarrow> \<exists>arcs. length arcs < 0x80 \<and> o' = tlv CCDER_OBJECT_IDENTIFIER arcs"
  defines "ctx0 \<equiv> CCDER_CONTEXT_SPECIFIC OR CCDER_CONSTRUCTED OR 0"
  shows "(case ccder_blob_decode_range (eckey_parameters oid @ eckey_public pub) ctx0 of
      (_, None) \<Rightarrow> Some (eckey_parameters oid @ eckey_public pub, None)
    | (at_oid, Some inner_blob) \<Rightarrow>
        (case ccder_blob_decode_oid inner_blob of (_, Some oid) \<Rightarrow> Some (at_oid, Some oid) | (_, None) \<Rightarrow> None)) =
    Some (eckey_public pub, oid)"
proof (cases oid)
  case None
  have ne: "CCDER_CONTEXT_SPECIFIC OR CCDER_CONSTRUCTED OR 1 \<noteq> ctx0" unfolding ctx0_def by code_simp
  have "snd (ccder_blob_decode_range (eckey_public pub) ctx0) = None"
  proof (cases "pub = []")
    case True
    then show ?thesis
      by (simp add: eckey_public_def ccder_blob_decode_range_def ccder_blob_decode_range_internal_def
          ccder_blob_decode_tl_internal_def ccder_blob_decode_tag_def)
  next
    case False
    then show ?thesis
      using ccder_decode_range_other [OF tag_ok_constants(7) ne, of False _ "[]"]
      by (simp add: eckey_public_def ccder_blob_decode_range_def)
  qed
  with None show ?thesis by (auto simp: eckey_parameters_def split: prod.splits)
next
  case (Some o')
  with assms(1) obtain arcs where arcs: "length arcs < 0x80" "o' = tlv CCDER_OBJECT_IDENTIFIER arcs" by blast
  have t: "take (ccoid_size o') o' = o'" using ccoid_size_tlv [OF arcs(1)] arcs(2) by simp
  have l: "length o' \<le> 0xffffffff" using length_tlv_le [of CCDER_OBJECT_IDENTIFIER arcs] arcs by simp
  have ok: "tag_ok ctx0" unfolding ctx0_def using tag_ok_constants(6) by simp
  have "ccder_blob_decode_range (tlv ctx0 o' @ eckey_public pub) ctx0 = (eckey_public pub, Some o')"
    unfolding ccder_blob_decode_range_def by (rule ccder_decode_range_tlv [OF ok l])
  moreover have "snd (ccder_blob_decode_oid o') = Some o'"
    using decode_oid [of arcs "[]"] arcs by simp
  ultimately show ?thesis
    using Some t by (auto simp: eckey_parameters_def ctx0_def split: prod.splits)
qed

text \<open>An encoded private key decodes to its fields, whichever optional parts it has.\<close>

lemma decode_encode_eckey:
  assumes "length priv < 2 ^ 30" "length pub < 2 ^ 30"
    "\<And>o'. oid = Some o' \<Longrightarrow> \<exists>arcs. length arcs < 0x80 \<and> o' = tlv CCDER_OBJECT_IDENTIFIER arcs"
  shows "ccder_blob_decode_eckey (eckey_bytes priv oid pub @ rest) =
    (rest, Some \<lparr>eckey_version = 1, priv_key = priv, eckey_oid = oid,
       pub_key = pub, pub_key_bit_count = 8 * length pub\<rparr>)"
proof -
  let ?ctx1 = "CCDER_CONTEXT_SPECIFIC OR CCDER_CONSTRUCTED OR 1"
  let ?tail = "eckey_parameters oid @ eckey_public pub"
  let ?seq = "tlv CCDER_INTEGER [1] @ tlv CCDER_OCTET_STRING priv @ ?tail"
  have par: "length (eckey_parameters oid) \<le> 500"
  proof (cases oid)
    case (Some o')
    with assms(3) obtain arcs where "length arcs < 0x80" "o' = tlv CCDER_OBJECT_IDENTIFIER arcs" by blast
    with Some show ?thesis
      using length_tlv_le [of CCDER_OBJECT_IDENTIFIER arcs]
        length_tlv_le [of "CCDER_CONTEXT_SPECIFIC OR CCDER_CONSTRUCTED OR 0" "take (ccoid_size o') o'"]
      by (simp add: eckey_parameters_def)
  qed (simp add: eckey_parameters_def)
  have pl: "length (tlv CCDER_BIT_STRING (0 # pub)) \<le> length pub + 12"
    using length_tlv_le [of CCDER_BIT_STRING "0 # pub"] by simp
  have "length (eckey_public pub) \<le> length pub + 30"
    using pl length_tlv_le [of ?ctx1 "tlv CCDER_BIT_STRING (0 # pub)"] by (simp add: eckey_public_def)
  then have "length ?seq \<le> 0xffffffff"
    using par length_tlv_le [of CCDER_INTEGER "[1]"] length_tlv_le [of CCDER_OCTET_STRING priv] assms(1,2) by simp
  then have seq: "ccder_blob_decode_sequence_tl (eckey_bytes priv oid pub @ rest) = (rest, Some ?seq)"
    unfolding ccder_blob_decode_sequence_tl_def ccder_blob_decode_range_def eckey_bytes_def
    by (rule ccder_decode_range_tlv [OF tag_ok_constants(5)])
  have version: "ccder_blob_decode_uint64 ?seq = (tlv CCDER_OCTET_STRING priv @ ?tail, Some 1)"
    using decode_encode_uint64 [of 1 "tlv CCDER_OCTET_STRING priv @ ?tail", unfolded write_int_one] .
  have priv: "ccder_blob_decode_range (tlv CCDER_OCTET_STRING priv @ ?tail) CCDER_OCTET_STRING = (?tail, Some priv)"
    unfolding ccder_blob_decode_range_def by (rule ccder_decode_range_tlv [OF tag_ok_constants(3)]) (use assms(1) in simp)
  note params = decode_params [where oid = oid and pub = pub, OF assms(3)]
  show ?thesis
  proof (cases "pub = []")
    case True
    have "ccder_blob_decode_range [] ?ctx1 = ([], None)"
      by (simp add: ccder_blob_decode_range_def ccder_blob_decode_range_internal_def
          ccder_blob_decode_tl_internal_def ccder_blob_decode_tag_def)
    then show ?thesis
      using True params unfolding ccder_blob_decode_eckey_def seq version priv prod.case option.case
      by (simp add: version priv eckey_public_def)
  next
    case False
    have "ccder_blob_decode_range (eckey_public pub) ?ctx1 = ([], Some (tlv CCDER_BIT_STRING (0 # pub)))"
      unfolding ccder_blob_decode_range_def
      using ccder_decode_range_tlv [OF tag_ok_constants(7), of "tlv CCDER_BIT_STRING (0 # pub)" False "[]"]
        False pl assms(2)
      by (simp add: eckey_public_def)
    moreover have "ccder_blob_decode_bitstring (tlv CCDER_BIT_STRING (0 # pub)) = ([], Some (pub, 8 * length pub))"
      using decode_encode_bitstring [of pub 0 "[]"] assms(2) by simp
    ultimately show ?thesis
      using params unfolding ccder_blob_decode_eckey_def seq version priv prod.case option.case
      by (simp add: version priv)
  qed
qed

end
