(* ===== verification/Ccder_Compat.thy ===== *)
theory Ccder_Compat
  imports Ccder_Decode
begin

text \<open>
  The pointer interface of \<open>ccder_blob_compat.c\<close>: each function wraps its blob
  counterpart, refusing a null pointer.  An encoder takes the buffer, \<open>der\<close> and
  \<open>der_end\<close> as indices (\<open>None\<close> is the null pointer) and returns the new end, if any,
  and the buffer.  A decoder takes the bytes from \<open>der\<close> to \<open>der_end\<close> (\<open>None\<close> when
  \<open>der\<close> is null) and returns the bytes from the returned pointer on.
\<close>

section \<open>Encoders\<close>

text \<open>The macro \<open>CCDER_BLOB_INIT\<close> and the common return expression.\<close>

definition ccder_blob_init :: "nat \<Rightarrow> nat option \<Rightarrow> bytes \<Rightarrow> ccder_blob option" where
  "ccder_blob_init p e m = (case e of None \<Rightarrow> None | Some e \<Rightarrow> Some \<lparr>mem = m, der = p, der_end = e\<rparr>)"

definition encode_with ::
  "(ccder_blob \<Rightarrow> bool \<times> ccder_blob) \<Rightarrow> nat \<Rightarrow> nat option \<Rightarrow> bytes \<Rightarrow> nat option \<times> bytes" where
  "encode_with f p e m =
     (case ccder_blob_init p e m of
        None \<Rightarrow> (None, m)
      | Some b \<Rightarrow> let (ok, b) = f b in (if ok then Some (der_end b) else None, mem b))"

definition ccder_encode_eckey_size :: "nat \<Rightarrow> bytes option \<Rightarrow> nat \<Rightarrow> nat" where
  "ccder_encode_eckey_size priv_size oid pub_size = ccder_sizeof_eckey priv_size oid pub_size"

definition ccder_encode_tag ::
  "ccder_tag \<Rightarrow> nat \<Rightarrow> nat option \<Rightarrow> bytes \<Rightarrow> nat option \<times> bytes" where
  "ccder_encode_tag tag p e m = encode_with (\<lambda>b. ccder_blob_encode_tag b tag) p e m"

definition ccder_encode_len ::
  "nat \<Rightarrow> nat \<Rightarrow> nat option \<Rightarrow> bytes \<Rightarrow> nat option \<times> bytes" where
  "ccder_encode_len len p e m = encode_with (\<lambda>b. ccder_blob_encode_len b len) p e m"

definition ccder_encode_tl ::
  "ccder_tag \<Rightarrow> nat \<Rightarrow> nat \<Rightarrow> nat option \<Rightarrow> bytes \<Rightarrow> nat option \<times> bytes" where
  "ccder_encode_tl tag len p e m = encode_with (\<lambda>b. ccder_blob_encode_tl b tag len) p e m"

definition ccder_encode_body_nocopy ::
  "nat \<Rightarrow> nat \<Rightarrow> nat option \<Rightarrow> bytes \<Rightarrow> nat option \<times> bytes" where
  "ccder_encode_body_nocopy size' p e m = encode_with (\<lambda>b. let (ok, b, r) = ccder_blob_reserve b size' in (ok, b)) p e m"

definition ccder_encode_constructed_tl ::
  "ccder_tag \<Rightarrow> nat \<Rightarrow> nat \<Rightarrow> nat option \<Rightarrow> bytes \<Rightarrow> nat option \<times> bytes" where
  "ccder_encode_constructed_tl tag body_end p e m =
     ccder_encode_tl tag (case e of None \<Rightarrow> 0 | Some e \<Rightarrow> body_end - e) p e m"

definition ccder_encode_oid ::
  "bytes \<Rightarrow> nat \<Rightarrow> nat option \<Rightarrow> bytes \<Rightarrow> nat option \<times> bytes" where
  "ccder_encode_oid oid p e m = encode_with (\<lambda>b. ccder_blob_encode_oid b oid) p e m"

definition ccder_encode_implicit_integer ::
  "ccder_tag \<Rightarrow> nat \<Rightarrow> units \<Rightarrow> nat \<Rightarrow> nat option \<Rightarrow> bytes \<Rightarrow> nat option \<times> bytes" where
  "ccder_encode_implicit_integer implicit_tag n s p e m = encode_with (\<lambda>b. ccder_blob_encode_implicit_integer b implicit_tag n s) p e m"

definition ccder_encode_integer ::
  "nat \<Rightarrow> units \<Rightarrow> nat \<Rightarrow> nat option \<Rightarrow> bytes \<Rightarrow> nat option \<times> bytes" where
  "ccder_encode_integer n s p e m = encode_with (\<lambda>b. ccder_blob_encode_integer b n s) p e m"

definition ccder_encode_implicit_uint64 ::
  "ccder_tag \<Rightarrow> cc_unit \<Rightarrow> nat \<Rightarrow> nat option \<Rightarrow> bytes \<Rightarrow> nat option \<times> bytes" where
  "ccder_encode_implicit_uint64 implicit_tag v p e m = encode_with (\<lambda>b. ccder_blob_encode_implicit_uint64 b implicit_tag v) p e m"

definition ccder_encode_uint64 ::
  "cc_unit \<Rightarrow> nat \<Rightarrow> nat option \<Rightarrow> bytes \<Rightarrow> nat option \<times> bytes" where
  "ccder_encode_uint64 v p e m = encode_with (\<lambda>b. ccder_blob_encode_uint64 b v) p e m"

definition ccder_encode_implicit_octet_string ::
  "ccder_tag \<Rightarrow> nat \<Rightarrow> units \<Rightarrow> nat \<Rightarrow> nat option \<Rightarrow> bytes \<Rightarrow> nat option \<times> bytes" where
  "ccder_encode_implicit_octet_string implicit_tag n s p e m = encode_with (\<lambda>b. ccder_blob_encode_implicit_octet_string b implicit_tag n s) p e m"

definition ccder_encode_octet_string ::
  "nat \<Rightarrow> units \<Rightarrow> nat \<Rightarrow> nat option \<Rightarrow> bytes \<Rightarrow> nat option \<times> bytes" where
  "ccder_encode_octet_string n s p e m = encode_with (\<lambda>b. ccder_blob_encode_octet_string b n s) p e m"

definition ccder_encode_implicit_raw_octet_string ::
  "ccder_tag \<Rightarrow> nat \<Rightarrow> bytes \<Rightarrow> nat \<Rightarrow> nat option \<Rightarrow> bytes \<Rightarrow> nat option \<times> bytes" where
  "ccder_encode_implicit_raw_octet_string implicit_tag s_size s p e m = encode_with (\<lambda>b. ccder_blob_encode_implicit_raw_octet_string b implicit_tag s_size s) p e m"

definition ccder_encode_raw_octet_string ::
  "nat \<Rightarrow> bytes \<Rightarrow> nat \<Rightarrow> nat option \<Rightarrow> bytes \<Rightarrow> nat option \<times> bytes" where
  "ccder_encode_raw_octet_string s_size s p e m = encode_with (\<lambda>b. ccder_blob_encode_raw_octet_string b s_size s) p e m"

definition ccder_encode_eckey ::
  "nat \<Rightarrow> bytes \<Rightarrow> bytes option \<Rightarrow> nat \<Rightarrow> bytes \<Rightarrow> nat \<Rightarrow> nat option \<Rightarrow> bytes \<Rightarrow> nat option \<times> bytes" where
  "ccder_encode_eckey priv_size priv oid pub_size pub p e m = encode_with (\<lambda>b. ccder_blob_encode_eckey b priv_size priv oid pub_size pub) p e m"

definition ccder_encode_body ::
  "nat \<Rightarrow> bytes \<Rightarrow> nat \<Rightarrow> nat option \<Rightarrow> bytes \<Rightarrow> nat option \<times> bytes" where
  "ccder_encode_body size' body p e m = encode_with (\<lambda>b. ccder_blob_encode_body b size' body) p e m"

section \<open>Decoders\<close>

definition decode_with :: "(bytes \<Rightarrow> bytes \<times> 'a option) \<Rightarrow> bytes option \<Rightarrow> (bytes \<times> 'a) option" where
  "decode_with f from' =
     (case from' of
        None \<Rightarrow> None
      | Some p \<Rightarrow> (case f p of (p, Some x) \<Rightarrow> Some (p, x) | (_, None) \<Rightarrow> None))"

text \<open>
  The range functions return \<open>body_end\<close> first (the incoming pointer in case of error), then the
  start of the body.
\<close>

definition decode_range_with ::
  "(bytes \<Rightarrow> bytes \<times> bytes option) \<Rightarrow> bytes option \<Rightarrow> bytes option \<times> bytes option" where
  "decode_range_with f from' =
     (case decode_with f from' of
        None \<Rightarrow> (from', None)
      | Some (body_end, body) \<Rightarrow> (Some body_end, Some (body @ body_end)))"

definition ccder_decode_tag :: "bytes option \<Rightarrow> (bytes \<times> ccder_tag) option" where
  "ccder_decode_tag from' = decode_with ccder_blob_decode_tag from'"

definition ccder_decode_len :: "bytes option \<Rightarrow> (bytes \<times> nat) option" where
  "ccder_decode_len from' = decode_with ccder_blob_decode_len from'"

definition ccder_decode_len_strict :: "bytes option \<Rightarrow> (bytes \<times> nat) option" where
  "ccder_decode_len_strict from' = decode_with ccder_blob_decode_len_strict from'"

definition ccder_decode_tl :: "ccder_tag \<Rightarrow> bytes option \<Rightarrow> (bytes \<times> nat) option" where
  "ccder_decode_tl expected_tag from' = decode_with (\<lambda>p. ccder_blob_decode_tl p expected_tag) from'"

definition ccder_decode_tl_strict :: "ccder_tag \<Rightarrow> bytes option \<Rightarrow> (bytes \<times> nat) option" where
  "ccder_decode_tl_strict expected_tag from' = decode_with (\<lambda>p. ccder_blob_decode_tl_strict p expected_tag) from'"

definition ccder_decode_constructed_tl :: "ccder_tag \<Rightarrow> bytes option \<Rightarrow> bytes option \<times> bytes option" where
  "ccder_decode_constructed_tl expected_tag from' = decode_range_with (\<lambda>p. ccder_blob_decode_range p expected_tag) from'"

definition ccder_decode_constructed_tl_strict :: "ccder_tag \<Rightarrow> bytes option \<Rightarrow> bytes option \<times> bytes option" where
  "ccder_decode_constructed_tl_strict expected_tag from' = decode_range_with (\<lambda>p. ccder_blob_decode_range_strict p expected_tag) from'"

definition ccder_decode_sequence_tl :: "bytes option \<Rightarrow> bytes option \<times> bytes option" where
  "ccder_decode_sequence_tl from' = decode_range_with ccder_blob_decode_sequence_tl from'"

definition ccder_decode_sequence_tl_strict :: "bytes option \<Rightarrow> bytes option \<times> bytes option" where
  "ccder_decode_sequence_tl_strict from' = decode_range_with ccder_blob_decode_sequence_tl_strict from'"

definition ccder_decode_uint_n :: "bytes option \<Rightarrow> (bytes \<times> nat) option" where
  "ccder_decode_uint_n from' = decode_with ccder_blob_decode_uint_n from'"

definition ccder_decode_uint :: "nat \<Rightarrow> bytes option \<Rightarrow> (bytes \<times> units) option" where
  "ccder_decode_uint n from' = decode_with (\<lambda>p. ccder_blob_decode_uint p n) from'"

definition ccder_decode_uint_strict :: "nat \<Rightarrow> bytes option \<Rightarrow> (bytes \<times> units) option" where
  "ccder_decode_uint_strict n from' = decode_with (\<lambda>p. ccder_blob_decode_uint_strict p n) from'"

definition ccder_decode_uint64 :: "bytes option \<Rightarrow> (bytes \<times> cc_unit) option" where
  "ccder_decode_uint64 from' = decode_with ccder_blob_decode_uint64 from'"

definition ccder_decode_seqii :: "nat \<Rightarrow> bytes option \<Rightarrow> (bytes \<times> (units \<times> units)) option" where
  "ccder_decode_seqii n from' = decode_with (\<lambda>p. ccder_blob_decode_seqii p n) from'"

definition ccder_decode_seqii_strict :: "nat \<Rightarrow> bytes option \<Rightarrow> (bytes \<times> (units \<times> units)) option" where
  "ccder_decode_seqii_strict n from' = decode_with (\<lambda>p. ccder_blob_decode_seqii_strict p n) from'"

definition ccder_decode_oid :: "bytes option \<Rightarrow> (bytes \<times> bytes) option" where
  "ccder_decode_oid from' = decode_with ccder_blob_decode_oid from'"

definition ccder_decode_bitstring :: "bytes option \<Rightarrow> (bytes \<times> (bytes \<times> nat)) option" where
  "ccder_decode_bitstring from' = decode_with ccder_blob_decode_bitstring from'"

definition ccder_decode_eckey :: "bytes option \<Rightarrow> (bytes \<times> ccder_eckey) option" where
  "ccder_decode_eckey from' = decode_with ccder_blob_decode_eckey from'"

section \<open>Encoding and decoding through pointers\<close>

text \<open>
  An encoder that emits \<open>bs\<close> writes them right below \<open>der_end\<close> and returns their
  start, or \<open>NULL\<close> when they do not fit above \<open>der\<close>.
\<close>

lemma encode_with_emits:
  assumes "emits f bs" "p \<le> e" "e \<le> length m"
  shows "encode_with f p (Some e) m =
    (if length bs \<le> e - p then (Some (e - length bs), write_at (e - length bs) bs m)
     else (None, snd (encode_with f p (Some e) m)))"
proof -
  let ?b = "\<lparr>mem = m, der = p, der_end = e\<rparr>"
  have "blob_wf ?b" using assms(2,3) by (simp add: blob_wf_def)
  then have "if length bs \<le> e - p then f ?b = (True, put bs ?b) else \<not> fst (f ?b)"
    using assms(1) unfolding emits_def ccder_blob_size_def by fastforce
  then show ?thesis
    by (auto simp: encode_with_def ccder_blob_init_def put_def split: if_splits prod.splits)
qed

lemma encode_with_null: "encode_with f p None m = (None, m)"
  by (simp add: encode_with_def ccder_blob_init_def)

lemma decode_with_Some:
  "f (bs @ rest) = (rest, Some x) \<Longrightarrow> decode_with f (Some (bs @ rest)) = Some (rest, x)"
  by (simp add: decode_with_def)

lemma drop_write_at: "pos \<le> length m \<Longrightarrow> drop pos (write_at pos bs m) = bs @ drop (pos + length bs) m"
  by (simp add: write_at_def)

text \<open>
  A private key encoded into a buffer of the size \<open>ccder_encode_eckey_size\<close> returns fills it
  exactly.
\<close>

lemma length_eckey_bytes:
  assumes "length priv < 2 ^ 30" "length pub < 2 ^ 30" "\<And>o'. oid = Some o' \<Longrightarrow> length o' < 0x80"
  shows "length (eckey_bytes priv oid pub) \<le> length priv + length pub + 700"
proof -
  have "length (eckey_parameters oid) \<le> 200"
    using assms(3)
      length_tlv_le [of "CCDER_CONTEXT_SPECIFIC OR CCDER_CONSTRUCTED OR 0" "take (ccoid_size (the oid)) (the oid)"]
    by (cases oid) (auto simp: eckey_parameters_def)
  moreover have "length (eckey_public pub) \<le> length pub + 40"
    using length_tlv_le [of "CCDER_CONTEXT_SPECIFIC OR CCDER_CONSTRUCTED OR 1" "tlv CCDER_BIT_STRING (0 # pub)"]
      length_tlv_le [of CCDER_BIT_STRING "0 # pub"] assms(2)
    by (simp add: eckey_public_def)
  ultimately show ?thesis
    using length_tlv_le [of CCDER_INTEGER "[1]"] length_tlv_le [of CCDER_OCTET_STRING priv]
      length_tlv_le [of CCDER_CONSTRUCTED_SEQUENCE
        "tlv CCDER_INTEGER [1] @ tlv CCDER_OCTET_STRING priv @ eckey_parameters oid @ eckey_public pub"] assms
    by (simp add: eckey_bytes_def)
qed

lemma eckey_size_exact:
  assumes "length priv < 2 ^ 30" "length pub < 2 ^ 30"
    "\<And>o'. oid = Some o' \<Longrightarrow> ccoid_size o' \<le> length o' \<and> length o' < 0x80"
  shows "ccder_encode_eckey_size (length priv) oid (length pub) = length (eckey_bytes priv oid pub)"
proof -
  have i: "length (tlv CCDER_INTEGER [1]) = ccder_sizeof_uint64 1"
    using ccder_sizeof_implicit_integer_eq [of "[1]" 1 CCDER_INTEGER] unfolding write_int_one
    by (simp add: ccder_sizeof_uint64_def ccder_sizeof_implicit_uint64_def)
  have o: "length (tlv CCDER_OCTET_STRING priv) = ccder_sizeof CCDER_OCTET_STRING (length priv)"
    using assms(1) by (simp add: length_tlv)
  have par: "length (eckey_parameters oid) = (case oid of None \<Rightarrow> 0 | Some oid \<Rightarrow>
      ccder_sizeof (CCDER_CONTEXT_SPECIFIC OR CCDER_CONSTRUCTED OR 0) (ccder_sizeof_oid oid))"
    using assms(3) by (auto simp: eckey_parameters_def length_tlv ccder_sizeof_oid_def min_absorb2 split: option.splits)
  have bs: "length (tlv CCDER_BIT_STRING (0 # pub)) = ccder_sizeof CCDER_BIT_STRING (length pub + 1)"
    using assms(2) by (simp add: length_tlv)
  have "length (tlv CCDER_BIT_STRING (0 # pub)) \<le> 0xffffffff"
    using length_tlv_le [of CCDER_BIT_STRING "0 # pub"] assms(2) by simp
  then have pub: "length (eckey_public pub) = (if length pub \<noteq> 0 then
      ccder_sizeof (CCDER_CONTEXT_SPECIFIC OR CCDER_CONSTRUCTED OR 1) (ccder_sizeof CCDER_BIT_STRING (length pub + 1))
    else 0)"
    by (simp add: eckey_public_def length_tlv bs)
  let ?seq = "tlv CCDER_INTEGER [1] @ tlv CCDER_OCTET_STRING priv @ eckey_parameters oid @ eckey_public pub"
  have "length ?seq \<le> length (eckey_bytes priv oid pub)"
    by (simp add: eckey_bytes_def tlv_def)
  then have "length ?seq \<le> 0xffffffff"
    using length_eckey_bytes [of priv pub oid] assms by fastforce
  then have "length (eckey_bytes priv oid pub) = ccder_sizeof CCDER_CONSTRUCTED_SEQUENCE (length ?seq)"
    by (simp add: eckey_bytes_def length_tlv)
  then show ?thesis
    by (simp add: i o par pub ccder_encode_eckey_size_def ccder_sizeof_eckey_def Let_def add.assoc split: option.splits)
qed

text \<open>Encoding into a buffer of exactly that size, then decoding it again.\<close>

lemma encode_eckey_fills:
  assumes "0 < length priv" "length priv < 2 ^ 30" "length pub < 2 ^ 30"
    "\<And>o'. oid = Some o' \<Longrightarrow> ccoid_size o' \<le> length o' \<and> length o' < 0x80"
    "length m = ccder_encode_eckey_size (length priv) oid (length pub)"
  shows "ccder_encode_eckey (length priv) priv oid (length pub) pub 0 (Some (length m)) m =
    (Some 0, eckey_bytes priv oid pub)"
proof -
  have "emits (\<lambda>b. ccder_blob_encode_eckey b (length priv) priv oid (length pub) pub) (eckey_bytes priv oid pub)"
    using assms by (intro ccder_blob_encode_eckey_emits) auto
  from encode_with_emits [OF this, of 0 "length m" m] assms(5) eckey_size_exact [OF assms(2-4)]
  show ?thesis by (simp add: ccder_encode_eckey_def write_at_def)
qed

lemma decode_eckey_through_pointer:
  assumes "length priv < 2 ^ 30" "length pub < 2 ^ 30"
    "\<And>o'. oid = Some o' \<Longrightarrow> \<exists>arcs. length arcs < 0x80 \<and> o' = tlv CCDER_OBJECT_IDENTIFIER arcs"
  shows "ccder_decode_eckey (Some (eckey_bytes priv oid pub @ rest)) =
    Some (rest, \<lparr>eckey_version = 1, priv_key = priv, eckey_oid = oid,
       pub_key = pub, pub_key_bit_count = 8 * length pub\<rparr>)"
  unfolding ccder_decode_eckey_def by (rule decode_with_Some) (rule decode_encode_eckey [OF assms])

text \<open>A constructed item built backwards: the body first, then its tag and length around it.\<close>

lemma encode_constructed_decode:
  assumes "emits f bs" "tag_ok tag" "p \<le> e" "e \<le> length m" "length bs \<le> 0xffffffff"
    "length (tlv tag bs) \<le> e - p"
    "encode_with f p (Some e) m = (e1, m1)" "ccder_encode_constructed_tl tag e p e1 m1 = (e2, m2)"
  shows "e2 = Some (e - length (tlv tag bs))" "drop (e - length (tlv tag bs)) m2 = tlv tag bs @ drop e m"
    "ccder_decode_constructed_tl tag (Some (drop (e - length (tlv tag bs)) m2)) = (Some (drop e m), Some (bs @ drop e m))"
proof -
  let ?h = "tag_bytes tag @ len_bytes (length bs)"
  have h: "length (tlv tag bs) = length ?h + length bs" by (simp add: tlv_def)
  have 1: "e1 = Some (e - length bs)" "m1 = write_at (e - length bs) bs m"
    using encode_with_emits [OF assms(1,3,4)] assms(6,7) h by (auto split: if_splits)
  have lm: "length m1 = length m" using 1(2) h assms(3,4,6) by (simp add: write_at_def)
  have d1: "drop (e - length bs) m1 = bs @ drop e m"
    using 1(2) h assms(3,4,6) drop_write_at [of "e - length bs" m bs] by simp
  have 2: "e2 = Some (e - length bs - length ?h)" "m2 = write_at (e - length bs - length ?h) ?h m1"
    using encode_with_emits [OF ccder_blob_encode_tl_emits [OF assms(5), of tag], of p "e - length bs" m1]
      assms(3,4,6,8) h lm 1(1)
    by (auto simp: ccder_encode_constructed_tl_def ccder_encode_tl_def split: if_splits)
  show "e2 = Some (e - length (tlv tag bs))" using 2(1) h by simp
  have pos: "e - length (tlv tag bs) = e - length bs - length ?h"
    "e - length (tlv tag bs) + length ?h = e - length bs" "e - length (tlv tag bs) \<le> length m1"
    using h assms(3,4,6) lm by simp_all
  show d2: "drop (e - length (tlv tag bs)) m2 = tlv tag bs @ drop e m"
    unfolding 2(2) pos(1)[symmetric] drop_write_at [OF pos(3)] pos(2) d1 by (simp add: tlv_def)
  show "ccder_decode_constructed_tl tag (Some (drop (e - length (tlv tag bs)) m2)) =
      (Some (drop e m), Some (bs @ drop e m))"
    using ccder_decode_range_tlv [OF assms(2,5), of False "drop e m"]
    by (simp add: d2 ccder_decode_constructed_tl_def decode_range_with_def decode_with_def ccder_blob_decode_range_def)
qed

end
