(* ===== verification/Cc_Stream.thy ===== *)
theory Cc_Stream
  imports Cc_Prelude
begin

text \<open>
  Interfaces shared by the incremental ciphers and hashes.  A stream cipher promises that each
  call masks its input with the next bytes of one key stream; an absorber (a hash or a
  MAC context) promises that what it has absorbed is the concatenation of its inputs.  What
  their clients need (a call per chunk is one call on the whole text; the same call
  decrypts) is proved once here.
\<close>

unbundle bit_operations_syntax

section \<open>Stream ciphers\<close>

definition mask_with :: "(nat \<Rightarrow> byte) \<Rightarrow> nat \<Rightarrow> bytes \<Rightarrow> bytes" where
  "mask_with ks n xs = map (\<lambda>i. xs ! i XOR ks i) [0..<n]"

lemma length_mask_with [simp]: "length (mask_with ks n xs) = n"
  by (simp add: mask_with_def)

lemma nth_mask_with [simp]: "i < n \<Longrightarrow> mask_with ks n xs ! i = xs ! i XOR ks i"
  by (simp add: mask_with_def)

lemma mask_with_append:
  "n \<le> length xs \<Longrightarrow>
   mask_with ks n xs @ mask_with (\<lambda>i. ks (n + i)) m (drop n xs) = mask_with ks (n + m) xs"
  by (rule nth_equalityI) (auto simp: nth_append)

lemma mask_with_twice: "mask_with ks n (mask_with ks n xs) = take n xs" if "n \<le> length xs"
  by (rule nth_equalityI) (use that in \<open>auto simp: xor.assoc\<close>)

lemma mask_with_cong: "(\<And>i. i < n \<Longrightarrow> xs ! i = ys ! i) \<Longrightarrow> mask_with ks n xs = mask_with ks n ys"
  by (simp add: mask_with_def)

text \<open>Calls on consecutive chunks, the outputs in order.\<close>

fun in_chunks :: "('c \<Rightarrow> nat \<Rightarrow> bytes \<Rightarrow> 'c \<times> bytes) \<Rightarrow> 'c \<Rightarrow> bytes list \<Rightarrow> 'c \<times> bytes" where
  "in_chunks f c [] = (c, [])"
| "in_chunks f c (xs # xss) =
     (let (c, out) = f c (length xs) xs; (c, outs) = in_chunks f c xss in (c, out @ outs))"

locale stream_cipher =
  fixes inv :: "'c \<Rightarrow> bool"
    and key_stream :: "'c \<Rightarrow> nat \<Rightarrow> byte"
    and crypt :: "'c \<Rightarrow> nat \<Rightarrow> bytes \<Rightarrow> 'c \<times> bytes"
  assumes crypt_law: "inv c \<Longrightarrow> n \<le> length xs \<Longrightarrow> crypt c n xs = (c', out) \<Longrightarrow>
      inv c' \<and> out = mask_with (key_stream c) n xs \<and> (\<forall>i. key_stream c' i = key_stream c (n + i))"
begin

lemma crypt_out: "inv c \<Longrightarrow> n \<le> length xs \<Longrightarrow> snd (crypt c n xs) = mask_with (key_stream c) n xs"
  using crypt_law [of c n xs] by (cases "crypt c n xs") simp

lemma crypt_inv: "inv c \<Longrightarrow> n \<le> length xs \<Longrightarrow> inv (fst (crypt c n xs))"
  using crypt_law [of c n xs] by (cases "crypt c n xs") simp

lemma crypt_length: "inv c \<Longrightarrow> n \<le> length xs \<Longrightarrow> length (snd (crypt c n xs)) = n"
  by (simp add: crypt_out)

text \<open>The same call on the result, from a context with the same key stream, undoes it.\<close>

lemma crypt_crypt:
  assumes "inv c" "inv d" "\<And>i. key_stream d i = key_stream c i" "n \<le> length xs"
  shows "snd (crypt d n (snd (crypt c n xs))) = take n xs"
proof -
  have "key_stream d = key_stream c" using assms(3) by auto
  then show ?thesis using assms by (simp add: crypt_out mask_with_twice)
qed

lemma in_chunks_law:
  assumes "inv c" "in_chunks crypt c xss = (c', out)"
  shows "inv c' \<and> out = mask_with (key_stream c) (length (concat xss)) (concat xss) \<and>
    (\<forall>i. key_stream c' i = key_stream c (length (concat xss) + i))"
  using assms
proof (induction xss arbitrary: c c' out)
  case Nil
  then show ?case by (simp add: mask_with_def)
next
  case (Cons xs xss)
  obtain c1 o1 where 1: "crypt c (length xs) xs = (c1, o1)" by force
  obtain c2 o2 where 2: "in_chunks crypt c1 xss = (c2, o2)" by force
  have eq: "c' = c2" "out = o1 @ o2" using Cons.prems(2) 1 2 by simp_all
  from crypt_law [OF Cons.prems(1) _ 1]
  have l1: "inv c1" "o1 = mask_with (key_stream c) (length xs) xs"
    and k1: "\<And>i. key_stream c1 i = key_stream c (length xs + i)" by simp_all
  from Cons.IH [OF l1(1) 2]
  have l2: "inv c2" "o2 = mask_with (key_stream c1) (length (concat xss)) (concat xss)"
    and k2: "\<And>i. key_stream c2 i = key_stream c1 (length (concat xss) + i)" by simp_all
  have "o1 = mask_with (key_stream c) (length xs) (xs @ concat xss)"
    using l1(2) by (simp add: nth_append mask_with_def)
  moreover have "o2 = mask_with (\<lambda>i. key_stream c (length xs + i)) (length (concat xss)) (drop (length xs) (xs @ concat xss))"
    using l2(2) k1 by (simp add: mask_with_def)
  ultimately have "o1 @ o2 = mask_with (key_stream c) (length xs + length (concat xss)) (xs @ concat xss)"
    by (simp only: mask_with_append length_append)
  with eq l2 k1 k2 show ?case by (simp add: add.assoc)
qed

text \<open>How the text is cut into calls does not matter.\<close>

lemma in_chunks_eq:
  assumes "inv c"
  shows "snd (in_chunks crypt c xss) = snd (crypt c (length (concat xss)) (concat xss))"
  using in_chunks_law [OF assms, of xss] crypt_out [OF assms order_refl]
  by (cases "in_chunks crypt c xss") simp

end

section \<open>Absorbers\<close>

fun absorb_chunks :: "('c \<Rightarrow> nat \<Rightarrow> bytes \<Rightarrow> 'c) \<Rightarrow> 'c \<Rightarrow> bytes list \<Rightarrow> 'c" where
  "absorb_chunks f c [] = c"
| "absorb_chunks f c (xs # xss) = absorb_chunks f (f c (length xs) xs) xss"

locale absorber =
  fixes absorbed :: "'k \<Rightarrow> 'c \<Rightarrow> bytes \<Rightarrow> bool"
    and update :: "'c \<Rightarrow> nat \<Rightarrow> bytes \<Rightarrow> 'c"
  assumes update_law: "absorbed k c msg \<Longrightarrow> n \<le> length data \<Longrightarrow> absorbed k (update c n data) (msg @ take n data)"
begin

lemma absorb_chunks_law: "absorbed k c msg \<Longrightarrow> absorbed k (absorb_chunks update c xss) (msg @ concat xss)"
proof (induction xss arbitrary: c msg)
  case Nil
  then show ?case by simp
next
  case (Cons xs xss)
  from update_law [OF Cons.prems order_refl] have "absorbed k (update c (length xs) xs) (msg @ xs)" by simp
  from Cons.IH [OF this] show ?case by simp
qed

end

end
