(* ===== verification/Ccchacha20.thy ===== *)
theory Ccchacha20
  imports Cc_Priv Cc_Stream
begin

unbundle bit_operations_syntax

text \<open>
  The ChaCha20 cipher of \<open>ccchacha20poly1305.c\<close>.  The context keeps the sixteen state words
  of RFC 8439 (\<open>state[12]\<close> is the block counter), the last key stream block and how much of it
  is used (\<open>leftover\<close>).  \<open>_ccchacha20_xor\<close> is the portable loop; the SIMD variant is in
  \<open>Ccchacha20_Simd\<close>.  The lemmas show that an update masks its input with the next bytes of
  the key stream, whatever was left over from the previous one, so the cipher is an instance of
  \<open>stream_cipher\<close>.
\<close>

record ccchacha20_ctx =
  chacha_state :: "u32 list"
  chacha_buffer :: bytes
  chacha_leftover :: nat

definition ROTL32 :: "u32 \<Rightarrow> nat \<Rightarrow> u32" where
  "ROTL32 v n = push_bit n v OR drop_bit (32 - n) v"

definition CHACHA20_QUARTERROUND :: "u32 \<Rightarrow> u32 \<Rightarrow> u32 \<Rightarrow> u32 \<Rightarrow> u32 \<times> u32 \<times> u32 \<times> u32" where
  "CHACHA20_QUARTERROUND a b c d =
     (let a = a + b; d = ROTL32 (d XOR a) 16;
          c = c + d; b = ROTL32 (b XOR c) 12;
          a = a + b; d = ROTL32 (d XOR a) 8;
          c = c + d; b = ROTL32 (b XOR c) 7
      in (a, b, c, d))"

definition kChaCha20Constants :: "u32 list" where
  "kChaCha20Constants = [0x61707865, 0x3320646e, 0x79622d32, 0x6b206574]"

section \<open>Set-up\<close>

definition ccchacha20_reset :: "ccchacha20_ctx \<Rightarrow> ccchacha20_ctx" where
  "ccchacha20_reset ctx = ctx\<lparr>chacha_state := (chacha_state ctx)[12 := 0], chacha_leftover := 0\<rparr>"

definition ccchacha20_init :: "ccchacha20_ctx \<Rightarrow> bytes \<Rightarrow> ccchacha20_ctx" where
  "ccchacha20_init ctx key =
     (let s = chacha_state ctx;
          s = s[0 := kChaCha20Constants ! 0, 1 := kChaCha20Constants ! 1,
                2 := kChaCha20Constants ! 2, 3 := kChaCha20Constants ! 3];
          s = s[4 := cc_load32_le (drop 0 key), 5 := cc_load32_le (drop 4 key),
                6 := cc_load32_le (drop 8 key), 7 := cc_load32_le (drop 12 key)];
          s = s[8 := cc_load32_le (drop 16 key), 9 := cc_load32_le (drop 20 key),
                10 := cc_load32_le (drop 24 key), 11 := cc_load32_le (drop 28 key)]
      in ccchacha20_reset (ctx\<lparr>chacha_state := s\<rparr>))"

definition ccchacha20_setnonce :: "ccchacha20_ctx \<Rightarrow> bytes \<Rightarrow> ccchacha20_ctx" where
  "ccchacha20_setnonce ctx nonce = ctx\<lparr>chacha_state := (chacha_state ctx)
     [13 := cc_load32_le (drop 0 nonce), 14 := cc_load32_le (drop 4 nonce), 15 := cc_load32_le (drop 8 nonce)]\<rparr>"

definition ccchacha20_setcounter :: "ccchacha20_ctx \<Rightarrow> u32 \<Rightarrow> ccchacha20_ctx" where
  "ccchacha20_setcounter ctx counter = ctx\<lparr>chacha_state := (chacha_state ctx)[12 := counter]\<rparr>"

section \<open>The block function\<close>

definition quarterround_at :: "nat \<Rightarrow> nat \<Rightarrow> nat \<Rightarrow> nat \<Rightarrow> u32 list \<Rightarrow> u32 list" where
  "quarterround_at i j k l x =
     (let (a, b, c, d) = CHACHA20_QUARTERROUND (x ! i) (x ! j) (x ! k) (x ! l)
      in x[i := a, j := b, k := c, l := d])"

definition chacha20_doubleround :: "u32 list \<Rightarrow> u32 list" where
  "chacha20_doubleround x =
     (let x = quarterround_at 0 4 8 12 x; x = quarterround_at 1 5 9 13 x;
          x = quarterround_at 2 6 10 14 x; x = quarterround_at 3 7 11 15 x;
          x = quarterround_at 0 5 10 15 x; x = quarterround_at 1 6 11 12 x;
          x = quarterround_at 2 7 8 13 x; x = quarterround_at 3 4 9 14 x
      in x)"

text \<open>\<open>for (i = 20; i > 0; i -= 2)\<close>.\<close>

fun chacha20_rounds :: "nat \<Rightarrow> u32 list \<Rightarrow> u32 list" where
  "chacha20_rounds i x = (if 0 < i then chacha20_rounds (i - 2) (chacha20_doubleround x) else x)"

declare chacha20_rounds.simps [simp del]

definition chacha20_words :: "u32 list \<Rightarrow> u32 list" where
  "chacha20_words j = map2 (+) (chacha20_rounds 20 j) j"

definition chacha20_block :: "u32 list \<Rightarrow> bytes \<Rightarrow> bytes" where
  "chacha20_block j src =
     (let x = chacha20_words j;
          x = map (\<lambda>i. x ! i XOR cc_load32_le (drop (4 * i) src)) [0..<16]
      in concat (map cc_store32_le x))"

text \<open>
  The loop over blocks.  A last partial block is copied into \<open>tmp\<close>, whose other bytes are
  whatever they were, and only \<open>nbytes\<close> of the result are copied out.
\<close>

function chacha20_xor_loop :: "bytes \<Rightarrow> u32 list \<Rightarrow> nat \<Rightarrow> bytes \<Rightarrow> u32 \<times> bytes" where
  "chacha20_xor_loop tmp j nbytes src =
     (let out = chacha20_block j (if nbytes < 64 then take nbytes src @ drop nbytes tmp else src);
          j = j[12 := j ! 12 + 1]
      in if nbytes \<le> 64 then (j ! 12, if nbytes < 64 then take nbytes out else out)
         else let (c, rest) = chacha20_xor_loop tmp j (nbytes - 64) (drop 64 src) in (c, out @ rest))"
  by pat_completeness auto
termination by (relation "measure (\<lambda>(tmp, j, nbytes, src). nbytes)") auto

declare chacha20_xor_loop.simps [simp del]

definition ccchacha20_xor :: "ccchacha20_ctx \<Rightarrow> nat \<Rightarrow> bytes \<Rightarrow> ccchacha20_ctx \<times> bytes" where
  "ccchacha20_xor ctx nbytes src =
     (let (c, out) = chacha20_xor_loop (replicate 64 0) (chacha_state ctx) nbytes src
      in (ctx\<lparr>chacha_state := (chacha_state ctx)[12 := c]\<rparr>, out))"

section \<open>Incremental encryption\<close>

text \<open>The three steps of \<open>ccchacha20_update\<close>.  Each returns the bytes it has written.\<close>

definition update_leftover :: "ccchacha20_ctx \<Rightarrow> nat \<Rightarrow> bytes \<Rightarrow> ccchacha20_ctx \<times> bytes" where
  "update_leftover ctx nbytes src =
     (if chacha_leftover ctx \<noteq> 0
      then let n = 64 - chacha_leftover ctx;
               n = (if n > nbytes then nbytes else n);
               out = cc_xor n src (drop (chacha_leftover ctx) (chacha_buffer ctx));
               l = (chacha_leftover ctx + n) AND (512 - 1)
           in (ctx\<lparr>chacha_leftover := l\<rparr>, out)
      else (ctx, []))"

definition update_blocks :: "ccchacha20_ctx \<Rightarrow> nat \<Rightarrow> bytes \<Rightarrow> ccchacha20_ctx \<times> bytes" where
  "update_blocks ctx nbytes src =
     (if nbytes \<ge> 64 then ccchacha20_xor ctx (push_bit 6 (drop_bit 6 nbytes)) src else (ctx, []))"

definition update_tail :: "ccchacha20_ctx \<Rightarrow> nat \<Rightarrow> bytes \<Rightarrow> ccchacha20_ctx \<times> bytes" where
  "update_tail ctx nbytes src =
     (if nbytes \<noteq> 0
      then let (ctx, buffer) = ccchacha20_xor ctx 64 (replicate 64 0)
           in (ctx\<lparr>chacha_buffer := buffer, chacha_leftover := nbytes\<rparr>, cc_xor nbytes src buffer)
      else (ctx, []))"

definition ccchacha20_update :: "ccchacha20_ctx \<Rightarrow> nat \<Rightarrow> bytes \<Rightarrow> ccchacha20_ctx \<times> bytes" where
  "ccchacha20_update ctx nbytes src =
     (let (ctx, out0) = update_leftover ctx nbytes src;
          src = drop (length out0) src; nbytes = nbytes - length out0;
          (ctx, out1) = update_blocks ctx nbytes src;
          src = drop (length out1) src;
          nbytes = (if nbytes \<ge> 64 then nbytes AND (64 - 1) else nbytes);
          (ctx, out2) = update_tail ctx nbytes src
      in (ctx, out0 @ out1 @ out2))"

text \<open>\<open>ccchacha20\<close>: a whole text under a key, nonce and counter.\<close>

definition ccchacha20 :: "ccchacha20_ctx \<Rightarrow> bytes \<Rightarrow> bytes \<Rightarrow> u32 \<Rightarrow> nat \<Rightarrow> bytes \<Rightarrow> int \<times> bytes" where
  "ccchacha20 ctx key nonce counter nbytes src =
     (let ctx = ccchacha20_init ctx key;
          ctx = ccchacha20_setnonce ctx nonce;
          ctx = ccchacha20_setcounter ctx counter;
          (ctx, out) = ccchacha20_xor ctx nbytes src
      in (0, out))"

section \<open>The key stream\<close>

lemma length_quarterround_at [simp]: "length (quarterround_at i j k l x) = length x"
  by (simp add: quarterround_at_def split: prod.splits)

lemma length_doubleround [simp]: "length (chacha20_doubleround x) = length x"
  by (simp add: chacha20_doubleround_def)

lemma length_rounds [simp]: "length (chacha20_rounds i x) = length x"
  by (induction i x rule: chacha20_rounds.induct) (subst chacha20_rounds.simps, simp)

lemma length_words [simp]: "length (chacha20_words j) = length j"
  by (simp add: chacha20_words_def)

text \<open>The key stream block of a state is its sixteen words in little-endian order.\<close>

definition chacha20_keyblock :: "u32 list \<Rightarrow> bytes" where
  "chacha20_keyblock j = concat (map cc_store32_le (chacha20_words j))"

lemma length_concat_store32: "length (concat (map cc_store32_le xs)) = 4 * length xs"
  by (induction xs) simp_all

lemma nth_concat_store32:
  "i < 4 * length xs \<Longrightarrow> concat (map cc_store32_le xs) ! i = cc_store32_le (xs ! (i div 4)) ! (i mod 4)"
proof (induction xs arbitrary: i)
  case (Cons x xs)
  show ?case
  proof (cases "i < 4")
    case False
    then have "i div 4 = Suc ((i - 4) div 4)" "i mod 4 = (i - 4) mod 4"
      by (simp_all add: le_div_geq le_mod_geq)
    with False Cons show ?thesis by (simp add: nth_append)
  qed (simp add: nth_append)
qed simp

lemma length_keyblock [simp]: "length j = 16 \<Longrightarrow> length (chacha20_keyblock j) = 64"
  by (simp add: chacha20_keyblock_def length_concat_store32)

lemma nth_store32_le: "k < 4 \<Longrightarrow> cc_store32_le x ! k = ucast (drop_bit (8 * k) x)"
  by (auto simp: cc_store32_le_def less_Suc_eq numeral_eq_Suc)

lemma store_xor_load:
  assumes "4 \<le> length bs" "k < 4"
  shows "cc_store32_le (x XOR cc_load32_le bs) ! k = bs ! k XOR cc_store32_le x ! k"
proof -
  have "cc_load32_le bs = cc_load32_le (take 4 bs)" using assms by (simp add: cc_load32_le_def)
  then have "cc_store32_le (cc_load32_le bs) = take 4 bs" using assms(1) by (simp add: store_load)
  then have "bs ! k = ucast (drop_bit (8 * k) (cc_load32_le bs))"
    using assms(2) by (metis nth_store32_le nth_take)
  then show ?thesis
    using assms(2) by (simp add: nth_store32_le drop_bit_xor unsigned_xor_eq xor.commute)
qed

lemma chacha20_block_xor:
  assumes "length j = 16" "64 \<le> length src"
  shows "chacha20_block j src = mask_with ((!) (chacha20_keyblock j)) 64 src"
proof (rule nth_equalityI)
  show "length (chacha20_block j src) = length (mask_with ((!) (chacha20_keyblock j)) 64 src)"
    by (simp add: chacha20_block_def length_concat_store32 del: map_map)
  fix i assume "i < length (chacha20_block j src)"
  then have i: "i < 64" by (simp add: chacha20_block_def length_concat_store32 del: map_map)
  have d: "i div 4 < 16" "4 * (i div 4) + i mod 4 = i" using i by simp_all
  have "cc_store32_le (chacha20_words j ! (i div 4) XOR cc_load32_le (drop (4 * (i div 4)) src)) ! (i mod 4) =
      drop (4 * (i div 4)) src ! (i mod 4) XOR cc_store32_le (chacha20_words j ! (i div 4)) ! (i mod 4)"
    using assms d by (intro store_xor_load) simp_all
  then show "chacha20_block j src ! i = mask_with ((!) (chacha20_keyblock j)) 64 src ! i"
    using i d assms by (simp add: chacha20_block_def chacha20_keyblock_def nth_concat_store32 del: map_map)
qed

definition chacha20_stream :: "u32 list \<Rightarrow> nat \<Rightarrow> byte" where
  "chacha20_stream j i = chacha20_keyblock (j[12 := j ! 12 + of_nat (i div 64)]) ! (i mod 64)"

lemma chacha20_stream_block: "length j = 16 \<Longrightarrow> i < 64 \<Longrightarrow> chacha20_stream j i = chacha20_keyblock j ! i"
  by (simp add: chacha20_stream_def)

lemma chacha20_stream_shift:
  "length j = 16 \<Longrightarrow> chacha20_stream (j[12 := j ! 12 + of_nat k]) i = chacha20_stream j (64 * k + i)"
  by (simp add: chacha20_stream_def add.assoc)

text \<open>The loop masks its input with the key stream and counts one block for each it starts.\<close>

lemma chacha20_xor_loop_eq:
  assumes "length j = 16" "nbytes \<le> length src" "length tmp = 64"
  shows "chacha20_xor_loop tmp j nbytes src =
    (j ! 12 + of_nat (if nbytes = 0 then 1 else (nbytes + 63) div 64), mask_with (chacha20_stream j) nbytes src)"
  using assms
proof (induction tmp j nbytes src rule: chacha20_xor_loop.induct)
  case (1 tmp j nbytes src)
  let ?src = "if nbytes < 64 then take nbytes src @ drop nbytes tmp else src"
  let ?j = "j[12 := j ! 12 + 1]"
  have out: "chacha20_block j ?src = mask_with ((!) (chacha20_keyblock j)) 64 ?src"
    by (rule chacha20_block_xor) (use "1.prems" in auto)
  show ?case
  proof (cases "nbytes \<le> 64")
    case True
    have "(if nbytes < 64 then take nbytes (chacha20_block j ?src) else chacha20_block j ?src) =
        mask_with (chacha20_stream j) nbytes src"
      unfolding out using True "1.prems"
      by (intro nth_equalityI) (auto simp: chacha20_stream_block nth_append)
    moreover have "of_nat (if nbytes = 0 then 1 else (nbytes + 63) div 64) = (1 :: u32)"
    proof (cases "nbytes = 0")
      case False
      then have "(nbytes + 63) div 64 = 1" using True by (simp add: div_nat_eqI)
      then show ?thesis by simp
    qed simp
    ultimately show ?thesis using True "1.prems" by (subst chacha20_xor_loop.simps) (simp add: Let_def)
  next
    case False
    have ih: "chacha20_xor_loop tmp ?j (nbytes - 64) (drop 64 src) =
        (?j ! 12 + of_nat (if nbytes - 64 = 0 then 1 else (nbytes - 64 + 63) div 64),
         mask_with (chacha20_stream ?j) (nbytes - 64) (drop 64 src))"
      using "1.IH" [OF refl refl False] "1.prems" by (simp add: out)
    have n: "(nbytes + 63) div 64 = Suc ((nbytes - 64 + 63) div 64)"
      using False by (simp add: le_div_geq)
    have st: "chacha20_stream ?j i = chacha20_stream j (64 + i)" for i
      using chacha20_stream_shift [of j 1 i] "1.prems"(1) by simp
    have "mask_with ((!) (chacha20_keyblock j)) 64 src @ mask_with (chacha20_stream ?j) (nbytes - 64) (drop 64 src) =
        mask_with (chacha20_stream j) nbytes src"
    proof -
      have "mask_with ((!) (chacha20_keyblock j)) 64 src = mask_with (chacha20_stream j) 64 src"
        by (rule nth_equalityI) (use "1.prems"(1) in \<open>simp_all add: chacha20_stream_block\<close>)
      moreover have "mask_with (chacha20_stream ?j) (nbytes - 64) (drop 64 src) =
          mask_with (\<lambda>i. chacha20_stream j (64 + i)) (nbytes - 64) (drop 64 src)"
        by (simp add: mask_with_def st)
      moreover have "64 \<le> length src" using False "1.prems"(2) by simp
      ultimately show ?thesis using mask_with_append [of 64 src "chacha20_stream j" "nbytes - 64"] False by simp
    qed
    moreover have "nbytes - 64 \<noteq> 0" "nbytes \<noteq> 0" using False by simp_all
    ultimately show ?thesis
      using False ih out n "1.prems"(1)
      by (subst chacha20_xor_loop.simps) (simp add: Let_def add.assoc)
  qed
qed

section \<open>Updates are calls of a stream cipher\<close>

text \<open>
  What is left of the key stream: the unused part of the buffered block, then the blocks from
  the counter on.
\<close>

definition chacha_wf :: "ccchacha20_ctx \<Rightarrow> bool" where
  "chacha_wf ctx \<longleftrightarrow> length (chacha_state ctx) = 16 \<and> length (chacha_buffer ctx) = 64 \<and> chacha_leftover ctx \<le> 64"

definition chacha_pending :: "ccchacha20_ctx \<Rightarrow> bytes" where
  "chacha_pending ctx = (if chacha_leftover ctx = 0 then [] else drop (chacha_leftover ctx) (chacha_buffer ctx))"

definition chacha_remaining :: "ccchacha20_ctx \<Rightarrow> nat \<Rightarrow> byte" where
  "chacha_remaining ctx i =
     (if i < length (chacha_pending ctx) then chacha_pending ctx ! i
      else chacha20_stream (chacha_state ctx) (i - length (chacha_pending ctx)))"

definition serves :: "ccchacha20_ctx \<Rightarrow> nat \<Rightarrow> bytes \<Rightarrow> ccchacha20_ctx \<times> bytes \<Rightarrow> bool" where
  "serves ctx n src r \<longleftrightarrow> chacha_wf (fst r) \<and> snd r = mask_with (chacha_remaining ctx) n src \<and>
     (\<forall>i. chacha_remaining (fst r) i = chacha_remaining ctx (n + i))"

lemma serves_append:
  assumes "serves ctx n src (ctx1, out1)" "serves ctx1 m (drop n src) (ctx2, out2)" "n \<le> length src"
  shows "serves ctx (n + m) src (ctx2, out1 @ out2)"
proof -
  have "out2 = mask_with (\<lambda>i. chacha_remaining ctx (n + i)) m (drop n src)"
    using assms(1,2) by (simp add: serves_def mask_with_def)
  then show ?thesis
    using assms mask_with_append [OF assms(3), of "chacha_remaining ctx" m]
    by (simp add: serves_def add.assoc)
qed

lemma serves_nothing: "chacha_wf ctx \<Longrightarrow> serves ctx 0 src (ctx, [])"
  by (simp add: serves_def mask_with_def)

lemma cc_xor_eq_mask: "(\<And>i. i < n \<Longrightarrow> t ! i = ks i) \<Longrightarrow> cc_xor n s t = mask_with ks n s"
  by (rule nth_equalityI) (simp_all add: nth_cc_xor)

lemma and_512: "n < 512 \<Longrightarrow> n AND (512 - 1) = (n :: nat)"
  using take_bit_nat_eq_self [of n 9] by (simp add: take_bit_eq_mask mask_eq_exp_minus_1)

lemma and_63: "n AND (64 - 1) = n mod (64 :: nat)"
  using take_bit_eq_mask [of 6 n] by (simp add: take_bit_eq_mod mask_eq_exp_minus_1)

lemma blocks_64: "push_bit 6 (drop_bit 6 n) = n - n mod (64 :: nat)"
  by (simp add: push_bit_eq_mult drop_bit_eq_div minus_mod_eq_div_mult)

lemma update_leftover_serves:
  assumes "chacha_wf ctx" "nbytes \<le> length src"
  defines "n \<equiv> min (length (chacha_pending ctx)) nbytes"
  shows "serves ctx n src (update_leftover ctx nbytes src)"
    "n < nbytes \<Longrightarrow> chacha_pending (fst (update_leftover ctx nbytes src)) = []"
proof -
  let ?l = "chacha_leftover ctx"
  have "serves ctx n src (update_leftover ctx nbytes src) \<and>
      (n < nbytes \<longrightarrow> chacha_pending (fst (update_leftover ctx nbytes src)) = [])"
  proof (cases "?l = 0")
    case True
    then show ?thesis
      using assms serves_nothing [OF assms(1)] by (simp add: update_leftover_def chacha_pending_def)
  next
    case False
    have wf: "length (chacha_buffer ctx) = 64" "?l \<le> 64" using assms(1) by (auto simp: chacha_wf_def)
    have p: "chacha_pending ctx = drop ?l (chacha_buffer ctx)" using False by (simp add: chacha_pending_def)
    have n: "n = (if 64 - ?l > nbytes then nbytes else 64 - ?l)" "n \<le> 64 - ?l"
      using wf by (auto simp: n_def p)
    let ?ctx = "ctx\<lparr>chacha_leftover := ?l + n\<rparr>"
    have u: "update_leftover ctx nbytes src = (?ctx, cc_xor n src (drop ?l (chacha_buffer ctx)))"
      using False wf n and_512 [of "?l + n"] by (simp add: update_leftover_def Let_def split: if_splits)
    have p': "chacha_pending ?ctx = drop n (chacha_pending ctx)"
      using False by (simp add: chacha_pending_def add.commute)
    have ln: "n \<le> length (chacha_pending ctx)" by (simp add: n_def)
    have "cc_xor n src (drop ?l (chacha_buffer ctx)) = mask_with (chacha_remaining ctx) n src"
      using ln by (intro cc_xor_eq_mask) (simp add: chacha_remaining_def p [symmetric])
    moreover have "chacha_remaining ?ctx i = chacha_remaining ctx (n + i)" for i
      using ln p' by (auto simp: chacha_remaining_def add.commute)
    moreover have "chacha_wf ?ctx" using assms(1) n wf by (simp add: chacha_wf_def)
    moreover have "n < nbytes \<longrightarrow> chacha_pending ?ctx = []" unfolding p' by (simp add: n_def)
    ultimately show ?thesis by (simp add: u serves_def)
  qed
  then show "serves ctx n src (update_leftover ctx nbytes src)"
    "n < nbytes \<Longrightarrow> chacha_pending (fst (update_leftover ctx nbytes src)) = []" by simp_all
qed

lemma ccchacha20_xor_blocks:
  assumes "chacha_wf ctx" "64 * Suc k \<le> length src"
  shows "ccchacha20_xor ctx (64 * Suc k) src =
    (ctx\<lparr>chacha_state := (chacha_state ctx)[12 := chacha_state ctx ! 12 + of_nat (Suc k)]\<rparr>,
     mask_with (chacha20_stream (chacha_state ctx)) (64 * Suc k) src)"
proof -
  have "(64 * Suc k + 63) div 64 = Suc k" by simp
  then show ?thesis
    using chacha20_xor_loop_eq [of "chacha_state ctx" "64 * Suc k" src "replicate 64 0"] assms
    by (simp add: ccchacha20_xor_def chacha_wf_def del: of_nat_Suc)
qed

lemma chacha20_stream_counter:
  "chacha_wf ctx \<Longrightarrow> chacha20_stream ((chacha_state ctx)[12 := chacha_state ctx ! 12 + of_nat k]) i =
    chacha20_stream (chacha_state ctx) (64 * k + i)"
  by (rule chacha20_stream_shift) (simp add: chacha_wf_def)

lemma remaining_no_pending:
  "chacha_pending ctx = [] \<Longrightarrow> chacha_remaining ctx = chacha20_stream (chacha_state ctx)"
  by (rule ext) (simp add: chacha_remaining_def)

lemma update_blocks_serves:
  assumes "chacha_wf ctx" "nbytes \<le> length src" "chacha_pending ctx = []"
  shows "serves ctx (nbytes - nbytes mod 64) src (update_blocks ctx nbytes src)"
    "chacha_pending (fst (update_blocks ctx nbytes src)) = []"
proof -
  have "serves ctx (nbytes - nbytes mod 64) src (update_blocks ctx nbytes src) \<and>
      chacha_pending (fst (update_blocks ctx nbytes src)) = []"
  proof (cases "nbytes \<ge> 64")
    case True
    then obtain k where k: "nbytes - nbytes mod 64 = 64 * Suc k"
      by (metis Suc_pred div_greater_zero_iff minus_mod_eq_mult_div zero_less_numeral)
    then have "64 * Suc k \<le> length src" using assms(2) by linarith
    note x = ccchacha20_xor_blocks [OF assms(1) this]
    let ?ctx = "ctx\<lparr>chacha_state := (chacha_state ctx)[12 := chacha_state ctx ! 12 + of_nat (Suc k)]\<rparr>"
    have u: "update_blocks ctx nbytes src = (?ctx, mask_with (chacha20_stream (chacha_state ctx)) (64 * Suc k) src)"
      unfolding update_blocks_def blocks_64 k x using True by simp
    have p: "chacha_pending ?ctx = []" using assms(3) by (simp add: chacha_pending_def split: if_splits)
    have "chacha_wf ?ctx" using assms(1) by (simp add: chacha_wf_def)
    then show ?thesis
      unfolding u k serves_def fst_conv snd_conv remaining_no_pending [OF p] remaining_no_pending [OF assms(3)]
      using chacha20_stream_counter [OF assms(1), of "Suc k"] p by simp
  qed (use assms serves_nothing in \<open>auto simp: update_blocks_def\<close>)
  then show "serves ctx (nbytes - nbytes mod 64) src (update_blocks ctx nbytes src)"
    "chacha_pending (fst (update_blocks ctx nbytes src)) = []" by simp_all
qed

lemma update_tail_serves:
  assumes "chacha_wf ctx" "nbytes \<le> length src" "nbytes < 64" "nbytes = 0 \<or> chacha_pending ctx = []"
  shows "serves ctx nbytes src (update_tail ctx nbytes src)"
proof (cases "nbytes = 0")
  case True
  then show ?thesis using serves_nothing [OF assms(1)] by (simp add: update_tail_def)
next
  case False
  let ?buf = "mask_with (chacha20_stream (chacha_state ctx)) 64 (replicate 64 0)"
  have b: "?buf ! i = chacha20_stream (chacha_state ctx) i" if "i < 64" for i using that by simp
  have x: "ccchacha20_xor ctx 64 (replicate 64 0) =
      (ctx\<lparr>chacha_state := (chacha_state ctx)[12 := chacha_state ctx ! 12 + 1]\<rparr>, ?buf)"
    using ccchacha20_xor_blocks [OF assms(1), of 0 "replicate 64 0"] by simp
  have "cc_xor nbytes src ?buf = mask_with (chacha_remaining ctx) nbytes src"
    using assms False by (intro cc_xor_eq_mask) (simp add: chacha_remaining_def)
  then show ?thesis
    using False assms x b chacha20_stream_counter [OF assms(1), of 1]
    by (auto simp: update_tail_def serves_def chacha_wf_def chacha_remaining_def chacha_pending_def add.commute)
qed

lemma update_serves:
  assumes "chacha_wf ctx" "nbytes \<le> length src"
  shows "serves ctx nbytes src (ccchacha20_update ctx nbytes src)"
proof -
  obtain c0 o0 where 0: "update_leftover ctx nbytes src = (c0, o0)" by force
  note s0 = update_leftover_serves [OF assms, unfolded 0 fst_conv]
  let ?n = "nbytes - length o0" and ?src = "drop (length o0) src"
  have l0: "length o0 = min (length (chacha_pending ctx)) nbytes" using s0(1) by (simp add: serves_def)
  have n: "?n \<le> length ?src" using assms(2) by simp
  have w0: "chacha_wf c0" using s0(1) by (simp add: serves_def)
  obtain c1 o1 where 1: "update_blocks c0 ?n ?src = (c1, o1)" by force
  let ?t = "if ?n \<ge> 64 then ?n AND (64 - 1) else ?n"
  have t: "?t = ?n mod 64" unfolding and_63 by simp
  have s1: "serves c0 (?n - ?n mod 64) ?src (c1, o1) \<and> (?n mod 64 \<noteq> 0 \<longrightarrow> chacha_pending c1 = [])"
  proof (cases "?n = 0")
    case True
    then show ?thesis using 1 serves_nothing [OF w0] by (simp add: update_blocks_def)
  next
    case False
    then have "chacha_pending c0 = []" using s0(2) l0 by simp
    from update_blocks_serves [OF w0 n this] show ?thesis by (simp add: 1)
  qed
  then have l1: "length o1 = ?n - ?n mod 64" and w1: "chacha_wf c1" by (simp_all add: serves_def)
  obtain c2 o2 where 2: "update_tail c1 (?n mod 64) (drop (length o1) ?src) = (c2, o2)" by force
  have "?n mod 64 \<le> ?n" by simp
  then have "?n mod 64 \<le> length ?src - (?n - ?n mod 64)" using n by linarith
  then have "?n mod 64 \<le> length (drop (length o1) ?src)" using l1 by (simp only: length_drop)
  from update_tail_serves [OF w1 this] s1
  have "serves c1 (?n mod 64) (drop (length o1) ?src) (c2, o2)" unfolding 2 by auto
  moreover have "serves ctx (length o0) src (c0, o0)" using s0(1) l0 by simp
  moreover have "serves c0 (length o1) ?src (c1, o1)" using s1 l1 by simp
  moreover have "length o0 \<le> length src" "length o1 \<le> length ?src" using l0 l1 assms(2) n by linarith+
  ultimately have "serves ctx (length o0 + (length o1 + ?n mod 64)) src (c2, o0 @ o1 @ o2)"
    by (intro serves_append)
  moreover have "length o0 + (length o1 + ?n mod 64) = nbytes"
    using l0 l1 mod_less_eq_dividend [of ?n 64] by linarith
  moreover have "ccchacha20_update ctx nbytes src = (c2, o0 @ o1 @ o2)"
    unfolding ccchacha20_update_def Let_def 0 1 2 t prod.case by simp
  ultimately show ?thesis by simp
qed

interpretation chacha: stream_cipher chacha_wf chacha_remaining ccchacha20_update
  by unfold_locales (use update_serves in \<open>force simp: serves_def\<close>)

end
