(* ===== verification/Ccpoly1305.thy ===== *)
theory Ccpoly1305
  imports Cc_Priv Cc_Stream
begin

unbundle bit_operations_syntax

text \<open>
  Poly1305 of \<open>ccchacha20poly1305.c\<close>: the key and the accumulator in five limbs of 26 bits
  (\<open>r0\<close> to \<open>r4\<close>, \<open>h0\<close> to \<open>h4\<close>), the products in 64-bit words, and a buffer of at most one block.
  The lemmas bound every intermediate word (none wraps), show that a block step is
  \<open>(h + block) * r\<close> modulo \<open>2 ^ 130 - 5\<close>, that updates absorb the concatenation of their inputs, and
  which tag \<open>ccpoly1305_final\<close> writes.
\<close>

record ccpoly1305_ctx =
  poly_r0 :: u32
  poly_r1 :: u32
  poly_r2 :: u32
  poly_r3 :: u32
  poly_r4 :: u32
  poly_s1 :: u32
  poly_s2 :: u32
  poly_s3 :: u32
  poly_s4 :: u32
  poly_h0 :: u32
  poly_h1 :: u32
  poly_h2 :: u32
  poly_h3 :: u32
  poly_h4 :: u32
  poly_buf :: bytes
  poly_buf_used :: nat
  poly_key :: bytes

definition mul32x32_64 :: "u32 \<Rightarrow> u32 \<Rightarrow> cc_unit" where
  "mul32x32_64 a b = ucast a * ucast b"

definition ccpoly1305_init :: "ccpoly1305_ctx \<Rightarrow> bytes \<Rightarrow> ccpoly1305_ctx" where
  "ccpoly1305_init ctx key =
     (let t0 = cc_load32_le (drop 0 key); t1 = cc_load32_le (drop 4 key);
          t2 = cc_load32_le (drop 8 key); t3 = cc_load32_le (drop 12 key);
          r0 = t0 AND 0x3ffffff; t0 = drop_bit 26 t0; t0 = t0 OR push_bit 6 t1;
          r1 = t0 AND 0x3ffff03; t1 = drop_bit 20 t1; t1 = t1 OR push_bit 12 t2;
          r2 = t1 AND 0x3ffc0ff; t2 = drop_bit 14 t2; t2 = t2 OR push_bit 18 t3;
          r3 = t2 AND 0x3f03fff; t3 = drop_bit 8 t3;
          r4 = t3 AND 0x00fffff
      in ctx\<lparr>poly_r0 := r0, poly_r1 := r1, poly_r2 := r2, poly_r3 := r3, poly_r4 := r4,
           poly_s1 := r1 * 5, poly_s2 := r2 * 5, poly_s3 := r3 * 5, poly_s4 := r4 * 5,
           poly_h0 := 0, poly_h1 := 0, poly_h2 := 0, poly_h3 := 0, poly_h4 := 0,
           poly_buf_used := 0, poly_key := map (\<lambda>i. key ! (i + 16)) [0..<16]\<rparr>)"

section \<open>Blocks\<close>

text \<open>Adding sixteen bytes to the accumulator; \<open>hibit\<close> is what \<open>h4\<close> gets besides them.\<close>

definition poly1305_add :: "u32 \<Rightarrow> ccpoly1305_ctx \<Rightarrow> bytes \<Rightarrow> ccpoly1305_ctx" where
  "poly1305_add hibit ctx src =
     (let t0 = cc_load32_le src; t1 = cc_load32_le (drop 4 src);
          t2 = cc_load32_le (drop 8 src); t3 = cc_load32_le (drop 12 src)
      in ctx\<lparr>poly_h0 := poly_h0 ctx + (t0 AND 0x3ffffff),
           poly_h1 := poly_h1 ctx + ucast (drop_bit 26 (push_bit 32 (ucast t1 :: cc_unit) OR ucast t0) AND 0x3ffffff),
           poly_h2 := poly_h2 ctx + ucast (drop_bit 20 (push_bit 32 (ucast t2 :: cc_unit) OR ucast t1) AND 0x3ffffff),
           poly_h3 := poly_h3 ctx + ucast (drop_bit 14 (push_bit 32 (ucast t3 :: cc_unit) OR ucast t2) AND 0x3ffffff),
           poly_h4 := poly_h4 ctx + (drop_bit 8 t3 OR hibit)\<rparr>)"

text \<open>The multiplication at \<open>poly1305_donna_mul\<close> and the carry pass after it.\<close>

definition poly1305_mul :: "ccpoly1305_ctx \<Rightarrow> ccpoly1305_ctx" where
  "poly1305_mul ctx =
     (let h0 = poly_h0 ctx; h1 = poly_h1 ctx; h2 = poly_h2 ctx; h3 = poly_h3 ctx; h4 = poly_h4 ctx;
          r0 = poly_r0 ctx; r1 = poly_r1 ctx; r2 = poly_r2 ctx; r3 = poly_r3 ctx; r4 = poly_r4 ctx;
          s1 = poly_s1 ctx; s2 = poly_s2 ctx; s3 = poly_s3 ctx; s4 = poly_s4 ctx;
          t0 = mul32x32_64 h0 r0 + mul32x32_64 h1 s4 + mul32x32_64 h2 s3 + mul32x32_64 h3 s2 + mul32x32_64 h4 s1;
          t1 = mul32x32_64 h0 r1 + mul32x32_64 h1 r0 + mul32x32_64 h2 s4 + mul32x32_64 h3 s3 + mul32x32_64 h4 s2;
          t2 = mul32x32_64 h0 r2 + mul32x32_64 h1 r1 + mul32x32_64 h2 r0 + mul32x32_64 h3 s4 + mul32x32_64 h4 s3;
          t3 = mul32x32_64 h0 r3 + mul32x32_64 h1 r2 + mul32x32_64 h2 r1 + mul32x32_64 h3 r0 + mul32x32_64 h4 s4;
          t4 = mul32x32_64 h0 r4 + mul32x32_64 h1 r3 + mul32x32_64 h2 r2 + mul32x32_64 h3 r1 + mul32x32_64 h4 r0;
          h0 = (ucast t0 :: u32) AND 0x3ffffff; c = drop_bit 26 t0;
          t1 = t1 + c; h1 = (ucast t1 :: u32) AND 0x3ffffff; b = (ucast (drop_bit 26 t1) :: u32);
          t2 = t2 + ucast b; h2 = (ucast t2 :: u32) AND 0x3ffffff; b = (ucast (drop_bit 26 t2) :: u32);
          t3 = t3 + ucast b; h3 = (ucast t3 :: u32) AND 0x3ffffff; b = (ucast (drop_bit 26 t3) :: u32);
          t4 = t4 + ucast b; h4 = (ucast t4 :: u32) AND 0x3ffffff; b = (ucast (drop_bit 26 t4) :: u32);
          h0 = h0 + b * 5
      in ctx\<lparr>poly_h0 := h0, poly_h1 := h1, poly_h2 := h2, poly_h3 := h3, poly_h4 := h4\<rparr>)"

text \<open>
  \<open>_ccpoly1305_update\<close>: whole blocks (with the bit \<open>2 ^ 128\<close> set), then a last short one, padded with
  a one byte and zeros.
\<close>

function ccpoly1305_blocks :: "ccpoly1305_ctx \<Rightarrow> nat \<Rightarrow> bytes \<Rightarrow> ccpoly1305_ctx" where
  "ccpoly1305_blocks ctx nbytes src =
     (if nbytes < 16
      then if nbytes = 0 then ctx
           else let mp = take nbytes src @ [1] @ replicate (15 - nbytes) 0
                in poly1305_mul (poly1305_add 0 ctx mp)
      else ccpoly1305_blocks (poly1305_mul (poly1305_add (push_bit 24 1) ctx src)) (nbytes - 16) (drop 16 src))"
  by pat_completeness auto
termination by (relation "measure (\<lambda>(ctx, nbytes, src). nbytes)") auto

declare ccpoly1305_blocks.simps [simp del]

section \<open>Incremental update\<close>

definition ccpoly1305_fill :: "ccpoly1305_ctx \<Rightarrow> nat \<Rightarrow> bytes \<Rightarrow> ccpoly1305_ctx \<times> nat" where
  "ccpoly1305_fill ctx nbytes src =
     (if poly_buf_used ctx \<noteq> 0
      then let n = 16 - poly_buf_used ctx;
               n = (if n > nbytes then nbytes else n);
               ctx = ctx\<lparr>poly_buf := take (poly_buf_used ctx) (poly_buf ctx) @ take n src @
                           drop (poly_buf_used ctx + n) (poly_buf ctx),
                         poly_buf_used := poly_buf_used ctx + n\<rparr>
           in (if poly_buf_used ctx = 16 then (ccpoly1305_blocks ctx 16 (poly_buf ctx))\<lparr>poly_buf_used := 0\<rparr> else ctx, n)
      else (ctx, 0))"

definition ccpoly1305_update :: "ccpoly1305_ctx \<Rightarrow> nat \<Rightarrow> bytes \<Rightarrow> ccpoly1305_ctx" where
  "ccpoly1305_update ctx nbytes src =
     (let (ctx, n) = ccpoly1305_fill ctx nbytes src;
          nbytes = nbytes - n; src = drop n src;
          n = (if nbytes \<ge> 16 then push_bit 4 (drop_bit 4 nbytes) else 0);
          ctx = (if nbytes \<ge> 16 then ccpoly1305_blocks ctx n src else ctx);
          src = drop n src;
          nbytes = (if nbytes \<ge> 16 then nbytes AND 0xf else nbytes)
      in if nbytes \<noteq> 0
         then ctx\<lparr>poly_buf := take nbytes src @ drop nbytes (poly_buf ctx), poly_buf_used := nbytes\<rparr>
         else ctx)"

section \<open>The tag\<close>

text \<open>The last carry pass, the conditional subtraction of \<open>2 ^ 130 - 5\<close>, and the addition of the pad.\<close>

definition ccpoly1305_carry :: "ccpoly1305_ctx \<Rightarrow> ccpoly1305_ctx" where
  "ccpoly1305_carry ctx =
     (let h0 = poly_h0 ctx; h1 = poly_h1 ctx; h2 = poly_h2 ctx; h3 = poly_h3 ctx; h4 = poly_h4 ctx;
          b = drop_bit 26 h0; h0 = h0 AND 0x3ffffff;
          h1 = h1 + b; b = drop_bit 26 h1; h1 = h1 AND 0x3ffffff;
          h2 = h2 + b; b = drop_bit 26 h2; h2 = h2 AND 0x3ffffff;
          h3 = h3 + b; b = drop_bit 26 h3; h3 = h3 AND 0x3ffffff;
          h4 = h4 + b; b = drop_bit 26 h4; h4 = h4 AND 0x3ffffff;
          h0 = h0 + b * 5
      in ctx\<lparr>poly_h0 := h0, poly_h1 := h1, poly_h2 := h2, poly_h3 := h3, poly_h4 := h4\<rparr>)"

definition ccpoly1305_subtract :: "ccpoly1305_ctx \<Rightarrow> ccpoly1305_ctx" where
  "ccpoly1305_subtract ctx =
     (let h0 = poly_h0 ctx; h1 = poly_h1 ctx; h2 = poly_h2 ctx; h3 = poly_h3 ctx; h4 = poly_h4 ctx;
          g0 = h0 + 5; b = drop_bit 26 g0; g0 = g0 AND 0x3ffffff;
          g1 = h1 + b; b = drop_bit 26 g1; g1 = g1 AND 0x3ffffff;
          g2 = h2 + b; b = drop_bit 26 g2; g2 = g2 AND 0x3ffffff;
          g3 = h3 + b; b = drop_bit 26 g3; g3 = g3 AND 0x3ffffff;
          g4 = h4 + b - push_bit 26 1;
          b = drop_bit 31 g4 - 1;
          nb = NOT b
      in ctx\<lparr>poly_h0 := (h0 AND nb) OR (g0 AND b), poly_h1 := (h1 AND nb) OR (g1 AND b),
           poly_h2 := (h2 AND nb) OR (g2 AND b), poly_h3 := (h3 AND nb) OR (g3 AND b),
           poly_h4 := (h4 AND nb) OR (g4 AND b)\<rparr>)"

definition ccpoly1305_tag :: "ccpoly1305_ctx \<Rightarrow> bytes" where
  "ccpoly1305_tag ctx =
     (let h0 = poly_h0 ctx; h1 = poly_h1 ctx; h2 = poly_h2 ctx; h3 = poly_h3 ctx; h4 = poly_h4 ctx; key = poly_key ctx;
          f0 = ucast (h0 OR push_bit 26 h1) + (ucast (cc_load32_le (drop 0 key)) :: cc_unit);
          f1 = ucast (drop_bit 6 h1 OR push_bit 20 h2) + (ucast (cc_load32_le (drop 4 key)) :: cc_unit);
          f2 = ucast (drop_bit 12 h2 OR push_bit 14 h3) + (ucast (cc_load32_le (drop 8 key)) :: cc_unit);
          f3 = ucast (drop_bit 18 h3 OR push_bit 8 h4) + (ucast (cc_load32_le (drop 12 key)) :: cc_unit);
          tag0 = cc_store32_le (ucast f0); f1 = f1 + drop_bit 32 f0;
          tag1 = cc_store32_le (ucast f1); f2 = f2 + drop_bit 32 f1;
          tag2 = cc_store32_le (ucast f2); f3 = f3 + drop_bit 32 f2;
          tag3 = cc_store32_le (ucast f3)
      in tag0 @ tag1 @ tag2 @ tag3)"

definition ccpoly1305_final :: "ccpoly1305_ctx \<Rightarrow> ccpoly1305_ctx \<times> bytes" where
  "ccpoly1305_final ctx =
     (let ctx = (if poly_buf_used ctx \<noteq> 0 then ccpoly1305_blocks ctx (poly_buf_used ctx) (poly_buf ctx) else ctx);
          ctx = ccpoly1305_subtract (ccpoly1305_carry ctx)
      in (ctx, ccpoly1305_tag ctx))"

definition ccpoly1305 :: "ccpoly1305_ctx \<Rightarrow> bytes \<Rightarrow> nat \<Rightarrow> bytes \<Rightarrow> int \<times> bytes" where
  "ccpoly1305 ctx key nbytes data =
     (let ctx = ccpoly1305_init ctx key;
          ctx = ccpoly1305_update ctx nbytes data;
          (ctx, out) = ccpoly1305_final ctx
      in (0, out))"

section \<open>Limbs\<close>

text \<open>The value of five limbs of 26 bits.\<close>

definition limbs26 :: "nat \<Rightarrow> nat \<Rightarrow> nat \<Rightarrow> nat \<Rightarrow> nat \<Rightarrow> nat" where
  "limbs26 a b c d e = a + 2 ^ 26 * (b + 2 ^ 26 * (c + 2 ^ 26 * (d + 2 ^ 26 * e)))"

lemma limbs26_add:
  "limbs26 (a + a') (b + b') (c + c') (d + d') (e + (e' + k)) =
   limbs26 a b c d e + (limbs26 a' b' c' d' e' + 2 ^ 104 * k)"
  by (simp add: limbs26_def algebra_simps)

definition poly_H :: "ccpoly1305_ctx \<Rightarrow> nat" where
  "poly_H ctx = limbs26 (unat (poly_h0 ctx)) (unat (poly_h1 ctx)) (unat (poly_h2 ctx)) (unat (poly_h3 ctx)) (unat (poly_h4 ctx))"

definition poly_R :: "ccpoly1305_ctx \<Rightarrow> nat" where
  "poly_R ctx = limbs26 (unat (poly_r0 ctx)) (unat (poly_r1 ctx)) (unat (poly_r2 ctx)) (unat (poly_r3 ctx)) (unat (poly_r4 ctx))"

text \<open>Cutting four 32-bit words into five limbs.\<close>

lemma limbs26_words:
  fixes t0 t1 t2 t3 :: nat
  assumes "t0 < 2 ^ 32" "t1 < 2 ^ 32" "t2 < 2 ^ 32" "t3 < 2 ^ 32"
  shows "limbs26 (t0 mod 2 ^ 26) ((t1 * 2 ^ 32 + t0) div 2 ^ 26 mod 2 ^ 26)
      ((t2 * 2 ^ 32 + t1) div 2 ^ 20 mod 2 ^ 26) ((t3 * 2 ^ 32 + t2) div 2 ^ 14 mod 2 ^ 26) (t3 div 2 ^ 8) =
    t0 + 2 ^ 32 * (t1 + 2 ^ 32 * (t2 + 2 ^ 32 * t3))"
proof -
  define a0 b0 a1 b1 a2 b2 a3 b3 where ab: "a0 = t0 mod 2 ^ 26" "b0 = t0 div 2 ^ 26"
    "a1 = t1 mod 2 ^ 20" "b1 = t1 div 2 ^ 20" "a2 = t2 mod 2 ^ 14" "b2 = t2 div 2 ^ 14"
    "a3 = t3 mod 2 ^ 8" "b3 = t3 div 2 ^ 8"
  have t: "t0 = a0 + 2 ^ 26 * b0" "t1 = a1 + 2 ^ 20 * b1" "t2 = a2 + 2 ^ 14 * b2" "t3 = a3 + 2 ^ 8 * b3"
    unfolding ab by simp_all
  have lt: "a0 < 2 ^ 26" "a1 < 2 ^ 20" "a2 < 2 ^ 14" "a3 < 2 ^ 8" unfolding ab by simp_all
  have b: "b0 < 2 ^ 6" "b1 < 2 ^ 12" "b2 < 2 ^ 18" unfolding ab using assms by simp_all
  have m0: "t0 mod 2 ^ 26 = a0" by (simp add: ab)
  have e1: "t1 * 2 ^ 32 + t0 = a0 + 2 ^ 26 * ((b0 + 2 ^ 6 * a1) + 2 ^ 26 * b1)"
    unfolding t(1,2) by (simp add: algebra_simps)
  have m1: "(t1 * 2 ^ 32 + t0) div 2 ^ 26 mod 2 ^ 26 = b0 + 2 ^ 6 * a1"
    unfolding e1 digit_div [OF lt(1)] by (rule digit_mod) (use b lt in simp)
  have e2: "t2 * 2 ^ 32 + t1 = a1 + 2 ^ 20 * ((b1 + 2 ^ 12 * a2) + 2 ^ 26 * b2)"
    unfolding t(2,3) by (simp add: algebra_simps)
  have m2: "(t2 * 2 ^ 32 + t1) div 2 ^ 20 mod 2 ^ 26 = b1 + 2 ^ 12 * a2"
    unfolding e2 digit_div [OF lt(2)] by (rule digit_mod) (use b lt in simp)
  have e3: "t3 * 2 ^ 32 + t2 = a2 + 2 ^ 14 * ((b2 + 2 ^ 18 * a3) + 2 ^ 26 * b3)"
    unfolding t(3,4) by (simp add: algebra_simps)
  have m3: "(t3 * 2 ^ 32 + t2) div 2 ^ 14 mod 2 ^ 26 = b2 + 2 ^ 18 * a3"
    unfolding e3 digit_div [OF lt(3)] by (rule digit_mod) (use b lt in simp)
  have m4: "t3 div 2 ^ 8 = b3" by (simp add: ab)
  show ?thesis
    unfolding m0 m1 m2 m3 m4 limbs26_def unfolding t by (simp add: algebra_simps)
qed

lemma load_words:
  assumes "16 \<le> length src"
  shows "le_val 256 (take 16 src) = unat (cc_load32_le src) + 2 ^ 32 * (unat (cc_load32_le (drop 4 src)) +
    2 ^ 32 * (unat (cc_load32_le (drop 8 src)) + 2 ^ 32 * unat (cc_load32_le (drop 12 src))))"
proof -
  have w: "unat (cc_load32_le (drop k src)) = le_val 256 (take 4 (drop k src))" if "k + 4 \<le> 16" for k
  proof -
    have "cc_load32_le (drop k src) = cc_load32_le (take 4 (drop k src))"
      using that assms by (simp add: cc_load32_le_def)
    then show ?thesis using that assms by (simp add: unat_load)
  qed
  have "take 16 src = take 4 src @ take 4 (drop 4 src) @ take 4 (drop 8 src) @ take 4 (drop 12 src)"
    using assms take_add [of 4 12 src] take_add [of 4 8 "drop 4 src"] take_add [of 4 4 "drop 8 src"] by simp
  then show ?thesis
    using assms w [of 0] w [of 4] w [of 8] w [of 12] by (simp add: le_val_append)
qed

lemma unat_limb:
  "unat (ucast (drop_bit k (push_bit 32 (ucast (y :: u32) :: cc_unit) OR ucast (x :: u32)) AND 0x3ffffff) :: u32) =
    (unat y * 2 ^ 32 + unat x) div 2 ^ k mod 2 ^ 26"
proof -
  have y: "unat (ucast y :: cc_unit) = unat y" "unat (ucast x :: cc_unit) = unat x"
    using word_bound [of y] word_bound [of x] by (simp_all add: unat_ucast_mod)
  have "unat (push_bit 32 (ucast y :: cc_unit) OR ucast x) = unat y * 2 ^ 32 + unat x"
    using word_bound [of y] word_bound [of x] unat_or_push_bit [of "ucast x :: cc_unit" 32 "ucast y"] y by simp
  note v = this
  have m: "(0x3ffffff :: cc_unit) = mask 26" by (simp add: mask_eq_exp_minus_1)
  have l: "m mod 2 ^ 26 mod 2 ^ LENGTH(32) = m mod (2 ^ 26 :: nat)" for m
    by (rule mod_less) (rule less_trans [OF mod_less_divisor], simp_all)
  show ?thesis unfolding m unat_ucast_mod unat_and_mask unat_drop_bit_div v l ..
qed

lemma len32: "2 ^ LENGTH(32) = (4294967296 :: nat)" and len64: "2 ^ LENGTH(64) = (18446744073709551616 :: nat)"
  by simp_all

lemma unat_add_to: "unat b = n \<Longrightarrow> unat a + n < 2 ^ LENGTH('a) \<Longrightarrow> unat (a + b) = unat a + n"
  for a b :: "'a::len word"
  by (simp add: unat_word_ariths(1))

definition poly_acc_ok :: "ccpoly1305_ctx \<Rightarrow> bool" where
  "poly_acc_ok ctx \<longleftrightarrow> unat (poly_h0 ctx) \<le> 43 * 2 ^ 26 \<and> unat (poly_h1 ctx) < 2 ^ 26 \<and>
     unat (poly_h2 ctx) < 2 ^ 26 \<and> unat (poly_h3 ctx) < 2 ^ 26 \<and> unat (poly_h4 ctx) < 2 ^ 26"

definition poly_sum_ok :: "ccpoly1305_ctx \<Rightarrow> bool" where
  "poly_sum_ok ctx \<longleftrightarrow> unat (poly_h0 ctx) \<le> 44 * 2 ^ 26 - 1 \<and> unat (poly_h1 ctx) \<le> 2 ^ 27 - 2 \<and>
     unat (poly_h2 ctx) \<le> 2 ^ 27 - 2 \<and> unat (poly_h3 ctx) \<le> 2 ^ 27 - 2 \<and> unat (poly_h4 ctx) \<le> 2 ^ 26 + 2 ^ 25 - 2"

definition poly_key_ok :: "ccpoly1305_ctx \<Rightarrow> bool" where
  "poly_key_ok ctx \<longleftrightarrow> unat (poly_r0 ctx) \<le> 0x3ffffff \<and> unat (poly_r1 ctx) \<le> 0x3ffff03 \<and>
     unat (poly_r2 ctx) \<le> 0x3ffc0ff \<and> unat (poly_r3 ctx) \<le> 0x3f03fff \<and> unat (poly_r4 ctx) \<le> 0xfffff \<and>
     poly_s1 ctx = poly_r1 ctx * 5 \<and> poly_s2 ctx = poly_r2 ctx * 5 \<and>
     poly_s3 ctx = poly_r3 ctx * 5 \<and> poly_s4 ctx = poly_r4 ctx * 5"

definition poly_hibit :: "u32 \<Rightarrow> bool" where
  "poly_hibit x \<longleftrightarrow> x = 0 \<or> x = push_bit 24 1"

lemma poly_add_val:
  assumes "poly_acc_ok ctx" "16 \<le> length src" "poly_hibit hibit"
  shows "poly_H (poly1305_add hibit ctx src) = poly_H ctx + (le_val 256 (take 16 src) + 2 ^ 104 * unat hibit)"
    "poly_sum_ok (poly1305_add hibit ctx src)"
proof -
  let ?t0 = "cc_load32_le src" and ?t1 = "cc_load32_le (drop 4 src)"
    and ?t2 = "cc_load32_le (drop 8 src)" and ?t3 = "cc_load32_le (drop 12 src)"
  let ?m0 = "unat ?t0 mod 2 ^ 26" and ?m1 = "(unat ?t1 * 2 ^ 32 + unat ?t0) div 2 ^ 26 mod 2 ^ 26"
    and ?m2 = "(unat ?t2 * 2 ^ 32 + unat ?t1) div 2 ^ 20 mod 2 ^ 26"
    and ?m3 = "(unat ?t3 * 2 ^ 32 + unat ?t2) div 2 ^ 14 mod 2 ^ 26" and ?m4 = "unat ?t3 div 2 ^ 8"
  let ?c = "poly1305_add hibit ctx src"
  have b: "unat (poly_h0 ctx) \<le> 43 * 2 ^ 26" "unat (poly_h1 ctx) < 2 ^ 26" "unat (poly_h2 ctx) < 2 ^ 26"
    "unat (poly_h3 ctx) < 2 ^ 26" "unat (poly_h4 ctx) < 2 ^ 26"
    using assms(1) by (simp_all add: poly_acc_ok_def)
  have t: "unat ?t0 < 2 ^ 32" "unat ?t1 < 2 ^ 32" "unat ?t2 < 2 ^ 32" "unat ?t3 < 2 ^ 32"
    using word_bound [of ?t0] word_bound [of ?t1] word_bound [of ?t2] word_bound [of ?t3] by simp_all
  have m: "?m0 < 2 ^ 26" "?m1 < 2 ^ 26" "?m2 < 2 ^ 26" "?m3 < 2 ^ 26" "?m4 < 2 ^ 24" using t by simp_all
  have k: "(0x3ffffff :: u32) = mask 26" by (simp add: mask_eq_exp_minus_1)
  have u0: "unat (?t0 AND 0x3ffffff) = ?m0" unfolding k by (rule unat_and_mask)
  have hi: "unat hibit \<le> 2 ^ 24" "unat (drop_bit 8 ?t3 OR hibit) = ?m4 + unat hibit"
  proof -
    consider "hibit = 0" | "hibit = push_bit 24 1" using assms(3) by (auto simp: poly_hibit_def)
    then show "unat hibit \<le> 2 ^ 24" by cases simp_all
    from m(5) have "unat (drop_bit 8 ?t3) < 2 ^ 24" by (simp add: unat_drop_bit_div)
    then have "unat (push_bit 24 1 OR drop_bit 8 ?t3) = 1 * 2 ^ 24 + unat (drop_bit 8 ?t3)"
      using unat_or_push_bit [of "drop_bit 8 ?t3" 24 1] by simp
    then show "unat (drop_bit 8 ?t3 OR hibit) = ?m4 + unat hibit"
      using assms(3) by (auto simp: poly_hibit_def unat_drop_bit_div or.commute)
  qed
  have f: "poly_h0 ?c = poly_h0 ctx + (?t0 AND 0x3ffffff)"
    "poly_h1 ?c = poly_h1 ctx + ucast (drop_bit 26 (push_bit 32 (ucast ?t1 :: cc_unit) OR ucast ?t0) AND 0x3ffffff)"
    "poly_h2 ?c = poly_h2 ctx + ucast (drop_bit 20 (push_bit 32 (ucast ?t2 :: cc_unit) OR ucast ?t1) AND 0x3ffffff)"
    "poly_h3 ?c = poly_h3 ctx + ucast (drop_bit 14 (push_bit 32 (ucast ?t3 :: cc_unit) OR ucast ?t2) AND 0x3ffffff)"
    "poly_h4 ?c = poly_h4 ctx + (drop_bit 8 ?t3 OR hibit)"
    by (simp_all add: poly1305_add_def Let_def)
  have fit: "a + b < 2 ^ LENGTH(32)" if "a \<le> 43 * 2 ^ 26" "b < 2 ^ 26" for a b :: nat
    using that by simp
  have b': "unat (poly_h1 ctx) \<le> 43 * 2 ^ 26" "unat (poly_h2 ctx) \<le> 43 * 2 ^ 26" "unat (poly_h3 ctx) \<le> 43 * 2 ^ 26"
    "unat (poly_h4 ctx) \<le> 43 * 2 ^ 26" "?m4 + unat hibit < 2 ^ 26"
    using b hi(1) m(5) by simp_all
  have s0: "unat (poly_h0 ?c) = unat (poly_h0 ctx) + ?m0"
    unfolding f by (rule unat_add_to [OF u0]) (rule fit [OF b(1) m(1)])
  have s1: "unat (poly_h1 ?c) = unat (poly_h1 ctx) + ?m1"
    unfolding f by (rule unat_add_to [OF unat_limb]) (rule fit [OF b'(1) m(2)])
  have s2: "unat (poly_h2 ?c) = unat (poly_h2 ctx) + ?m2"
    unfolding f by (rule unat_add_to [OF unat_limb]) (rule fit [OF b'(2) m(3)])
  have s3: "unat (poly_h3 ?c) = unat (poly_h3 ctx) + ?m3"
    unfolding f by (rule unat_add_to [OF unat_limb]) (rule fit [OF b'(3) m(4)])
  have s4: "unat (poly_h4 ?c) = unat (poly_h4 ctx) + (?m4 + unat hibit)"
    unfolding f by (rule unat_add_to [OF hi(2)]) (rule fit [OF b'(4) b'(5)])
  note s = s0 s1 s2 s3 s4
  have "limbs26 ?m0 ?m1 ?m2 ?m3 ?m4 = le_val 256 (take 16 src)"
    unfolding load_words [OF assms(2)] by (rule limbs26_words [OF t])
  then show "poly_H ?c = poly_H ctx + (le_val 256 (take 16 src) + 2 ^ 104 * unat hibit)"
    unfolding poly_H_def s limbs26_add by (simp only:)
  have "a + d \<le> 44 * 2 ^ 26 - 1" if "a \<le> 43 * 2 ^ 26" "d < 2 ^ 26" for a d :: nat using that by simp
  moreover have "a + d \<le> 2 ^ 27 - 2" if "a < 2 ^ 26" "d < 2 ^ 26" for a d :: nat using that by simp
  moreover have "a + (d + e) \<le> 2 ^ 26 + 2 ^ 25 - 2" if "a < 2 ^ 26" "d < 2 ^ 24" "e \<le> 2 ^ 24" for a d e :: nat
    using that by simp
  ultimately show "poly_sum_ok ?c" unfolding poly_sum_ok_def s using b m hi(1) by (intro conjI)
qed

section \<open>Multiplication modulo 2 ^ 130 - 5\<close>

lemma poly_product:
  fixes h0 h1 h2 h3 h4 r0 r1 r2 r3 r4 :: nat
  defines "w \<equiv> limbs26 (h1 * r4 + h2 * r3 + h3 * r2 + h4 * r1) (h2 * r4 + h3 * r3 + h4 * r2) (h3 * r4 + h4 * r3) (h4 * r4) 0"
  shows "limbs26
      (h0 * r0 + h1 * (5 * r4) + h2 * (5 * r3) + h3 * (5 * r2) + h4 * (5 * r1))
      (h0 * r1 + h1 * r0 + h2 * (5 * r4) + h3 * (5 * r3) + h4 * (5 * r2))
      (h0 * r2 + h1 * r1 + h2 * r0 + h3 * (5 * r4) + h4 * (5 * r3))
      (h0 * r3 + h1 * r2 + h2 * r1 + h3 * r0 + h4 * (5 * r4))
      (h0 * r4 + h1 * r3 + h2 * r2 + h3 * r1 + h4 * r0) + (2 ^ 130 - 5) * w =
    limbs26 h0 h1 h2 h3 h4 * limbs26 r0 r1 r2 r3 r4"
  by (simp add: w_def limbs26_def algebra_simps)

lemma poly_carry:
  fixes t0 t1 t2 t3 t4 :: nat
  defines "u1 \<equiv> t1 + t0 div 2 ^ 26"
  defines "u2 \<equiv> t2 + u1 div 2 ^ 26"
  defines "u3 \<equiv> t3 + u2 div 2 ^ 26"
  defines "u4 \<equiv> t4 + u3 div 2 ^ 26"
  shows "limbs26 (t0 mod 2 ^ 26) (u1 mod 2 ^ 26) (u2 mod 2 ^ 26) (u3 mod 2 ^ 26) (u4 mod 2 ^ 26) + 2 ^ 130 * (u4 div 2 ^ 26) =
    limbs26 t0 t1 t2 t3 t4"
proof -
  have s: "x mod 2 ^ 26 + 2 ^ 26 * (x div 2 ^ 26) = x" for x :: nat by simp
  have "limbs26 t0 t1 t2 t3 t4 = limbs26 (t0 mod 2 ^ 26) u1 t2 t3 t4"
    unfolding limbs26_def u1_def by (subst (1) s [of t0, symmetric]) (simp only: algebra_simps)
  also have "\<dots> = limbs26 (t0 mod 2 ^ 26) (u1 mod 2 ^ 26) u2 t3 t4"
    unfolding limbs26_def u2_def by (subst (1) s [of u1, symmetric]) (simp only: algebra_simps)
  also have "\<dots> = limbs26 (t0 mod 2 ^ 26) (u1 mod 2 ^ 26) (u2 mod 2 ^ 26) u3 t4"
    unfolding limbs26_def u3_def by (subst (1) s [of u2, symmetric]) (simp only: algebra_simps)
  also have "\<dots> = limbs26 (t0 mod 2 ^ 26) (u1 mod 2 ^ 26) (u2 mod 2 ^ 26) (u3 mod 2 ^ 26) u4"
    unfolding limbs26_def u4_def by (subst (1) s [of u3, symmetric]) (simp only: algebra_simps)
  also have "\<dots> = limbs26 (t0 mod 2 ^ 26) (u1 mod 2 ^ 26) (u2 mod 2 ^ 26) (u3 mod 2 ^ 26) (u4 mod 2 ^ 26) + 2 ^ 130 * (u4 div 2 ^ 26)"
  proof -
    have "limbs26 a b c d (x + 2 ^ 26 * y) = limbs26 a b c d x + 2 ^ 130 * y" for a b c d x y
      by (simp add: limbs26_def algebra_simps)
    from this [of _ _ _ _ "u4 mod 2 ^ 26" "u4 div 2 ^ 26"] show ?thesis unfolding s .
  qed
  finally show ?thesis by (rule sym)
qed

text \<open>The sums of products, as numbers, and what bounds them.\<close>

definition poly_t0 :: "nat \<Rightarrow> nat \<Rightarrow> nat \<Rightarrow> nat \<Rightarrow> nat \<Rightarrow> nat \<Rightarrow> nat \<Rightarrow> nat \<Rightarrow> nat \<Rightarrow> nat \<Rightarrow> nat" where
  "poly_t0 a0 a1 a2 a3 a4 b0 b1 b2 b3 b4 = a0 * b0 + a1 * b1 + a2 * b2 + a3 * b3 + a4 * b4"

lemma poly_t0_le:
  assumes "a0 \<le> A0" "a1 \<le> A1" "a2 \<le> A2" "a3 \<le> A3" "a4 \<le> A4" "b0 \<le> B0" "b1 \<le> B1" "b2 \<le> B2" "b3 \<le> B3" "b4 \<le> B4"
  shows "poly_t0 a0 a1 a2 a3 a4 b0 b1 b2 b3 b4 \<le> poly_t0 A0 A1 A2 A3 A4 B0 B1 B2 B3 B4"
  unfolding poly_t0_def using assms by (intro add_mono mult_le_mono)

lemma poly_sum_word:
  assumes "poly_t0 (unat a0) (unat a1) (unat a2) (unat a3) (unat a4) (unat b0) (unat b1) (unat b2) (unat b3) (unat b4) < 2 ^ 64"
  shows "unat (mul32x32_64 a0 b0 + mul32x32_64 a1 b1 + mul32x32_64 a2 b2 + mul32x32_64 a3 b3 + mul32x32_64 a4 b4) =
    poly_t0 (unat a0) (unat a1) (unat a2) (unat a3) (unat a4) (unat b0) (unat b1) (unat b2) (unat b3) (unat b4)"
proof -
  have m: "unat (mul32x32_64 a b) = unat a * unat b" for a b
  proof -
    have "unat a * unat b < 2 ^ 32 * 2 ^ 32"
      by (rule mult_strict_mono) (use word_bound [of a] word_bound [of b] in simp_all)
    moreover have "unat a < 2 ^ 64" "unat b < 2 ^ 64"
      using word_bound [of a] word_bound [of b] by simp_all
    ultimately show ?thesis by (simp add: mul32x32_64_def unat_word_ariths(2) unat_ucast_mod)
  qed
  have add: "unat (x + y) = unat x + unat y" if "unat x + unat y < 2 ^ 64" for x y :: cc_unit
    using that by (simp add: unat_word_ariths(1))
  show ?thesis
    using assms unfolding poly_t0_def by (simp add: add m)
qed

lemma unat_limb_of: "unat ((ucast (t :: cc_unit) :: u32) AND 0x3ffffff) = unat t mod 2 ^ 26"
proof -
  have k: "(0x3ffffff :: u32) = mask 26" by (simp add: mask_eq_exp_minus_1)
  have "m mod 2 ^ LENGTH(32) mod 2 ^ 26 = m mod (2 ^ 26 :: nat)" for m
    by (rule mod_mod_cancel) (simp add: le_imp_power_dvd)
  then show ?thesis unfolding k unat_and_mask unat_ucast_mod .
qed

lemma unat_carry_of:
  assumes "unat (t :: cc_unit) < 2 ^ 58"
  shows "unat (ucast (drop_bit 26 t) :: u32) = unat t div 2 ^ 26"
    "unat (ucast (ucast (drop_bit 26 t) :: u32) :: cc_unit) = unat t div 2 ^ 26"
proof -
  have "unat t div 2 ^ 26 < 2 ^ 32" using assms by (simp add: less_mult_imp_div_less)
  then show "unat (ucast (drop_bit 26 t) :: u32) = unat t div 2 ^ 26"
    "unat (ucast (ucast (drop_bit 26 t) :: u32) :: cc_unit) = unat t div 2 ^ 26"
    by (simp_all add: unat_ucast_mod unat_drop_bit_div)
qed

lemma poly1305_mul_val:
  assumes "poly_sum_ok ctx" "poly_key_ok ctx"
  shows "poly_acc_ok (poly1305_mul ctx)"
    "\<exists>q. poly_H (poly1305_mul ctx) + (2 ^ 130 - 5) * q = poly_H ctx * poly_R ctx"
proof -
  define h0 h1 h2 h3 h4 where h: "h0 = unat (poly_h0 ctx)" "h1 = unat (poly_h1 ctx)" "h2 = unat (poly_h2 ctx)"
    "h3 = unat (poly_h3 ctx)" "h4 = unat (poly_h4 ctx)"
  define r0 r1 r2 r3 r4 where r: "r0 = unat (poly_r0 ctx)" "r1 = unat (poly_r1 ctx)" "r2 = unat (poly_r2 ctx)"
    "r3 = unat (poly_r3 ctx)" "r4 = unat (poly_r4 ctx)"
  have hb: "h0 \<le> 44 * 2 ^ 26 - 1" "h1 \<le> 2 ^ 27 - 2" "h2 \<le> 2 ^ 27 - 2" "h3 \<le> 2 ^ 27 - 2" "h4 \<le> 2 ^ 26 + 2 ^ 25 - 2"
    using assms(1) unfolding poly_sum_ok_def h by simp_all
  have rb: "r0 \<le> 0x3ffffff" "r1 \<le> 0x3ffff03" "r2 \<le> 0x3ffc0ff" "r3 \<le> 0x3f03fff" "r4 \<le> 0xfffff"
    using assms(2) unfolding poly_key_ok_def r by simp_all
  have s: "unat (poly_s1 ctx) = 5 * r1" "unat (poly_s2 ctx) = 5 * r2" "unat (poly_s3 ctx) = 5 * r3" "unat (poly_s4 ctx) = 5 * r4"
    using assms(2) rb unfolding poly_key_ok_def r by (simp_all add: unat_word_ariths(2))
  have sb: "5 * r1 \<le> 5 * 0x3ffff03" "5 * r2 \<le> 5 * 0x3ffc0ff" "5 * r3 \<le> 5 * 0x3f03fff" "5 * r4 \<le> 5 * 0xfffff"
    using rb by simp_all
  define t0 t1 t2 t3 t4 where t: "t0 = poly_t0 h0 h1 h2 h3 h4 r0 (5 * r4) (5 * r3) (5 * r2) (5 * r1)"
    "t1 = poly_t0 h0 h1 h2 h3 h4 r1 r0 (5 * r4) (5 * r3) (5 * r2)"
    "t2 = poly_t0 h0 h1 h2 h3 h4 r2 r1 r0 (5 * r4) (5 * r3)"
    "t3 = poly_t0 h0 h1 h2 h3 h4 r3 r2 r1 r0 (5 * r4)"
    "t4 = poly_t0 h0 h1 h2 h3 h4 r4 r3 r2 r1 r0"
  have tb: "t0 \<le> 322007410770182145" "t1 \<le> 285980703387023133" "t2 \<le> 250086285694058769"
    "t3 \<le> 222657697893335049" "t4 \<le> 36732481005682689"
    unfolding t
    by (rule order.trans [OF poly_t0_le [OF hb rb(1) sb(4) sb(3) sb(2) sb(1)]], simp add: poly_t0_def,
        rule order.trans [OF poly_t0_le [OF hb rb(2) rb(1) sb(4) sb(3) sb(2)]], simp add: poly_t0_def,
        rule order.trans [OF poly_t0_le [OF hb rb(3) rb(2) rb(1) sb(4) sb(3)]], simp add: poly_t0_def,
        rule order.trans [OF poly_t0_le [OF hb rb(4) rb(3) rb(2) rb(1) sb(4)]], simp add: poly_t0_def,
        rule order.trans [OF poly_t0_le [OF hb rb(5) rb(4) rb(3) rb(2) rb(1)]], simp add: poly_t0_def)
  define u1 where "u1 = t1 + t0 div 2 ^ 26"
  define u2 where "u2 = t2 + u1 div 2 ^ 26"
  define u3 where "u3 = t3 + u2 div 2 ^ 26"
  define u4 where "u4 = t4 + u3 div 2 ^ 26"
  have c: "t0 div 2 ^ 26 \<le> 4798284333" using div_le_mono [OF tb(1), of "2 ^ 26"] by simp
  have u1: "u1 \<le> 285980708185307466" unfolding u1_def using tb(2) c by simp
  have c1: "u1 div 2 ^ 26 \<le> 4261444630" using div_le_mono [OF u1, of "2 ^ 26"] by simp
  have u2: "u2 \<le> 250086289955503399" unfolding u2_def using tb(3) c1 by simp
  have c2: "u2 div 2 ^ 26 \<le> 3726576118" using div_le_mono [OF u2, of "2 ^ 26"] by simp
  have u3: "u3 \<le> 222657701619911167" unfolding u3_def using tb(4) c2 by simp
  have c3: "u3 div 2 ^ 26 \<le> 3317858302" using div_le_mono [OF u3, of "2 ^ 26"] by simp
  have u4: "u4 \<le> 36732484323540991" unfolding u4_def using tb(5) c3 by simp
  have c4: "u4 div 2 ^ 26 \<le> 547356669" using div_le_mono [OF u4, of "2 ^ 26"] by simp
  define w0 where "w0 = mul32x32_64 (poly_h0 ctx) (poly_r0 ctx) + mul32x32_64 (poly_h1 ctx) (poly_s4 ctx) +
    mul32x32_64 (poly_h2 ctx) (poly_s3 ctx) + mul32x32_64 (poly_h3 ctx) (poly_s2 ctx) + mul32x32_64 (poly_h4 ctx) (poly_s1 ctx)"
  define w1 where "w1 = mul32x32_64 (poly_h0 ctx) (poly_r1 ctx) + mul32x32_64 (poly_h1 ctx) (poly_r0 ctx) +
    mul32x32_64 (poly_h2 ctx) (poly_s4 ctx) + mul32x32_64 (poly_h3 ctx) (poly_s3 ctx) + mul32x32_64 (poly_h4 ctx) (poly_s2 ctx)"
  define w2 where "w2 = mul32x32_64 (poly_h0 ctx) (poly_r2 ctx) + mul32x32_64 (poly_h1 ctx) (poly_r1 ctx) +
    mul32x32_64 (poly_h2 ctx) (poly_r0 ctx) + mul32x32_64 (poly_h3 ctx) (poly_s4 ctx) + mul32x32_64 (poly_h4 ctx) (poly_s3 ctx)"
  define w3 where "w3 = mul32x32_64 (poly_h0 ctx) (poly_r3 ctx) + mul32x32_64 (poly_h1 ctx) (poly_r2 ctx) +
    mul32x32_64 (poly_h2 ctx) (poly_r1 ctx) + mul32x32_64 (poly_h3 ctx) (poly_r0 ctx) + mul32x32_64 (poly_h4 ctx) (poly_s4 ctx)"
  define w4 where "w4 = mul32x32_64 (poly_h0 ctx) (poly_r4 ctx) + mul32x32_64 (poly_h1 ctx) (poly_r3 ctx) +
    mul32x32_64 (poly_h2 ctx) (poly_r2 ctx) + mul32x32_64 (poly_h3 ctx) (poly_r1 ctx) + mul32x32_64 (poly_h4 ctx) (poly_r0 ctx)"
  have w: "unat w0 = t0" "unat w1 = t1" "unat w2 = t2" "unat w3 = t3" "unat w4 = t4"
    unfolding w0_def w1_def w2_def w3_def w4_def t h r s [unfolded r, symmetric]
    by (rule poly_sum_word, use tb in \<open>simp add: t h r s\<close>)+
  define v1 where "v1 = w1 + drop_bit 26 w0"
  define v2 where "v2 = w2 + ucast (ucast (drop_bit 26 v1) :: u32)"
  define v3 where "v3 = w3 + ucast (ucast (drop_bit 26 v2) :: u32)"
  define v4 where "v4 = w4 + ucast (ucast (drop_bit 26 v3) :: u32)"
  have v1: "unat v1 = u1" "unat v1 < 2 ^ 58"
    using u1 tb c by (simp_all add: v1_def u1_def unat_word_ariths(1) unat_drop_bit_div w)
  have v2: "unat v2 = u2" "unat v2 < 2 ^ 58"
    using u2 tb c1 by (simp_all add: v2_def u2_def unat_word_ariths(1) unat_carry_of [OF v1(2)] w v1(1))
  have v3: "unat v3 = u3" "unat v3 < 2 ^ 58"
    using u3 tb c2 by (simp_all add: v3_def u3_def unat_word_ariths(1) unat_carry_of [OF v2(2)] w v2(1))
  have v4: "unat v4 = u4" "unat v4 < 2 ^ 58"
    using u4 tb c3 by (simp_all add: v4_def u4_def unat_word_ariths(1) unat_carry_of [OF v3(2)] w v3(1))
  have f: "poly1305_mul ctx = ctx\<lparr>poly_h0 := ((ucast w0 :: u32) AND 0x3ffffff) + ucast (drop_bit 26 v4) * 5,
      poly_h1 := (ucast v1 :: u32) AND 0x3ffffff, poly_h2 := (ucast v2 :: u32) AND 0x3ffffff,
      poly_h3 := (ucast v3 :: u32) AND 0x3ffffff, poly_h4 := (ucast v4 :: u32) AND 0x3ffffff\<rparr>"
    unfolding poly1305_mul_def Let_def v4_def v3_def v2_def v1_def w0_def w1_def w2_def w3_def w4_def ..
  have five: "unat ((ucast (drop_bit 26 v4) :: u32) * 5) = 5 * (u4 div 2 ^ 26)"
    using c4 by (simp add: unat_word_ariths(2) unat_carry_of [OF v4(2)] v4(1))
  have m0: "t0 mod 2 ^ 26 \<le> 2 ^ 26 - 1" by simp
  have fit: "t0 mod 2 ^ 26 + 5 * (u4 div 2 ^ 26) < 4294967296" "t0 mod 2 ^ 26 + 5 * (u4 div 2 ^ 26) \<le> 43 * 2 ^ 26"
  proof -
    have "a + 5 * b < 4294967296 \<and> a + 5 * b \<le> 43 * 2 ^ 26" if "a \<le> 2 ^ 26 - 1" "b \<le> 547356669" for a b :: nat
      using that by simp
    from this [OF m0 c4] show "t0 mod 2 ^ 26 + 5 * (u4 div 2 ^ 26) < 4294967296"
      "t0 mod 2 ^ 26 + 5 * (u4 div 2 ^ 26) \<le> 43 * 2 ^ 26" by simp_all
  qed
  have u: "unat (poly_h1 (poly1305_mul ctx)) = u1 mod 2 ^ 26" "unat (poly_h2 (poly1305_mul ctx)) = u2 mod 2 ^ 26"
    "unat (poly_h3 (poly1305_mul ctx)) = u3 mod 2 ^ 26" "unat (poly_h4 (poly1305_mul ctx)) = u4 mod 2 ^ 26"
    unfolding f by (simp_all add: unat_limb_of v1(1) v2(1) v3(1) v4(1))
  have u0: "unat (poly_h0 (poly1305_mul ctx)) = t0 mod 2 ^ 26 + 5 * (u4 div 2 ^ 26)"
  proof -
    have "unat (((ucast w0 :: u32) AND 0x3ffffff) + ucast (drop_bit 26 v4) * 5) = t0 mod 2 ^ 26 + 5 * (u4 div 2 ^ 26)"
      using unat_add_to [OF five, of "(ucast w0 :: u32) AND 0x3ffffff"] fit(1) unfolding unat_limb_of w len32 by blast
    then show ?thesis unfolding f by simp
  qed
  show "poly_acc_ok (poly1305_mul ctx)"
    unfolding poly_acc_ok_def u u0 using fit(2) by simp
  define w where "w = limbs26 (h1 * r4 + h2 * r3 + h3 * r2 + h4 * r1) (h2 * r4 + h3 * r3 + h4 * r2) (h3 * r4 + h4 * r3) (h4 * r4) 0"
  have prod: "limbs26 t0 t1 t2 t3 t4 + (2 ^ 130 - 5) * w = limbs26 h0 h1 h2 h3 h4 * limbs26 r0 r1 r2 r3 r4"
    unfolding t poly_t0_def w_def by (rule poly_product)
  have "limbs26 (t0 mod 2 ^ 26) (u1 mod 2 ^ 26) (u2 mod 2 ^ 26) (u3 mod 2 ^ 26) (u4 mod 2 ^ 26) + 2 ^ 130 * (u4 div 2 ^ 26) =
      limbs26 t0 t1 t2 t3 t4"
    unfolding u4_def u3_def u2_def u1_def by (rule poly_carry)
  moreover have "limbs26 (a + k) b c d e = limbs26 a b c d e + k" for a b c d e k
    by (simp add: limbs26_def)
  ultimately have "poly_H (poly1305_mul ctx) + (2 ^ 130 - 5) * (u4 div 2 ^ 26) = limbs26 t0 t1 t2 t3 t4"
    unfolding poly_H_def u u0 by simp
  then have "poly_H (poly1305_mul ctx) + (2 ^ 130 - 5) * (u4 div 2 ^ 26 + w) = poly_H ctx * poly_R ctx"
    unfolding poly_H_def poly_R_def h [symmetric] r [symmetric] using prod by (simp only: distrib_left)
  then show "\<exists>q. poly_H (poly1305_mul ctx) + (2 ^ 130 - 5) * q = poly_H ctx * poly_R ctx" ..
qed

section \<open>The polynomial\<close>

definition poly_p :: nat where
  "poly_p = 2 ^ 130 - 5"

text \<open>RFC 8439: each block with a one byte appended, added and multiplied modulo \<open>2 ^ 130 - 5\<close>.\<close>

function poly1305_acc :: "nat \<Rightarrow> nat \<Rightarrow> bytes \<Rightarrow> nat" where
  "poly1305_acc r a msg =
     (if msg = [] then a
      else poly1305_acc r ((a + le_val 256 (take 16 msg @ [1])) * r mod poly_p) (drop 16 msg))"
  by pat_completeness auto
termination by (relation "measure (\<lambda>(r, a, msg). length msg)") auto

declare poly1305_acc.simps [simp del]

lemma poly1305_acc_Nil [simp]: "poly1305_acc r a [] = a"
  by (subst poly1305_acc.simps) simp

lemma poly1305_acc_short:
  "msg \<noteq> [] \<Longrightarrow> length msg \<le> 16 \<Longrightarrow> poly1305_acc r a msg = (a + le_val 256 (msg @ [1])) * r mod poly_p"
  by (subst poly1305_acc.simps) simp

lemma poly1305_acc_append:
  "16 dvd length xs \<Longrightarrow> poly1305_acc r a (xs @ ys) = poly1305_acc r (poly1305_acc r a xs) ys"
proof (induction r a xs rule: poly1305_acc.induct)
  case (1 r a xs)
  show ?case
  proof (cases "xs = []")
    case False
    then have l: "16 \<le> length xs" using "1.prems" by (auto intro: dvd_imp_le)
    then have "16 dvd length (drop 16 xs)" using "1.prems" by (simp add: dvd_diff_nat)
    note ih = "1.IH" [OF False this]
    show ?thesis
      using False l ih poly1305_acc.simps [of r a "xs @ ys"] poly1305_acc.simps [of r a xs] by simp
  qed simp
qed

definition poly_ok :: "ccpoly1305_ctx \<Rightarrow> bool" where
  "poly_ok ctx \<longleftrightarrow> poly_acc_ok ctx \<and> poly_key_ok ctx"

text \<open>The operations on the accumulator leave the rest of the context alone.\<close>

definition poly_same :: "ccpoly1305_ctx \<Rightarrow> ccpoly1305_ctx \<Rightarrow> bool" where
  "poly_same c d \<longleftrightarrow> (\<exists>a0 a1 a2 a3 a4. c = d\<lparr>poly_h0 := a0, poly_h1 := a1, poly_h2 := a2, poly_h3 := a3, poly_h4 := a4\<rparr>)"

lemma poly_same_refl: "poly_same c c"
  unfolding poly_same_def
  by (intro exI [of _ "poly_h0 c"] exI [of _ "poly_h1 c"] exI [of _ "poly_h2 c"] exI [of _ "poly_h3 c"]
      exI [of _ "poly_h4 c"]) simp

lemma poly_same_trans: "poly_same c d \<Longrightarrow> poly_same d e \<Longrightarrow> poly_same c e"
  unfolding poly_same_def by (elim exE) (simp, blast)

lemma poly_same_steps: "poly_same (poly1305_mul c) c" "poly_same (poly1305_add hibit c src) c"
  unfolding poly_same_def poly1305_mul_def poly1305_add_def Let_def by blast+

lemma poly_same_fields:
  assumes "poly_same c d"
  shows "poly_R c = poly_R d" "poly_key_ok c = poly_key_ok d" "poly_buf c = poly_buf d"
    "poly_buf_used c = poly_buf_used d" "poly_key c = poly_key d"
  using assms by (auto simp: poly_same_def poly_R_def poly_key_ok_def)

lemma poly_step:
  assumes "poly_ok ctx" "16 \<le> length src" "poly_hibit hibit"
  defines "c \<equiv> poly1305_mul (poly1305_add hibit ctx src)"
  shows "poly_ok c" "poly_same c ctx"
    "poly_H c mod poly_p = (poly_H ctx mod poly_p + (le_val 256 (take 16 src) + 2 ^ 104 * unat hibit)) * poly_R ctx mod poly_p"
proof -
  let ?a = "poly1305_add hibit ctx src"
  show same: "poly_same c ctx"
    unfolding c_def by (rule poly_same_trans [OF poly_same_steps(1) poly_same_steps(2)])
  note add = poly_add_val [OF _ assms(2,3)]
  have a: "poly_sum_ok ?a" "poly_H ?a = poly_H ctx + (le_val 256 (take 16 src) + 2 ^ 104 * unat hibit)"
    using add assms(1) by (simp_all add: poly_ok_def)
  have k: "poly_key_ok ?a" "poly_R ?a = poly_R ctx"
    using assms(1) poly_same_fields [OF poly_same_steps(2)] by (simp_all add: poly_ok_def)
  show "poly_ok c"
    using poly1305_mul_val(1) [OF a(1) k(1)] assms(1) poly_same_fields(2) [OF same] by (simp add: poly_ok_def c_def)
  obtain q where "poly_H c + poly_p * q = poly_H ?a * poly_R ctx"
    using poly1305_mul_val(2) [OF a(1) k(1)] unfolding c_def k(2) poly_p_def by blast
  then have "poly_H c mod poly_p = poly_H ?a * poly_R ctx mod poly_p"
    by (metis mod_mult_self2)
  then show "poly_H c mod poly_p =
      (poly_H ctx mod poly_p + (le_val 256 (take 16 src) + 2 ^ 104 * unat hibit)) * poly_R ctx mod poly_p"
    unfolding a(2) by (metis mod_add_left_eq mod_mult_left_eq)
qed

lemma ccpoly1305_blocks_val:
  assumes "poly_ok ctx" "nbytes \<le> length src"
  shows "poly_ok (ccpoly1305_blocks ctx nbytes src) \<and> poly_same (ccpoly1305_blocks ctx nbytes src) ctx \<and>
    poly_H (ccpoly1305_blocks ctx nbytes src) mod poly_p =
      poly1305_acc (poly_R ctx) (poly_H ctx mod poly_p) (take nbytes src)"
  using assms
proof (induction ctx nbytes src rule: ccpoly1305_blocks.induct)
  case (1 ctx nbytes src)
  consider "nbytes = 0" | "0 < nbytes" "nbytes < 16" | "16 \<le> nbytes" by linarith
  then show ?case
  proof cases
    case 1
    then show ?thesis
      using "1.prems" by (subst (1 2 3) ccpoly1305_blocks.simps) (simp add: poly_same_refl)
  next
    case 2
    let ?mp = "take nbytes src @ [1] @ replicate (15 - nbytes) 0"
    have e: "ccpoly1305_blocks ctx nbytes src = poly1305_mul (poly1305_add 0 ctx ?mp)"
      using 2 by (subst ccpoly1305_blocks.simps) simp
    have l: "length ?mp = 16" using 2 "1.prems"(2) by simp
    have v: "le_val 256 (take 16 ?mp) + 2 ^ 104 * unat (0 :: u32) = le_val 256 (take nbytes src @ [1])"
    proof -
      have "take 16 ?mp = ?mp" using l by (intro take_all) simp
      then have "le_val 256 (take 16 ?mp) = le_val 256 ((take nbytes src @ [1]) @ replicate (15 - nbytes) 0)" by simp
      also have "\<dots> = le_val 256 (take nbytes src @ [1])" by (subst le_val_append) simp
      finally show ?thesis by simp
    qed
    have "poly1305_acc (poly_R ctx) (poly_H ctx mod poly_p) (take nbytes src) =
        (poly_H ctx mod poly_p + le_val 256 (take nbytes src @ [1])) * poly_R ctx mod poly_p"
      using 2 "1.prems"(2) by (intro poly1305_acc_short) auto
    then show ?thesis
      using poly_step [OF "1.prems"(1), of ?mp 0] l unfolding e v by (simp add: poly_hibit_def)
  next
    case 3
    let ?c = "poly1305_mul (poly1305_add (push_bit 24 1) ctx src)"
    have e: "ccpoly1305_blocks ctx nbytes src = ccpoly1305_blocks ?c (nbytes - 16) (drop 16 src)"
      using 3 by (subst ccpoly1305_blocks.simps) simp
    have l: "16 \<le> length src" using 3 "1.prems"(2) by simp
    note st = poly_step [OF "1.prems"(1) l, of "push_bit 24 1", unfolded poly_hibit_def, OF disjI2, OF refl]
    have ih: "poly_ok (ccpoly1305_blocks ?c (nbytes - 16) (drop 16 src)) \<and>
        poly_same (ccpoly1305_blocks ?c (nbytes - 16) (drop 16 src)) ?c \<and>
        poly_H (ccpoly1305_blocks ?c (nbytes - 16) (drop 16 src)) mod poly_p =
          poly1305_acc (poly_R ?c) (poly_H ?c mod poly_p) (take (nbytes - 16) (drop 16 src))"
      using "1.IH" 3 st(1) "1.prems"(2) by simp
    have v: "le_val 256 (take 16 src @ [1]) = le_val 256 (take 16 src) + 2 ^ 104 * unat (push_bit 24 1 :: u32)"
      using l by (simp add: le_val_append)
    have n: "take nbytes src \<noteq> []" "take 16 (take nbytes src) = take 16 src"
      "drop 16 (take nbytes src) = take (nbytes - 16) (drop 16 src)"
      using 3 l by (auto simp: drop_take)
    have "poly1305_acc (poly_R ctx) (poly_H ctx mod poly_p) (take nbytes src) =
        poly1305_acc (poly_R ctx) (poly_H ?c mod poly_p) (take (nbytes - 16) (drop 16 src))"
      unfolding poly1305_acc.simps [of _ _ "take nbytes src"] n(2,3) v st(3) using n(1) by (simp only: if_False)
    then show ?thesis
      using ih poly_same_trans [OF _ st(2)] poly_same_fields(1) [OF st(2)] unfolding e by simp
  qed
qed

section \<open>The key\<close>

definition poly_clamp :: "bytes \<Rightarrow> nat" where
  "poly_clamp key = le_val 256 (take 16 key) AND 0x0ffffffc0ffffffc0ffffffc0fffffff"

lemma digit_and:
  fixes a b c d :: nat
  assumes "a < 2 ^ n" "c < 2 ^ n"
  shows "(a + 2 ^ n * b) AND (c + 2 ^ n * d) = (a AND c) + 2 ^ n * (b AND d)"
proof -
  have p: "x + 2 ^ n * y = push_bit n y OR x" if "x < 2 ^ n" for x y :: nat
    using nat_push_or [OF that, of y] by (simp add: mult.commute add.commute)
  have lt: "bit x k \<Longrightarrow> k < n" if "x < 2 ^ n" for x k :: nat
    using that by (metis bit_take_bit_iff take_bit_nat_eq_self_iff)
  have "a AND c < 2 ^ n" using assms by (metis take_bit_and take_bit_nat_eq_self_iff)
  note e = p [OF assms(1)] p [OF assms(2)] p [OF this]
  show ?thesis
    unfolding e by (rule bit_eqI) (auto simp: bit_and_iff bit_or_iff bit_push_bit_iff dest: lt [OF assms(1)] lt [OF assms(2)])
qed

lemma limbs26_and:
  assumes "x0 < 2 ^ 26" "x1 < 2 ^ 26" "x2 < 2 ^ 26" "x3 < 2 ^ 26" "y0 < 2 ^ 26" "y1 < 2 ^ 26" "y2 < 2 ^ 26" "y3 < 2 ^ 26"
  shows "limbs26 x0 x1 x2 x3 x4 AND limbs26 y0 y1 y2 y3 y4 =
    limbs26 (x0 AND y0) (x1 AND y1) (x2 AND y2) (x3 AND y3) (x4 AND y4)"
  unfolding limbs26_def
  by (simp only: digit_and [OF assms(1,5)] digit_and [OF assms(2,6)] digit_and [OF assms(3,7)] digit_and [OF assms(4,8)])

lemma unat_or_push_wrap:
  fixes x y :: "'a::len word"
  assumes "unat y < 2 ^ n" "n \<le> LENGTH('a)"
  shows "unat (y OR push_bit n x) = (unat x * 2 ^ n + unat y) mod 2 ^ LENGTH('a)"
proof -
  have l: "2 ^ LENGTH('a) = 2 ^ n * (2 ^ (LENGTH('a) - n) :: nat)" using assms(2) by (simp flip: power_add)
  have w: "unat x * 2 ^ n mod 2 ^ LENGTH('a) = unat x mod 2 ^ (LENGTH('a) - n) * 2 ^ n"
    unfolding l mult.commute [of "2 ^ n" "2 ^ (LENGTH('a) - n)"] by (rule mult_mod_left [symmetric])
  have "unat (y OR push_bit n x) = push_bit n (unat x mod 2 ^ (LENGTH('a) - n)) OR unat y"
    by (simp only: unsigned_or_eq unat_push_bit_mod w or.commute push_bit_nat_def)
  also have "\<dots> = unat x mod 2 ^ (LENGTH('a) - n) * 2 ^ n + unat y" by (rule nat_push_or [OF assms(1)])
  also have "\<dots> = (unat y + 2 ^ n * unat x) mod 2 ^ LENGTH('a)"
    unfolding l digit_mod_mult [OF assms(1)] by (simp only: mult.commute add.commute)
  finally show ?thesis by (simp only: mult.commute add.commute)
qed

lemma key_limb:
  fixes t0 t1 M :: u32
  assumes "k \<le> 26" "unat M < 2 ^ 26"
  shows "unat ((drop_bit k t0 OR push_bit (32 - k) t1) AND M) =
    (unat t1 * 2 ^ 32 + unat t0) div 2 ^ k mod 2 ^ 26 AND unat M"
proof -
  have "unat t0 div 2 ^ k < 2 ^ (32 - k)"
  proof (rule less_mult_imp_div_less)
    have "2 ^ (32 - k) * 2 ^ k = (2 ^ 32 :: nat)" using assms(1) by (simp flip: power_add)
    then show "unat t0 < 2 ^ (32 - k) * 2 ^ k" using word_bound [of t0] by simp
  qed
  then have "unat (drop_bit k t0 OR push_bit (32 - k) t1) = (unat t1 * 2 ^ (32 - k) + unat t0 div 2 ^ k) mod 2 ^ 32"
    using unat_or_push_wrap [of "drop_bit k t0" "32 - k" t1] by (simp add: unat_drop_bit_div)
  moreover have "(unat t1 * 2 ^ 32 + unat t0) div 2 ^ k = unat t1 * 2 ^ (32 - k) + unat t0 div 2 ^ k"
  proof -
    have "unat t1 * 2 ^ 32 = unat t1 * 2 ^ (32 - k) * 2 ^ k" using assms(1) by (simp flip: power_add)
    then show ?thesis by (metis add.commute div_mult_self3 power_not_zero zero_neq_numeral)
  qed
  moreover have "unat (x AND M) = unat x mod 2 ^ 26 AND unat M" for x :: u32
  proof -
    have "unat M = take_bit 26 (unat M)" using assms(2) by (simp add: take_bit_nat_eq_self)
    then have "unat x AND unat M = take_bit 26 (unat x) AND unat M"
      by (metis and.assoc and.commute take_bit_eq_mask)
    then show ?thesis by (simp only: unsigned_and_eq take_bit_nat_def)
  qed
  moreover have "m mod 2 ^ 32 mod 2 ^ 26 = m mod (2 ^ 26 :: nat)" for m
    by (rule mod_mod_cancel) (simp add: le_imp_power_dvd)
  ultimately show ?thesis by simp
qed

lemma ccpoly1305_init_val:
  assumes "length key = 32"
  shows "poly_ok (ccpoly1305_init ctx key)" "poly_H (ccpoly1305_init ctx key) = 0"
    "poly_R (ccpoly1305_init ctx key) = poly_clamp key" "poly_key (ccpoly1305_init ctx key) = drop 16 key"
    "poly_buf_used (ccpoly1305_init ctx key) = 0" "poly_buf (ccpoly1305_init ctx key) = poly_buf ctx"
proof -
  let ?c = "ccpoly1305_init ctx key"
  let ?t0 = "cc_load32_le key" and ?t1 = "cc_load32_le (drop 4 key)"
    and ?t2 = "cc_load32_le (drop 8 key)" and ?t3 = "cc_load32_le (drop 12 key)"
  have f: "poly_r0 ?c = ?t0 AND 0x3ffffff" "poly_r1 ?c = (drop_bit 26 ?t0 OR push_bit (32 - 26) ?t1) AND 0x3ffff03"
    "poly_r2 ?c = (drop_bit 20 ?t1 OR push_bit (32 - 20) ?t2) AND 0x3ffc0ff"
    "poly_r3 ?c = (drop_bit 14 ?t2 OR push_bit (32 - 14) ?t3) AND 0x3f03fff" "poly_r4 ?c = drop_bit 8 ?t3 AND 0xfffff"
    by (simp_all add: ccpoly1305_init_def Let_def)
  have k: "unat (0x3ffff03 :: u32) = 0x3ffff03" "unat (0x3ffc0ff :: u32) = 0x3ffc0ff" "unat (0x3f03fff :: u32) = 0x3f03fff"
    "unat (0x3ffffff :: u32) = 0x3ffffff" "unat (0xfffff :: u32) = 0xfffff" by simp_all
  have u0: "unat (poly_r0 ?c) = unat ?t0 mod 2 ^ 26 AND 0x3ffffff"
  proof -
    have "(0x3ffffff :: u32) = mask 26" "(0x3ffffff :: nat) = mask 26" by (simp_all add: mask_eq_exp_minus_1)
    then show ?thesis unfolding f(1) by (metis and.assoc and.idem take_bit_eq_mask take_bit_nat_def unat_and_mask)
  qed
  have u1: "unat (poly_r1 ?c) = (unat ?t1 * 2 ^ 32 + unat ?t0) div 2 ^ 26 mod 2 ^ 26 AND 0x3ffff03"
    unfolding f by (rule key_limb [of 26 "0x3ffff03", unfolded k]) simp_all
  have u2: "unat (poly_r2 ?c) = (unat ?t2 * 2 ^ 32 + unat ?t1) div 2 ^ 20 mod 2 ^ 26 AND 0x3ffc0ff"
    unfolding f by (rule key_limb [of 20 "0x3ffc0ff", unfolded k]) simp_all
  have u3: "unat (poly_r3 ?c) = (unat ?t3 * 2 ^ 32 + unat ?t2) div 2 ^ 14 mod 2 ^ 26 AND 0x3f03fff"
    unfolding f by (rule key_limb [of 14 "0x3f03fff", unfolded k]) simp_all
  have u4: "unat (poly_r4 ?c) = unat ?t3 div 2 ^ 8 AND 0xfffff"
    unfolding f unsigned_and_eq k unat_drop_bit_div ..
  note u = u0 u1 u2 u3 u4
  have t: "unat ?t0 < 2 ^ 32" "unat ?t1 < 2 ^ 32" "unat ?t2 < 2 ^ 32" "unat ?t3 < 2 ^ 32"
    using word_bound [of ?t0] word_bound [of ?t1] word_bound [of ?t2] word_bound [of ?t3] by simp_all
  have lt: "x mod 2 ^ 26 < (2 ^ 26 :: nat)" for x by simp
  have "16 \<le> length key" using assms by simp
  from load_words [OF this] limbs26_words [OF t]
  have L: "le_val 256 (take 16 key) = limbs26 (unat ?t0 mod 2 ^ 26) ((unat ?t1 * 2 ^ 32 + unat ?t0) div 2 ^ 26 mod 2 ^ 26)
      ((unat ?t2 * 2 ^ 32 + unat ?t1) div 2 ^ 20 mod 2 ^ 26) ((unat ?t3 * 2 ^ 32 + unat ?t2) div 2 ^ 14 mod 2 ^ 26)
      (unat ?t3 div 2 ^ 8)" by (simp only:)
  have C: "0x0ffffffc0ffffffc0ffffffc0fffffff = limbs26 0x3ffffff 0x3ffff03 0x3ffc0ff 0x3f03fff 0xfffff"
    by (simp add: limbs26_def)
  show "poly_R ?c = poly_clamp key"
    unfolding poly_R_def u poly_clamp_def L C
    by (rule limbs26_and [OF lt lt lt lt, symmetric]) simp_all
  show "poly_key (ccpoly1305_init ctx key) = drop 16 key"
    using assms by (auto simp: ccpoly1305_init_def Let_def add.commute intro!: nth_equalityI)
  have le: "x AND y \<le> y" for x y :: nat
    by (simp add: and_nat_def nat_le_iff)
  have "poly_key_ok ?c"
    unfolding poly_key_ok_def u by (simp add: le) (simp add: ccpoly1305_init_def Let_def)
  then show "poly_ok ?c" by (simp add: poly_ok_def poly_acc_ok_def ccpoly1305_init_def Let_def)
  show "poly_H ?c = 0" "poly_buf_used ?c = 0" "poly_buf ?c = poly_buf ctx"
    by (simp_all add: poly_H_def limbs26_def ccpoly1305_init_def Let_def)
qed

section \<open>Updates absorb the concatenation\<close>

text \<open>
  The context without its buffer.  The blocks processed so far determine it, whatever calls
  they came in.
\<close>

definition poly_core :: "ccpoly1305_ctx \<Rightarrow> ccpoly1305_ctx" where
  "poly_core ctx = ctx\<lparr>poly_buf := [], poly_buf_used := 0\<rparr>"

definition poly_blank :: ccpoly1305_ctx where
  "poly_blank = \<lparr>poly_r0 = 0, poly_r1 = 0, poly_r2 = 0, poly_r3 = 0, poly_r4 = 0, poly_s1 = 0,
     poly_s2 = 0, poly_s3 = 0, poly_s4 = 0, poly_h0 = 0, poly_h1 = 0, poly_h2 = 0, poly_h3 = 0, poly_h4 = 0,
     poly_buf = replicate 16 0, poly_buf_used = 0, poly_key = replicate 16 0\<rparr>"

definition poly_start :: "bytes \<Rightarrow> ccpoly1305_ctx" where
  "poly_start key = poly_core (ccpoly1305_init poly_blank key)"

lemma poly_core_init: "poly_core (ccpoly1305_init ctx key) = poly_start key"
  by (simp add: poly_core_def poly_start_def poly_blank_def ccpoly1305_init_def Let_def)

lemma poly_core_upd [simp]:
  "poly_core (c\<lparr>poly_buf := b\<rparr>) = poly_core c" "poly_core (c\<lparr>poly_buf_used := n\<rparr>) = poly_core c"
  "poly_core (poly_core c) = poly_core c"
  by (simp_all add: poly_core_def)

lemma poly_core_steps:
  "poly_core (poly1305_mul c) = poly1305_mul (poly_core c)"
  "poly_core (poly1305_add hibit c src) = poly1305_add hibit (poly_core c) src"
  by (simp_all add: poly_core_def poly1305_mul_def poly1305_add_def Let_def)

lemma poly_core_blocks: "poly_core (ccpoly1305_blocks c n src) = ccpoly1305_blocks (poly_core c) n src"
proof (induction c n src rule: ccpoly1305_blocks.induct)
  case (1 c n src)
  then show ?case
    by (subst (1 2) ccpoly1305_blocks.simps) (simp add: poly_core_steps Let_def)
qed

lemma poly_add_take:
  assumes "16 \<le> length xs"
  shows "poly1305_add hibit c (xs @ ys) = poly1305_add hibit c xs"
proof -
  have "cc_load32_le (drop k (xs @ ys)) = cc_load32_le (drop k xs)" if "k + 4 \<le> length xs" for k
    using that by (simp add: cc_load32_le_def nth_append)
  from this [of 0] this [of 4] this [of 8] this [of 12] show ?thesis
    using assms by (simp add: poly1305_add_def Let_def)
qed

lemma ccpoly1305_blocks_append:
  "16 dvd length xs \<Longrightarrow> ccpoly1305_blocks c (length xs + n) (xs @ ys) = ccpoly1305_blocks (ccpoly1305_blocks c (length xs) xs) n ys"
proof (induction "length xs" arbitrary: c xs rule: less_induct)
  case less
  show ?case
  proof (cases "xs = []")
    case True
    then show ?thesis by (simp add: ccpoly1305_blocks.simps [of c 0 "[]"])
  next
    case False
    then have l: "16 \<le> length xs" using less.prems by (auto intro: dvd_imp_le)
    let ?c = "poly1305_mul (poly1305_add (push_bit 24 1) c xs)"
    have d: "16 dvd length (drop 16 xs)" "length (drop 16 xs) < length xs" using less.prems l by (auto simp: dvd_diff_nat)
    have "ccpoly1305_blocks c (length xs + n) (xs @ ys) = ccpoly1305_blocks ?c (length (drop 16 xs) + n) (drop 16 xs @ ys)"
      using l by (subst ccpoly1305_blocks.simps) (simp add: poly_add_take)
    also have "\<dots> = ccpoly1305_blocks (ccpoly1305_blocks ?c (length (drop 16 xs)) (drop 16 xs)) n ys"
      by (rule less.hyps [OF d(2,1)])
    also have "ccpoly1305_blocks ?c (length (drop 16 xs)) (drop 16 xs) = ccpoly1305_blocks c (length xs) xs"
      using l by (subst ccpoly1305_blocks.simps [of c]) simp
    finally show ?thesis .
  qed
qed

lemma ccpoly1305_blocks_take:
  assumes "n \<le> length xs"
  shows "ccpoly1305_blocks c n xs = ccpoly1305_blocks c n (take n xs)"
  using assms
proof (induction c n xs rule: ccpoly1305_blocks.induct)
  case (1 c n xs)
  have "poly1305_add (push_bit 24 1) c xs = poly1305_add (push_bit 24 1) c (take n xs)" if "16 \<le> n"
    using poly_add_take [of "take n xs" "push_bit 24 1" c "drop n xs"] that "1.prems" by simp
  with 1 show ?case
    by (subst (1 2) ccpoly1305_blocks.simps) (simp add: Let_def drop_take)
qed

text \<open>
  The message so far is whole blocks, already in the accumulator, and fewer than sixteen bytes
  in the buffer.
\<close>

definition poly_absorbed :: "bytes \<Rightarrow> ccpoly1305_ctx \<Rightarrow> bytes \<Rightarrow> bool" where
  "poly_absorbed key ctx msg \<longleftrightarrow> length (poly_buf ctx) = 16 \<and>
     (\<exists>full rest. msg = full @ rest \<and> 16 dvd length full \<and> length rest < 16 \<and>
        poly_buf_used ctx = length rest \<and> take (length rest) (poly_buf ctx) = rest \<and>
        poly_core ctx = ccpoly1305_blocks (poly_start key) (length full) full)"

lemma poly_absorbed_init:
  assumes "length (poly_buf ctx) = 16"
  shows "poly_absorbed key (ccpoly1305_init ctx key) []"
  using assms
  by (simp add: poly_absorbed_def poly_core_init ccpoly1305_blocks.simps [of _ 0])
    (simp add: ccpoly1305_init_def Let_def)

text \<open>Changing the buffer leaves the accumulator and the key alone.\<close>

lemma poly_core_same:
  "poly_ok (poly_core c) = poly_ok c" "poly_H (poly_core c) = poly_H c" "poly_R (poly_core c) = poly_R c"
  "poly_key (poly_core c) = poly_key c"
  by (simp_all add: poly_core_def poly_ok_def poly_acc_ok_def poly_key_ok_def poly_H_def poly_R_def)

lemma poly_start_val:
  assumes "length key = 32"
  shows "poly_ok (poly_start key)" "poly_H (poly_start key) = 0" "poly_R (poly_start key) = poly_clamp key"
    "poly_key (poly_start key) = drop 16 key"
  using ccpoly1305_init_val [OF assms, of poly_blank] by (simp_all add: poly_start_def poly_core_same)

lemma poly_absorbed_full:
  assumes "poly_core ctx = ccpoly1305_blocks (poly_start key) (length full) full" "length key = 32"
  shows "poly_ok ctx" "poly_R ctx = poly_clamp key" "poly_key ctx = drop 16 key"
    "poly_H ctx mod poly_p = poly1305_acc (poly_clamp key) 0 full"
proof -
  note st = poly_start_val [OF assms(2)]
  note v = ccpoly1305_blocks_val [OF st(1) order_refl, of full]
  have same: "poly_same (ccpoly1305_blocks (poly_start key) (length full) full) (poly_start key)" using v by simp
  note f = poly_same_fields [OF same]
  show "poly_ok ctx" "poly_R ctx = poly_clamp key" "poly_key ctx = drop 16 key"
    "poly_H ctx mod poly_p = poly1305_acc (poly_clamp key) 0 full"
    using v st f unfolding assms(1) [symmetric] poly_core_same by simp_all
qed

lemma poly_step_buf:
  "poly_buf (poly1305_mul c) = poly_buf c" "poly_buf (poly1305_add hibit c src) = poly_buf c"
  "poly_buf_used (poly1305_mul c) = poly_buf_used c" "poly_buf_used (poly1305_add hibit c src) = poly_buf_used c"
  by (simp_all add: poly1305_mul_def poly1305_add_def Let_def)

lemma poly_blocks_buf:
  "poly_buf (ccpoly1305_blocks c n src) = poly_buf c \<and> poly_buf_used (ccpoly1305_blocks c n src) = poly_buf_used c"
proof (induction c n src rule: ccpoly1305_blocks.induct)
  case (1 c n src)
  then show ?case
    by (subst (1 2) ccpoly1305_blocks.simps) (simp add: Let_def poly_step_buf)
qed

lemma ccpoly1305_fill_absorbed:
  assumes "poly_absorbed key ctx msg" "nbytes \<le> length src" "ccpoly1305_fill ctx nbytes src = (c, n)"
  shows "poly_absorbed key c (msg @ take n src)" "n \<le> nbytes" "n < nbytes \<Longrightarrow> poly_buf_used c = 0"
proof -
  from assms(1) obtain full rest where m: "msg = full @ rest" "16 dvd length full" "length rest < 16"
    "poly_buf_used ctx = length rest" "take (length rest) (poly_buf ctx) = rest"
    "poly_core ctx = ccpoly1305_blocks (poly_start key) (length full) full"
    and lbuf: "length (poly_buf ctx) = 16"
    unfolding poly_absorbed_def by blast
  have "poly_absorbed key c (msg @ take n src) \<and> n \<le> nbytes \<and> (n < nbytes \<longrightarrow> poly_buf_used c = 0)"
  proof (cases "rest = []")
    case True
    then show ?thesis using assms m(4) by (auto simp: ccpoly1305_fill_def)
  next
    case False
    define k where "k = (if 16 - length rest > nbytes then nbytes else 16 - length rest)"
    define buf where "buf = rest @ take k src @ drop (length rest + k) (poly_buf ctx)"
    let ?d = "ctx\<lparr>poly_buf := buf, poly_buf_used := length rest + k\<rparr>"
    let ?e = "ccpoly1305_blocks ?d 16 buf"
    have lk: "k \<le> length src" "length rest + k \<le> 16" using assms(2) m(3) by (auto simp: k_def)
    have lb: "length buf = 16" using lk lbuf by (simp add: buf_def)
    have lr: "length (rest @ take k src) = length rest + k" using lk by simp
    have f: "(c, n) = (if length rest + k = 16 then (?e\<lparr>poly_buf_used := 0\<rparr>, k) else (?d, k))"
      using assms(3) False m(4,5) unfolding ccpoly1305_fill_def Let_def k_def [symmetric] m(4) buf_def
      by (auto split: if_splits)
    show ?thesis
    proof (cases "length rest + k = 16")
      case True
      have buf: "buf = rest @ take k src" using True lbuf by (simp add: buf_def)
      have core: "poly_core (?e\<lparr>poly_buf_used := 0\<rparr>) = ccpoly1305_blocks (poly_start key) (length (full @ buf)) (full @ buf)"
        using ccpoly1305_blocks_append [OF m(2), of _ 16 buf] lb by (simp add: poly_core_blocks m(6))
      have len: "length (poly_buf ?e) = 16"
        using lb by (simp add: poly_blocks_buf)
      have "16 dvd length (full @ buf)" using m(2) lb by simp
      then have "poly_absorbed key (?e\<lparr>poly_buf_used := 0\<rparr>) (msg @ take k src)"
        unfolding poly_absorbed_def using core len m(1) buf
        by (intro conjI exI [of _ "full @ buf"] exI [of _ "[]"]) simp_all
      moreover have "n = k" "c = ?e\<lparr>poly_buf_used := 0\<rparr>" "k \<le> nbytes" using f True by (auto simp: k_def)
      ultimately show ?thesis by simp
    next
      case F: False
      then have e: "c = ?d" "n = k" "k = nbytes" using f lk(2) m(3) by (auto simp: k_def split: if_splits)
      have "take (length rest + k) buf = rest @ take k src" using lk by (simp add: buf_def)
      then have "poly_absorbed key ?d (msg @ take k src)"
        unfolding poly_absorbed_def using m F lk lb lr
        by (intro conjI exI [of _ full] exI [of _ "rest @ take k src"]) simp_all
      then show ?thesis using e by simp
    qed
  qed
  then show "poly_absorbed key c (msg @ take n src)" "n \<le> nbytes" "n < nbytes \<Longrightarrow> poly_buf_used c = 0" by simp_all
qed

lemma poly_absorbed_whole:
  assumes "poly_absorbed key ctx msg" "poly_buf_used ctx = 0"
  shows "16 dvd length msg" "poly_core ctx = ccpoly1305_blocks (poly_start key) (length msg) msg"
  using assms by (auto simp: poly_absorbed_def)

lemma poly_absorbed_blocks:
  assumes "poly_absorbed key ctx msg" "poly_buf_used ctx = 0" "n \<le> length src" "16 dvd n"
  shows "poly_absorbed key (ccpoly1305_blocks ctx n src) (msg @ take n src)"
    "poly_buf_used (ccpoly1305_blocks ctx n src) = 0"
proof -
  note m = poly_absorbed_whole [OF assms(1,2)]
  let ?all = "msg @ take n src"
  have l: "length ?all = length msg + n" using assms(3) by simp
  have "poly_core (ccpoly1305_blocks ctx n src) = ccpoly1305_blocks (poly_start key) (length ?all) ?all"
    unfolding poly_core_blocks m(2) l ccpoly1305_blocks_append [OF m(1)]
    by (rule ccpoly1305_blocks_take [OF assms(3)])
  moreover have "16 dvd length ?all" unfolding l using m(1) assms(4) by simp
  ultimately show "poly_absorbed key (ccpoly1305_blocks ctx n src) ?all"
    using assms(1,2) unfolding poly_absorbed_def
    by (intro conjI exI [of _ ?all] exI [of _ "[]"]) (simp_all add: poly_blocks_buf)
  show "poly_buf_used (ccpoly1305_blocks ctx n src) = 0" using assms(2) by (simp add: poly_blocks_buf)
qed

lemma poly_absorbed_rest:
  assumes "poly_absorbed key ctx msg" "poly_buf_used ctx = 0" "n \<le> length src" "n < 16"
  shows "poly_absorbed key (ctx\<lparr>poly_buf := take n src @ drop n (poly_buf ctx), poly_buf_used := n\<rparr>) (msg @ take n src)"
  unfolding poly_absorbed_def
  by (intro conjI exI [of _ msg] exI [of _ "take n src"])
    (use poly_absorbed_whole [OF assms(1,2)] assms in \<open>simp_all add: poly_absorbed_def\<close>)

lemma and_15: "n AND 0xf = n mod (16 :: nat)"
  using take_bit_eq_mask [of 4 n] by (simp add: take_bit_eq_mod mask_eq_exp_minus_1)

lemma blocks_16: "push_bit 4 (drop_bit 4 n) = n - n mod (16 :: nat)"
  by (simp add: push_bit_eq_mult drop_bit_eq_div minus_mod_eq_div_mult)

lemma ccpoly1305_update_absorbed:
  assumes "poly_absorbed key ctx msg" "nbytes \<le> length src"
  shows "poly_absorbed key (ccpoly1305_update ctx nbytes src) (msg @ take nbytes src)"
proof -
  obtain c0 n0 where f: "ccpoly1305_fill ctx nbytes src = (c0, n0)" by force
  note a0 = ccpoly1305_fill_absorbed [OF assms f]
  let ?n = "nbytes - n0" and ?src = "drop n0 src"
  define k where "k = (if ?n \<ge> 16 then push_bit 4 (drop_bit 4 ?n) else 0)"
  define c1 where "c1 = (if ?n \<ge> 16 then ccpoly1305_blocks c0 k ?src else c0)"
  have k: "k = ?n - ?n mod 16" "k \<le> ?n" unfolding k_def blocks_16 by auto
  have k16: "16 dvd k" unfolding k(1) by (rule dvd_minus_mod)
  have t: "(if ?n \<ge> 16 then ?n AND 0xf else ?n) = ?n mod 16" unfolding and_15 by simp
  have u: "ccpoly1305_update ctx nbytes src = (if ?n mod 16 \<noteq> 0
      then c1\<lparr>poly_buf := take (?n mod 16) (drop k ?src) @ drop (?n mod 16) (poly_buf c1), poly_buf_used := ?n mod 16\<rparr>
      else c1)"
    unfolding ccpoly1305_update_def f Let_def prod.case k_def [symmetric] c1_def [symmetric] t ..
  show ?thesis
  proof (cases "?n = 0")
    case True
    then show ?thesis using a0(1,2) u by (simp add: c1_def)
  next
    case False
    then have z: "poly_buf_used c0 = 0" using a0(3) by simp
    have l: "k \<le> length ?src" using k(2) assms(2) by simp
    have a1: "poly_absorbed key c1 ((msg @ take n0 src) @ take k ?src)" "poly_buf_used c1 = 0"
      using poly_absorbed_blocks [OF a0(1) z l k16] a0(1) z k(1) by (auto simp: c1_def)
    have n: "n0 + (k + ?n mod 16) = nbytes" using k(1) a0(2) False by (simp add: mod_less_eq_dividend)
    have s: "take nbytes src = take n0 src @ take k ?src @ take (?n mod 16) (drop k ?src)"
    proof -
      have "take (a + (b + c)) src = take a src @ take b (drop a src) @ take c (drop b (drop a src))" for a b c
        by (simp only: take_add drop_drop add.commute)
      from this [of n0 k "?n mod 16"] show ?thesis unfolding n .
    qed
    have "?n mod 16 \<le> length (drop k ?src)"
      unfolding length_drop using n assms(2) by linarith
    from poly_absorbed_rest [OF a1 this] a1(1) show ?thesis
      unfolding u s by (cases "?n mod 16 = 0") simp_all
  qed
qed

interpretation poly: absorber poly_absorbed ccpoly1305_update
  by unfold_locales (rule ccpoly1305_update_absorbed)

section \<open>The tag\<close>

lemma unat_and_26: "unat ((x :: u32) AND 0x3ffffff) = unat x mod 2 ^ 26"
proof -
  have "(0x3ffffff :: u32) = mask 26" by (simp add: mask_eq_exp_minus_1)
  then show ?thesis by (simp only: unat_and_mask)
qed

lemma unat_add_carry:
  fixes h b :: u32
  assumes "unat h < 2 ^ 26" "unat b \<le> 64"
  shows "unat (h + b) = unat h + unat b" "unat (drop_bit 26 (h + b)) \<le> 64"
    "unat (drop_bit 26 (h + b)) = (unat h + unat b) div 2 ^ 26"
proof -
  show s: "unat (h + b) = unat h + unat b" using assms by (simp add: unat_word_ariths(1))
  show "unat (drop_bit 26 (h + b)) = (unat h + unat b) div 2 ^ 26" by (simp only: unat_drop_bit_div s)
  have "(unat h + unat b) div 2 ^ 26 \<le> (2 ^ 26 + 64) div 2 ^ 26" by (rule div_le_mono) (use assms in simp)
  then show "unat (drop_bit 26 (h + b)) \<le> 64" by (simp add: unat_drop_bit_div s)
qed

lemma limbs26_bound:
  assumes "a < 2 ^ 26" "b < 2 ^ 26" "c < 2 ^ 26" "d < 2 ^ 26" "e < 2 ^ 26"
  shows "limbs26 a b c d e < 2 ^ 130"
  using assms unfolding limbs26_def by simp

definition poly_reduced :: "ccpoly1305_ctx \<Rightarrow> bool" where
  "poly_reduced ctx \<longleftrightarrow> unat (poly_h0 ctx) < 2 ^ 26 \<and> unat (poly_h1 ctx) < 2 ^ 26 \<and>
     unat (poly_h2 ctx) < 2 ^ 26 \<and> unat (poly_h3 ctx) < 2 ^ 26 \<and> unat (poly_h4 ctx) < 2 ^ 26"

lemma ccpoly1305_carry_val:
  assumes "poly_acc_ok ctx"
  defines "c \<equiv> ccpoly1305_carry ctx"
  shows "poly_H c mod poly_p = poly_H ctx mod poly_p" "poly_key c = poly_key ctx"
    "unat (poly_h0 c) < 2 ^ 26 \<Longrightarrow> poly_reduced c"
proof -
  define h0 h1 h2 h3 h4 where h: "h0 = unat (poly_h0 ctx)" "h1 = unat (poly_h1 ctx)" "h2 = unat (poly_h2 ctx)"
    "h3 = unat (poly_h3 ctx)" "h4 = unat (poly_h4 ctx)"
  have hb: "h0 \<le> 43 * 2 ^ 26" "unat (poly_h1 ctx) < 2 ^ 26" "unat (poly_h2 ctx) < 2 ^ 26"
    "unat (poly_h3 ctx) < 2 ^ 26" "unat (poly_h4 ctx) < 2 ^ 26"
    using assms(1) by (simp_all add: poly_acc_ok_def h)
  define b0 where "b0 = drop_bit 26 (poly_h0 ctx)"
  define b1 where "b1 = drop_bit 26 (poly_h1 ctx + b0)"
  define b2 where "b2 = drop_bit 26 (poly_h2 ctx + b1)"
  define b3 where "b3 = drop_bit 26 (poly_h3 ctx + b2)"
  define b4 where "b4 = drop_bit 26 (poly_h4 ctx + b3)"
  have u0: "unat b0 = h0 div 2 ^ 26" by (simp add: b0_def unat_drop_bit_div h)
  have "h0 div 2 ^ 26 \<le> 43" using div_le_mono [OF hb(1), of "2 ^ 26"] by simp
  then have l0: "unat b0 \<le> 64" using u0 by simp
  note s1 = unat_add_carry [OF hb(2) l0, folded b1_def h]
  note s2 = unat_add_carry [OF hb(3) s1(2), folded b2_def h]
  note s3 = unat_add_carry [OF hb(4) s2(2), folded b3_def h]
  note s4 = unat_add_carry [OF hb(5) s3(2), folded b4_def h]
  have f: "c = ctx\<lparr>poly_h0 := (poly_h0 ctx AND 0x3ffffff) + b4 * 5, poly_h1 := (poly_h1 ctx + b0) AND 0x3ffffff,
      poly_h2 := (poly_h2 ctx + b1) AND 0x3ffffff, poly_h3 := (poly_h3 ctx + b2) AND 0x3ffffff,
      poly_h4 := (poly_h4 ctx + b3) AND 0x3ffffff\<rparr>"
    unfolding c_def ccpoly1305_carry_def Let_def b4_def b3_def b2_def b1_def b0_def ..
  have five: "unat (b4 * 5) = 5 * unat b4" using s4(2) by (simp add: unat_word_ariths(2))
  have fit: "x + 5 * y < 2 ^ 32" if "x < 2 ^ 26" "y \<le> 64" for x y :: nat using that by simp
  have "h0 mod 2 ^ 26 < 2 ^ 26" by simp
  from fit [OF this s4(2)] have w0: "unat (poly_h0 c) = h0 mod 2 ^ 26 + 5 * unat b4"
    unfolding f using unat_add_to [OF five, of "poly_h0 ctx AND 0x3ffffff"] by (simp add: unat_and_26 h)
  have w: "unat (poly_h1 c) = (h1 + unat b0) mod 2 ^ 26" "unat (poly_h2 c) = (h2 + unat b1) mod 2 ^ 26"
    "unat (poly_h3 c) = (h3 + unat b2) mod 2 ^ 26" "unat (poly_h4 c) = (h4 + unat b3) mod 2 ^ 26"
    unfolding f by (simp_all add: unat_and_26 s1(1) s2(1) s3(1) s4(1))
  have "limbs26 (h0 mod 2 ^ 26) ((h1 + unat b0) mod 2 ^ 26) ((h2 + unat b1) mod 2 ^ 26) ((h3 + unat b2) mod 2 ^ 26)
      ((h4 + unat b3) mod 2 ^ 26) + 2 ^ 130 * unat b4 = limbs26 h0 h1 h2 h3 h4"
    unfolding s4(3) s3(3) s2(3) s1(3) u0 by (rule poly_carry)
  moreover have "limbs26 (a + k) b c d e = limbs26 a b c d e + k" for a b c d e k by (simp add: limbs26_def)
  ultimately have "poly_H c + poly_p * unat b4 = poly_H ctx"
    unfolding poly_H_def w w0 h [symmetric] by (simp add: poly_p_def)
  then show "poly_H c mod poly_p = poly_H ctx mod poly_p" by (metis mod_mult_self2)
  show "poly_key c = poly_key ctx" unfolding f by simp
  show "poly_reduced c" if "unat (poly_h0 c) < 2 ^ 26" unfolding poly_reduced_def w using that by simp
qed

end
