(* ===== verification/Ccpoly1305_Tag.thy ===== *)
theory Ccpoly1305_Tag
  imports Ccpoly1305
begin

unbundle bit_operations_syntax

text \<open>
  The last steps of Poly1305: the conditional subtraction of \<open>2 ^ 130 - 5\<close> and the addition of
  the pad modulo \<open>2 ^ 128\<close>.  The tag is the one RFC 8439 asks for whenever the lowest limb fits in
  26 bits after the last carry pass; the pass ends at that limb, so it need not, and a key and
  a message are given for which it does not and the tag is another one.
\<close>

section \<open>Conditional subtraction\<close>

lemma ccpoly1305_subtract_val:
  assumes "poly_reduced ctx"
  defines "c \<equiv> ccpoly1305_subtract ctx"
  shows "poly_reduced c" "poly_H c = poly_H ctx mod poly_p" "poly_key c = poly_key ctx"
proof -
  define h0 h1 h2 h3 h4 where h: "h0 = unat (poly_h0 ctx)" "h1 = unat (poly_h1 ctx)" "h2 = unat (poly_h2 ctx)"
    "h3 = unat (poly_h3 ctx)" "h4 = unat (poly_h4 ctx)"
  have hb: "unat (poly_h0 ctx) < 2 ^ 26" "unat (poly_h1 ctx) < 2 ^ 26" "unat (poly_h2 ctx) < 2 ^ 26"
    "unat (poly_h3 ctx) < 2 ^ 26" "unat (poly_h4 ctx) < 2 ^ 26"
    using assms(1) by (simp_all add: poly_reduced_def)
  define b0 where "b0 = drop_bit 26 (poly_h0 ctx + 5)"
  define b1 where "b1 = drop_bit 26 (poly_h1 ctx + b0)"
  define b2 where "b2 = drop_bit 26 (poly_h2 ctx + b1)"
  define b3 where "b3 = drop_bit 26 (poly_h3 ctx + b2)"
  define g4 where "g4 = poly_h4 ctx + b3 - push_bit 26 1"
  define sel where "sel = drop_bit 31 g4 - 1"
  have five: "unat (5 :: u32) \<le> 64" by simp
  note s0 = unat_add_carry [OF hb(1) five, folded b0_def h]
  note s1 = unat_add_carry [OF hb(2) s0(2), folded b1_def h]
  note s2 = unat_add_carry [OF hb(3) s1(2), folded b2_def h]
  note s3 = unat_add_carry [OF hb(4) s2(2), folded b3_def h]
  have f: "c = ctx\<lparr>poly_h0 := (poly_h0 ctx AND NOT sel) OR (((poly_h0 ctx + 5) AND 0x3ffffff) AND sel),
      poly_h1 := (poly_h1 ctx AND NOT sel) OR (((poly_h1 ctx + b0) AND 0x3ffffff) AND sel),
      poly_h2 := (poly_h2 ctx AND NOT sel) OR (((poly_h2 ctx + b1) AND 0x3ffffff) AND sel),
      poly_h3 := (poly_h3 ctx AND NOT sel) OR (((poly_h3 ctx + b2) AND 0x3ffffff) AND sel),
      poly_h4 := (poly_h4 ctx AND NOT sel) OR (g4 AND sel)\<rparr>"
    unfolding c_def ccpoly1305_subtract_def Let_def sel_def g4_def b3_def b2_def b1_def b0_def ..
  show "poly_key c = poly_key ctx" unfolding f by simp
  have le1: "unat b \<le> 1" if "unat b = (unat (x :: u32) + unat b') div 2 ^ 26" "unat b' \<le> 64" "unat x < 2 ^ 26" for x b b' :: u32
  proof -
    have "(unat x + unat b') div 2 ^ 26 \<le> (2 ^ 26 + 64) div 2 ^ 26" by (rule div_le_mono) (use that in simp)
    then show ?thesis using that(1) by simp
  qed
  have b3: "unat b3 \<le> 1" by (rule le1 [of b3 "poly_h3 ctx" b2]) (use s3(3) s2(2) hb h in simp_all)
  define u4 where "u4 = h4 + unat b3"
  have u4: "unat (poly_h4 ctx + b3) = u4" "u4 \<le> 2 ^ 26"
    using hb(5) b3 by (simp_all add: u4_def h unat_word_ariths(1))
  define t where "t = limbs26 ((h0 + 5) mod 2 ^ 26) ((h1 + unat b0) mod 2 ^ 26) ((h2 + unat b1) mod 2 ^ 26)
    ((h3 + unat b2) mod 2 ^ 26) (u4 mod 2 ^ 26)"
  have five': "unat (5 :: u32) = 5" by simp
  have sum: "t + 2 ^ 130 * (u4 div 2 ^ 26) = poly_H ctx + 5"
  proof -
    have "t + 2 ^ 130 * (u4 div 2 ^ 26) = limbs26 (h0 + 5) h1 h2 h3 h4"
      unfolding t_def u4_def s3(3) s2(3) s1(3) s0(3) five' by (rule poly_carry)
    then show ?thesis unfolding poly_H_def h [symmetric] by (simp add: limbs26_def)
  qed
  have tb: "t < 2 ^ 130" unfolding t_def by (rule limbs26_bound) simp_all
  have Hb: "poly_H ctx < 2 ^ 130" unfolding poly_H_def by (rule limbs26_bound) (use hb in simp_all)
  show "poly_reduced c" "poly_H c = poly_H ctx mod poly_p"
  proof -
    consider "u4 < 2 ^ 26" | "u4 = 2 ^ 26" using u4(2) by linarith
    then have "poly_reduced c \<and> poly_H c = poly_H ctx mod poly_p"
    proof cases
      case 1
      have "unat g4 = u4 + (2 ^ 32 - 2 ^ 26)"
        using 1 by (simp add: g4_def unat_sub_if' u4(1))
      then have "unat g4 div 2 ^ 31 = 1" using 1 by (simp add: div_nat_eqI)
      then have "drop_bit 31 g4 = 1" by (simp add: word_unat_eq_iff unat_drop_bit_div)
      then have sel: "sel = 0" by (simp add: sel_def)
      have "poly_H c = poly_H ctx" "poly_reduced c"
        unfolding f sel poly_H_def poly_reduced_def using hb by simp_all
      moreover have "poly_H ctx + 5 < 2 ^ 130" using sum tb 1 by simp
      ultimately show ?thesis by (simp add: poly_p_def)
    next
      case 2
      have "unat g4 = 0" using 2 by (simp add: g4_def unat_sub_if' u4(1))
      then have g4: "g4 = 0" by (simp add: unat_0_iff)
      then have sel: "sel = - 1" by (simp add: sel_def)
      have w: "unat (poly_h0 c) = (h0 + 5) mod 2 ^ 26" "unat (poly_h1 c) = (h1 + unat b0) mod 2 ^ 26"
        "unat (poly_h2 c) = (h2 + unat b1) mod 2 ^ 26" "unat (poly_h3 c) = (h3 + unat b2) mod 2 ^ 26"
        "unat (poly_h4 c) = u4 mod 2 ^ 26"
        unfolding f sel g4 using 2 by (simp_all add: unat_and_26 s0(1) s1(1) s2(1) s3(1))
      have "poly_H c = t" unfolding poly_H_def w t_def ..
      moreover have "t = poly_H ctx - poly_p" "poly_p \<le> poly_H ctx" using sum 2 by (simp_all add: poly_p_def)
      moreover have "poly_H ctx - poly_p < poly_p" using Hb by (simp add: poly_p_def)
      moreover have "poly_reduced c" unfolding poly_reduced_def w by simp
      ultimately show ?thesis by (simp add: le_mod_geq)
    qed
    then show "poly_reduced c" "poly_H c = poly_H ctx mod poly_p" by simp_all
  qed
qed

section \<open>Adding the pad\<close>

lemma limbs26_to_words:
  fixes v0 v1 v2 v3 v4 :: nat
  assumes "v0 < 2 ^ 26" "v1 < 2 ^ 26" "v2 < 2 ^ 26" "v3 < 2 ^ 26"
  shows "(v1 * 2 ^ 26 + v0) mod 2 ^ 32 + 2 ^ 32 * ((v2 * 2 ^ 20 + v1 div 2 ^ 6) mod 2 ^ 32 +
      2 ^ 32 * ((v3 * 2 ^ 14 + v2 div 2 ^ 12) mod 2 ^ 32 + 2 ^ 32 * ((v4 * 2 ^ 8 + v3 div 2 ^ 18) mod 2 ^ 32))) =
    limbs26 v0 v1 v2 v3 v4 mod 2 ^ 128"
proof -
  define x1 y1 x2 y2 x3 y3 x4 y4 where xy: "x1 = v1 mod 2 ^ 6" "y1 = v1 div 2 ^ 6" "x2 = v2 mod 2 ^ 12" "y2 = v2 div 2 ^ 12"
    "x3 = v3 mod 2 ^ 18" "y3 = v3 div 2 ^ 18" "x4 = v4 mod 2 ^ 24" "y4 = v4 div 2 ^ 24"
  have v: "v1 = x1 + 2 ^ 6 * y1" "v2 = x2 + 2 ^ 12 * y2" "v3 = x3 + 2 ^ 18 * y3" "v4 = x4 + 2 ^ 24 * y4"
    unfolding xy by simp_all
  have x: "x1 < 2 ^ 6" "x2 < 2 ^ 12" "x3 < 2 ^ 18" "x4 < 2 ^ 24" unfolding xy by simp_all
  have y: "y1 < 2 ^ 20" "y2 < 2 ^ 14" "y3 < 2 ^ 8" unfolding xy using assms by simp_all
  have d: "v1 div 2 ^ 6 = y1" "v2 div 2 ^ 12 = y2" "v3 div 2 ^ 18 = y3" by (simp_all add: xy)
  have e0: "v1 * 2 ^ 26 + v0 = (v0 + 2 ^ 26 * x1) + 2 ^ 32 * y1" unfolding v by (simp add: algebra_simps)
  have e1: "v2 * 2 ^ 20 + y1 = (y1 + 2 ^ 20 * x2) + 2 ^ 32 * y2" unfolding v by (simp add: algebra_simps)
  have e2: "v3 * 2 ^ 14 + y2 = (y2 + 2 ^ 14 * x3) + 2 ^ 32 * y3" unfolding v by (simp add: algebra_simps)
  have e3: "v4 * 2 ^ 8 + y3 = (y3 + 2 ^ 8 * x4) + 2 ^ 32 * y4" unfolding v by (simp add: algebra_simps)
  have b: "v0 + 2 ^ 26 * x1 < 2 ^ 32" "y1 + 2 ^ 20 * x2 < 2 ^ 32" "y2 + 2 ^ 14 * x3 < 2 ^ 32" "y3 + 2 ^ 8 * x4 < 2 ^ 32"
    using assms(1) x y by simp_all
  let ?w = "(v0 + 2 ^ 26 * x1) + 2 ^ 32 * ((y1 + 2 ^ 20 * x2) + 2 ^ 32 * ((y2 + 2 ^ 14 * x3) + 2 ^ 32 * (y3 + 2 ^ 8 * x4)))"
  have "limbs26 v0 v1 v2 v3 v4 = ?w + 2 ^ 128 * y4"
    unfolding limbs26_def v by (simp add: algebra_simps)
  moreover have "?w < 2 ^ 128" using b by simp
  ultimately have "limbs26 v0 v1 v2 v3 v4 mod 2 ^ 128 = ?w" using digit_mod by simp
  then show ?thesis unfolding d e0 e1 e2 e3 digit_mod [OF b(1)] digit_mod [OF b(2)] digit_mod [OF b(3)] digit_mod [OF b(4)]
    by (rule sym)
qed

lemma carry32:
  fixes f0 f1 f2 f3 :: nat
  defines "u1 \<equiv> f1 + f0 div 2 ^ 32"
  defines "u2 \<equiv> f2 + u1 div 2 ^ 32"
  defines "u3 \<equiv> f3 + u2 div 2 ^ 32"
  shows "f0 mod 2 ^ 32 + 2 ^ 32 * (u1 mod 2 ^ 32 + 2 ^ 32 * (u2 mod 2 ^ 32 + 2 ^ 32 * (u3 mod 2 ^ 32))) =
    (f0 + 2 ^ 32 * (f1 + 2 ^ 32 * (f2 + 2 ^ 32 * f3))) mod 2 ^ 128"
proof -
  have s: "x mod 2 ^ 32 + 2 ^ 32 * (x div 2 ^ 32) = x" for x :: nat by simp
  let ?l = "f0 mod 2 ^ 32 + 2 ^ 32 * (u1 mod 2 ^ 32 + 2 ^ 32 * (u2 mod 2 ^ 32 + 2 ^ 32 * (u3 mod 2 ^ 32)))"
  have "f0 + 2 ^ 32 * (f1 + 2 ^ 32 * (f2 + 2 ^ 32 * f3)) = f0 mod 2 ^ 32 + 2 ^ 32 * (u1 + 2 ^ 32 * (f2 + 2 ^ 32 * f3))"
    unfolding u1_def by (subst (1) s [of f0, symmetric]) (simp only: algebra_simps)
  also have "\<dots> = f0 mod 2 ^ 32 + 2 ^ 32 * (u1 mod 2 ^ 32 + 2 ^ 32 * (u2 + 2 ^ 32 * f3))"
    unfolding u2_def by (subst (1) s [of u1, symmetric]) (simp only: algebra_simps)
  also have "\<dots> = f0 mod 2 ^ 32 + 2 ^ 32 * (u1 mod 2 ^ 32 + 2 ^ 32 * (u2 mod 2 ^ 32 + 2 ^ 32 * u3))"
    unfolding u3_def by (subst (1) s [of u2, symmetric]) (simp only: algebra_simps)
  also have "\<dots> = ?l + 2 ^ 128 * (u3 div 2 ^ 32)"
  proof -
    have "a + 2 ^ 32 * (b + 2 ^ 32 * (c + 2 ^ 32 * (x + 2 ^ 32 * y))) =
        (a + 2 ^ 32 * (b + 2 ^ 32 * (c + 2 ^ 32 * x))) + 2 ^ 128 * y" for a b c x y :: nat
      by (simp add: algebra_simps)
    from this [of _ _ _ "u3 mod 2 ^ 32" "u3 div 2 ^ 32"] show ?thesis unfolding s .
  qed
  finally have e: "f0 + 2 ^ 32 * (f1 + 2 ^ 32 * (f2 + 2 ^ 32 * f3)) = ?l + 2 ^ 128 * (u3 div 2 ^ 32)" .
  have "a + 2 ^ 32 * (b + 2 ^ 32 * (c + 2 ^ 32 * x)) < 2 ^ 128"
    if "a < 2 ^ 32" "b < 2 ^ 32" "c < 2 ^ 32" "x < 2 ^ 32" for a b c x :: nat
    using that by simp
  then have "?l < 2 ^ 128" by simp
  then show ?thesis unfolding e by simp
qed

lemma ccpoly1305_tag_val:
  assumes "poly_reduced ctx" "length (poly_key ctx) = 16"
  shows "length (ccpoly1305_tag ctx) = 16"
    "le_val 256 (ccpoly1305_tag ctx) = (poly_H ctx + le_val 256 (poly_key ctx)) mod 2 ^ 128"
proof -
  define v0 v1 v2 v3 v4 where v: "v0 = unat (poly_h0 ctx)" "v1 = unat (poly_h1 ctx)" "v2 = unat (poly_h2 ctx)"
    "v3 = unat (poly_h3 ctx)" "v4 = unat (poly_h4 ctx)"
  have vb: "v0 < 2 ^ 26" "v1 < 2 ^ 26" "v2 < 2 ^ 26" "v3 < 2 ^ 26"
    using assms(1) by (simp_all add: poly_reduced_def v)
  let ?k0 = "cc_load32_le (poly_key ctx)" and ?k1 = "cc_load32_le (drop 4 (poly_key ctx))"
    and ?k2 = "cc_load32_le (drop 8 (poly_key ctx))" and ?k3 = "cc_load32_le (drop 12 (poly_key ctx))"
  define w0 where "w0 = poly_h0 ctx OR push_bit 26 (poly_h1 ctx)"
  define w1 where "w1 = drop_bit 6 (poly_h1 ctx) OR push_bit 20 (poly_h2 ctx)"
  define w2 where "w2 = drop_bit 12 (poly_h2 ctx) OR push_bit 14 (poly_h3 ctx)"
  define w3 where "w3 = drop_bit 18 (poly_h3 ctx) OR push_bit 8 (poly_h4 ctx)"
  have or_wrap: "unat (y OR push_bit n x) = (unat x * 2 ^ n + unat y) mod 2 ^ 32" if "unat y < 2 ^ n" "n \<le> 32" for x y :: u32 and n
    using unat_or_push_wrap [of y n x] that by simp
  have w0: "unat w0 = (v1 * 2 ^ 26 + v0) mod 2 ^ 32"
    unfolding w0_def v by (rule or_wrap) (use vb in \<open>simp_all add: v\<close>)
  have w1: "unat w1 = (v2 * 2 ^ 20 + v1 div 2 ^ 6) mod 2 ^ 32"
    unfolding w1_def v unat_drop_bit_div [symmetric] by (rule or_wrap) (use vb in \<open>simp_all add: v unat_drop_bit_div\<close>)
  have w2: "unat w2 = (v3 * 2 ^ 14 + v2 div 2 ^ 12) mod 2 ^ 32"
    unfolding w2_def v unat_drop_bit_div [symmetric] by (rule or_wrap) (use vb in \<open>simp_all add: v unat_drop_bit_div\<close>)
  have w3: "unat w3 = (v4 * 2 ^ 8 + v3 div 2 ^ 18) mod 2 ^ 32"
    unfolding w3_def v unat_drop_bit_div [symmetric] by (rule or_wrap) (use vb in \<open>simp_all add: v unat_drop_bit_div\<close>)
  have add64: "unat (ucast w + (ucast k :: cc_unit)) = unat w + unat k" "unat (ucast w + (ucast k :: cc_unit)) < 2 ^ 33"
    for w k :: u32
    using word_bound [of w] word_bound [of k] by (simp_all add: unat_word_ariths(1) unat_ucast_mod)
  have carry64: "unat (f + drop_bit 32 g) = unat f + unat g div 2 ^ 32" "unat (f + drop_bit 32 g) < 2 ^ 34"
    if "unat f < 2 ^ 33" "unat g < 2 ^ 34" for f g :: cc_unit
  proof -
    have "unat g div 2 ^ 32 < 4" using that(2) by (simp add: less_mult_imp_div_less)
    then show "unat (f + drop_bit 32 g) = unat f + unat g div 2 ^ 32" "unat (f + drop_bit 32 g) < 2 ^ 34"
      using that(1) by (simp_all add: unat_word_ariths(1) unat_drop_bit_div)
  qed
  define f0 where "f0 = ucast w0 + (ucast ?k0 :: cc_unit)"
  define f1 where "f1 = ucast w1 + (ucast ?k1 :: cc_unit) + drop_bit 32 f0"
  define f2 where "f2 = ucast w2 + (ucast ?k2 :: cc_unit) + drop_bit 32 f1"
  define f3 where "f3 = ucast w3 + (ucast ?k3 :: cc_unit) + drop_bit 32 f2"
  have f0: "unat f0 = unat w0 + unat ?k0" and f0b: "unat f0 < 2 ^ 34"
    using add64 [of w0 ?k0] by (simp_all add: f0_def)
  have f1: "unat f1 = unat w1 + unat ?k1 + unat f0 div 2 ^ 32"
    unfolding f1_def carry64(1) [OF add64(2) f0b] add64(1) ..
  have f1b: "unat f1 < 2 ^ 34"
    unfolding f1_def by (rule carry64(2) [OF add64(2) f0b])
  have f2: "unat f2 = unat w2 + unat ?k2 + unat f1 div 2 ^ 32"
    unfolding f2_def carry64(1) [OF add64(2) f1b] add64(1) ..
  have f2b: "unat f2 < 2 ^ 34"
    unfolding f2_def by (rule carry64(2) [OF add64(2) f1b])
  have f3: "unat f3 = unat w3 + unat ?k3 + unat f2 div 2 ^ 32"
    unfolding f3_def carry64(1) [OF add64(2) f2b] add64(1) ..
  have tag: "ccpoly1305_tag ctx = cc_store32_le (ucast f0) @ cc_store32_le (ucast f1) @ cc_store32_le (ucast f2) @ cc_store32_le (ucast f3)"
    by (simp add: ccpoly1305_tag_def Let_def f3_def f2_def f1_def f0_def w0_def w1_def w2_def w3_def)
  show "length (ccpoly1305_tag ctx) = 16" unfolding tag by simp
  have "le_val 256 (ccpoly1305_tag ctx) = unat f0 mod 2 ^ 32 + 2 ^ 32 * (unat f1 mod 2 ^ 32 + 2 ^ 32 *
      (unat f2 mod 2 ^ 32 + 2 ^ 32 * (unat f3 mod 2 ^ 32)))"
    unfolding tag by (simp add: le_val_append val_store unat_ucast_mod)
  also have "\<dots> = (unat w0 + unat ?k0 + 2 ^ 32 * (unat w1 + unat ?k1 + 2 ^ 32 * (unat w2 + unat ?k2 + 2 ^ 32 *
      (unat w3 + unat ?k3)))) mod 2 ^ 128"
    unfolding f3 f2 f1 f0 by (rule carry32)
  also have "\<dots> = ((unat w0 + 2 ^ 32 * (unat w1 + 2 ^ 32 * (unat w2 + 2 ^ 32 * unat w3))) +
      (unat ?k0 + 2 ^ 32 * (unat ?k1 + 2 ^ 32 * (unat ?k2 + 2 ^ 32 * unat ?k3)))) mod 2 ^ 128"
  proof -
    have "a + a' + 2 ^ 32 * (b + b' + 2 ^ 32 * (c + c' + 2 ^ 32 * (d + d'))) =
        (a + 2 ^ 32 * (b + 2 ^ 32 * (c + 2 ^ 32 * d))) + (a' + 2 ^ 32 * (b' + 2 ^ 32 * (c' + 2 ^ 32 * d')))"
      for a a' b b' c c' d d' :: nat by (simp add: algebra_simps)
    then show ?thesis by (simp only:)
  qed
  also have "unat w0 + 2 ^ 32 * (unat w1 + 2 ^ 32 * (unat w2 + 2 ^ 32 * unat w3)) = poly_H ctx mod 2 ^ 128"
    unfolding w0 w1 w2 w3 poly_H_def v [symmetric] by (rule limbs26_to_words [OF vb])
  also have "unat ?k0 + 2 ^ 32 * (unat ?k1 + 2 ^ 32 * (unat ?k2 + 2 ^ 32 * unat ?k3)) = le_val 256 (poly_key ctx)"
    using load_words [of "poly_key ctx"] assms(2) by simp
  finally show "le_val 256 (ccpoly1305_tag ctx) = (poly_H ctx + le_val 256 (poly_key ctx)) mod 2 ^ 128"
    by (simp only: mod_add_left_eq)
qed

section \<open>The whole function\<close>

text \<open>The accumulator after the last block and the carry pass over it.\<close>

definition poly_last :: "ccpoly1305_ctx \<Rightarrow> ccpoly1305_ctx" where
  "poly_last ctx = ccpoly1305_carry
     (if poly_buf_used ctx \<noteq> 0 then ccpoly1305_blocks ctx (poly_buf_used ctx) (poly_buf ctx) else ctx)"

definition poly_mac :: "bytes \<Rightarrow> bytes \<Rightarrow> nat" where
  "poly_mac key msg = (poly1305_acc (poly_clamp key) 0 msg + le_val 256 (drop 16 key)) mod 2 ^ 128"

lemma poly_last_val:
  assumes "poly_absorbed key ctx msg" "length key = 32"
  shows "poly_H (poly_last ctx) mod poly_p = poly1305_acc (poly_clamp key) 0 msg mod poly_p"
    "poly_key (poly_last ctx) = drop 16 key"
    "unat (poly_h0 (poly_last ctx)) < 2 ^ 26 \<Longrightarrow> poly_reduced (poly_last ctx)"
proof -
  from assms(1) obtain full rest where m0: "msg = full @ rest" "16 dvd length full" "length rest < 16"
    "poly_buf_used ctx = length rest" "take (length rest) (poly_buf ctx) = rest"
    "poly_core ctx = ccpoly1305_blocks (poly_start key) (length full) full" and buf: "length (poly_buf ctx) = 16"
    unfolding poly_absorbed_def by blast
  note ok = poly_absorbed_full(1-3) [OF m0(6) assms(2)]
  note m = m0(1-5) poly_absorbed_full(4) [OF m0(6) assms(2)]
  let ?c = "if poly_buf_used ctx \<noteq> 0 then ccpoly1305_blocks ctx (poly_buf_used ctx) (poly_buf ctx) else ctx"
  have l: "length rest \<le> length (poly_buf ctx)" using m(3) buf by simp
  note v = ccpoly1305_blocks_val [OF ok(1) l, unfolded m(5)]
  have "poly_H ?c mod poly_p = poly1305_acc (poly_clamp key) 0 msg \<and> poly_ok ?c \<and> poly_key ?c = drop 16 key"
  proof (cases "rest = []")
    case True
    then show ?thesis using m ok by simp
  next
    case False
    have same: "poly_same (ccpoly1305_blocks ctx (length rest) (poly_buf ctx)) ctx" using v by simp
    show ?thesis
      using False v m ok poly_same_fields(5) [OF same] by (simp add: poly1305_acc_append [OF m(2)])
  qed
  then have c: "poly_H ?c mod poly_p = poly1305_acc (poly_clamp key) 0 msg" "poly_acc_ok ?c" "poly_key ?c = drop 16 key"
    unfolding poly_ok_def by blast+
  note cv = ccpoly1305_carry_val [OF c(2)]
  show "poly_H (poly_last ctx) mod poly_p = poly1305_acc (poly_clamp key) 0 msg mod poly_p"
    unfolding poly_last_def cv(1) c(1) [symmetric] by simp
  show "poly_key (poly_last ctx) = drop 16 key" unfolding poly_last_def cv(2) c(3) ..
  show "unat (poly_h0 (poly_last ctx)) < 2 ^ 26 \<Longrightarrow> poly_reduced (poly_last ctx)"
    unfolding poly_last_def by (rule cv(3))
qed

lemma poly1305_acc_less: "a < poly_p \<Longrightarrow> poly1305_acc r a msg < poly_p"
proof (induction r a msg rule: poly1305_acc.induct)
  case (1 r a msg)
  have "0 < poly_p" by (simp add: poly_p_def)
  then show ?case using 1 by (subst poly1305_acc.simps) simp
qed

text \<open>The tag is right whenever the carry pass leaves the lowest limb below \<open>2 ^ 26\<close>.\<close>

lemma ccpoly1305_final_val:
  assumes "poly_absorbed key ctx msg" "length key = 32" "unat (poly_h0 (poly_last ctx)) < 2 ^ 26"
  shows "length (snd (ccpoly1305_final ctx)) = 16" "le_val 256 (snd (ccpoly1305_final ctx)) = poly_mac key msg"
proof -
  note l = poly_last_val [OF assms(1,2)]
  note s = ccpoly1305_subtract_val [OF l(3) [OF assms(3)]]
  have k: "length (poly_key (ccpoly1305_subtract (poly_last ctx))) = 16" using s(3) l(2) assms(2) by simp
  note t = ccpoly1305_tag_val [OF s(1) k]
  have f: "snd (ccpoly1305_final ctx) = ccpoly1305_tag (ccpoly1305_subtract (poly_last ctx))"
    by (simp add: ccpoly1305_final_def poly_last_def Let_def)
  have "poly1305_acc (poly_clamp key) 0 msg < poly_p" by (rule poly1305_acc_less) (simp add: poly_p_def)
  then have "poly_H (ccpoly1305_subtract (poly_last ctx)) = poly1305_acc (poly_clamp key) 0 msg"
    unfolding s(2) l(1) by simp
  then show "length (snd (ccpoly1305_final ctx)) = 16" "le_val 256 (snd (ccpoly1305_final ctx)) = poly_mac key msg"
    using t unfolding f by (simp_all add: poly_mac_def s(3) l(2))
qed

text \<open>The tag is a function of the key and the bytes absorbed, whatever calls they came in.\<close>

lemma poly_core_tag:
  "poly_core (ccpoly1305_carry c) = ccpoly1305_carry (poly_core c)"
  "poly_core (ccpoly1305_subtract c) = ccpoly1305_subtract (poly_core c)"
  "ccpoly1305_tag (poly_core c) = ccpoly1305_tag c"
  by (simp_all add: poly_core_def ccpoly1305_carry_def ccpoly1305_subtract_def ccpoly1305_tag_def Let_def)

lemma ccpoly1305_final_core:
  assumes "length rest \<le> length (poly_buf ctx)" "poly_buf_used ctx = length rest" "take (length rest) (poly_buf ctx) = rest"
  shows "snd (ccpoly1305_final ctx) =
    ccpoly1305_tag (ccpoly1305_subtract (ccpoly1305_carry
      (if rest = [] then poly_core ctx else ccpoly1305_blocks (poly_core ctx) (length rest) rest)))"
proof -
  let ?c = "if poly_buf_used ctx \<noteq> 0 then ccpoly1305_blocks ctx (poly_buf_used ctx) (poly_buf ctx) else ctx"
  have "poly_core ?c = (if rest = [] then poly_core ctx else ccpoly1305_blocks (poly_core ctx) (length rest) rest)"
    using ccpoly1305_blocks_take [OF assms(1), of "poly_core ctx"] assms(2,3) by (simp add: poly_core_blocks)
  note core = this
  have "snd (ccpoly1305_final ctx) = ccpoly1305_tag (ccpoly1305_subtract (ccpoly1305_carry ?c))"
    by (simp only: ccpoly1305_final_def Let_def snd_conv)
  also have "\<dots> = ccpoly1305_tag (poly_core (ccpoly1305_subtract (ccpoly1305_carry ?c)))"
    by (rule poly_core_tag(3) [symmetric])
  also have "\<dots> = ccpoly1305_tag (ccpoly1305_subtract (ccpoly1305_carry (poly_core ?c)))"
    by (simp only: poly_core_tag(1,2))
  finally show ?thesis unfolding core .
qed

lemma ccpoly1305_final_determined:
  assumes "poly_absorbed key c msg" "poly_absorbed key d msg"
  shows "snd (ccpoly1305_final c) = snd (ccpoly1305_final d)"
proof -
  have cut: "full = take (16 * (length msg div 16)) msg \<and> rest = drop (16 * (length msg div 16)) msg"
    if "msg = full @ rest" "16 dvd length full" "length rest < 16" for full rest
  proof -
    from that(2) obtain k where k: "length full = 16 * k" ..
    then have "length msg div 16 = k" using that(1,3) by simp
    then show ?thesis using that(1) k by simp
  qed
  from assms obtain fc rc fd rd where "msg = fc @ rc" "16 dvd length fc" "length rc < 16"
    "poly_buf_used c = length rc" "take (length rc) (poly_buf c) = rc"
    "poly_core c = ccpoly1305_blocks (poly_start key) (length fc) fc"
    "msg = fd @ rd" "16 dvd length fd" "length rd < 16"
    "poly_buf_used d = length rd" "take (length rd) (poly_buf d) = rd"
    "poly_core d = ccpoly1305_blocks (poly_start key) (length fd) fd"
    and b: "length (poly_buf c) = 16" "length (poly_buf d) = 16"
    unfolding poly_absorbed_def by blast
  note c = this(1-6) and d = this(7-12)
  have "fc = fd" "rc = rd" using cut [OF c(1-3)] cut [OF d(1-3)] by simp_all
  then show ?thesis
    using ccpoly1305_final_core [OF _ c(4,5)] ccpoly1305_final_core [OF _ d(4,5)] c(3,6) d(6) b by simp
qed

lemma ccpoly1305_val:
  assumes "length key = 32" "length (poly_buf ctx) = 16" "nbytes \<le> length data"
    "unat (poly_h0 (poly_last (ccpoly1305_update (ccpoly1305_init ctx key) nbytes data))) < 2 ^ 26"
  shows "le_val 256 (snd (ccpoly1305 ctx key nbytes data)) = poly_mac key (take nbytes data)"
proof -
  have "poly_absorbed key (ccpoly1305_update (ccpoly1305_init ctx key) nbytes data) ([] @ take nbytes data)"
    by (rule ccpoly1305_update_absorbed [OF poly_absorbed_init [OF assms(2)] assms(3)])
  from ccpoly1305_final_val(2) [OF this assms(1,4)] show ?thesis
    by (simp add: ccpoly1305_def Let_def case_prod_beta)
qed

text \<open>
  The other case happens.  Under this key (\<open>r\<close> has one limb, the pad is zero) the one block of
  this message leaves \<open>h\<close> just above \<open>2 ^ 130\<close>; the pass carries out of the top limb into the
  lowest one, which then keeps 27 bits, and the OR with the next limb loses a carry.
\<close>

definition poly_bad_key :: bytes where
  "poly_bad_key = [0xfe, 0xff, 0xff, 0x03] @ replicate 28 0"

definition poly_bad_msg :: bytes where
  "poly_bad_msg = [0xaf, 0x97, 0xd0, 0x5e, 0x2f, 0xa1, 0xbd, 0x5e, 0x42, 0x7b, 0xbd, 0x84, 0xf6, 0x7a, 0x09, 0xed]"

lemma poly_bad_tag:
  "snd (ccpoly1305 poly_blank poly_bad_key 16 poly_bad_msg) = [4, 0, 0, 4, 0, 0, 0, 0, 0, 0, 0, 0, 0, 0, 0, 0]"
  by code_simp

lemma poly_bad_mac: "poly_mac poly_bad_key poly_bad_msg = 0x8000004"
proof -
  have "poly_clamp poly_bad_key = 0x3fffffe"
    by (simp add: poly_clamp_def poly_bad_key_def le_val_append)
  moreover have "le_val 256 (drop 16 poly_bad_key) = 0" by (simp add: poly_bad_key_def)
  moreover have "le_val 256 (take 16 poly_bad_msg @ [1]) = 0x1ed097af684bd7b425ebda12f5ed097af"
    by (simp add: poly_bad_msg_def)
  moreover have "poly1305_acc r a poly_bad_msg = (a + le_val 256 (take 16 poly_bad_msg @ [1])) * r mod poly_p" for r a
    using poly1305_acc_short [of poly_bad_msg r a] by (simp add: poly_bad_msg_def)
  ultimately show ?thesis by (simp add: poly_mac_def poly_p_def)
qed

end
