(* ===== verification/Ccaead.thy ===== *)
theory Ccaead
  imports Ccchacha20 Ccpoly1305_Tag
begin

unbundle bit_operations_syntax

text \<open>
  The authenticated cipher of \<open>ccchacha20poly1305.c\<close>: the context with its state field, the
  incremental calls and their guards, and the one-shot calls.  The lemmas follow one session
  (a nonce, additional data, text in any number of calls, the tag) and say what the calls return;
  the step relation at the end says which call may follow which.
\<close>

text \<open>The state is a byte; the code compares it with five constants and may meet any other value.\<close>

definition STATE_SETNONCE :: byte where "STATE_SETNONCE = 1"
definition STATE_AAD :: byte where "STATE_AAD = 2"
definition STATE_ENCRYPT :: byte where "STATE_ENCRYPT = 3"
definition STATE_DECRYPT :: byte where "STATE_DECRYPT = 4"
definition STATE_FINAL :: byte where "STATE_FINAL = 5"

lemmas aead_state_defs = STATE_SETNONCE_def STATE_AAD_def STATE_ENCRYPT_def STATE_DECRYPT_def STATE_FINAL_def

lemma aead_states_distinct [simp]:
  "STATE_SETNONCE \<noteq> STATE_AAD" "STATE_SETNONCE \<noteq> STATE_ENCRYPT" "STATE_SETNONCE \<noteq> STATE_DECRYPT" "STATE_SETNONCE \<noteq> STATE_FINAL"
  "STATE_AAD \<noteq> STATE_ENCRYPT" "STATE_AAD \<noteq> STATE_DECRYPT" "STATE_AAD \<noteq> STATE_FINAL"
  "STATE_ENCRYPT \<noteq> STATE_DECRYPT" "STATE_ENCRYPT \<noteq> STATE_FINAL" "STATE_DECRYPT \<noteq> STATE_FINAL"
  by (simp_all add: aead_state_defs)

declare aead_states_distinct [symmetric, simp]

lemma aead_state_cases:
  obtains "s = STATE_SETNONCE" | "s = STATE_AAD" | "s = STATE_ENCRYPT" | "s = STATE_DECRYPT" | "s = STATE_FINAL"
  | "s \<notin> {STATE_SETNONCE, STATE_AAD, STATE_ENCRYPT, STATE_DECRYPT, STATE_FINAL}"
  by blast

record ccchacha20poly1305_ctx =
  aead_chacha :: ccchacha20_ctx
  aead_poly :: ccpoly1305_ctx
  ctx_aad_nbytes :: cc_unit
  ctx_text_nbytes :: cc_unit
  aead_status :: byte

definition CCCHACHA20POLY1305_TEXT_MAX_NBYTES :: nat where
  "CCCHACHA20POLY1305_TEXT_MAX_NBYTES = 2 ^ 38 - 64"

section \<open>The calls\<close>

definition ccchacha20poly1305_reset :: "ccchacha20poly1305_ctx \<Rightarrow> int \<times> ccchacha20poly1305_ctx" where
  "ccchacha20poly1305_reset ctx =
     (0, ctx\<lparr>ctx_aad_nbytes := 0, ctx_text_nbytes := 0, aead_status := STATE_SETNONCE,
           aead_chacha := ccchacha20_reset (aead_chacha ctx)\<rparr>)"

definition ccchacha20poly1305_init :: "ccchacha20poly1305_ctx \<Rightarrow> bytes \<Rightarrow> int \<times> ccchacha20poly1305_ctx" where
  "ccchacha20poly1305_init ctx key =
     (let ctx = ctx\<lparr>aead_chacha := ccchacha20_init (aead_chacha ctx) key\<rparr>;
          (rv, ctx) = ccchacha20poly1305_reset ctx
      in (0, ctx))"

definition ccchacha20poly1305_setnonce :: "ccchacha20poly1305_ctx \<Rightarrow> bytes \<Rightarrow> int \<times> ccchacha20poly1305_ctx" where
  "ccchacha20poly1305_setnonce ctx nonce =
     (if aead_status ctx \<noteq> STATE_SETNONCE then (1, ctx)
      else let chacha = ccchacha20_setnonce (aead_chacha ctx) nonce;
               (chacha, block) = ccchacha20_xor chacha 64 (replicate 64 0);
               poly = ccpoly1305_init (aead_poly ctx) block
           in (0, ctx\<lparr>aead_chacha := chacha, aead_poly := poly, aead_status := STATE_AAD\<rparr>))"

definition ccchacha20poly1305_incnonce ::
  "ccchacha20poly1305_ctx \<Rightarrow> bytes \<Rightarrow> int \<times> ccchacha20poly1305_ctx" where
  "ccchacha20poly1305_incnonce ctx nonce = (1, ctx)"

definition ccchacha20poly1305_aad :: "ccchacha20poly1305_ctx \<Rightarrow> nat \<Rightarrow> bytes \<Rightarrow> int \<times> ccchacha20poly1305_ctx" where
  "ccchacha20poly1305_aad ctx nbytes aad =
     (if aead_status ctx \<noteq> STATE_AAD then (1, ctx)
      else (0, ctx\<lparr>aead_poly := ccpoly1305_update (aead_poly ctx) nbytes aad,
                   ctx_aad_nbytes := ctx_aad_nbytes ctx + of_nat nbytes\<rparr>))"

definition pad_nbytes :: "cc_unit \<Rightarrow> nat" where
  "pad_nbytes n = unat ((16 - (n AND 0xf)) AND 0xf)"

definition finalize_aad :: "ccchacha20poly1305_ctx \<Rightarrow> byte \<Rightarrow> ccchacha20poly1305_ctx" where
  "finalize_aad ctx st =
     (if aead_status ctx = STATE_AAD
      then ctx\<lparr>aead_poly := ccpoly1305_update (aead_poly ctx) (pad_nbytes (ctx_aad_nbytes ctx)) (replicate 64 0),
             aead_status := st\<rparr>
      else ctx)"

definition ccchacha20poly1305_encrypt ::
  "ccchacha20poly1305_ctx \<Rightarrow> nat \<Rightarrow> bytes \<Rightarrow> int \<times> ccchacha20poly1305_ctx \<times> bytes" where
  "ccchacha20poly1305_encrypt ctx nbytes src =
     (let ctx = finalize_aad ctx STATE_ENCRYPT
      in if aead_status ctx \<noteq> STATE_ENCRYPT then (1, ctx, [])
         else if \<not> unat (- 1 - ctx_text_nbytes ctx) \<ge> nbytes then (1, ctx, [])
         else if \<not> unat (ctx_text_nbytes ctx + of_nat nbytes) \<le> CCCHACHA20POLY1305_TEXT_MAX_NBYTES then (1, ctx, [])
         else let (chacha, out) = ccchacha20_update (aead_chacha ctx) nbytes src;
                  poly = ccpoly1305_update (aead_poly ctx) nbytes out
              in (0, ctx\<lparr>aead_chacha := chacha, aead_poly := poly,
                       ctx_text_nbytes := ctx_text_nbytes ctx + of_nat nbytes\<rparr>, out))"

definition ccchacha20poly1305_decrypt ::
  "ccchacha20poly1305_ctx \<Rightarrow> nat \<Rightarrow> bytes \<Rightarrow> int \<times> ccchacha20poly1305_ctx \<times> bytes" where
  "ccchacha20poly1305_decrypt ctx nbytes src =
     (let ctx = finalize_aad ctx STATE_DECRYPT
      in if aead_status ctx \<noteq> STATE_DECRYPT then (1, ctx, [])
         else if \<not> unat (- 1 - ctx_text_nbytes ctx) \<ge> nbytes then (1, ctx, [])
         else if \<not> unat (ctx_text_nbytes ctx + of_nat nbytes) \<le> CCCHACHA20POLY1305_TEXT_MAX_NBYTES then (1, ctx, [])
         else let poly = ccpoly1305_update (aead_poly ctx) nbytes src;
                  (chacha, out) = ccchacha20_update (aead_chacha ctx) nbytes src
              in (0, ctx\<lparr>aead_chacha := chacha, aead_poly := poly,
                       ctx_text_nbytes := ctx_text_nbytes ctx + of_nat nbytes\<rparr>, out))"

text \<open>What \<open>finalize\<close> and \<open>verify\<close> share: the padding of the text, the two lengths, the tag.\<close>

definition aead_close :: "ccchacha20poly1305_ctx \<Rightarrow> ccchacha20poly1305_ctx \<times> bytes" where
  "aead_close ctx =
     (let poly = ccpoly1305_update (aead_poly ctx) (pad_nbytes (ctx_text_nbytes ctx)) (replicate 64 0);
          poly = ccpoly1305_update poly 8 (cc_store64_le (ctx_aad_nbytes ctx));
          poly = ccpoly1305_update poly 8 (cc_store64_le (ctx_text_nbytes ctx));
          (poly, tag) = ccpoly1305_final poly
      in (ctx\<lparr>aead_poly := poly, aead_status := STATE_FINAL\<rparr>, tag))"

definition ccchacha20poly1305_finalize ::
  "ccchacha20poly1305_ctx \<Rightarrow> int \<times> ccchacha20poly1305_ctx \<times> bytes" where
  "ccchacha20poly1305_finalize ctx =
     (let ctx = finalize_aad ctx STATE_ENCRYPT
      in if aead_status ctx \<noteq> STATE_ENCRYPT then (1, ctx, [])
         else let (ctx, tag) = aead_close ctx in (0, ctx, tag))"

definition ccchacha20poly1305_verify ::
  "ccchacha20poly1305_ctx \<Rightarrow> bytes \<Rightarrow> int \<times> ccchacha20poly1305_ctx" where
  "ccchacha20poly1305_verify ctx tag =
     (let ctx = finalize_aad ctx STATE_DECRYPT
      in if aead_status ctx \<noteq> STATE_DECRYPT then (1, ctx)
         else let (ctx, calc_tag) = aead_close ctx
              in (if cc_cmp_safe 16 calc_tag tag = 0 then 0 else - 1, ctx))"

text \<open>
  The one-shot calls.  The context starts with whatever the stack holds; the return codes of
  the steps of the encryption are not looked at.
\<close>

definition ccchacha20poly1305_encrypt_oneshot ::
  "ccchacha20poly1305_ctx \<Rightarrow> bytes \<Rightarrow> bytes \<Rightarrow> nat \<Rightarrow> bytes \<Rightarrow> nat \<Rightarrow> bytes \<Rightarrow> int \<times> bytes \<times> bytes" where
  "ccchacha20poly1305_encrypt_oneshot ctx key nonce aad_len aad ptext_nbytes ptext =
     (let (_, ctx) = ccchacha20poly1305_init ctx key;
          (_, ctx) = ccchacha20poly1305_setnonce ctx nonce;
          (_, ctx) = ccchacha20poly1305_aad ctx aad_len aad;
          (_, ctx, ctext) = ccchacha20poly1305_encrypt ctx ptext_nbytes ptext;
          (_, ctx, tag) = ccchacha20poly1305_finalize ctx
      in (0, ctext, tag))"

definition ccchacha20poly1305_decrypt_oneshot ::
  "ccchacha20poly1305_ctx \<Rightarrow> bytes \<Rightarrow> bytes \<Rightarrow> nat \<Rightarrow> bytes \<Rightarrow> nat \<Rightarrow> bytes \<Rightarrow> bytes \<Rightarrow> int \<times> bytes" where
  "ccchacha20poly1305_decrypt_oneshot ctx key nonce aad_len aad ctext_nbytes ctext tag =
     (let (_, ctx) = ccchacha20poly1305_init ctx key;
          (_, ctx) = ccchacha20poly1305_setnonce ctx nonce;
          (_, ctx) = ccchacha20poly1305_aad ctx aad_len aad;
          (_, ctx, ptext) = ccchacha20poly1305_decrypt ctx ctext_nbytes ctext;
          (rv, ctx) = ccchacha20poly1305_verify ctx tag
      in (rv, ptext))"

section \<open>A session\<close>

text \<open>The state words of a key and a nonce at block zero, and the one-time key of Poly1305.\<close>

definition aead_words :: "bytes \<Rightarrow> bytes \<Rightarrow> u32 list" where
  "aead_words key nonce = kChaCha20Constants @ map (\<lambda>i. cc_load32_le (drop (4 * i) key)) [0..<8] @ [0] @
     map (\<lambda>i. cc_load32_le (drop (4 * i) nonce)) [0..<3]"

definition aead_otk :: "bytes \<Rightarrow> bytes \<Rightarrow> bytes" where
  "aead_otk key nonce = take 32 (chacha20_keyblock (aead_words key nonce))"

text \<open>The key stream of the text starts at block one.\<close>

definition aead_stream :: "bytes \<Rightarrow> bytes \<Rightarrow> nat \<Rightarrow> byte" where
  "aead_stream key nonce i = chacha20_stream (aead_words key nonce) (64 + i)"

definition pad16 :: "bytes \<Rightarrow> bytes" where
  "pad16 bs = replicate ((16 - length bs mod 16) mod 16) 0"

text \<open>The bytes RFC 8439 authenticates, and their tag.\<close>

definition aead_mac_data :: "bytes \<Rightarrow> bytes \<Rightarrow> bytes" where
  "aead_mac_data aad text = aad @ pad16 aad @ text @ pad16 text @
     cc_store64_le (of_nat (length aad)) @ cc_store64_le (of_nat (length text))"

definition aead_tag :: "bytes \<Rightarrow> bytes \<Rightarrow> bytes \<Rightarrow> bytes \<Rightarrow> bytes" where
  "aead_tag key nonce aad text =
     (let msg = aead_mac_data aad text in snd (ccpoly1305 poly_blank (aead_otk key nonce) (length msg) msg))"

definition aead_ready :: "bytes \<Rightarrow> ccchacha20poly1305_ctx \<Rightarrow> bool" where
  "aead_ready key ctx \<longleftrightarrow> aead_status ctx = STATE_SETNONCE \<and> ctx_aad_nbytes ctx = 0 \<and> ctx_text_nbytes ctx = 0 \<and>
     chacha_wf (aead_chacha ctx) \<and> chacha_leftover (aead_chacha ctx) = 0 \<and> length (poly_buf (aead_poly ctx)) = 16 \<and>
     take 13 (chacha_state (aead_chacha ctx)) = take 13 (aead_words key [])"

definition aead_session :: "bytes \<Rightarrow> bytes \<Rightarrow> ccchacha20poly1305_ctx \<Rightarrow> bytes \<Rightarrow> bytes \<Rightarrow> bool" where
  "aead_session key nonce ctx aad text \<longleftrightarrow>
     chacha_wf (aead_chacha ctx) \<and>
     (\<forall>i. chacha_remaining (aead_chacha ctx) i = aead_stream key nonce (length text + i)) \<and>
     poly_absorbed (aead_otk key nonce) (aead_poly ctx)
       (if aead_status ctx = STATE_AAD then aad else aad @ pad16 aad @ text) \<and>
     (aead_status ctx = STATE_AAD \<longrightarrow> text = []) \<and>
     ctx_aad_nbytes ctx = of_nat (length aad) \<and> ctx_text_nbytes ctx = of_nat (length text) \<and>
     length text \<le> CCCHACHA20POLY1305_TEXT_MAX_NBYTES \<and>
     aead_status ctx \<in> {STATE_AAD, STATE_ENCRYPT, STATE_DECRYPT}"

text \<open>Any memory can be the context, as long as it has the sizes of the C type.\<close>

definition aead_sized :: "ccchacha20poly1305_ctx \<Rightarrow> bool" where
  "aead_sized ctx \<longleftrightarrow> length (chacha_state (aead_chacha ctx)) = 16 \<and>
     length (chacha_buffer (aead_chacha ctx)) = 64 \<and> length (poly_buf (aead_poly ctx)) = 16"

lemma pad_nbytes_eq: "pad_nbytes (of_nat n) = (16 - n mod 16) mod 16"
proof -
  have m: "(0xf :: cc_unit) = mask 4" by (simp add: mask_eq_exp_minus_1)
  have n: "unat (of_nat n AND mask 4 :: cc_unit) = n mod 16"
    by (simp add: unat_and_mask unat_of_nat mod_mod_cancel)
  have "n mod 16 < 16" by simp
  then have "unat (16 - (of_nat n AND mask 4 :: cc_unit)) = 16 - n mod 16"
    by (simp add: unat_sub_if' n)
  then show ?thesis unfolding pad_nbytes_def m unat_and_mask by simp
qed

lemma ccchacha20poly1305_init_ready:
  assumes "aead_sized ctx"
  shows "fst (ccchacha20poly1305_init ctx key) = 0" "aead_ready key (snd (ccchacha20poly1305_init ctx key))"
proof -
  obtain w where w: "chacha_state (aead_chacha ctx) = w" "length w = 16" using assms by (auto simp: aead_sized_def)
  obtain w0 w1 w2 w3 w4 w5 w6 w7 w8 w9 w10 w11 w12 w13 w14 w15 where
    ws: "w = [w0, w1, w2, w3, w4, w5, w6, w7, w8, w9, w10, w11, w12, w13, w14, w15]"
    using w(2) by (auto simp: numeral_eq_Suc length_Suc_conv)
  show "fst (ccchacha20poly1305_init ctx key) = 0"
    by (simp add: ccchacha20poly1305_init_def ccchacha20poly1305_reset_def)
  show "aead_ready key (snd (ccchacha20poly1305_init ctx key))"
    using assms w(1)
    by (simp add: ccchacha20poly1305_init_def ccchacha20poly1305_reset_def ccchacha20_init_def ccchacha20_reset_def
        Let_def ws aead_ready_def aead_sized_def chacha_wf_def aead_words_def kChaCha20Constants_def upt_conv_Cons)
qed

lemma setnonce_words:
  assumes "length w = 16" "take 13 w = take 13 (aead_words key [])"
  shows "w[13 := cc_load32_le (drop 0 nonce), 14 := cc_load32_le (drop 4 nonce), 15 := cc_load32_le (drop 8 nonce)] =
    aead_words key nonce"
proof -
  obtain w0 w1 w2 w3 w4 w5 w6 w7 w8 w9 w10 w11 w12 w13 w14 w15 where
    ws: "w = [w0, w1, w2, w3, w4, w5, w6, w7, w8, w9, w10, w11, w12, w13, w14, w15]"
    using assms(1) by (auto simp: numeral_eq_Suc length_Suc_conv)
  show ?thesis
    using assms(2) by (simp add: ws aead_words_def kChaCha20Constants_def upt_conv_Cons)
qed

lemma length_aead_words [simp]: "length (aead_words key nonce) = 16"
  by (simp add: aead_words_def kChaCha20Constants_def)

lemma ccpoly1305_init_take: "ccpoly1305_init ctx key = ccpoly1305_init ctx (take 32 key)" if "32 \<le> length key"
proof -
  have "cc_load32_le (drop k key) = cc_load32_le (drop k (take 32 key))" if "k + 4 \<le> 32" for k
    using that \<open>32 \<le> length key\<close> by (simp add: cc_load32_le_def)
  from this [of 0] this [of 4] this [of 8] this [of 12]
  have l: "cc_load32_le (drop 0 key) = cc_load32_le (drop 0 (take 32 key))" "cc_load32_le (drop 4 key) = cc_load32_le (drop 4 (take 32 key))"
    "cc_load32_le (drop 8 key) = cc_load32_le (drop 8 (take 32 key))" "cc_load32_le (drop 12 key) = cc_load32_le (drop 12 (take 32 key))"
    by simp_all
  have k: "map (\<lambda>i. key ! (i + 16)) [0..<16] = map (\<lambda>i. take 32 key ! (i + 16)) [0..<16]" by simp
  show ?thesis unfolding ccpoly1305_init_def l k ..
qed

lemma chacha_wf_poly: "length (aead_otk key nonce) = 32"
  by (simp add: aead_otk_def)

lemma session_setnonce:
  assumes "aead_ready key ctx"
  shows "fst (ccchacha20poly1305_setnonce ctx nonce) = 0"
    "aead_session key nonce (snd (ccchacha20poly1305_setnonce ctx nonce)) [] []"
    "aead_status (snd (ccchacha20poly1305_setnonce ctx nonce)) = STATE_AAD"
proof -
  let ?c = "ccchacha20_setnonce (aead_chacha ctx) nonce" and ?w = "aead_words key nonce"
  have wf: "length (chacha_state (aead_chacha ctx)) = 16" "length (chacha_buffer (aead_chacha ctx)) = 64"
    "chacha_leftover (aead_chacha ctx) = 0"
    using assms by (auto simp: aead_ready_def chacha_wf_def)
  have w: "chacha_state ?c = ?w"
    using setnonce_words [OF wf(1)] assms by (simp add: ccchacha20_setnonce_def aead_ready_def)
  have c: "chacha_wf ?c" "chacha_leftover ?c = 0"
    using wf by (simp_all add: ccchacha20_setnonce_def chacha_wf_def)
  let ?d = "?c\<lparr>chacha_state := ?w[12 := ?w ! 12 + 1]\<rparr>"
  have x: "ccchacha20_xor ?c 64 (replicate 64 0) = (?d, mask_with (chacha20_stream ?w) 64 (replicate 64 0))"
    using ccchacha20_xor_blocks [OF c(1), of 0 "replicate 64 0"] by (simp add: w)
  have block: "mask_with (chacha20_stream ?w) 64 (replicate 64 0) = chacha20_keyblock ?w"
    by (rule nth_equalityI) (simp_all add: chacha20_stream_block)
  have init: "ccpoly1305_init p (chacha20_keyblock ?w) = ccpoly1305_init p (aead_otk key nonce)" for p
    unfolding aead_otk_def by (rule ccpoly1305_init_take) simp
  have r: "ccchacha20poly1305_setnonce ctx nonce = (0, ctx\<lparr>aead_chacha := ?d,
      aead_poly := ccpoly1305_init (aead_poly ctx) (aead_otk key nonce), aead_status := STATE_AAD\<rparr>)"
    using assms by (simp add: ccchacha20poly1305_setnonce_def aead_ready_def x block init)
  have p: "poly_absorbed (aead_otk key nonce) (ccpoly1305_init (aead_poly ctx) (aead_otk key nonce)) []"
    by (rule poly_absorbed_init) (use assms in \<open>simp add: aead_ready_def\<close>)
  have "chacha_pending ?d = []" using c(2) by (simp add: chacha_pending_def)
  then have "chacha_remaining ?d i = aead_stream key nonce i" for i
    using chacha20_stream_counter [OF c(1), of 1 i] by (simp add: remaining_no_pending aead_stream_def w)
  moreover have "chacha_wf ?d" using c(1) by (simp add: chacha_wf_def)
  ultimately show "fst (ccchacha20poly1305_setnonce ctx nonce) = 0"
    "aead_session key nonce (snd (ccchacha20poly1305_setnonce ctx nonce)) [] []"
    "aead_status (snd (ccchacha20poly1305_setnonce ctx nonce)) = STATE_AAD"
    using p assms by (simp_all add: r aead_session_def aead_ready_def CCCHACHA20POLY1305_TEXT_MAX_NBYTES_def)
qed

lemma session_aad:
  assumes "aead_session key nonce ctx aad []" "aead_status ctx = STATE_AAD" "nbytes \<le> length extra"
  shows "fst (ccchacha20poly1305_aad ctx nbytes extra) = 0"
    "aead_session key nonce (snd (ccchacha20poly1305_aad ctx nbytes extra)) (aad @ take nbytes extra) []"
    "aead_status (snd (ccchacha20poly1305_aad ctx nbytes extra)) = STATE_AAD"
  using assms ccpoly1305_update_absorbed [of "aead_otk key nonce" "aead_poly ctx" aad nbytes extra]
  by (simp_all add: ccchacha20poly1305_aad_def aead_session_def min_absorb2)

lemma take_zeros: "k \<le> 64 \<Longrightarrow> take k (replicate 64 0) = replicate k (0 :: byte)"
  by simp

lemma session_finalize_aad:
  assumes "aead_session key nonce ctx aad text" "st = STATE_ENCRYPT \<or> st = STATE_DECRYPT"
  shows "aead_session key nonce (finalize_aad ctx st) aad text"
    "aead_status (finalize_aad ctx st) = (if aead_status ctx = STATE_AAD then st else aead_status ctx)"
proof -
  have k: "pad_nbytes (ctx_aad_nbytes ctx) = (16 - length aad mod 16) mod 16"
    using assms(1) by (simp add: aead_session_def pad_nbytes_eq)
  have l: "(16 - length aad mod 16) mod 16 \<le> 64" by (rule order.trans [OF mod_le_divisor]) simp_all
  show "aead_session key nonce (finalize_aad ctx st) aad text"
  proof (cases "aead_status ctx = STATE_AAD")
    case True
    then have "poly_absorbed (aead_otk key nonce) (aead_poly ctx) aad" "text = []"
      using assms(1) by (auto simp: aead_session_def)
    from ccpoly1305_update_absorbed [OF this(1), of "(16 - length aad mod 16) mod 16" "replicate 64 0"] l this(2)
    have "poly_absorbed (aead_otk key nonce)
        (ccpoly1305_update (aead_poly ctx) (pad_nbytes (ctx_aad_nbytes ctx)) (replicate 64 0)) (aad @ pad16 aad @ text)"
      by (simp add: k pad16_def min_absorb1)
    then show ?thesis using assms True by (auto simp: finalize_aad_def aead_session_def)
  qed (use assms in \<open>simp add: finalize_aad_def\<close>)
  show "aead_status (finalize_aad ctx st) = (if aead_status ctx = STATE_AAD then st else aead_status ctx)"
    by (simp add: finalize_aad_def)
qed

text \<open>The two guards of \<open>encrypt\<close> and \<open>decrypt\<close> are the limit on the text.\<close>

lemma text_guard:
  assumes "t \<le> CCCHACHA20POLY1305_TEXT_MAX_NBYTES" "n < 2 ^ 64"
  shows "unat (- 1 - of_nat t :: cc_unit) \<ge> n \<and> unat (of_nat t + of_nat n :: cc_unit) \<le> CCCHACHA20POLY1305_TEXT_MAX_NBYTES \<longleftrightarrow>
    t + n \<le> CCCHACHA20POLY1305_TEXT_MAX_NBYTES"
proof -
  have t: "t < 2 ^ 64" using assms(1) by (simp add: CCCHACHA20POLY1305_TEXT_MAX_NBYTES_def)
  have u: "unat (of_nat t :: cc_unit) = t" "unat (of_nat n :: cc_unit) = n"
    using t assms(2) by (simp_all add: unat_of_nat)
  have m: "unat (- 1 - of_nat t :: cc_unit) = 2 ^ 64 - 1 - t"
  proof -
    have "unat (- 1 :: cc_unit) = 2 ^ 64 - 1" by (simp add: unsigned_minus_1_eq_mask mask_eq_exp_minus_1)
    then show ?thesis using t by (simp add: unat_sub_if' u)
  qed
  show ?thesis
  proof (cases "t + n < 2 ^ 64")
    case True
    then have "unat (of_nat t + of_nat n :: cc_unit) = t + n" by (simp add: unat_word_ariths(1) u)
    then show ?thesis using True t unfolding m by auto
  next
    case False
    have "\<not> n \<le> 2 ^ 64 - 1 - t" using False t by linarith
    moreover have "\<not> t + n \<le> CCCHACHA20POLY1305_TEXT_MAX_NBYTES"
      using False by (simp add: CCCHACHA20POLY1305_TEXT_MAX_NBYTES_def)
    ultimately show ?thesis unfolding m by blast
  qed
qed

lemma session_encrypt:
  assumes "aead_session key nonce ctx aad text" "aead_status ctx \<in> {STATE_AAD, STATE_ENCRYPT}" "nbytes \<le> length src"
    "nbytes < 2 ^ 64"
  shows "length text + nbytes \<le> CCCHACHA20POLY1305_TEXT_MAX_NBYTES \<Longrightarrow>
    \<exists>ctx'. ccchacha20poly1305_encrypt ctx nbytes src =
        (0, ctx', mask_with (\<lambda>i. aead_stream key nonce (length text + i)) nbytes src) \<and>
      aead_session key nonce ctx' aad (text @ mask_with (\<lambda>i. aead_stream key nonce (length text + i)) nbytes src) \<and>
      aead_status ctx' = STATE_ENCRYPT"
    "CCCHACHA20POLY1305_TEXT_MAX_NBYTES < length text + nbytes \<Longrightarrow>
      ccchacha20poly1305_encrypt ctx nbytes src = (1, finalize_aad ctx STATE_ENCRYPT, [])"
proof -
  let ?c = "finalize_aad ctx STATE_ENCRYPT" and ?out = "mask_with (\<lambda>i. aead_stream key nonce (length text + i)) nbytes src"
  note f = session_finalize_aad [OF assms(1), of STATE_ENCRYPT]
  have se: "aead_session key nonce ?c aad text" "aead_status ?c = STATE_ENCRYPT" using f assms(2) by auto
  then have t: "ctx_text_nbytes ?c = of_nat (length text)" "length text \<le> CCCHACHA20POLY1305_TEXT_MAX_NBYTES"
    and wf: "chacha_wf (aead_chacha ?c)"
    and ks: "chacha_remaining (aead_chacha ?c) = (\<lambda>i. aead_stream key nonce (length text + i))"
    and po: "poly_absorbed (aead_otk key nonce) (aead_poly ?c) (aad @ pad16 aad @ text)"
    by (auto simp: aead_session_def)
  note g = text_guard [OF t(2) assms(4)]
  obtain ch out where u: "ccchacha20_update (aead_chacha ?c) nbytes src = (ch, out)" by force
  from update_serves [OF wf assms(3)] have sv: "chacha_wf ch" "out = ?out"
    "\<And>i. chacha_remaining ch i = aead_stream key nonce (length text + (nbytes + i))"
    by (simp_all add: u serves_def ks)
  show "\<exists>ctx'. ccchacha20poly1305_encrypt ctx nbytes src = (0, ctx', ?out) \<and>
      aead_session key nonce ctx' aad (text @ ?out) \<and> aead_status ctx' = STATE_ENCRYPT"
    if le: "length text + nbytes \<le> CCCHACHA20POLY1305_TEXT_MAX_NBYTES"
  proof -
    let ?d = "?c\<lparr>aead_chacha := ch, aead_poly := ccpoly1305_update (aead_poly ?c) nbytes out,
        ctx_text_nbytes := ctx_text_nbytes ?c + of_nat nbytes\<rparr>"
    have "ccchacha20poly1305_encrypt ctx nbytes src = (0, ?d, ?out)"
      using g le se(2) u sv(2) by (simp add: ccchacha20poly1305_encrypt_def Let_def t(1))
    moreover have "aead_session key nonce ?d aad (text @ ?out)"
      using ccpoly1305_update_absorbed [OF po, of nbytes out] sv se le
      by (simp add: aead_session_def add.assoc)
    ultimately show ?thesis using se(2) by simp
  qed
  show "ccchacha20poly1305_encrypt ctx nbytes src = (1, ?c, [])"
    if "CCCHACHA20POLY1305_TEXT_MAX_NBYTES < length text + nbytes"
    using g that se(2) by (auto simp: ccchacha20poly1305_encrypt_def Let_def t(1))
qed

lemma session_decrypt:
  assumes "aead_session key nonce ctx aad text" "aead_status ctx \<in> {STATE_AAD, STATE_DECRYPT}" "nbytes \<le> length src"
    "nbytes < 2 ^ 64"
  shows "length text + nbytes \<le> CCCHACHA20POLY1305_TEXT_MAX_NBYTES \<Longrightarrow>
    \<exists>ctx'. ccchacha20poly1305_decrypt ctx nbytes src =
        (0, ctx', mask_with (\<lambda>i. aead_stream key nonce (length text + i)) nbytes src) \<and>
      aead_session key nonce ctx' aad (text @ take nbytes src) \<and> aead_status ctx' = STATE_DECRYPT"
    "CCCHACHA20POLY1305_TEXT_MAX_NBYTES < length text + nbytes \<Longrightarrow>
      ccchacha20poly1305_decrypt ctx nbytes src = (1, finalize_aad ctx STATE_DECRYPT, [])"
proof -
  let ?c = "finalize_aad ctx STATE_DECRYPT" and ?out = "mask_with (\<lambda>i. aead_stream key nonce (length text + i)) nbytes src"
  note f = session_finalize_aad [OF assms(1), of STATE_DECRYPT]
  have se: "aead_session key nonce ?c aad text" "aead_status ?c = STATE_DECRYPT" using f assms(2) by auto
  then have t: "ctx_text_nbytes ?c = of_nat (length text)" "length text \<le> CCCHACHA20POLY1305_TEXT_MAX_NBYTES"
    and wf: "chacha_wf (aead_chacha ?c)"
    and ks: "chacha_remaining (aead_chacha ?c) = (\<lambda>i. aead_stream key nonce (length text + i))"
    and po: "poly_absorbed (aead_otk key nonce) (aead_poly ?c) (aad @ pad16 aad @ text)"
    by (auto simp: aead_session_def)
  note g = text_guard [OF t(2) assms(4)]
  obtain ch out where u: "ccchacha20_update (aead_chacha ?c) nbytes src = (ch, out)" by force
  from update_serves [OF wf assms(3)] have sv: "chacha_wf ch" "out = ?out"
    "\<And>i. chacha_remaining ch i = aead_stream key nonce (length text + (nbytes + i))"
    by (simp_all add: u serves_def ks)
  show "\<exists>ctx'. ccchacha20poly1305_decrypt ctx nbytes src = (0, ctx', ?out) \<and>
      aead_session key nonce ctx' aad (text @ take nbytes src) \<and> aead_status ctx' = STATE_DECRYPT"
    if le: "length text + nbytes \<le> CCCHACHA20POLY1305_TEXT_MAX_NBYTES"
  proof -
    let ?d = "?c\<lparr>aead_chacha := ch, aead_poly := ccpoly1305_update (aead_poly ?c) nbytes src,
        ctx_text_nbytes := ctx_text_nbytes ?c + of_nat nbytes\<rparr>"
    have "ccchacha20poly1305_decrypt ctx nbytes src = (0, ?d, ?out)"
      using g le se(2) u sv(2) by (simp add: ccchacha20poly1305_decrypt_def Let_def t(1))
    moreover have "aead_session key nonce ?d aad (text @ take nbytes src)"
      using ccpoly1305_update_absorbed [OF po assms(3)] sv se le assms(3)
      by (simp add: aead_session_def add.assoc min_absorb2)
    ultimately show ?thesis using se(2) by simp
  qed
  show "ccchacha20poly1305_decrypt ctx nbytes src = (1, ?c, [])"
    if "CCCHACHA20POLY1305_TEXT_MAX_NBYTES < length text + nbytes"
    using g that se(2) by (auto simp: ccchacha20poly1305_decrypt_def Let_def t(1))
qed

lemma session_close:
  assumes "aead_session key nonce ctx aad text" "aead_status ctx \<noteq> STATE_AAD"
  shows "snd (aead_close ctx) = aead_tag key nonce aad text" "aead_status (fst (aead_close ctx)) = STATE_FINAL"
proof -
  let ?k = "aead_otk key nonce" and ?data = "aead_mac_data aad text"
  have po: "poly_absorbed ?k (aead_poly ctx) (aad @ pad16 aad @ text)"
    and n: "ctx_aad_nbytes ctx = of_nat (length aad)" "ctx_text_nbytes ctx = of_nat (length text)"
    using assms by (auto simp: aead_session_def)
  have l: "(16 - length text mod 16) mod 16 \<le> 64" by (rule order.trans [OF mod_le_divisor]) simp_all
  define p1 where "p1 = ccpoly1305_update (aead_poly ctx) (pad_nbytes (ctx_text_nbytes ctx)) (replicate 64 0)"
  define p2 where "p2 = ccpoly1305_update p1 8 (cc_store64_le (ctx_aad_nbytes ctx))"
  define p3 where "p3 = ccpoly1305_update p2 8 (cc_store64_le (ctx_text_nbytes ctx))"
  have a1: "poly_absorbed ?k p1 ((aad @ pad16 aad @ text) @ pad16 text)"
    using ccpoly1305_update_absorbed [OF po, of "(16 - length text mod 16) mod 16" "replicate 64 0"] l
    by (simp add: p1_def n(2) pad_nbytes_eq pad16_def min_absorb1)
  have a2: "poly_absorbed ?k p2 (((aad @ pad16 aad @ text) @ pad16 text) @ cc_store64_le (of_nat (length aad)))"
    using ccpoly1305_update_absorbed [OF a1, of 8 "cc_store64_le (of_nat (length aad))"] by (simp add: p2_def n(1))
  have a3: "poly_absorbed ?k p3 ?data"
    using ccpoly1305_update_absorbed [OF a2, of 8 "cc_store64_le (of_nat (length text))"]
    by (simp add: p3_def n(2) aead_mac_data_def)
  have "poly_absorbed ?k (ccpoly1305_update (ccpoly1305_init poly_blank ?k) (length ?data) ?data) ?data"
    using ccpoly1305_update_absorbed [OF poly_absorbed_init [of poly_blank ?k] order_refl, of ?data]
    by (simp add: poly_blank_def)
  from ccpoly1305_final_determined [OF a3 this]
  have tag: "snd (ccpoly1305_final p3) = aead_tag key nonce aad text"
    by (simp add: aead_tag_def ccpoly1305_def Let_def case_prod_beta)
  have c: "aead_close ctx = (ctx\<lparr>aead_poly := fst (ccpoly1305_final p3), aead_status := STATE_FINAL\<rparr>, snd (ccpoly1305_final p3))"
    by (simp add: aead_close_def Let_def p1_def [symmetric] p2_def [symmetric] p3_def [symmetric] case_prod_beta)
  show "snd (aead_close ctx) = aead_tag key nonce aad text" "aead_status (fst (aead_close ctx)) = STATE_FINAL"
    unfolding c using tag by simp_all
qed

lemma session_finalize:
  assumes "aead_session key nonce ctx aad text" "aead_status ctx \<in> {STATE_AAD, STATE_ENCRYPT}"
  shows "fst (ccchacha20poly1305_finalize ctx) = 0" "snd (snd (ccchacha20poly1305_finalize ctx)) = aead_tag key nonce aad text"
    "aead_status (fst (snd (ccchacha20poly1305_finalize ctx))) = STATE_FINAL"
proof -
  note f = session_finalize_aad [OF assms(1), of STATE_ENCRYPT]
  have se: "aead_session key nonce (finalize_aad ctx STATE_ENCRYPT) aad text"
    "aead_status (finalize_aad ctx STATE_ENCRYPT) = STATE_ENCRYPT" using f assms(2) by auto
  from session_close [OF se(1)] se(2)
  show "fst (ccchacha20poly1305_finalize ctx) = 0" "snd (snd (ccchacha20poly1305_finalize ctx)) = aead_tag key nonce aad text"
    "aead_status (fst (snd (ccchacha20poly1305_finalize ctx))) = STATE_FINAL"
    by (simp_all add: ccchacha20poly1305_finalize_def Let_def case_prod_beta)
qed

lemma session_verify:
  assumes "aead_session key nonce ctx aad text" "aead_status ctx \<in> {STATE_AAD, STATE_DECRYPT}"
  shows "fst (ccchacha20poly1305_verify ctx tag) = (if cc_cmp_safe 16 (aead_tag key nonce aad text) tag = 0 then 0 else - 1)"
    "aead_status (snd (ccchacha20poly1305_verify ctx tag)) = STATE_FINAL"
proof -
  note f = session_finalize_aad [OF assms(1), of STATE_DECRYPT]
  have se: "aead_session key nonce (finalize_aad ctx STATE_DECRYPT) aad text"
    "aead_status (finalize_aad ctx STATE_DECRYPT) = STATE_DECRYPT" using f assms(2) by auto
  from session_close [OF se(1)] se(2)
  show "fst (ccchacha20poly1305_verify ctx tag) = (if cc_cmp_safe 16 (aead_tag key nonce aad text) tag = 0 then 0 else - 1)"
    "aead_status (snd (ccchacha20poly1305_verify ctx tag)) = STATE_FINAL"
    by (simp_all add: ccchacha20poly1305_verify_def Let_def case_prod_beta)
qed

lemma length_aead_tag: "length (aead_tag key nonce aad text) = 16"
proof -
  have "length (ccpoly1305_tag c) = 16" for c by (simp add: ccpoly1305_tag_def Let_def)
  then show ?thesis by (simp add: aead_tag_def ccpoly1305_def ccpoly1305_final_def Let_def case_prod_beta)
qed

section \<open>One-shot calls\<close>

lemma aead_opened:
  fixes key nonce :: bytes
  assumes "aead_sized ctx" "aad_len \<le> length aad"
  defines "c \<equiv> snd (ccchacha20poly1305_aad (snd (ccchacha20poly1305_setnonce (snd (ccchacha20poly1305_init ctx key)) nonce)) aad_len aad)"
  shows "aead_session key nonce c (take aad_len aad) []" "aead_status c = STATE_AAD"
proof -
  note r = ccchacha20poly1305_init_ready(2) [OF assms(1), of key]
  note n = session_setnonce [OF r, of nonce]
  show "aead_session key nonce c (take aad_len aad) []" "aead_status c = STATE_AAD"
    using session_aad [OF n(2,3) assms(2)] by (simp_all add: c_def)
qed

lemma encrypt_oneshot_eq:
  fixes key nonce :: bytes
  assumes "aead_sized ctx" "aad_len \<le> length aad" "nbytes \<le> length ptext" "nbytes \<le> CCCHACHA20POLY1305_TEXT_MAX_NBYTES"
  defines "ctext \<equiv> mask_with (aead_stream key nonce) nbytes ptext"
  shows "ccchacha20poly1305_encrypt_oneshot ctx key nonce aad_len aad nbytes ptext =
    (0, ctext, aead_tag key nonce (take aad_len aad) ctext)"
proof -
  note o = aead_opened [OF assms(1,2), of key nonce]
  have n: "nbytes < 2 ^ 64" using assms(4) by (simp add: CCCHACHA20POLY1305_TEXT_MAX_NBYTES_def)
  have "length ([] :: bytes) + nbytes \<le> CCCHACHA20POLY1305_TEXT_MAX_NBYTES" using assms(4) by simp
  from session_encrypt(1) [OF o(1) _ assms(3) n this] o(2) obtain d where
    d: "ccchacha20poly1305_encrypt (snd (ccchacha20poly1305_aad (snd (ccchacha20poly1305_setnonce
        (snd (ccchacha20poly1305_init ctx key)) nonce)) aad_len aad)) nbytes ptext = (0, d, ctext)"
      "aead_session key nonce d (take aad_len aad) ctext" "aead_status d = STATE_ENCRYPT"
    by (auto simp: ctext_def)
  from session_finalize [OF d(2)] d(3) show ?thesis
    by (simp add: ccchacha20poly1305_encrypt_oneshot_def case_prod_beta d(1))
qed

text \<open>A text over the limit is not encrypted, yet the call reports success.\<close>

lemma encrypt_oneshot_too_long:
  assumes "aead_sized ctx" "aad_len \<le> length aad" "nbytes \<le> length ptext" "nbytes < 2 ^ 64"
    "CCCHACHA20POLY1305_TEXT_MAX_NBYTES < nbytes"
  shows "ccchacha20poly1305_encrypt_oneshot ctx key nonce aad_len aad nbytes ptext =
    (0, [], aead_tag key nonce (take aad_len aad) [])"
proof -
  note o = aead_opened [OF assms(1,2), of key nonce]
  let ?c = "snd (ccchacha20poly1305_aad (snd (ccchacha20poly1305_setnonce (snd (ccchacha20poly1305_init ctx key)) nonce)) aad_len aad)"
  have e: "ccchacha20poly1305_encrypt ?c nbytes ptext = (1, finalize_aad ?c STATE_ENCRYPT, [])"
    by (rule session_encrypt(2) [OF o(1)]) (use o(2) assms in simp_all)
  note f = session_finalize_aad [OF o(1), of STATE_ENCRYPT]
  from session_finalize [OF f(1)] f(2) o(2) show ?thesis
    by (simp add: ccchacha20poly1305_encrypt_oneshot_def case_prod_beta e)
qed

lemma decrypt_oneshot_eq:
  assumes "aead_sized ctx" "aad_len \<le> length aad" "nbytes \<le> length ctext" "nbytes \<le> CCCHACHA20POLY1305_TEXT_MAX_NBYTES"
    "16 \<le> length tag"
  shows "ccchacha20poly1305_decrypt_oneshot ctx key nonce aad_len aad nbytes ctext tag =
    (if take 16 tag = aead_tag key nonce (take aad_len aad) (take nbytes ctext) then 0 else - 1,
     mask_with (aead_stream key nonce) nbytes ctext)"
proof -
  note o = aead_opened [OF assms(1,2), of key nonce]
  have n: "nbytes < 2 ^ 64" using assms(4) by (simp add: CCCHACHA20POLY1305_TEXT_MAX_NBYTES_def)
  have "length ([] :: bytes) + nbytes \<le> CCCHACHA20POLY1305_TEXT_MAX_NBYTES" using assms(4) by simp
  from session_decrypt(1) [OF o(1) _ assms(3) n this] o(2) obtain d where
    d: "ccchacha20poly1305_decrypt (snd (ccchacha20poly1305_aad (snd (ccchacha20poly1305_setnonce
        (snd (ccchacha20poly1305_init ctx key)) nonce)) aad_len aad)) nbytes ctext =
          (0, d, mask_with (aead_stream key nonce) nbytes ctext)"
      "aead_session key nonce d (take aad_len aad) (take nbytes ctext)" "aead_status d = STATE_DECRYPT"
    by auto
  have "cc_cmp_safe 16 (aead_tag key nonce (take aad_len aad) (take nbytes ctext)) tag = 0 \<longleftrightarrow>
      take 16 tag = aead_tag key nonce (take aad_len aad) (take nbytes ctext)"
    using cc_cmp_safe_take [of 16 "aead_tag key nonce (take aad_len aad) (take nbytes ctext)" tag] assms(5)
    by (auto simp: length_aead_tag)
  with session_verify(1) [OF d(2), of tag] d(3) show ?thesis
    by (simp add: ccchacha20poly1305_decrypt_oneshot_def case_prod_beta d(1))
qed

text \<open>A context as the stack may hold it before \<open>ccchacha20poly1305_init\<close>.\<close>

definition aead_stack :: ccchacha20poly1305_ctx where
  "aead_stack = \<lparr>aead_chacha = \<lparr>chacha_state = replicate 16 7, chacha_buffer = replicate 64 1, chacha_leftover = 3\<rparr>,
     aead_poly = poly_blank\<lparr>poly_h0 := 5, poly_buf_used := 9\<rparr>,
     ctx_aad_nbytes = 9, ctx_text_nbytes = 4, aead_status = STATE_FINAL\<rparr>"

lemma aead_sized_stack: "aead_sized aead_stack"
  by (simp add: aead_stack_def aead_sized_def poly_blank_def)

section \<open>Any number of calls\<close>

text \<open>Additional data and text handed over in pieces; the calls stop at the first failure.\<close>

fun aad_calls :: "ccchacha20poly1305_ctx \<Rightarrow> bytes list \<Rightarrow> ccchacha20poly1305_ctx" where
  "aad_calls c [] = c"
| "aad_calls c (bs # bss) = (let (rv, c) = ccchacha20poly1305_aad c (length bs) bs in aad_calls c bss)"

fun encrypt_calls :: "ccchacha20poly1305_ctx \<Rightarrow> bytes list \<Rightarrow> int \<times> ccchacha20poly1305_ctx \<times> bytes" where
  "encrypt_calls c [] = (0, c, [])"
| "encrypt_calls c (bs # bss) =
     (let (rv, c, out) = ccchacha20poly1305_encrypt c (length bs) bs
      in if rv \<noteq> 0 then (rv, c, out)
         else let (rv, c, rest) = encrypt_calls c bss in (rv, c, out @ rest))"

definition encrypt_in_pieces ::
  "ccchacha20poly1305_ctx \<Rightarrow> bytes \<Rightarrow> bytes \<Rightarrow> bytes list \<Rightarrow> bytes list \<Rightarrow> int \<times> bytes \<times> bytes" where
  "encrypt_in_pieces ctx key nonce aads texts =
     (let (_, ctx) = ccchacha20poly1305_init ctx key;
          (_, ctx) = ccchacha20poly1305_setnonce ctx nonce;
          ctx = aad_calls ctx aads;
          (rv, ctx, ctext) = encrypt_calls ctx texts;
          (rv', ctx, tag) = ccchacha20poly1305_finalize ctx
      in (if rv \<noteq> 0 then rv else rv', ctext, tag))"

lemma session_aad_calls:
  "aead_session key nonce c aad [] \<Longrightarrow> aead_status c = STATE_AAD \<Longrightarrow>
   aead_session key nonce (aad_calls c bss) (aad @ concat bss) [] \<and> aead_status (aad_calls c bss) = STATE_AAD"
proof (induction bss arbitrary: c aad)
  case (Cons bs bss)
  let ?d = "snd (ccchacha20poly1305_aad c (length bs) bs)"
  have "aead_session key nonce ?d (aad @ bs) []" "aead_status ?d = STATE_AAD"
    using session_aad [OF Cons.prems, of "length bs" bs] by simp_all
  from Cons.IH [OF this] show ?case by (simp add: case_prod_beta)
qed simp

lemma session_encrypt_calls:
  "aead_session key nonce c aad text \<Longrightarrow> aead_status c \<in> {STATE_AAD, STATE_ENCRYPT} \<Longrightarrow>
   length text + length (concat bss) \<le> CCCHACHA20POLY1305_TEXT_MAX_NBYTES \<Longrightarrow>
   \<exists>c' out. encrypt_calls c bss = (0, c', out) \<and>
     out = mask_with (\<lambda>i. aead_stream key nonce (length text + i)) (length (concat bss)) (concat bss) \<and>
     aead_session key nonce c' aad (text @ out) \<and> aead_status c' \<in> {STATE_AAD, STATE_ENCRYPT}"
proof (induction bss arbitrary: c "text")
  case Nil
  then show ?case by (simp add: mask_with_def)
next
  case (Cons bs bss)
  let ?ks = "\<lambda>i. aead_stream key nonce (length text + i)"
  have n: "length bs < 2 ^ 64" "length text + length bs \<le> CCCHACHA20POLY1305_TEXT_MAX_NBYTES"
    using Cons.prems(3) by (simp_all add: CCCHACHA20POLY1305_TEXT_MAX_NBYTES_def)
  obtain d where d: "ccchacha20poly1305_encrypt c (length bs) bs = (0, d, mask_with ?ks (length bs) bs)"
      "aead_session key nonce d aad (text @ mask_with ?ks (length bs) bs)" "aead_status d = STATE_ENCRYPT"
    using session_encrypt(1) [OF Cons.prems(1,2) order_refl n] by blast
  have "aead_status d \<in> {STATE_AAD, STATE_ENCRYPT}"
    "length (text @ mask_with ?ks (length bs) bs) + length (concat bss) \<le> CCCHACHA20POLY1305_TEXT_MAX_NBYTES"
    using d(3) Cons.prems(3) by simp_all
  from Cons.IH [OF d(2) this] obtain c' where
    c': "encrypt_calls d bss = (0, c', mask_with (\<lambda>i. ?ks (length bs + i)) (length (concat bss)) (concat bss))"
      "aead_session key nonce c' aad ((text @ mask_with ?ks (length bs) bs) @
        mask_with (\<lambda>i. ?ks (length bs + i)) (length (concat bss)) (concat bss))"
      "aead_status c' \<in> {STATE_AAD, STATE_ENCRYPT}"
    by (auto simp: add.assoc)
  have "mask_with ?ks (length bs) bs @ mask_with (\<lambda>i. ?ks (length bs + i)) (length (concat bss)) (concat bss) =
      mask_with ?ks (length (concat (bs # bss))) (concat (bs # bss))"
    using mask_with_append [of "length bs" "bs @ concat bss" ?ks "length (concat bss)"]
      mask_with_cong [of "length bs" "bs @ concat bss" bs ?ks]
    by (simp add: nth_append)
  with c' d(1) show ?case by simp
qed

lemma encrypt_in_pieces_eq:
  assumes "aead_sized ctx" "aead_sized ctx'" "length (concat texts) \<le> CCCHACHA20POLY1305_TEXT_MAX_NBYTES"
  shows "encrypt_in_pieces ctx key nonce aads texts =
    ccchacha20poly1305_encrypt_oneshot ctx' key nonce (length (concat aads)) (concat aads)
      (length (concat texts)) (concat texts)"
proof -
  let ?c0 = "snd (ccchacha20poly1305_setnonce (snd (ccchacha20poly1305_init ctx key)) nonce)"
  have "aead_session key nonce (aad_calls ?c0 aads) (concat aads) []" "aead_status (aad_calls ?c0 aads) = STATE_AAD"
    using session_setnonce [OF ccchacha20poly1305_init_ready(2) [OF assms(1)], of key nonce]
      session_aad_calls [of key nonce ?c0 "[]" aads] by simp_all
  with session_encrypt_calls [of key nonce "aad_calls ?c0 aads" "concat aads" "[]" texts] assms(3)
  obtain c' where c': "encrypt_calls (aad_calls ?c0 aads) texts =
        (0, c', mask_with (aead_stream key nonce) (length (concat texts)) (concat texts))"
      "aead_session key nonce c' (concat aads) (mask_with (aead_stream key nonce) (length (concat texts)) (concat texts))"
      "aead_status c' \<in> {STATE_AAD, STATE_ENCRYPT}"
    by auto
  from session_finalize [OF c'(2,3)]
    encrypt_oneshot_eq [OF assms(2), of "length (concat aads)" "concat aads" "length (concat texts)" "concat texts" key nonce] assms(3) c'(1)
  show ?thesis by (simp add: encrypt_in_pieces_def case_prod_beta)
qed

section \<open>Which call may follow which\<close>

text \<open>A call, and what it does to the context; the contents of the buffers are its arguments.\<close>

datatype aead_call = Reset | SetNonce bytes | IncNonce bytes | Aad nat bytes | Encrypt nat bytes | Decrypt nat bytes
  | Finalize | Verify bytes

fun aead_exec :: "aead_call \<Rightarrow> ccchacha20poly1305_ctx \<Rightarrow> int \<times> ccchacha20poly1305_ctx" where
  "aead_exec Reset c = ccchacha20poly1305_reset c"
| "aead_exec (SetNonce nonce) c = ccchacha20poly1305_setnonce c nonce"
| "aead_exec (IncNonce nonce) c = ccchacha20poly1305_incnonce c nonce"
| "aead_exec (Aad n bs) c = ccchacha20poly1305_aad c n bs"
| "aead_exec (Encrypt n bs) c = (let (rv, c, out) = ccchacha20poly1305_encrypt c n bs in (rv, c))"
| "aead_exec (Decrypt n bs) c = (let (rv, c, out) = ccchacha20poly1305_decrypt c n bs in (rv, c))"
| "aead_exec Finalize c = (let (rv, c, tag) = ccchacha20poly1305_finalize c in (rv, c))"
| "aead_exec (Verify tag) c = ccchacha20poly1305_verify c tag"

text \<open>The states in which a call is not refused outright.\<close>

fun aead_enabled :: "byte \<Rightarrow> aead_call \<Rightarrow> bool" where
  "aead_enabled s Reset \<longleftrightarrow> True"
| "aead_enabled s (SetNonce nonce) \<longleftrightarrow> s = STATE_SETNONCE"
| "aead_enabled s (IncNonce nonce) \<longleftrightarrow> False"
| "aead_enabled s (Aad n bs) \<longleftrightarrow> s = STATE_AAD"
| "aead_enabled s (Encrypt n bs) \<longleftrightarrow> s = STATE_AAD \<or> s = STATE_ENCRYPT"
| "aead_enabled s (Decrypt n bs) \<longleftrightarrow> s = STATE_AAD \<or> s = STATE_DECRYPT"
| "aead_enabled s Finalize \<longleftrightarrow> s = STATE_AAD \<or> s = STATE_ENCRYPT"
| "aead_enabled s (Verify tag) \<longleftrightarrow> s = STATE_AAD \<or> s = STATE_DECRYPT"

text \<open>
  The transitions of the state field, with the return code.  A call that fails its size
  guard has already closed the additional data.
\<close>

inductive aead_step :: "byte \<Rightarrow> aead_call \<Rightarrow> int \<Rightarrow> byte \<Rightarrow> bool" where
  reset: "aead_step s Reset 0 STATE_SETNONCE"
| set_nonce: "aead_step STATE_SETNONCE (SetNonce nonce) 0 STATE_AAD"
| aad: "aead_step STATE_AAD (Aad n bs) 0 STATE_AAD"
| encrypt: "aead_enabled s (Encrypt n bs) \<Longrightarrow> rv = 0 \<or> rv = 1 \<Longrightarrow> aead_step s (Encrypt n bs) rv STATE_ENCRYPT"
| decrypt: "aead_enabled s (Decrypt n bs) \<Longrightarrow> rv = 0 \<or> rv = 1 \<Longrightarrow> aead_step s (Decrypt n bs) rv STATE_DECRYPT"
| finalize: "aead_enabled s Finalize \<Longrightarrow> aead_step s Finalize 0 STATE_FINAL"
| verify: "aead_enabled s (Verify tag) \<Longrightarrow> rv = 0 \<or> rv = - 1 \<Longrightarrow> aead_step s (Verify tag) rv STATE_FINAL"
| refused: "\<not> aead_enabled s call \<Longrightarrow> aead_step s call 1 s"

inductive_cases step_from_final: "aead_step STATE_FINAL call rv s"
inductive_cases step_set_nonce: "aead_step s (SetNonce nonce) rv t"
inductive_simps step_simps:
  "aead_step s Reset rv t" "aead_step s (SetNonce nonce) rv t" "aead_step s (IncNonce nonce) rv t" "aead_step s (Aad n bs) rv t"
  "aead_step s (Encrypt n bs) rv t" "aead_step s (Decrypt n bs) rv t" "aead_step s Finalize rv t" "aead_step s (Verify tag) rv t"

lemma aead_close_status [simp]: "aead_status (fst (aead_close c)) = STATE_FINAL"
  by (simp add: aead_close_def Let_def case_prod_beta)

lemma finalize_aad_status [simp]:
  "aead_status (finalize_aad c st) = (if aead_status c = STATE_AAD then st else aead_status c)"
  by (simp add: finalize_aad_def)

lemma finalize_aad_other [simp]: "aead_status c \<noteq> STATE_AAD \<Longrightarrow> finalize_aad c st = c"
  by (simp add: finalize_aad_def)

text \<open>Every call of the code is a transition of the relation.\<close>

lemma aead_exec_refines:
  "aead_exec call c = (rv, c') \<Longrightarrow> aead_step (aead_status c) call rv (aead_status c')"
  by (cases call; cases "aead_status c" rule: aead_state_cases)
    (auto simp: step_simps ccchacha20poly1305_reset_def ccchacha20poly1305_setnonce_def ccchacha20poly1305_incnonce_def
      ccchacha20poly1305_aad_def ccchacha20poly1305_encrypt_def ccchacha20poly1305_decrypt_def
      ccchacha20poly1305_finalize_def ccchacha20poly1305_verify_def Let_def case_prod_beta split: if_splits)

text \<open>A refused call leaves the whole context as it was.\<close>

lemma aead_exec_refused: "\<not> aead_enabled (aead_status c) call \<Longrightarrow> aead_exec call c = (1, c)"
  by (cases call; cases "aead_status c" rule: aead_state_cases)
    (auto simp: ccchacha20poly1305_setnonce_def ccchacha20poly1305_incnonce_def
      ccchacha20poly1305_aad_def ccchacha20poly1305_encrypt_def ccchacha20poly1305_decrypt_def
      ccchacha20poly1305_finalize_def ccchacha20poly1305_verify_def Let_def)

text \<open>Runs of calls, with the return code of each.\<close>

fun aead_run :: "aead_call list \<Rightarrow> ccchacha20poly1305_ctx \<Rightarrow> int list \<times> ccchacha20poly1305_ctx" where
  "aead_run [] c = ([], c)"
| "aead_run (call # calls) c = (let (rv, c) = aead_exec call c; (rvs, c) = aead_run calls c in (rv # rvs, c))"

definition aead_rank :: "byte \<Rightarrow> nat" where
  "aead_rank s = (if s = STATE_SETNONCE then 0 else if s = STATE_AAD then 1 else if s = STATE_FINAL then 3 else 2)"

lemma step_rank: "aead_step s call rv t \<Longrightarrow> call \<noteq> Reset \<Longrightarrow> aead_rank s \<le> aead_rank t"
  by (induction rule: aead_step.induct) (auto simp: aead_rank_def)

fun is_nonce :: "aead_call \<Rightarrow> bool" where
  "is_nonce (SetNonce nonce) = True"
| "is_nonce call = False"

definition accepted :: "(aead_call \<Rightarrow> bool) \<Rightarrow> aead_call list \<Rightarrow> int list \<Rightarrow> nat" where
  "accepted P calls rvs = length (filter (\<lambda>(call, rv). P call \<and> rv = 0) (zip calls rvs))"

lemma accepted_Cons: "accepted P (call # calls) (rv # rvs) = (if P call \<and> rv = 0 then 1 else 0) + accepted P calls rvs"
  by (simp add: accepted_def)

lemma run_nonces:
  "Reset \<notin> set calls \<Longrightarrow> aead_run calls c = (rvs, c') \<Longrightarrow>
   accepted is_nonce calls rvs \<le> (if aead_status c = STATE_SETNONCE then 1 else 0)"
proof (induction calls arbitrary: c rvs)
  case Nil
  then show ?case by (simp add: accepted_def)
next
  case (Cons call calls)
  obtain rv d where e: "aead_exec call c = (rv, d)" by force
  obtain rvs' where r: "aead_run calls d = (rvs', c')" "rvs = rv # rvs'"
    using Cons.prems(2) e by (auto split: prod.splits)
  note ih = Cons.IH [OF _ r(1)]
  from aead_exec_refines [OF e] have st: "aead_step (aead_status c) call rv (aead_status d)" .
  have rank: "aead_rank (aead_status c) \<le> aead_rank (aead_status d)" using step_rank [OF st] Cons.prems(1) by auto
  show ?case
  proof (cases "is_nonce call \<and> rv = 0")
    case True
    then have "aead_status c = STATE_SETNONCE" "aead_status d = STATE_AAD"
      using st by (cases call; simp add: step_simps)+
    then show ?thesis using ih Cons.prems(1) True r(2) by (simp add: accepted_Cons)
  next
    case False
    then have "accepted is_nonce (call # calls) rvs = accepted is_nonce calls rvs'"
      by (auto simp: accepted_Cons r(2))
    moreover have "aead_status d = STATE_SETNONCE \<Longrightarrow> aead_status c = STATE_SETNONCE"
      using rank by (auto simp: aead_rank_def split: if_splits)
    ultimately show ?thesis using ih Cons.prems(1) by (auto split: if_splits)
  qed
qed

text \<open>Once the text has started in one direction it never turns.\<close>

lemma step_direction:
  "aead_step s call rv t \<Longrightarrow> call \<noteq> Reset \<Longrightarrow> s \<in> {STATE_ENCRYPT, STATE_FINAL} \<Longrightarrow> t \<in> {STATE_ENCRYPT, STATE_FINAL}"
  "aead_step s call rv t \<Longrightarrow> call \<noteq> Reset \<Longrightarrow> s \<in> {STATE_DECRYPT, STATE_FINAL} \<Longrightarrow> t \<in> {STATE_DECRYPT, STATE_FINAL}"
  by (induction rule: aead_step.induct) auto

fun is_encrypt :: "aead_call \<Rightarrow> bool" where
  "is_encrypt (Encrypt n bs) = True"
| "is_encrypt call = False"

fun is_decrypt :: "aead_call \<Rightarrow> bool" where
  "is_decrypt (Decrypt n bs) = True"
| "is_decrypt call = False"

lemma run_direction:
  "Reset \<notin> set calls \<Longrightarrow> aead_run calls c = (rvs, c') \<Longrightarrow>
   (aead_status c \<in> {STATE_ENCRYPT, STATE_FINAL} \<longrightarrow> accepted is_decrypt calls rvs = 0) \<and>
   (aead_status c \<in> {STATE_DECRYPT, STATE_FINAL} \<longrightarrow> accepted is_encrypt calls rvs = 0) \<and>
   (accepted is_decrypt calls rvs = 0 \<or> accepted is_encrypt calls rvs = 0)"
proof (induction calls arbitrary: c rvs)
  case Nil
  then show ?case by (simp add: accepted_def)
next
  case (Cons call calls)
  obtain rv d where e: "aead_exec call c = (rv, d)" by force
  obtain rvs' where r: "aead_run calls d = (rvs', c')" "rvs = rv # rvs'"
    using Cons.prems(2) e by (auto split: prod.splits)
  have nr: "call \<noteq> Reset" using Cons.prems(1) by auto
  note ih = Cons.IH [OF _ r(1)]
  from aead_exec_refines [OF e] have st: "aead_step (aead_status c) call rv (aead_status d)" .
  have enc: "aead_status c \<notin> {STATE_DECRYPT, STATE_FINAL}" "aead_status d = STATE_ENCRYPT" if "is_encrypt call" "rv = 0"
    using st that by (cases call; auto simp: step_simps)+
  have dec: "aead_status c \<notin> {STATE_ENCRYPT, STATE_FINAL}" "aead_status d = STATE_DECRYPT" if "is_decrypt call" "rv = 0"
    using st that by (cases call; auto simp: step_simps)+
  have excl: "\<not> (is_encrypt call \<and> is_decrypt call)" by (cases call) auto
  show ?case
    using ih Cons.prems(1) step_direction [OF st nr] enc dec excl
    unfolding r(2) accepted_Cons by (auto split: if_splits)
qed

end
