(* ===== verification/Ccdigest.thy ===== *)
theory Ccdigest
  imports Cc_Priv Cc_Stream
begin

unbundle bit_operations_syntax

text \<open>
  The digest interface of \<open>ccdigest/src\<close>: the context (bit count, chaining state, one block of
  buffered data and how much of it is used), \<open>ccdigest_update\<close> and the two final functions of the
  64-byte digests.  A digest is a record of sizes, an initial state and a compression function, as
  the C structure is.  The locale \<open>digest\<close> states what the callers rely on; inside it an update
  absorbs its data whatever the pieces, so every digest is an \<open>absorber\<close>.
\<close>

record 's ccdigest_ctx =
  digest_nbits :: cc_unit
  digest_state :: 's
  digest_data :: bytes
  digest_num :: nat

text \<open>
  The fields of \<open>struct ccdigest_info\<close>.  The final function gets the other fields, which is all it
  reads of the structure it is passed.
\<close>

record 's ccdigest_core =
  di_output_size :: nat
  di_block_size :: nat
  di_initial_state :: 's
  di_compress :: "'s \<Rightarrow> nat \<Rightarrow> bytes \<Rightarrow> 's"

record 's ccdigest_info = "'s ccdigest_core" +
  di_final :: "'s ccdigest_core \<Rightarrow> 's ccdigest_ctx \<Rightarrow> 's ccdigest_ctx \<times> bytes"

section \<open>Operations\<close>

definition ccdigest_init :: "('s, 'z) ccdigest_core_scheme \<Rightarrow> 's ccdigest_ctx \<Rightarrow> 's ccdigest_ctx" where
  "ccdigest_init di ctx = ctx\<lparr>digest_state := di_initial_state di, digest_nbits := 0, digest_num := 0\<rparr>"

text \<open>\<open>Sanity check to recover from ctx corruptions.\<close>\<close>

definition ccdigest_sanity :: "('s, 'z) ccdigest_core_scheme \<Rightarrow> 's ccdigest_ctx \<Rightarrow> 's ccdigest_ctx" where
  "ccdigest_sanity di ctx = (if digest_num ctx \<ge> di_block_size di then ctx\<lparr>digest_num := 0\<rparr> else ctx)"

lemma shift_blocks:
  "push_bit 6 (drop_bit 6 n) = n div 64 * (64 :: nat)" "push_bit 7 (drop_bit 7 n) = n div 128 * (128 :: nat)"
  "drop_bit 6 n = n div (64 :: nat)" "drop_bit 7 n = n div (128 :: nat)"
  by (simp_all add: push_bit_nat_def drop_bit_nat_def)

lemma block_bytes:
  "(if b = 64 then (drop_bit 6 n, push_bit 6 (drop_bit 6 n))
    else if b = 128 then (drop_bit 7 n, push_bit 7 (drop_bit 7 n))
    else (n div b, n div b * b)) = (n div b, n div b * (b :: nat))"
  by (simp add: push_bit_nat_def drop_bit_nat_def)

text \<open>
  The loop; its body needs \<open>num < block_size\<close>, which the check before it establishes and every
  round keeps.
\<close>

function ccdigest_update_loop :: "('s, 'z) ccdigest_core_scheme \<Rightarrow> 's ccdigest_ctx \<Rightarrow> nat \<Rightarrow> bytes \<Rightarrow> 's ccdigest_ctx" where
  "ccdigest_update_loop di ctx len data =
     (if len = 0 \<or> di_block_size di \<le> digest_num ctx then ctx
      else if digest_num ctx = 0 \<and> len > di_block_size di
      then let (nblocks, nbytes) =
             (if di_block_size di = 64 then (drop_bit 6 len, push_bit 6 (drop_bit 6 len))
              else if di_block_size di = 128 then (drop_bit 7 len, push_bit 7 (drop_bit 7 len))
              else (len div di_block_size di, len div di_block_size di * di_block_size di))
           in ccdigest_update_loop di
             (ctx\<lparr>digest_state := di_compress di (digest_state ctx) nblocks data,
                 digest_nbits := digest_nbits ctx + of_nat nbytes * 8\<rparr>) (len - nbytes) (drop nbytes data)
      else let n = min (di_block_size di - digest_num ctx) len;
               ctx = ctx\<lparr>digest_data := take (digest_num ctx) (digest_data ctx) @ take n data @
                           drop (digest_num ctx + n) (digest_data ctx),
                         digest_num := digest_num ctx + n\<rparr>
           in ccdigest_update_loop di
             (if digest_num ctx = di_block_size di
              then ctx\<lparr>digest_state := di_compress di (digest_state ctx) 1 (digest_data ctx),
                       digest_nbits := digest_nbits ctx + of_nat (digest_num ctx * 8), digest_num := 0\<rparr>
              else ctx) (len - n) (drop n data))"
  by pat_completeness (auto simp only: prod.inject)

termination
proof (relation "measure (\<lambda>(di, ctx, len, data). len)", goal_cases)
  case 1
  show ?case by simp
next
  case (2 di ctx len data x nblocks nbytes)
  then have x: "nbytes = len div di_block_size di * di_block_size di" by (simp add: block_bytes)
  have "0 < di_block_size di" "di_block_size di < len" using 2(1,2) by auto
  then have "0 < len div di_block_size di" by (simp add: div_greater_zero_iff)
  then have "0 < nbytes" using x \<open>0 < di_block_size di\<close> by simp
  then show ?case using 2(1) by simp
next
  case 3
  then show ?case by auto
qed

declare ccdigest_update_loop.simps [simp del]

definition ccdigest_update :: "('s, 'z) ccdigest_core_scheme \<Rightarrow> 's ccdigest_ctx \<Rightarrow> nat \<Rightarrow> bytes \<Rightarrow> 's ccdigest_ctx" where
  "ccdigest_update di ctx len data = ccdigest_update_loop di (ccdigest_sanity di ctx) len data"

definition ccdigest_final :: "'s ccdigest_info \<Rightarrow> 's ccdigest_ctx \<Rightarrow> 's ccdigest_ctx \<times> bytes" where
  "ccdigest_final di ctx = di_final di (ccdigest_core.truncate di) ctx"

definition ccdigest :: "'s ccdigest_info \<Rightarrow> 's ccdigest_ctx \<Rightarrow> nat \<Rightarrow> bytes \<Rightarrow> bytes" where
  "ccdigest di dc len data =
     (let dc = ccdigest_init di dc;
          dc = ccdigest_update di dc len data;
          (dc, digest) = ccdigest_final di dc
      in digest)"

text \<open>\<open>while (num < k) data[num++] = 0\<close>.\<close>

function ccdigest_pad :: "nat \<Rightarrow> 's ccdigest_ctx \<Rightarrow> 's ccdigest_ctx" where
  "ccdigest_pad k tmp =
     (if digest_num tmp < k
      then ccdigest_pad k (tmp\<lparr>digest_data := (digest_data tmp)[digest_num tmp := 0], digest_num := digest_num tmp + 1\<rparr>)
      else tmp)"
  by pat_completeness auto
termination by (relation "measure (\<lambda>(k, tmp). k - digest_num tmp)") auto

declare ccdigest_pad.simps [simp del]

text \<open>
  What the two final functions share: the \<open>0x80\<close> byte, the padding, the bit count
  and the last compression, on a copy of the context.
\<close>

definition ccdigest_close :: "('s, 'z) ccdigest_core_scheme \<Rightarrow> (cc_unit \<Rightarrow> bytes) \<Rightarrow> 's ccdigest_ctx \<Rightarrow> 's" where
  "ccdigest_close di store64 ctx =
     (let tmp = ctx;
          tmp = tmp\<lparr>digest_nbits := digest_nbits tmp + of_nat (digest_num tmp * 8)\<rparr>;
          tmp = tmp\<lparr>digest_data := (digest_data tmp)[digest_num tmp := 0x80], digest_num := digest_num tmp + 1\<rparr>;
          tmp = (if digest_num tmp > 64 - 8
                 then let tmp = ccdigest_pad 64 tmp
                      in tmp\<lparr>digest_state := di_compress di (digest_state tmp) 1 (digest_data tmp), digest_num := 0\<rparr>
                 else tmp);
          tmp = ccdigest_pad (64 - 8) tmp;
          tmp = tmp\<lparr>digest_data := take (64 - 8) (digest_data tmp) @ store64 (digest_nbits tmp) @ drop 64 (digest_data tmp)\<rparr>
      in di_compress di (digest_state tmp) 1 (digest_data tmp))"

definition ccdigest_final_64be :: "u32 list ccdigest_core \<Rightarrow> u32 list ccdigest_ctx \<Rightarrow> u32 list ccdigest_ctx \<times> bytes" where
  "ccdigest_final_64be di ctx =
     (let ctx = ccdigest_sanity di ctx; state = ccdigest_close di cc_store64_be ctx
      in (ctx, concat (map (\<lambda>i. cc_store32_be (state ! i)) [0..<di_output_size di div 4])))"

definition ccdigest_final_64le :: "u32 list ccdigest_core \<Rightarrow> u32 list ccdigest_ctx \<Rightarrow> u32 list ccdigest_ctx \<times> bytes" where
  "ccdigest_final_64le di ctx =
     (let ctx = ccdigest_sanity di ctx; state = ccdigest_close di cc_store64_le ctx
      in (ctx, concat (map (\<lambda>i. cc_store32_le (state ! i)) [0..<di_output_size di div 4])))"

text \<open>The final functions read only the fields they are passed.\<close>

lemma truncate_core [simp]:
  "di_output_size (ccdigest_core.truncate di) = di_output_size di"
  "di_block_size (ccdigest_core.truncate di) = di_block_size di"
  "di_compress (ccdigest_core.truncate di) = di_compress di"
  by (simp_all add: ccdigest_core.defs)

lemma truncate_operations [simp]:
  "ccdigest_sanity (ccdigest_core.truncate di) = ccdigest_sanity di"
  "ccdigest_close (ccdigest_core.truncate di) = ccdigest_close di"
  unfolding ccdigest_sanity_def ccdigest_close_def truncate_core by (rule refl)+

section \<open>Compression\<close>

text \<open>\<open>while (nblocks--) { ...; buf += block_size; }\<close>, the shape of every compression function.\<close>

fun blocks_loop :: "nat \<Rightarrow> ('s \<Rightarrow> bytes \<Rightarrow> 's) \<Rightarrow> 's \<Rightarrow> nat \<Rightarrow> bytes \<Rightarrow> 's" where
  "blocks_loop b f s 0 buf = s"
| "blocks_loop b f s (Suc nblocks) buf = blocks_loop b f (f s buf) nblocks (drop b buf)"

lemma blocks_loop_add: "blocks_loop b f s (n + m) buf = blocks_loop b f (blocks_loop b f s n buf) m (drop (n * b) buf)"
  by (induction n arbitrary: s buf) (simp_all add: add.commute)

lemma blocks_loop_take:
  assumes "\<And>s buf. b \<le> length buf \<Longrightarrow> f s (take b buf) = f s buf"
  shows "n * b \<le> length buf \<Longrightarrow> blocks_loop b f s n (take (n * b) buf) = blocks_loop b f s n buf"
proof (induction n arbitrary: s buf)
  case (Suc n)
  have "f s (take (Suc n * b) buf) = f s buf"
    using assms [of "take (Suc n * b) buf" s] assms [of buf s] Suc.prems by (simp add: min_def)
  moreover have "drop b (take (Suc n * b) buf) = take (n * b) (drop b buf)" by (simp add: drop_take)
  ultimately show ?case using Suc.IH [of "drop b buf"] Suc.prems by (simp add: le_diff_conv2)
qed simp

text \<open>
  The compression function takes blocks one after the other and reads no more than its
  blocks.
\<close>

locale compression =
  fixes di :: "('s, 'z) ccdigest_core_scheme"
  assumes block_pos: "0 < di_block_size di"
    and compress_0: "di_compress di s 0 data = s"
    and compress_add: "di_compress di s (n + m) data =
      di_compress di (di_compress di s n data) m (drop (n * di_block_size di) data)"
    and compress_take: "n * di_block_size di \<le> length data \<Longrightarrow>
      di_compress di s n (take (n * di_block_size di) data) = di_compress di s n data"

text \<open>What a context has absorbed since \<open>ccdigest_init\<close>.\<close>

definition digest_absorbed :: "('s, 'z) ccdigest_core_scheme \<Rightarrow> 's ccdigest_ctx \<Rightarrow> bytes \<Rightarrow> bool" where
  "digest_absorbed di c msg \<longleftrightarrow> length (digest_data c) = di_block_size di \<and>
     digest_num c = length msg mod di_block_size di \<and>
     digest_state c = di_compress di (di_initial_state di) (length msg div di_block_size di) msg \<and>
     digest_nbits c = of_nat (8 * (length msg div di_block_size di * di_block_size di)) \<and>
     take (digest_num c) (digest_data c) = drop (length msg div di_block_size di * di_block_size di) msg"

context compression
begin

abbreviation absorbed :: "'s ccdigest_ctx \<Rightarrow> bytes \<Rightarrow> bool" where
  "absorbed \<equiv> digest_absorbed di"

lemma absorbed_num: "absorbed c msg \<Longrightarrow> digest_num c < di_block_size di"
  using block_pos by (simp add: digest_absorbed_def)

lemma absorbed_init: "length (digest_data c) = di_block_size di \<Longrightarrow> absorbed (ccdigest_init di c) []"
  by (simp add: digest_absorbed_def ccdigest_init_def compress_0)

text \<open>Compressing the blocks of a message and then those of what follows it.\<close>

lemma compress_append:
  assumes "length msg = k * di_block_size di" "n * di_block_size di \<le> length data"
  shows "di_compress di s (k + n) (msg @ data) = di_compress di (di_compress di s k msg) n data"
proof -
  have "di_compress di s k (msg @ data) = di_compress di s k msg"
    using compress_take [of k "msg @ data" s] assms(1) by simp
  then show ?thesis using compress_add [of s k n "msg @ data"] assms(1) by simp
qed

lemma compress_prefix: "n * di_block_size di \<le> length msg \<Longrightarrow> di_compress di s n (msg @ data) = di_compress di s n msg"
  using compress_take [of n "msg @ data" s] compress_take [of n msg s] by simp

text \<open>Whole blocks when nothing is buffered, and the copy into the buffer otherwise.\<close>

lemma absorbed_blocks:
  assumes "absorbed c msg" "digest_num c = 0" "n * di_block_size di \<le> length data"
  shows "absorbed (c\<lparr>digest_state := di_compress di (digest_state c) n data,
      digest_nbits := digest_nbits c + of_nat (n * di_block_size di) * 8\<rparr>) (msg @ take (n * di_block_size di) data)"
proof -
  define b where "b = di_block_size di"
  define q where "q = length msg div b"
  define m where "m = msg @ take (n * b) data"
  have q: "length msg = q * b" using assms(1,2) by (auto simp: digest_absorbed_def q_def b_def)
  have l: "length m = (q + n) * b" using q assms(3) by (simp add: m_def b_def algebra_simps)
  have d: "length m div b = q + n" "length m mod b = 0" using block_pos by (simp_all add: l b_def)
  have st: "digest_state c = di_compress di (di_initial_state di) q msg"
    using assms(1) by (simp add: digest_absorbed_def q_def b_def)
  have "n * b \<le> length (take (n * b) data)" using assms(3) by (simp add: b_def)
  then have s: "di_compress di (di_initial_state di) (q + n) m = di_compress di (digest_state c) n data"
    using compress_append [of msg q n "take (n * b) data", folded b_def, OF q] compress_take [OF assms(3), folded b_def]
    by (simp add: m_def st)
  have c: "length (digest_data c) = b" "digest_nbits c = of_nat (8 * (q * b))"
    using assms(1) by (simp_all add: digest_absorbed_def b_def q_def)
  have "digest_nbits c + of_nat (n * b) * 8 = of_nat (8 * ((q + n) * b))"
    unfolding c(2) by (simp add: distrib_right distrib_left)
  moreover have "drop ((q + n) * b) m = []" by (simp add: l)
  ultimately show ?thesis
    using assms(2) c(1) s d unfolding digest_absorbed_def m_def [symmetric] b_def [symmetric] by simp
qed

lemma absorbed_copy:
  assumes "absorbed c msg" "n \<le> di_block_size di - digest_num c" "n \<le> length data"
  defines "d \<equiv> c\<lparr>digest_data := take (digest_num c) (digest_data c) @ take n data @ drop (digest_num c + n) (digest_data c),
      digest_num := digest_num c + n\<rparr>"
  shows "absorbed (if digest_num d = di_block_size di
      then d\<lparr>digest_state := di_compress di (digest_state d) 1 (digest_data d),
        digest_nbits := digest_nbits d + of_nat (digest_num d * 8), digest_num := 0\<rparr>
      else d) (msg @ take n data)"
proof -
  define b where "b = di_block_size di"
  define q where "q = length msg div b"
  define k where "k = digest_num c"
  have k: "k < b" "length msg = q * b + k" using assms(1) absorbed_num [OF assms(1)]
    by (auto simp: digest_absorbed_def k_def b_def q_def)
  have n: "n \<le> length data" "k + n \<le> b" using assms(2,3) k(1) by (auto simp: k_def b_def)
  have buf: "length (digest_data c) = b" "take k (digest_data c) = drop (q * b) msg"
    using assms(1) by (auto simp: digest_absorbed_def k_def b_def q_def)
  have dl: "length (digest_data d) = b" using buf(1) n by (simp add: d_def k_def)
  have dk: "digest_num d = k + n" "take (k + n) (digest_data d) = drop (q * b) (msg @ take n data)"
    using buf n k by (simp_all add: d_def k_def)
  show ?thesis
  proof (cases "k + n = b")
    case True
    define m where "m = msg @ take n data"
    have lm: "length m = Suc q * b" using k n True by (simp add: m_def)
    then have dm: "length m div b = Suc q" "length m mod b = 0" using k(1) by simp_all
    have "digest_data d = drop (q * b) m" using dk(2) dl True by (simp add: m_def)
    moreover have "di_compress di (di_initial_state di) (q + 1) m =
        di_compress di (di_compress di (di_initial_state di) q msg) 1 (drop (q * b) m)"
      using compress_add [of "di_initial_state di" q 1 m] compress_prefix [of q msg "di_initial_state di" "take n data"] k
      by (simp add: b_def m_def)
    moreover have "digest_state d = di_compress di (di_initial_state di) q msg"
      "digest_nbits d = of_nat (8 * (q * b))" using assms(1) by (simp_all add: d_def digest_absorbed_def q_def b_def)
    ultimately show ?thesis
      using True dl dk dm lm unfolding digest_absorbed_def m_def [symmetric] b_def [symmetric]
      by (simp add: algebra_simps)
  next
    case False
    then have lt: "k + n < b" using n(2) by simp
    define m where "m = msg @ take n data"
    have lm: "length m = q * b + (k + n)" using k n by (simp add: m_def)
    have dm: "length m div b = q" "length m mod b = k + n" using lt by (simp_all add: lm)
    have "di_compress di (di_initial_state di) q m = di_compress di (di_initial_state di) q msg"
      unfolding m_def by (rule compress_prefix) (simp add: k(2) flip: b_def)
    then show ?thesis
      using False dl dk dm assms(1) unfolding digest_absorbed_def m_def [symmetric] b_def [symmetric] q_def [symmetric]
      by (simp add: d_def m_def q_def b_def)
  qed
qed

lemma update_loop_absorbed:
  "absorbed c msg \<Longrightarrow> len \<le> length data \<Longrightarrow> absorbed (ccdigest_update_loop di c len data) (msg @ take len data)"
proof (induction len arbitrary: c data msg rule: less_induct)
  case (less len)
  let ?b = "di_block_size di"
  have k: "digest_num c < ?b" by (rule absorbed_num [OF less.prems(1)])
  note loop = ccdigest_update_loop.simps [of di c len data, unfolded block_bytes, simplified Let_def prod.case]
  consider "len = 0" | "len \<noteq> 0" "digest_num c = 0" "len > ?b" | "len \<noteq> 0" "\<not> (digest_num c = 0 \<and> len > ?b)"
    by auto
  then show ?case
  proof cases
    case 1
    then show ?thesis using less.prems(1) loop by simp
  next
    case 2
    let ?n = "len div ?b * ?b"
    let ?c = "c\<lparr>digest_state := di_compress di (digest_state c) (len div ?b) data, digest_nbits := digest_nbits c + of_nat ?n * 8\<rparr>"
    have "0 < len div ?b" using 2 block_pos by (simp add: div_greater_zero_iff)
    then have n: "?n \<le> len" "len - ?n < len" using block_pos 2 by simp_all
    have "absorbed ?c (msg @ take ?n data)"
      using absorbed_blocks [OF less.prems(1) 2(2), of "len div ?b" data] n(1) less.prems(2) by simp
    from less.IH [OF n(2) this, of "drop ?n data"] less.prems(2)
    have "absorbed (ccdigest_update_loop di ?c (len - ?n) (drop ?n data)) ((msg @ take ?n data) @ take (len - ?n) (drop ?n data))"
      by simp
    moreover have "take ?n data @ take (len - ?n) (drop ?n data) = take len data"
      using n(1) take_add [of ?n "len - ?n" data] by simp
    ultimately show ?thesis using loop 2 k by simp
  next
    case 3
    let ?n = "min (?b - digest_num c) len"
    have n: "len - ?n < len" "?n \<le> len" "?n \<le> ?b - digest_num c" "?n \<le> length data" using 3(1) k less.prems(2) by auto
    note c = absorbed_copy [OF less.prems(1) n(3,4)]
    have "take ?n data @ take (len - ?n) (drop ?n data) = take len data"
      using n(2) take_add [of ?n "len - ?n" data] by simp
    with less.IH [OF n(1) c, of "drop ?n data"] less.prems(2) show ?thesis
      using loop 3 k by (simp add: Let_def)
  qed
qed

lemma update_absorbed:
  assumes "absorbed c msg" "len \<le> length data"
  shows "absorbed (ccdigest_update di c len data) (msg @ take len data)"
  using update_loop_absorbed [OF assms] absorbed_num [OF assms(1)] by (simp add: ccdigest_update_def ccdigest_sanity_def)

end

sublocale compression \<subseteq> buffer: absorber "\<lambda>_ :: unit. digest_absorbed di" "ccdigest_update di"
  by unfold_locales (rule update_absorbed)

section \<open>The padding\<close>

lemma take_Suc_update: "n < length xs \<Longrightarrow> take (Suc n) (xs[n := y]) = take n xs @ [y]"
  by (simp add: take_Suc_conv_app_nth)

lemma split_at: "length xs = n \<Longrightarrow> take n (xs @ ys) = xs" "length xs = n \<Longrightarrow> drop n (xs @ ys) = ys"
  by simp_all

lemma ccdigest_pad_eq:
  "k \<le> length (digest_data tmp) \<Longrightarrow> digest_num tmp \<le> k \<Longrightarrow>
   ccdigest_pad k tmp = tmp\<lparr>digest_data := take (digest_num tmp) (digest_data tmp) @ replicate (k - digest_num tmp) 0 @
     drop k (digest_data tmp), digest_num := k\<rparr>"
proof (induction "k - digest_num tmp" arbitrary: tmp)
  case 0
  then show ?case by (subst ccdigest_pad.simps) simp
next
  case (Suc d)
  let ?n = "digest_num tmp" and ?x = "digest_data tmp"
  have l: "?n < k" "k - ?n = Suc d" using Suc.hyps(2) by simp_all
  have t: "take (Suc ?n) (?x[?n := 0]) = take ?n ?x @ [0]"
    using l Suc.prems by (simp add: take_Suc_update)
  show ?case
    using l Suc.hyps(1) [of "tmp\<lparr>digest_data := ?x[?n := 0], digest_num := ?n + 1\<rparr>"] Suc.prems t
    by (subst ccdigest_pad.simps) (simp add: drop_update_swap)
qed

text \<open>The last block or the last two: what is buffered, a one bit, zeros, and the bit count.\<close>

definition digest_tail :: "(cc_unit \<Rightarrow> bytes) \<Rightarrow> cc_unit \<Rightarrow> bytes \<Rightarrow> bytes" where
  "digest_tail store64 nbits rest =
     rest @ [0x80] @ replicate ((if length rest < 56 then 55 else 119) - length rest) 0 @ store64 nbits"

context compression
begin

lemma compress_two:
  "di_block_size di \<le> length m \<Longrightarrow> di_compress di s 2 m =
    di_compress di (di_compress di s 1 (take (di_block_size di) m)) 1 (drop (di_block_size di) m)"
  using compress_add [of s 1 1 m] compress_take [of 1 m s] by (simp add: numeral_2_eq_2)

lemma close_eq:
  assumes "di_block_size di = 64" "length (digest_data c) = 64" "digest_num c < 64" "\<And>n. length (store64 n) = 8"
  shows "ccdigest_close di store64 c = di_compress di (digest_state c) (if digest_num c < 56 then 1 else 2)
    (digest_tail store64 (digest_nbits c + of_nat (8 * digest_num c)) (take (digest_num c) (digest_data c)))"
proof -
  let ?n = "digest_num c" and ?x = "digest_data c" and ?nb = "digest_nbits c + of_nat (8 * digest_num c)"
  have t: "take (Suc ?n) (?x[?n := 0x80]) = take ?n ?x @ [0x80]"
    using assms(2,3) by (simp add: take_Suc_update)
  have tn: "min 64 ?n = ?n" "length (take ?n ?x) = ?n" using assms(2,3) by simp_all
  show ?thesis
  proof (cases "?n < 56")
    case True
    then have "56 - ?n = Suc (55 - ?n)" by simp
    then show ?thesis
      using True assms t by (simp add: ccdigest_close_def Let_def ccdigest_pad_eq digest_tail_def tn ac_simps)
  next
    case False
    let ?m = "digest_tail store64 ?nb (take ?n ?x)"
    have z: "replicate (119 - ?n) (0 :: byte) = replicate (63 - ?n) 0 @ replicate 56 0"
      using assms(3) by (simp flip: replicate_add)
    let ?a = "take ?n ?x @ [0x80] @ replicate (63 - ?n) 0"
    have "length (take ?n ?x) = ?n" using assms(2,3) by simp
    then have me: "?m = ?a @ replicate 56 0 @ store64 ?nb"
      using False unfolding digest_tail_def by (simp add: z)
    have la: "length ?a = 64" using assms(2,3) by simp
    have m: "take 64 ?m = ?a" "drop 64 ?m = replicate 56 0 @ store64 ?nb"
      unfolding me by (rule split_at [OF la])+
    have "64 \<le> length ?m" unfolding me using la by simp
    then have "di_compress di (digest_state c) 2 ?m =
        di_compress di (di_compress di (digest_state c) 1 ?a) 1 (replicate 56 0 @ store64 ?nb)"
      using compress_two [of ?m "digest_state c", unfolded assms(1)] unfolding m by blast
    then show ?thesis
      using False assms t by (simp add: ccdigest_close_def Let_def ccdigest_pad_eq ac_simps)
  qed
qed

end

section \<open>The digest of a message\<close>

text \<open>The final function reads the state, the count and the buffered bytes, and gives \<open>output_size\<close> bytes.\<close>

locale digest = compression di for di :: "'s ccdigest_info" +
  assumes output_less: "di_output_size di < di_block_size di"
    and output_pos: "0 < di_output_size di"
    and final_ctx: "digest_num c < di_block_size di \<Longrightarrow> fst (ccdigest_final di c) = c"
    and final_length: "length (snd (ccdigest_final di c)) = di_output_size di"
    and final_reads: "length (digest_data c) = di_block_size di \<Longrightarrow> length (digest_data d) = di_block_size di \<Longrightarrow>
      digest_num c < di_block_size di \<Longrightarrow> digest_num d = digest_num c \<Longrightarrow> digest_state d = digest_state c \<Longrightarrow>
      digest_nbits d = digest_nbits c \<Longrightarrow> take (digest_num c) (digest_data d) = take (digest_num c) (digest_data c) \<Longrightarrow>
      snd (ccdigest_final di d) = snd (ccdigest_final di c)"

definition digest_blank :: "('s, 'z) ccdigest_core_scheme \<Rightarrow> 's ccdigest_ctx" where
  "digest_blank di = \<lparr>digest_nbits = 0, digest_state = di_initial_state di,
     digest_data = replicate (di_block_size di) 0, digest_num = 0\<rparr>"

definition digest_value :: "'s ccdigest_info \<Rightarrow> bytes \<Rightarrow> bytes" where
  "digest_value di msg = ccdigest di (digest_blank di) (length msg) msg"

context digest
begin

lemma final_same:
  assumes "absorbed c msg" "absorbed d msg"
  shows "snd (ccdigest_final di d) = snd (ccdigest_final di c)"
  using assms absorbed_num [OF assms(1)] by (intro final_reads) (auto simp: digest_absorbed_def)

lemma length_value [simp]: "length (digest_value di msg) = di_output_size di"
  by (simp add: digest_value_def ccdigest_def Let_def case_prod_beta final_length)

lemma final_absorbed:
  assumes "absorbed c msg"
  shows "ccdigest_final di c = (c, digest_value di msg)"
proof -
  have "absorbed (ccdigest_update di (ccdigest_init di (digest_blank di)) (length msg) msg) msg"
    using update_absorbed [OF absorbed_init [of "digest_blank di"] order_refl, of msg] by (simp add: digest_blank_def)
  from final_same [OF this assms] have "snd (ccdigest_final di c) = digest_value di msg"
    by (simp add: digest_value_def ccdigest_def case_prod_beta)
  then show ?thesis using final_ctx [OF absorbed_num [OF assms]] by (simp add: prod_eq_iff)
qed

lemma ccdigest_value:
  assumes "length (digest_data dc) = di_block_size di" "len \<le> length data"
  shows "ccdigest di dc len data = digest_value di (take len data)"
  using final_absorbed [OF update_absorbed [OF absorbed_init [OF assms(1)] assms(2)]]
  by (simp add: ccdigest_def)

text \<open>However the message is cut into updates.\<close>

lemma pieces_value:
  assumes "length (digest_data dc) = di_block_size di"
  shows "snd (ccdigest_final di (absorb_chunks (ccdigest_update di) (ccdigest_init di dc) xss)) =
    digest_value di (concat xss)"
  using final_absorbed [OF buffer.absorb_chunks_law [OF absorbed_init [OF assms]]] by simp

end

section \<open>Digests with 64-byte blocks\<close>

locale digest_64 = compression di for di :: "u32 list ccdigest_info" +
  fixes store64 :: "cc_unit \<Rightarrow> bytes" and store32 :: "u32 \<Rightarrow> bytes"
  assumes block_64: "di_block_size di = 64"
    and output_words: "0 < di_output_size di" "di_output_size di < 64" "4 dvd di_output_size di"
    and store_length: "length (store64 n) = 8" "length (store32 w) = 4"
    and final_64: "ccdigest_final di c =
      (let c = ccdigest_sanity di c; state = ccdigest_close di store64 c
       in (c, concat (map (\<lambda>i. store32 (state ! i)) [0..<di_output_size di div 4])))"
begin

lemma sanity_ok: "digest_num c < di_block_size di \<Longrightarrow> ccdigest_sanity di c = c"
  by (simp add: ccdigest_sanity_def)

lemma length_output: "length (concat (map (\<lambda>i. store32 (st ! i)) is)) = 4 * length is"
  by (induction "is") (simp_all add: store_length)

end

sublocale digest_64 \<subseteq> digest
proof
  show "di_output_size di < di_block_size di" "0 < di_output_size di"
    using output_words by (simp_all add: block_64)
  show "fst (ccdigest_final di c) = c" if "digest_num c < di_block_size di" for c
    using that by (simp add: final_64 sanity_ok Let_def)
  show "length (snd (ccdigest_final di c)) = di_output_size di" for c
    using output_words by (simp add: final_64 Let_def length_output)
  show "snd (ccdigest_final di d) = snd (ccdigest_final di c)"
    if "length (digest_data c) = di_block_size di" "length (digest_data d) = di_block_size di"
      "digest_num c < di_block_size di" "digest_num d = digest_num c" "digest_state d = digest_state c"
      "digest_nbits d = digest_nbits c" "take (digest_num c) (digest_data d) = take (digest_num c) (digest_data c)" for c d
  proof -
    have "ccdigest_close di store64 d = ccdigest_close di store64 c"
      using close_eq [OF block_64, of d store64] close_eq [OF block_64, of c store64] that
      by (simp add: block_64 store_length)
    then show ?thesis using that by (simp add: final_64 Let_def sanity_ok)
  qed
qed

text \<open>The padding of the whole message.\<close>

definition digest_padded :: "(cc_unit \<Rightarrow> bytes) \<Rightarrow> bytes \<Rightarrow> bytes" where
  "digest_padded store64 msg = msg @ [0x80] @
     replicate ((if length msg mod 64 < 56 then 55 else 119) - length msg mod 64) 0 @ store64 (of_nat (8 * length msg))"

context digest_64
begin

lemma length_padded: "length (digest_padded store64 msg) = 64 * (length msg div 64 + (if length msg mod 64 < 56 then 1 else 2))"
proof -
  define q where "q = length msg div 64"
  define r where "r = length msg mod 64"
  have "r < 64" "length msg = 64 * q + r" by (simp_all add: q_def r_def)
  then show ?thesis
    unfolding digest_padded_def q_def [symmetric] r_def [symmetric] by (auto simp: store_length)
qed

lemma value_padded:
  "digest_value di msg = concat (map (\<lambda>i. store32 (di_compress di (di_initial_state di)
      (length (digest_padded store64 msg) div 64) (digest_padded store64 msg) ! i)) [0..<di_output_size di div 4])"
proof -
  define q where "q = length msg div 64"
  define r where "r = length msg mod 64"
  define n :: nat where "n = (if r < 56 then 1 else 2)"
  let ?p = "digest_padded store64 msg"
  have r: "r < 64" "length msg = q * 64 + r" by (simp_all add: r_def q_def)
  obtain c where c: "absorbed c msg"
    using update_absorbed [OF absorbed_init [of "digest_blank di"] order_refl, of msg] by (auto simp: digest_blank_def)
  have f: "digest_num c = r" "length (digest_data c) = 64" "digest_state c = di_compress di (di_initial_state di) q msg"
    "digest_nbits c = of_nat (8 * (q * 64))" "take r (digest_data c) = drop (q * 64) msg"
    using c by (auto simp: digest_absorbed_def block_64 q_def r_def)
  have nb: "digest_nbits c + of_nat (8 * r) = of_nat (8 * length msg)"
    unfolding f(4) r(2) of_nat_add [symmetric] by (simp add: add_mult_distrib2)
  have lr: "length (drop (q * 64) msg) = r" using r(2) by simp
  have tail: "?p = take (q * 64) msg @ digest_tail store64 (of_nat (8 * length msg)) (drop (q * 64) msg)"
    unfolding digest_padded_def digest_tail_def lr r_def [symmetric] by (simp flip: append_assoc)
  have lp: "length ?p div 64 = q + n" by (simp add: length_padded q_def n_def r_def)
  have lt: "length (digest_tail store64 (of_nat (8 * length msg)) (drop (q * 64) msg)) = n * 64"
    using r by (auto simp: digest_tail_def store_length n_def)
  have "ccdigest_close di store64 c = di_compress di (di_compress di (di_initial_state di) q msg) n
      (digest_tail store64 (of_nat (8 * length msg)) (drop (q * 64) msg))"
    using close_eq [OF block_64 f(2), of store64] r(1) unfolding f(1) nb f(5) f(3) n_def
    by (simp only: store_length)
  also have "di_compress di (di_initial_state di) q msg = di_compress di (di_initial_state di) q (take (q * 64) msg)"
    using compress_take [of q msg "di_initial_state di"] r(2) by (simp add: block_64)
  also have "di_compress di \<dots> n (digest_tail store64 (of_nat (8 * length msg)) (drop (q * 64) msg)) =
      di_compress di (di_initial_state di) (q + n) ?p"
    unfolding tail using compress_append [of "take (q * 64) msg" q n] r(2) lt by (simp add: block_64)
  finally have "ccdigest_close di store64 c = di_compress di (di_initial_state di) (length ?p div 64) ?p"
    unfolding lp .
  moreover have "digest_value di msg = snd (ccdigest_final di c)" by (simp add: final_absorbed [OF c])
  ultimately show ?thesis using absorbed_num [OF c] by (simp add: final_64 Let_def sanity_ok)
qed

end

end
