(* ===== verification/Ccsha256.thy ===== *)
theory Ccsha256
  imports Ccdigest
begin

unbundle bit_operations_syntax

text \<open>
  SHA-256 in portable C: the tables, \<open>ccsha256_ltc_compress\<close> and the digest it defines.  The source
  has the 64 rounds twice, as a loop that moves the eight words along (\<open>CC_SMALL_CODE\<close>) and
  unrolled by eight with the names permuted; both are modelled and proved equal.  SHA-256 is an
  instance of \<open>digest\<close>, and its value is the compression of the padded message.
\<close>

definition ccsha256_K :: "u32 list" where
  "ccsha256_K =
    [0x428a2f98, 0x71374491, 0xb5c0fbcf, 0xe9b5dba5, 0x3956c25b] @
    [0x59f111f1, 0x923f82a4, 0xab1c5ed5, 0xd807aa98, 0x12835b01] @
    [0x243185be, 0x550c7dc3, 0x72be5d74, 0x80deb1fe, 0x9bdc06a7] @
    [0xc19bf174, 0xe49b69c1, 0xefbe4786, 0x0fc19dc6, 0x240ca1cc] @
    [0x2de92c6f, 0x4a7484aa, 0x5cb0a9dc, 0x76f988da, 0x983e5152] @
    [0xa831c66d, 0xb00327c8, 0xbf597fc7, 0xc6e00bf3, 0xd5a79147] @
    [0x06ca6351, 0x14292967, 0x27b70a85, 0x2e1b2138, 0x4d2c6dfc] @
    [0x53380d13, 0x650a7354, 0x766a0abb, 0x81c2c92e, 0x92722c85] @
    [0xa2bfe8a1, 0xa81a664b, 0xc24b8b70, 0xc76c51a3, 0xd192e819] @
    [0xd6990624, 0xf40e3585, 0x106aa070, 0x19a4c116, 0x1e376c08] @
    [0x2748774c, 0x34b0bcb5, 0x391c0cb3, 0x4ed8aa4a, 0x5b9cca4f] @
    [0x682e6ff3, 0x748f82ee, 0x78a5636f, 0x84c87814, 0x8cc70208] @
    [0x90befffa, 0xa4506ceb, 0xbef9a3f7, 0xc67178f2]"

definition ccsha256_initial_state :: "u32 list" where
  "ccsha256_initial_state =
    [0x6A09E667, 0xBB67AE85, 0x3C6EF372, 0xA54FF53A, 0x510E527F, 0x9B05688C, 0x1F83D9AB, 0x5BE0CD19]"

section \<open>The compression function\<close>

definition CC_RORc :: "u32 \<Rightarrow> nat \<Rightarrow> u32" where
  "CC_RORc x n = drop_bit n x OR push_bit (32 - n) x"

definition sha256_Ch :: "u32 \<Rightarrow> u32 \<Rightarrow> u32 \<Rightarrow> u32" where
  "sha256_Ch x y z = z XOR (x AND (y XOR z))"

definition sha256_Maj :: "u32 \<Rightarrow> u32 \<Rightarrow> u32 \<Rightarrow> u32" where
  "sha256_Maj x y z = ((x OR y) AND z) OR (x AND y)"

definition sha256_Sigma0 :: "u32 \<Rightarrow> u32" where
  "sha256_Sigma0 x = CC_RORc x 2 XOR CC_RORc x 13 XOR CC_RORc x 22"

definition sha256_Sigma1 :: "u32 \<Rightarrow> u32" where
  "sha256_Sigma1 x = CC_RORc x 6 XOR CC_RORc x 11 XOR CC_RORc x 25"

definition sha256_Gamma0 :: "u32 \<Rightarrow> u32" where
  "sha256_Gamma0 x = CC_RORc x 7 XOR CC_RORc x 18 XOR drop_bit 3 x"

definition sha256_Gamma1 :: "u32 \<Rightarrow> u32" where
  "sha256_Gamma1 x = CC_RORc x 17 XOR CC_RORc x 19 XOR drop_bit 10 x"

text \<open>The message schedule; \<open>W\<close> is filled from its sixteen words on.\<close>

function sha256_schedule :: "u32 list \<Rightarrow> nat \<Rightarrow> u32 list" where
  "sha256_schedule W i =
     (if i < 64
      then sha256_schedule
        (W @ [sha256_Gamma1 (W ! (i - 2)) + W ! (i - 7) + sha256_Gamma0 (W ! (i - 15)) + W ! (i - 16)]) (i + 1)
      else W)"
  by pat_completeness auto
termination by (relation "measure (\<lambda>(W, i). 64 - i)") auto

declare sha256_schedule.simps [simp del]

text \<open>The rounds as \<open>CC_SMALL_CODE\<close> has them.\<close>

definition sha256_round_small :: "u32 list \<Rightarrow> u32 list \<Rightarrow> nat \<Rightarrow> u32 list" where
  "sha256_round_small W S i =
     (let t0 = S ! 7 + sha256_Sigma1 (S ! 4) + sha256_Ch (S ! 4) (S ! 5) (S ! 6) + ccsha256_K ! i + W ! i;
          t1 = sha256_Sigma0 (S ! 0) + sha256_Maj (S ! 0) (S ! 1) (S ! 2);
          S = S[7 := S ! 6]; S = S[6 := S ! 5]; S = S[5 := S ! 4]; S = S[4 := S ! 3 + t0];
          S = S[3 := S ! 2]; S = S[2 := S ! 1]; S = S[1 := S ! 0]; S = S[0 := t0 + t1]
      in S)"

function sha256_rounds_small :: "u32 list \<Rightarrow> u32 list \<Rightarrow> nat \<Rightarrow> u32 list" where
  "sha256_rounds_small W S i = (if i < 64 then sha256_rounds_small W (sha256_round_small W S i) (i + 1) else S)"
  by pat_completeness auto
termination by (relation "measure (\<lambda>(W, S, i). 64 - i)") auto

declare sha256_rounds_small.simps [simp del]

text \<open>The macro \<open>RND\<close> on the positions of its arguments, and the unrolled loop.\<close>

definition sha256_RND ::
  "nat \<Rightarrow> nat \<Rightarrow> nat \<Rightarrow> nat \<Rightarrow> nat \<Rightarrow> nat \<Rightarrow> nat \<Rightarrow> nat \<Rightarrow> nat \<Rightarrow> u32 list \<Rightarrow> u32 list \<Rightarrow> u32 list" where
  "sha256_RND a b c d e f g h i W S =
     (let t0 = S ! h + sha256_Sigma1 (S ! e) + sha256_Ch (S ! e) (S ! f) (S ! g) + ccsha256_K ! i + W ! i;
          t1 = sha256_Sigma0 (S ! a) + sha256_Maj (S ! a) (S ! b) (S ! c);
          S = S[d := S ! d + t0]
      in S[h := t0 + t1])"

function sha256_rounds :: "u32 list \<Rightarrow> u32 list \<Rightarrow> nat \<Rightarrow> u32 list" where
  "sha256_rounds W S i =
     (if i < 64
      then let S = sha256_RND 0 1 2 3 4 5 6 7 (i + 0) W S; S = sha256_RND 7 0 1 2 3 4 5 6 (i + 1) W S;
               S = sha256_RND 6 7 0 1 2 3 4 5 (i + 2) W S; S = sha256_RND 5 6 7 0 1 2 3 4 (i + 3) W S;
               S = sha256_RND 4 5 6 7 0 1 2 3 (i + 4) W S; S = sha256_RND 3 4 5 6 7 0 1 2 (i + 5) W S;
               S = sha256_RND 2 3 4 5 6 7 0 1 (i + 6) W S; S = sha256_RND 1 2 3 4 5 6 7 0 (i + 7) W S
           in sha256_rounds W S (i + 8)
      else S)"
  by pat_completeness auto
termination by (relation "measure (\<lambda>(W, S, i). 64 - i)") auto

declare sha256_rounds.simps [simp del]

definition sha256_block :: "u32 list \<Rightarrow> bytes \<Rightarrow> u32 list" where
  "sha256_block s buf =
     (let W = sha256_schedule (map (\<lambda>i. cc_load32_be (drop (4 * i) buf)) [0..<16]) 16;
          S = sha256_rounds W s 0
      in map2 (+) s S)"

definition ccsha256_ltc_compress :: "u32 list \<Rightarrow> nat \<Rightarrow> bytes \<Rightarrow> u32 list" where
  "ccsha256_ltc_compress s nblocks buf = blocks_loop 64 sha256_block s nblocks buf"

definition ccsha256_ltc_di :: "u32 list ccdigest_info" where
  "ccsha256_ltc_di = \<lparr>di_output_size = 32, di_block_size = 64, di_initial_state = ccsha256_initial_state,
     di_compress = ccsha256_ltc_compress, di_final = ccdigest_final_64be\<rparr>"

section \<open>The two forms of the rounds\<close>

text \<open>After \<open>k\<close> of the eight unrolled rounds the words \<open>a\<close> to \<open>h\<close> stand \<open>k\<close> places to the left.\<close>

definition rotated :: "nat \<Rightarrow> u32 list \<Rightarrow> u32 list" where
  "rotated k S = [S ! ((8 - k) mod 8), S ! ((9 - k) mod 8), S ! ((10 - k) mod 8), S ! ((11 - k) mod 8),
     S ! ((12 - k) mod 8), S ! ((13 - k) mod 8), S ! ((14 - k) mod 8), S ! ((15 - k) mod 8)]"

lemma state_of_8: "length S = 8 \<Longrightarrow> S = [S ! 0, S ! 1, S ! 2, S ! 3, S ! 4, S ! 5, S ! 6, S ! 7]"
  by (rule nth_equalityI) (auto simp: less_Suc_eq numeral_eq_Suc)

lemma RND_rotates:
  assumes "length S = 8"
  shows "rotated 1 (sha256_RND 0 1 2 3 4 5 6 7 i W S) = sha256_round_small W (rotated 0 S) i"
    "rotated 2 (sha256_RND 7 0 1 2 3 4 5 6 i W S) = sha256_round_small W (rotated 1 S) i"
    "rotated 3 (sha256_RND 6 7 0 1 2 3 4 5 i W S) = sha256_round_small W (rotated 2 S) i"
    "rotated 4 (sha256_RND 5 6 7 0 1 2 3 4 i W S) = sha256_round_small W (rotated 3 S) i"
    "rotated 5 (sha256_RND 4 5 6 7 0 1 2 3 i W S) = sha256_round_small W (rotated 4 S) i"
    "rotated 6 (sha256_RND 3 4 5 6 7 0 1 2 i W S) = sha256_round_small W (rotated 5 S) i"
    "rotated 7 (sha256_RND 2 3 4 5 6 7 0 1 i W S) = sha256_round_small W (rotated 6 S) i"
    "rotated 0 (sha256_RND 1 2 3 4 5 6 7 0 i W S) = sha256_round_small W (rotated 7 S) i"
  by (simp_all add: rotated_def sha256_RND_def sha256_round_small_def Let_def assms)

lemma length_RND [simp]: "length (sha256_RND a b c d e f g h i W S) = length S"
  by (simp add: sha256_RND_def Let_def)

lemma length_round_small [simp]: "length (sha256_round_small W S i) = length S"
  by (simp add: sha256_round_small_def Let_def)

lemma length_foldl_small [simp]: "length (foldl (sha256_round_small W) S is) = length S"
  by (induction "is" arbitrary: S) simp_all

lemma rotated_0: "length S = 8 \<Longrightarrow> rotated 0 S = S"
  using state_of_8 [of S] by (simp add: rotated_def)

lemma sha256_eight_rounds:
  assumes "length S = 8"
  shows "sha256_RND 1 2 3 4 5 6 7 0 (i + 7) W (sha256_RND 2 3 4 5 6 7 0 1 (i + 6) W
      (sha256_RND 3 4 5 6 7 0 1 2 (i + 5) W (sha256_RND 4 5 6 7 0 1 2 3 (i + 4) W
      (sha256_RND 5 6 7 0 1 2 3 4 (i + 3) W (sha256_RND 6 7 0 1 2 3 4 5 (i + 2) W
      (sha256_RND 7 0 1 2 3 4 5 6 (i + 1) W (sha256_RND 0 1 2 3 4 5 6 7 (i + 0) W S))))))) =
    foldl (sha256_round_small W) S [i..<i + 8]"
proof -
  have u: "[i..<i + 8] = [i + 0, i + 1, i + 2, i + 3, i + 4, i + 5, i + 6, i + 7]"
    by (simp add: upt_conv_Cons numeral_eq_Suc)
  let ?R = "sha256_RND 1 2 3 4 5 6 7 0 (i + 7) W (sha256_RND 2 3 4 5 6 7 0 1 (i + 6) W
      (sha256_RND 3 4 5 6 7 0 1 2 (i + 5) W (sha256_RND 4 5 6 7 0 1 2 3 (i + 4) W
      (sha256_RND 5 6 7 0 1 2 3 4 (i + 3) W (sha256_RND 6 7 0 1 2 3 4 5 (i + 2) W
      (sha256_RND 7 0 1 2 3 4 5 6 (i + 1) W (sha256_RND 0 1 2 3 4 5 6 7 (i + 0) W S)))))))"
  have "rotated 0 ?R = foldl (sha256_round_small W) (rotated 0 S) [i..<i + 8]"
    unfolding u foldl_Cons foldl_Nil by (simp only: RND_rotates length_RND assms)
  moreover have "rotated 0 ?R = ?R" by (rule rotated_0) (simp only: length_RND assms)
  ultimately show ?thesis by (simp only: rotated_0 [OF assms])
qed

lemma sha256_rounds_small_add:
  "i + k \<le> 64 \<Longrightarrow> sha256_rounds_small W S i = sha256_rounds_small W (foldl (sha256_round_small W) S [i..<i + k]) (i + k)"
proof (induction k)
  case (Suc k)
  then show ?case
    by (simp add: sha256_rounds_small.simps [of _ _ "i + k"])
qed simp

lemma sha256_rounds_eq:
  "length S = 8 \<Longrightarrow> 8 dvd i \<Longrightarrow> sha256_rounds W S i = sha256_rounds_small W S i"
proof (induction W S i rule: sha256_rounds.induct)
  case (1 W S i)
  show ?case
  proof (cases "i < 64")
    case True
    then have i: "i + 8 \<le> 64" "8 dvd i + 8" using 1(3) by (auto elim!: dvdE)
    have "sha256_rounds W S i = sha256_rounds W (foldl (sha256_round_small W) S [i..<i + 8]) (i + 8)"
      using True by (subst sha256_rounds.simps) (simp only: Let_def if_True sha256_eight_rounds [OF 1(2)])
    also have "\<dots> = sha256_rounds_small W (foldl (sha256_round_small W) S [i..<i + 8]) (i + 8)"
      using 1(1) [OF True refl refl refl refl refl refl refl refl] 1(2) i(2)
      by (simp only: sha256_eight_rounds [OF 1(2)] length_foldl_small)
    finally show ?thesis using sha256_rounds_small_add [OF i(1)] by simp
  next
    case False
    then show ?thesis by (subst sha256_rounds.simps, subst sha256_rounds_small.simps) simp
  qed
qed

section \<open>SHA-256 as a digest\<close>

lemma sha256_fields [simp]:
  "di_block_size ccsha256_ltc_di = 64" "di_output_size ccsha256_ltc_di = 32"
  "di_compress ccsha256_ltc_di = ccsha256_ltc_compress" "di_initial_state ccsha256_ltc_di = ccsha256_initial_state"
  "di_final ccsha256_ltc_di = ccdigest_final_64be"
  by (simp_all add: ccsha256_ltc_di_def)

lemma sha256_block_take:
  assumes "64 \<le> length buf"
  shows "sha256_block s (take 64 buf) = sha256_block s buf"
proof -
  have "cc_load32_be (drop (4 * i) (take 64 buf)) = cc_load32_be (drop (4 * i) buf)" if "i < 16" for i
    using assms that by (simp add: cc_load32_be_def)
  then have "map (\<lambda>i. cc_load32_be (drop (4 * i) (take 64 buf))) [0..<16] = map (\<lambda>i. cc_load32_be (drop (4 * i) buf)) [0..<16]"
    by simp
  then show ?thesis by (simp only: sha256_block_def)
qed

interpretation sha256: digest_64 ccsha256_ltc_di cc_store64_be cc_store32_be
proof
  show "ccdigest_final ccsha256_ltc_di c =
      (let c = ccdigest_sanity ccsha256_ltc_di c; state = ccdigest_close ccsha256_ltc_di cc_store64_be c
       in (c, concat (map (\<lambda>i. cc_store32_be (state ! i)) [0..<di_output_size ccsha256_ltc_di div 4])))" for c
    by (simp add: ccdigest_final_def ccdigest_final_64be_def)
qed (simp_all add: ccsha256_ltc_compress_def blocks_loop_add blocks_loop_take sha256_block_take)

end
