(* ===== verification/Cchmac.thy ===== *)
theory Cchmac
  imports Ccsha256
begin

unbundle bit_operations_syntax

text \<open>
  HMAC of \<open>cchmac/src\<close>: a digest context for the inner digest and the chaining value of the outer
  one.  Inside the locale \<open>digest\<close> the code computes \<open>H(K xor opad, H(K xor ipad, text))\<close> for any digest
  that keeps the contract; contexts absorb text in any pieces.
\<close>

record 's cchmac_ctx =
  hmac_digest :: "'s ccdigest_ctx"
  hmac_ostate :: 's

definition cchmac_init :: "'s ccdigest_info \<Rightarrow> 's cchmac_ctx \<Rightarrow> nat \<Rightarrow> bytes \<Rightarrow> 's cchmac_ctx" where
  "cchmac_init di hc key_len key =
     (let c = hmac_digest hc;
          (c, key_len) =
            (if key_len \<le> di_block_size di
             then (c\<lparr>digest_data := map (\<lambda>i. key ! i XOR 0x5c) [0..<key_len] @ drop key_len (digest_data c)\<rparr>, key_len)
             else let c = ccdigest_init di c;
                      c = ccdigest_update di c key_len key;
                      (c, d) = ccdigest_final di c;
                      c = c\<lparr>digest_data := d @ drop (length d) (digest_data c)\<rparr>;
                      key_len = di_output_size di
                  in (c\<lparr>digest_data := map (\<lambda>b. b XOR 0x5c) (take key_len (digest_data c)) @ drop key_len (digest_data c)\<rparr>,
                      key_len));
          c = (if key_len < di_block_size di
               then c\<lparr>digest_data := take key_len (digest_data c) @ replicate (di_block_size di - key_len) 0x5c\<rparr>
               else c);
          ostate = di_compress di (di_initial_state di) 1 (digest_data c);
          c = c\<lparr>digest_data := map (\<lambda>b. b XOR (0x5c XOR 0x36)) (digest_data c)\<rparr>;
          c = c\<lparr>digest_state := di_compress di (di_initial_state di) 1 (digest_data c)\<rparr>
      in \<lparr>hmac_digest = c\<lparr>digest_num := 0, digest_nbits := of_nat (di_block_size di * 8)\<rparr>, hmac_ostate = ostate\<rparr>)"

definition cchmac_update :: "'s ccdigest_info \<Rightarrow> 's cchmac_ctx \<Rightarrow> nat \<Rightarrow> bytes \<Rightarrow> 's cchmac_ctx" where
  "cchmac_update di hc data_len data = hc\<lparr>hmac_digest := ccdigest_update di (hmac_digest hc) data_len data\<rparr>"

definition cchmac_final :: "'s ccdigest_info \<Rightarrow> 's cchmac_ctx \<Rightarrow> 's cchmac_ctx \<times> bytes" where
  "cchmac_final di hc =
     (let (c, d) = ccdigest_final di (hmac_digest hc);
          c = c\<lparr>digest_data := d @ drop (length d) (digest_data c)\<rparr>;
          c = c\<lparr>digest_num := di_output_size di, digest_nbits := of_nat (di_block_size di * 8)\<rparr>;
          c = c\<lparr>digest_state := hmac_ostate hc\<rparr>;
          (c, mac) = ccdigest_final di c
      in (hc\<lparr>hmac_digest := c\<rparr>, mac))"

definition cchmac :: "'s ccdigest_info \<Rightarrow> 's cchmac_ctx \<Rightarrow> nat \<Rightarrow> bytes \<Rightarrow> nat \<Rightarrow> bytes \<Rightarrow> bytes" where
  "cchmac di hc key_len key data_len data =
     (let hc = cchmac_init di hc key_len key;
          hc = cchmac_update di hc data_len data;
          (hc, mac) = cchmac_final di hc
      in mac)"

section \<open>What it computes\<close>

definition hmac_key :: "'s ccdigest_info \<Rightarrow> bytes \<Rightarrow> bytes" where
  "hmac_key di key =
     (let k = (if length key \<le> di_block_size di then key else digest_value di key)
      in k @ replicate (di_block_size di - length k) 0)"

definition hmac_pad :: "'s ccdigest_info \<Rightarrow> byte \<Rightarrow> bytes \<Rightarrow> bytes" where
  "hmac_pad di b key = map (\<lambda>x. x XOR b) (hmac_key di key)"

definition hmac_value :: "'s ccdigest_info \<Rightarrow> bytes \<Rightarrow> bytes \<Rightarrow> bytes" where
  "hmac_value di key msg = digest_value di (hmac_pad di 0x5c key @ digest_value di (hmac_pad di 0x36 key @ msg))"

definition hmac_absorbed :: "'s ccdigest_info \<Rightarrow> bytes \<Rightarrow> 's cchmac_ctx \<Rightarrow> bytes \<Rightarrow> bool" where
  "hmac_absorbed di key hc msg \<longleftrightarrow> digest_absorbed di (hmac_digest hc) (hmac_pad di 0x36 key @ msg) \<and>
     hmac_ostate hc = di_compress di (di_initial_state di) 1 (hmac_pad di 0x5c key)"

context digest
begin

lemma length_hmac_key: "length (hmac_key di key) = di_block_size di"
  using output_less by (simp add: hmac_key_def Let_def)

lemma length_hmac_pad [simp]: "length (hmac_pad di b key) = di_block_size di"
  by (simp add: hmac_pad_def length_hmac_key)

lemma hmac_pad_other: "map (\<lambda>b. b XOR (0x5c XOR 0x36)) (hmac_pad di 0x5c key) = hmac_pad di 0x36 key"
proof -
  have "(b XOR 92) XOR 106 = b XOR (54 :: byte)" for b by (simp add: xor.assoc)
  then show ?thesis by (simp add: hmac_pad_def)
qed

lemma length_update_data:
  assumes "absorbed c msg" "n \<le> length data"
  shows "length (digest_data (ccdigest_update di c n data)) = di_block_size di"
  using update_absorbed [OF assms] by (simp add: digest_absorbed_def)

text \<open>The key block: the key or its digest, masked, then the mask itself.\<close>

lemma cchmac_init_absorbed:
  assumes "length (digest_data (hmac_digest hc)) = di_block_size di" "key_len \<le> length key"
  shows "hmac_absorbed di (take key_len key) (cchmac_init di hc key_len key) []"
proof -
  let ?b = "di_block_size di" and ?c = "hmac_digest hc" and ?k = "take key_len key"
  have pad: "hmac_pad di 0x5c ?k = map (\<lambda>x. x XOR 0x5c) k @ replicate (?b - length k) 0x5c"
    if "k = (if key_len \<le> ?b then ?k else digest_value di ?k)" for k
    using that assms(2) by (auto simp: hmac_pad_def hmac_key_def min_def Let_def)
  obtain c where c: "cchmac_init di hc key_len key =
      \<lparr>hmac_digest = c\<lparr>digest_data := hmac_pad di 0x36 ?k,
          digest_state := di_compress di (di_initial_state di) 1 (hmac_pad di 0x36 ?k),
          digest_num := 0, digest_nbits := of_nat (?b * 8)\<rparr>,
        hmac_ostate = di_compress di (di_initial_state di) 1 (hmac_pad di 0x5c ?k)\<rparr>"
  proof (cases "key_len \<le> ?b")
    case True
    have "map (\<lambda>i. key ! i XOR 0x5c) [0..<key_len] = map (\<lambda>x. x XOR 0x5c) ?k"
      using assms(2) by (simp add: list_eq_iff_nth_eq)
    then have "hmac_pad di 0x5c ?k = map (\<lambda>i. key ! i XOR 0x5c) [0..<key_len] @ replicate (?b - key_len) 0x5c"
      using pad [of ?k] True assms(2) by simp
    then show ?thesis
      using True assms(1) that [of ?c] hmac_pad_other [of ?k, symmetric]
      by (auto simp: cchmac_init_def Let_def)
  next
    case False
    have a: "absorbed (ccdigest_update di (ccdigest_init di ?c) key_len key) ?k"
      using update_absorbed [OF absorbed_init [OF assms(1)] assms(2)] by simp
    let ?u = "ccdigest_update di (ccdigest_init di ?c) key_len key" and ?d = "digest_value di ?k"
    have p: "hmac_pad di 0x5c ?k = map (\<lambda>x. x XOR 0x5c) ?d @ replicate (?b - di_output_size di) 0x5c"
      using pad [of ?d] False by simp
    show ?thesis
      using False output_less that [of ?u] hmac_pad_other [of ?k, symmetric] p
      by (simp add: cchmac_init_def Let_def final_absorbed [OF a])
  qed
  then show ?thesis using block_pos by (simp add: hmac_absorbed_def digest_absorbed_def mult.commute)
qed

lemma cchmac_update_absorbed:
  "hmac_absorbed di key hc msg \<Longrightarrow> n \<le> length data \<Longrightarrow> hmac_absorbed di key (cchmac_update di hc n data) (msg @ take n data)"
  using update_absorbed [of "hmac_digest hc" "hmac_pad di 0x36 key @ msg" n data]
  by (simp add: hmac_absorbed_def cchmac_update_def)

lemma cchmac_final_absorbed:
  assumes "hmac_absorbed di key hc msg"
  shows "snd (cchmac_final di hc) = hmac_value di key msg"
    "hmac_ostate (fst (cchmac_final di hc)) = hmac_ostate hc"
    "length (digest_data (hmac_digest (fst (cchmac_final di hc)))) = di_block_size di"
proof -
  let ?c = "hmac_digest hc" and ?inner = "digest_value di (hmac_pad di 0x36 key @ msg)" and ?b = "di_block_size di"
  from assms have a: "absorbed ?c (hmac_pad di 0x36 key @ msg)" by (simp add: hmac_absorbed_def)
  let ?d = "?c\<lparr>digest_data := ?inner @ drop (di_output_size di) (digest_data ?c),
      digest_num := di_output_size di, digest_nbits := of_nat (?b * 8), digest_state := hmac_ostate hc\<rparr>"
  have "(?b + di_output_size di) div ?b = 1" "(?b + di_output_size di) mod ?b = di_output_size di"
    using output_less block_pos by (simp_all add: div_add1_eq)
  then have d: "absorbed ?d (hmac_pad di 0x5c key @ ?inner)"
    using a assms output_less compress_prefix [of 1 "hmac_pad di 0x5c key" "di_initial_state di" ?inner]
    by (simp add: digest_absorbed_def hmac_absorbed_def)
  have f: "cchmac_final di hc = (hc\<lparr>hmac_digest := ?d\<rparr>, digest_value di (hmac_pad di 0x5c key @ ?inner))"
    using final_absorbed [OF d] by (simp add: cchmac_final_def final_absorbed [OF a])
  show "snd (cchmac_final di hc) = hmac_value di key msg" by (simp add: f hmac_value_def)
  show "hmac_ostate (fst (cchmac_final di hc)) = hmac_ostate hc" by (simp add: f)
  show "length (digest_data (hmac_digest (fst (cchmac_final di hc)))) = ?b"
    using d by (simp add: f digest_absorbed_def)
qed

lemma cchmac_value:
  assumes "length (digest_data (hmac_digest hc)) = di_block_size di" "key_len \<le> length key" "data_len \<le> length data"
  shows "cchmac di hc key_len key data_len data = hmac_value di (take key_len key) (take data_len data)"
  using cchmac_final_absorbed(1) [OF cchmac_update_absorbed [OF cchmac_init_absorbed [OF assms(1,2)] assms(3)]]
  by (simp add: cchmac_def case_prod_beta)

lemma length_hmac_value [simp]: "length (hmac_value di key msg) = di_output_size di"
  by (simp add: hmac_value_def)

end

sublocale digest \<subseteq> hmac: absorber "hmac_absorbed di" "cchmac_update di"
  by unfold_locales (rule cchmac_update_absorbed)

end
