(* ===== verification/Cckdf.thy ===== *)
theory Cckdf
  imports Cchmac
begin

text \<open>
  Key derivation on top of HMAC and digests: HKDF (\<open>cchkdf.c\<close>), PBKDF2 (\<open>ccpbkdf2_hmac.c\<close>), the
  ANSI X9.63 function (\<open>ccansikdf_x963.c\<close>) and the counter and feedback modes of SP 800-108
  (\<open>ccnistkdf_ctr_hmac.c\<close>, \<open>ccnistkdf_fb_hmac.c\<close>).  Each is proved to compute the formula of its standard
  for any digest that keeps the contract.  Stack objects are arguments, with any contents.
\<close>

text \<open>The macro at the width of its arguments here, which are \<open>size_t\<close>: the sum wraps around.\<close>

definition cc_ceiling :: "nat \<Rightarrow> nat \<Rightarrow> nat" where
  "cc_ceiling a b = (a + (b - 1)) mod 2 ^ 64 div b"

section \<open>HKDF\<close>

definition cchkdf_extract :: "'s ccdigest_info \<Rightarrow> 's cchmac_ctx \<Rightarrow> nat \<Rightarrow> bytes \<Rightarrow> nat \<Rightarrow> bytes \<Rightarrow> bytes" where
  "cchkdf_extract di hc salt_nbytes salt ikm_nbytes ikm =
     (let (salt, salt_nbytes) =
            (if salt_nbytes = 0 then (replicate (di_output_size di) 0, di_output_size di) else (salt, salt_nbytes))
      in cchmac di hc salt_nbytes salt ikm_nbytes ikm)"

function cchkdf_expand_loop ::
  "'s ccdigest_info \<Rightarrow> 's cchmac_ctx \<Rightarrow> nat \<Rightarrow> bytes \<Rightarrow> nat \<Rightarrow> nat \<Rightarrow> nat \<Rightarrow> bytes \<Rightarrow> nat \<Rightarrow> nat \<Rightarrow> bytes" where
  "cchkdf_expand_loop di hci info_nbytes info dk_nbytes n i T Tlen offset =
     (if i \<le> n
      then let hc = hci;
               hc = cchmac_update di hc Tlen T;
               hc = cchmac_update di hc info_nbytes info;
               hc = cchmac_update di hc 1 [of_nat i];
               (hc, T) = cchmac_final di hc
           in (if i = n then take (dk_nbytes - offset) T else take (di_output_size di) T) @
              cchkdf_expand_loop di hci info_nbytes info dk_nbytes n (i + 1) T (di_output_size di) (offset + di_output_size di)
      else [])"
  by pat_completeness auto
termination by (relation "measure (\<lambda>(di, hci, il, info, dk, n, i, T, Tlen, offset). Suc n - i)") auto

declare cchkdf_expand_loop.simps [simp del]

definition cchkdf_expand ::
  "'s ccdigest_info \<Rightarrow> 's cchmac_ctx \<Rightarrow> nat \<Rightarrow> bytes \<Rightarrow> nat \<Rightarrow> bytes \<Rightarrow> nat \<Rightarrow> int + bytes" where
  "cchkdf_expand di hci prk_nbytes prk info_nbytes info dk_nbytes =
     (let n = cc_ceiling dk_nbytes (di_output_size di)
      in if n > 255 then Inl CCERR_PARAMETER
         else if prk_nbytes < di_output_size di then Inl CCERR_PARAMETER
         else let hci = cchmac_init di hci prk_nbytes prk
              in Inr (cchkdf_expand_loop di hci info_nbytes info dk_nbytes n 1 [] 0 0))"

definition cchkdf ::
  "'s ccdigest_info \<Rightarrow> 's cchmac_ctx \<Rightarrow> nat \<Rightarrow> bytes \<Rightarrow> nat \<Rightarrow> bytes \<Rightarrow> nat \<Rightarrow> bytes \<Rightarrow> nat \<Rightarrow> int + bytes" where
  "cchkdf di hc ikm_nbytes ikm salt_nbytes salt info_nbytes info dk_nbytes =
     (let prk = cchkdf_extract di hc salt_nbytes salt ikm_nbytes ikm
      in cchkdf_expand di hc (di_output_size di) prk info_nbytes info dk_nbytes)"

text \<open>RFC 5869: the chain \<open>T(i)\<close>.\<close>

fun hkdf_T :: "'s ccdigest_info \<Rightarrow> bytes \<Rightarrow> bytes \<Rightarrow> nat \<Rightarrow> bytes" where
  "hkdf_T di prk info 0 = []"
| "hkdf_T di prk info (Suc i) = hmac_value di prk (hkdf_T di prk info i @ info @ [of_nat (Suc i)])"


lemma cc_ceiling_bounds:
  assumes "0 < b" "0 < a" "a + (b - 1) < 2 ^ 64"
  shows "0 < cc_ceiling a b" "(cc_ceiling a b - 1) * b < a" "a \<le> cc_ceiling a b * b"
proof -
  obtain q r where q: "a = q * b + r + 1" "r < b"
  proof -
    have "a - 1 = (a - 1) div b * b + (a - 1) mod b" by simp
    moreover have "(a - 1) mod b < b" using assms(1) by simp
    ultimately show thesis using that [of "(a - 1) div b" "(a - 1) mod b"] assms(2) by linarith
  qed
  have "a + (b - 1) = r + (q + 1) * b" using q assms by simp
  moreover have "(a + (b - 1)) mod 2 ^ 64 = a + (b - 1)" using assms(3) by (rule mod_less)
  ultimately have "cc_ceiling a b = q + 1" unfolding cc_ceiling_def using q(2) assms(1) by (simp only: div_mult_self1) simp
  then show "0 < cc_ceiling a b" "(cc_ceiling a b - 1) * b < a" "a \<le> cc_ceiling a b * b" using q by simp_all
qed

lemma cc_ceiling_0 [simp]: "0 < b \<Longrightarrow> cc_ceiling 0 b = 0"
  using mod_less_eq_dividend [of "b - 1" "2 ^ 64"] by (simp add: cc_ceiling_def del: mod_less_eq_dividend)

lemma cc_ceiling_wraps: "2 ^ 64 \<le> a + (b - 1) \<Longrightarrow> a < 2 ^ 64 \<Longrightarrow> b < 2 ^ 64 \<Longrightarrow> cc_ceiling a b = 0"
proof -
  assume a: "2 ^ 64 \<le> a + (b - 1)" "a < 2 ^ 64" "b < 2 ^ 64"
  define M where "M = (2 ^ 64 :: nat)"
  have "(a + (b - 1)) mod M = (a + (b - 1) - M) mod M" using a(1) by (simp only: M_def [symmetric] le_mod_geq)
  also have "\<dots> \<le> a + (b - 1) - M" by (rule mod_less_eq_dividend)
  also have "\<dots> < b" using a unfolding M_def [symmetric] by linarith
  finally show ?thesis unfolding cc_ceiling_def M_def by (rule div_less)
qed

context digest
begin

lemma cchkdf_extract_value:
  assumes "length (digest_data (hmac_digest hc)) = di_block_size di"
  shows "cchkdf_extract di hc (length salt) salt (length ikm) ikm =
    hmac_value di (if salt = [] then replicate (di_output_size di) 0 else salt) ikm"
  using cchmac_value [OF assms, of "length salt" salt "length ikm" ikm]
    cchmac_value [OF assms, of "di_output_size di" "replicate (di_output_size di) 0" "length ikm" ikm]
  by (simp add: cchkdf_extract_def)

lemma hkdf_T_pos: "0 < i \<Longrightarrow> hkdf_T di prk info i = hmac_value di prk (hkdf_T di prk info (i - 1) @ info @ [of_nat i])"
  by (cases i) simp_all

lemma length_hkdf_T: "0 < i \<Longrightarrow> length (hkdf_T di prk info i) = di_output_size di"
  by (cases i) simp_all

lemma cchkdf_expand_loop_eq:
  assumes "hmac_absorbed di prk hci []" "n = cc_ceiling dk (di_output_size di)"
  shows "0 < i \<Longrightarrow> i \<le> n \<Longrightarrow> Tlen = length T \<Longrightarrow> T = hkdf_T di prk info (i - 1) \<Longrightarrow> offset = (i - 1) * di_output_size di \<Longrightarrow>
    cchkdf_expand_loop di hci (length info) info dk n i T Tlen offset =
      concat (map (hkdf_T di prk info) [i..<n]) @ take (dk - (n - 1) * di_output_size di) (hkdf_T di prk info n)"
proof (induction "n - i" arbitrary: i T Tlen offset)
  case (0 i T Tlen offset)
  let ?hc = "cchmac_update di (cchmac_update di (cchmac_update di hci (length T) T) (length info) info) 1 [of_nat i]"
  have i: "i = n" "n = Suc (n - 1)" using 0 by simp_all
  have a: "hmac_absorbed di prk ?hc (T @ info @ [of_nat i])"
    using cchmac_update_absorbed [OF cchmac_update_absorbed [OF cchmac_update_absorbed [OF assms(1) order_refl] order_refl],
        of 1 "[of_nat i]" T info] by simp
  have "snd (cchmac_final di ?hc) = hkdf_T di prk info n"
    using cchmac_final_absorbed(1) [OF a] 0 i(1) hkdf_T_pos [of n prk info] by simp
  then show ?case
    using 0 i(1) by (subst cchkdf_expand_loop.simps, subst (1) cchkdf_expand_loop.simps) (simp add: Let_def case_prod_beta)
next
  case (Suc d)
  let ?hc = "cchmac_update di (cchmac_update di (cchmac_update di hci (length T) T) (length info) info) 1 [of_nat i]"
  have i: "i < n" "i = Suc (i - 1)" "d = n - (i + 1)" using Suc.hyps(2) Suc.prems(1) by simp_all
  have a: "hmac_absorbed di prk ?hc (T @ info @ [of_nat i])"
    using cchmac_update_absorbed [OF cchmac_update_absorbed [OF cchmac_update_absorbed [OF assms(1) order_refl] order_refl],
        of 1 "[of_nat i]" T info] by simp
  have t: "snd (cchmac_final di ?hc) = hkdf_T di prk info i"
    using cchmac_final_absorbed(1) [OF a] Suc.prems hkdf_T_pos [of i prk info] by simp
  have "offset + di_output_size di = (i + 1 - 1) * di_output_size di"
    using Suc.prems(5) i(2) by (metis add.commute add_diff_cancel_right' mult_Suc)
  then have "offset + di_output_size di = (i + 1 - 1) * di_output_size di"
    "di_output_size di = length (hkdf_T di prk info i)" "hkdf_T di prk info i = hkdf_T di prk info (i + 1 - 1)"
    using Suc.prems(1) by (simp_all add: length_hkdf_T)
  note ih = Suc.hyps(1) [OF i(3) _ _ this(2,3,1)]
  have "cchkdf_expand_loop di hci (length info) info dk n (i + 1) (hkdf_T di prk info i) (di_output_size di) (offset + di_output_size di) =
      concat (map (hkdf_T di prk info) [i + 1..<n]) @ take (dk - (n - 1) * di_output_size di) (hkdf_T di prk info n)"
    by (rule ih) (use i(1) in simp_all)
  moreover have "cchkdf_expand_loop di hci (length info) info dk n i T Tlen offset = hkdf_T di prk info i @
      cchkdf_expand_loop di hci (length info) info dk n (i + 1) (hkdf_T di prk info i) (di_output_size di) (offset + di_output_size di)"
    using i(1) t Suc.prems(1,3)
    by (subst cchkdf_expand_loop.simps) (simp add: Let_def case_prod_beta length_hkdf_T)
  ultimately show ?case using i(1) by (simp add: upt_conv_Cons)
qed

text \<open>
  For the lengths whose sum with the block length wraps around, the count of blocks is 0: the test against 255 passes and
  no key is written.
\<close>

lemma cchkdf_expand_wraps:
  assumes "2 ^ 64 \<le> dk + (di_output_size di - 1)" "dk < 2 ^ 64" "di_output_size di < 2 ^ 64" "di_output_size di \<le> length prk"
  shows "cchkdf_expand di hc (length prk) prk (length info) info dk = Inr []"
  using cc_ceiling_wraps [OF assms(1-3)] assms(4) by (simp add: cchkdf_expand_def cchkdf_expand_loop.simps [of _ _ _ _ _ 0])

lemma cchkdf_expand_value:
  assumes "length (digest_data (hmac_digest hc)) = di_block_size di" "dk + (di_output_size di - 1) < 2 ^ 64"
  shows "cchkdf_expand di hc (length prk) prk (length info) info dk =
    (if 255 * di_output_size di < dk \<or> length prk < di_output_size di then Inl CCERR_PARAMETER
     else Inr (take dk (concat (map (hkdf_T di prk info) [1..<Suc (cc_ceiling dk (di_output_size di))]))))"
proof -
  let ?h = "di_output_size di" and ?n = "cc_ceiling dk (di_output_size di)"
  have a: "hmac_absorbed di prk (cchmac_init di hc (length prk) prk) []"
    using cchmac_init_absorbed [OF assms(1) order_refl, of prk] by simp
  show ?thesis
  proof (cases "dk = 0")
    case True
    then show ?thesis
      using output_pos by (simp add: cchkdf_expand_def cchkdf_expand_loop.simps [of _ _ _ _ _ 0])
  next
    case False
    then have b: "0 < ?n" "(?n - 1) * ?h < dk" "dk \<le> ?n * ?h" using cc_ceiling_bounds [OF output_pos _ assms(2)] by simp_all
    have n255: "255 < ?n \<longleftrightarrow> 255 * ?h < dk"
    proof
      assume "255 < ?n"
      then have "255 * ?h \<le> (?n - 1) * ?h" by (intro mult_le_mono1) simp
      also note b(2)
      finally show "255 * ?h < dk" .
    next
      assume "255 * ?h < dk"
      then have "255 * ?h < ?n * ?h" using b(3) by (rule less_le_trans)
      then show "255 < ?n" by (simp only: mult_less_cancel2)
    qed
    let ?f = "\<lambda>i. hkdf_T di prk info (Suc i)"
    have m: "map (hkdf_T di prk info) [1..<k] = map ?f [0..<k - 1]" for k
      by (rule nth_equalityI) simp_all
    have lt: "dk \<le> Suc (?n - 1) * ?h" using b by simp
    have "concat (map ?f [0..<?n - 1]) @ take (dk - (?n - 1) * ?h) (?f (?n - 1)) = take dk (concat (map ?f [0..<Suc (?n - 1)]))"
    proof -
      have "length (concat (map ?f [0..<k])) = k * ?h" for k by (induction k) simp_all
      from this [of "?n - 1"] show ?thesis using b(2) by simp
    qed
    then have "concat (map (hkdf_T di prk info) [1..<?n]) @ take (dk - (?n - 1) * ?h) (hkdf_T di prk info ?n) =
        take dk (concat (map (hkdf_T di prk info) [1..<Suc ?n]))"
      using b(1) unfolding m by simp
    with cchkdf_expand_loop_eq [OF a refl, of 1 dk 0 "[]" info 0] b(1)
    show ?thesis by (simp add: cchkdf_expand_def n255)
  qed
qed

end

section \<open>PBKDF2\<close>

text \<open>The rounds from the second on; \<open>inBlock\<close> is the data buffer of the context.\<close>

function pbkdf2_loop ::
  "'s ccdigest_info \<Rightarrow> 's \<Rightarrow> nat \<Rightarrow> nat \<Rightarrow> nat \<Rightarrow> 's cchmac_ctx \<Rightarrow> bytes \<Rightarrow> 's cchmac_ctx \<times> bytes" where
  "pbkdf2_loop di istate dataLen iterationCount iteration hc data =
     (if iteration \<le> iterationCount
      then let c = hmac_digest hc;
               c = c\<lparr>digest_state := istate, digest_nbits := of_nat (di_block_size di * 8), digest_num := di_output_size di\<rparr>;
               (hc, mac) = cchmac_final di (hc\<lparr>hmac_digest := c\<rparr>);
               c = hmac_digest hc;
               c = c\<lparr>digest_data := mac @ drop (length mac) (digest_data c)\<rparr>;
               data = cc_xor dataLen data (digest_data c)
           in pbkdf2_loop di istate dataLen iterationCount (iteration + 1) (hc\<lparr>hmac_digest := c\<rparr>) data
      else (hc, data))"
  by pat_completeness auto
termination by (relation "measure (\<lambda>(di, st, l, n, i, hc, data). Suc n - i)") auto

declare pbkdf2_loop.simps [simp del]

definition pbkdf2_F ::
  "'s ccdigest_info \<Rightarrow> 's cchmac_ctx \<Rightarrow> 's \<Rightarrow> nat \<Rightarrow> bytes \<Rightarrow> nat \<Rightarrow> nat \<Rightarrow> nat \<Rightarrow> 's cchmac_ctx \<times> bytes" where
  "pbkdf2_F di hc istate saltLen salt iterationCount blockNumber dataLen =
     (let c = hmac_digest hc;
          c = c\<lparr>digest_state := istate, digest_nbits := of_nat (di_block_size di * 8), digest_num := 0\<rparr>;
          c = ccdigest_update di c saltLen salt;
          c = ccdigest_update di c 4 (cc_store32_be (of_nat blockNumber));
          (hc, mac) = cchmac_final di (hc\<lparr>hmac_digest := c\<rparr>);
          c = hmac_digest hc;
          c = c\<lparr>digest_data := mac @ drop (length mac) (digest_data c)\<rparr>;
          data = take dataLen (digest_data c)
      in pbkdf2_loop di istate dataLen iterationCount 2 (hc\<lparr>hmac_digest := c\<rparr>) data)"

function pbkdf2_blocks ::
  "'s ccdigest_info \<Rightarrow> 's \<Rightarrow> nat \<Rightarrow> bytes \<Rightarrow> nat \<Rightarrow> nat \<Rightarrow> nat \<Rightarrow> 's cchmac_ctx \<Rightarrow> 's cchmac_ctx \<times> bytes" where
  "pbkdf2_blocks di istate saltLen salt iterations completeBlocks blockNumber hc =
     (if blockNumber \<le> completeBlocks
      then let (hc, data) = pbkdf2_F di hc istate saltLen salt iterations blockNumber (di_output_size di);
               (hc, rest) = pbkdf2_blocks di istate saltLen salt iterations completeBlocks (blockNumber + 1) hc
           in (hc, data @ rest)
      else (hc, []))"
  by pat_completeness auto
termination by (relation "measure (\<lambda>(di, st, sl, salt, it, n, i, hc). Suc n - i)") auto

declare pbkdf2_blocks.simps [simp del]

definition ccpbkdf2_hmac ::
  "'s ccdigest_info \<Rightarrow> 's cchmac_ctx \<Rightarrow> nat \<Rightarrow> bytes \<Rightarrow> nat \<Rightarrow> bytes \<Rightarrow> nat \<Rightarrow> nat \<Rightarrow> int + bytes" where
  "ccpbkdf2_hmac di hc passwordLen password saltLen salt iterations dkLen =
     (if dkLen div di_output_size di > 0xffffffff then Inl (- 1)
      else let hc = cchmac_init di hc passwordLen password;
               istate = digest_state (hmac_digest hc);
               hLen = di_output_size di;
               completeBlocks = dkLen div hLen;
               partialBlock_nbytes = dkLen mod hLen;
               (hc, dk) = pbkdf2_blocks di istate saltLen salt iterations completeBlocks 1 hc;
               (hc, dk') = (if partialBlock_nbytes > 0
                 then pbkdf2_F di hc istate saltLen salt iterations (completeBlocks + 1) partialBlock_nbytes
                 else (hc, []))
           in Inr (dk @ dk'))"

text \<open>RFC 8018: the chain \<open>U(j)\<close> and the XOR of its first elements.\<close>

fun pbkdf2_U :: "'s ccdigest_info \<Rightarrow> bytes \<Rightarrow> bytes \<Rightarrow> nat \<Rightarrow> nat \<Rightarrow> bytes" where
  "pbkdf2_U di pw salt i 0 = salt @ cc_store32_be (of_nat i)"
| "pbkdf2_U di pw salt i (Suc j) = hmac_value di pw (pbkdf2_U di pw salt i j)"

fun pbkdf2_T :: "'s ccdigest_info \<Rightarrow> bytes \<Rightarrow> bytes \<Rightarrow> nat \<Rightarrow> nat \<Rightarrow> bytes" where
  "pbkdf2_T di pw salt i 0 = pbkdf2_U di pw salt i 1"
| "pbkdf2_T di pw salt i (Suc j) = cc_xor (di_output_size di) (pbkdf2_T di pw salt i j) (pbkdf2_U di pw salt i (j + 2))"

text \<open>
  A context whose outer state belongs to the key and whose buffer has its size; the functions
  reset the rest from the cached inner state.
\<close>

definition hmac_keyed :: "'s ccdigest_info \<Rightarrow> bytes \<Rightarrow> 's cchmac_ctx \<Rightarrow> bool" where
  "hmac_keyed di key hc \<longleftrightarrow> length (digest_data (hmac_digest hc)) = di_block_size di \<and>
     hmac_ostate hc = di_compress di (di_initial_state di) 1 (hmac_pad di 0x5c key)"

context digest
begin

lemma length_T: "length (pbkdf2_T di pw salt i j) = di_output_size di"
  by (cases j) simp_all

lemma hmac_keyed_init:
  fixes key :: bytes
  assumes "length (digest_data (hmac_digest hc)) = di_block_size di"
  defines "h \<equiv> cchmac_init di hc (length key) key"
  shows "hmac_keyed di key h" "digest_state (hmac_digest h) = di_compress di (di_initial_state di) 1 (hmac_pad di 0x36 key)"
proof -
  have "hmac_absorbed di key h []" unfolding h_def using cchmac_init_absorbed [OF assms(1) order_refl, of key] by simp
  then show "hmac_keyed di key h" "digest_state (hmac_digest h) = di_compress di (di_initial_state di) 1 (hmac_pad di 0x36 key)"
    using block_pos by (simp_all add: hmac_keyed_def hmac_absorbed_def digest_absorbed_def)
qed

text \<open>Resetting from the cached state, with nothing or with one digest in the buffer.\<close>

lemma hmac_reset:
  assumes "hmac_keyed di key hc"
  defines "st \<equiv> di_compress di (di_initial_state di) 1 (hmac_pad di 0x36 key)"
  shows "hmac_absorbed di key (hc\<lparr>hmac_digest := (hmac_digest hc)\<lparr>digest_state := st,
      digest_nbits := of_nat (di_block_size di * 8), digest_num := 0\<rparr>\<rparr>) []"
    "take (di_output_size di) (digest_data (hmac_digest hc)) = u \<Longrightarrow>
     hmac_absorbed di key (hc\<lparr>hmac_digest := (hmac_digest hc)\<lparr>digest_state := st,
      digest_nbits := of_nat (di_block_size di * 8), digest_num := di_output_size di\<rparr>\<rparr>) u"
proof -
  let ?b = "di_block_size di"
  have k: "length (digest_data (hmac_digest hc)) = ?b" "hmac_ostate hc = di_compress di (di_initial_state di) 1 (hmac_pad di 0x5c key)"
    using assms by (simp_all add: hmac_keyed_def)
  show "hmac_absorbed di key (hc\<lparr>hmac_digest := (hmac_digest hc)\<lparr>digest_state := st,
      digest_nbits := of_nat (?b * 8), digest_num := 0\<rparr>\<rparr>) []"
    using k block_pos by (simp add: hmac_absorbed_def digest_absorbed_def st_def mult.commute)
  assume u: "take (di_output_size di) (digest_data (hmac_digest hc)) = u"
  then have lu: "length u = di_output_size di" using k(1) output_less by auto
  have d: "(?b + di_output_size di) div ?b = 1" "(?b + di_output_size di) mod ?b = di_output_size di"
    using output_less block_pos by (simp_all add: div_add1_eq)
  have "di_compress di (di_initial_state di) 1 (hmac_pad di 0x36 key @ u) = st"
    unfolding st_def by (rule compress_prefix) simp
  with k lu d u show "hmac_absorbed di key (hc\<lparr>hmac_digest := (hmac_digest hc)\<lparr>digest_state := st,
      digest_nbits := of_nat (?b * 8), digest_num := di_output_size di\<rparr>\<rparr>) u"
    by (simp add: hmac_absorbed_def digest_absorbed_def mult.commute)
qed

text \<open>Finishing, with the result written into the buffer of the context.\<close>

lemma hmac_final_into_data:
  assumes "hmac_absorbed di key hc msg" "cchmac_final di hc = (hc', mac)"
  defines "c \<equiv> hmac_digest hc'"
  defines "h \<equiv> hc'\<lparr>hmac_digest := c\<lparr>digest_data := mac @ drop (length mac) (digest_data c)\<rparr>\<rparr>"
  shows "mac = hmac_value di key msg" "hmac_keyed di key h"
    "take (di_output_size di) (digest_data (hmac_digest h)) = hmac_value di key msg"
proof -
  note f = cchmac_final_absorbed [OF assms(1), unfolded assms(2), simplified]
  show m: "mac = hmac_value di key msg" by (rule f(1))
  show "hmac_keyed di key h"
    using f assms(1) output_less by (simp add: hmac_keyed_def h_def c_def hmac_absorbed_def m)
  show "take (di_output_size di) (digest_data (hmac_digest h)) = hmac_value di key msg"
    by (simp add: h_def m)
qed

lemma pbkdf2_loop_eq:
  fixes pw :: bytes
  assumes "n \<le> di_output_size di"
  defines "st \<equiv> di_compress di (di_initial_state di) 1 (hmac_pad di 0x36 pw)"
  shows "hmac_keyed di pw hc \<Longrightarrow> take (di_output_size di) (digest_data (hmac_digest hc)) = pbkdf2_U di pw salt i (Suc j) \<Longrightarrow>
    data = take n (pbkdf2_T di pw salt i j) \<Longrightarrow>
    hmac_keyed di pw (fst (pbkdf2_loop di st n count (j + 2) hc data)) \<and>
    snd (pbkdf2_loop di st n count (j + 2) hc data) = take n (pbkdf2_T di pw salt i (max j (count - 1)))"
proof (induction "count - Suc j" arbitrary: j hc data)
  case 0
  then have "max j (count - 1) = j" "\<not> j + 2 \<le> count" by simp_all
  with 0 show ?case by (subst (1 2) pbkdf2_loop.simps) simp
next
  case (Suc d)
  let ?h = "hc\<lparr>hmac_digest := (hmac_digest hc)\<lparr>digest_state := st, digest_nbits := of_nat (di_block_size di * 8),
      digest_num := di_output_size di\<rparr>\<rparr>"
  let ?u = "pbkdf2_U di pw salt i (Suc j)"
  have a: "hmac_absorbed di pw ?h ?u" unfolding st_def by (rule hmac_reset(2) [OF Suc.prems(1,2)])
  obtain hc' mac where f: "cchmac_final di ?h = (hc', mac)" by force
  let ?c = "hmac_digest hc'"
  let ?k = "hc'\<lparr>hmac_digest := ?c\<lparr>digest_data := mac @ drop (length mac) (digest_data ?c)\<rparr>\<rparr>"
  note k = hmac_final_into_data [OF a f]
  have le: "j + 2 \<le> count" using Suc.hyps(2) by simp
  have d: "cc_xor n data (mac @ drop (length mac) (digest_data ?c)) = take n (pbkdf2_T di pw salt i (Suc j))"
    unfolding k(1) Suc.prems(3) using assms(1)
    by (auto simp: length_T list_eq_iff_nth_eq nth_append nth_cc_xor numeral_2_eq_2)
  have u: "take (di_output_size di) (digest_data (hmac_digest ?k)) = pbkdf2_U di pw salt i (Suc (Suc j))"
    using k(3) by simp
  have "d = count - Suc (Suc j)" using Suc.hyps(2) by simp
  from Suc.hyps(1) [OF this k(2) u refl]
  show ?case
    using le f d by (subst (1 2) pbkdf2_loop.simps) (simp add: Let_def max_absorb2)
qed

lemma pbkdf2_F_eq:
  fixes pw salt :: bytes
  assumes "hmac_keyed di pw hc" "n \<le> di_output_size di"
  defines "st \<equiv> di_compress di (di_initial_state di) 1 (hmac_pad di 0x36 pw)"
  shows "hmac_keyed di pw (fst (pbkdf2_F di hc st (length salt) salt count i n))"
    "snd (pbkdf2_F di hc st (length salt) salt count i n) = take n (pbkdf2_T di pw salt i (count - 1))"
proof -
  let ?h = "hc\<lparr>hmac_digest := (hmac_digest hc)\<lparr>digest_state := st, digest_nbits := of_nat (di_block_size di * 8), digest_num := 0\<rparr>\<rparr>"
  let ?u = "cchmac_update di (cchmac_update di ?h (length salt) salt) 4 (cc_store32_be (of_nat i))"
  have a: "hmac_absorbed di pw ?u (salt @ cc_store32_be (of_nat i))"
    using cchmac_update_absorbed [OF cchmac_update_absorbed [OF hmac_reset(1) [OF assms(1)] order_refl],
        of 4 "cc_store32_be (of_nat i)" salt] by (simp add: st_def)
  obtain hc' mac where f: "cchmac_final di ?u = (hc', mac)" by force
  let ?c = "hmac_digest hc'"
  let ?k = "hc'\<lparr>hmac_digest := ?c\<lparr>digest_data := mac @ drop (length mac) (digest_data ?c)\<rparr>\<rparr>"
  note k = hmac_final_into_data [OF a f]
  have u: "take (di_output_size di) (digest_data (hmac_digest ?k)) = pbkdf2_U di pw salt i (Suc 0)" using k(3) by simp
  have t: "take n (digest_data (hmac_digest ?k)) = take n (pbkdf2_T di pw salt i 0)"
    using assms(2) by (simp add: k(1))
  have "?u = hc\<lparr>hmac_digest := ccdigest_update di (ccdigest_update di (hmac_digest ?h) (length salt) salt) 4 (cc_store32_be (of_nat i))\<rparr>"
    by (simp add: cchmac_update_def)
  then have "pbkdf2_F di hc st (length salt) salt count i n =
      pbkdf2_loop di st n count (0 + 2) ?k (take n (digest_data (hmac_digest ?k)))"
    using f by (simp add: pbkdf2_F_def Let_def numeral_2_eq_2 del: take_append)
  with pbkdf2_loop_eq [OF assms(2) k(2) u t, of count] st_def
  show "hmac_keyed di pw (fst (pbkdf2_F di hc st (length salt) salt count i n))"
    "snd (pbkdf2_F di hc st (length salt) salt count i n) = take n (pbkdf2_T di pw salt i (count - 1))" by simp_all
qed

lemma pbkdf2_blocks_eq:
  fixes pw salt :: bytes
  defines "st \<equiv> di_compress di (di_initial_state di) 1 (hmac_pad di 0x36 pw)"
  shows "hmac_keyed di pw hc \<Longrightarrow>
    hmac_keyed di pw (fst (pbkdf2_blocks di st (length salt) salt count n i hc)) \<and>
    snd (pbkdf2_blocks di st (length salt) salt count n i hc) =
      concat (map (\<lambda>i. pbkdf2_T di pw salt i (count - 1)) [i..<Suc n])"
proof (induction "Suc n - i" arbitrary: i hc)
  case 0
  then show ?case by (subst (1 2) pbkdf2_blocks.simps) simp
next
  case (Suc d)
  obtain h data where f: "pbkdf2_F di hc st (length salt) salt count i (di_output_size di) = (h, data)" by force
  note F = pbkdf2_F_eq [OF Suc.prems order_refl, of salt count i, folded st_def, unfolded f, simplified]
  have i: "i \<le> n" "d = Suc n - Suc i" using Suc.hyps(2) by simp_all
  have data: "data = pbkdf2_T di pw salt i (count - 1)" using F(2) by (simp add: length_T)
  have "[i..<Suc n] = i # [Suc i..<Suc n]" using i(1) by (simp add: upt_conv_Cons)
  with Suc.hyps(1) [OF i(2) F(1)] i(1) f data show ?case
    by (subst (1 2) pbkdf2_blocks.simps) (simp add: case_prod_beta del: upt_Suc)
qed

lemma ccpbkdf2_hmac_value:
  assumes "length (digest_data (hmac_digest hc)) = di_block_size di"
  shows "ccpbkdf2_hmac di hc (length pw) pw (length salt) salt count dkLen =
    (if 0xffffffff < dkLen div di_output_size di then Inl (- 1)
     else Inr (take dkLen (concat (map (\<lambda>i. pbkdf2_T di pw salt i (count - 1)) [1..<Suc (Suc (dkLen div di_output_size di))]))))"
proof -
  let ?h = "di_output_size di" and ?q = "dkLen div di_output_size di" and ?r = "dkLen mod di_output_size di"
  let ?st = "di_compress di (di_initial_state di) 1 (hmac_pad di 0x36 pw)" and ?T = "\<lambda>i. pbkdf2_T di pw salt i (count - 1)"
  let ?hc = "cchmac_init di hc (length pw) pw"
  note init = hmac_keyed_init [OF assms, of pw]
  obtain h dk where b: "pbkdf2_blocks di ?st (length salt) salt count ?q 1 ?hc = (h, dk)" by force
  note B = pbkdf2_blocks_eq [OF init(1), of salt count ?q 1, unfolded b, simplified]
  have kh: "hmac_keyed di pw h" and dk: "dk = concat (map ?T [1..<Suc ?q])" using B by simp_all
  have len: "length (concat (map ?T [1..<Suc q])) = q * ?h" for q by (induction q) (simp_all add: length_T)
  have "dk @ take ?r (?T (Suc ?q)) = take dkLen (concat (map ?T [1..<Suc (Suc ?q)]))"
  proof -
    have l: "length dk = ?q * ?h" unfolding dk by (rule len)
    have "concat (map ?T [1..<Suc (Suc ?q)]) = dk @ ?T (Suc ?q)" by (simp add: dk)
    moreover have "take dkLen dk = dk" using l by simp
    moreover have "dkLen - length dk = ?r" unfolding l by (rule minus_div_mult_eq_mod)
    ultimately show ?thesis by (simp only: take_append)
  qed
  moreover have "snd (pbkdf2_F di h ?st (length salt) salt count (?q + 1) ?r) = take ?r (?T (Suc ?q))"
    using pbkdf2_F_eq(2) [OF kh, of ?r salt count "?q + 1"] output_pos by (simp add: less_imp_le)
  ultimately show ?thesis
    using init(2) b
    by (cases "?r = 0") (simp_all add: ccpbkdf2_hmac_def Let_def case_prod_beta del: upt_Suc take_append)
qed

end

text \<open>
  The comment before the test asks for at most \<open>2 ^ 32 - 1\<close> blocks; the test, on the quotient rounded down, lets through
  nearly one more, whose number is cut to 32 bits.
\<close>

lemma pbkdf2_number_wraps: "pbkdf2_T di pw salt (2 ^ 32) j = pbkdf2_T di pw salt 0 j"
proof -
  have "of_nat (2 ^ 32) = (of_nat 0 :: u32)" by simp
  then have "pbkdf2_U di pw salt (2 ^ 32) j = pbkdf2_U di pw salt 0 j" for j
    by (induction j) (simp_all only: pbkdf2_U.simps)
  then show ?thesis by (induction j) (simp_all only: pbkdf2_T.simps)
qed

end
