(* ===== verification/Ccansikdf.thy ===== *)
theory Ccansikdf
  imports Cckdf
begin

text \<open>
  The ANSI X9.63 key derivation function of \<open>ccansikdf_x963.c\<close>: one digest context per output block, all
  fed together.  The context array has as many entries as the length asks for; reading past it
  is the result \<open>None\<close>.
\<close>

record 's ccansikdf_x963_ctx =
  x963_klen :: nat
  x963_dis :: "'s ccdigest_ctx list"

definition ccansikdf_x963_init ::
  "'s ccdigest_info \<Rightarrow> 's ccansikdf_x963_ctx \<Rightarrow> nat \<Rightarrow> nat \<Rightarrow> bytes \<Rightarrow> int \<times> 's ccansikdf_x963_ctx" where
  "ccansikdf_x963_init di ctx key_len Z_len Z =
     (let r = cc_ceiling key_len (di_output_size di);
          ctx = ctx\<lparr>x963_klen := key_len\<rparr>
      in if r \<ge> 0xffffffff then (CCERR_PARAMETER, ctx)
         else (0, ctx\<lparr>x963_dis := foldl (\<lambda>dis i.
                let dictx = ccdigest_init di (dis ! (i - 1));
                    dictx = ccdigest_update di dictx Z_len Z;
                    dictx = ccdigest_update di dictx 4 (cc_store32_be (of_nat i))
                in dis[i - 1 := dictx]) (x963_dis ctx) [1..<Suc r]\<rparr>))"

definition ccansikdf_x963_update ::
  "'s ccdigest_info \<Rightarrow> 's ccansikdf_x963_ctx \<Rightarrow> nat \<Rightarrow> bytes option \<Rightarrow> 's ccansikdf_x963_ctx" where
  "ccansikdf_x963_update di ctx len data =
     (let r = cc_ceiling (x963_klen ctx) (di_output_size di)
      in case data of
           None \<Rightarrow> ctx
         | Some data \<Rightarrow>
             if len = 0 then ctx
             else ctx\<lparr>x963_dis := foldl (\<lambda>dis i. dis[i := ccdigest_update di (dis ! i) len data]) (x963_dis ctx) [0..<r]\<rparr>)"

function x963_final_loop :: "'s ccdigest_info \<Rightarrow> 's ccdigest_ctx list \<Rightarrow> nat \<Rightarrow> nat \<Rightarrow> bytes option" where
  "x963_final_loop di dis r i =
     (if i < r
      then if i < length dis
           then let (dictx, out) = ccdigest_final di (dis ! i)
                in map_option (\<lambda>rest. out @ rest) (x963_final_loop di (dis[i := dictx]) r (i + 1))
           else None
      else Some [])"
  by pat_completeness auto
termination by (relation "measure (\<lambda>(di, dis, r, i). r - i)") auto

declare x963_final_loop.simps [simp del]

text \<open>\<open>r\<close> is a \<open>size_t\<close>: for a length of zero it wraps around.\<close>

definition ccansikdf_x963_final :: "'s ccdigest_info \<Rightarrow> 's ccansikdf_x963_ctx \<Rightarrow> bytes option" where
  "ccansikdf_x963_final di ctx =
     (let r = unat (of_nat (cc_ceiling (x963_klen ctx) (di_output_size di)) - 1 :: cc_unit)
      in case x963_final_loop di (x963_dis ctx) r 0 of
           None \<Rightarrow> None
         | Some out \<Rightarrow>
             if r < length (x963_dis ctx)
             then let (dictx, digest) = ccdigest_final di (x963_dis ctx ! r)
                  in Some (out @ take (x963_klen ctx - r * di_output_size di) digest)
             else None)"

text \<open>The whole function; the stack context has the entries \<open>ccansikdf_x963_ctx_decl\<close> gives it.\<close>

definition ccansikdf_x963 ::
  "'s ccdigest_info \<Rightarrow> 's ccdigest_ctx list \<Rightarrow> nat \<Rightarrow> bytes \<Rightarrow> nat \<Rightarrow> bytes option \<Rightarrow> nat \<Rightarrow> int \<times> bytes option" where
  "ccansikdf_x963 di stack Z_len Z sharedinfo_byte_len sharedinfo key_len =
     (let (rv, ctx) = ccansikdf_x963_init di \<lparr>x963_klen = 0, x963_dis = stack\<rparr> key_len Z_len Z
      in if rv \<noteq> 0 then (rv, Some [])
         else let ctx = ccansikdf_x963_update di ctx sharedinfo_byte_len sharedinfo
              in (rv, ccansikdf_x963_final di ctx))"

definition x963_block :: "'s ccdigest_info \<Rightarrow> bytes \<Rightarrow> bytes \<Rightarrow> nat \<Rightarrow> bytes" where
  "x963_block di Z info i = digest_value di (Z @ cc_store32_be (of_nat (i + 1)) @ info)"

lemma foldl_update_from:
  "k + n \<le> length xs \<Longrightarrow>
   foldl (\<lambda>ys i. ys[i - k' := f i (ys ! (i - k'))]) xs [k + k'..<k + k' + n] =
     take k xs @ map (\<lambda>i. f (i + k') (xs ! i)) [k..<k + n] @ drop (k + n) xs"
proof (induction n)
  case (Suc n)
  then have "k + n < length xs" by simp
  then have "drop (k + n) xs = xs ! (k + n) # drop (Suc (k + n)) xs" by (simp add: Cons_nth_drop_Suc)
  then show ?case using Suc by (simp add: nth_append list_update_append add.commute add.left_commute)
qed simp

lemma foldl_update_all:
  assumes "n = length xs"
  shows "foldl (\<lambda>ys i. ys[i := f i (ys ! i)]) xs [0..<n] = map (\<lambda>i. f i (xs ! i)) [0..<n]"
    "foldl (\<lambda>ys i. ys[i - 1 := f i (ys ! (i - 1))]) xs [1..<Suc n] = map (\<lambda>i. f (i + 1) (xs ! i)) [0..<n]"
  using foldl_update_from [of 0 n xs 0 f] foldl_update_from [of 0 n xs 1 f] assms by simp_all

context digest
begin

lemma final_loop_eq:
  "(\<And>j. j < length dis \<Longrightarrow> absorbed (dis ! j) (m j)) \<Longrightarrow> r \<le> length dis \<Longrightarrow>
   x963_final_loop di dis r i = Some (concat (map (\<lambda>j. digest_value di (m j)) [i..<r]))"
proof (induction "r - i" arbitrary: dis i)
  case 0
  then show ?case by (subst x963_final_loop.simps) simp
next
  case (Suc d)
  then have i: "i < r" "i < length dis" "d = r - (i + 1)" by simp_all
  have "ccdigest_final di (dis ! i) = (dis ! i, digest_value di (m i))" by (rule final_absorbed [OF Suc.prems(1) [OF i(2)]])
  moreover have "x963_final_loop di dis r (i + 1) = Some (concat (map (\<lambda>j. digest_value di (m j)) [i + 1..<r]))"
    by (rule Suc.hyps(1) [OF i(3) Suc.prems])
  ultimately show ?case using i by (subst x963_final_loop.simps) (simp add: upt_conv_Cons)
qed

lemma ccansikdf_x963_value:
  fixes sharedinfo :: "bytes option"
  assumes "length stack = cc_ceiling key_len (di_output_size di)"
    "\<And>c. c \<in> set stack \<Longrightarrow> length (digest_data c) = di_block_size di" "cc_ceiling key_len (di_output_size di) < 0xffffffff" "0 < key_len"
    "key_len + (di_output_size di - 1) < 2 ^ 64"
  defines "info \<equiv> (case sharedinfo of None \<Rightarrow> [] | Some s \<Rightarrow> s)"
  shows "ccansikdf_x963 di stack (length Z) Z (length info) sharedinfo key_len =
      (0, Some (take key_len (concat (map (x963_block di Z info) [0..<cc_ceiling key_len (di_output_size di)]))))"
proof -
  let ?h = "di_output_size di"
  let ?r = "cc_ceiling key_len ?h"
  let ?d1 = "map (\<lambda>i. ccdigest_update di (ccdigest_update di (ccdigest_init di (stack ! i)) (length Z) Z) 4
      (cc_store32_be (of_nat (i + 1)))) [0..<?r]"
  let ?m = "\<lambda>i. Z @ cc_store32_be (of_nat (i + 1))"
  have init: "ccansikdf_x963_init di \<lparr>x963_klen = 0, x963_dis = stack\<rparr> key_len (length Z) Z =
      (0, \<lparr>x963_klen = key_len, x963_dis = ?d1\<rparr>)"
    using foldl_update_all(2) [OF assms(1) [symmetric], of "\<lambda>i c. ccdigest_update di
        (ccdigest_update di (ccdigest_init di c) (length Z) Z) 4 (cc_store32_be (of_nat i))"] assms(3)
    by (simp add: ccansikdf_x963_init_def Let_def del: upt_Suc)
  have a1: "absorbed (?d1 ! i) (?m i)" if "i < ?r" for i
  proof -
    have "length (digest_data (stack ! i)) = di_block_size di" using assms(1,2) that by simp
    from update_absorbed [OF update_absorbed [OF absorbed_init [OF this] order_refl, of Z],
        of 4 "cc_store32_be (of_nat (i + 1))"] that show ?thesis by simp
  qed
  let ?d2 = "if info = [] then ?d1 else map (\<lambda>i. ccdigest_update di (?d1 ! i) (length info) info) [0..<?r]"
  have upd: "ccansikdf_x963_update di \<lparr>x963_klen = key_len, x963_dis = ?d1\<rparr> (length info) sharedinfo =
      \<lparr>x963_klen = key_len, x963_dis = ?d2\<rparr>"
    using foldl_update_all(1) [of ?r ?d1 "\<lambda>i c. ccdigest_update di c (length info) info"]
    by (cases sharedinfo) (simp_all add: ccansikdf_x963_update_def info_def Let_def)
  have a2: "absorbed (?d2 ! i) (?m i @ info)" if "i < ?r" for i
    using update_absorbed [OF a1 [OF that] order_refl, of info] a1 [OF that] that by auto
  have all: "ccansikdf_x963 di stack (length Z) Z (length info) sharedinfo key_len =
      (0, ccansikdf_x963_final di \<lparr>x963_klen = key_len, x963_dis = ?d2\<rparr>)"
    by (simp only: ccansikdf_x963_def init prod.case Let_def upd if_False not_True_eq_False simp_thms)
  note b = cc_ceiling_bounds [OF output_pos assms(4,5)]
  have "of_nat ?r - 1 = (of_nat (?r - 1) :: cc_unit)" using b(1) by (simp add: of_nat_diff)
  then have r: "unat (of_nat ?r - 1 :: cc_unit) = ?r - 1" using assms(3) by (simp add: unat_of_nat)
  have l2: "length ?d2 = ?r" by simp
  have "x963_final_loop di ?d2 (?r - 1) 0 = Some (concat (map (\<lambda>j. digest_value di (?m j @ info)) [0..<?r - 1]))"
    by (rule final_loop_eq) (use a2 l2 in auto)
  moreover have "ccdigest_final di (?d2 ! (?r - 1)) = (?d2 ! (?r - 1), digest_value di (?m (?r - 1) @ info))"
    by (rule final_absorbed [OF a2]) (use b(1) in simp)
  moreover have "?r - 1 < length ?d2" using b(1) l2 by simp
  ultimately have f: "ccansikdf_x963_final di \<lparr>x963_klen = key_len, x963_dis = ?d2\<rparr> =
      Some (concat (map (x963_block di Z info) [0..<?r - 1]) @ take (key_len - (?r - 1) * ?h) (x963_block di Z info (?r - 1)))"
    unfolding ccansikdf_x963_final_def ccansikdf_x963_ctx.simps r Let_def x963_block_def by (simp only: option.case prod.case if_True append_assoc)
  have lc: "length (concat (map (x963_block di Z info) [0..<k])) = k * ?h" for k
    by (induction k) (simp_all add: x963_block_def)
  have "[0..<?r] = [0..<?r - 1] @ [?r - 1]" using b(1) by (metis Suc_pred' upt_Suc_append zero_le)
  then have "take key_len (concat (map (x963_block di Z info) [0..<?r])) =
      concat (map (x963_block di Z info) [0..<?r - 1]) @ take (key_len - (?r - 1) * ?h) (x963_block di Z info (?r - 1))"
    using b(2) lc [of "?r - 1"] by simp
  then show ?thesis by (simp only: all f)
qed

text \<open>A length of zero: there is no entry, and the wrapped count runs past the array.\<close>

lemma ccansikdf_x963_zero: "ccansikdf_x963 di [] Z_len Z len sharedinfo 0 = (0, None)"
proof -
  have c0: "cc_ceiling 0 (di_output_size di) = 0" using output_pos by simp
  have "x963_final_loop di [] (unat (- 1 :: cc_unit)) 0 = None"
    by (subst x963_final_loop.simps) (simp add: unsigned_minus_1_eq_mask mask_eq_exp_minus_1)
  then show ?thesis
    by (cases sharedinfo) (simp_all add: ccansikdf_x963_def ccansikdf_x963_init_def ccansikdf_x963_update_def
        ccansikdf_x963_final_def Let_def c0)
qed

end

end
