(* ===== verification/Ccnistkdf.thy ===== *)
theory Ccnistkdf
  imports Cckdf
begin

text \<open>
  The counter and feedback modes of SP 800-108 over HMAC (\<open>ccnistkdf_ctr_hmac.c\<close>,
  \<open>ccnistkdf_fb_hmac.c\<close>, \<open>ccnistkdf_priv.h\<close>).  A null pointer is \<open>None\<close>; the output pointer is not null.
\<close>

definition cchmac_reset_from_cache :: "'s ccdigest_info \<Rightarrow> 's cchmac_ctx \<Rightarrow> 's \<Rightarrow> 's cchmac_ctx" where
  "cchmac_reset_from_cache di hc cache =
     hc\<lparr>hmac_digest := (hmac_digest hc)\<lparr>digest_state := cache, digest_nbits := of_nat (di_block_size di * 8), digest_num := 0\<rparr>\<rparr>"

definition ccdigest_update_uint32_t :: "'s ccdigest_info \<Rightarrow> 's ccdigest_ctx \<Rightarrow> u32 \<Rightarrow> 's ccdigest_ctx" where
  "ccdigest_update_uint32_t di ctx n = ccdigest_update di ctx 4 (cc_store32_be n)"

text \<open>
  The fixed input data.  In case of an error nothing is written to the buffer.
\<close>

definition construct_fixed_data ::
  "nat \<Rightarrow> bytes option \<Rightarrow> nat \<Rightarrow> bytes option \<Rightarrow> nat \<Rightarrow> nat \<Rightarrow> bytes \<Rightarrow> int \<times> bytes" where
  "construct_fixed_data label_nbytes label context_nbytes context' dk_nbytes dk_len_nbytes fixedData =
     (if dk_nbytes * 8 mod 2 ^ 64 > 2 ^ (dk_len_nbytes * 8) - 1 \<or> dk_len_nbytes > 4 then (CCERR_PARAMETER, fixedData)
      else let fixedData = (case label of None \<Rightarrow> fixedData
                 | Some label \<Rightarrow> take label_nbytes label @ drop label_nbytes fixedData);
               fixedData = fixedData[label_nbytes := 0];
               fixedData = (case context' of None \<Rightarrow> fixedData
                 | Some c \<Rightarrow> take (label_nbytes + 1) fixedData @ take context_nbytes c @
                     drop (label_nbytes + 1 + context_nbytes) fixedData);
               be_dk_len = drop (4 - dk_len_nbytes) (cc_store32_be (of_nat dk_nbytes * 8))
           in (0, take (label_nbytes + context_nbytes + 1) fixedData @ be_dk_len @
                  drop (label_nbytes + context_nbytes + 1 + dk_len_nbytes) fixedData))"

section \<open>Counter mode\<close>

definition ctr_F :: "'s ccdigest_info \<Rightarrow> 's cchmac_ctx \<Rightarrow> 's \<Rightarrow> nat \<Rightarrow> nat \<Rightarrow> bytes \<Rightarrow> 's cchmac_ctx \<times> bytes" where
  "ctr_F di hc istate counter fixedDataLen fixedData =
     (let hc = cchmac_reset_from_cache di hc istate;
          hc = hc\<lparr>hmac_digest := ccdigest_update_uint32_t di (hmac_digest hc) (of_nat counter)\<rparr>;
          hc = hc\<lparr>hmac_digest := ccdigest_update di (hmac_digest hc) fixedDataLen fixedData\<rparr>
      in cchmac_final di hc)"

fun ctr_blocks :: "'s ccdigest_info \<Rightarrow> 's \<Rightarrow> nat \<Rightarrow> bytes \<Rightarrow> nat list \<Rightarrow> 's cchmac_ctx \<Rightarrow> 's cchmac_ctx \<times> bytes" where
  "ctr_blocks di istate fixedDataLen fixedData [] hc = (hc, [])"
| "ctr_blocks di istate fixedDataLen fixedData (i # is) hc =
     (let (hc, result) = ctr_F di hc istate i fixedDataLen fixedData;
          (hc, rest) = ctr_blocks di istate fixedDataLen fixedData is hc
      in (hc, result @ rest))"

definition ccnistkdf_ctr_hmac_fixed ::
  "'s ccdigest_info \<Rightarrow> 's cchmac_ctx \<Rightarrow> nat \<Rightarrow> bytes option \<Rightarrow> nat \<Rightarrow> bytes \<Rightarrow> nat \<Rightarrow> int + bytes" where
  "ccnistkdf_ctr_hmac_fixed di hc kdkLen kdk fixedDataLen fixedData dkLen =
     (if dkLen = 0 then Inl CCERR_PARAMETER
      else let h = di_output_size di;
               completeBlocks = dkLen div h;
               partialBlock_nbytes = dkLen mod h;
               evaluatedBlocks = (if partialBlock_nbytes > 0 then completeBlocks + 1 else completeBlocks)
           in if evaluatedBlocks > 0xffffffff then Inl CCERR_PARAMETER
              else if kdkLen = 0 then Inl CCERR_PARAMETER
              else case kdk of
                     None \<Rightarrow> Inl CCERR_PARAMETER
                   | Some kdk \<Rightarrow>
                       let hc = cchmac_init di hc kdkLen kdk;
                           istate = digest_state (hmac_digest hc);
                           (hc, result) = ctr_blocks di istate fixedDataLen fixedData [1..<Suc completeBlocks] hc
                       in if partialBlock_nbytes > 0
                          then let (hc, lastBlockBuf) = ctr_F di hc istate evaluatedBlocks fixedDataLen fixedData
                               in Inr (result @ take partialBlock_nbytes lastBlockBuf)
                          else Inr result)"

definition ccnistkdf_ctr_hmac ::
  "'s ccdigest_info \<Rightarrow> 's cchmac_ctx \<Rightarrow> bytes \<Rightarrow> nat \<Rightarrow> bytes option \<Rightarrow> nat \<Rightarrow> bytes option \<Rightarrow> nat \<Rightarrow> bytes option \<Rightarrow>
   nat \<Rightarrow> int + bytes" where
  "ccnistkdf_ctr_hmac di hc stack kdkLen kdk labelLen label contextLen context' dkLen =
     (let fixedDataLen = labelLen + contextLen + 5;
          (rv, fixedData) = construct_fixed_data labelLen label contextLen context' dkLen 4 stack
      in ccnistkdf_ctr_hmac_fixed di hc kdkLen kdk fixedDataLen fixedData dkLen)"

section \<open>Feedback mode\<close>

definition fb_F ::
  "'s ccdigest_info \<Rightarrow> 's cchmac_ctx \<Rightarrow> 's \<Rightarrow> nat \<Rightarrow> bytes \<Rightarrow> nat \<Rightarrow> nat \<Rightarrow> bytes \<Rightarrow> 's cchmac_ctx \<times> bytes" where
  "fb_F di hc istate ivLen iv counter fixedDataLen fixedData =
     (let hc = cchmac_reset_from_cache di hc istate;
          hc = hc\<lparr>hmac_digest := ccdigest_update di (hmac_digest hc) ivLen iv\<rparr>;
          hc = (if counter \<noteq> 0 then hc\<lparr>hmac_digest := ccdigest_update_uint32_t di (hmac_digest hc) (of_nat counter)\<rparr> else hc);
          hc = hc\<lparr>hmac_digest := ccdigest_update di (hmac_digest hc) fixedDataLen fixedData\<rparr>
      in cchmac_final di hc)"

fun fb_blocks ::
  "'s ccdigest_info \<Rightarrow> 's \<Rightarrow> nat \<Rightarrow> nat \<Rightarrow> bytes \<Rightarrow> nat list \<Rightarrow> 's cchmac_ctx \<Rightarrow> nat \<Rightarrow> bytes \<Rightarrow>
   's cchmac_ctx \<times> nat \<times> bytes \<times> bytes" where
  "fb_blocks di istate use_counter fixedDataLen fixedData [] hc iv_len iv = (hc, iv_len, iv, [])"
| "fb_blocks di istate use_counter fixedDataLen fixedData (i # is) hc iv_len iv =
     (let (hc, result) = fb_F di hc istate iv_len iv (i * use_counter) fixedDataLen fixedData;
          (hc, iv_len, iv, rest) = fb_blocks di istate use_counter fixedDataLen fixedData is hc (di_output_size di) result
      in (hc, iv_len, iv, result @ rest))"

definition ccnistkdf_fb_hmac_fixed ::
  "'s ccdigest_info \<Rightarrow> 's cchmac_ctx \<Rightarrow> int \<Rightarrow> nat \<Rightarrow> bytes option \<Rightarrow> nat \<Rightarrow> bytes \<Rightarrow> nat \<Rightarrow> bytes \<Rightarrow> nat \<Rightarrow> int + bytes" where
  "ccnistkdf_fb_hmac_fixed di hc use_counter kdkLen kdk fixedDataLen fixedData ivLen iv dkLen =
     (if dkLen = 0 then Inl CCERR_PARAMETER
      else let h = di_output_size di;
               completeBlocks = dkLen div h;
               partialBlock_nbytes = dkLen mod h;
               evaluatedBlocks = (if partialBlock_nbytes > 0 then completeBlocks + 1 else completeBlocks)
           in if evaluatedBlocks > 0xffffffff then Inl CCERR_PARAMETER
              else if kdkLen = 0 then Inl CCERR_PARAMETER
              else case kdk of
                     None \<Rightarrow> Inl CCERR_PARAMETER
                   | Some kdk \<Rightarrow>
                       let use_counter = (if use_counter \<noteq> 0 then 1 else 0);
                           hc = cchmac_init di hc kdkLen kdk;
                           istate = digest_state (hmac_digest hc);
                           (hc, iv_len, iv, result) =
                             fb_blocks di istate use_counter fixedDataLen fixedData [1..<Suc completeBlocks] hc ivLen iv
                       in if partialBlock_nbytes > 0
                          then let (hc, lastBlockBuf) =
                                 fb_F di hc istate iv_len iv (evaluatedBlocks * use_counter) fixedDataLen fixedData
                               in Inr (result @ take partialBlock_nbytes lastBlockBuf)
                          else Inr result)"

definition ccnistkdf_fb_hmac ::
  "'s ccdigest_info \<Rightarrow> 's cchmac_ctx \<Rightarrow> bytes \<Rightarrow> int \<Rightarrow> nat \<Rightarrow> bytes option \<Rightarrow> nat \<Rightarrow> bytes option \<Rightarrow> nat \<Rightarrow> bytes option \<Rightarrow>
   nat \<Rightarrow> bytes \<Rightarrow> nat \<Rightarrow> int + bytes" where
  "ccnistkdf_fb_hmac di hc stack use_counter kdkLen kdk labelLen label contextLen context' ivLen iv dkLen =
     (let fixedDataLen = labelLen + contextLen + 5;
          (rv, fixedData) = construct_fixed_data labelLen label contextLen context' dkLen 4 stack
      in ccnistkdf_fb_hmac_fixed di hc use_counter kdkLen kdk fixedDataLen fixedData ivLen iv dkLen)"

section \<open>What they compute\<close>

text \<open>SP 800-108: the PRF applied to counter or previous block, and the fixed data.\<close>

definition ctr_K :: "'s ccdigest_info \<Rightarrow> bytes \<Rightarrow> bytes \<Rightarrow> nat \<Rightarrow> bytes" where
  "ctr_K di key fixed i = hmac_value di key (cc_store32_be (of_nat i) @ fixed)"

fun fb_K :: "'s ccdigest_info \<Rightarrow> bytes \<Rightarrow> bool \<Rightarrow> bytes \<Rightarrow> bytes \<Rightarrow> nat \<Rightarrow> bytes" where
  "fb_K di key counted iv fixed 0 = iv"
| "fb_K di key counted iv fixed (Suc i) = hmac_value di key (fb_K di key counted iv fixed i @
     (if counted then cc_store32_be (of_nat (Suc i)) else []) @ fixed)"

definition fixed_data :: "bytes \<Rightarrow> bytes \<Rightarrow> nat \<Rightarrow> bytes" where
  "fixed_data label context' dkLen = label @ [0] @ context' @ cc_store32_be (of_nat (dkLen * 8))"

lemma construct_fixed_data_ok:
  assumes "dkLen * 8 < 2 ^ 32" "length stack = length label + length context' + 5"
  shows "construct_fixed_data (length label) (Some label) (length context') (Some context') dkLen 4 stack =
    (0, fixed_data label context' dkLen)"
proof -
  have "(label @ drop (length label) stack)[length label := 0] = label @ 0 # drop (length label + 1) stack"
  proof -
    have "drop (length label) stack = stack ! length label # drop (length label + 1) stack"
      using assms(2) by (simp add: Cons_nth_drop_Suc)
    then show ?thesis by simp
  qed
  then show ?thesis using assms by (simp add: construct_fixed_data_def fixed_data_def Let_def mult.commute)
qed

lemma construct_fixed_data_too_long:
  "2 ^ 32 \<le> dkLen * 8 \<Longrightarrow> dkLen < 2 ^ 61 \<Longrightarrow> construct_fixed_data l label c context' dkLen 4 stack = (CCERR_PARAMETER, stack)"
  by (simp add: construct_fixed_data_def)

text \<open>The prefix of a sequence of blocks, cut off after so many bytes.\<close>

lemma take_blocks:
  assumes "\<And>i. 0 < i \<Longrightarrow> length (f i) = h" "0 < h"
  shows "concat (map f [1..<Suc (n div h)]) @ (if 0 < n mod h then take (n mod h) (f (Suc (n div h))) else []) =
    take n (concat (map f [1..<Suc (Suc (n div h))]))"
proof -
  let ?a = "concat (map f [1..<Suc (n div h)])"
  have l: "length (concat (map f [1..<Suc q])) = q * h" for q by (induction q) (simp_all add: assms(1))
  have a: "length ?a = n div h * h" by (rule l)
  have "concat (map f [1..<Suc (Suc (n div h))]) = ?a @ f (Suc (n div h))" by simp
  moreover have "take n ?a = ?a" using a by simp
  moreover have "n - length ?a = n mod h" unfolding a by (rule minus_div_mult_eq_mod)
  ultimately show ?thesis by (simp only: take_append) simp
qed

text \<open>The bound on the number of blocks, as a bound on the length.\<close>

lemma evaluated_blocks:
  fixes h n :: nat
  assumes "0 < h"
  shows "(if n mod h > 0 then n div h + 1 else n div h) > 0xffffffff \<longleftrightarrow> 0xffffffff * h < n" (is "?e > _ \<longleftrightarrow> _")
proof -
  let ?q = "n div h" and ?r = "n mod h"
  have d: "n = ?q * h + ?r" "?r < h" using assms by simp_all
  show ?thesis
  proof
    assume "?e > 0xffffffff"
    then have "0xffffffff < ?q \<or> 0xffffffff = ?q \<and> 0 < ?r" by (auto split: if_splits)
    then show "0xffffffff * h < n"
    proof
      assume "0xffffffff < ?q"
      then have "0xffffffff * h < ?q * h" using assms by (simp only: mult_less_mono1)
      then show ?thesis using d(1) by linarith
    next
      assume "0xffffffff = ?q \<and> 0 < ?r"
      then show ?thesis using d(1) by (metis less_add_same_cancel1)
    qed
  next
    assume l: "0xffffffff * h < n"
    then have "0xffffffff \<le> ?q" using assms by (simp add: less_eq_div_iff_mult_less_eq)
    moreover have "?q \<noteq> 0xffffffff \<or> 0 < ?r" using l d(1) by (metis add_0_right gr0I less_irrefl)
    ultimately show "?e > 0xffffffff" by auto
  qed
qed

context digest
begin

lemma hmac_reset_cache:
  assumes "hmac_keyed di key hc"
  shows "hmac_absorbed di key (cchmac_reset_from_cache di hc (di_compress di (di_initial_state di) 1 (hmac_pad di 0x36 key))) []"
  using hmac_reset(1) [OF assms] by (simp add: cchmac_reset_from_cache_def)

lemma hmac_update_part:
  "hmac_absorbed di key hc msg \<Longrightarrow> hmac_absorbed di key (hc\<lparr>hmac_digest := ccdigest_update di (hmac_digest hc) (length bs) bs\<rparr>) (msg @ bs)"
  using cchmac_update_absorbed [of key hc msg "length bs" bs] by (simp add: cchmac_update_def)

lemma hmac_final_keyed:
  assumes "hmac_absorbed di key hc msg"
  shows "hmac_keyed di key (fst (cchmac_final di hc))" "snd (cchmac_final di hc) = hmac_value di key msg"
  using cchmac_final_absorbed [OF assms] assms by (simp_all add: hmac_keyed_def hmac_absorbed_def)

lemma ctr_F_eq:
  assumes "hmac_keyed di key hc"
  defines "st \<equiv> di_compress di (di_initial_state di) 1 (hmac_pad di 0x36 key)"
  shows "hmac_keyed di key (fst (ctr_F di hc st i (length fixed) fixed))"
    "snd (ctr_F di hc st i (length fixed) fixed) = ctr_K di key fixed i"
proof -
  note a = hmac_update_part [OF hmac_update_part [OF hmac_reset_cache [OF assms(1)], of "cc_store32_be (of_nat i)"], of fixed]
  show "hmac_keyed di key (fst (ctr_F di hc st i (length fixed) fixed))"
    "snd (ctr_F di hc st i (length fixed) fixed) = ctr_K di key fixed i"
    using hmac_final_keyed [OF a]
    by (simp_all add: ctr_F_def st_def ccdigest_update_uint32_t_def ctr_K_def Let_def)
qed

lemma ctr_blocks_eq:
  fixes key :: bytes
  defines "st \<equiv> di_compress di (di_initial_state di) 1 (hmac_pad di 0x36 key)"
  shows "hmac_keyed di key hc \<Longrightarrow> hmac_keyed di key (fst (ctr_blocks di st (length fixed) fixed is hc)) \<and>
    snd (ctr_blocks di st (length fixed) fixed is hc) = concat (map (ctr_K di key fixed) is)"
proof (induction "is" arbitrary: hc)
  case (Cons i "is")
  note F = ctr_F_eq [OF Cons.prems, of i fixed, folded st_def]
  from Cons.IH [OF F(1)] F(2) show ?case by (simp add: case_prod_beta)
qed simp

lemma ctr_hmac_fixed_value:
  assumes "length (digest_data (hmac_digest hc)) = di_block_size di" "key \<noteq> []"
  shows "ccnistkdf_ctr_hmac_fixed di hc (length key) (Some key) (length fixed) fixed dkLen =
    (if dkLen = 0 \<or> 0xffffffff * di_output_size di < dkLen then Inl CCERR_PARAMETER
     else Inr (take dkLen (concat (map (ctr_K di key fixed) [1..<Suc (Suc (dkLen div di_output_size di))]))))"
proof -
  let ?h = "di_output_size di" and ?q = "dkLen div di_output_size di" and ?r = "dkLen mod di_output_size di"
  let ?st = "di_compress di (di_initial_state di) 1 (hmac_pad di 0x36 key)"
  let ?hc = "cchmac_init di hc (length key) key"
  note init = hmac_keyed_init [OF assms(1), of key]
  obtain h dk where b: "ctr_blocks di ?st (length fixed) fixed [1..<Suc ?q] ?hc = (h, dk)" by force
  note B = ctr_blocks_eq [OF init(1), of fixed "[1..<Suc ?q]", unfolded b fst_conv snd_conv]
  have s: "snd (ctr_F di h ?st (Suc ?q) (length fixed) fixed) = ctr_K di key fixed (Suc ?q)"
    using ctr_F_eq(2) [of key h] B by blast
  note ev = evaluated_blocks [OF output_pos, of dkLen]
  have "0 < i \<Longrightarrow> length (ctr_K di key fixed i) = ?h" for i by (simp add: ctr_K_def)
  from take_blocks [OF this output_pos, where n = dkLen] B have t:
    "dk @ (if 0 < ?r then take ?r (ctr_K di key fixed (Suc ?q)) else []) =
      take dkLen (concat (map (ctr_K di key fixed) [1..<Suc (Suc ?q)]))" by (simp only:)
  show ?thesis
    using ev init(2) b s t assms(2)
    by (cases "?r = 0") (simp_all add: ccnistkdf_ctr_hmac_fixed_def Let_def case_prod_beta del: upt_Suc)
qed

lemma fb_F_eq:
  fixes key :: bytes
  assumes "hmac_keyed di key hc"
  defines "st \<equiv> di_compress di (di_initial_state di) 1 (hmac_pad di 0x36 key)"
  shows "hmac_keyed di key (fst (fb_F di hc st (length iv) iv c (length fixed) fixed))"
    "snd (fb_F di hc st (length iv) iv c (length fixed) fixed) =
      hmac_value di key (iv @ (if c \<noteq> 0 then cc_store32_be (of_nat c) else []) @ fixed)"
proof -
  let ?c = "if c \<noteq> 0 then cc_store32_be (of_nat c) else []"
  note b = hmac_update_part [OF hmac_reset_cache [OF assms(1)], of iv]
  note a = hmac_update_part [OF hmac_update_part [OF b, of "cc_store32_be (of_nat c)"], of fixed]
  note a' = hmac_update_part [OF b, of fixed]
  show "hmac_keyed di key (fst (fb_F di hc st (length iv) iv c (length fixed) fixed))"
    "snd (fb_F di hc st (length iv) iv c (length fixed) fixed) = hmac_value di key (iv @ ?c @ fixed)"
    using hmac_final_keyed [OF a] hmac_final_keyed [OF a']
    by (simp_all add: fb_F_def st_def ccdigest_update_uint32_t_def Let_def)
qed

lemma fb_blocks_eq:
  fixes key :: bytes
  defines "st \<equiv> di_compress di (di_initial_state di) 1 (hmac_pad di 0x36 key)"
  shows "hmac_keyed di key hc \<Longrightarrow>
    \<exists>hc'. fb_blocks di st (of_bool counted) (length fixed) fixed [Suc a..<Suc (a + n)] hc
        (length (fb_K di key counted iv fixed a)) (fb_K di key counted iv fixed a) =
      (hc', length (fb_K di key counted iv fixed (a + n)), fb_K di key counted iv fixed (a + n),
       concat (map (fb_K di key counted iv fixed) [Suc a..<Suc (a + n)])) \<and> hmac_keyed di key hc'"
proof (induction n arbitrary: a hc)
  case (Suc n)
  let ?K = "fb_K di key counted iv fixed"
  let ?F = "fb_F di hc st (length (?K a)) (?K a) (Suc a * of_bool counted) (length fixed) fixed"
  have F: "hmac_keyed di key (fst ?F)" "snd ?F = ?K (Suc a)"
    using fb_F_eq [OF Suc.prems, folded st_def, of "?K a" "Suc a * of_bool counted" fixed] by simp_all
  have l: "length (?K (Suc a)) = di_output_size di" by simp
  have u: "[Suc a..<Suc (a + Suc n)] = Suc a # [Suc (Suc a)..<Suc (Suc a + n)]" by (simp add: upt_conv_Cons del: upt_Suc)
  from Suc.IH [OF F(1), of "Suc a", unfolded l] F(2) show ?case
    unfolding u by (auto simp: case_prod_beta simp del: upt_Suc fb_K.simps)
qed simp

lemma fb_hmac_fixed_value:
  assumes "length (digest_data (hmac_digest hc)) = di_block_size di" "key \<noteq> []"
  shows "ccnistkdf_fb_hmac_fixed di hc use_counter (length key) (Some key) (length fixed) fixed (length iv) iv dkLen =
    (if dkLen = 0 \<or> 0xffffffff * di_output_size di < dkLen then Inl CCERR_PARAMETER
     else Inr (take dkLen (concat (map (fb_K di key (use_counter \<noteq> 0) iv fixed)
       [1..<Suc (Suc (dkLen div di_output_size di))]))))"
proof -
  let ?h = "di_output_size di" and ?q = "dkLen div di_output_size di" and ?r = "dkLen mod di_output_size di"
  let ?st = "di_compress di (di_initial_state di) 1 (hmac_pad di 0x36 key)"
  let ?hc = "cchmac_init di hc (length key) key" and ?K = "fb_K di key (use_counter \<noteq> 0) iv fixed"
  note init = hmac_keyed_init [OF assms(1), of key]
  obtain hc' where b: "fb_blocks di ?st (of_bool (use_counter \<noteq> 0)) (length fixed) fixed [1..<Suc ?q] ?hc (length iv) iv =
      (hc', length (?K ?q), ?K ?q, concat (map ?K [1..<Suc ?q]))" "hmac_keyed di key hc'"
    using fb_blocks_eq [OF init(1), of "use_counter \<noteq> 0" fixed 0 ?q iv] by (auto simp del: upt_Suc)
  have s: "snd (fb_F di hc' ?st (length (?K ?q)) (?K ?q) (Suc ?q * of_bool (use_counter \<noteq> 0)) (length fixed) fixed) = ?K (Suc ?q)"
    using fb_F_eq(2) [OF b(2), of "?K ?q" "Suc ?q * of_bool (use_counter \<noteq> 0)" fixed] by simp
  note ev = evaluated_blocks [OF output_pos, of dkLen]
  have "0 < i \<Longrightarrow> length (?K i) = ?h" for i by (cases i) simp_all
  from take_blocks [OF this output_pos, where n = dkLen]
  have t: "concat (map ?K [1..<Suc ?q]) @ (if 0 < ?r then take ?r (?K (Suc ?q)) else []) =
      take dkLen (concat (map ?K [1..<Suc (Suc ?q)]))" .
  have c: "(if use_counter \<noteq> 0 then 1 else 0) = (of_bool (use_counter \<noteq> 0) :: nat)" by simp
  show ?thesis
    using ev init(2) b(1) s t assms(2)
    by (cases "?r = 0")
      (simp_all only: ccnistkdf_fb_hmac_fixed_def Let_def case_prod_beta c, simp_all add: case_prod_beta del: upt_Suc fb_K.simps)
qed

text \<open>
  The whole calls.  The derived key of 512 MiB and more is too long for its length field; the code
  \<open>CCERR_PARAMETER\<close> of \<open>construct_fixed_data\<close> is dropped and the stack buffer is used as it is.
\<close>

lemma ctr_hmac_value:
  assumes "length (digest_data (hmac_digest hc)) = di_block_size di" "key \<noteq> []" "dkLen * 8 < 2 ^ 32"
    "length stack = length label + length context' + 5" "0 < dkLen"
  shows "ccnistkdf_ctr_hmac di hc stack (length key) (Some key) (length label) (Some label) (length context') (Some context') dkLen =
    Inr (take dkLen (concat (map (ctr_K di key (fixed_data label context' dkLen)) [1..<Suc (Suc (dkLen div di_output_size di))])))"
proof -
  let ?f = "fixed_data label context' dkLen"
  have "dkLen \<le> 0xffffffff * di_output_size di" using assms(3) output_pos by (simp add: order_trans [of _ "0xffffffff"])
  moreover have "length label + length context' + 5 = length ?f" by (simp add: fixed_data_def)
  ultimately show ?thesis
    using ctr_hmac_fixed_value [OF assms(1,2), of ?f dkLen] construct_fixed_data_ok [OF assms(3,4)] assms(5)
    by (simp add: ccnistkdf_ctr_hmac_def del: upt_Suc)
qed

lemma ctr_hmac_too_long:
  assumes "length (digest_data (hmac_digest hc)) = di_block_size di" "key \<noteq> []" "2 ^ 32 \<le> dkLen * 8" "dkLen \<le> 0xffffffff * di_output_size di"
    "dkLen < 2 ^ 61" "length stack = length label + length context' + 5"
  shows "ccnistkdf_ctr_hmac di hc stack (length key) (Some key) (length label) (Some label) (length context') (Some context') dkLen =
    Inr (take dkLen (concat (map (ctr_K di key stack) [1..<Suc (Suc (dkLen div di_output_size di))])))"
proof -
  have "0 < dkLen" using assms(3) by (cases dkLen) simp_all
  moreover have "construct_fixed_data (length label) (Some label) (length context') (Some context') dkLen 4 stack = (CCERR_PARAMETER, stack)"
    using construct_fixed_data_too_long assms(3,5) by simp
  ultimately show ?thesis
    using ctr_hmac_fixed_value [OF assms(1,2), of stack dkLen] assms(4,6)
    by (simp add: ccnistkdf_ctr_hmac_def add.assoc del: upt_Suc)
qed

end

end
