(* ===== verification/Ccmode_Ecb.thy ===== *)
theory Ccmode_Ecb
  imports Cc_Priv
begin

unbundle bit_operations_syntax

text \<open>
  The interface between a block cipher and the modes of operation: \<open>struct ccmode_ecb\<close> of
  \<open>ccmode_impl.h\<close>.  The locale \<open>block_cipher\<close> is what a mode relies on in one direction,
  \<open>block_cipher_pair\<close> adds that the decryption undoes the encryption under the same raw key.
\<close>

text \<open>
  The initialisation gets the key context as it is and returns it set up, or an error code and
  the context unchanged; \<open>ecb\<close> works on a number of whole blocks.
\<close>

record 'k ccmode_ecb =
  ecb_block_size :: nat
  ecb_init :: "'k \<Rightarrow> nat \<Rightarrow> bytes \<Rightarrow> int \<times> 'k"
  ecb_ecb :: "'k \<Rightarrow> nat \<Rightarrow> bytes \<Rightarrow> int \<times> bytes"

text \<open>\<open>while (nblocks--)\<close> over input and output, the loop of every block cipher.\<close>

fun ecb_blocks :: "nat \<Rightarrow> (bytes \<Rightarrow> bytes) \<Rightarrow> nat \<Rightarrow> bytes \<Rightarrow> bytes" where
  "ecb_blocks b f 0 data = []"
| "ecb_blocks b f (Suc n) data = f data @ ecb_blocks b f n (drop b data)"

lemma length_ecb_blocks: "(\<And>x. length (f x) = b) \<Longrightarrow> length (ecb_blocks b f n data) = n * b"
  by (induction n arbitrary: data) simp_all

lemma ecb_blocks_add:
  "(\<And>x. length (f x) = b) \<Longrightarrow> ecb_blocks b f (n + m) data = ecb_blocks b f n data @ ecb_blocks b f m (drop (n * b) data)"
  by (induction n arbitrary: data) (simp_all add: add.commute)

lemma ecb_blocks_take:
  "(\<And>x. f (take b x) = f x) \<Longrightarrow> ecb_blocks b f n (take (n * b) data) = ecb_blocks b f n data"
proof (induction n arbitrary: data)
  case (Suc n)
  have "f (take (Suc n * b) data) = f data"
    using Suc.prems [of "take (Suc n * b) data"] Suc.prems [of data] by (simp add: min_def)
  moreover have "drop b (take (Suc n * b) data) = take (n * b) (drop b data)" by (simp add: drop_take)
  ultimately show ?case using Suc.IH [OF Suc.prems] by simp
qed simp

text \<open>Undoing block by block.\<close>

lemma ecb_blocks_inverse:
  assumes "\<And>x. length x = b \<Longrightarrow> g (f x) = x" "\<And>x. length (f x) = b" "\<And>x. f (take b x) = f x" "\<And>x. g (take b x) = g x"
  shows "n * b \<le> length data \<Longrightarrow> ecb_blocks b g n (ecb_blocks b f n data) = take (n * b) data"
proof (induction n arbitrary: data)
  case (Suc n)
  have "g (f data @ xs) = take b data" for xs
  proof -
    have "g (f data @ xs) = g (take b (f data @ xs))" by (simp only: assms(4))
    also have "\<dots> = g (f (take b data))" by (simp add: assms(2,3))
    also have "\<dots> = take b data" using Suc.prems by (intro assms(1)) simp
    finally show ?thesis .
  qed
  moreover have "ecb_blocks b g n (ecb_blocks b f n (drop b data)) = take (n * b) (drop b data)"
    using Suc.prems by (intro Suc.IH) simp
  ultimately show ?case using Suc.prems by (simp add: assms(2) take_add)
qed simp

section \<open>The contract\<close>

definition ecb_block :: "'k ccmode_ecb \<Rightarrow> 'k \<Rightarrow> bytes \<Rightarrow> bytes" where
  "ecb_block ecb key b = snd (ecb_ecb ecb key 1 b)"

lemma ecb_one [simp]: "snd (ecb_ecb ecb key (Suc 0) b) = ecb_block ecb key b"
  by (simp add: ecb_block_def)

locale block_cipher =
  fixes ecb :: "'k ccmode_ecb"
  assumes block_pos: "0 < ecb_block_size ecb"
    and ecb_law: "n * ecb_block_size ecb \<le> length data \<Longrightarrow>
      ecb_ecb ecb key n data = (0, ecb_blocks (ecb_block_size ecb) (ecb_block ecb key) n data)"
    and length_block [simp]: "length (ecb_block ecb key b) = ecb_block_size ecb"
    and block_take [simp]: "ecb_block ecb key (take (ecb_block_size ecb) b) = ecb_block ecb key b"
begin

lemma block_append: "length b = ecb_block_size ecb \<Longrightarrow> ecb_block ecb key (b @ xs) = ecb_block ecb key b"
  using block_take [of key "b @ xs"] by simp

lemma length_ecb: "n * ecb_block_size ecb \<le> length data \<Longrightarrow> length (snd (ecb_ecb ecb key n data)) = n * ecb_block_size ecb"
  by (simp add: ecb_law length_ecb_blocks)

end

text \<open>
  Two directions of one cipher.  Both are set up from the raw key, in contexts of their own.
\<close>

locale block_cipher_pair = enc: block_cipher enc + dec: block_cipher dec
  for enc :: "'k ccmode_ecb" and dec :: "'d ccmode_ecb" +
  assumes same_size: "ecb_block_size dec = ecb_block_size enc"
    and init_both: "ecb_init enc k n raw = (0, ke) \<Longrightarrow> fst (ecb_init dec d n raw) = 0"
    and block_inverse: "ecb_init enc k n raw = (0, ke) \<Longrightarrow> ecb_init dec d n raw = (0, kd) \<Longrightarrow>
      length b = ecb_block_size enc \<Longrightarrow> ecb_block dec kd (ecb_block enc ke b) = b"
    and block_inverse': "ecb_init enc k n raw = (0, ke) \<Longrightarrow> ecb_init dec d n raw = (0, kd) \<Longrightarrow>
      length b = ecb_block_size enc \<Longrightarrow> ecb_block enc ke (ecb_block dec kd b) = b"
begin

lemma ecb_inverse:
  assumes "ecb_init enc k n raw = (0, ke)" "ecb_init dec d n raw = (0, kd)" "m * ecb_block_size enc \<le> length data"
  shows "snd (ecb_ecb dec kd m (snd (ecb_ecb enc ke m data))) = take (m * ecb_block_size enc) data"
proof -
  have "ecb_blocks (ecb_block_size enc) (ecb_block dec kd) m (ecb_blocks (ecb_block_size enc) (ecb_block enc ke) m data) =
      take (m * ecb_block_size enc) data"
    using dec.block_take [of kd] assms(3)
    by (intro ecb_blocks_inverse block_inverse [OF assms(1,2)]) (simp_all add: same_size)
  then show ?thesis
    using assms(3) enc.length_ecb [OF assms(3), of ke]
    by (simp add: enc.ecb_law dec.ecb_law same_size)
qed

end

end
