(* ===== verification/Ccrc2.thy ===== *)
theory Ccrc2
  imports Ccmode_Ecb
begin

unbundle bit_operations_syntax

text \<open>
  RC2 of \<open>ccrc2/src\<close>: the key schedule and both directions.  The code keeps sixteen-bit quantities in
  \<open>uint32_t\<close> variables and lets the bits above them run; the proofs go through the sixteen-bit words they
  stand for.  The two directions are an instance of \<open>block_cipher_pair\<close>.
\<close>

definition rc2_permute :: "byte list" where
  "rc2_permute =
    [217, 120, 249, 196, 25, 221, 181, 237, 40, 233, 253, 121, 74, 160, 216, 157,
     198, 126, 55, 131, 43, 118, 83, 142, 98, 76, 100, 136, 68, 139, 251, 162,
     23, 154, 89, 245, 135, 179, 79, 19, 97, 69, 109, 141, 9, 129, 125, 50,
     189, 143, 64, 235, 134, 183, 123, 11, 240, 149, 33, 34, 92, 107, 78, 130,
     84, 214, 101, 147, 206, 96, 178, 28, 115, 86, 192, 20, 167, 140, 241, 220,
     18, 117, 202, 31, 59, 190, 228, 209, 66, 61, 212, 48, 163, 60, 182, 38,
     111, 191, 14, 218, 70, 105, 7, 87, 39, 242, 29, 155, 188, 148, 67, 3,
     248, 17, 199, 246, 144, 239, 62, 231, 6, 195, 213, 47, 200, 102, 30, 215,
     8, 232, 234, 222, 128, 82, 238, 247, 132, 170, 114, 172, 53, 77, 106, 42,
     150, 26, 210, 113, 90, 21, 73, 116, 75, 159, 208, 94, 4, 24, 164, 236,
     194, 224, 65, 110, 15, 81, 203, 204, 36, 145, 175, 80, 161, 244, 112, 57,
     153, 124, 58, 133, 35, 184, 180, 122, 252, 2, 54, 91, 37, 85, 151, 49,
     45, 93, 250, 152, 227, 138, 146, 174, 5, 223, 41, 16, 103, 108, 186, 201,
     211, 0, 230, 207, 225, 158, 168, 44, 99, 22, 1, 63, 88, 226, 137, 169,
     13, 56, 52, 27, 171, 51, 255, 176, 187, 72, 12, 95, 185, 177, 205, 46,
     197, 243, 219, 71, 229, 165, 156, 119, 10, 166, 32, 104, 254, 127, 193, 173]"

text \<open>Phase 1 expands the key to 128 bytes, phase 2 reduces its effective size.\<close>

definition rc2_phase1 :: "nat \<Rightarrow> bytes \<Rightarrow> bytes" where
  "rc2_phase1 key_nbytes tmp =
     foldl (\<lambda>tmp i. tmp[i := rc2_permute ! unat (tmp ! (i - 1) + tmp ! (i - key_nbytes))]) tmp [key_nbytes..<128]"

definition rc2_phase2 :: "nat \<Rightarrow> bytes \<Rightarrow> bytes" where
  "rc2_phase2 key_nbytes tmp =
     (let bits = of_nat (push_bit 3 key_nbytes) :: cc_unit;
          T8 = unat (drop_bit 3 (bits + 7));
          TM = drop_bit (unat (7 AND - bits)) 255 :: byte;
          tmp = tmp[128 - T8 := rc2_permute ! unat (tmp ! (128 - T8) AND TM)]
      in foldl (\<lambda>tmp i. tmp[i := rc2_permute ! unat (tmp ! (i + 1) XOR tmp ! (i + T8))]) tmp (rev [0..<128 - T8]))"

definition ccrc2_ltc_setup :: "u32 list \<Rightarrow> nat \<Rightarrow> bytes \<Rightarrow> int \<times> u32 list" where
  "ccrc2_ltc_setup xkey key_nbytes key =
     (if \<not> (1 \<le> key_nbytes \<and> key_nbytes \<le> 128) then (CCERR_PARAMETER, xkey)
      else let tmp = take key_nbytes key @ replicate (128 - key_nbytes) 0;
               tmp = rc2_phase1 key_nbytes tmp;
               tmp = rc2_phase2 key_nbytes tmp
           in (0, map (\<lambda>i. ucast (tmp ! (2 * i)) + push_bit 8 (ucast (tmp ! (2 * i + 1)))) [0..<64]))"

section \<open>The two directions\<close>

text \<open>The variables \<open>x76\<close>, \<open>x54\<close>, \<open>x32\<close>, \<open>x10\<close>.\<close>

type_synonym rc2_state = "u32 \<times> u32 \<times> u32 \<times> u32"

definition rc2_load :: "bytes \<Rightarrow> rc2_state" where
  "rc2_load pt =
     (push_bit 8 (ucast (pt ! 7)) + ucast (pt ! 6), push_bit 8 (ucast (pt ! 5)) + ucast (pt ! 4),
      push_bit 8 (ucast (pt ! 3)) + ucast (pt ! 2), push_bit 8 (ucast (pt ! 1)) + ucast (pt ! 0))"

definition rc2_store :: "rc2_state \<Rightarrow> bytes" where
  "rc2_store = (\<lambda>(x76, x54, x32, x10).
     [ucast x10, ucast (drop_bit 8 x10), ucast x32, ucast (drop_bit 8 x32),
      ucast x54, ucast (drop_bit 8 x54), ucast x76, ucast (drop_bit 8 x76)])"

definition rc2_mix :: "u32 list \<Rightarrow> nat \<Rightarrow> rc2_state \<Rightarrow> rc2_state" where
  "rc2_mix xkey i = (\<lambda>(x76, x54, x32, x10).
     let x10 = (x10 + (x32 AND NOT x76) + (x54 AND x76) + xkey ! (4 * i + 0)) AND 0xFFFF;
         x10 = push_bit 1 x10 OR drop_bit 15 x10;
         x32 = (x32 + (x54 AND NOT x10) + (x76 AND x10) + xkey ! (4 * i + 1)) AND 0xFFFF;
         x32 = push_bit 2 x32 OR drop_bit 14 x32;
         x54 = (x54 + (x76 AND NOT x32) + (x10 AND x32) + xkey ! (4 * i + 2)) AND 0xFFFF;
         x54 = push_bit 3 x54 OR drop_bit 13 x54;
         x76 = (x76 + (x10 AND NOT x54) + (x32 AND x54) + xkey ! (4 * i + 3)) AND 0xFFFF;
         x76 = push_bit 5 x76 OR drop_bit 11 x76
     in (x76, x54, x32, x10))"

definition rc2_mash :: "u32 list \<Rightarrow> rc2_state \<Rightarrow> rc2_state" where
  "rc2_mash xkey = (\<lambda>(x76, x54, x32, x10).
     let x10 = (x10 + xkey ! unat (x76 AND 63)) AND 0xFFFF;
         x32 = (x32 + xkey ! unat (x10 AND 63)) AND 0xFFFF;
         x54 = (x54 + xkey ! unat (x32 AND 63)) AND 0xFFFF;
         x76 = (x76 + xkey ! unat (x54 AND 63)) AND 0xFFFF
     in (x76, x54, x32, x10))"

definition rc2_encrypt_round :: "u32 list \<Rightarrow> nat \<Rightarrow> rc2_state \<Rightarrow> rc2_state" where
  "rc2_encrypt_round xkey i s =
     (let s = rc2_mix xkey i s in if i = 4 \<or> i = 10 then rc2_mash xkey s else s)"

definition rc2_encrypt_block :: "u32 list \<Rightarrow> bytes \<Rightarrow> bytes" where
  "rc2_encrypt_block xkey pt = rc2_store (foldl (\<lambda>s i. rc2_encrypt_round xkey i s) (rc2_load pt) [0..<16])"

definition ltc_rc2_ecb_encrypt :: "u32 list \<Rightarrow> nat \<Rightarrow> bytes \<Rightarrow> int \<times> bytes" where
  "ltc_rc2_ecb_encrypt xkey nblocks pt = (0, ecb_blocks 8 (rc2_encrypt_block xkey) nblocks pt)"

definition rc2_unmix :: "u32 list \<Rightarrow> nat \<Rightarrow> rc2_state \<Rightarrow> rc2_state" where
  "rc2_unmix xkey i = (\<lambda>(x76, x54, x32, x10).
     let x76 = push_bit 11 x76 OR drop_bit 5 x76;
         x76 = (x76 - ((x10 AND NOT x54) + (x32 AND x54) + xkey ! (4 * i + 3))) AND 0xFFFF;
         x54 = push_bit 13 x54 OR drop_bit 3 x54;
         x54 = (x54 - ((x76 AND NOT x32) + (x10 AND x32) + xkey ! (4 * i + 2))) AND 0xFFFF;
         x32 = push_bit 14 x32 OR drop_bit 2 x32;
         x32 = (x32 - ((x54 AND NOT x10) + (x76 AND x10) + xkey ! (4 * i + 1))) AND 0xFFFF;
         x10 = push_bit 15 x10 OR drop_bit 1 x10;
         x10 = (x10 - ((x32 AND NOT x76) + (x54 AND x76) + xkey ! (4 * i + 0))) AND 0xFFFF
     in (x76, x54, x32, x10))"

definition rc2_unmash :: "u32 list \<Rightarrow> rc2_state \<Rightarrow> rc2_state" where
  "rc2_unmash xkey = (\<lambda>(x76, x54, x32, x10).
     let x76 = (x76 - xkey ! unat (x54 AND 63)) AND 0xFFFF;
         x54 = (x54 - xkey ! unat (x32 AND 63)) AND 0xFFFF;
         x32 = (x32 - xkey ! unat (x10 AND 63)) AND 0xFFFF;
         x10 = (x10 - xkey ! unat (x76 AND 63)) AND 0xFFFF
     in (x76, x54, x32, x10))"

definition rc2_decrypt_round :: "u32 list \<Rightarrow> nat \<Rightarrow> rc2_state \<Rightarrow> rc2_state" where
  "rc2_decrypt_round xkey i s =
     (let s = (if i = 4 \<or> i = 10 then rc2_unmash xkey s else s) in rc2_unmix xkey i s)"

definition rc2_decrypt_block :: "u32 list \<Rightarrow> bytes \<Rightarrow> bytes" where
  "rc2_decrypt_block xkey ct = rc2_store (foldl (\<lambda>s i. rc2_decrypt_round xkey i s) (rc2_load ct) (rev [0..<16]))"

definition ltc_rc2_ecb_decrypt :: "u32 list \<Rightarrow> nat \<Rightarrow> bytes \<Rightarrow> int \<times> bytes" where
  "ltc_rc2_ecb_decrypt xkey nblocks ct = (0, ecb_blocks 8 (rc2_decrypt_block xkey) nblocks ct)"

definition ccrc2_ltc_ecb_encrypt_mode :: "u32 list ccmode_ecb" where
  "ccrc2_ltc_ecb_encrypt_mode =
     \<lparr>ecb_block_size = 8, ecb_init = ccrc2_ltc_setup, ecb_ecb = ltc_rc2_ecb_encrypt\<rparr>"

definition ccrc2_ltc_ecb_decrypt_mode :: "u32 list ccmode_ecb" where
  "ccrc2_ltc_ecb_decrypt_mode =
     \<lparr>ecb_block_size = 8, ecb_init = ccrc2_ltc_setup, ecb_ecb = ltc_rc2_ecb_decrypt\<rparr>"

section \<open>Sixteen-bit words\<close>

text \<open>What a variable stands for, and what masking and rotating mean for that.\<close>

abbreviation low16 :: "u32 \<Rightarrow> 16 word" where
  "low16 \<equiv> ucast"

lemma unat_low16: "unat (low16 x) = unat x mod 2 ^ 16"
  by (simp add: unsigned_ucast_eq take_bit_eq_mod)

lemma low16_add [simp]: "low16 (x + y) = low16 x + low16 y"
  by (rule word_unat_eq_iff [THEN iffD2]) (simp add: unat_low16 unat_word_ariths mod_mod_cancel mod_add_eq)

lemma low16_diff [simp]: "low16 (x - y) = low16 x - low16 y"
  using low16_add [of "x - y" y] by (simp add: eq_diff_eq)

lemma low16_bitwise [simp]:
  "low16 (x AND y) = low16 x AND low16 y" "low16 (NOT x) = NOT (low16 x)"
  by (rule bit_word_eqI; auto simp: bit_simps)+

lemma bit_ffff: "bit (0xFFFF :: int) n \<longleftrightarrow> n < 16"
proof -
  have "(0xFFFF :: int) = mask 16" by (simp add: mask_eq_exp_minus_1)
  then show ?thesis by (simp only: bit_mask_iff) simp
qed

lemma low16_ffff [simp]: "low16 (x AND 0xFFFF) = low16 x"
  by (rule bit_word_eqI) (simp add: bit_simps bit_ffff del: low16_bitwise)

lemma low16_eq_iff: "(x AND 0xFFFF) = (y AND 0xFFFF) \<longleftrightarrow> low16 x = low16 y"
proof
  assume "x AND 0xFFFF = y AND 0xFFFF"
  then have "low16 (x AND 0xFFFF) = low16 (y AND 0xFFFF)" by (rule arg_cong)
  then show "low16 x = low16 y" by (simp only: low16_ffff)
next
  assume l: "low16 x = low16 y"
  have "bit x n = bit y n" if "n < 16" for n
    using arg_cong [OF l, of "\<lambda>w. bit w n"] that by (simp add: bit_simps)
  then show "x AND 0xFFFF = y AND 0xFFFF" by (intro bit_word_eqI) (auto simp: bit_simps bit_ffff)
qed

lemma rotate_low16:
  assumes "0 < s" "s < 16" "x AND 0xFFFF = x"
  shows "low16 (push_bit s x OR drop_bit (16 - s) x) = word_rotl s (low16 x)"
proof -
  have b: "bit x n \<Longrightarrow> n < 16" for n
    using arg_cong [OF assms(3), of "\<lambda>w. bit w n"] by (auto simp: bit_simps bit_ffff)
  have "bit (low16 (push_bit s x OR drop_bit (16 - s) x)) n = bit (word_rotl s (low16 x)) n" if n: "n < 16" for n
  proof (cases "s \<le> n")
    case True
    have "\<not> bit x (16 - s + n)" using b [of "16 - s + n"] True by auto
    moreover have "(n + (16 - s)) mod 16 = n - s" using True n assms by (simp add: mod_if)
    moreover have "n - s < 16" using n by simp
    ultimately show ?thesis using True n assms by (simp add: bit_simps bit_word_rotl_iff)
  next
    case False
    moreover have "(n + (16 - s)) mod 16 = 16 - s + n" "16 - s + n < 16" using False n assms by simp_all
    ultimately show ?thesis using n assms by (simp add: bit_simps bit_word_rotl_iff)
  qed
  then show ?thesis by (intro bit_word_eqI) simp
qed

lemma rotl_rotl:
  fixes x :: "16 word"
  shows "word_rotl 11 (word_rotl 5 x) = x" "word_rotl 13 (word_rotl 3 x) = x" "word_rotl 14 (word_rotl 2 x) = x"
    "word_rotl 15 (word_rotl (Suc 0) x) = x" "word_rotl 5 (word_rotl 11 x) = x" "word_rotl 3 (word_rotl 13 x) = x"
    "word_rotl 2 (word_rotl 14 x) = x" "word_rotl (Suc 0) (word_rotl 15 x) = x"
proof -
  have *: "word_rotl (16 - s) (word_rotl s x) = x" if "0 < s" "s < 16" for s
  proof (rule bit_word_eqI)
    fix n assume "n < LENGTH(16)"
    moreover have "((n + s) mod 16 + (16 - s)) mod 16 = n" if "n < 16" for n
      using that \<open>0 < s\<close> \<open>s < 16\<close> by (cases "n + s < 16") (simp_all add: mod_if)
    ultimately show "bit (word_rotl (16 - s) (word_rotl s x)) n = bit x n"
      using that by (simp add: bit_word_rotl_iff)
  qed
  show "word_rotl 11 (word_rotl 5 x) = x" "word_rotl 13 (word_rotl 3 x) = x" "word_rotl 14 (word_rotl 2 x) = x"
    "word_rotl 15 (word_rotl (Suc 0) x) = x" "word_rotl 5 (word_rotl 11 x) = x" "word_rotl 3 (word_rotl 13 x) = x"
    "word_rotl 2 (word_rotl 14 x) = x" "word_rotl (Suc 0) (word_rotl 15 x) = x"
    using *[of 5] *[of 3] *[of 2] *[of 1] *[of 11] *[of 13] *[of 14] *[of 15] by simp_all
qed

text \<open>The six low bits, which select a word of the key, are those of the sixteen.\<close>

lemma key_index: "unat (x AND 63) = unat (low16 x AND 63)"
proof -
  have "(63 :: u32) = mask 6" "(63 :: 16 word) = mask 6" by (simp_all add: mask_eq_exp_minus_1)
  then show ?thesis by (simp only: unat_and_mask unat_low16) (simp add: mod_mod_cancel)
qed

text \<open>The mask as a function, so that the simplifier leaves it in place.\<close>

definition m16 :: "u32 \<Rightarrow> u32" where
  "m16 x = x AND 0xFFFF"

lemma m16_m16 [simp]: "m16 (m16 x) = m16 x"
  by (simp add: m16_def and.assoc)

lemma low16_m16 [simp]: "low16 (m16 x) = low16 x"
  unfolding m16_def by (rule low16_ffff)

lemma m16_eq_iff: "m16 x = m16 y \<longleftrightarrow> low16 x = low16 y"
  unfolding m16_def by (rule low16_eq_iff)

definition r16 :: "nat \<Rightarrow> u32 \<Rightarrow> u32" where
  "r16 s x = push_bit s x OR drop_bit (16 - s) x"

lemma r16_fold:
  "push_bit 1 x OR drop_bit 15 x = r16 1 x" "push_bit 2 x OR drop_bit 14 x = r16 2 x"
  "push_bit 3 x OR drop_bit 13 x = r16 3 x" "push_bit 5 x OR drop_bit 11 x = r16 5 x"
  "push_bit 11 x OR drop_bit 5 x = r16 11 x" "push_bit 13 x OR drop_bit 3 x = r16 13 x"
  "push_bit 14 x OR drop_bit 2 x = r16 14 x" "push_bit 15 x OR drop_bit 1 x = r16 15 x"
  unfolding r16_def by simp_all

lemma low16_r16 [simp]: "m16 x = x \<Longrightarrow> 0 < s \<Longrightarrow> s < 16 \<Longrightarrow> low16 (r16 s x) = word_rotl s (low16 x)"
  unfolding r16_def m16_def by (rule rotate_low16)

section \<open>The rounds on sixteen-bit words\<close>

type_synonym rc2_words = "16 word \<times> 16 word \<times> 16 word \<times> 16 word"

definition words_mix :: "u32 list \<Rightarrow> nat \<Rightarrow> rc2_words \<Rightarrow> rc2_words" where
  "words_mix xkey i = (\<lambda>(d, c, b, a).
     let a = word_rotl (Suc 0) (a + (b AND NOT d) + (c AND d) + low16 (xkey ! (4 * i)));
         b = word_rotl 2 (b + (c AND NOT a) + (d AND a) + low16 (xkey ! (4 * i + 1)));
         c = word_rotl 3 (c + (d AND NOT b) + (a AND b) + low16 (xkey ! (4 * i + 2)));
         d = word_rotl 5 (d + (a AND NOT c) + (b AND c) + low16 (xkey ! (4 * i + 3)))
     in (d, c, b, a))"

definition words_unmix :: "u32 list \<Rightarrow> nat \<Rightarrow> rc2_words \<Rightarrow> rc2_words" where
  "words_unmix xkey i = (\<lambda>(d, c, b, a).
     let d = word_rotl 11 d - ((a AND NOT c) + (b AND c) + low16 (xkey ! (4 * i + 3)));
         c = word_rotl 13 c - ((d AND NOT b) + (a AND b) + low16 (xkey ! (4 * i + 2)));
         b = word_rotl 14 b - ((c AND NOT a) + (d AND a) + low16 (xkey ! (4 * i + 1)));
         a = word_rotl 15 a - ((b AND NOT d) + (c AND d) + low16 (xkey ! (4 * i)))
     in (d, c, b, a))"

lemma words_unmix_mix: "words_unmix xkey i (words_mix xkey i w) = w"
  by (cases w) (simp add: words_mix_def words_unmix_def Let_def rotl_rotl)

lemma words_mix_unmix: "words_mix xkey i (words_unmix xkey i w) = w"
  by (cases w) (simp add: words_mix_def words_unmix_def Let_def rotl_rotl)

definition low_words :: "rc2_state \<Rightarrow> rc2_words" where
  "low_words = (\<lambda>(x76, x54, x32, x10). (low16 x76, low16 x54, low16 x32, low16 x10))"

definition rc2_clean :: "rc2_state \<Rightarrow> bool" where
  "rc2_clean = (\<lambda>(x76, x54, x32, x10). m16 x76 = x76 \<and> m16 x54 = x54 \<and> m16 x32 = x32 \<and> m16 x10 = x10)"

lemma low_mix: "low_words (rc2_mix xkey i s) = words_mix xkey i (low_words s)"
  unfolding rc2_mix_def r16_fold m16_def [symmetric]
  by (cases s) (simp add: words_mix_def low_words_def Let_def)

lemma low_unmix:
  assumes "rc2_clean s"
  shows "low_words (rc2_unmix xkey i s) = words_unmix xkey i (low_words s)" "rc2_clean (rc2_unmix xkey i s)"
  using assms unfolding rc2_unmix_def r16_fold m16_def [symmetric]
  by (cases s, simp add: rc2_clean_def words_unmix_def low_words_def Let_def)+

definition words_mash :: "u32 list \<Rightarrow> rc2_words \<Rightarrow> rc2_words" where
  "words_mash xkey = (\<lambda>(d, c, b, a).
     let a = a + low16 (xkey ! unat (d AND 63)); b = b + low16 (xkey ! unat (a AND 63));
         c = c + low16 (xkey ! unat (b AND 63)); d = d + low16 (xkey ! unat (c AND 63))
     in (d, c, b, a))"

definition words_unmash :: "u32 list \<Rightarrow> rc2_words \<Rightarrow> rc2_words" where
  "words_unmash xkey = (\<lambda>(d, c, b, a).
     let d = d - low16 (xkey ! unat (c AND 63)); c = c - low16 (xkey ! unat (b AND 63));
         b = b - low16 (xkey ! unat (a AND 63)); a = a - low16 (xkey ! unat (d AND 63))
     in (d, c, b, a))"

lemma words_unmash_mash: "words_unmash xkey (words_mash xkey w) = w" "words_mash xkey (words_unmash xkey w) = w"
  by (cases w, simp add: words_mash_def words_unmash_def Let_def)+

lemma low_mash: "low_words (rc2_mash xkey s) = words_mash xkey (low_words s)"
  unfolding rc2_mash_def m16_def [symmetric]
  by (cases s) (simp add: words_mash_def low_words_def Let_def key_index)

lemma low_unmash:
  "low_words (rc2_unmash xkey s) = words_unmash xkey (low_words s)" "rc2_clean (rc2_unmash xkey s)"
  unfolding rc2_unmash_def m16_def [symmetric]
  by (cases s, simp add: words_unmash_def low_words_def rc2_clean_def Let_def key_index)+

text \<open>A round of one direction against a round of the other.\<close>

definition words_encrypt :: "u32 list \<Rightarrow> nat \<Rightarrow> rc2_words \<Rightarrow> rc2_words" where
  "words_encrypt xkey i w = (let w = words_mix xkey i w in if i = 4 \<or> i = 10 then words_mash xkey w else w)"

definition words_decrypt :: "u32 list \<Rightarrow> nat \<Rightarrow> rc2_words \<Rightarrow> rc2_words" where
  "words_decrypt xkey i w = words_unmix xkey i (if i = 4 \<or> i = 10 then words_unmash xkey w else w)"

lemma words_decrypt_encrypt:
  "words_decrypt xkey i (words_encrypt xkey i w) = w" "words_encrypt xkey i (words_decrypt xkey i w) = w"
  by (simp_all add: words_encrypt_def words_decrypt_def words_unmash_mash words_unmix_mix words_mix_unmix)

lemma low_encrypt_rounds:
  "low_words (foldl (\<lambda>s i. rc2_encrypt_round xkey i s) s is) = foldl (\<lambda>w i. words_encrypt xkey i w) (low_words s) is"
  by (induction "is" arbitrary: s) (simp_all add: rc2_encrypt_round_def words_encrypt_def Let_def low_mix low_mash)

lemma low_decrypt_rounds:
  "rc2_clean s \<Longrightarrow>
   low_words (foldl (\<lambda>s i. rc2_decrypt_round xkey i s) s is) = foldl (\<lambda>w i. words_decrypt xkey i w) (low_words s) is"
proof (induction "is" arbitrary: s)
  case (Cons i "is")
  have "rc2_clean (rc2_decrypt_round xkey i s)"
    "low_words (rc2_decrypt_round xkey i s) = words_decrypt xkey i (low_words s)"
    using Cons.prems low_unmash [of xkey s] by (simp_all add: rc2_decrypt_round_def words_decrypt_def Let_def low_unmix)
  with Cons.IH [of "rc2_decrypt_round xkey i s"] show ?case by simp
qed simp

lemma foldl_undo:
  assumes "\<And>i w. g i (f i w) = w"
  shows "foldl (\<lambda>w i. g i w) (foldl (\<lambda>w i. f i w) w is) (rev is) = w"
  using assms by (induction "is" arbitrary: w) simp_all

section \<open>Blocks\<close>

lemma rc2_store_low: "low_words s = low_words t \<Longrightarrow> rc2_store s = rc2_store t"
proof -
  have *: "(ucast x :: byte) = ucast y \<and> (ucast (drop_bit 8 x) :: byte) = ucast (drop_bit 8 y)" if "low16 x = low16 y" for x y
  proof -
    have "bit x n = bit y n" if "n < 16" for n
      using arg_cong [OF \<open>low16 x = low16 y\<close>, of "\<lambda>w. bit w n"] that by (simp add: bit_simps)
    then show ?thesis by (auto intro!: bit_word_eqI simp: bit_simps)
  qed
  assume "low_words s = low_words t"
  then show ?thesis
    by (cases s, cases t) (auto simp: low_words_def rc2_store_def dest!: *)
qed

lemma bit_byte: "bit (b :: byte) n \<Longrightarrow> n < 8"
  using bit_imp_le_length [of b n] by simp

lemma byte_pair: "push_bit 8 (ucast (a :: byte)) + ucast (b :: byte) = (push_bit 8 (ucast a) OR ucast b :: u32)"
  by (rule disjunctive_add_eq_or) (auto intro!: bit_word_eqI simp: bit_simps dest!: bit_byte)

lemma rc2_load_clean: "rc2_clean (rc2_load pt)"
proof -
  have "m16 (push_bit 8 (ucast (a :: byte)) OR ucast (b :: byte)) = push_bit 8 (ucast a) OR ucast b" for a b
    by (auto intro!: bit_word_eqI simp: m16_def bit_simps bit_ffff; auto dest!: bit_byte)
  then show ?thesis by (simp add: rc2_clean_def rc2_load_def byte_pair)
qed

lemma rc2_store_load:
  assumes "length pt = 8"
  shows "rc2_store (rc2_load pt) = pt"
proof -
  have "ucast (push_bit 8 (ucast a) OR ucast b :: u32) = b" "ucast (drop_bit 8 (push_bit 8 (ucast a) OR ucast b :: u32)) = a"
    for a b :: byte
    by (auto intro!: bit_word_eqI simp: bit_simps dest: bit_byte)
  then show ?thesis using list_of_8 [OF assms]
    by (simp only: rc2_store_def rc2_load_def byte_pair prod.case)
qed

lemma rc2_load_store: "low_words (rc2_load (rc2_store s)) = low_words s"
proof -
  have "low16 (push_bit 8 (ucast (ucast (drop_bit 8 x) :: byte)) OR ucast (ucast x :: byte)) = low16 x" for x :: u32
    by (auto intro!: bit_word_eqI simp: bit_simps)
  then show ?thesis by (cases s) (simp add: rc2_store_def rc2_load_def low_words_def byte_pair)
qed

lemma length_rc2_store [simp]: "length (rc2_store s) = 8"
  by (cases s) (simp add: rc2_store_def)

lemma rc2_load_take: "rc2_load (take 8 pt) = rc2_load pt"
  by (simp add: rc2_load_def)

lemma rc2_decrypt_encrypt:
  assumes "length b = 8"
  shows "rc2_decrypt_block xkey (rc2_encrypt_block xkey b) = b"
proof -
  let ?e = "foldl (\<lambda>s i. rc2_encrypt_round xkey i s) (rc2_load b) [0..<16]"
  have "low_words (foldl (\<lambda>s i. rc2_decrypt_round xkey i s) (rc2_load (rc2_store ?e)) (rev [0..<16])) = low_words (rc2_load b)"
    unfolding low_decrypt_rounds [OF rc2_load_clean] rc2_load_store low_encrypt_rounds
    by (rule foldl_undo) (rule words_decrypt_encrypt)
  from rc2_store_low [OF this] show ?thesis
    by (simp only: rc2_decrypt_block_def rc2_encrypt_block_def rc2_store_load [OF assms])
qed

lemma rc2_encrypt_decrypt:
  assumes "length b = 8"
  shows "rc2_encrypt_block xkey (rc2_decrypt_block xkey b) = b"
proof -
  let ?d = "foldl (\<lambda>s i. rc2_decrypt_round xkey i s) (rc2_load b) (rev [0..<16])"
  have "low_words (foldl (\<lambda>s i. rc2_encrypt_round xkey i s) (rc2_load (rc2_store ?d)) (rev (rev [0..<16]))) = low_words (rc2_load b)"
    unfolding low_decrypt_rounds [OF rc2_load_clean] rc2_load_store low_encrypt_rounds
    by (rule foldl_undo) (rule words_decrypt_encrypt)
  from rc2_store_low [OF this] show ?thesis
    by (simp only: rc2_decrypt_block_def rc2_encrypt_block_def rc2_store_load [OF assms] rev_rev_ident)
qed

section \<open>RC2 as a block cipher\<close>

lemma rc2_fields [simp]:
  "ecb_block_size ccrc2_ltc_ecb_encrypt_mode = 8" "ecb_block_size ccrc2_ltc_ecb_decrypt_mode = 8"
  "ecb_init ccrc2_ltc_ecb_encrypt_mode = ccrc2_ltc_setup" "ecb_init ccrc2_ltc_ecb_decrypt_mode = ccrc2_ltc_setup"
  "ecb_ecb ccrc2_ltc_ecb_encrypt_mode = ltc_rc2_ecb_encrypt" "ecb_ecb ccrc2_ltc_ecb_decrypt_mode = ltc_rc2_ecb_decrypt"
  by (simp_all add: ccrc2_ltc_ecb_encrypt_mode_def ccrc2_ltc_ecb_decrypt_mode_def)

lemma rc2_block [simp]:
  "ecb_block ccrc2_ltc_ecb_encrypt_mode = rc2_encrypt_block" "ecb_block ccrc2_ltc_ecb_decrypt_mode = rc2_decrypt_block"
  by (simp_all add: fun_eq_iff ecb_block_def ltc_rc2_ecb_encrypt_def ltc_rc2_ecb_decrypt_def del: ecb_one)

lemma rc2_setup_result:
  "ccrc2_ltc_setup k n raw = (rc, ke) \<Longrightarrow> rc = (if 1 \<le> n \<and> n \<le> 128 then 0 else CCERR_PARAMETER) \<and>
    (rc = 0 \<longrightarrow> ke = snd (ccrc2_ltc_setup d n raw))"
  by (auto simp: ccrc2_ltc_setup_def Let_def CCERR_PARAMETER_def split: if_splits)

interpretation rc2: block_cipher_pair ccrc2_ltc_ecb_encrypt_mode ccrc2_ltc_ecb_decrypt_mode
proof
  show "fst (ecb_init ccrc2_ltc_ecb_decrypt_mode d n raw) = 0"
    if "ecb_init ccrc2_ltc_ecb_encrypt_mode k n raw = (0, ke)" for k d n raw ke
    using that by (auto simp: ccrc2_ltc_setup_def Let_def CCERR_PARAMETER_def split: if_splits)
  show "ecb_block ccrc2_ltc_ecb_decrypt_mode kd (ecb_block ccrc2_ltc_ecb_encrypt_mode ke b) = b"
    "ecb_block ccrc2_ltc_ecb_encrypt_mode ke (ecb_block ccrc2_ltc_ecb_decrypt_mode kd b) = b"
    if "ecb_init ccrc2_ltc_ecb_encrypt_mode k n raw = (0, ke)" "ecb_init ccrc2_ltc_ecb_decrypt_mode d n raw = (0, kd)"
      "length b = ecb_block_size ccrc2_ltc_ecb_encrypt_mode" for k d n raw ke kd b
    using rc2_setup_result [of k n raw 0 ke d] that
    by (simp_all add: rc2_decrypt_encrypt rc2_encrypt_decrypt)
qed (simp_all add: ltc_rc2_ecb_encrypt_def ltc_rc2_ecb_decrypt_def rc2_encrypt_block_def rc2_decrypt_block_def rc2_load_take)

end
