(* ===== verification/Ccmode_Cbc.thy ===== *)
theory Ccmode_Cbc
  imports Ccrc2
begin

unbundle bit_operations_syntax

text \<open>
  Cipher block chaining, \<open>ccmode_cbc_*.c\<close>, \<open>cccbc_one_shot.c\<close>.  The context holds the cipher and its
  key; the chaining block is an argument and is returned updated.  In place and separate buffers give the
  same values, so the output is returned.
\<close>

record 'k cccbc_ctx =
  cbc_ecb :: "'k ccmode_ecb"
  cbc_key :: 'k

text \<open>A mode carries the cipher it was made for (\<open>custom\<close>) in its initialisation.\<close>

record 'k ccmode_cbc =
  cbc_block_size :: nat
  cbc_init :: "'k cccbc_ctx \<Rightarrow> nat \<Rightarrow> bytes \<Rightarrow> int \<times> 'k cccbc_ctx"
  cbc_cbc :: "'k cccbc_ctx \<Rightarrow> bytes \<Rightarrow> nat \<Rightarrow> bytes \<Rightarrow> int \<times> bytes \<times> bytes"

definition ccmode_cbc_init :: "'k ccmode_ecb \<Rightarrow> 'k cccbc_ctx \<Rightarrow> nat \<Rightarrow> bytes \<Rightarrow> int \<times> 'k cccbc_ctx" where
  "ccmode_cbc_init ecb key rawkey_len rawkey =
     (let key = key\<lparr>cbc_ecb := ecb\<rparr>;
          (rc, ecb_key) = ecb_init ecb (cbc_key key) rawkey_len rawkey
      in (rc, key\<lparr>cbc_key := ecb_key\<rparr>))"

fun cbc_encrypt_loop :: "'k ccmode_ecb \<Rightarrow> 'k \<Rightarrow> bytes \<Rightarrow> nat \<Rightarrow> bytes \<Rightarrow> bytes \<times> bytes" where
  "cbc_encrypt_loop ecb ecb_key iv 0 p = (iv, [])"
| "cbc_encrypt_loop ecb ecb_key iv (Suc nblocks) p =
     (let c = cc_xor (ecb_block_size ecb) p iv;
          c = snd (ecb_ecb ecb ecb_key 1 c);
          (iv, rest) = cbc_encrypt_loop ecb ecb_key c nblocks (drop (ecb_block_size ecb) p)
      in (iv, c @ rest))"

definition ccmode_cbc_encrypt :: "'k cccbc_ctx \<Rightarrow> bytes \<Rightarrow> nat \<Rightarrow> bytes \<Rightarrow> int \<times> bytes \<times> bytes" where
  "ccmode_cbc_encrypt key ivbuf nblocks p = (0, cbc_encrypt_loop (cbc_ecb key) (cbc_key key) ivbuf nblocks p)"

fun cbc_decrypt_loop :: "'k ccmode_ecb \<Rightarrow> 'k \<Rightarrow> bytes \<Rightarrow> nat \<Rightarrow> bytes \<Rightarrow> bytes \<times> bytes" where
  "cbc_decrypt_loop ecb ecb_key iv 0 ct = (iv, [])"
| "cbc_decrypt_loop ecb ecb_key iv (Suc nblocks) ct =
     (let tmp = snd (ecb_ecb ecb ecb_key 1 ct);
          pt = map (\<lambda>x. iv ! x XOR tmp ! x) [0..<ecb_block_size ecb];
          iv = map (\<lambda>x. ct ! x) [0..<ecb_block_size ecb] @ drop (ecb_block_size ecb) iv;
          (iv, rest) = cbc_decrypt_loop ecb ecb_key iv nblocks (drop (ecb_block_size ecb) ct)
      in (iv, pt @ rest))"

definition ccmode_cbc_decrypt :: "'k cccbc_ctx \<Rightarrow> bytes \<Rightarrow> nat \<Rightarrow> bytes \<Rightarrow> int \<times> bytes \<times> bytes" where
  "ccmode_cbc_decrypt key iv nblocks ct = (0, cbc_decrypt_loop (cbc_ecb key) (cbc_key key) iv nblocks ct)"

definition CCMODE_FACTORY_CBC_ENCRYPT :: "'k ccmode_ecb \<Rightarrow> 'k ccmode_cbc" where
  "CCMODE_FACTORY_CBC_ENCRYPT ecb =
     \<lparr>cbc_block_size = ecb_block_size ecb, cbc_init = ccmode_cbc_init ecb, cbc_cbc = ccmode_cbc_encrypt\<rparr>"

definition CCMODE_FACTORY_CBC_DECRYPT :: "'k ccmode_ecb \<Rightarrow> 'k ccmode_cbc" where
  "CCMODE_FACTORY_CBC_DECRYPT ecb =
     \<lparr>cbc_block_size = ecb_block_size ecb, cbc_init = ccmode_cbc_init ecb, cbc_cbc = ccmode_cbc_decrypt\<rparr>"

definition cccbc_set_iv :: "'k ccmode_cbc \<Rightarrow> bytes option \<Rightarrow> bytes" where
  "cccbc_set_iv mode iv =
     (case iv of Some iv \<Rightarrow> take (cbc_block_size mode) iv | None \<Rightarrow> replicate (cbc_block_size mode) 0)"

text \<open>The context on the stack has any contents.\<close>

definition cccbc_one_shot ::
  "'k ccmode_cbc \<Rightarrow> 'k cccbc_ctx \<Rightarrow> nat \<Rightarrow> bytes \<Rightarrow> bytes option \<Rightarrow> nat \<Rightarrow> bytes \<Rightarrow> int \<times> bytes" where
  "cccbc_one_shot mode ctx key_len key iv nblocks inp =
     (let (rc, ctx) = cbc_init mode ctx key_len key
      in if rc \<noteq> 0 then (rc, [])
         else let iv_ctx = cccbc_set_iv mode iv;
                  (rc, iv_ctx, out) = cbc_cbc mode ctx iv_ctx nblocks inp
              in (rc, out))"

section \<open>Chaining\<close>

lemma cbc_factory [simp]:
  "cbc_block_size (CCMODE_FACTORY_CBC_ENCRYPT ecb) = ecb_block_size ecb"
  "cbc_block_size (CCMODE_FACTORY_CBC_DECRYPT ecb) = ecb_block_size ecb"
  "cbc_init (CCMODE_FACTORY_CBC_ENCRYPT ecb) = ccmode_cbc_init ecb"
  "cbc_init (CCMODE_FACTORY_CBC_DECRYPT ecb) = ccmode_cbc_init ecb"
  "cbc_cbc (CCMODE_FACTORY_CBC_ENCRYPT ecb) = ccmode_cbc_encrypt"
  "cbc_cbc (CCMODE_FACTORY_CBC_DECRYPT ecb) = ccmode_cbc_decrypt"
  by (simp_all add: CCMODE_FACTORY_CBC_ENCRYPT_def CCMODE_FACTORY_CBC_DECRYPT_def)

lemma cc_xor_append [simp]: "n \<le> length a \<Longrightarrow> cc_xor n (a @ b) c = cc_xor n a c"
  by (rule nth_equalityI) (simp_all add: nth_cc_xor nth_append)

lemma cc_xor_take [simp]: "cc_xor n (take n a) c = cc_xor n a c" "cc_xor n a (take n c) = cc_xor n a c"
  by (rule nth_equalityI; simp add: nth_cc_xor)+

lemma xor_around [simp]: "a XOR (b XOR a) = b" "a XOR (a XOR b) = b" for a b :: byte
  by (simp_all only: xor.commute [of b a], simp_all flip: xor.assoc)

lemma map_nth_prefix: "n \<le> length xs \<Longrightarrow> map ((!) xs) [0..<n] = take n xs"
  by (rule nth_equalityI) simp_all

context block_cipher
begin

lemma cbc_encrypt_lengths:
  assumes "length iv = ecb_block_size ecb"
  shows "length (fst (cbc_encrypt_loop ecb key iv n p)) = ecb_block_size ecb"
    "length (snd (cbc_encrypt_loop ecb key iv n p)) = n * ecb_block_size ecb"
proof -
  have "length (fst (cbc_encrypt_loop ecb key iv n p)) = ecb_block_size ecb \<and>
    length (snd (cbc_encrypt_loop ecb key iv n p)) = n * ecb_block_size ecb"
    using assms by (induction n arbitrary: iv p) (simp_all add: Let_def case_prod_beta)
  then show "length (fst (cbc_encrypt_loop ecb key iv n p)) = ecb_block_size ecb"
    "length (snd (cbc_encrypt_loop ecb key iv n p)) = n * ecb_block_size ecb" by simp_all
qed

lemma cbc_encrypt_loop_add:
  "cbc_encrypt_loop ecb key iv (n + m) p =
    (let (iv, c) = cbc_encrypt_loop ecb key iv n p;
         (iv, d) = cbc_encrypt_loop ecb key iv m (drop (n * ecb_block_size ecb) p) in (iv, c @ d))"
  by (induction n arbitrary: iv p) (simp_all add: Let_def case_prod_beta add.commute)

lemma cbc_decrypt_loop_add:
  "cbc_decrypt_loop ecb key iv (n + m) p =
    (let (iv, c) = cbc_decrypt_loop ecb key iv n p;
         (iv, d) = cbc_decrypt_loop ecb key iv m (drop (n * ecb_block_size ecb) p) in (iv, c @ d))"
  by (induction n arbitrary: iv p) (simp_all add: Let_def case_prod_beta add.commute)

lemma cbc_encrypt_append:
  "n * ecb_block_size ecb \<le> length p \<Longrightarrow> cbc_encrypt_loop ecb key iv n (p @ q) = cbc_encrypt_loop ecb key iv n p"
  by (induction n arbitrary: iv p) (simp_all add: Let_def)

end

context block_cipher_pair
begin

text \<open>Decryption gives back the text and leaves the same chaining block.\<close>

lemma cbc_inverse:
  assumes "ecb_init enc k n raw = (0, ke)" "ecb_init dec d n raw = (0, kd)"
  shows "length iv = ecb_block_size enc \<Longrightarrow> m * ecb_block_size enc \<le> length p \<Longrightarrow>
    cbc_encrypt_loop enc ke iv m p = (iv', c) \<Longrightarrow>
    cbc_decrypt_loop dec kd iv m (c @ xs) = (iv', take (m * ecb_block_size enc) p)"
proof (induction m arbitrary: iv p c)
  case (Suc m)
  let ?b = "ecb_block_size enc"
  let ?c = "ecb_block enc ke (cc_xor ?b p iv)"
  obtain r where r: "cbc_encrypt_loop enc ke ?c m (drop ?b p) = (iv', r)" "c = ?c @ r"
    using Suc.prems(3) by (auto simp: Let_def split: prod.splits)
  have ih: "cbc_decrypt_loop dec kd ?c m (r @ xs) = (iv', take (m * ?b) (drop ?b p))"
    using Suc.prems(2) by (intro Suc.IH [OF _ _ r(1)]) simp_all
  have t: "ecb_block dec kd (?c @ ys) = cc_xor ?b p iv" for ys
    using block_inverse [OF assms, of "cc_xor ?b p iv"] dec.block_append [of ?c kd ys] by (simp add: same_size)
  have "map (\<lambda>x. iv ! x XOR cc_xor ?b p iv ! x) [0..<?b] = take ?b p"
    using Suc.prems(1,2) by (intro nth_equalityI) (simp_all add: nth_cc_xor)
  moreover have "map ((!) (?c @ ys)) [0..<?b] = ?c" for ys
    by (rule nth_equalityI) (simp_all add: nth_append)
  ultimately show ?case
    using Suc.prems ih
    by (simp add: r(2) t Let_def same_size take_add)
qed simp

text \<open>The whole calls, set up from one raw key.\<close>

lemma cbc_one_shot_inverse:
  assumes "fst (ecb_init enc (cbc_key kctx) n raw) = 0" "m * ecb_block_size enc \<le> length p" "\<And>v. iv = Some v \<Longrightarrow> ecb_block_size enc \<le> length v"
  shows "fst (cccbc_one_shot (CCMODE_FACTORY_CBC_ENCRYPT enc) kctx n raw iv m p) = 0"
    "length (snd (cccbc_one_shot (CCMODE_FACTORY_CBC_ENCRYPT enc) kctx n raw iv m p)) = m * ecb_block_size enc"
    "cccbc_one_shot (CCMODE_FACTORY_CBC_DECRYPT dec) dctx n raw iv m
      (snd (cccbc_one_shot (CCMODE_FACTORY_CBC_ENCRYPT enc) kctx n raw iv m p)) = (0, take (m * ecb_block_size enc) p)"
proof -
  let ?iv = "cccbc_set_iv (CCMODE_FACTORY_CBC_ENCRYPT enc) iv"
  obtain ke where ke: "ecb_init enc (cbc_key kctx) n raw = (0, ke)" using assms(1) by (cases "ecb_init enc (cbc_key kctx) n raw") simp
  obtain kd where kd: "ecb_init dec (cbc_key dctx) n raw = (0, kd)"
    using init_both [OF ke, of "cbc_key dctx"] by (cases "ecb_init dec (cbc_key dctx) n raw") simp
  have l: "length ?iv = ecb_block_size enc"
    using assms(3) by (cases iv) (simp_all add: cccbc_set_iv_def)
  have i: "cccbc_set_iv (CCMODE_FACTORY_CBC_DECRYPT dec) iv = ?iv"
    by (cases iv) (simp_all add: cccbc_set_iv_def same_size)
  obtain iv' c where c: "cbc_encrypt_loop enc ke ?iv m p = (iv', c)" by force
  have e: "cccbc_one_shot (CCMODE_FACTORY_CBC_ENCRYPT enc) kctx n raw iv m p = (0, c)"
    using ke c by (simp add: cccbc_one_shot_def ccmode_cbc_init_def ccmode_cbc_encrypt_def Let_def)
  show "fst (cccbc_one_shot (CCMODE_FACTORY_CBC_ENCRYPT enc) kctx n raw iv m p) = 0" by (simp add: e)
  show "length (snd (cccbc_one_shot (CCMODE_FACTORY_CBC_ENCRYPT enc) kctx n raw iv m p)) = m * ecb_block_size enc"
    using enc.cbc_encrypt_lengths(2) [OF l, of ke m p] by (simp add: e c)
  show "cccbc_one_shot (CCMODE_FACTORY_CBC_DECRYPT dec) dctx n raw iv m
      (snd (cccbc_one_shot (CCMODE_FACTORY_CBC_ENCRYPT enc) kctx n raw iv m p)) = (0, take (m * ecb_block_size enc) p)"
    unfolding e snd_conv using kd cbc_inverse [OF ke kd l assms(2) c, of "[]"] i
    by (simp add: cccbc_one_shot_def ccmode_cbc_init_def ccmode_cbc_decrypt_def Let_def)
qed

end

end
