(* ===== verification/Ccpad.thy ===== *)
theory Ccpad
  imports Ccmode_Cbc
begin

unbundle bit_operations_syntax

text \<open>
  The paddings of \<open>ccpad/src\<close> for block ciphers: PKCS7 over CBC and ECB, and the three forms of ciphertext
  stealing over CBC (SP 800-38A, addendum).  A mode is any \<open>ccmode_cbc\<close> of the factory.  The contracts of
  \<open>ccpad.h\<close> (whole blocks for the PKCS7 decoders, more than one block for ciphertext stealing) are hypotheses
  of the lemmas; a read before the start of the output buffer is the result \<open>None\<close>.
\<close>

section \<open>PKCS7\<close>

definition ccpad_pkcs7_encrypt ::
  "'k ccmode_cbc \<Rightarrow> 'k cccbc_ctx \<Rightarrow> bytes \<Rightarrow> nat \<Rightarrow> bytes \<Rightarrow> nat \<times> bytes \<times> bytes" where
  "ccpad_pkcs7_encrypt cbc key iv nbytes plain =
     (let block_size = cbc_block_size cbc;
          tail = nbytes AND (block_size - 1);
          head = nbytes - tail;
          (rc, iv, cipher) = cbc_cbc cbc key iv (head div block_size) plain;
          plain = drop head plain;
          pad = block_size - tail;
          last = take tail plain @ replicate pad (of_nat pad);
          (rc, iv, last) = cbc_cbc cbc key iv 1 last
      in (head + block_size, iv, cipher @ last))"

definition ccpad_pkcs7_ecb_encrypt :: "'k ccmode_ecb \<Rightarrow> 'k \<Rightarrow> nat \<Rightarrow> bytes \<Rightarrow> nat \<times> bytes" where
  "ccpad_pkcs7_ecb_encrypt ecb ecb_key nbytes plain =
     (let block_size = ecb_block_size ecb;
          tail = nbytes AND (block_size - 1);
          head = nbytes - tail;
          (rc, cipher) = ecb_ecb ecb ecb_key (head div block_size) plain;
          plain = drop head plain;
          pad = block_size - tail;
          last = take tail plain @ replicate pad (of_nat pad);
          (rc, last) = ecb_ecb ecb ecb_key 1 last
      in (head + block_size, cipher @ last))"

text \<open>The branch compiled by \<open>LAST_BYTE_DECODE_CONSTANT_TIME\<close>: it looks at the last byte only.\<close>

definition ccpad_pkcs7_decode :: "nat \<Rightarrow> bytes \<Rightarrow> nat" where
  "ccpad_pkcs7_decode block_size last_block =
     (let pad = ucast (last_block ! (block_size - 1)) :: cc_unit;
          default_size = 0;
          failed = (0xff AND NOT (of_nat block_size)) + pad;
          failed = failed OR (0x100 - pad);
          failed = 0x100 - drop_bit 8 failed
      in unat ((NOT failed AND pad) + (failed AND default_size)))"

definition ccpad_pkcs7_decrypt ::
  "'k ccmode_cbc \<Rightarrow> 'k cccbc_ctx \<Rightarrow> bytes \<Rightarrow> nat \<Rightarrow> bytes \<Rightarrow> (nat \<times> bytes \<times> bytes) option" where
  "ccpad_pkcs7_decrypt cbc key iv nbytes inp =
     (let block_size = cbc_block_size cbc;
          nblocks = nbytes div block_size;
          (rc, iv, plain) = cbc_cbc cbc key iv nblocks inp
      in if nblocks = 0 then None
         else let pad_size = ccpad_pkcs7_decode block_size (drop ((nblocks - 1) * block_size) plain)
              in Some (nbytes - pad_size, iv, plain))"

definition ccpad_pkcs7_ecb_decrypt :: "'k ccmode_ecb \<Rightarrow> 'k \<Rightarrow> nat \<Rightarrow> bytes \<Rightarrow> (nat \<times> bytes) option" where
  "ccpad_pkcs7_ecb_decrypt ecb ecb_key nbytes inp =
     (let block_size = ecb_block_size ecb;
          nblocks = nbytes div block_size;
          (rc, plain) = ecb_ecb ecb ecb_key nblocks inp
      in if nblocks = 0 then None
         else let pad_size = ccpad_pkcs7_decode block_size (drop ((nblocks - 1) * block_size) plain)
              in Some (nbytes - pad_size, plain))"

section \<open>Ciphertext stealing\<close>

text \<open>Subtraction of sizes: below zero it wraps around.\<close>

definition size_minus :: "nat \<Rightarrow> nat \<Rightarrow> nat" where
  "size_minus a b = (if b \<le> a then a - b else 2 ^ 64 + a - b)"

lemma size_minus_le [simp]: "b \<le> a \<Longrightarrow> size_minus a b = a - b"
  by (simp add: size_minus_def)

definition swapblocks :: "bytes \<Rightarrow> nat \<Rightarrow> bytes" where
  "swapblocks blocks blocksize =
     take blocksize (drop blocksize blocks) @ take blocksize blocks @ drop (2 * blocksize) blocks"

definition ecb_from_cbc :: "'k ccmode_cbc \<Rightarrow> 'k cccbc_ctx \<Rightarrow> bytes \<Rightarrow> bytes" where
  "ecb_from_cbc cbc key inp =
     (let iv = cccbc_set_iv cbc None; (rc, iv, out) = cbc_cbc cbc key iv 1 inp in out)"

text \<open>All but the last two blocks: what is left of the length, and the chaining block, the rest of the
  input and the output so far.\<close>

definition ccpad_cts_crypt ::
  "'k ccmode_cbc \<Rightarrow> 'k cccbc_ctx \<Rightarrow> bytes \<Rightarrow> nat \<Rightarrow> bytes \<Rightarrow> nat \<times> bytes \<times> bytes \<times> bytes" where
  "ccpad_cts_crypt cbc key iv nbytes inp =
     (let block_size = cbc_block_size cbc;
          head_blocks = (if size_minus nbytes 1 div block_size > 1 then size_minus nbytes 1 div block_size - 1 else 0);
          head_bytes = head_blocks * block_size
      in if head_blocks \<noteq> 0
         then let (rc, iv, out) = cbc_cbc cbc key iv head_blocks inp
              in (size_minus nbytes head_bytes, iv, drop head_bytes inp, out)
         else (nbytes, iv, inp, []))"

definition ccpad_cts1_encrypt :: "'k ccmode_cbc \<Rightarrow> 'k cccbc_ctx \<Rightarrow> bytes \<Rightarrow> nat \<Rightarrow> bytes \<Rightarrow> nat \<times> bytes \<times> bytes" where
  "ccpad_cts1_encrypt cbc key iv len_bytes inp =
     (let blocksize = cbc_block_size cbc;
          (nbytes, iv, inp, out) = ccpad_cts_crypt cbc key iv len_bytes inp
      in if nbytes = blocksize * 2
         then let (rc, iv, last) = cbc_cbc cbc key iv 2 inp in (len_bytes, iv, out @ last)
         else let d = size_minus nbytes blocksize;
                  pad = take nbytes inp @ replicate (blocksize - d) 0;
                  (rc, iv, pad) = cbc_cbc cbc key iv 2 pad
              in (len_bytes, iv, out @ take d pad @ take blocksize (drop blocksize pad)))"

definition ccpad_cts1_decrypt :: "'k ccmode_cbc \<Rightarrow> 'k cccbc_ctx \<Rightarrow> bytes \<Rightarrow> nat \<Rightarrow> bytes \<Rightarrow> nat \<times> bytes \<times> bytes" where
  "ccpad_cts1_decrypt cbc key iv len_bytes inp =
     (let blocksize = cbc_block_size cbc;
          (nbytes, iv, inp, out) = ccpad_cts_crypt cbc key iv len_bytes inp
      in if nbytes = blocksize * 2
         then let (rc, iv, last) = cbc_cbc cbc key iv 2 inp in (len_bytes, iv, out @ last)
         else let d = size_minus nbytes blocksize;
                  cN_1 = take d inp;
                  cN = take blocksize (drop d inp);
                  z = ecb_from_cbc cbc key cN;
                  cN_1 = cN_1 @ map (\<lambda>i. z ! i) [d..<blocksize];
                  (rc, iv, last) = cbc_cbc cbc key iv 1 cN_1
              in (len_bytes, iv, out @ last @ map (\<lambda>i. cN_1 ! i XOR z ! i) [0..<d]))"

definition ccpad_cts2_encrypt :: "'k ccmode_cbc \<Rightarrow> 'k cccbc_ctx \<Rightarrow> bytes \<Rightarrow> nat \<Rightarrow> bytes \<Rightarrow> nat \<times> bytes \<times> bytes" where
  "ccpad_cts2_encrypt cbc key iv len_bytes inp =
     (let blocksize = cbc_block_size cbc;
          (nbytes, iv, inp, out) = ccpad_cts_crypt cbc key iv len_bytes inp;
          inp = (if nbytes \<noteq> blocksize * 2 then take nbytes inp @ replicate (blocksize * 2 - nbytes) 0 else inp);
          (rc, iv, pad) = cbc_cbc cbc key iv 2 inp;
          pad = (if nbytes \<noteq> blocksize * 2 then swapblocks pad blocksize else pad)
      in (len_bytes, iv, out @ take nbytes pad))"

definition ccpad_cts2_decrypt :: "'k ccmode_cbc \<Rightarrow> 'k cccbc_ctx \<Rightarrow> bytes \<Rightarrow> nat \<Rightarrow> bytes \<Rightarrow> nat \<times> bytes \<times> bytes" where
  "ccpad_cts2_decrypt cbc key iv len_bytes inp =
     (let blocksize = cbc_block_size cbc;
          (nbytes, iv, inp, out) = ccpad_cts_crypt cbc key iv len_bytes inp
      in if nbytes = blocksize * 2
         then let (rc, iv, last) = cbc_cbc cbc key iv 2 inp in (len_bytes, iv, out @ last)
         else let d = size_minus nbytes blocksize;
                  cN = take blocksize inp;
                  cN_1 = take d (drop blocksize inp);
                  z = ecb_from_cbc cbc key cN;
                  cN_1 = cN_1 @ map (\<lambda>i. z ! i) [d..<blocksize];
                  (rc, iv, last) = cbc_cbc cbc key iv 1 cN_1
              in (len_bytes, iv, out @ last @ map (\<lambda>i. cN_1 ! i XOR z ! i) [0..<d]))"

definition ccpad_cts3_encrypt :: "'k ccmode_cbc \<Rightarrow> 'k cccbc_ctx \<Rightarrow> bytes \<Rightarrow> nat \<Rightarrow> bytes \<Rightarrow> nat \<times> bytes \<times> bytes" where
  "ccpad_cts3_encrypt cbc key iv len_bytes inp =
     (let blocksize = cbc_block_size cbc;
          (nbytes, iv, inp, out) = ccpad_cts_crypt cbc key iv len_bytes inp;
          inp = (if nbytes \<noteq> blocksize * 2 then take nbytes inp @ replicate (blocksize * 2 - nbytes) 0 else inp);
          (rc, iv, pad) = cbc_cbc cbc key iv 2 inp;
          pad = swapblocks pad blocksize
      in (len_bytes, iv, out @ take nbytes pad))"

definition ccpad_cts3_decrypt :: "'k ccmode_cbc \<Rightarrow> 'k cccbc_ctx \<Rightarrow> bytes \<Rightarrow> nat \<Rightarrow> bytes \<Rightarrow> nat \<times> bytes \<times> bytes" where
  "ccpad_cts3_decrypt cbc key iv len_bytes inp =
     (let blocksize = cbc_block_size cbc;
          (nbytes, iv, inp, out) = ccpad_cts_crypt cbc key iv len_bytes inp;
          cN = take nbytes inp
      in if nbytes = blocksize * 2
         then let cN = swapblocks cN blocksize;
                  (rc, iv, last) = cbc_cbc cbc key iv 2 cN
              in (len_bytes, iv, out @ last)
         else let d = size_minus nbytes blocksize;
                  z = ecb_from_cbc cbc key cN;
                  cN_1 = take d (drop blocksize cN) @ map (\<lambda>i. z ! i) [d..<blocksize];
                  (rc, iv, last) = cbc_cbc cbc key iv 1 cN_1
              in (len_bytes, iv, out @ last @ map (\<lambda>i. cN_1 ! i XOR z ! i) [0..<d]))"

section \<open>Where the padding ends\<close>

lemma and_not_add: "(m AND NOT b) + (m AND b) = (m :: cc_unit)"
proof -
  have "(m AND NOT b) AND (m AND b) = 0" by (rule bit_word_eqI) (simp add: bit_simps)
  then have "(m AND NOT b) + (m AND b) = (m AND NOT b) OR (m AND b)" by (rule disjunctive_add_eq_or)
  also have "\<dots> = m" by (rule bit_word_eqI) (auto simp: bit_simps)
  finally show ?thesis .
qed

lemma low_byte: "p < 256 \<Longrightarrow> mask 8 AND of_nat p = (of_nat p :: cc_unit)"
  by (simp add: word_unat_eq_iff unat_and_mask and.commute [of "mask 8"] unat_of_nat take_bit_nat_eq_self)

lemma pkcs7_decode_eq:
  assumes "0 < B" "B < 256"
  shows "ccpad_pkcs7_decode B blk =
    (let pad = unat (blk ! (B - 1)) in if 1 \<le> pad \<and> pad \<le> B then pad else 0)"
proof -
  define p where "p = unat (blk ! (B - 1))"
  have p: "p < 256" using unsigned_less [of "blk ! (B - 1)"] by (simp add: p_def)
  have up: "(ucast (blk ! (B - 1)) :: cc_unit) = of_nat p"
    by (simp add: word_unat_eq_iff unat_ucast_byte p_def unat_of_nat)
  have m: "(0xff :: cc_unit) = mask 8" by (simp add: mask_eq_exp_minus_1)
  have f1: "(0xff AND NOT (of_nat B)) + of_nat p = (of_nat (255 - B + p) :: cc_unit)"
    using and_not_add [of "mask 8" "of_nat B"] low_byte [of B] assms unfolding m
    by (simp add: mask_eq_exp_minus_1 of_nat_diff eq_diff_eq [symmetric])
  have f2: "0x100 - of_nat p = (of_nat (256 - p) :: cc_unit)" using p by (simp add: of_nat_diff)
  have d: "drop_bit 8 (of_nat k :: cc_unit) = of_bool (256 \<le> k)" if "k < 512" for k
    using that by (auto simp: word_unat_eq_iff unat_drop_bit_div unat_of_nat)
  have "drop_bit 8 (of_nat (255 - B + p) OR of_nat (256 - p) :: cc_unit) = of_bool (256 \<le> 255 - B + p) OR of_bool (256 \<le> 256 - p)"
    unfolding drop_bit_or using d [of "255 - B + p"] d [of "256 - p"] p assms by (simp only:)
  also have "\<dots> = of_bool (B < p \<or> p = 0)" using assms p by auto
  finally have f3: "drop_bit 8 (of_nat (255 - B + p) OR of_nat (256 - p) :: cc_unit) = of_bool (B < p \<or> p = 0)" .
  have n1: "NOT 0x100 AND of_nat p = (of_nat p :: cc_unit)"
  proof -
    have "(0x100 :: cc_unit) AND mask 8 = 0" by (simp add: mask_eq_exp_minus_1)
    then have "NOT 0x100 AND mask 8 = (mask 8 :: cc_unit)"
      using and_not_add [of "mask 8" "0x100 :: cc_unit"] by (simp add: and.commute)
    then have "NOT 0x100 AND (mask 8 AND of_nat p) = (mask 8 AND of_nat p :: cc_unit)" by (simp only: and.assoc [symmetric])
    then show ?thesis by (simp only: low_byte [OF p])
  qed
  have n2: "NOT 0xff AND of_nat p = (0 :: cc_unit)"
  proof -
    have "NOT (mask 8) AND (mask 8 AND of_nat p) = (0 :: cc_unit)" by (rule bit_word_eqI) (auto simp: bit_simps)
    then show ?thesis unfolding m low_byte [OF p] .
  qed
  show ?thesis
    unfolding ccpad_pkcs7_decode_def up Let_def f1 f2 f3 p_def [symmetric]
    using n1 n2 p by (auto simp: unat_of_nat)
qed

section \<open>Stealing\<close>

lemma steal:
  assumes "length c1 = B" "length p2 = B" "d \<le> B" "\<And>i. d \<le> i \<Longrightarrow> i < B \<Longrightarrow> p2 ! i = 0"
  shows "take d c1 @ map (\<lambda>i. cc_xor B p2 c1 ! i) [d..<B] = c1"
    "map (\<lambda>i. c1 ! i XOR cc_xor B p2 c1 ! i) [0..<d] = take d p2"
proof -
  show "take d c1 @ map (\<lambda>i. cc_xor B p2 c1 ! i) [d..<B] = c1"
    using assms by (intro nth_equalityI) (auto simp: nth_append nth_cc_xor)
  show "map (\<lambda>i. c1 ! i XOR cc_xor B p2 c1 ! i) [0..<d] = take d p2"
    using assms by (intro nth_equalityI) (auto simp: nth_cc_xor)
qed

text \<open>The number of blocks before the last two.\<close>

definition cts_head :: "nat \<Rightarrow> nat \<Rightarrow> nat" where
  "cts_head B n = (if (n - 1) div B > 1 then (n - 1) div B - 1 else 0)"

lemma cts_head_bounds:
  fixes B n :: nat
  assumes "0 < B" "B < n"
  shows "cts_head B n * B < n" "B < n - cts_head B n * B" "n - cts_head B n * B \<le> 2 * B"
proof -
  define q r where "q = (n - 1) div B" and "r = (n - 1) mod B"
  have r: "r < B" "n - 1 = q * B + r" using assms(1) by (simp_all add: q_def r_def)
  have q1: "1 \<le> q" using assms by (simp add: q_def div_greater_zero_iff Suc_le_eq)
  then have hq: "cts_head B n = q - 1" unfolding cts_head_def q_def [symmetric] by simp
  obtain k where k: "q = Suc k" using q1 by (cases q) simp_all
  show "cts_head B n * B < n" "B < n - cts_head B n * B" "n - cts_head B n * B \<le> 2 * B"
    using r assms(1,2) unfolding hq k by simp_all
qed

lemma cts_crypt_eq:
  assumes "cbc_cbc cbc key iv (cts_head (cbc_block_size cbc) n) p = (rc, iv', c)"
    "cts_head (cbc_block_size cbc) n = 0 \<Longrightarrow> iv' = iv \<and> c = []" "0 < cbc_block_size cbc" "cbc_block_size cbc < n"
  shows "ccpad_cts_crypt cbc key iv n p =
    (n - cts_head (cbc_block_size cbc) n * cbc_block_size cbc, iv', drop (cts_head (cbc_block_size cbc) n * cbc_block_size cbc) p, c)"
proof -
  have m: "size_minus n 1 = n - 1" "size_minus n (cts_head (cbc_block_size cbc) n * cbc_block_size cbc) = n - cts_head (cbc_block_size cbc) n * cbc_block_size cbc"
    using cts_head_bounds(1) [OF assms(3,4)] assms(4) by simp_all
  show ?thesis using assms(1,2) unfolding ccpad_cts_crypt_def Let_def m(1) cts_head_def [symmetric] m(2) by auto
qed

text \<open>The last text, filled up with zeros.\<close>

definition cts_pad :: "nat \<Rightarrow> bytes \<Rightarrow> bytes" where
  "cts_pad B t = t @ replicate (2 * B - length t) 0"

lemma length_cts_pad: "length t \<le> 2 * B \<Longrightarrow> length (cts_pad B t) = 2 * B"
  by (simp add: cts_pad_def)

lemma cbc_two:
  "cbc_encrypt_loop ecb key iv 2 q =
    (let B = ecb_block_size ecb; c1 = ecb_block ecb key (cc_xor B q iv); c2 = ecb_block ecb key (cc_xor B (drop B q) c1)
     in (c2, c1 @ c2))"
  by (simp add: numeral_2_eq_2 Let_def)

lemma cts_steal:
  assumes "B < length t" "length t \<le> 2 * B" "length cc = 2 * B"
  defines "d \<equiv> length t - B" and "z \<equiv> cc_xor B (drop B (cts_pad B t)) (take B cc)"
  shows "take d cc @ map ((!) z) [d..<B] = take B cc" "map (\<lambda>i. take B cc ! i XOR z ! i) [0..<d] = drop B t"
    "take B (cts_pad B t) = take B t"
proof -
  have d: "d \<le> B" using assms by simp
  have l: "length (drop B (cts_pad B t)) = B" using assms by (simp add: length_cts_pad)
  have z: "drop B (cts_pad B t) ! i = 0" if "d \<le> i" "i < B" for i
    using that assms by (simp add: cts_pad_def nth_append)
  have "length (take B cc) = B" using assms by simp
  note s = steal [OF this l d z, folded z_def]
  show "take d cc @ map ((!) z) [d..<B] = take B cc" using s(1) d by (simp add: min_def)
  show "map (\<lambda>i. take B cc ! i XOR z ! i) [0..<d] = drop B t" using s(2) assms by (simp add: cts_pad_def)
  show "take B (cts_pad B t) = take B t" using assms by (simp add: cts_pad_def)
qed

context block_cipher_pair
begin

lemma cts_head_crypt:
  assumes "ecb_init enc k m raw = (0, ke)" "ecb_init dec d m raw = (0, kd)" "length iv = ecb_block_size enc"
    "ecb_block_size enc < length p"
  defines "h \<equiv> cts_head (ecb_block_size enc) (length p)"
  assumes "cbc_encrypt_loop enc ke iv h p = (iv', c)" "length x = length p - h * ecb_block_size enc"
  shows "ccpad_cts_crypt (CCMODE_FACTORY_CBC_ENCRYPT enc) \<lparr>cbc_ecb = enc, cbc_key = ke\<rparr> iv (length p) p =
      (length p - h * ecb_block_size enc, iv', drop (h * ecb_block_size enc) p, c)"
    "ccpad_cts_crypt (CCMODE_FACTORY_CBC_DECRYPT dec) \<lparr>cbc_ecb = dec, cbc_key = kd\<rparr> iv (length p) (c @ x) =
      (length p - h * ecb_block_size enc, iv', x, take (h * ecb_block_size enc) p)"
    "length iv' = ecb_block_size enc" "length c = h * ecb_block_size enc"
proof -
  let ?B = "ecb_block_size enc"
  have b: "0 < ?B" by (rule enc.block_pos)
  note hb = cts_head_bounds [OF b assms(4), folded h_def]
  show l: "length iv' = ?B" "length c = h * ?B"
    using enc.cbc_encrypt_lengths [OF assms(3), of ke h p] by (simp_all add: assms(6))
  have z: "h = 0 \<Longrightarrow> iv' = iv \<and> c = []" using assms(6) by auto
  have "cbc_cbc (CCMODE_FACTORY_CBC_ENCRYPT enc) \<lparr>cbc_ecb = enc, cbc_key = ke\<rparr> iv h p = (0, iv', c)"
    by (simp add: ccmode_cbc_encrypt_def assms(6))
  then show "ccpad_cts_crypt (CCMODE_FACTORY_CBC_ENCRYPT enc) \<lparr>cbc_ecb = enc, cbc_key = ke\<rparr> iv (length p) p =
      (length p - h * ?B, iv', drop (h * ?B) p, c)"
    using cts_crypt_eq [of "CCMODE_FACTORY_CBC_ENCRYPT enc" _ iv "length p" p 0 iv' c] z b assms(4) by (simp add: h_def)
  have "cbc_decrypt_loop dec kd iv h (c @ x) = (iv', take (h * ?B) p)"
    using hb(1) by (intro cbc_inverse [OF assms(1-3) _ assms(6)]) simp
  then have "cbc_cbc (CCMODE_FACTORY_CBC_DECRYPT dec) \<lparr>cbc_ecb = dec, cbc_key = kd\<rparr> iv h (c @ x) = (0, iv', take (h * ?B) p)"
    by (simp add: ccmode_cbc_decrypt_def)
  then show "ccpad_cts_crypt (CCMODE_FACTORY_CBC_DECRYPT dec) \<lparr>cbc_ecb = dec, cbc_key = kd\<rparr> iv (length p) (c @ x) =
      (length p - h * ?B, iv', x, take (h * ?B) p)"
    using cts_crypt_eq [of "CCMODE_FACTORY_CBC_DECRYPT dec" _ iv "length p" "c @ x" 0 iv' "take (h * ?B) p"] z l(2) b assms(4)
    by (simp add: h_def same_size)
qed

text \<open>The last two blocks: what the decrypting side recovers from them.\<close>

lemma cts_tail:
  assumes "ecb_init enc k m raw = (0, ke)" "ecb_init dec d m raw = (0, kd)" "length iv = ecb_block_size enc"
    "length q = 2 * ecb_block_size enc" "cbc_encrypt_loop enc ke iv 2 q = (iv', cc)"
  defines "B \<equiv> ecb_block_size enc"
  shows "length cc = 2 * B"
    "cbc_decrypt_loop dec kd iv 2 (cc @ x) = (iv', q)"
    "cbc_decrypt_loop dec kd iv 1 (take B cc @ x) = (take B cc, take B q)"
    "ecb_from_cbc (CCMODE_FACTORY_CBC_DECRYPT dec) \<lparr>cbc_ecb = dec, cbc_key = kd\<rparr> (drop B cc @ x) = cc_xor B (drop B q) (take B cc)"
proof -
  let ?c1 = "ecb_block enc ke (cc_xor B q iv)"
  let ?c2 = "ecb_block enc ke (cc_xor B (drop B q) ?c1)"
  have c: "iv' = ?c2" "cc = ?c1 @ ?c2" using assms(5) by (auto simp: cbc_two Let_def B_def)
  show "length cc = 2 * B" by (simp add: c B_def)
  show "cbc_decrypt_loop dec kd iv 2 (cc @ x) = (iv', q)"
    using cbc_inverse [OF assms(1-3) _ assms(5), of x] assms(4) by simp
  have "cbc_encrypt_loop enc ke iv 1 q = (?c1, ?c1)" by (simp add: B_def Let_def)
  from cbc_inverse [OF assms(1-3) _ this, of x] assms(4)
  show "cbc_decrypt_loop dec kd iv 1 (take B cc @ x) = (take B cc, take B q)" by (simp add: c B_def)
  have "ecb_block dec kd (?c2 @ x) = cc_xor B (drop B q) ?c1"
    using block_inverse [OF assms(1,2), of "cc_xor B (drop B q) ?c1"] dec.block_append [of ?c2 kd x] by (simp add: B_def same_size)
  moreover have "map (\<lambda>i. replicate B 0 ! i XOR cc_xor B a b ! i) [0..<B] = cc_xor B a b" for a b
    by (rule nth_equalityI) (simp_all add: nth_cc_xor)
  ultimately show "ecb_from_cbc (CCMODE_FACTORY_CBC_DECRYPT dec) \<lparr>cbc_ecb = dec, cbc_key = kd\<rparr> (drop B cc @ x) = cc_xor B (drop B q) (take B cc)"
    by (simp add: ecb_from_cbc_def cccbc_set_iv_def ccmode_cbc_decrypt_def Let_def c same_size B_def)
qed

text \<open>What the three forms share, for one text.\<close>

lemma cts_split:
  assumes "ecb_init enc k m raw = (0, ke)" "ecb_init dec d m raw = (0, kd)" "length iv = ecb_block_size enc"
    "ecb_block_size enc < length p"
  defines "B \<equiv> ecb_block_size enc"
    and "ec \<equiv> \<lparr>cbc_ecb = enc, cbc_key = ke\<rparr>" and "dc \<equiv> \<lparr>cbc_ecb = dec, cbc_key = kd\<rparr>"
  obtains iv1 c hd t iv2 cc z where
    "p = hd @ t" "length c = length hd" "B < length t" "length t \<le> 2 * B"
    "ccpad_cts_crypt (CCMODE_FACTORY_CBC_ENCRYPT enc) ec iv (length p) p = (length t, iv1, t, c)"
    "\<And>x. length x = length t \<Longrightarrow>
      ccpad_cts_crypt (CCMODE_FACTORY_CBC_DECRYPT dec) dc iv (length p) (c @ x) = (length t, iv1, x, hd)"
    "cbc_encrypt_loop enc ke iv1 2 (cts_pad B t) = (iv2, cc)" "length cc = 2 * B"
    "cbc_decrypt_loop dec kd iv1 2 cc = (iv2, cts_pad B t)"
    "cbc_decrypt_loop dec kd iv1 1 (take B cc) = (take B cc, take B t)"
    "\<And>x. ecb_from_cbc (CCMODE_FACTORY_CBC_DECRYPT dec) dc (drop B cc @ x) = z"
    "take (length t - B) cc @ map ((!) z) [length t - B..<B] = take B cc"
    "map (\<lambda>i. take B cc ! i XOR z ! i) [0..<length t - B] = drop B t"
proof -
  let ?h = "cts_head B (length p)"
  define hd t where "hd = take (?h * B) p" and "t = drop (?h * B) p"
  obtain iv1 c where c: "cbc_encrypt_loop enc ke iv ?h p = (iv1, c)" by force
  have b: "0 < B" unfolding B_def by (rule enc.block_pos)
  note hb = cts_head_bounds [OF b, of "length p", folded B_def]
  have lp: "B < length p" using assms(4) by (simp add: B_def)
  have lt: "length t = length p - ?h * B" "B < length t" "length t \<le> 2 * B" using hb lp by (simp_all add: t_def)
  have p: "p = hd @ t" by (simp add: hd_def t_def)
  note H = cts_head_crypt [OF assms(1-4), folded B_def ec_def dc_def, OF c]
  have l1: "length iv1 = B" "length c = length hd" using H(3,4) [of t] lt hb(1) lp by (simp_all add: hd_def)
  have lq: "length (cts_pad B t) = 2 * B" using lt by (simp add: length_cts_pad)
  obtain iv2 cc where cc: "cbc_encrypt_loop enc ke iv1 2 (cts_pad B t) = (iv2, cc)" by force
  note T = cts_tail [OF assms(1,2), folded B_def dc_def, OF l1(1) lq cc]
  note S = cts_steal [OF lt(2,3) T(1)]
  show thesis
    using that [OF p l1(2) lt(2,3) _ _ cc T(1) _ _ _ S(1,2)] H(1) [of t] H(2) T(2) [of "[]"] T(3) [of "[]"] T(4) S(3) lt(1)
    by (simp add: hd_def t_def)
qed

text \<open>The three forms: the ciphertext is as long as the text, and decrypts to it.\<close>

lemma cts1_inverse:
  assumes "ecb_init enc k m raw = (0, ke)" "ecb_init dec d m raw = (0, kd)" "length iv = ecb_block_size enc"
    "ecb_block_size enc < length p"
    "ccpad_cts1_encrypt (CCMODE_FACTORY_CBC_ENCRYPT enc) \<lparr>cbc_ecb = enc, cbc_key = ke\<rparr> iv (length p) p = (n, iv', ct)"
  shows "n = length p \<and> length ct = length p \<and>
    (\<exists>iv'. ccpad_cts1_decrypt (CCMODE_FACTORY_CBC_DECRYPT dec) \<lparr>cbc_ecb = dec, cbc_key = kd\<rparr> iv (length p) ct = (length p, iv', p))"
proof (rule cts_split [OF assms(1-4)], goal_cases)
  case split: (1 iv1 c hd t iv2 cc z)
  let ?B = "ecb_block_size enc"
  have cp: "cbc_encrypt_loop enc ke iv1 2 (t @ replicate (?B + ?B - length t) 0) = (iv2, cc)"
      "cbc_encrypt_loop enc ke iv1 2 (t @ replicate (2 * ?B - length t) 0) = (iv2, cc)"
      "length t = 2 * ?B \<Longrightarrow> cbc_encrypt_loop enc ke iv1 2 t = (iv2, cc)"
    using split(7) by (simp_all add: cts_pad_def mult_2)
  have ct: "n = length p" "ct = c @ take (length t - ?B) cc @ drop ?B cc"
    using assms(5) split(3-5,8) cp
    by (auto simp: ccpad_cts1_encrypt_def swapblocks_def ccmode_cbc_encrypt_def Let_def mult.commute split: if_splits)
  have lx: "length (take (length t - ?B) cc @ drop ?B cc) = length t" using split(3,4,8) by simp
  note D = split(6) [OF lx]
  show ?thesis
  proof (cases "length t = 2 * ?B")
    case True
    then show ?thesis using D split(1,2,8,9) lx
      by (simp add: ct ccpad_cts1_decrypt_def swapblocks_def same_size ccmode_cbc_decrypt_def Let_def mult.commute cts_pad_def)
  next
    case False
    then show ?thesis using D split(1-4,8,10,12,13) split(11) [of "[]"] split(11) lx
      by (simp add: ct ccpad_cts1_decrypt_def swapblocks_def same_size ccmode_cbc_decrypt_def Let_def mult.commute)
  qed
qed

lemma cts2_inverse:
  assumes "ecb_init enc k m raw = (0, ke)" "ecb_init dec d m raw = (0, kd)" "length iv = ecb_block_size enc"
    "ecb_block_size enc < length p"
    "ccpad_cts2_encrypt (CCMODE_FACTORY_CBC_ENCRYPT enc) \<lparr>cbc_ecb = enc, cbc_key = ke\<rparr> iv (length p) p = (n, iv', ct)"
  shows "n = length p \<and> length ct = length p \<and>
    (\<exists>iv'. ccpad_cts2_decrypt (CCMODE_FACTORY_CBC_DECRYPT dec) \<lparr>cbc_ecb = dec, cbc_key = kd\<rparr> iv (length p) ct = (length p, iv', p))"
proof (rule cts_split [OF assms(1-4)], goal_cases)
  case split: (1 iv1 c hd t iv2 cc z)
  let ?B = "ecb_block_size enc"
  have cp: "cbc_encrypt_loop enc ke iv1 2 (t @ replicate (?B + ?B - length t) 0) = (iv2, cc)"
      "cbc_encrypt_loop enc ke iv1 2 (t @ replicate (2 * ?B - length t) 0) = (iv2, cc)"
      "length t = 2 * ?B \<Longrightarrow> cbc_encrypt_loop enc ke iv1 2 t = (iv2, cc)"
    using split(7) by (simp_all add: cts_pad_def mult_2)
  have ct: "n = length p" "ct = c @ (if length t = 2 * ?B then cc else drop ?B cc @ take (length t - ?B) cc)"
    using assms(5) split(3-5,8) cp
    by (auto simp: ccpad_cts2_encrypt_def swapblocks_def ccmode_cbc_encrypt_def Let_def mult.commute split: if_splits)
  have lx: "length ((if length t = 2 * ?B then cc else drop ?B cc @ take (length t - ?B) cc)) = length t" using split(3,4,8) by simp
  note D = split(6) [OF lx]
  show ?thesis
  proof (cases "length t = 2 * ?B")
    case True
    then show ?thesis using D split(1,2,8,9) lx
      by (simp add: ct ccpad_cts2_decrypt_def swapblocks_def same_size ccmode_cbc_decrypt_def Let_def mult.commute cts_pad_def)
  next
    case False
    then show ?thesis using D split(1-4,8,10,12,13) split(11) [of "[]"] split(11) lx
      by (simp add: ct ccpad_cts2_decrypt_def swapblocks_def same_size ccmode_cbc_decrypt_def Let_def mult.commute)
  qed
qed

lemma cts3_inverse:
  assumes "ecb_init enc k m raw = (0, ke)" "ecb_init dec d m raw = (0, kd)" "length iv = ecb_block_size enc"
    "ecb_block_size enc < length p"
    "ccpad_cts3_encrypt (CCMODE_FACTORY_CBC_ENCRYPT enc) \<lparr>cbc_ecb = enc, cbc_key = ke\<rparr> iv (length p) p = (n, iv', ct)"
  shows "n = length p \<and> length ct = length p \<and>
    (\<exists>iv'. ccpad_cts3_decrypt (CCMODE_FACTORY_CBC_DECRYPT dec) \<lparr>cbc_ecb = dec, cbc_key = kd\<rparr> iv (length p) ct = (length p, iv', p))"
proof (rule cts_split [OF assms(1-4)], goal_cases)
  case split: (1 iv1 c hd t iv2 cc z)
  let ?B = "ecb_block_size enc"
  have cp: "cbc_encrypt_loop enc ke iv1 2 (t @ replicate (?B + ?B - length t) 0) = (iv2, cc)"
      "cbc_encrypt_loop enc ke iv1 2 (t @ replicate (2 * ?B - length t) 0) = (iv2, cc)"
      "length t = 2 * ?B \<Longrightarrow> cbc_encrypt_loop enc ke iv1 2 t = (iv2, cc)"
    using split(7) by (simp_all add: cts_pad_def mult_2)
  have ct: "n = length p" "ct = c @ drop ?B cc @ take (length t - ?B) cc"
    using assms(5) split(3-5,8) cp
    by (auto simp: ccpad_cts3_encrypt_def swapblocks_def ccmode_cbc_encrypt_def Let_def mult.commute split: if_splits)
  have lx: "length (drop ?B cc @ take (length t - ?B) cc) = length t" using split(3,4,8) by simp
  note D = split(6) [OF lx]
  show ?thesis
  proof (cases "length t = 2 * ?B")
    case True
    then show ?thesis using D split(1,2,8,9) lx
      by (simp add: ct ccpad_cts3_decrypt_def swapblocks_def same_size ccmode_cbc_decrypt_def Let_def mult.commute cts_pad_def)
  next
    case False
    then show ?thesis using D split(1-4,8,10,12,13) split(11) [of "[]"] split(11) lx
      by (simp add: ct ccpad_cts3_decrypt_def swapblocks_def same_size ccmode_cbc_decrypt_def Let_def mult.commute)
  qed
qed

end

section \<open>PKCS7 is undone\<close>

definition pkcs7_pad :: "nat \<Rightarrow> bytes \<Rightarrow> bytes" where
  "pkcs7_pad B p = p @ replicate (B - length p mod B) (of_nat (B - length p mod B))"

lemma length_pkcs7_pad: "0 < B \<Longrightarrow> length (pkcs7_pad B p) = (length p div B + 1) * B"
proof -
  assume "0 < B"
  then have "length p mod B < B" by simp
  moreover have "length p = length p div B * B + length p mod B" by simp
  ultimately show ?thesis unfolding pkcs7_pad_def length_append length_replicate add_mult_distrib by linarith
qed

lemma and_block_size:
  fixes n B :: nat
  assumes "B = 2 ^ k"
  shows "n AND (B - 1) = n mod B"
  unfolding assms by (simp add: take_bit_eq_mod [symmetric] take_bit_eq_mask mask_eq_exp_minus_1)

lemma head_tail: "n - n mod B = n div B * B" for n B :: nat
  by (simp add: minus_mod_eq_div_mult)

lemma pkcs7_pad_parts:
  assumes "0 < B"
  shows "take (length p mod B) (drop (length p div B * B) p) @ replicate (B - length p mod B) (of_nat (B - length p mod B)) =
    drop (length p div B * B) (pkcs7_pad B p)"
proof -
  have "length p div B * B \<le> length p" by simp
  moreover have "length (drop (length p div B * B) p) = length p mod B" by (simp add: minus_div_mult_eq_mod)
  ultimately show ?thesis by (simp add: pkcs7_pad_def)
qed

lemma pkcs7_pad_size: "0 < B \<Longrightarrow> (length p div B + 1) * B - (B - length p mod B) = length (p :: bytes)"
  using length_pkcs7_pad [of B p] by (simp add: pkcs7_pad_def)

lemma pkcs7_decode_pad:
  assumes "0 < B" "B < 256"
  shows "ccpad_pkcs7_decode B (drop (length p div B * B) (pkcs7_pad B p)) = B - length p mod B"
proof -
  have r: "length p mod B < B" using assms by simp
  have l: "length (take (length p mod B) (drop (length p div B * B) p)) = length p mod B" by (simp add: minus_div_mult_eq_mod)
  have "drop (length p div B * B) (pkcs7_pad B p) ! (B - 1) = of_nat (B - length p mod B)"
    unfolding pkcs7_pad_parts [OF assms(1), symmetric] using l r by (auto simp: nth_append)
  moreover have "unat (of_nat (B - length p mod B) :: byte) = B - length p mod B" using assms(2) by (simp add: unat_of_nat)
  ultimately show ?thesis using r assms by (simp add: pkcs7_decode_eq Let_def del: of_nat_diff)
qed

context block_cipher_pair
begin

lemma pkcs7_encrypt_eq:
  assumes "ecb_block_size enc = 2 ^ k"
  shows "ccpad_pkcs7_encrypt (CCMODE_FACTORY_CBC_ENCRYPT enc) \<lparr>cbc_ecb = enc, cbc_key = ke\<rparr> iv (length p) p =
    ((length p div ecb_block_size enc + 1) * ecb_block_size enc,
     cbc_encrypt_loop enc ke iv (length p div ecb_block_size enc + 1) (pkcs7_pad (ecb_block_size enc) p))"
proof -
  let ?B = "ecb_block_size enc"
  have b: "0 < ?B" by (rule enc.block_pos)
  have "cbc_encrypt_loop enc ke iv (length p div ?B) (pkcs7_pad ?B p) = cbc_encrypt_loop enc ke iv (length p div ?B) p"
    by (simp add: pkcs7_pad_def enc.cbc_encrypt_append)
  then show ?thesis
    using b unfolding ccpad_pkcs7_encrypt_def enc.cbc_encrypt_loop_add cbc_factory Let_def and_block_size [OF assms] head_tail pkcs7_pad_parts [OF b]
    by (simp add: case_prod_beta ccmode_cbc_encrypt_def)
qed

lemma pkcs7_inverse:
  assumes "ecb_init enc k m raw = (0, ke)" "ecb_init dec d m raw = (0, kd)" "length iv = ecb_block_size enc"
    "ecb_block_size enc = 2 ^ j" "ecb_block_size enc < 256"
    "ccpad_pkcs7_encrypt (CCMODE_FACTORY_CBC_ENCRYPT enc) \<lparr>cbc_ecb = enc, cbc_key = ke\<rparr> iv (length p) p = (n, iv', ct)"
  shows "n = (length p div ecb_block_size enc + 1) * ecb_block_size enc" "length ct = n"
    "ccpad_pkcs7_decrypt (CCMODE_FACTORY_CBC_DECRYPT dec) \<lparr>cbc_ecb = dec, cbc_key = kd\<rparr> iv n ct =
      Some (length p, iv', pkcs7_pad (ecb_block_size enc) p)"
proof -
  let ?B = "ecb_block_size enc"
  have b: "0 < ?B" by (rule enc.block_pos)
  note e = pkcs7_encrypt_eq [OF assms(4), of ke iv p]
  show n: "n = (length p div ?B + 1) * ?B" using assms(6) unfolding e by simp
  have c: "cbc_encrypt_loop enc ke iv (length p div ?B + 1) (pkcs7_pad ?B p) = (iv', ct)" using assms(6) unfolding e by simp
  show "length ct = n" using enc.cbc_encrypt_lengths(2) [OF assms(3), of ke "length p div ?B + 1" "pkcs7_pad ?B p"] by (simp only: c n snd_conv)
  have l: "length (pkcs7_pad ?B p) = (length p div ?B + 1) * ?B" using b by (rule length_pkcs7_pad)
  have d: "cbc_decrypt_loop dec kd iv (length p div ?B + 1) ct = (iv', pkcs7_pad ?B p)"
    using cbc_inverse [OF assms(1-3) _ c, of "[]"] l by simp
  have nb: "n div ?B = length p div ?B + 1" using b by (simp only: n nonzero_mult_div_cancel_right)
  have "n - (?B - length p mod ?B) = length p"
    unfolding n using b by (rule pkcs7_pad_size)
  with nb d show "ccpad_pkcs7_decrypt (CCMODE_FACTORY_CBC_DECRYPT dec) \<lparr>cbc_ecb = dec, cbc_key = kd\<rparr> iv n ct =
      Some (length p, iv', pkcs7_pad (ecb_block_size enc) p)"
    using pkcs7_decode_pad [OF b assms(5), of p]
    by (simp add: ccpad_pkcs7_decrypt_def ccmode_cbc_decrypt_def same_size Let_def)
qed

lemma pkcs7_ecb_inverse:
  assumes "ecb_init enc k m raw = (0, ke)" "ecb_init dec d m raw = (0, kd)"
    "ecb_block_size enc = 2 ^ j" "ecb_block_size enc < 256"
    "ccpad_pkcs7_ecb_encrypt enc ke (length p) p = (n, ct)"
  shows "n = (length p div ecb_block_size enc + 1) * ecb_block_size enc" "length ct = n"
    "ccpad_pkcs7_ecb_decrypt dec kd n ct = Some (length p, pkcs7_pad (ecb_block_size enc) p)"
proof -
  let ?B = "ecb_block_size enc"
  let ?h = "length p div ?B"
  let ?E = "ecb_blocks ?B (ecb_block enc ke)"
  have b: "0 < ?B" by (rule enc.block_pos)
  have l: "length (pkcs7_pad ?B p) = (?h + 1) * ?B" using b by (rule length_pkcs7_pad)
  have "?E ?h (pkcs7_pad ?B p) = ?E ?h p"
    using ecb_blocks_take [of "ecb_block enc ke" ?B ?h "pkcs7_pad ?B p"] ecb_blocks_take [of "ecb_block enc ke" ?B ?h p]
    by (simp add: pkcs7_pad_def)
  then have e: "?E (?h + 1) (pkcs7_pad ?B p) = ?E ?h p @ ecb_block enc ke (drop (?h * ?B) (pkcs7_pad ?B p))"
    using ecb_blocks_add [of "ecb_block enc ke" ?B ?h 1 "pkcs7_pad ?B p"] by simp
  have ct: "n = (?h + 1) * ?B" "ct = ?E (?h + 1) (pkcs7_pad ?B p)"
    unfolding e using assms(5) l b unfolding ccpad_pkcs7_ecb_encrypt_def Let_def and_block_size [OF assms(3)] head_tail pkcs7_pad_parts [OF b]
    by (auto simp add: case_prod_beta enc.ecb_law)
  show "n = (?h + 1) * ?B" by (rule ct(1))
  show lc: "length ct = n" by (simp add: ct length_ecb_blocks)
  have "ecb_ecb enc ke (?h + 1) (pkcs7_pad ?B p) = (0, ct)"
    using enc.ecb_law [of "?h + 1" "pkcs7_pad ?B p" ke] l by (simp only: ct(2) order_refl simp_thms)
  then have "snd (ecb_ecb dec kd (?h + 1) ct) = pkcs7_pad ?B p"
    using ecb_inverse [OF assms(1,2), of "?h + 1" "pkcs7_pad ?B p"] l by simp
  moreover have "fst (ecb_ecb dec kd (?h + 1) ct) = 0"
    using dec.ecb_law [of "?h + 1" ct kd] lc ct(1) same_size by simp
  ultimately have d: "ecb_ecb dec kd (?h + 1) ct = (0, pkcs7_pad ?B p)" by (simp only: prod_eq_iff fst_conv snd_conv simp_thms)
  have nb: "n div ?B = ?h + 1" using b by (simp only: ct(1) nonzero_mult_div_cancel_right)
  have "n - (?B - length p mod ?B) = length p"
    unfolding ct(1) using b by (rule pkcs7_pad_size)
  with nb d show "ccpad_pkcs7_ecb_decrypt dec kd n ct = Some (length p, pkcs7_pad ?B p)"
    using pkcs7_decode_pad [OF b assms(4), of p]
    by (simp add: ccpad_pkcs7_ecb_decrypt_def same_size Let_def)
qed

end

end
