(* ===== verification/Ccmode_Stream.thy ===== *)
theory Ccmode_Stream
  imports Ccmode_Cbc Cc_Stream
begin

unbundle bit_operations_syntax

text \<open>
  The modes of \<open>ccmode/src\<close> that turn a block cipher into a byte stream: counter mode (\<open>ccmode_ctr_*.c\<close>),
  output feedback (\<open>ccmode_ofb_*.c\<close>), cipher feedback (\<open>ccmode_cfb_*.c\<close>, \<open>ccmode_cfb8_*.c\<close>), with their
  one-shot calls of \<open>ccmode.h\<close>.  Counter mode and output feedback are instances of \<open>stream_cipher\<close>.  A mode is a
  record of functions that are already applied to the cipher it was made for (\<open>custom\<close>).
\<close>

section \<open>Counter mode\<close>

text \<open>\<open>j\<close> is \<open>nbytes - i\<close> of the source.\<close>

fun inc_uint :: "bytes \<Rightarrow> nat \<Rightarrow> bytes" where
  "inc_uint buf 0 = buf"
| "inc_uint buf (Suc j) = (let buf = buf[j := buf ! j + 1] in if buf ! j > 0 then buf else inc_uint buf j)"

record 'k ccctr_ctx =
  ctr_ecb :: "'k ccmode_ecb"
  ctr_pad_offset :: nat
  ctr_pad :: bytes
  ctr_ctr :: bytes
  ctr_ecb_key :: 'k

record 'k ccmode_ctr =
  ctr_block_size :: nat
  ctr_ecb_block_size :: nat
  ctr_init :: "'k ccctr_ctx \<Rightarrow> nat \<Rightarrow> bytes \<Rightarrow> bytes \<Rightarrow> int \<times> 'k ccctr_ctx"
  ctr_setctr :: "'k ccctr_ctx \<Rightarrow> bytes \<Rightarrow> int \<times> 'k ccctr_ctx"
  ctr_crypt :: "'k ccctr_ctx \<Rightarrow> nat \<Rightarrow> bytes \<Rightarrow> int \<times> 'k ccctr_ctx \<times> bytes"

definition ccmode_ctr_setctr :: "'k ccctr_ctx \<Rightarrow> bytes \<Rightarrow> int \<times> 'k ccctr_ctx" where
  "ccmode_ctr_setctr ctx ctr =
     (0, ctx\<lparr>ctr_pad_offset := ecb_block_size (ctr_ecb ctx), ctr_ctr := take (ecb_block_size (ctr_ecb ctx)) ctr\<rparr>)"

definition ccmode_ctr_init ::
  "'k ccmode_ecb \<Rightarrow> ('k ccctr_ctx \<Rightarrow> bytes \<Rightarrow> int \<times> 'k ccctr_ctx) \<Rightarrow> 'k ccctr_ctx \<Rightarrow> nat \<Rightarrow> bytes \<Rightarrow> bytes \<Rightarrow> int \<times> 'k ccctr_ctx" where
  "ccmode_ctr_init ecb setctr key rawkey_len rawkey iv =
     (let key = key\<lparr>ctr_ecb := ecb\<rparr>;
          (rc, ecb_key) = ecb_init ecb (ctr_ecb_key key) rawkey_len rawkey;
          key = key\<lparr>ctr_ecb_key := ecb_key\<rparr>;
          (_, key) = setctr key iv
      in (rc, key))"

text \<open>The increment of the last bytes of the counter block.\<close>

definition ctr_increment :: "nat \<Rightarrow> bytes \<Rightarrow> bytes" where
  "ctr_increment block_size ctr =
     (let counter_size = min block_size 8
      in take (block_size - counter_size) ctr @ inc_uint (drop (block_size - counter_size) ctr) counter_size)"

text \<open>
  \<open>while (nbytes)\<close>.  A call that takes no byte would repeat for ever; it needs a cipher of block size 0
  or an offset above the block size, and the recursion stops there.
\<close>

function ctr_crypt_loop ::
  "'k ccmode_ecb \<Rightarrow> 'k \<Rightarrow> bytes \<Rightarrow> bytes \<Rightarrow> nat \<Rightarrow> nat \<Rightarrow> bytes \<Rightarrow> bytes \<times> bytes \<times> nat \<times> bytes" where
  "ctr_crypt_loop ecb ecb_key ctr pad pad_offset nbytes inp =
     (if nbytes = 0 then (ctr, pad, pad_offset, [])
      else let (ctr, pad, pad_offset) =
                 (if pad_offset = ecb_block_size ecb
                  then (ctr_increment (ecb_block_size ecb) ctr, snd (ecb_ecb ecb ecb_key 1 ctr), 0)
                  else (ctr, pad, pad_offset));
               n = min nbytes (ecb_block_size ecb - pad_offset);
               out = cc_xor n inp (drop pad_offset pad)
           in if n = 0 then (ctr, pad, pad_offset, [])
              else let (ctr, pad, pad_offset, rest) =
                         ctr_crypt_loop ecb ecb_key ctr pad (pad_offset + n) (nbytes - n) (drop n inp)
                   in (ctr, pad, pad_offset, out @ rest))"
  by pat_completeness auto
termination
  by (relation "measure (\<lambda>(ecb, ecb_key, ctr, pad, pad_offset, nbytes, inp). nbytes)") (auto split: if_splits)

declare ctr_crypt_loop.simps [simp del]

definition ccmode_ctr_crypt :: "'k ccctr_ctx \<Rightarrow> nat \<Rightarrow> bytes \<Rightarrow> int \<times> 'k ccctr_ctx \<times> bytes" where
  "ccmode_ctr_crypt key nbytes inp =
     (let (ctr, pad, pad_offset, out) =
            ctr_crypt_loop (ctr_ecb key) (ctr_ecb_key key) (ctr_ctr key) (ctr_pad key) (ctr_pad_offset key) nbytes inp
      in (0, key\<lparr>ctr_ctr := ctr, ctr_pad := pad, ctr_pad_offset := pad_offset\<rparr>, out))"

definition CCMODE_FACTORY_CTR_CRYPT :: "'k ccmode_ecb \<Rightarrow> 'k ccmode_ctr" where
  "CCMODE_FACTORY_CTR_CRYPT ecb =
     \<lparr>ctr_block_size = 1, ctr_ecb_block_size = ecb_block_size ecb, ctr_init = ccmode_ctr_init ecb ccmode_ctr_setctr,
      ctr_setctr = ccmode_ctr_setctr, ctr_crypt = ccmode_ctr_crypt\<rparr>"

definition ccctr_one_shot ::
  "'k ccmode_ctr \<Rightarrow> 'k ccctr_ctx \<Rightarrow> nat \<Rightarrow> bytes \<Rightarrow> bytes \<Rightarrow> nat \<Rightarrow> bytes \<Rightarrow> int \<times> bytes" where
  "ccctr_one_shot mode ctx key_len key iv nbytes inp =
     (let (rc, ctx) = ctr_init mode ctx key_len key iv
      in if rc = 0 then let (rc, ctx, out) = ctr_crypt mode ctx nbytes inp in (rc, out) else (rc, []))"

section \<open>Output feedback\<close>

record 'k ccofb_ctx =
  ofb_ecb :: "'k ccmode_ecb"
  ofb_pad_len :: nat
  ofb_iv :: bytes
  ofb_ecb_key :: 'k

record 'k ccmode_ofb =
  ofb_block_size :: nat
  ofb_init :: "'k ccofb_ctx \<Rightarrow> nat \<Rightarrow> bytes \<Rightarrow> bytes \<Rightarrow> int \<times> 'k ccofb_ctx"
  ofb_crypt :: "'k ccofb_ctx \<Rightarrow> nat \<Rightarrow> bytes \<Rightarrow> int \<times> 'k ccofb_ctx \<times> bytes"

definition ccmode_ofb_init :: "'k ccmode_ecb \<Rightarrow> 'k ccofb_ctx \<Rightarrow> nat \<Rightarrow> bytes \<Rightarrow> bytes \<Rightarrow> int \<times> 'k ccofb_ctx" where
  "ccmode_ofb_init ecb key rawkey_len rawkey iv =
     (let key = key\<lparr>ofb_ecb := ecb, ofb_iv := take (ecb_block_size ecb) iv, ofb_pad_len := ecb_block_size ecb\<rparr>;
          (rc, ecb_key) = ecb_init ecb (ofb_ecb_key key) rawkey_len rawkey
      in (rc, key\<lparr>ofb_ecb_key := ecb_key\<rparr>))"

fun ofb_crypt_loop :: "'k ccmode_ecb \<Rightarrow> 'k \<Rightarrow> bytes \<Rightarrow> nat \<Rightarrow> nat \<Rightarrow> bytes \<Rightarrow> bytes \<times> nat \<times> bytes" where
  "ofb_crypt_loop ecb ecb_key pad pad_len 0 pt = (pad, pad_len, [])"
| "ofb_crypt_loop ecb ecb_key pad pad_len (Suc nbytes) pt =
     (let (pad, pad_len) = (if pad_len = ecb_block_size ecb then (snd (ecb_ecb ecb ecb_key 1 pad), 0) else (pad, pad_len));
          ct = pt ! 0 XOR pad ! pad_len;
          (pad, pad_len, rest) = ofb_crypt_loop ecb ecb_key pad (pad_len + 1) nbytes (drop 1 pt)
      in (pad, pad_len, ct # rest))"

definition ccmode_ofb_crypt :: "'k ccofb_ctx \<Rightarrow> nat \<Rightarrow> bytes \<Rightarrow> int \<times> 'k ccofb_ctx \<times> bytes" where
  "ccmode_ofb_crypt key nbytes inp =
     (let (pad, pad_len, out) = ofb_crypt_loop (ofb_ecb key) (ofb_ecb_key key) (ofb_iv key) (ofb_pad_len key) nbytes inp
      in (0, key\<lparr>ofb_iv := pad, ofb_pad_len := pad_len\<rparr>, out))"

definition CCMODE_FACTORY_OFB_CRYPT :: "'k ccmode_ecb \<Rightarrow> 'k ccmode_ofb" where
  "CCMODE_FACTORY_OFB_CRYPT ecb =
     \<lparr>ofb_block_size = 1, ofb_init = ccmode_ofb_init ecb, ofb_crypt = ccmode_ofb_crypt\<rparr>"

definition ccofb_one_shot ::
  "'k ccmode_ofb \<Rightarrow> 'k ccofb_ctx \<Rightarrow> nat \<Rightarrow> bytes \<Rightarrow> bytes \<Rightarrow> nat \<Rightarrow> bytes \<Rightarrow> int \<times> bytes" where
  "ccofb_one_shot mode ctx key_len key iv nbytes inp =
     (let (rc, ctx) = ofb_init mode ctx key_len key iv
      in if rc = 0 then let (rc, ctx, out) = ofb_crypt mode ctx nbytes inp in (rc, out) else (rc, []))"


section \<open>Cipher feedback\<close>

record 'k cccfb_ctx =
  cfb_ecb :: "'k ccmode_ecb"
  cfb_pad_len :: nat
  cfb_pad :: bytes
  cfb_iv :: bytes
  cfb_ecb_key :: 'k

record 'k ccmode_cfb =
  cfb_block_size :: nat
  cfb_init :: "'k cccfb_ctx \<Rightarrow> nat \<Rightarrow> bytes \<Rightarrow> bytes option \<Rightarrow> int \<times> 'k cccfb_ctx"
  cfb_cfb :: "'k cccfb_ctx \<Rightarrow> nat \<Rightarrow> bytes \<Rightarrow> int \<times> 'k cccfb_ctx \<times> bytes"

definition ccmode_cfb_init :: "'k ccmode_ecb \<Rightarrow> 'k cccfb_ctx \<Rightarrow> nat \<Rightarrow> bytes \<Rightarrow> bytes option \<Rightarrow> int \<times> 'k cccfb_ctx" where
  "ccmode_cfb_init ecb key rawkey_len rawkey iv =
     (let key = key\<lparr>cfb_ecb := ecb,
            cfb_iv := (case iv of Some iv \<Rightarrow> take (ecb_block_size ecb) iv | None \<Rightarrow> replicate (ecb_block_size ecb) 0)\<rparr>;
          (rc, ecb_key) = ecb_init ecb (cfb_ecb_key key) rawkey_len rawkey
      in (rc, key\<lparr>cfb_ecb_key := ecb_key, cfb_pad_len := ecb_block_size ecb\<rparr>))"

fun cfb_encrypt_loop :: "'k ccmode_ecb \<Rightarrow> 'k \<Rightarrow> bytes \<Rightarrow> bytes \<Rightarrow> nat \<Rightarrow> nat \<Rightarrow> bytes \<Rightarrow> bytes \<times> bytes \<times> nat \<times> bytes" where
  "cfb_encrypt_loop ecb ecb_key iv pad pad_len 0 pt = (iv, pad, pad_len, [])"
| "cfb_encrypt_loop ecb ecb_key iv pad pad_len (Suc nbytes) pt =
     (let (pad, pad_len) = (if pad_len = ecb_block_size ecb then (snd (ecb_ecb ecb ecb_key 1 iv), 0) else (pad, pad_len));
          ct = pt ! 0 XOR pad ! pad_len;
          (iv, pad, pad_len, rest) = cfb_encrypt_loop ecb ecb_key (iv[pad_len := ct]) pad (pad_len + 1) nbytes (drop 1 pt)
      in (iv, pad, pad_len, ct # rest))"

definition ccmode_cfb_encrypt :: "'k cccfb_ctx \<Rightarrow> nat \<Rightarrow> bytes \<Rightarrow> int \<times> 'k cccfb_ctx \<times> bytes" where
  "ccmode_cfb_encrypt key nbytes pt =
     (let (iv, pad, pad_len, ct) =
            cfb_encrypt_loop (cfb_ecb key) (cfb_ecb_key key) (cfb_iv key) (cfb_pad key) (cfb_pad_len key) nbytes pt
      in (0, key\<lparr>cfb_iv := iv, cfb_pad := pad, cfb_pad_len := pad_len\<rparr>, ct))"

fun cfb_decrypt_loop :: "'k ccmode_ecb \<Rightarrow> 'k \<Rightarrow> bytes \<Rightarrow> bytes \<Rightarrow> nat \<Rightarrow> nat \<Rightarrow> bytes \<Rightarrow> bytes \<times> bytes \<times> nat \<times> bytes" where
  "cfb_decrypt_loop ecb ecb_key iv pad pad_len 0 ct = (iv, pad, pad_len, [])"
| "cfb_decrypt_loop ecb ecb_key iv pad pad_len (Suc nbytes) ct =
     (let (pad, pad_len) = (if pad_len = ecb_block_size ecb then (snd (ecb_ecb ecb ecb_key 1 iv), 0) else (pad, pad_len));
          pt = ct ! 0 XOR pad ! pad_len;
          (iv, pad, pad_len, rest) = cfb_decrypt_loop ecb ecb_key (iv[pad_len := ct ! 0]) pad (pad_len + 1) nbytes (drop 1 ct)
      in (iv, pad, pad_len, pt # rest))"

definition ccmode_cfb_decrypt :: "'k cccfb_ctx \<Rightarrow> nat \<Rightarrow> bytes \<Rightarrow> int \<times> 'k cccfb_ctx \<times> bytes" where
  "ccmode_cfb_decrypt key nbytes ct =
     (let (iv, pad, pad_len, pt) =
            cfb_decrypt_loop (cfb_ecb key) (cfb_ecb_key key) (cfb_iv key) (cfb_pad key) (cfb_pad_len key) nbytes ct
      in (0, key\<lparr>cfb_iv := iv, cfb_pad := pad, cfb_pad_len := pad_len\<rparr>, pt))"

definition CCMODE_FACTORY_CFB_ENCRYPT :: "'k ccmode_ecb \<Rightarrow> 'k ccmode_cfb" where
  "CCMODE_FACTORY_CFB_ENCRYPT ecb = \<lparr>cfb_block_size = 1, cfb_init = ccmode_cfb_init ecb, cfb_cfb = ccmode_cfb_encrypt\<rparr>"

definition CCMODE_FACTORY_CFB_DECRYPT :: "'k ccmode_ecb \<Rightarrow> 'k ccmode_cfb" where
  "CCMODE_FACTORY_CFB_DECRYPT ecb = \<lparr>cfb_block_size = 1, cfb_init = ccmode_cfb_init ecb, cfb_cfb = ccmode_cfb_decrypt\<rparr>"

definition cccfb_one_shot ::
  "'k ccmode_cfb \<Rightarrow> 'k cccfb_ctx \<Rightarrow> nat \<Rightarrow> bytes \<Rightarrow> bytes option \<Rightarrow> nat \<Rightarrow> bytes \<Rightarrow> int \<times> bytes" where
  "cccfb_one_shot mode ctx key_len key iv nbytes inp =
     (let (rc, ctx) = cfb_init mode ctx key_len key iv
      in if rc = 0 then let (rc, ctx, out) = cfb_cfb mode ctx nbytes inp in (rc, out) else (rc, []))"

section \<open>Cipher feedback of single bytes\<close>

record 'k cccfb8_ctx =
  cfb8_ecb :: "'k ccmode_ecb"
  cfb8_pad :: bytes
  cfb8_iv :: bytes
  cfb8_ecb_key :: 'k

record 'k ccmode_cfb8 =
  cfb8_block_size :: nat
  cfb8_init :: "'k cccfb8_ctx \<Rightarrow> nat \<Rightarrow> bytes \<Rightarrow> bytes option \<Rightarrow> int \<times> 'k cccfb8_ctx"
  cfb8_cfb8 :: "'k cccfb8_ctx \<Rightarrow> nat \<Rightarrow> bytes \<Rightarrow> int \<times> 'k cccfb8_ctx \<times> bytes"

definition ccmode_cfb8_init :: "'k ccmode_ecb \<Rightarrow> 'k cccfb8_ctx \<Rightarrow> nat \<Rightarrow> bytes \<Rightarrow> bytes option \<Rightarrow> int \<times> 'k cccfb8_ctx" where
  "ccmode_cfb8_init ecb key rawkey_len rawkey iv =
     (let key = key\<lparr>cfb8_ecb := ecb,
            cfb8_iv := (case iv of Some iv \<Rightarrow> take (ecb_block_size ecb) iv | None \<Rightarrow> replicate (ecb_block_size ecb) 0)\<rparr>;
          (rc, ecb_key) = ecb_init ecb (cfb8_ecb_key key) rawkey_len rawkey
      in (rc, key\<lparr>cfb8_ecb_key := ecb_key, cfb8_pad := snd (ecb_ecb ecb ecb_key 1 (cfb8_iv key))\<rparr>))"

text \<open>\<open>cc_memmove\<close> of the chaining block by one byte, and its last byte.\<close>

definition cfb8_shift :: "nat \<Rightarrow> bytes \<Rightarrow> byte \<Rightarrow> bytes" where
  "cfb8_shift block_size iv b = (take (block_size - 1) (drop 1 iv) @ drop (block_size - 1) iv)[block_size - 1 := b]"

fun cfb8_encrypt_loop :: "'k ccmode_ecb \<Rightarrow> 'k \<Rightarrow> bytes \<Rightarrow> bytes \<Rightarrow> nat \<Rightarrow> bytes \<Rightarrow> bytes \<times> bytes \<times> bytes" where
  "cfb8_encrypt_loop ecb ecb_key iv pad 0 pt = (iv, pad, [])"
| "cfb8_encrypt_loop ecb ecb_key iv pad (Suc nbytes) pt =
     (let ct = pad ! 0 XOR pt ! 0;
          iv = cfb8_shift (ecb_block_size ecb) iv ct;
          pad = snd (ecb_ecb ecb ecb_key 1 iv);
          (iv, pad, rest) = cfb8_encrypt_loop ecb ecb_key iv pad nbytes (drop 1 pt)
      in (iv, pad, ct # rest))"

definition ccmode_cfb8_encrypt :: "'k cccfb8_ctx \<Rightarrow> nat \<Rightarrow> bytes \<Rightarrow> int \<times> 'k cccfb8_ctx \<times> bytes" where
  "ccmode_cfb8_encrypt key nbytes pt =
     (let (iv, pad, ct) = cfb8_encrypt_loop (cfb8_ecb key) (cfb8_ecb_key key) (cfb8_iv key) (cfb8_pad key) nbytes pt
      in (0, key\<lparr>cfb8_iv := iv, cfb8_pad := pad\<rparr>, ct))"

fun cfb8_decrypt_loop :: "'k ccmode_ecb \<Rightarrow> 'k \<Rightarrow> bytes \<Rightarrow> bytes \<Rightarrow> nat \<Rightarrow> bytes \<Rightarrow> bytes \<times> bytes \<times> bytes" where
  "cfb8_decrypt_loop ecb ecb_key iv pad 0 ct = (iv, pad, [])"
| "cfb8_decrypt_loop ecb ecb_key iv pad (Suc nbytes) ct =
     (let cb = ct ! 0;
          iv = cfb8_shift (ecb_block_size ecb) iv cb;
          pt = pad ! 0 XOR cb;
          pad = snd (ecb_ecb ecb ecb_key 1 iv);
          (iv, pad, rest) = cfb8_decrypt_loop ecb ecb_key iv pad nbytes (drop 1 ct)
      in (iv, pad, pt # rest))"

definition ccmode_cfb8_decrypt :: "'k cccfb8_ctx \<Rightarrow> nat \<Rightarrow> bytes \<Rightarrow> int \<times> 'k cccfb8_ctx \<times> bytes" where
  "ccmode_cfb8_decrypt key nbytes ct =
     (let (iv, pad, pt) = cfb8_decrypt_loop (cfb8_ecb key) (cfb8_ecb_key key) (cfb8_iv key) (cfb8_pad key) nbytes ct
      in (0, key\<lparr>cfb8_iv := iv, cfb8_pad := pad\<rparr>, pt))"

definition CCMODE_FACTORY_CFB8_ENCRYPT :: "'k ccmode_ecb \<Rightarrow> 'k ccmode_cfb8" where
  "CCMODE_FACTORY_CFB8_ENCRYPT ecb = \<lparr>cfb8_block_size = 1, cfb8_init = ccmode_cfb8_init ecb, cfb8_cfb8 = ccmode_cfb8_encrypt\<rparr>"

definition CCMODE_FACTORY_CFB8_DECRYPT :: "'k ccmode_ecb \<Rightarrow> 'k ccmode_cfb8" where
  "CCMODE_FACTORY_CFB8_DECRYPT ecb = \<lparr>cfb8_block_size = 1, cfb8_init = ccmode_cfb8_init ecb, cfb8_cfb8 = ccmode_cfb8_decrypt\<rparr>"

definition cccfb8_one_shot ::
  "'k ccmode_cfb8 \<Rightarrow> 'k cccfb8_ctx \<Rightarrow> nat \<Rightarrow> bytes \<Rightarrow> bytes option \<Rightarrow> nat \<Rightarrow> bytes \<Rightarrow> int \<times> bytes" where
  "cccfb8_one_shot mode ctx key_len key iv nbytes inp =
     (let (rc, ctx) = cfb8_init mode ctx key_len key iv
      in if rc = 0 then let (rc, ctx, out) = cfb8_cfb8 mode ctx nbytes inp in (rc, out) else (rc, []))"

section \<open>The counter\<close>

lemma length_inc_uint [simp]: "length (inc_uint buf n) = length buf"
  by (induction n arbitrary: buf) (simp_all add: Let_def)

lemma drop_inc_uint: "n \<le> m \<Longrightarrow> drop m (inc_uint buf n) = drop m buf"
  by (induction n arbitrary: buf) (simp_all add: Let_def)

lemma inc_uint_append: "n \<le> length xs \<Longrightarrow> inc_uint (xs @ ys) n = inc_uint xs n @ ys"
  by (induction n arbitrary: xs) (simp_all add: Let_def list_update_append nth_append Suc_le_eq)

text \<open>Read as a number, the counter goes up by one, modulo its width.\<close>

lemma inc_uint_val: "n \<le> length buf \<Longrightarrow> be_val (take n (inc_uint buf n)) = (be_val (take n buf) + 1) mod 256 ^ n"
proof (induction n arbitrary: buf)
  case (Suc n)
  define b where "b = buf ! n"
  have l: "n < length buf" using Suc.prems by simp
  have t: "be_val (take (Suc n) xs) = be_val (take n xs) * 256 + unat (xs ! n)" if "n < length xs" for xs
    using that by (simp add: take_Suc_conv_app_nth)
  have bd: "be_val (take n buf) < 256 ^ n" using be_val_bound [of "take n buf"] l by (simp add: min_def)
  show ?case
  proof (cases "b + 1 = 0")
    case True
    then have "b = - 1" by (simp only: eq_neg_iff_add_eq_0)
    then have ub: "unat b = 255" by (simp add: unsigned_minus_1_eq_mask mask_eq_exp_minus_1)
    have e: "inc_uint buf (Suc n) = inc_uint (buf[n := 0]) n" using True l by (simp add: Let_def b_def)
    have "be_val (take (Suc n) (inc_uint buf (Suc n))) = be_val (take n (inc_uint (buf[n := 0]) n)) * 256 + unat (inc_uint (buf[n := 0]) n ! n)"
      unfolding e using l by (simp add: t)
    also have "inc_uint (buf[n := 0]) n ! n = 0"
      using drop_inc_uint [OF order_refl, of n "buf[n := 0]"] l by (metis Cons_nth_drop_Suc length_inc_uint length_list_update list.inject nth_list_update_eq)
    also have "be_val (take n (inc_uint (buf[n := 0]) n)) = (be_val (take n buf) + 1) mod 256 ^ n"
      using Suc.IH [of "buf[n := 0]"] l by simp
    finally show ?thesis using l ub by (simp add: t b_def del: inc_uint.simps) (simp add: mult_mod_right mult.commute [of _ 256])
  next
    case False
    then have e: "inc_uint buf (Suc n) = buf[n := b + 1]" using l by (simp add: Let_def b_def word_gt_0)
    have u: "unat (b + 1) = unat b + 1" using False unatSuc [of b] by (simp add: add.commute)
    have "unat (b + 1) < 256" using unsigned_less [of "b + 1"] by simp
    with bd have "be_val (take n buf) * 256 + unat b + 1 < 256 ^ Suc n" unfolding u power_Suc by linarith
    then show ?thesis unfolding e using l by (simp add: t b_def u [unfolded b_def])
  qed
qed simp


section \<open>The key streams\<close>

text \<open>What is left of the current pad, then the blocks to come.\<close>

definition pad_stream :: "nat \<Rightarrow> nat \<Rightarrow> bytes \<Rightarrow> (nat \<Rightarrow> bytes) \<Rightarrow> nat \<Rightarrow> byte" where
  "pad_stream B off pad blocks i =
     (if i < B - off then pad ! (off + i) else blocks ((i - (B - off)) div B) ! ((i - (B - off)) mod B))"

lemma pad_stream_shift: "off + n \<le> B \<Longrightarrow> pad_stream B off pad blocks (n + i) = pad_stream B (off + n) pad blocks i"
  by (auto simp: pad_stream_def add.assoc intro!: arg_cong2 [of _ _ _ _ "\<lambda>k l. blocks (k div B) ! (l mod B)"])

lemma pad_stream_refill:
  assumes "0 < B"
  shows "pad_stream B B pad blocks = pad_stream B 0 (blocks 0) (\<lambda>k. blocks (Suc k))"
proof
  fix i
  have "i div B = Suc ((i - B) div B) \<and> i mod B = (i - B) mod B" if "\<not> i < B"
    using that assms by (simp add: le_div_geq le_mod_geq)
  then show "pad_stream B B pad blocks i = pad_stream B 0 (blocks 0) (\<lambda>k. blocks (Suc k)) i"
    by (auto simp: pad_stream_def)
qed

lemma mask_pad: "off + n \<le> B \<Longrightarrow> cc_xor n xs (drop off pad) = mask_with (pad_stream B off pad blocks) n xs"
  if "B \<le> length pad" for pad
  using that by (intro nth_equalityI) (auto simp: nth_cc_xor pad_stream_def)

lemma mask_with_shift:
  assumes "n \<le> length xs" "\<And>i. ks' i = ks (n + i)"
  shows "mask_with ks n xs @ mask_with ks' m (drop n xs) = mask_with ks (n + m) xs"
proof -
  have "ks' = (\<lambda>i. ks (n + i))" using assms(2) by auto
  then show ?thesis using mask_with_append [OF assms(1), of ks m] by simp
qed

definition ctr_wf :: "'k ccmode_ecb \<Rightarrow> 'k ccctr_ctx \<Rightarrow> bool" where
  "ctr_wf ecb ctx \<longleftrightarrow> ctr_ecb ctx = ecb \<and> ctr_pad_offset ctx \<le> ecb_block_size ecb \<and>
     (ctr_pad_offset ctx < ecb_block_size ecb \<longrightarrow> length (ctr_pad ctx) = ecb_block_size ecb)"

definition ctr_blocks :: "'k ccmode_ecb \<Rightarrow> 'k \<Rightarrow> bytes \<Rightarrow> nat \<Rightarrow> bytes" where
  "ctr_blocks ecb ecb_key ctr k = ecb_block ecb ecb_key ((ctr_increment (ecb_block_size ecb) ^^ k) ctr)"

definition ctr_stream :: "'k ccctr_ctx \<Rightarrow> nat \<Rightarrow> byte" where
  "ctr_stream ctx = pad_stream (ecb_block_size (ctr_ecb ctx)) (ctr_pad_offset ctx) (ctr_pad ctx)
     (ctr_blocks (ctr_ecb ctx) (ctr_ecb_key ctx) (ctr_ctr ctx))"

lemma ctr_blocks_Suc: "ctr_blocks ecb key ctr (Suc k) = ctr_blocks ecb key (ctr_increment (ecb_block_size ecb) ctr) k"
  by (simp add: ctr_blocks_def funpow_Suc_right del: funpow.simps)

context block_cipher
begin

lemma ctr_loop_law:
  assumes "nbytes \<le> length xs" "off \<le> ecb_block_size ecb" "off < ecb_block_size ecb \<longrightarrow> length pad = ecb_block_size ecb"
    "ctr_crypt_loop ecb key ctr pad off nbytes xs = (ctr', pad', off', out)"
  shows "off' \<le> ecb_block_size ecb \<and> (off' < ecb_block_size ecb \<longrightarrow> length pad' = ecb_block_size ecb) \<and>
    out = mask_with (pad_stream (ecb_block_size ecb) off pad (ctr_blocks ecb key ctr)) nbytes xs \<and>
    (\<forall>i. pad_stream (ecb_block_size ecb) off' pad' (ctr_blocks ecb key ctr') i =
      pad_stream (ecb_block_size ecb) off pad (ctr_blocks ecb key ctr) (nbytes + i))"
  using assms
proof (induction nbytes arbitrary: xs ctr pad off out rule: less_induct)
  case (less nbytes)
  let ?B = "ecb_block_size ecb"
  show ?case
  proof (cases "nbytes = 0")
    case True
    then show ?thesis using less.prems by (simp add: ctr_crypt_loop.simps mask_with_def)
  next
    case False
    define full where "full \<longleftrightarrow> off = ?B"
    define ctr1 pad1 off1 where "ctr1 = (if full then ctr_increment ?B ctr else ctr)"
      and "pad1 = (if full then ecb_block ecb key ctr else pad)" and "off1 = (if full then 0 else off)"
    define n where "n = min nbytes (?B - off1)"
    have l: "off1 < ?B" "length pad1 = ?B"
      using less.prems(2,3) block_pos by (auto simp: off1_def pad1_def full_def)
    have s: "pad_stream ?B off pad (ctr_blocks ecb key ctr) = pad_stream ?B off1 pad1 (ctr_blocks ecb key ctr1)"
      using pad_stream_refill [OF block_pos, of pad "ctr_blocks ecb key ctr"]
      by (simp add: full_def off1_def pad1_def ctr1_def ctr_blocks_Suc) (simp add: ctr_blocks_def)
    have n: "0 < n" "n \<le> nbytes" "off1 + n \<le> ?B" using l(1) False by (auto simp: n_def)
    obtain rest where r: "ctr_crypt_loop ecb key ctr1 pad1 (off1 + n) (nbytes - n) (drop n xs) = (ctr', pad', off', rest)"
      "out = cc_xor n xs (drop off1 pad1) @ rest"
      using less.prems(4) False n(1)
      by (subst (asm) ctr_crypt_loop.simps)
        (auto simp: Let_def full_def ctr1_def pad1_def off1_def n_def split: if_splits prod.splits)
    have ih: "off' \<le> ?B \<and> (off' < ?B \<longrightarrow> length pad' = ?B) \<and>
        rest = mask_with (pad_stream ?B (off1 + n) pad1 (ctr_blocks ecb key ctr1)) (nbytes - n) (drop n xs) \<and>
        (\<forall>i. pad_stream ?B off' pad' (ctr_blocks ecb key ctr') i =
          pad_stream ?B (off1 + n) pad1 (ctr_blocks ecb key ctr1) (nbytes - n + i))"
      using n l less.prems(1) by (intro less.IH [OF _ _ _ _ r(1)]) simp_all
    have "out = mask_with (pad_stream ?B off1 pad1 (ctr_blocks ecb key ctr1)) (n + (nbytes - n)) xs"
      using r(2) ih mask_pad [of ?B pad1 off1 n xs "ctr_blocks ecb key ctr1"] l n less.prems(1)
      by (simp only:) (intro mask_with_shift pad_stream_shift [symmetric]; simp)
    moreover have "pad_stream ?B (off1 + n) pad1 (ctr_blocks ecb key ctr1) (nbytes - n + i) =
        pad_stream ?B off1 pad1 (ctr_blocks ecb key ctr1) (nbytes + i)" for i
      using pad_stream_shift [OF n(3), of pad1 "ctr_blocks ecb key ctr1" "nbytes - n + i"] n(2) by simp
    ultimately show ?thesis using ih n(2) unfolding s by simp
  qed
qed

end

sublocale block_cipher \<subseteq> ctr: stream_cipher "ctr_wf ecb" ctr_stream "\<lambda>ctx n xs. snd (ccmode_ctr_crypt ctx n xs)"
proof
  fix c n xs c' out
  assume a: "ctr_wf ecb c" "n \<le> length xs" "snd (ccmode_ctr_crypt c n xs) = (c', out)"
  obtain ctr pad off where l: "ctr_crypt_loop ecb (ctr_ecb_key c) (ctr_ctr c) (ctr_pad c) (ctr_pad_offset c) n xs = (ctr, pad, off, out)"
    and c': "c' = c\<lparr>ctr_ctr := ctr, ctr_pad := pad, ctr_pad_offset := off\<rparr>"
    using a(1,3) by (auto simp: ccmode_ctr_crypt_def ctr_wf_def split: prod.splits)
  show "ctr_wf ecb c' \<and> out = mask_with (ctr_stream c) n xs \<and> (\<forall>i. ctr_stream c' i = ctr_stream c (n + i))"
    using ctr_loop_law [OF a(2) _ _ l] a(1) by (simp add: c' ctr_wf_def ctr_stream_def)
qed


text \<open>From a fresh context: block \<open>k\<close> of the stream is the cipher of the counter plus \<open>k\<close>.\<close>

lemma ctr_stream_fresh:
  "ctr_pad_offset ctx = ecb_block_size (ctr_ecb ctx) \<Longrightarrow>
   ctr_stream ctx i = ctr_blocks (ctr_ecb ctx) (ctr_ecb_key ctx) (ctr_ctr ctx) (i div ecb_block_size (ctr_ecb ctx)) !
     (i mod ecb_block_size (ctr_ecb ctx))"
  by (simp add: ctr_stream_def pad_stream_def)

text \<open>Counter blocks as numbers: the upper bytes stay, the counter field counts modulo its width.\<close>

lemma ctr_increment_val:
  assumes "length ctr = B"
  shows "length (ctr_increment B ctr) = B" "take (B - min B 8) (ctr_increment B ctr) = take (B - min B 8) ctr"
    "be_val (drop (B - min B 8) (ctr_increment B ctr)) = (be_val (drop (B - min B 8) ctr) + 1) mod 256 ^ min B 8"
  using assms inc_uint_val [of "min B 8" "drop (B - min B 8) ctr"] by (auto simp: ctr_increment_def Let_def min_def)

lemma ctr_increments:
  assumes "length ctr = B"
  shows "length ((ctr_increment B ^^ k) ctr) = B \<and> take (B - min B 8) ((ctr_increment B ^^ k) ctr) = take (B - min B 8) ctr \<and>
    be_val (drop (B - min B 8) ((ctr_increment B ^^ k) ctr)) = (be_val (drop (B - min B 8) ctr) + k) mod 256 ^ min B 8"
proof (induction k)
  case 0
  then show ?case using assms be_val_bound [of "drop (B - min B 8) ctr"] by (auto simp: min_def split: if_splits)
next
  case (Suc k)
  then show ?case using ctr_increment_val [of "(ctr_increment B ^^ k) ctr" B] by (simp add: mod_Suc_eq)
qed

section \<open>Output feedback as a stream\<close>

definition ofb_wf :: "'k ccmode_ecb \<Rightarrow> 'k ccofb_ctx \<Rightarrow> bool" where
  "ofb_wf ecb ctx \<longleftrightarrow> ofb_ecb ctx = ecb \<and> ofb_pad_len ctx \<le> ecb_block_size ecb"

definition ofb_blocks :: "'k ccmode_ecb \<Rightarrow> 'k \<Rightarrow> bytes \<Rightarrow> nat \<Rightarrow> bytes" where
  "ofb_blocks ecb ecb_key iv k = (ecb_block ecb ecb_key ^^ Suc k) iv"

definition ofb_stream :: "'k ccofb_ctx \<Rightarrow> nat \<Rightarrow> byte" where
  "ofb_stream ctx = pad_stream (ecb_block_size (ofb_ecb ctx)) (ofb_pad_len ctx) (ofb_iv ctx)
     (ofb_blocks (ofb_ecb ctx) (ofb_ecb_key ctx) (ofb_iv ctx))"

lemma ofb_blocks_Suc: "ofb_blocks ecb key iv (Suc k) = ofb_blocks ecb key (ecb_block ecb key iv) k"
  by (simp add: ofb_blocks_def funpow_Suc_right del: funpow.simps)

context block_cipher
begin

lemma ofb_loop_law:
  assumes "nbytes \<le> length xs" "off \<le> ecb_block_size ecb"
    "ofb_crypt_loop ecb key pad off nbytes xs = (pad', off', out)"
  shows "off' \<le> ecb_block_size ecb \<and>
    out = mask_with (pad_stream (ecb_block_size ecb) off pad (ofb_blocks ecb key pad)) nbytes xs \<and>
    (\<forall>i. pad_stream (ecb_block_size ecb) off' pad' (ofb_blocks ecb key pad') i =
      pad_stream (ecb_block_size ecb) off pad (ofb_blocks ecb key pad) (nbytes + i))"
  using assms
proof (induction nbytes arbitrary: xs pad off out)
  case 0
  then show ?case by (simp add: mask_with_def)
next
  case (Suc nbytes)
  let ?B = "ecb_block_size ecb"
  let ?ks = "\<lambda>off pad. pad_stream ?B off pad (ofb_blocks ecb key pad)"
  define full where "full \<longleftrightarrow> off = ?B"
  define pad1 off1 where "pad1 = (if full then ecb_block ecb key pad else pad)" and "off1 = (if full then 0 else off)"
  have l: "off1 + 1 \<le> ?B" using Suc.prems(2) block_pos by (auto simp: off1_def full_def)
  have s: "?ks off pad = ?ks off1 pad1"
    using pad_stream_refill [OF block_pos, of pad "ofb_blocks ecb key pad"]
    by (simp add: full_def off1_def pad1_def ofb_blocks_Suc) (simp add: ofb_blocks_def)
  obtain rest where r: "ofb_crypt_loop ecb key pad1 (off1 + 1) nbytes (drop 1 xs) = (pad', off', rest)"
    "out = (xs ! 0 XOR pad1 ! off1) # rest"
    using Suc.prems(3) by (auto simp: Let_def full_def pad1_def off1_def split: if_splits prod.splits)
  have ih: "off' \<le> ?B \<and> rest = mask_with (?ks (off1 + 1) pad1) nbytes (drop 1 xs) \<and>
      (\<forall>i. ?ks off' pad' i = ?ks (off1 + 1) pad1 (nbytes + i))"
    using Suc.prems(1) l by (intro Suc.IH [OF _ _ r(1)]) simp_all
  have "[xs ! 0 XOR pad1 ! off1] = mask_with (?ks off1 pad1) 1 xs"
    using l by (simp add: mask_with_def pad_stream_def)
  then have "out = mask_with (?ks off1 pad1) (1 + nbytes) xs"
    using r(2) ih mask_with_shift [of 1 xs "?ks (off1 + 1) pad1" "?ks off1 pad1" nbytes]
      pad_stream_shift [OF l, of pad1 "ofb_blocks ecb key pad1"] Suc.prems(1) by (metis append_Cons append_Nil le_add1 order.trans plus_1_eq_Suc)
  moreover have "?ks (off1 + 1) pad1 (nbytes + i) = ?ks off1 pad1 (Suc nbytes + i)" for i
    using pad_stream_shift [OF l, of pad1 "ofb_blocks ecb key pad1" "nbytes + i"] by simp
  ultimately show ?case using ih unfolding s by simp
qed

end

sublocale block_cipher \<subseteq> ofb: stream_cipher "ofb_wf ecb" ofb_stream "\<lambda>ctx n xs. snd (ccmode_ofb_crypt ctx n xs)"
proof
  fix c n xs c' out
  assume a: "ofb_wf ecb c" "n \<le> length xs" "snd (ccmode_ofb_crypt c n xs) = (c', out)"
  obtain pad off where l: "ofb_crypt_loop ecb (ofb_ecb_key c) (ofb_iv c) (ofb_pad_len c) n xs = (pad, off, out)"
    and c': "c' = c\<lparr>ofb_iv := pad, ofb_pad_len := off\<rparr>"
    using a(1,3) by (auto simp: ccmode_ofb_crypt_def ofb_wf_def split: prod.splits)
  show "ofb_wf ecb c' \<and> out = mask_with (ofb_stream c) n xs \<and> (\<forall>i. ofb_stream c' i = ofb_stream c (n + i))"
    using ofb_loop_law [OF a(2) _ l] a(1) by (simp add: c' ofb_wf_def ofb_stream_def)
qed

section \<open>Cipher feedback is undone\<close>

text \<open>Both directions see the same ciphertext bytes, so they go through the same states.\<close>

lemma cfb_loop_inverse:
  "cfb_encrypt_loop ecb key iv pad off n pt = (iv', pad', off', ct) \<Longrightarrow> n \<le> length pt \<Longrightarrow>
   length ct = n \<and> cfb_decrypt_loop ecb key iv pad off n (ct @ xs) = (iv', pad', off', take n pt)"
proof (induction n arbitrary: iv pad off pt ct)
  case (Suc n)
  obtain p ps where p: "pt = p # ps" using Suc.prems(2) by (cases pt) simp_all
  show ?case using Suc.prems Suc.IH [of _ _ _ ps] by (auto simp: p Let_def xor.assoc split: prod.splits if_splits)
qed simp

lemma cfb8_loop_inverse:
  "cfb8_encrypt_loop ecb key iv pad n pt = (iv', pad', ct) \<Longrightarrow> n \<le> length pt \<Longrightarrow>
   length ct = n \<and> cfb8_decrypt_loop ecb key iv pad n (ct @ xs) = (iv', pad', take n pt)"
proof (induction n arbitrary: iv pad pt ct)
  case (Suc n)
  obtain p ps where p: "pt = p # ps" using Suc.prems(2) by (cases pt) simp_all
  show ?case using Suc.prems Suc.IH [of _ _ ps] by (auto simp: p Let_def split: prod.splits)
qed simp


lemma cfb_decrypt_fresh:
  "snd (snd (snd (cfb_decrypt_loop ecb key iv pad (ecb_block_size ecb) n ct))) =
   snd (snd (snd (cfb_decrypt_loop ecb key iv pad' (ecb_block_size ecb) n ct)))"
  by (cases n) (simp_all add: Let_def)

text \<open>The two contexts on the stack have any contents; both directions use the cipher's encryption.\<close>

lemma cfb_one_shot_inverse:
  assumes "ecb_init ecb (cfb_ecb_key kctx) k raw = (0, key)" "ecb_init ecb (cfb_ecb_key dctx) k raw = (0, key)" "n \<le> length pt"
    "cccfb_one_shot (CCMODE_FACTORY_CFB_ENCRYPT ecb) kctx k raw iv n pt = (rc, ct)"
  shows "rc = 0 \<and> length ct = n \<and> cccfb_one_shot (CCMODE_FACTORY_CFB_DECRYPT ecb) dctx k raw iv n ct = (0, take n pt)"
proof -
  let ?iv = "case iv of Some iv \<Rightarrow> take (ecb_block_size ecb) iv | None \<Rightarrow> replicate (ecb_block_size ecb) 0"
  obtain iv' pad' off' c where e: "cfb_encrypt_loop ecb key ?iv (cfb_pad kctx) (ecb_block_size ecb) n pt = (iv', pad', off', c)"
    by (metis surj_pair)
  have c: "rc = 0" "ct = c"
    using assms(4) e by (simp_all add: cccfb_one_shot_def CCMODE_FACTORY_CFB_ENCRYPT_def ccmode_cfb_init_def ccmode_cfb_encrypt_def assms(1))
  note i = cfb_loop_inverse [OF e assms(3), of "[]"]
  have "snd (snd (snd (cfb_decrypt_loop ecb key ?iv (cfb_pad dctx) (ecb_block_size ecb) n ct))) = take n pt"
    using i cfb_decrypt_fresh [of ecb key ?iv "cfb_pad dctx" n ct "cfb_pad kctx"] by (simp add: c)
  then have "cccfb_one_shot (CCMODE_FACTORY_CFB_DECRYPT ecb) dctx k raw iv n ct = (0, take n pt)"
    by (simp add: cccfb_one_shot_def CCMODE_FACTORY_CFB_DECRYPT_def ccmode_cfb_init_def ccmode_cfb_decrypt_def assms(2) case_prod_beta)
  with i c show ?thesis by simp
qed

lemma cfb8_one_shot_inverse:
  assumes "ecb_init ecb (cfb8_ecb_key kctx) k raw = (0, key)" "ecb_init ecb (cfb8_ecb_key dctx) k raw = (0, key)" "n \<le> length pt"
    "cccfb8_one_shot (CCMODE_FACTORY_CFB8_ENCRYPT ecb) kctx k raw iv n pt = (rc, ct)"
  shows "rc = 0 \<and> length ct = n \<and> cccfb8_one_shot (CCMODE_FACTORY_CFB8_DECRYPT ecb) dctx k raw iv n ct = (0, take n pt)"
proof -
  let ?iv = "case iv of Some iv \<Rightarrow> take (ecb_block_size ecb) iv | None \<Rightarrow> replicate (ecb_block_size ecb) 0"
  obtain iv' pad' c where e: "cfb8_encrypt_loop ecb key ?iv (ecb_block ecb key ?iv) n pt = (iv', pad', c)" by (metis surj_pair)
  have c: "rc = 0" "ct = c"
    using assms(4) e by (simp_all add: cccfb8_one_shot_def CCMODE_FACTORY_CFB8_ENCRYPT_def ccmode_cfb8_init_def ccmode_cfb8_encrypt_def assms(1))
  note i = cfb8_loop_inverse [OF e assms(3), of "[]"]
  then have "cccfb8_one_shot (CCMODE_FACTORY_CFB8_DECRYPT ecb) dctx k raw iv n ct = (0, take n pt)"
    by (simp add: c cccfb8_one_shot_def CCMODE_FACTORY_CFB8_DECRYPT_def ccmode_cfb8_init_def ccmode_cfb8_decrypt_def assms(2) case_prod_beta)
  with i c show ?thesis by simp
qed

section \<open>One-shot calls of the streams\<close>

definition ctr_keystream :: "'k ccmode_ecb \<Rightarrow> 'k \<Rightarrow> bytes \<Rightarrow> nat \<Rightarrow> byte" where
  "ctr_keystream ecb key iv i = ctr_blocks ecb key (take (ecb_block_size ecb) iv) (i div ecb_block_size ecb) ! (i mod ecb_block_size ecb)"

definition ofb_keystream :: "'k ccmode_ecb \<Rightarrow> 'k \<Rightarrow> bytes \<Rightarrow> nat \<Rightarrow> byte" where
  "ofb_keystream ecb key iv i = ofb_blocks ecb key (take (ecb_block_size ecb) iv) (i div ecb_block_size ecb) ! (i mod ecb_block_size ecb)"

context block_cipher
begin

lemma ctr_one_shot:
  assumes "ecb_init ecb (ctr_ecb_key ctx) k raw = (0, key)" "n \<le> length xs"
  shows "ccctr_one_shot (CCMODE_FACTORY_CTR_CRYPT ecb) ctx k raw iv n xs = (0, mask_with (ctr_keystream ecb key iv) n xs)"
proof -
  define c where "c = ctx\<lparr>ctr_ecb := ecb, ctr_ecb_key := key, ctr_pad_offset := ecb_block_size ecb, ctr_ctr := take (ecb_block_size ecb) iv\<rparr>"
  have i: "ccmode_ctr_init ecb ccmode_ctr_setctr ctx k raw iv = (0, c)"
    by (simp add: ccmode_ctr_init_def ccmode_ctr_setctr_def assms(1) c_def)
  have "ctr_stream c = ctr_keystream ecb key iv"
    by (rule ext) (simp add: ctr_stream_fresh c_def ctr_keystream_def)
  moreover have "ctr_wf ecb c" by (simp add: ctr_wf_def c_def)
  ultimately have "snd (snd (ccmode_ctr_crypt c n xs)) = mask_with (ctr_keystream ecb key iv) n xs"
    using ctr.crypt_out assms(2) by metis
  moreover have "fst (ccmode_ctr_crypt c n xs) = 0" by (simp add: ccmode_ctr_crypt_def case_prod_beta)
  ultimately show ?thesis by (simp add: ccctr_one_shot_def CCMODE_FACTORY_CTR_CRYPT_def i case_prod_beta)
qed

lemma ofb_one_shot:
  assumes "ecb_init ecb (ofb_ecb_key ctx) k raw = (0, key)" "n \<le> length xs"
  shows "ccofb_one_shot (CCMODE_FACTORY_OFB_CRYPT ecb) ctx k raw iv n xs = (0, mask_with (ofb_keystream ecb key iv) n xs)"
proof -
  define c where "c = ctx\<lparr>ofb_ecb := ecb, ofb_iv := take (ecb_block_size ecb) iv, ofb_pad_len := ecb_block_size ecb, ofb_ecb_key := key\<rparr>"
  have i: "ccmode_ofb_init ecb ctx k raw iv = (0, c)" by (simp add: ccmode_ofb_init_def assms(1) c_def)
  have "ofb_stream c = ofb_keystream ecb key iv"
    by (rule ext) (simp add: ofb_stream_def pad_stream_def c_def ofb_keystream_def)
  moreover have "ofb_wf ecb c" by (simp add: ofb_wf_def c_def)
  ultimately have "snd (snd (ccmode_ofb_crypt c n xs)) = mask_with (ofb_keystream ecb key iv) n xs"
    using ofb.crypt_out assms(2) by metis
  moreover have "fst (ccmode_ofb_crypt c n xs) = 0" by (simp add: ccmode_ofb_crypt_def case_prod_beta)
  ultimately show ?thesis by (simp add: ccofb_one_shot_def CCMODE_FACTORY_OFB_CRYPT_def i case_prod_beta)
qed

end

end
