(* ===== verification/Ccaes.thy ===== *)
theory Ccaes
  imports Ccaes_Tab Ccmode_Stream Ccpad
begin

unbundle bit_operations_syntax

text \<open>
  The portable AES of \<open>ccaes/src/ltc\<close>: key schedule, both directions, and the key lengths of
  \<open>ccaes_internal.h\<close>.  The two directions are an instance of \<open>block_cipher_pair\<close>.
\<close>

section \<open>Key lengths\<close>

definition ccaes_key_length_validation :: "nat \<Rightarrow> int" where
  "ccaes_key_length_validation key_nbytes_or_bits =
     (if key_nbytes_or_bits \<in> {16, 128, 24, 192, 32, 256} then 0 else CCERR_PARAMETER)"

definition ccaes_key_length_to_nbytes :: "nat \<Rightarrow> nat" where
  "ccaes_key_length_to_nbytes key_nbytes_or_bits =
     (if key_nbytes_or_bits \<ge> 128 then (key_nbytes_or_bits + 7) div 8 else key_nbytes_or_bits)"

section \<open>Key schedule\<close>

definition cc_byte :: "u32 \<Rightarrow> nat \<Rightarrow> nat" where
  "cc_byte x n = unat (drop_bit (8 * n) x AND 255)"

definition setup_mix :: "u32 \<Rightarrow> u32" where
  "setup_mix temp = Te4_3 ! cc_byte temp 1 XOR Te4_2 ! cc_byte temp 2 XOR Te4_1 ! cc_byte temp 3 XOR Te4_0 ! cc_byte temp 0"

record ltc_rijndael_keysched =
  enc_ks :: "u32 list"
  enc_rn :: u32
  dec_ks :: "u32 list"
  dec_rn :: u32

text \<open>
  The words one iteration adds, \<open>rk\<close> being what the pointer of the source stands at; the loops append them to
  the words already made.
\<close>

definition expand_128_step :: "nat \<Rightarrow> u32 list \<Rightarrow> u32 list" where
  "expand_128_step i rk =
     (let rk4 = rk ! 0 XOR setup_mix (rk ! 3) XOR rcon ! i;
          rk5 = rk ! 1 XOR rk4;
          rk6 = rk ! 2 XOR rk5;
          rk7 = rk ! 3 XOR rk6
      in [rk4, rk5, rk6, rk7])"

definition expand_128 :: "u32 list \<Rightarrow> u32 list" where
  "expand_128 ks = foldl (\<lambda>ks i. ks @ expand_128_step i (drop (4 * i) ks)) ks [0..<10]"

definition expand_192_step :: "nat \<Rightarrow> u32 list \<Rightarrow> u32 list" where
  "expand_192_step i rk =
     (let rk6 = rk ! 0 XOR setup_mix (rk ! 5) XOR rcon ! i;
          rk7 = rk ! 1 XOR rk6;
          rk8 = rk ! 2 XOR rk7;
          rk9 = rk ! 3 XOR rk8
      in if i + 1 = 8 then [rk6, rk7, rk8, rk9]
         else let rk10 = rk ! 4 XOR rk9;
                  rk11 = rk ! 5 XOR rk10
              in [rk6, rk7, rk8, rk9, rk10, rk11])"

definition expand_192 :: "u32 list \<Rightarrow> u32 list" where
  "expand_192 ks = foldl (\<lambda>ks i. ks @ expand_192_step i (drop (6 * i) ks)) ks [0..<8]"

definition expand_256_step :: "nat \<Rightarrow> u32 list \<Rightarrow> u32 list" where
  "expand_256_step i rk =
     (let rk8 = rk ! 0 XOR setup_mix (rk ! 7) XOR rcon ! i;
          rk9 = rk ! 1 XOR rk8;
          rk10 = rk ! 2 XOR rk9;
          rk11 = rk ! 3 XOR rk10
      in if i + 1 = 7 then [rk8, rk9, rk10, rk11]
         else let rk12 = rk ! 4 XOR setup_mix (word_rotl 8 rk11);
                  rk13 = rk ! 5 XOR rk12;
                  rk14 = rk ! 6 XOR rk13;
                  rk15 = rk ! 7 XOR rk14
              in [rk8, rk9, rk10, rk11, rk12, rk13, rk14, rk15])"

definition expand_256 :: "u32 list \<Rightarrow> u32 list" where
  "expand_256 ks = foldl (\<lambda>ks i. ks @ expand_256_step i (drop (8 * i) ks)) ks [0..<7]"

text \<open>The inverse of MixColumns on a word of the key.\<close>

definition inv_mix_key :: "u32 \<Rightarrow> u32" where
  "inv_mix_key temp = Tks0 ! cc_byte temp 0 XOR Tks1 ! cc_byte temp 1 XOR Tks2 ! cc_byte temp 2 XOR Tks3 ! cc_byte temp 3"

definition inverse_key :: "u32 list \<Rightarrow> nat \<Rightarrow> nat \<Rightarrow> u32 list" where
  "inverse_key ks j rounds =
     (let rrk = j - 4
      in take 4 (drop rrk ks) @
         concat (map (\<lambda>i. map inv_mix_key (take 4 (drop (rrk - 4 * i) ks))) [1..<rounds]) @
         take 4 (drop (rrk - 4 * rounds) ks))"

text \<open>Words of the arrays that a shorter key does not use keep what they held.\<close>

definition ccaes_ltc_init :: "bytes \<Rightarrow> nat \<Rightarrow> nat \<Rightarrow> ltc_rijndael_keysched \<Rightarrow> int \<times> ltc_rijndael_keysched" where
  "ccaes_ltc_init key keylen num_rounds skey =
     (let rc = ccaes_key_length_validation keylen
      in if rc \<noteq> 0 then (rc, skey)
         else let keylen = ccaes_key_length_to_nbytes keylen
              in if num_rounds \<noteq> 0 \<and> num_rounds \<noteq> 10 + ((keylen div 8) - 2) * 2 then (-1, skey)
                 else let rn = (10 + ((of_nat keylen div 8) - 2) * 2) * 16 :: u32;
                          word = (\<lambda>n. cc_load32_le (drop (4 * n) key));
                          (j, ks) =
                            (if keylen = 16 then (44, expand_128 (map word [0..<4]))
                             else if keylen = 24 then (52, expand_192 (map word [0..<6]))
                             else (60, expand_256 (map word [0..<8])));
                          rks = inverse_key ks j (unat (rn div 16))
                      in (0, \<lparr>enc_ks = ks @ drop (length ks) (enc_ks skey), enc_rn = rn,
                              dec_ks = rks @ drop (length rks) (dec_ks skey), dec_rn = rn\<rparr>))"

definition ccaes_ecb_encrypt_init :: "ltc_rijndael_keysched \<Rightarrow> nat \<Rightarrow> bytes \<Rightarrow> int \<times> ltc_rijndael_keysched" where
  "ccaes_ecb_encrypt_init key rawkey_len rawkey =
     (let rc = ccaes_key_length_validation rawkey_len
      in if rc \<noteq> 0 then (rc, key) else ccaes_ltc_init rawkey rawkey_len 0 key)"

definition ccaes_ecb_decrypt_init :: "ltc_rijndael_keysched \<Rightarrow> nat \<Rightarrow> bytes \<Rightarrow> int \<times> ltc_rijndael_keysched" where
  "ccaes_ecb_decrypt_init key rawkey_len rawkey =
     (let rc = ccaes_key_length_validation rawkey_len
      in if rc \<noteq> 0 then (rc, key) else ccaes_ltc_init rawkey rawkey_len 0 key)"

definition ccaes_ecb_encrypt_roundkey :: "ltc_rijndael_keysched \<Rightarrow> nat \<Rightarrow> bytes" where
  "ccaes_ecb_encrypt_roundkey ctx i = concat (map cc_store32_le (take 4 (drop (i * 4) (enc_ks ctx))))"

section \<open>Encryption\<close>

type_synonym aes_state = "u32 \<times> u32 \<times> u32 \<times> u32"

definition aes_load :: "bytes \<Rightarrow> u32 list \<Rightarrow> aes_state" where
  "aes_load pt rk =
     (cc_load32_le pt XOR rk ! 0, cc_load32_le (drop 4 pt) XOR rk ! 1,
      cc_load32_le (drop 8 pt) XOR rk ! 2, cc_load32_le (drop 12 pt) XOR rk ! 3)"

fun aes_encrypt_round :: "u32 list \<Rightarrow> aes_state \<Rightarrow> aes_state" where
  "aes_encrypt_round rk (s0, s1, s2, s3) =
     (TE0 ! cc_byte s0 0 XOR TE1 ! cc_byte s1 1 XOR TE2 ! cc_byte s2 2 XOR TE3 ! cc_byte s3 3 XOR rk ! 0,
      TE0 ! cc_byte s1 0 XOR TE1 ! cc_byte s2 1 XOR TE2 ! cc_byte s3 2 XOR TE3 ! cc_byte s0 3 XOR rk ! 1,
      TE0 ! cc_byte s2 0 XOR TE1 ! cc_byte s3 1 XOR TE2 ! cc_byte s0 2 XOR TE3 ! cc_byte s1 3 XOR rk ! 2,
      TE0 ! cc_byte s3 0 XOR TE1 ! cc_byte s0 1 XOR TE2 ! cc_byte s1 2 XOR TE3 ! cc_byte s2 3 XOR rk ! 3)"

text \<open>The loop that ends in the middle of its body; the counter is \<open>r\<close> after \<open>--r\<close>.\<close>

primrec aes_encrypt_rounds :: "nat \<Rightarrow> u32 list \<Rightarrow> aes_state \<Rightarrow> aes_state \<times> u32 list" where
  "aes_encrypt_rounds 0 rk s = (aes_encrypt_round (drop 4 rk) s, drop 8 rk)"
| "aes_encrypt_rounds (Suc r) rk s =
     (let t = aes_encrypt_round (drop 4 rk) s;
          rk = drop 8 rk;
          s = aes_encrypt_round rk t
      in aes_encrypt_rounds r rk s)"

fun aes_encrypt_last :: "u32 list \<Rightarrow> aes_state \<Rightarrow> bytes" where
  "aes_encrypt_last rk (t0, t1, t2, t3) =
     cc_store32_le (Te4_3 ! cc_byte t0 0 XOR Te4_2 ! cc_byte t1 1 XOR Te4_1 ! cc_byte t2 2 XOR Te4_0 ! cc_byte t3 3 XOR rk ! 0) @
     cc_store32_le (Te4_3 ! cc_byte t1 0 XOR Te4_2 ! cc_byte t2 1 XOR Te4_1 ! cc_byte t3 2 XOR Te4_0 ! cc_byte t0 3 XOR rk ! 1) @
     cc_store32_le (Te4_3 ! cc_byte t2 0 XOR Te4_2 ! cc_byte t3 1 XOR Te4_1 ! cc_byte t0 2 XOR Te4_0 ! cc_byte t1 3 XOR rk ! 2) @
     cc_store32_le (Te4_3 ! cc_byte t3 0 XOR Te4_2 ! cc_byte t0 1 XOR Te4_1 ! cc_byte t1 2 XOR Te4_0 ! cc_byte t2 3 XOR rk ! 3)"

definition ccaes_ltc_ecb_encrypt :: "ltc_rijndael_keysched \<Rightarrow> bytes \<Rightarrow> bytes" where
  "ccaes_ltc_ecb_encrypt skey pt =
     (let rn = enc_rn skey; rk = enc_ks skey;
          s = aes_load pt rk;
          r = unat (drop_bit 1 (rn div 16));
          (t, rk) = aes_encrypt_rounds (r - 1) rk s
      in aes_encrypt_last rk t)"

definition ccaes_ecb_encrypt :: "ltc_rijndael_keysched \<Rightarrow> nat \<Rightarrow> bytes \<Rightarrow> int \<times> bytes" where
  "ccaes_ecb_encrypt key nblocks inp = (0, ecb_blocks 16 (ccaes_ltc_ecb_encrypt key) nblocks inp)"

definition ccaes_ltc_ecb_encrypt_mode :: "ltc_rijndael_keysched ccmode_ecb" where
  "ccaes_ltc_ecb_encrypt_mode = \<lparr>ecb_block_size = 16, ecb_init = ccaes_ecb_encrypt_init, ecb_ecb = ccaes_ecb_encrypt\<rparr>"

section \<open>Decryption\<close>

fun aes_decrypt_round :: "u32 list \<Rightarrow> aes_state \<Rightarrow> aes_state" where
  "aes_decrypt_round rk (s0, s1, s2, s3) =
     (TD0 ! cc_byte s0 0 XOR TD1 ! cc_byte s3 1 XOR TD2 ! cc_byte s2 2 XOR TD3 ! cc_byte s1 3 XOR rk ! 0,
      TD0 ! cc_byte s1 0 XOR TD1 ! cc_byte s0 1 XOR TD2 ! cc_byte s3 2 XOR TD3 ! cc_byte s2 3 XOR rk ! 1,
      TD0 ! cc_byte s2 0 XOR TD1 ! cc_byte s1 1 XOR TD2 ! cc_byte s0 2 XOR TD3 ! cc_byte s3 3 XOR rk ! 2,
      TD0 ! cc_byte s3 0 XOR TD1 ! cc_byte s2 1 XOR TD2 ! cc_byte s1 2 XOR TD3 ! cc_byte s0 3 XOR rk ! 3)"

primrec aes_decrypt_rounds :: "nat \<Rightarrow> u32 list \<Rightarrow> aes_state \<Rightarrow> aes_state \<times> u32 list" where
  "aes_decrypt_rounds 0 rk s = (aes_decrypt_round (drop 4 rk) s, drop 8 rk)"
| "aes_decrypt_rounds (Suc r) rk s =
     (let t = aes_decrypt_round (drop 4 rk) s;
          rk = drop 8 rk;
          s = aes_decrypt_round rk t
      in aes_decrypt_rounds r rk s)"

fun aes_decrypt_last :: "u32 list \<Rightarrow> aes_state \<Rightarrow> bytes" where
  "aes_decrypt_last rk (t0, t1, t2, t3) =
     cc_store32_le ((Td4 ! cc_byte t0 0 AND 0x000000ff) XOR (Td4 ! cc_byte t3 1 AND 0x0000ff00) XOR
       (Td4 ! cc_byte t2 2 AND 0x00ff0000) XOR (Td4 ! cc_byte t1 3 AND 0xff000000) XOR rk ! 0) @
     cc_store32_le ((Td4 ! cc_byte t1 0 AND 0x000000ff) XOR (Td4 ! cc_byte t0 1 AND 0x0000ff00) XOR
       (Td4 ! cc_byte t3 2 AND 0x00ff0000) XOR (Td4 ! cc_byte t2 3 AND 0xff000000) XOR rk ! 1) @
     cc_store32_le ((Td4 ! cc_byte t2 0 AND 0x000000ff) XOR (Td4 ! cc_byte t1 1 AND 0x0000ff00) XOR
       (Td4 ! cc_byte t0 2 AND 0x00ff0000) XOR (Td4 ! cc_byte t3 3 AND 0xff000000) XOR rk ! 2) @
     cc_store32_le ((Td4 ! cc_byte t3 0 AND 0x000000ff) XOR (Td4 ! cc_byte t2 1 AND 0x0000ff00) XOR
       (Td4 ! cc_byte t1 2 AND 0x00ff0000) XOR (Td4 ! cc_byte t0 3 AND 0xff000000) XOR rk ! 3)"

definition ccaes_ltc_ecb_decrypt :: "ltc_rijndael_keysched \<Rightarrow> bytes \<Rightarrow> bytes" where
  "ccaes_ltc_ecb_decrypt skey ct =
     (let rn = dec_rn skey; rk = dec_ks skey;
          s = aes_load ct rk;
          r = unat (drop_bit 1 (rn div 16));
          (t, rk) = aes_decrypt_rounds (r - 1) rk s
      in aes_decrypt_last rk t)"

definition ccaes_ecb_decrypt :: "ltc_rijndael_keysched \<Rightarrow> nat \<Rightarrow> bytes \<Rightarrow> int \<times> bytes" where
  "ccaes_ecb_decrypt key nblocks inp = (0, ecb_blocks 16 (ccaes_ltc_ecb_decrypt key) nblocks inp)"

definition ccaes_ltc_ecb_decrypt_mode :: "ltc_rijndael_keysched ccmode_ecb" where
  "ccaes_ltc_ecb_decrypt_mode = \<lparr>ecb_block_size = 16, ecb_init = ccaes_ecb_decrypt_init, ecb_ecb = ccaes_ecb_decrypt\<rparr>"

section \<open>The column operations\<close>

lemma cc_byte_eq: "cc_byte x n = unat (aes_byte n x)"
proof -
  have "drop_bit (8 * n) x AND 255 = take_bit 8 (drop_bit (8 * n) x)"
    by (simp add: take_bit_eq_mask mask_eq_exp_minus_1)
  then show ?thesis by (simp add: cc_byte_def aes_byte_def unsigned_ucast_eq unsigned_take_bit_eq)
qed

definition sub_byte :: "byte \<Rightarrow> byte" where
  "sub_byte b = sbox ! unat b"

definition inv_sub_byte :: "byte \<Rightarrow> byte" where
  "inv_sub_byte b = inv_sbox ! unat b"

lemma inv_sub_byte [simp]: "inv_sub_byte (sub_byte b) = b"
  by (simp add: inv_sub_byte_def sub_byte_def)

lemma byte_less: "unat (b :: byte) < 256"
  using word_bound [of b] by simp

lemma table_lookup: "length t = 256 \<Longrightarrow> map f t ! unat (b :: byte) = f (t ! unat b)"
  using byte_less [of b] by simp

lemma encrypt_tables:
  "TE0 ! unat b = aes_mul (sub_byte b)" "TE1 ! unat b = rol8 (aes_mul (sub_byte b))"
  "TE2 ! unat b = rol8 (rol8 (aes_mul (sub_byte b)))" "TE3 ! unat b = rol8 (rol8 (rol8 (aes_mul (sub_byte b))))"
  by (simp_all add: TE3_eq TE2_eq TE1_eq TE0_eq table_lookup length_sbox sub_byte_def)

lemma decrypt_tables:
  "TD0 ! unat b = aes_inv_mul (inv_sub_byte b)" "TD1 ! unat b = rol8 (aes_inv_mul (inv_sub_byte b))"
  "TD2 ! unat b = rol8 (rol8 (aes_inv_mul (inv_sub_byte b)))"
  "TD3 ! unat b = rol8 (rol8 (rol8 (aes_inv_mul (inv_sub_byte b))))"
  by (simp_all add: TD3_eq TD2_eq TD1_eq TD0_eq table_lookup length_sbox inv_sub_byte_def)

lemma all_bytes_nth: "length all_bytes = 256" "all_bytes ! unat b = b"
  using byte_less [of b] by (simp_all add: all_bytes_eq)

lemma key_tables:
  "Tks0 ! unat b = aes_inv_mul b" "Tks1 ! unat b = rol8 (aes_inv_mul b)"
  "Tks2 ! unat b = rol8 (rol8 (aes_inv_mul b))" "Tks3 ! unat b = rol8 (rol8 (rol8 (aes_inv_mul b)))"
  by (simp_all add: Tks3_eq Tks2_eq Tks1_eq Tks0_eq table_lookup all_bytes_nth)

lemma push_col: "push_bit 8 (aes_col a b c 0) = aes_col 0 a b c"
  by (rule bit_word_eqI) (auto simp: bit_simps bit_aes_col bit_high_byte)

lemma last_tables:
  "Te4_3 ! unat b = aes_col (sub_byte b) 0 0 0" "Te4_2 ! unat b = aes_col 0 (sub_byte b) 0 0"
  "Te4_1 ! unat b = aes_col 0 0 (sub_byte b) 0" "Te4_0 ! unat b = aes_col 0 0 0 (sub_byte b)"
  by (simp_all add: Te4_0_eq Te4_1_eq Te4_2_eq Te4_3_sbox table_lookup length_sbox sub_byte_def push_col)

lemma and_col:
  "aes_col s s s s AND 0x000000ff = aes_col s 0 0 0" "aes_col s s s s AND 0x0000ff00 = aes_col 0 s 0 0"
  "aes_col s s s s AND 0x00ff0000 = aes_col 0 0 s 0" "aes_col s s s s AND 0xff000000 = aes_col 0 0 0 s"
proof -
  have m: "0x000000ff = aes_col 255 0 0 0" "0x0000ff00 = aes_col 0 255 0 0" "0x00ff0000 = aes_col 0 0 255 0" "0xff000000 = aes_col 0 0 0 255"
    by (simp_all add: aes_col_def)
  have b: "bit (255 :: int) i \<longleftrightarrow> i < 8" for i
    using bit_mask_iff [of 8 i, where 'a = int] by (simp add: mask_eq_exp_minus_1)
  show "aes_col s s s s AND 0x000000ff = aes_col s 0 0 0" "aes_col s s s s AND 0x0000ff00 = aes_col 0 s 0 0"
    "aes_col s s s s AND 0x00ff0000 = aes_col 0 0 s 0" "aes_col s s s s AND 0xff000000 = aes_col 0 0 0 s"
    unfolding m by (rule bit_word_eqI; auto simp: bit_aes_col bit_and_iff b bit_high_byte)+
qed

lemma inv_last_tables:
  "Td4 ! unat b AND 0x000000ff = aes_col (inv_sub_byte b) 0 0 0" "Td4 ! unat b AND 0x0000ff00 = aes_col 0 (inv_sub_byte b) 0 0"
  "Td4 ! unat b AND 0x00ff0000 = aes_col 0 0 (inv_sub_byte b) 0" "Td4 ! unat b AND 0xff000000 = aes_col 0 0 0 (inv_sub_byte b)"
  by (simp_all add: Td4_inv_sbox table_lookup length_sbox inv_sub_byte_def and_col)

definition mix_column :: "u32 \<Rightarrow> u32" where
  "mix_column w = aes_mul (aes_byte 0 w) XOR rol8 (aes_mul (aes_byte 1 w)) XOR rol8 (rol8 (aes_mul (aes_byte 2 w))) XOR
     rol8 (rol8 (rol8 (aes_mul (aes_byte 3 w))))"

definition inv_mix_column :: "u32 \<Rightarrow> u32" where
  "inv_mix_column w = aes_inv_mul (aes_byte 0 w) XOR rol8 (aes_inv_mul (aes_byte 1 w)) XOR
     rol8 (rol8 (aes_inv_mul (aes_byte 2 w))) XOR rol8 (rol8 (rol8 (aes_inv_mul (aes_byte 3 w))))"

lemma inv_mix_key_eq: "inv_mix_key w = inv_mix_column w"
  by (simp add: inv_mix_key_def inv_mix_column_def cc_byte_eq key_tables)

lemma bit_high_word: "32 \<le> n \<Longrightarrow> \<not> bit (w :: u32) n"
  using bit_imp_le_length [of w n] by auto

lemma inv_mix_xor: "inv_mix_column (v XOR w) = inv_mix_column v XOR inv_mix_column w"
proof -
  have l: "aes_inv_mul (a XOR b) = aes_inv_mul a XOR aes_inv_mul b" for a b
    by (simp add: aes_inv_mul_def Let_def aes_col_xor ac_simps)
  have r: "rol8 (x XOR y) = rol8 x XOR rol8 y" for x y
    by (rule bit_word_eqI) (auto simp: rol8_def bit_simps bit_high_word)
  show ?thesis by (simp add: inv_mix_column_def l r ac_simps)
qed

lemma inv_mix_mix [simp]: "inv_mix_column (mix_column w) = w"
proof -
  have "aes_col (aes_byte 0 w) (aes_byte (Suc 0) w) (aes_byte 2 w) (aes_byte 3 w) = w" by (rule aes_col_bytes)
  moreover have "inv_mix_column (mix_column (aes_col a b c d)) = aes_col a b c d" for a b c d
    by (simp add: mix_column_def inv_mix_column_def aes_mul_def aes_inv_mul_def Let_def aes_col_xor)
      (simp add: ac_simps)
  ultimately show ?thesis by metis
qed

section \<open>Rounds\<close>

text \<open>A round is a substitution with a rotation of the rows, MixColumns and the round key.\<close>

fun sub_shift :: "aes_state \<Rightarrow> aes_state" where
  "sub_shift (a, b, c, d) =
     (let col = (\<lambda>a b c d. aes_col (sub_byte (aes_byte 0 a)) (sub_byte (aes_byte 1 b)) (sub_byte (aes_byte 2 c)) (sub_byte (aes_byte 3 d)))
      in (col a b c d, col b c d a, col c d a b, col d a b c))"

fun inv_sub_shift :: "aes_state \<Rightarrow> aes_state" where
  "inv_sub_shift (a, b, c, d) =
     (let col = (\<lambda>a b c d. aes_col (inv_sub_byte (aes_byte 0 a)) (inv_sub_byte (aes_byte 1 b))
                  (inv_sub_byte (aes_byte 2 c)) (inv_sub_byte (aes_byte 3 d)))
      in (col a d c b, col b a d c, col c b a d, col d c b a))"

fun map_cols :: "(u32 \<Rightarrow> u32) \<Rightarrow> aes_state \<Rightarrow> aes_state" where
  "map_cols f (a, b, c, d) = (f a, f b, f c, f d)"

fun add_key :: "aes_state \<Rightarrow> aes_state \<Rightarrow> aes_state" where
  "add_key (a, b, c, d) (k0, k1, k2, k3) = (a XOR k0, b XOR k1, c XOR k2, d XOR k3)"

definition quad :: "u32 list \<Rightarrow> nat \<Rightarrow> aes_state" where
  "quad rk i = (rk ! (4 * i), rk ! (4 * i + 1), rk ! (4 * i + 2), rk ! (4 * i + 3))"

lemma quad_0: "quad rk 0 = (rk ! 0, rk ! 1, rk ! 2, rk ! 3)"
  unfolding quad_def mult_0_right add_0 by (rule refl)

lemma inv_sub_shift_sub_shift [simp]: "inv_sub_shift (sub_shift s) = s"
  by (cases s) (simp add: Let_def)

lemma add_key_twice [simp]: "add_key (add_key s k) k = s"
  by (cases s; cases k) (simp add: xor.assoc)

lemma inv_mix_round: "map_cols inv_mix_column (add_key (map_cols mix_column s) k) = add_key s (map_cols inv_mix_column k)"
  by (cases s; cases k) (simp add: inv_mix_xor)

lemma encrypt_round_eq: "aes_encrypt_round rk s = add_key (map_cols mix_column (sub_shift s)) (quad rk 0)"
  by (cases s) (simp add: quad_0 Let_def mix_column_def cc_byte_eq encrypt_tables xor.assoc)

lemma decrypt_round_eq: "aes_decrypt_round rk s = add_key (map_cols inv_mix_column (inv_sub_shift s)) (quad rk 0)"
  by (cases s) (simp add: quad_0 Let_def inv_mix_column_def cc_byte_eq decrypt_tables xor.assoc)

fun store_state :: "aes_state \<Rightarrow> bytes" where
  "store_state (a, b, c, d) = cc_store32_le a @ cc_store32_le b @ cc_store32_le c @ cc_store32_le d"

lemma encrypt_last_eq: "aes_encrypt_last rk s = store_state (add_key (sub_shift s) (quad rk 0))"
  by (cases s) (simp add: quad_0 Let_def cc_byte_eq last_tables aes_col_xor flip: xor.assoc)

lemma decrypt_last_eq: "aes_decrypt_last rk s = store_state (add_key (inv_sub_shift s) (quad rk 0))"
  by (cases s) (simp add: quad_0 Let_def cc_byte_eq inv_last_tables aes_col_xor flip: xor.assoc)

definition load_state :: "bytes \<Rightarrow> aes_state" where
  "load_state b = (cc_load32_le b, cc_load32_le (drop 4 b), cc_load32_le (drop 8 b), cc_load32_le (drop 12 b))"

lemma aes_load_eq: "aes_load b rk = add_key (load_state b) (quad rk 0)"
  by (simp add: aes_load_def load_state_def quad_0)

lemma length_store_state [simp]: "length (store_state s) = 16"
  by (cases s) simp

lemma load_col: "cc_load32_le b = aes_col (b ! 0) (b ! 1) (b ! 2) (b ! 3)"
  by (simp add: cc_load32_le_def aes_col_def ac_simps)

lemma store_col: "cc_store32_le w = [aes_byte 0 w, aes_byte 1 w, aes_byte 2 w, aes_byte 3 w]"
  by (simp add: cc_store32_le_def aes_byte_def)

lemma load_store_state [simp]: "load_state (store_state s) = s"
  by (cases s) (simp add: load_state_def load_col store_col)

lemma store_load_state [simp]: "length b = 16 \<Longrightarrow> store_state (load_state b) = b"
proof -
  assume "length b = 16"
  then have "b = map ((!) b) [0..<16]" using map_nth [of b] by simp
  also have "\<dots> = [b ! 0, b ! 1, b ! 2, b ! 3, b ! 4, b ! 5, b ! 6, b ! 7, b ! 8, b ! 9, b ! 10, b ! 11, b ! 12, b ! 13, b ! 14, b ! 15]"
    by (simp add: upt_conv_Cons numeral_eq_Suc)
  finally obtain a0 a1 a2 a3 a4 a5 a6 a7 a8 a9 a10 a11 a12 a13 a14 a15 where
    "b = [a0, a1, a2, a3, a4, a5, a6, a7, a8, a9, a10, a11, a12, a13, a14, a15]" by blast
  then show ?thesis by (simp add: load_state_def load_col store_col)
qed

lemma load_state_take: "load_state (take 16 b) = load_state b"
  by (simp add: load_state_def load_col drop_take)

section \<open>Decryption undoes encryption\<close>

fun encrypt_steps :: "(nat \<Rightarrow> aes_state) \<Rightarrow> nat \<Rightarrow> aes_state \<Rightarrow> aes_state" where
  "encrypt_steps k 0 s = s"
| "encrypt_steps k (Suc n) s = add_key (map_cols mix_column (sub_shift (encrypt_steps k n s))) (k (Suc n))"

fun decrypt_steps :: "(nat \<Rightarrow> aes_state) \<Rightarrow> nat \<Rightarrow> aes_state \<Rightarrow> aes_state" where
  "decrypt_steps k 0 s = s"
| "decrypt_steps k (Suc n) s = add_key (map_cols inv_mix_column (inv_sub_shift (decrypt_steps k n s))) (k (Suc n))"

lemma encrypt_steps_add: "encrypt_steps k (m + n) s = encrypt_steps (\<lambda>i. k (n + i)) m (encrypt_steps k n s)"
  by (induction m) (simp_all add: add.commute)

lemma decrypt_steps_add: "decrypt_steps k (m + n) s = decrypt_steps (\<lambda>i. k (n + i)) m (decrypt_steps k n s)"
  by (induction m) (simp_all add: add.commute)

lemma quad_drop: "4 * m \<le> length rk \<Longrightarrow> quad (drop (4 * m) rk) i = quad rk (m + i)"
  by (simp add: quad_def add.assoc algebra_simps)

lemma encrypt_rounds_eq:
  "8 * (r + 1) \<le> length rk \<Longrightarrow>
   aes_encrypt_rounds r rk s = (encrypt_steps (quad rk) (2 * r + 1) s, drop (8 * (r + 1)) rk)"
proof (induction r arbitrary: rk s)
  case 0
  then show ?case using quad_drop [of 1 rk 0] by (simp add: encrypt_round_eq)
next
  case (Suc r)
  have q: "quad (drop 4 rk) 0 = quad rk 1" "quad (drop 8 rk) = (\<lambda>i. quad rk (2 + i))"
    using quad_drop [of 1 rk 0] quad_drop [of 2 rk] Suc.prems by (simp_all add: fun_eq_iff)
  have "encrypt_steps (quad rk) 2 s = aes_encrypt_round (drop 8 rk) (aes_encrypt_round (drop 4 rk) s)"
    by (simp add: encrypt_round_eq q numeral_2_eq_2)
  moreover have "aes_encrypt_rounds r (drop 8 rk) t = (encrypt_steps (\<lambda>i. quad rk (2 + i)) (2 * r + 1) t, drop (8 * (r + 1)) (drop 8 rk))" for t
    using Suc.IH [of "drop 8 rk" t] Suc.prems unfolding q by simp
  ultimately show ?case using encrypt_steps_add [of "quad rk" "2 * r + 1" 2 s] by (simp add: Let_def del: encrypt_steps.simps)
qed

lemma decrypt_rounds_eq:
  "8 * (r + 1) \<le> length rk \<Longrightarrow>
   aes_decrypt_rounds r rk s = (decrypt_steps (quad rk) (2 * r + 1) s, drop (8 * (r + 1)) rk)"
proof (induction r arbitrary: rk s)
  case 0
  then show ?case using quad_drop [of 1 rk 0] by (simp add: decrypt_round_eq)
next
  case (Suc r)
  have q: "quad (drop 4 rk) 0 = quad rk 1" "quad (drop 8 rk) = (\<lambda>i. quad rk (2 + i))"
    using quad_drop [of 1 rk 0] quad_drop [of 2 rk] Suc.prems by (simp_all add: fun_eq_iff)
  have "decrypt_steps (quad rk) 2 s = aes_decrypt_round (drop 8 rk) (aes_decrypt_round (drop 4 rk) s)"
    by (simp add: decrypt_round_eq q numeral_2_eq_2)
  moreover have "aes_decrypt_rounds r (drop 8 rk) t = (decrypt_steps (\<lambda>i. quad rk (2 + i)) (2 * r + 1) t, drop (8 * (r + 1)) (drop 8 rk))" for t
    using Suc.IH [of "drop 8 rk" t] Suc.prems unfolding q by simp
  ultimately show ?case using decrypt_steps_add [of "quad rk" "2 * r + 1" 2 s] by (simp add: Let_def del: decrypt_steps.simps)
qed

text \<open>The states of the decryption are those of the encryption after the substitution, backwards.\<close>

lemma decrypt_steps_undo:
  assumes "\<And>i. 0 < i \<Longrightarrow> i \<le> n \<Longrightarrow> d i = map_cols inv_mix_column (k (n + 1 - i))"
  shows "m \<le> n \<Longrightarrow> decrypt_steps d m (sub_shift (encrypt_steps k n s)) = sub_shift (encrypt_steps k (n - m) s)"
proof (induction m)
  case (Suc m)
  obtain l where l: "n - m = Suc l" using Suc.prems by (cases "n - m") simp_all
  then have "d (Suc m) = map_cols inv_mix_column (k (Suc l))" using Suc.prems by (simp add: assms)
  moreover have "n - Suc m = l" using l by simp
  ultimately show ?case using Suc l by (simp add: inv_mix_round)
qed simp

text \<open>A key schedule of \<open>2 r\<close> rounds and the schedule of the inverse cipher made from it.\<close>

definition aes_scheduled :: "nat \<Rightarrow> u32 list \<Rightarrow> ltc_rijndael_keysched \<Rightarrow> bool" where
  "aes_scheduled r ks skey \<longleftrightarrow> 1 \<le> r \<and> r \<le> 7 \<and> length ks = 4 * (2 * r + 1) \<and>
     (\<exists>tail. enc_ks skey = ks @ tail) \<and> enc_rn skey = of_nat (32 * r) \<and>
     (\<exists>tail. dec_ks skey = inverse_key ks (length ks) (2 * r) @ tail) \<and> dec_rn skey = of_nat (32 * r)"

lemma aes_half_rounds: "r \<le> 7 \<Longrightarrow> unat (drop_bit (Suc 0) (of_nat (32 * r) div 16 :: u32)) = r"
proof -
  assume "r \<le> 7"
  then have "unat (of_nat (32 * r) :: u32) = 32 * r" by (simp only: unat_of_nat) simp
  then show ?thesis by (simp add: unat_drop_bit_div unat_div_distrib del: of_nat_mult of_nat_numeral)
qed

lemma quad_append: "4 * i + 3 < length xs \<Longrightarrow> quad (xs @ ys) i = quad xs i"
  by (simp add: quad_def nth_append)

lemma quad_concat:
  assumes "\<And>i. length (h i) = 4"
  shows "i < n \<Longrightarrow> quad (concat (map h [0..<n])) i = quad (h i) 0"
proof (induction n)
  case (Suc n)
  have l: "length (concat (map h [0..<n])) = 4 * n" using assms by (induction n) simp_all
  show ?case
  proof (cases "i = n")
    case True
    then show ?thesis using l quad_drop [of n "concat (map h [0..<n]) @ h n" 0] by simp
  next
    case False
    then show ?thesis using Suc l by (simp add: quad_append)
  qed
qed simp

lemma quad_map: "4 \<le> length xs \<Longrightarrow> quad (map f xs) 0 = map_cols f (quad xs 0)"
  by (auto simp: quad_0 intro!: nth_map)

lemma quad_take: "quad (take 4 xs) 0 = quad xs 0"
  by (simp add: quad_0)

lemma inverse_key_quad:
  assumes "length ks = 4 * (N + 1)" "0 < N"
  shows "length (inverse_key ks (length ks) N) = 4 * (N + 1)"
    "i \<le> N \<Longrightarrow> quad (inverse_key ks (length ks) N) i =
      (if i = 0 \<or> i = N then quad ks (N - i) else map_cols inv_mix_column (quad ks (N - i)))"
proof -
  define h where "h i = (if i = 0 \<or> i = N then take 4 (drop (4 * (N - i)) ks) else map inv_mix_key (take 4 (drop (4 * (N - i)) ks)))" for i
  have "[0..<N + 1] = 0 # [1..<N + 1]" by (simp add: upt_conv_Cons del: upt_Suc)
  also have "[1..<N + 1] = [1..<N] @ [N]" using assms(2) by simp
  finally have u: "[0..<N + 1] = 0 # [1..<N] @ [N]" .
  have "map h [1..<N] = map (\<lambda>i. map inv_mix_key (take 4 (drop (length ks - 4 - 4 * i) ks))) [1..<N]"
    using assms(1) by (intro map_cong refl) (auto simp: h_def diff_mult_distrib2)
  then have "inverse_key ks (length ks) N = h 0 @ concat (map h [1..<N]) @ h N"
    using assms(1) by (simp only: inverse_key_def Let_def) (simp add: h_def)
  then have e: "inverse_key ks (length ks) N = concat (map h [0..<N + 1])" by (simp only: u) simp
  have l: "length (h i) = 4" for i using assms(1) by (auto simp: h_def)
  then have "length (concat (map h [0..<n])) = 4 * n" for n by (induction n) simp_all
  then show "length (inverse_key ks (length ks) N) = 4 * (N + 1)" by (simp only: e)
  have q: "quad (take 4 (drop (4 * m) ks)) 0 = quad ks m" if "m \<le> N" for m
    using that assms(1) quad_drop [of m ks 0] by (simp add: quad_take)
  assume "i \<le> N"
  then have "quad (inverse_key ks (length ks) N) i = quad (h i) 0" unfolding e by (intro quad_concat l) simp
  also have "\<dots> = (if i = 0 \<or> i = N then quad ks (N - i) else map_cols inv_mix_column (quad ks (N - i)))"
    using q [of "N - i"] assms(1) quad_map [of "take 4 (drop (4 * (N - i)) ks)" inv_mix_key]
    by (simp add: h_def inv_mix_key_eq [abs_def])
  finally show "quad (inverse_key ks (length ks) N) i =
      (if i = 0 \<or> i = N then quad ks (N - i) else map_cols inv_mix_column (quad ks (N - i)))" .
qed

lemma encrypt_block_eq:
  assumes "aes_scheduled r ks skey"
  shows "ccaes_ltc_ecb_encrypt skey b =
    store_state (add_key (sub_shift (encrypt_steps (quad ks) (2 * r - 1) (add_key (load_state b) (quad ks 0)))) (quad ks (2 * r)))"
proof -
  obtain tail where ks: "enc_ks skey = ks @ tail" and rn: "enc_rn skey = of_nat (32 * r)" and r: "1 \<le> r" "r \<le> 7"
    and l: "length ks = 4 * (2 * r + 1)" using assms by (auto simp: aes_scheduled_def)
  have "quad (ks @ tail) i = quad ks i" if "i \<le> 2 * r" for i using that l by (intro quad_append) simp
  have e: "encrypt_steps (quad (ks @ tail)) n s = encrypt_steps (quad ks) n s" if "n \<le> 2 * r" for n s
    using that \<open>\<And>i. i \<le> 2 * r \<Longrightarrow> quad (ks @ tail) i = quad ks i\<close> by (induction n) simp_all
  have "aes_encrypt_rounds (r - 1) (ks @ tail) s = (encrypt_steps (quad ks) (2 * r - 1) s, drop (8 * r) (ks @ tail))" for s
  proof -
    have "2 * (r - 1) + 1 = 2 * r - 1" "8 * (r - 1 + 1) = 8 * r" using r by simp_all
    with encrypt_rounds_eq [of "r - 1" "ks @ tail" s] l e [of "2 * r - 1" s] show ?thesis by (simp only: length_append) simp
  qed
  moreover have "quad (drop (8 * r) (ks @ tail)) 0 = quad ks (2 * r)"
    using quad_drop [of "2 * r" "ks @ tail" 0] l quad_append [of "2 * r" ks tail] by simp
  ultimately show ?thesis
    using quad_append [of 0 ks tail] l
    by (simp add: ccaes_ltc_ecb_encrypt_def ks rn aes_half_rounds [OF r(2)] aes_load_eq encrypt_last_eq Let_def del: of_nat_mult of_nat_numeral)
qed

lemma decrypt_block_eq:
  assumes "aes_scheduled r ks skey"
  defines "rks \<equiv> inverse_key ks (length ks) (2 * r)"
  shows "ccaes_ltc_ecb_decrypt skey b =
    store_state (add_key (inv_sub_shift (decrypt_steps (quad rks) (2 * r - 1) (add_key (load_state b) (quad rks 0)))) (quad rks (2 * r)))"
proof -
  obtain tail where ks: "dec_ks skey = rks @ tail" and rn: "dec_rn skey = of_nat (32 * r)" and r: "1 \<le> r" "r \<le> 7"
    and l: "length rks = 4 * (2 * r + 1)"
    using assms inverse_key_quad(1) [of ks "2 * r"] by (auto simp: aes_scheduled_def)
  have "quad (rks @ tail) i = quad rks i" if "i \<le> 2 * r" for i using that l by (intro quad_append) simp
  have e: "decrypt_steps (quad (rks @ tail)) n s = decrypt_steps (quad rks) n s" if "n \<le> 2 * r" for n s
    using that \<open>\<And>i. i \<le> 2 * r \<Longrightarrow> quad (rks @ tail) i = quad rks i\<close> by (induction n) simp_all
  have "aes_decrypt_rounds (r - 1) (rks @ tail) s = (decrypt_steps (quad rks) (2 * r - 1) s, drop (8 * r) (rks @ tail))" for s
  proof -
    have "2 * (r - 1) + 1 = 2 * r - 1" "8 * (r - 1 + 1) = 8 * r" using r by simp_all
    with decrypt_rounds_eq [of "r - 1" "rks @ tail" s] l e [of "2 * r - 1" s] show ?thesis by (simp only: length_append) simp
  qed
  moreover have "quad (drop (8 * r) (rks @ tail)) 0 = quad rks (2 * r)"
    using quad_drop [of "2 * r" "rks @ tail" 0] l quad_append [of "2 * r" rks tail] by simp
  ultimately show ?thesis
    using quad_append [of 0 rks tail] l
    by (simp add: ccaes_ltc_ecb_decrypt_def ks rn aes_half_rounds [OF r(2)] aes_load_eq decrypt_last_eq Let_def del: of_nat_mult of_nat_numeral)
qed


lemma decrypt_encrypt_block:
  assumes "aes_scheduled r ks ke" "aes_scheduled r ks kd" "length b = 16"
  shows "ccaes_ltc_ecb_decrypt kd (ccaes_ltc_ecb_encrypt ke b) = b"
proof -
  define rks where "rks = inverse_key ks (length ks) (2 * r)"
  define s where "s = add_key (load_state b) (quad ks 0)"
  have r: "1 \<le> r" "length ks = 4 * (2 * r + 1)" using assms(1) by (simp_all add: aes_scheduled_def)
  have q: "i \<le> 2 * r \<Longrightarrow> quad rks i = (if i = 0 \<or> i = 2 * r then quad ks (2 * r - i) else map_cols inv_mix_column (quad ks (2 * r - i)))" for i
    using inverse_key_quad(2) [of ks "2 * r" i] r by (simp add: rks_def)
  have "decrypt_steps (quad rks) (2 * r - 1) (sub_shift (encrypt_steps (quad ks) (2 * r - 1) s)) = sub_shift s"
  proof -
    have "quad rks i = map_cols inv_mix_column (quad ks (2 * r - 1 + 1 - i))" if "0 < i" "i \<le> 2 * r - 1" for i
    proof -
      have "i \<noteq> 2 * r" using that r by linarith
      then show ?thesis using that r q [of i] by simp
    qed
    from decrypt_steps_undo [of "2 * r - 1" "quad rks" "quad ks", OF this, of "2 * r - 1" s] show ?thesis by simp
  qed
  then show ?thesis
    using q [of 0] q [of "2 * r"] assms(3)
    by (simp add: encrypt_block_eq [OF assms(1)] decrypt_block_eq [OF assms(2)] flip: s_def rks_def) (simp add: s_def)
qed

text \<open>The other way round: an injective map of the blocks is onto.\<close>

lemma inverse_of_inverse:
  fixes f g :: "bytes \<Rightarrow> bytes"
  assumes "\<And>x. length x = n \<Longrightarrow> length (f x) = n" "\<And>x. length x = n \<Longrightarrow> g (f x) = x" "length y = n"
  shows "f (g y) = y"
proof -
  have "finite {x :: bytes. length x = n}" using finite_lists_length_eq [of "UNIV :: byte set" n] by simp
  moreover have "inj_on f {x. length x = n}" by (rule inj_on_inverseI [of _ g]) (simp add: assms(2))
  moreover have "f ` {x. length x = n} \<subseteq> {x. length x = n}" using assms(1) by auto
  ultimately have "f ` {x. length x = n} = {x. length x = n}" by (intro endo_inj_surj)
  then obtain x where "length x = n" "y = f x" using assms(3) by blast
  then show ?thesis by (simp add: assms(2))
qed

lemma length_aes_block [simp]: "length (ccaes_ltc_ecb_encrypt k b) = 16" "length (ccaes_ltc_ecb_decrypt k b) = 16"
proof -
  have "length (aes_encrypt_last rk s) = 16" "length (aes_decrypt_last rk s) = 16" for rk s by (cases s, simp)+
  then show "length (ccaes_ltc_ecb_encrypt k b) = 16" "length (ccaes_ltc_ecb_decrypt k b) = 16"
    by (simp_all add: ccaes_ltc_ecb_encrypt_def ccaes_ltc_ecb_decrypt_def Let_def case_prod_beta)
qed

section \<open>AES as a block cipher\<close>

lemma length_foldl_append:
  "(\<And>i rk. length (f i rk) = l i) \<Longrightarrow>
   length (foldl (\<lambda>ks i. ks @ f i (g i ks)) ks xs) = length ks + sum_list (map l xs)"
  by (induction xs arbitrary: ks) simp_all

lemma length_expand:
  "length (expand_128 ks) = length ks + 40" "length (expand_192 ks) = length ks + 46" "length (expand_256 ks) = length ks + 52"
proof -
  show "length (expand_128 ks) = length ks + 40"
    unfolding expand_128_def
    using length_foldl_append [of expand_128_step "\<lambda>i. 4" "\<lambda>i. drop (4 * i)" ks "[0..<10]"]
    by (simp add: expand_128_step_def Let_def sum_list_triv)
  have "sum_list (map (\<lambda>i. if i + 1 = 8 then 4 else 6) [0..<8]) = (46 :: nat)" by code_simp
  then show "length (expand_192 ks) = length ks + 46"
    unfolding expand_192_def
    using length_foldl_append [of expand_192_step "\<lambda>i. if i + 1 = 8 then 4 else 6" "\<lambda>i. drop (6 * i)" ks "[0..<8]"]
    by (simp add: expand_192_step_def Let_def)
  have "sum_list (map (\<lambda>i. if i + 1 = 7 then 4 else 8) [0..<7]) = (52 :: nat)" by code_simp
  then show "length (expand_256 ks) = length ks + 52"
    unfolding expand_256_def
    using length_foldl_append [of expand_256_step "\<lambda>i. if i + 1 = 7 then 4 else 8" "\<lambda>i. drop (8 * i)" ks "[0..<7]"]
    by (simp add: expand_256_step_def Let_def)
qed

lemma aes_key_lengths:
  "ccaes_key_length_validation n = 0 \<longleftrightarrow> n \<in> {16, 128, 24, 192, 32, 256}"
  by (simp add: ccaes_key_length_validation_def CCERR_PARAMETER_def)

text \<open>Every accepted key length gives a schedule, which depends on the key only.\<close>

definition aes_key_words :: "nat \<Rightarrow> bytes \<Rightarrow> u32 list" where
  "aes_key_words keylen key =
     (let word = (\<lambda>n. cc_load32_le (drop (4 * n) key))
      in if keylen = 16 then expand_128 (map word [0..<4])
         else if keylen = 24 then expand_192 (map word [0..<6]) else expand_256 (map word [0..<8]))"

definition aes_half_round_count :: "nat \<Rightarrow> nat" where
  "aes_half_round_count keylen = (if keylen = 16 then 5 else if keylen = 24 then 6 else 7)"

lemma aes_init_scheduled:
  assumes "ccaes_ltc_init key n 0 skey = (0, k)"
  shows "n \<in> {16, 128, 24, 192, 32, 256} \<and>
    aes_scheduled (aes_half_round_count (ccaes_key_length_to_nbytes n)) (aes_key_words (ccaes_key_length_to_nbytes n) key) k"
proof -
  have v: "ccaes_key_length_validation n = 0" using assms by (auto simp: ccaes_ltc_init_def Let_def split: if_splits)
  have n: "n \<in> {16, 128, 24, 192, 32, 256}" using v by (simp add: aes_key_lengths)
  then have m: "ccaes_key_length_to_nbytes n \<in> {16, 24, 32}" by (auto simp: ccaes_key_length_to_nbytes_def)
  show ?thesis
    using assms v n m
    by (auto simp: ccaes_ltc_init_def Let_def aes_scheduled_def aes_half_round_count_def aes_key_words_def length_expand)
qed

lemma aes_init_accepts: "fst (ccaes_ltc_init key n 0 skey) = ccaes_key_length_validation n"
  by (auto simp: ccaes_ltc_init_def Let_def)

lemma aes_fields [simp]:
  "ecb_block_size ccaes_ltc_ecb_encrypt_mode = 16" "ecb_block_size ccaes_ltc_ecb_decrypt_mode = 16"
  "ecb_init ccaes_ltc_ecb_encrypt_mode = ccaes_ecb_encrypt_init" "ecb_init ccaes_ltc_ecb_decrypt_mode = ccaes_ecb_decrypt_init"
  "ecb_ecb ccaes_ltc_ecb_encrypt_mode = ccaes_ecb_encrypt" "ecb_ecb ccaes_ltc_ecb_decrypt_mode = ccaes_ecb_decrypt"
  by (simp_all add: ccaes_ltc_ecb_encrypt_mode_def ccaes_ltc_ecb_decrypt_mode_def)

lemma aes_block [simp]:
  "ecb_block ccaes_ltc_ecb_encrypt_mode = ccaes_ltc_ecb_encrypt" "ecb_block ccaes_ltc_ecb_decrypt_mode = ccaes_ltc_ecb_decrypt"
  by (simp_all add: fun_eq_iff ecb_block_def ccaes_ecb_encrypt_def ccaes_ecb_decrypt_def del: ecb_one)

lemma aes_init_eq:
  "ccaes_ecb_encrypt_init k n raw = (0, ke) \<longleftrightarrow> ccaes_ltc_init raw n 0 k = (0, ke)"
  "ccaes_ecb_decrypt_init k n raw = (0, ke) \<longleftrightarrow> ccaes_ltc_init raw n 0 k = (0, ke)"
  using aes_init_accepts [of raw n k]
  by (auto simp: ccaes_ecb_encrypt_init_def ccaes_ecb_decrypt_init_def Let_def)

lemma aes_set_up:
  assumes "ccaes_key_length_validation n = 0"
  obtains ke where "ccaes_ecb_encrypt_init k n raw = (0, ke)" "ccaes_ecb_decrypt_init k n raw = (0, ke)"
  using aes_init_accepts [of raw n k] assms unfolding aes_init_eq by (metis prod.collapse)

abbreviation aes_blank :: ltc_rijndael_keysched where
  "aes_blank \<equiv> \<lparr>enc_ks = replicate 60 0, enc_rn = 0, dec_ks = replicate 60 0, dec_rn = 0\<rparr>"

lemma aes_block_take:
  "ccaes_ltc_ecb_encrypt k (take 16 b) = ccaes_ltc_ecb_encrypt k b" "ccaes_ltc_ecb_decrypt k (take 16 b) = ccaes_ltc_ecb_decrypt k b"
  by (simp_all add: ccaes_ltc_ecb_encrypt_def ccaes_ltc_ecb_decrypt_def aes_load_eq load_state_take)

interpretation aes: block_cipher_pair ccaes_ltc_ecb_encrypt_mode ccaes_ltc_ecb_decrypt_mode
proof
  fix k d :: ltc_rijndael_keysched and n raw ke kd and b :: bytes
  assume e: "ecb_init ccaes_ltc_ecb_encrypt_mode k n raw = (0, ke)"
  show "fst (ecb_init ccaes_ltc_ecb_decrypt_mode d n raw) = 0"
  proof -
    have "ccaes_key_length_validation n = 0" using aes_init_accepts [of raw n k] e by (simp add: aes_init_eq)
    then show ?thesis by (simp add: ccaes_ecb_decrypt_init_def aes_init_accepts)
  qed
  assume d: "ecb_init ccaes_ltc_ecb_decrypt_mode d n raw = (0, kd)" and b: "length b = ecb_block_size ccaes_ltc_ecb_encrypt_mode"
  from e d obtain r ks where s: "aes_scheduled r ks ke" "aes_scheduled r ks kd"
    using aes_init_scheduled [THEN conjunct2, of raw n] by (simp only: aes_fields aes_init_eq) blast
  have u: "ccaes_ltc_ecb_decrypt kd (ccaes_ltc_ecb_encrypt ke x) = x" if "length x = 16" for x
    using decrypt_encrypt_block [OF s that] .
  then show "ecb_block ccaes_ltc_ecb_decrypt_mode kd (ecb_block ccaes_ltc_ecb_encrypt_mode ke b) = b" using b by simp
  have "ccaes_ltc_ecb_encrypt ke (ccaes_ltc_ecb_decrypt kd b) = b"
    using inverse_of_inverse [of 16 "ccaes_ltc_ecb_encrypt ke" "ccaes_ltc_ecb_decrypt kd" b] u b by simp
  then show "ecb_block ccaes_ltc_ecb_encrypt_mode ke (ecb_block ccaes_ltc_ecb_decrypt_mode kd b) = b" by simp
qed (simp_all add: ccaes_ecb_encrypt_def ccaes_ecb_decrypt_def aes_block_take)

end
