(* ===== verification/Ccaes_Fips.thy ===== *)
theory Ccaes_Fips
  imports Ccaes
begin

unbundle bit_operations_syntax

text \<open>
  The cipher of FIPS 197, written from the standard and from none of the tables: the field, the S-box as the inverse and
  the affine map, the key expansion with its round constants, the rounds on sixteen bytes.  The table-driven encryption of
  \<open>ccaes/src/ltc\<close> is shown to be this cipher for every key length.
\<close>

section \<open>The standard\<close>

text \<open>Multiplication of polynomials modulo \<open>x^8 + x^4 + x^3 + x + 1\<close>: by \<open>x\<close>, and by any polynomial, bit by bit (section 4.2).\<close>

definition fips_x :: "byte \<Rightarrow> byte" where
  "fips_x a = push_bit 1 a XOR (if bit a 7 then 0x1b else 0)"

function fips_times :: "nat \<Rightarrow> byte \<Rightarrow> byte \<Rightarrow> byte" where
  "fips_times i a b = (if i < 8 then (if bit b i then a else 0) XOR fips_times (i + 1) (fips_x a) b else 0)"
  by pat_completeness auto
termination by (relation "measure (\<lambda>(i, a, b). 8 - i)") auto

declare fips_times.simps [simp del]

definition fips_mul :: "byte \<Rightarrow> byte \<Rightarrow> byte" where
  "fips_mul a b = fips_times 0 a b"

definition fips_square :: "byte \<Rightarrow> byte" where
  "fips_square a = fips_mul a a"

text \<open>The inverse is the power 254, by squarings and multiplications.\<close>

definition fips_252 :: "byte \<Rightarrow> byte \<Rightarrow> byte" where
  "fips_252 a3 a12 = fips_mul (fips_square (fips_square (fips_square (fips_square (fips_mul a12 a3))))) a12"

definition fips_254 :: "byte \<Rightarrow> byte \<Rightarrow> byte" where
  "fips_254 a2 a3 = fips_mul (fips_252 a3 (fips_square (fips_square a3))) a2"

definition fips_inv :: "byte \<Rightarrow> byte \<Rightarrow> byte" where
  "fips_inv a a2 = fips_254 a2 (fips_mul a2 a)"

definition fips_inverse :: "byte \<Rightarrow> byte" where
  "fips_inverse a = fips_inv a (fips_square a)"

text \<open>The affine map of section 5.1.1: bit \<open>i\<close> is the sum of the bits \<open>i\<close>, \<open>i + 4\<close>, ..., \<open>i + 7\<close>, modulo 8, and of the constant.\<close>

definition fips_turn :: "nat \<Rightarrow> byte \<Rightarrow> byte" where
  "fips_turn n b = push_bit n b OR drop_bit (8 - n) b"

definition fips_affine :: "byte \<Rightarrow> byte" where
  "fips_affine b = b XOR fips_turn 1 b XOR fips_turn 2 b XOR fips_turn 3 b XOR fips_turn 4 b XOR 0x63"

definition fips_sub_byte :: "byte \<Rightarrow> byte" where
  "fips_sub_byte a = fips_affine (fips_inverse a)"

text \<open>The state, column by column (section 3.4), and the transformations of section 5.1.\<close>

definition fips_sub_bytes :: "bytes \<Rightarrow> bytes" where
  "fips_sub_bytes s = map fips_sub_byte s"

definition fips_shift_rows :: "bytes \<Rightarrow> bytes" where
  "fips_shift_rows s = map (\<lambda>i. s ! ((i + 4 * (i mod 4)) mod 16)) [0..<16]"

definition fips_mix_column :: "byte \<Rightarrow> byte \<Rightarrow> byte \<Rightarrow> byte \<Rightarrow> bytes" where
  "fips_mix_column a b c d =
     [fips_mul a 2 XOR fips_mul b 3 XOR c XOR d, a XOR fips_mul b 2 XOR fips_mul c 3 XOR d,
      a XOR b XOR fips_mul c 2 XOR fips_mul d 3, fips_mul a 3 XOR b XOR c XOR fips_mul d 2]"

definition fips_mix_columns :: "bytes \<Rightarrow> bytes" where
  "fips_mix_columns s = concat (map (\<lambda>c. fips_mix_column (s ! (4 * c)) (s ! (4 * c + 1)) (s ! (4 * c + 2)) (s ! (4 * c + 3))) [0..<4])"

definition fips_add :: "bytes \<Rightarrow> bytes \<Rightarrow> bytes" where
  "fips_add a b = map2 (XOR) a b"

text \<open>
  The key expansion (section 5.2) for a key of \<open>Nk\<close> words: word \<open>i\<close>, its first byte first.  \<open>Rcon[j]\<close> is the power
  \<open>j - 1\<close> of \<open>x\<close>.
\<close>

definition fips_rcon :: "nat \<Rightarrow> bytes" where
  "fips_rcon j = [(fips_x ^^ (j - 1)) 1, 0, 0, 0]"

definition fips_rot_word :: "bytes \<Rightarrow> bytes" where
  "fips_rot_word w = [w ! 1, w ! 2, w ! 3, w ! 0]"

definition fips_temp :: "nat \<Rightarrow> nat \<Rightarrow> bytes \<Rightarrow> bytes" where
  "fips_temp Nk i temp =
     (if i mod Nk = 0 then fips_add (fips_sub_bytes (fips_rot_word temp)) (fips_rcon (i div Nk))
      else if Nk > 6 \<and> i mod Nk = 4 then fips_sub_bytes temp else temp)"

function fips_word :: "nat \<Rightarrow> bytes \<Rightarrow> nat \<Rightarrow> bytes" where
  "fips_word Nk key i =
     (if i < Nk \<or> Nk = 0 then take 4 (drop (4 * i) key)
      else fips_add (fips_word Nk key (i - Nk)) (fips_temp Nk i (fips_word Nk key (i - 1))))"
  by pat_completeness auto
termination by (relation "measure (\<lambda>(Nk, key, i). i)") auto

declare fips_word.simps [simp del]

definition fips_round_key :: "nat \<Rightarrow> bytes \<Rightarrow> nat \<Rightarrow> bytes" where
  "fips_round_key Nk key r = concat (map (fips_word Nk key) [4 * r..<4 * r + 4])"

text \<open>The cipher (section 5.1); a key of \<open>Nk\<close> words has \<open>Nk + 6\<close> rounds.\<close>

primrec fips_rounds :: "nat \<Rightarrow> bytes \<Rightarrow> nat \<Rightarrow> bytes \<Rightarrow> bytes" where
  "fips_rounds Nk key 0 s = s"
| "fips_rounds Nk key (Suc r) s =
     fips_add (fips_mix_columns (fips_shift_rows (fips_sub_bytes (fips_rounds Nk key r s)))) (fips_round_key Nk key (Suc r))"

definition fips_cipher :: "nat \<Rightarrow> bytes \<Rightarrow> bytes \<Rightarrow> bytes" where
  "fips_cipher Nk key input =
     (let Nr = Nk + 6;
          s = fips_rounds Nk key (Nr - 1) (fips_add input (fips_round_key Nk key 0))
      in fips_add (fips_shift_rows (fips_sub_bytes s)) (fips_round_key Nk key Nr))"

section \<open>The S-box\<close>

lemma fips_x_7: "fips_x a = push_bit 1 (a AND 0x7f) XOR (if bit a 7 then 0x1b else 0)"
  by (rule bit_word_eqI) (auto simp: fips_x_def bit_simps less_Suc_eq numeral_eq_Suc simp del: push_bit_Suc push_bit_of_1)

lemma fips_times_step:
  "fips_times 0 a b = (if bit b 0 then a else 0) XOR fips_times (Suc 0) (fips_x a) b"
  "fips_times (Suc 0) a b = (if bit b (Suc 0) then a else 0) XOR fips_times 2 (fips_x a) b"
  "fips_times 2 a b = (if bit b 2 then a else 0) XOR fips_times 3 (fips_x a) b"
  "fips_times 3 a b = (if bit b 3 then a else 0) XOR fips_times 4 (fips_x a) b"
  "fips_times 4 a b = (if bit b 4 then a else 0) XOR fips_times 5 (fips_x a) b"
  "fips_times 5 a b = (if bit b 5 then a else 0) XOR fips_times 6 (fips_x a) b"
  "fips_times 6 a b = (if bit b 6 then a else 0) XOR fips_times 7 (fips_x a) b"
  "fips_times 7 a b = (if bit b 7 then a else 0)"
proof -
  have s: "i < 8 \<Longrightarrow> fips_times i a b = (if bit b i then a else 0) XOR fips_times (Suc i) (fips_x a) b" for i a b
    by (subst fips_times.simps) simp
  have e: "fips_times 8 a b = 0" for a by (simp add: fips_times.simps)
  have n: "Suc (Suc 0) = 2" "Suc 2 = 3" "Suc 3 = 4" "Suc 4 = 5" "Suc 5 = 6" "Suc 6 = 7" "Suc 7 = 8" by simp_all
  show
  "fips_times 0 a b = (if bit b 0 then a else 0) XOR fips_times (Suc 0) (fips_x a) b"
  "fips_times (Suc 0) a b = (if bit b (Suc 0) then a else 0) XOR fips_times 2 (fips_x a) b"
  "fips_times 2 a b = (if bit b 2 then a else 0) XOR fips_times 3 (fips_x a) b"
  "fips_times 3 a b = (if bit b 3 then a else 0) XOR fips_times 4 (fips_x a) b"
  "fips_times 4 a b = (if bit b 4 then a else 0) XOR fips_times 5 (fips_x a) b"
  "fips_times 5 a b = (if bit b 5 then a else 0) XOR fips_times 6 (fips_x a) b"
  "fips_times 6 a b = (if bit b 6 then a else 0) XOR fips_times 7 (fips_x a) b"
  "fips_times 7 a b = (if bit b 7 then a else 0)"
    using s [of 0 a b] s [of "Suc 0" a b] s [of 2 a b] s [of 3 a b] s [of 4 a b] s [of 5 a b] s [of 6 a b] s [of 7 a b]
    by (simp_all only: n e) simp_all
qed

text \<open>The squares, as a table.\<close>

lemma fips_squares:
  "map fips_square all_bytes =
     [0, 1, 4, 5, 16, 17, 20, 21, 64, 65, 68, 69, 80, 81, 84, 85] @
     [27, 26, 31, 30, 11, 10, 15, 14, 91, 90, 95, 94, 75, 74, 79, 78] @
     [108, 109, 104, 105, 124, 125, 120, 121, 44, 45, 40, 41, 60, 61, 56, 57] @
     [119, 118, 115, 114, 103, 102, 99, 98, 55, 54, 51, 50, 39, 38, 35, 34] @
     [171, 170, 175, 174, 187, 186, 191, 190, 235, 234, 239, 238, 251, 250, 255, 254] @
     [176, 177, 180, 181, 160, 161, 164, 165, 240, 241, 244, 245, 224, 225, 228, 229] @
     [199, 198, 195, 194, 215, 214, 211, 210, 135, 134, 131, 130, 151, 150, 147, 146] @
     [220, 221, 216, 217, 204, 205, 200, 201, 156, 157, 152, 153, 140, 141, 136, 137] @
     [154, 155, 158, 159, 138, 139, 142, 143, 218, 219, 222, 223, 202, 203, 206, 207] @
     [129, 128, 133, 132, 145, 144, 149, 148, 193, 192, 197, 196, 209, 208, 213, 212] @
     [246, 247, 242, 243, 230, 231, 226, 227, 182, 183, 178, 179, 166, 167, 162, 163] @
     [237, 236, 233, 232, 253, 252, 249, 248, 173, 172, 169, 168, 189, 188, 185, 184] @
     [49, 48, 53, 52, 33, 32, 37, 36, 113, 112, 117, 116, 97, 96, 101, 100] @
     [42, 43, 46, 47, 58, 59, 62, 63, 106, 107, 110, 111, 122, 123, 126, 127] @
     [93, 92, 89, 88, 77, 76, 73, 72, 29, 28, 25, 24, 13, 12, 9, 8] @
     [70, 71, 66, 67, 86, 87, 82, 83, 6, 7, 2, 3, 22, 23, 18, 19]"
  unfolding all_bytes_def by (simp add: fips_square_def fips_mul_def fips_times_step fips_x_7)

lemmas fips_square_values = fips_squares [unfolded all_bytes_def, simplified]

lemmas fips_eval = fips_mul_def fips_times_step fips_x_7 fips_252_def fips_254_def fips_inv_def fips_inverse_def fips_square_values

lemma sub_byte_parts:
  "map fips_sub_byte (take 64 all_bytes) = take 64 sbox"
  "map fips_sub_byte (take 64 (drop 64 all_bytes)) = take 64 (drop 64 sbox)"
  "map fips_sub_byte (take 64 (drop 128 all_bytes)) = take 64 (drop 128 sbox)"
  "map fips_sub_byte (drop 192 all_bytes) = drop 192 sbox"
  unfolding all_bytes_def sbox_def Te4_3_def by (simp_all add: fips_eval fips_sub_byte_def fips_affine_def fips_turn_def)

text \<open>A list of 256 in four parts.\<close>

lemma four_parts: "take 64 xs @ take 64 (drop 64 xs) @ take 64 (drop 128 xs) @ drop 192 xs = xs"
proof -
  have "drop 192 xs = drop 64 (drop 64 (drop 64 xs))" "drop 128 xs = drop 64 (drop 64 xs)" by simp_all
  then show ?thesis by (simp only: append_take_drop_id)
qed

lemma fips_sbox: "map fips_sub_byte all_bytes = sbox"
  by (subst (1 2) four_parts [symmetric]) (simp only: map_append sub_byte_parts)

lemma sub_byte_fips: "sub_byte = fips_sub_byte"
proof
  fix b
  have "sub_byte b = map fips_sub_byte all_bytes ! unat b" by (simp only: sub_byte_def fips_sbox)
  then show "sub_byte b = fips_sub_byte b" using byte_less [of b] by (simp add: all_bytes_nth)
qed

section \<open>The rounds\<close>

lemma fips_mul_small: "fips_mul a 2 = xtime a" "fips_mul a 3 = xtime a XOR a"
  by (simp_all add: fips_mul_def fips_times_step xtime_def fips_x_def xor.commute)

text \<open>The four columns as sixteen bytes.\<close>

lemma store_cols:
  "store_state (aes_col a0 a1 a2 a3, aes_col b0 b1 b2 b3, aes_col c0 c1 c2 c3, aes_col d0 d1 d2 d3) =
    [a0, a1, a2, a3, b0, b1, b2, b3, c0, c1, c2, c3, d0, d1, d2, d3]"
  by (simp add: store_col)

lemma cols_cases:
  obtains a0 a1 a2 a3 b0 b1 b2 b3 c0 c1 c2 c3 d0 d1 d2 d3 where
    "s = (aes_col a0 a1 a2 a3, aes_col b0 b1 b2 b3, aes_col c0 c1 c2 c3, aes_col d0 d1 d2 d3)"
  by (cases s) (metis aes_col_bytes)

lemma upt_16: "[0..<16] = [0, 1, 2, 3, 4, 5, 6, 7, 8, 9, 10, 11, 12, 13, 14, 15 :: nat]" "[0..<4] = [0, 1, 2, 3 :: nat]"
  by (simp_all add: upt_conv_Cons)

lemma store_sub_shift: "store_state (sub_shift s) = fips_shift_rows (fips_sub_bytes (store_state s))"
  by (cases s rule: cols_cases)
    (simp add: Let_def store_cols fips_shift_rows_def fips_sub_bytes_def upt_16 sub_byte_fips del: store_state.simps)

lemma mix_col:
  "mix_column (aes_col a b c d) =
    aes_col (fips_mul a 2 XOR fips_mul b 3 XOR c XOR d) (a XOR fips_mul b 2 XOR fips_mul c 3 XOR d)
      (a XOR b XOR fips_mul c 2 XOR fips_mul d 3) (fips_mul a 3 XOR b XOR c XOR fips_mul d 2)"
  by (simp add: mix_column_def aes_mul_def aes_col_xor fips_mul_small ac_simps)

lemma store_mix: "store_state (map_cols mix_column s) = fips_mix_columns (store_state s)"
  by (cases s rule: cols_cases)
    (simp add: mix_col store_cols fips_mix_columns_def fips_mix_column_def upt_16 del: store_state.simps)

lemma store_add: "store_state (add_key s k) = fips_add (store_state s) (store_state k)"
  by (cases s rule: cols_cases; cases k rule: cols_cases)
    (simp add: store_cols aes_col_xor fips_add_def del: store_state.simps)

section \<open>The key expansion\<close>

abbreviation bytes_of :: "u32 \<Rightarrow> bytes" where
  "bytes_of w \<equiv> cc_store32_le w"

lemma bytes_xor: "bytes_of (v XOR w) = fips_add (bytes_of v) (bytes_of w)"
  by (simp add: store_col fips_add_def)

lemma bytes_setup_mix: "bytes_of (setup_mix w) = fips_sub_bytes (fips_rot_word (bytes_of w))"
proof -
  obtain a b c d where w: "w = aes_col a b c d" using aes_col_bytes by metis
  show ?thesis
    by (simp add: w setup_mix_def cc_byte_eq last_tables aes_col_xor store_col fips_sub_bytes_def fips_rot_word_def sub_byte_fips)
qed

lemma bytes_rotl: "fips_rot_word (bytes_of (word_rotl 8 w)) = bytes_of w"
proof -
  obtain a b c d where w: "w = aes_col a b c d" using aes_col_bytes by metis
  have "(n + 24) mod 32 = (if n < 8 then n + 24 else n - 8)" if "n < 32" for n :: nat
    using that by (auto simp: mod_if)
  then have "word_rotl 8 w = rol8 w"
    by (intro bit_word_eqI) (auto simp: rol8_def bit_simps add.commute bit_high_word)
  then show ?thesis by (simp add: w store_col fips_rot_word_def)
qed

lemma bytes_rcon: "i < 10 \<Longrightarrow> bytes_of (rcon ! i) = fips_rcon (i + 1)"
proof -
  have "map bytes_of rcon = map (\<lambda>i. fips_rcon (i + 1)) [0..<10]"
    by code_simp
  moreover have "length rcon = 10" by (simp add: rcon_def)
  ultimately show "i < 10 \<Longrightarrow> ?thesis" by (metis (no_types, lifting) add_0 length_upt minus_nat.diff_0 nth_map nth_upt)
qed

text \<open>The words made so far are those of the standard.\<close>

definition fips_expanded :: "nat \<Rightarrow> bytes \<Rightarrow> u32 list \<Rightarrow> bool" where
  "fips_expanded Nk key ks \<longleftrightarrow> (\<forall>j < length ks. bytes_of (ks ! j) = fips_word Nk key j)"

lemma expanded_start:
  assumes "4 * Nk \<le> length key"
  shows "fips_expanded Nk key (map (\<lambda>n. cc_load32_le (drop (4 * n) key)) [0..<Nk])"
  unfolding fips_expanded_def
proof (intro allI impI)
  fix j assume "j < length (map (\<lambda>n. cc_load32_le (drop (4 * n) key)) [0..<Nk])"
  then have j: "j < Nk" by simp
  then have "4 * j + 4 \<le> length key" using assms by simp
  then have "take 4 (drop (4 * j) key) = map ((!) (drop (4 * j) key)) [0..<4]"
    by (intro nth_equalityI) simp_all
  then have "bytes_of (cc_load32_le (drop (4 * j) key)) = take 4 (drop (4 * j) key)"
    by (simp only: load_col store_col upt_16) simp
  with j show "bytes_of (map (\<lambda>n. cc_load32_le (drop (4 * n) key)) [0..<Nk] ! j) = fips_word Nk key j"
    by (simp add: fips_word.simps [of Nk key j])
qed

text \<open>A run of words, each the XOR of an old word and of the word before.\<close>

primrec xor_run :: "u32 \<Rightarrow> u32 list \<Rightarrow> u32 list" where
  "xor_run v [] = []"
| "xor_run v (x # xs) = (x XOR v) # xor_run (x XOR v) xs"

lemma expanded_run:
  assumes "0 < Nk"
  shows "fips_expanded Nk key ks \<Longrightarrow> Nk \<le> length ks \<Longrightarrow> length xs \<le> Nk \<Longrightarrow>
    (\<And>t. t < length xs \<Longrightarrow> xs ! t = ks ! (length ks - Nk + t)) \<Longrightarrow>
    bytes_of v = fips_temp Nk (length ks) (bytes_of (last ks)) \<Longrightarrow>
    (\<And>t b. 0 < t \<Longrightarrow> t < length xs \<Longrightarrow> fips_temp Nk (length ks + t) b = b) \<Longrightarrow> fips_expanded Nk key (ks @ xor_run v xs)"
proof (induction xs arbitrary: ks v)
  case (Cons x xs)
  let ?ks = "ks @ [x XOR v]" and ?n = "length ks"
  have n: "0 < ?n" "ks \<noteq> []" using assms Cons.prems(2) by auto
  have x: "x = ks ! (?n - Nk)" using Cons.prems(4) [of 0] by simp
  have "bytes_of (last ks) = fips_word Nk key (?n - 1)" "bytes_of x = fips_word Nk key (?n - Nk)"
    using Cons.prems(1) n assms Cons.prems(2) by (simp_all add: fips_expanded_def last_conv_nth x)
  then have "bytes_of (x XOR v) = fips_word Nk key ?n"
    using assms Cons.prems(2,5) by (subst fips_word.simps) (simp add: bytes_xor)
  then have e: "fips_expanded Nk key ?ks"
    using Cons.prems(1) by (auto simp: fips_expanded_def nth_append less_Suc_eq)
  show ?case
  proof (cases "xs = []")
    case False
    have "fips_expanded Nk key (?ks @ xor_run (x XOR v) xs)"
    proof (rule Cons.IH [OF e])
      show "xs ! t = ?ks ! (length ?ks - Nk + t)" if "t < length xs" for t
      proof -
        have "?n + Suc t - Nk < ?n" using Cons.prems(2,3) that by simp
        then show ?thesis using Cons.prems(2,3) Cons.prems(4) [of "Suc t"] that by (simp add: nth_append Suc_diff_le)
      qed
      show "bytes_of (x XOR v) = fips_temp Nk (length ?ks) (bytes_of (last ?ks))"
        using Cons.prems(6) [of 1 "bytes_of (x XOR v)"] False by simp
      show "fips_temp Nk (length ?ks + t) b = b" if "0 < t" "t < length xs" for t b
        using Cons.prems(6) [of "Suc t" b] that by simp
    qed (use Cons.prems(2,3) in simp_all)
    then show ?thesis by simp
  qed (use e in simp)
qed simp

lemma length_xor_run [simp]: "length (xor_run v xs) = length xs"
  by (induction xs arbitrary: v) simp_all

lemma last_xor_run: "xs \<noteq> [] \<Longrightarrow> last (xor_run v xs) = xor_run v xs ! (length xs - 1)"
  by (metis last_conv_nth length_0_conv length_xor_run)

text \<open>The first words of every iteration.\<close>

lemma expanded_first:
  assumes "fips_expanded Nk key ks" "length ks = Nk * (i + 1)" "i < 10" "0 < k" "k \<le> Nk" "k \<le> 4 \<or> Nk \<le> 6"
  shows "fips_expanded Nk key (ks @ xor_run (setup_mix (drop (Nk * i) ks ! (Nk - 1)) XOR rcon ! i) (take k (drop (Nk * i) ks)))"
proof (rule expanded_run [OF _ assms(1)])
  have "drop (Nk * i) ks ! (Nk - 1) = last ks"
    using assms(2,4,5) by (subst last_conv_nth) (auto simp: algebra_simps)
  moreover have "Nk * (i + 1) div Nk = i + 1" "Nk * (i + 1) mod Nk = 0" using assms(4,5) by simp_all
  ultimately show "bytes_of (setup_mix (drop (Nk * i) ks ! (Nk - 1)) XOR rcon ! i) = fips_temp Nk (length ks) (bytes_of (last ks))"
    using assms(2,3) by (simp only: bytes_xor bytes_setup_mix bytes_rcon fips_temp_def) simp
  fix t b assume "0 < t" "t < length (take k (drop (Nk * i) ks))"
  then have t: "0 < t" "t < k" "t < Nk" using assms(2,5) by simp_all
  then have "(length ks + t) mod Nk = t" by (simp only: assms(2) mod_mult_self4) simp
  then show "fips_temp Nk (length ks + t) b = b" using t assms(6) by (auto simp: fips_temp_def)
qed (use assms in \<open>auto simp: algebra_simps\<close>)

lemma take_four: "4 \<le> length xs \<Longrightarrow> take 4 xs = [xs ! 0, xs ! 1, xs ! 2, xs ! 3]"
  by (rule nth_equalityI) (auto simp: less_Suc_eq numeral_eq_Suc)

lemma take_six: "6 \<le> length xs \<Longrightarrow> take 6 xs = [xs ! 0, xs ! 1, xs ! 2, xs ! 3, xs ! 4, xs ! 5]"
  by (rule nth_equalityI) (auto simp: less_Suc_eq numeral_eq_Suc)

lemma expand_loop:
  assumes "\<And>i ks. i < m \<Longrightarrow> fips_expanded Nk key ks \<Longrightarrow> length ks = Nk * (i + 1) \<Longrightarrow>
      fips_expanded Nk key (ks @ f i (drop (Nk * i) ks)) \<and> length (f i (drop (Nk * i) ks)) = Nk"
    "fips_expanded Nk key ks" "length ks = Nk"
  shows "n \<le> m \<Longrightarrow> fips_expanded Nk key (foldl (\<lambda>ks i. ks @ f i (drop (Nk * i) ks)) ks [0..<n]) \<and>
    length (foldl (\<lambda>ks i. ks @ f i (drop (Nk * i) ks)) ks [0..<n]) = Nk * (n + 1)"
proof (induction n)
  case (Suc n)
  with assms(1) [of n "foldl (\<lambda>ks i. ks @ f i (drop (Nk * i) ks)) ks [0..<n]"] show ?case by simp
qed (use assms(2,3) in simp)

lemma step_128:
  assumes "4 \<le> length rk"
  shows "expand_128_step i rk = xor_run (setup_mix (rk ! 3) XOR rcon ! i) (take 4 rk)"
  by (simp add: expand_128_step_def Let_def take_four [OF assms] xor.assoc)

lemma step_192:
  assumes "6 \<le> length rk"
  shows "expand_192_step i rk = xor_run (setup_mix (rk ! 5) XOR rcon ! i) (take (if i + 1 = 8 then 4 else 6) rk)"
  using take_four [of rk] take_six [OF assms] assms by (simp add: expand_192_step_def Let_def xor.assoc)

lemma step_256:
  fixes i :: nat
  assumes "8 \<le> length rk"
  defines "ws \<equiv> xor_run (setup_mix (rk ! 7) XOR rcon ! i) (take 4 rk)"
  shows "expand_256_step i rk =
    (if i + 1 = 7 then ws else ws @ xor_run (setup_mix (word_rotl 8 (last ws))) (take 4 (drop 4 rk)))"
  using take_four [of rk] take_four [of "drop 4 rk"] assms(1)
  by (simp add: expand_256_step_def Let_def ws_def xor.assoc)

lemma expanded_128:
  assumes "fips_expanded 4 key ks" "length ks = 4"
  shows "fips_expanded 4 key (expand_128 ks)"
proof -
  have "fips_expanded 4 key (ks @ expand_128_step i (drop (4 * i) ks)) \<and> length (expand_128_step i (drop (4 * i) ks)) = 4"
    if "i < 10" "fips_expanded 4 key ks" "length ks = 4 * (i + 1)" for i ks
    using expanded_first [OF that(2,3,1), of 4] that(3) by (simp add: step_128)
  from expand_loop [where f = expand_128_step, OF this assms, of 10 10] show ?thesis by (simp add: expand_128_def)
qed

lemma expanded_192:
  assumes "fips_expanded 6 key ks" "length ks = 6"
  shows "fips_expanded 6 key (expand_192 ks)"
proof -
  let ?f = "\<lambda>n. foldl (\<lambda>ks i. ks @ expand_192_step i (drop (6 * i) ks)) ks [0..<n]"
  have "fips_expanded 6 key (ks @ expand_192_step i (drop (6 * i) ks)) \<and> length (expand_192_step i (drop (6 * i) ks)) = 6"
    if "i < 7" "fips_expanded 6 key ks" "length ks = 6 * (i + 1)" for i ks
    using expanded_first [OF that(2,3), of 6] that(1,3) by (simp add: step_192)
  from expand_loop [where f = expand_192_step, OF this assms, of 7 7]
  have l: "fips_expanded 6 key (?f 7)" "length (?f 7) = 6 * (7 + 1)" by simp_all
  have "[0..<8] = [0..<7] @ [7 :: nat]" by (simp add: upt_conv_Cons)
  then have "expand_192 ks = ?f 7 @ expand_192_step 7 (drop (6 * 7) (?f 7))" by (simp add: expand_192_def)
  also have "expand_192_step 7 (drop (6 * 7) (?f 7)) =
      xor_run (setup_mix (drop (6 * 7) (?f 7) ! 5) XOR rcon ! 7) (take 4 (drop (6 * 7) (?f 7)))"
    using l(2) by (subst step_192) simp_all
  finally show ?thesis using expanded_first [OF l, of 4] by simp
qed

lemma expanded_256_step:
  assumes "fips_expanded 8 key ks" "length ks = 8 * (i + 1)" "i < 10"
  shows "fips_expanded 8 key (ks @ expand_256_step i (drop (8 * i) ks))"
    "length (expand_256_step i (drop (8 * i) ks)) = (if i + 1 = 7 then 4 else 8)"
proof -
  let ?rk = "drop (8 * i) ks"
  define ws where "ws = xor_run (setup_mix (?rk ! 7) XOR rcon ! i) (take 4 ?rk)"
  have l: "8 \<le> length ?rk" "length ws = 4" using assms(2) by (simp_all add: ws_def)
  then have "ws \<noteq> []" by force
  note l = l this
  have e: "fips_expanded 8 key (ks @ ws)" using expanded_first [OF assms, of 4] by (simp add: ws_def)
  let ?vs = "xor_run (setup_mix (word_rotl 8 (last ws))) (take 4 (drop 4 ?rk))"
  have "fips_expanded 8 key ((ks @ ws) @ ?vs)"
  proof (rule expanded_run [OF _ e])
    have "(8 * (i + 1) + 4) mod 8 = 4" by presburger
    then show "bytes_of (setup_mix (word_rotl 8 (last ws))) = fips_temp 8 (length (ks @ ws)) (bytes_of (last (ks @ ws)))"
      using l assms(2) by (simp add: bytes_setup_mix bytes_rotl fips_temp_def)
    fix t b assume "0 < t" "t < length (take 4 (drop 4 ?rk))"
    then have t: "0 < t" "t < 4" by simp_all
    have "length (ks @ ws) + t = 8 * (i + 1) + (4 + t)" using assms(2) l by simp
    then have "(length (ks @ ws) + t) mod 8 = 4 + t" using t by (simp only: mod_mult_self4) simp
    then show "fips_temp 8 (length (ks @ ws) + t) b = b" using t by (simp add: fips_temp_def)
  next
    show "take 4 (drop 4 ?rk) ! t = (ks @ ws) ! (length (ks @ ws) - 8 + t)" if "t < length (take 4 (drop 4 ?rk))" for t
      using that l assms(2) by (simp add: nth_append algebra_simps)
  qed (use l assms(2) in simp_all)
  moreover have step: "expand_256_step i ?rk = (if i + 1 = 7 then ws else ws @ ?vs)"
    using step_256 [OF l(1), of i] by (simp only: ws_def)
  ultimately show "fips_expanded 8 key (ks @ expand_256_step i ?rk)" using e by (simp only: step) simp
  show "length (expand_256_step i ?rk) = (if i + 1 = 7 then 4 else 8)" using l by (simp only: step) simp
qed

lemma expanded_256:
  assumes "fips_expanded 8 key ks" "length ks = 8"
  shows "fips_expanded 8 key (expand_256 ks)"
proof -
  let ?f = "\<lambda>n. foldl (\<lambda>ks i. ks @ expand_256_step i (drop (8 * i) ks)) ks [0..<n]"
  have "fips_expanded 8 key (ks @ expand_256_step i (drop (8 * i) ks)) \<and> length (expand_256_step i (drop (8 * i) ks)) = 8"
    if "i < 6" "fips_expanded 8 key ks" "length ks = 8 * (i + 1)" for i ks
    using expanded_256_step [OF that(2,3)] that(1) by simp
  from expand_loop [where f = expand_256_step, OF this assms, of 6 6]
  have l: "fips_expanded 8 key (?f 6)" "length (?f 6) = 8 * (6 + 1)" by simp_all
  have "[0..<7] = [0..<6] @ [6 :: nat]" by (simp add: upt_conv_Cons)
  then have "expand_256 ks = ?f 6 @ expand_256_step 6 (drop (8 * 6) (?f 6))" by (simp add: expand_256_def)
  then show ?thesis using expanded_256_step(1) [OF l] by simp
qed

lemma key_words_expanded:
  assumes "nbytes \<in> {16, 24, 32}" "nbytes \<le> length key"
  shows "fips_expanded (nbytes div 4) key (aes_key_words nbytes key)"
  using assms expanded_128 [OF expanded_start, of key] expanded_192 [OF expanded_start, of key]
    expanded_256 [OF expanded_start, of key]
  by (auto simp: aes_key_words_def)

section \<open>The cipher\<close>

lemma store_quad:
  assumes "fips_expanded Nk key ks" "4 * r + 4 \<le> length ks"
  shows "store_state (quad ks r) = fips_round_key Nk key r"
proof -
  have "[4 * r..<4 * r + 4] = [4 * r, 4 * r + 1, 4 * r + 2, 4 * r + 3]" by (simp add: upt_conv_Cons)
  then show ?thesis
    using assms by (simp add: fips_round_key_def quad_def fips_expanded_def)
qed

lemma store_rounds:
  assumes "fips_expanded Nk key ks" "4 * r + 4 \<le> length ks"
  shows "store_state (encrypt_steps (quad ks) r s) = fips_rounds Nk key r (store_state s)"
  using assms(2)
proof (induction r)
  case (Suc r)
  then show ?case
    using store_quad [OF assms(1) Suc.prems] by (simp add: store_add store_mix store_sub_shift del: store_state.simps)
qed simp

lemma encrypt_is_fips_cipher:
  assumes "ccaes_ltc_init key n 0 skey = (0, k)" "ccaes_key_length_to_nbytes n \<le> length key" "length b = 16"
  shows "ccaes_ltc_ecb_encrypt k b = fips_cipher (ccaes_key_length_to_nbytes n div 4) key b"
proof -
  let ?m = "ccaes_key_length_to_nbytes n"
  let ?r = "aes_half_round_count ?m" and ?ks = "aes_key_words ?m key" and ?N = "?m div 4 + 6"
  note s = aes_init_scheduled [OF assms(1)]
  have m: "?m \<in> {16, 24, 32}" using s by (auto simp: ccaes_key_length_to_nbytes_def)
  then have r: "2 * ?r = ?N" by (auto simp: aes_half_round_count_def)
  have e: "fips_expanded (?m div 4) key ?ks" by (rule key_words_expanded [OF m assms(2)])
  have l: "length ?ks = 4 * (?N + 1)" using s r by (simp add: aes_scheduled_def)
  have q: "store_state (quad ?ks i) = fips_round_key (?m div 4) key i" if "i \<le> ?N" for i
    using store_quad [OF e, of i] that l by simp
  show ?thesis
    using encrypt_block_eq [OF conjunct2 [OF s], of b] q [of 0] q [of ?N] store_rounds [OF e, of "?N - 1"] l assms(3)
    by (simp add: r store_add store_sub_shift fips_cipher_def Let_def del: store_state.simps)
qed

end
