(* ===== verification/Ccmode_Xts.thy ===== *)
theory Ccmode_Xts
  imports Ccmode_Cbc Ccaes
begin

unbundle bit_operations_syntax

text \<open>
  XTS, \<open>ccmode_xts_*.c\<close> and \<open>ccxts_one_shot.c\<close>.  A context holds the cipher and two keys, a tweak context the
  current tweak and the number of blocks processed since it was set.  The output buffer is an argument and is
  returned: a call that fails leaves it as it was.
\<close>

section \<open>The mode\<close>

definition CCERR_XTS_KEYS_EQUAL :: int where
  "CCERR_XTS_KEYS_EQUAL = -164"

record ('k, 'e) ccxts_ctx =
  xts_ecb :: "'k ccmode_ecb"
  xts_ecb_encrypt :: "'e ccmode_ecb"
  xts_data_key :: 'k
  xts_tweak_key :: 'e

record ccxts_tweak =
  tweak_blocks_processed :: cc_unit
  tweak_value :: bytes

record ('k, 'e) ccmode_xts =
  xts_block_size :: nat
  xts_init :: "('k, 'e) ccxts_ctx \<Rightarrow> nat \<Rightarrow> bytes \<Rightarrow> bytes \<Rightarrow> int \<times> ('k, 'e) ccxts_ctx"
  xts_key_sched :: "('k, 'e) ccxts_ctx \<Rightarrow> nat \<Rightarrow> bytes \<Rightarrow> bytes \<Rightarrow> ('k, 'e) ccxts_ctx"
  xts_set_tweak :: "('k, 'e) ccxts_ctx \<Rightarrow> ccxts_tweak \<Rightarrow> bytes \<Rightarrow> int \<times> ccxts_tweak"
  xts_xts :: "('k, 'e) ccxts_ctx \<Rightarrow> ccxts_tweak \<Rightarrow> nat \<Rightarrow> bytes \<Rightarrow> bytes \<Rightarrow> bool \<times> ccxts_tweak \<times> bytes"

text \<open>The carry of the shift runs through the bytes.\<close>

fun tweak_shift :: "byte \<Rightarrow> bytes \<Rightarrow> bytes \<times> byte" where
  "tweak_shift t [] = ([], t)"
| "tweak_shift t (b # bs) =
     (let tt = drop_bit 7 b;
          b = push_bit 1 b OR t;
          (bs, t) = tweak_shift tt bs
      in (b # bs, t))"

definition ccmode_xts_mult_alpha :: "bytes \<Rightarrow> bytes" where
  "ccmode_xts_mult_alpha tweak =
     (let (tweak, t) = tweak_shift 0 tweak
      in if t \<noteq> 0 then tweak[0 := tweak ! 0 XOR 0x87] else tweak)"

text \<open>The return codes of the two initialisations are dropped.\<close>

definition ccmode_xts_key_sched ::
  "'k ccmode_ecb \<Rightarrow> 'e ccmode_ecb \<Rightarrow> ('k, 'e) ccxts_ctx \<Rightarrow> nat \<Rightarrow> bytes \<Rightarrow> bytes \<Rightarrow> ('k, 'e) ccxts_ctx" where
  "ccmode_xts_key_sched ecb ecb_encrypt ctx key_nbytes data_key tweak_key =
     (let ctx = ctx\<lparr>xts_ecb := ecb, xts_ecb_encrypt := ecb_encrypt\<rparr>;
          (_, k) = ecb_init ecb (xts_data_key ctx) key_nbytes data_key;
          ctx = ctx\<lparr>xts_data_key := k\<rparr>;
          (_, k) = ecb_init ecb_encrypt (xts_tweak_key ctx) key_nbytes tweak_key
      in ctx\<lparr>xts_tweak_key := k\<rparr>)"

definition ccmode_xts_init ::
  "(('k, 'e) ccxts_ctx \<Rightarrow> nat \<Rightarrow> bytes \<Rightarrow> bytes \<Rightarrow> ('k, 'e) ccxts_ctx) \<Rightarrow>
   ('k, 'e) ccxts_ctx \<Rightarrow> nat \<Rightarrow> bytes \<Rightarrow> bytes \<Rightarrow> int \<times> ('k, 'e) ccxts_ctx" where
  "ccmode_xts_init key_sched ctx key_nbytes data_key tweak_key =
     (let rc = CCERR_XTS_KEYS_EQUAL;
          rc = (if cc_cmp_safe key_nbytes data_key tweak_key \<noteq> 0 then 0 else rc)
      in (rc, key_sched ctx key_nbytes data_key tweak_key))"

definition ccmode_xts_set_tweak :: "('k, 'e) ccxts_ctx \<Rightarrow> ccxts_tweak \<Rightarrow> bytes \<Rightarrow> int \<times> ccxts_tweak" where
  "ccmode_xts_set_tweak ctx tweak iv =
     (let tweak = tweak\<lparr>tweak_blocks_processed := 0\<rparr>;
          (rc, t) = ecb_ecb (xts_ecb_encrypt ctx) (xts_tweak_key ctx) 1 iv
      in (rc, tweak\<lparr>tweak_value := t\<rparr>))"

fun xts_crypt_loop :: "'k ccmode_ecb \<Rightarrow> 'k \<Rightarrow> bytes \<Rightarrow> nat \<Rightarrow> bytes \<Rightarrow> bytes \<times> bytes" where
  "xts_crypt_loop ecb key t 0 inp = (t, [])"
| "xts_crypt_loop ecb key t (Suc nblocks) inp =
     (let out = cc_xor 16 inp t;
          out = snd (ecb_ecb ecb key 1 out);
          out = cc_xor 16 out t;
          t = ccmode_xts_mult_alpha t;
          (t, rest) = xts_crypt_loop ecb key t nblocks (drop 16 inp)
      in (t, out @ rest))"

text \<open>The result is whether the pointer returned is not \<open>NULL\<close>.\<close>

definition ccmode_xts_crypt ::
  "('k, 'e) ccxts_ctx \<Rightarrow> ccxts_tweak \<Rightarrow> nat \<Rightarrow> bytes \<Rightarrow> bytes \<Rightarrow> bool \<times> ccxts_tweak \<times> bytes" where
  "ccmode_xts_crypt ctx tweak nblocks inp out =
     (let numBlocks = tweak_blocks_processed tweak;
          numBlocks = numBlocks + of_nat nblocks
      in if numBlocks > push_bit 20 1 then (False, tweak, out)
         else let tweak = tweak\<lparr>tweak_blocks_processed := numBlocks\<rparr>;
                  (t, blocks) = xts_crypt_loop (xts_ecb ctx) (xts_data_key ctx) (tweak_value tweak) nblocks inp
              in (True, tweak\<lparr>tweak_value := t\<rparr>, blocks @ drop (length blocks) out))"

definition CCMODE_FACTORY_XTS_ENCRYPT :: "'k ccmode_ecb \<Rightarrow> 'e ccmode_ecb \<Rightarrow> ('k, 'e) ccmode_xts" where
  "CCMODE_FACTORY_XTS_ENCRYPT ecb ecb_encrypt =
     \<lparr>xts_block_size = ecb_block_size ecb, xts_init = ccmode_xts_init (ccmode_xts_key_sched ecb ecb_encrypt),
      xts_key_sched = ccmode_xts_key_sched ecb ecb_encrypt, xts_set_tweak = ccmode_xts_set_tweak, xts_xts = ccmode_xts_crypt\<rparr>"

definition CCMODE_FACTORY_XTS_DECRYPT :: "'k ccmode_ecb \<Rightarrow> 'e ccmode_ecb \<Rightarrow> ('k, 'e) ccmode_xts" where
  "CCMODE_FACTORY_XTS_DECRYPT ecb ecb_encrypt =
     \<lparr>xts_block_size = ecb_block_size ecb, xts_init = ccmode_xts_init (ccmode_xts_key_sched ecb ecb_encrypt),
      xts_key_sched = ccmode_xts_key_sched ecb ecb_encrypt, xts_set_tweak = ccmode_xts_set_tweak, xts_xts = ccmode_xts_crypt\<rparr>"

definition ccxts_init ::
  "('k, 'e) ccmode_xts \<Rightarrow> ('k, 'e) ccxts_ctx \<Rightarrow> nat \<Rightarrow> bytes \<Rightarrow> bytes \<Rightarrow> int \<times> ('k, 'e) ccxts_ctx" where
  "ccxts_init mode ctx key_nbytes data_key tweak_key = xts_init mode ctx key_nbytes data_key tweak_key"

definition ccxts_set_tweak ::
  "('k, 'e) ccmode_xts \<Rightarrow> ('k, 'e) ccxts_ctx \<Rightarrow> ccxts_tweak \<Rightarrow> bytes \<Rightarrow> int \<times> ccxts_tweak" where
  "ccxts_set_tweak mode ctx tweak iv = xts_set_tweak mode ctx tweak iv"

definition ccxts_update ::
  "('k, 'e) ccmode_xts \<Rightarrow> ('k, 'e) ccxts_ctx \<Rightarrow> ccxts_tweak \<Rightarrow> nat \<Rightarrow> bytes \<Rightarrow> bytes \<Rightarrow> bool \<times> ccxts_tweak \<times> bytes" where
  "ccxts_update mode ctx tweak nblocks inp out = xts_xts mode ctx tweak nblocks inp out"

text \<open>The two contexts on the stack have any contents.\<close>

definition ccxts_one_shot ::
  "('k, 'e) ccmode_xts \<Rightarrow> ('k, 'e) ccxts_ctx \<Rightarrow> ccxts_tweak \<Rightarrow> nat \<Rightarrow> bytes \<Rightarrow> bytes \<Rightarrow> bytes \<Rightarrow> nat \<Rightarrow> bytes \<Rightarrow> bytes \<Rightarrow>
   int \<times> bytes" where
  "ccxts_one_shot mode ctx tweak key_nbytes data_key tweak_key iv nblocks inp out =
     (let (rc, ctx) = ccxts_init mode ctx key_nbytes data_key tweak_key
      in if rc \<noteq> 0 then (rc, out)
         else let (rc, tweak) = xts_set_tweak mode ctx tweak iv
              in if rc \<noteq> 0 then (rc, out)
                 else let (ok, tweak, out) = xts_xts mode ctx tweak nblocks inp out
                      in (if ok then 0 else CCERR_PARAMETER, out))"

section \<open>The tweak is multiplied by \<open>x\<close>\<close>

lemma double_mod: "(t :: nat) < 2 \<Longrightarrow> (2 * b + t) mod 256 = 2 * b mod 256 + t"
proof -
  assume "t < 2"
  then have "2 * (b mod 128) + t < 256" using mod_less_divisor [of 128 b] by linarith
  then have "(2 * (b mod 128) + t + 256 * (b div 128)) mod 256 = 2 * (b mod 128) + t" by (rule digit_mod)
  moreover have "2 * b + t = 2 * (b mod 128) + t + 256 * (b div 128)" using mod_mult_div_eq [of b 128] by linarith
  moreover have "2 * b mod 256 = 2 * (b mod 128)" using mult_mod_right [of 2 b 128] by simp
  ultimately show ?thesis by (simp only:)
qed

lemma tweak_shift_val:
  "tweak_shift t bs = (bs', t') \<Longrightarrow> t < 2 \<Longrightarrow>
   length bs' = length bs \<and> t' < 2 \<and> le_val 256 bs' + 256 ^ length bs * unat t' = 2 * le_val 256 bs + unat t"
proof (induction bs arbitrary: t bs')
  case (Cons b bs)
  obtain cs where r: "tweak_shift (drop_bit 7 b) bs = (cs, t')" "bs' = (push_bit 1 b OR t) # cs"
    using Cons.prems(1) by (auto simp: Let_def split: prod.splits)
  have b: "unat b < 256" using word_bound [of b] by simp
  have d: "unat (drop_bit 7 b) = unat b div 128" by (simp add: unat_drop_bit_div)
  then have "drop_bit 7 b < 2" using b by (simp add: word_less_nat_alt)
  note ih = Cons.IH [OF r(1) this]
  have t: "unat t < 2" using Cons.prems(2) by (simp add: word_less_nat_alt)
  then have "t = 0 \<or> t = 1" by (auto simp: word_unat_eq_iff)
  then have "push_bit 1 b AND t = 0" by (auto intro!: bit_word_eqI simp: bit_simps bit_0)
  then have "push_bit 1 b OR t = push_bit 1 b + t" by (simp add: disjunctive_add_eq_or)
  then have "unat (push_bit 1 b OR t) = (2 * unat b) mod 256 + unat t"
    using t double_mod [of "unat t" "unat b"] by (simp add: unat_word_ariths push_bit_eq_mult mod_simps mult.commute)
  moreover have "2 * unat b = (2 * unat b) mod 256 + 256 * (unat b div 128)"
    using mod_mult_div_eq [of "2 * unat b" 256] div_mult_mult1 [of 2 "unat b" 128] by simp
  ultimately show ?case using ih r(2) d by (simp add: algebra_simps)
qed simp


lemma le_val_xor: "le_val 256 (x # xs) XOR 0x87 = le_val 256 ((x XOR 0x87 :: byte) # xs)"
proof -
  define k :: nat where "k = 0x87"
  have k: "k = take_bit 8 k" by (simp add: k_def)
  have u: "unat (x XOR 0x87) = unat x XOR k" by (simp add: unsigned_xor_eq k_def)
  have s: "unat y + 256 * le_val 256 xs = push_bit 8 (le_val 256 xs) OR unat y" for y :: byte
    using nat_push_or [of "unat y" 8 "le_val 256 xs"] word_bound [of y] by (simp add: mult.commute)
  have "(push_bit 8 (le_val 256 xs) OR unat x) XOR k = push_bit 8 (le_val 256 xs) OR (unat x XOR k)"
    by (subst (1 2) k) (auto intro!: bit_eqI simp: bit_simps)
  then show ?thesis by (simp only: le_val.simps s) (simp add: u flip: k_def)
qed

text \<open>The tweak is the number of its bytes, the lowest first, in \<open>GF(2^128)\<close>.\<close>

lemma xts_mult_alpha_val:
  assumes "length t = 16"
  shows "length (ccmode_xts_mult_alpha t) = 16"
    "le_val 256 (ccmode_xts_mult_alpha t) =
      (if le_val 256 t < 2 ^ 127 then 2 * le_val 256 t else (2 * le_val 256 t - 2 ^ 128) XOR 0x87)"
proof -
  obtain u c where u: "tweak_shift 0 t = (u, c)" by force
  have "(0 :: byte) < 2" by (simp add: word_less_nat_alt)
  note v = tweak_shift_val [OF u this, unfolded assms]
  show "length (ccmode_xts_mult_alpha t) = 16" using v by (simp add: ccmode_xts_mult_alpha_def u)
  have bu: "le_val 256 u < 2 ^ 128" "le_val 256 t < 2 ^ 128" using le_val_bound [of 256 u] le_val_bound [of 256 t] v assms by simp_all
  show "le_val 256 (ccmode_xts_mult_alpha t) =
      (if le_val 256 t < 2 ^ 127 then 2 * le_val 256 t else (2 * le_val 256 t - 2 ^ 128) XOR 0x87)"
  proof (cases "c = 0")
    case True
    then show ?thesis using v bu by (simp add: ccmode_xts_mult_alpha_def u)
  next
    case False
    then have c: "unat c = 1" using v by (auto simp: word_less_nat_alt word_unat_eq_iff)
    obtain x xs where x: "u = x # xs" using v by (cases u) auto
    have "le_val 256 (x # xs) XOR 0x87 = le_val 256 ((x XOR 0x87) # xs)" by (rule le_val_xor)
    moreover have "le_val 256 (x # xs) + 2 ^ 128 = 2 * le_val 256 t" using v c x by (simp del: le_val.simps)
    then have "2 * le_val 256 t - 2 ^ 128 = le_val 256 (x # xs)" "\<not> le_val 256 t < 2 ^ 127"
      by (linarith, simp del: le_val.simps)
    ultimately show ?thesis using False x by (simp add: ccmode_xts_mult_alpha_def u del: le_val.simps)
  qed
qed

section \<open>Decryption undoes encryption\<close>

lemma cc_xor_twice: "length a = n \<Longrightarrow> cc_xor n (cc_xor n a t) t = a"
  by (rule nth_equalityI) (simp_all add: nth_cc_xor xor.assoc)

context block_cipher
begin

lemma length_xts_loop:
  assumes "ecb_block_size ecb = 16"
  shows "length t = 16 \<Longrightarrow> length (fst (xts_crypt_loop ecb key t n p)) = 16 \<and> length (snd (xts_crypt_loop ecb key t n p)) = 16 * n"
  using assms by (induction n arbitrary: t p) (simp_all add: Let_def case_prod_beta xts_mult_alpha_val(1))

lemma xts_loop_add:
  assumes "ecb_block_size ecb = 16"
  shows "xts_crypt_loop ecb key t (m + n) p =
    (let (t, c) = xts_crypt_loop ecb key t m p; (t, d) = xts_crypt_loop ecb key t n (drop (16 * m) p) in (t, c @ d))"
  by (induction m arbitrary: t p) (simp_all add: Let_def case_prod_beta add.commute)

lemma xts_loop_append:
  "16 * n \<le> length p \<Longrightarrow> xts_crypt_loop ecb key t n (p @ q) = xts_crypt_loop ecb key t n p"
  by (induction n arbitrary: t p) (simp_all add: Let_def)

end

text \<open>The tweak does not depend on the data nor on the key.\<close>

lemma xts_loop_tweak: "fst (xts_crypt_loop ecb key t n p) = (ccmode_xts_mult_alpha ^^ n) t"
  by (induction n arbitrary: t p) (simp_all add: Let_def case_prod_beta funpow_swap1)

context block_cipher_pair
begin

lemma xts_loop_inverse:
  assumes "ecb_init enc k m raw = (0, ke)" "ecb_init dec d m raw = (0, kd)" "ecb_block_size enc = 16"
  shows "length t = 16 \<Longrightarrow> 16 * n \<le> length p \<Longrightarrow>
    xts_crypt_loop enc ke t n p = (t', c) \<Longrightarrow> xts_crypt_loop dec kd t n (c @ xs) = (t', take (16 * n) p)"
proof (induction n arbitrary: t p c)
  case (Suc n)
  let ?c = "cc_xor 16 (ecb_block enc ke (cc_xor 16 p t)) t"
  obtain r where r: "xts_crypt_loop enc ke (ccmode_xts_mult_alpha t) n (drop 16 p) = (t', r)" "c = ?c @ r"
    using Suc.prems(3) by (auto simp: Let_def split: prod.splits)
  have ih: "xts_crypt_loop dec kd (ccmode_xts_mult_alpha t) n (r @ xs) = (t', take (16 * n) (drop 16 p))"
    using Suc.prems(1,2) by (intro Suc.IH [OF _ _ r(1)]) (simp_all add: xts_mult_alpha_val(1))
  have "cc_xor 16 (?c @ r @ xs) t = ecb_block enc ke (cc_xor 16 p t)"
    using assms(3) by (simp add: cc_xor_twice)
  moreover have "ecb_block dec kd (ecb_block enc ke (cc_xor 16 p t)) = cc_xor 16 p t"
    using assms(3) by (intro block_inverse [OF assms(1,2)]) simp
  moreover have "cc_xor 16 (cc_xor 16 p t) t = take 16 p"
    using Suc.prems(2) cc_xor_twice [of "take 16 p" 16 t] by simp
  ultimately show ?case using Suc.prems(2) ih by (simp add: r(2) Let_def take_add)
qed simp

text \<open>The keys made from one raw key in different contexts give the same cipher.\<close>

lemma encrypt_same_key:
  assumes "ecb_init enc k m raw = (0, ke)" "ecb_init enc k' m raw = (0, ke')" "ecb_block_size enc \<le> length x"
  shows "ecb_block enc ke x = ecb_block enc ke' x"
proof -
  let ?y = "take (ecb_block_size enc) x"
  have l: "length ?y = ecb_block_size enc" using assms(3) by simp
  obtain d kd where d: "ecb_init dec d m raw = (0, kd)" using init_both [OF assms(1)] by (metis prod.collapse)
  have "ecb_block enc ke' (ecb_block dec kd (ecb_block enc ke ?y)) = ecb_block enc ke ?y"
    by (rule block_inverse' [OF assms(2) d enc.length_block])
  then show ?thesis unfolding block_inverse [OF assms(1) d l] by simp
qed

lemma xts_one_shot_inverse:
  assumes "ecb_block_size enc = 16" "fst (ecb_init enc (xts_data_key c1) n dk) = 0"
    "fst (ecb_init enc (xts_tweak_key c1) n tk) = 0" "fst (ecb_init enc (xts_tweak_key c2) n tk) = 0"
    "cc_cmp_safe n dk tk \<noteq> 0" "16 \<le> length iv" "nblocks \<le> 2 ^ 20" "16 * nblocks \<le> length inp"
    "ccxts_one_shot (CCMODE_FACTORY_XTS_ENCRYPT enc enc) c1 t1 n dk tk iv nblocks inp out1 = (rc, ct)"
  shows "rc = 0 \<and> take (16 * nblocks) ct = snd (xts_crypt_loop enc (snd (ecb_init enc (xts_data_key c1) n dk))
      (ecb_block enc (snd (ecb_init enc (xts_tweak_key c1) n tk)) iv) nblocks inp) \<and>
    ccxts_one_shot (CCMODE_FACTORY_XTS_DECRYPT dec enc) c2 t2 n dk tk iv nblocks ct out2 =
      (0, take (16 * nblocks) inp @ drop (16 * nblocks) out2)"
proof -
  obtain ke where ke: "ecb_init enc (xts_data_key c1) n dk = (0, ke)" using assms(2) by (metis prod.collapse)
  obtain kt where kt: "ecb_init enc (xts_tweak_key c1) n tk = (0, kt)" using assms(3) by (metis prod.collapse)
  obtain kt' where kt': "ecb_init enc (xts_tweak_key c2) n tk = (0, kt')" using assms(4) by (metis prod.collapse)
  obtain kd where kd: "ecb_init dec (xts_data_key c2) n dk = (0, kd)" using init_both [OF ke] by (metis prod.collapse)
  let ?t = "ecb_block enc kt iv"
  have t: "ecb_block enc kt' iv = ?t" using encrypt_same_key [OF kt kt'] assms(1,6) by simp
  have iv: "ecb_ecb enc k 1 iv = (0, ecb_block enc k iv)" for k
    using enc.ecb_law [of 1 iv k] assms(1,6) by simp
  obtain t' c where c: "xts_crypt_loop enc ke ?t nblocks inp = (t', c)" by force
  have lt: "length ?t = 16" using assms(1) by simp
  have lc: "length c = 16 * nblocks" using enc.length_xts_loop [OF assms(1) lt, of ke nblocks inp] c by simp
  have nb: "\<not> (of_nat nblocks > (push_bit 20 1 :: cc_unit))"
    using assms(7) by (simp add: word_less_nat_alt unat_of_nat)
  have e: "rc = 0" "ct = c @ drop (16 * nblocks) out1"
    using assms(5,9) ke kt iv c nb lc
    by (simp_all add: ccxts_one_shot_def ccxts_init_def CCMODE_FACTORY_XTS_ENCRYPT_def ccmode_xts_init_def ccmode_xts_key_sched_def
        ccmode_xts_set_tweak_def ccmode_xts_crypt_def Let_def)
  have d: "xts_crypt_loop dec kd ?t nblocks ct = (t', take (16 * nblocks) inp)"
    unfolding e by (rule xts_loop_inverse [OF ke kd assms(1) lt assms(8) c])
  then have "ccxts_one_shot (CCMODE_FACTORY_XTS_DECRYPT dec enc) c2 t2 n dk tk iv nblocks ct out2 =
      (0, take (16 * nblocks) inp @ drop (16 * nblocks) out2)"
    using assms(5,8) kd kt' iv nb t
    by (simp add: ccxts_one_shot_def ccxts_init_def CCMODE_FACTORY_XTS_DECRYPT_def ccmode_xts_init_def ccmode_xts_key_sched_def
        ccmode_xts_set_tweak_def ccmode_xts_crypt_def Let_def)
  then show ?thesis using e lc c ke kt by simp
qed

end

text \<open>More blocks than the standard allows under one tweak are refused, and nothing is written.\<close>

lemma xts_crypt_limit:
  assumes "2 ^ 20 < unat (tweak_blocks_processed tweak + of_nat nblocks)"
  shows "ccmode_xts_crypt ctx tweak nblocks inp out = (False, tweak, out)"
  using assms by (simp add: ccmode_xts_crypt_def word_less_nat_alt)

text \<open>A key of a length the cipher refuses is accepted by the mode: the keys are left as the context had them.\<close>

lemma xts_init_ignores_key_length:
  assumes "ecb_init ecb (xts_data_key ctx) n dk = (rc1, xts_data_key ctx)" "ecb_init ecb' (xts_tweak_key ctx) n tk = (rc2, xts_tweak_key ctx)"
    "cc_cmp_safe n dk tk \<noteq> 0"
  shows "ccxts_init (CCMODE_FACTORY_XTS_ENCRYPT ecb ecb') ctx n dk tk = (0, ctx\<lparr>xts_ecb := ecb, xts_ecb_encrypt := ecb'\<rparr>)"
  using assms by (simp add: ccxts_init_def CCMODE_FACTORY_XTS_ENCRYPT_def ccmode_xts_init_def ccmode_xts_key_sched_def Let_def)

end
