(* ===== verification/Ccpad_Xts.thy ===== *)
theory Ccpad_Xts
  imports Ccmode_Xts Ccpad
begin

unbundle bit_operations_syntax

text \<open>
  Ciphertext stealing over XTS, \<open>ccpad_xts_encrypt.c\<close> and \<open>ccpad_xts_decrypt.c\<close>.  The contract of \<open>ccpad.h\<close> is
  more than one block.  The buffers \<open>ctemp\<close> and \<open>ptemp\<close> on the stack are arguments, as they are not initialised: a
  call of the mode that fails leaves them as they were.  The decryption uses the pointer of the first call without
  a test; when that is \<open>NULL\<close> the result is \<open>None\<close>.
\<close>

definition ccpad_xts_encrypt ::
  "('k, 'e) ccmode_xts \<Rightarrow> ('k, 'e) ccxts_ctx \<Rightarrow> ccxts_tweak \<Rightarrow> bytes \<Rightarrow> nat \<Rightarrow> bytes \<Rightarrow> bytes \<Rightarrow> ccxts_tweak \<times> bytes" where
  "ccpad_xts_encrypt xts key tweak ctemp nbytes plain cipher =
     (let tail = nbytes AND 15;
          head = nbytes - tail
      in if tail \<noteq> 0
         then let (_, tweak, cipher) = xts_xts xts key tweak (size_minus (drop_bit 4 head) 1) plain cipher;
                  plain = drop (size_minus head 16) plain;
                  (_, tweak, ctemp) = xts_xts xts key tweak 1 plain ctemp;
                  plain = drop 16 plain;
                  ptemp = map (\<lambda>x. plain ! x) [0..<tail];
                  cipher = take head cipher @ map (\<lambda>x. ctemp ! x) [0..<tail] @ drop (head + tail) cipher;
                  ptemp = ptemp @ map (\<lambda>x. ctemp ! x) [tail..<16];
                  (_, tweak, last) = xts_xts xts key tweak 1 ptemp (drop (size_minus head 16) cipher)
              in (tweak, take (size_minus head 16) cipher @ last)
         else let (_, tweak, cipher) = xts_xts xts key tweak (drop_bit 4 head) plain cipher in (tweak, cipher))"

definition ccpad_xts_decrypt ::
  "('k, 'e) ccmode_xts \<Rightarrow> ('k, 'e) ccxts_ctx \<Rightarrow> ccxts_tweak \<Rightarrow> bytes \<Rightarrow> nat \<Rightarrow> bytes \<Rightarrow> bytes \<Rightarrow>
   (nat \<times> ccxts_tweak \<times> bytes) option" where
  "ccpad_xts_decrypt xts key tweak ptemp nbytes cipher plain =
     (let tail = nbytes AND 15;
          head = nbytes - tail
      in if tail \<noteq> 0
         then let (T, tweak, plain) = xts_xts xts key tweak (size_minus (drop_bit 4 head) 1) cipher plain
              in if \<not> T then None
                 else let ctemp = take 16 (tweak_value tweak);
                          tweak = tweak\<lparr>tweak_value := ccmode_xts_mult_alpha (tweak_value tweak)\<rparr>;
                          cipher = drop (size_minus head 16) cipher;
                          (_, tweak, ptemp) = xts_xts xts key tweak 1 cipher ptemp;
                          tweak = tweak\<lparr>tweak_value := ctemp @ drop 16 (tweak_value tweak)\<rparr>;
                          plain = take head plain @ map (\<lambda>x. ptemp ! x) [0..<tail] @ drop (head + tail) plain;
                          ctemp = map (\<lambda>x. cipher ! (16 + x)) [0..<tail] @ map (\<lambda>x. ptemp ! x) [tail..<16];
                          (_, tweak, last) = xts_xts xts key tweak 1 ctemp (drop (size_minus head 16) plain)
                      in Some (nbytes, tweak, take (size_minus head 16) plain @ last)
         else let (_, tweak, plain) = xts_xts xts key tweak (drop_bit 4 head) cipher plain
              in Some (nbytes, tweak, plain))"

section \<open>One block at a time\<close>

lemma xts_factory [simp]:
  "xts_xts (CCMODE_FACTORY_XTS_ENCRYPT e t) = ccmode_xts_crypt" "xts_xts (CCMODE_FACTORY_XTS_DECRYPT e t) = ccmode_xts_crypt"
  by (simp_all add: CCMODE_FACTORY_XTS_ENCRYPT_def CCMODE_FACTORY_XTS_DECRYPT_def)

text \<open>A call within the limit.\<close>

lemma xts_crypt_ok:
  assumes "unat (tweak_blocks_processed tweak) + n \<le> 2 ^ 20"
    "xts_crypt_loop (xts_ecb ctx) (xts_data_key ctx) (tweak_value tweak) n inp = (t, c)"
  shows "ccmode_xts_crypt ctx tweak n inp out =
    (True, \<lparr>tweak_blocks_processed = tweak_blocks_processed tweak + of_nat n, tweak_value = t\<rparr>, c @ drop (length c) out)"
    "unat (tweak_blocks_processed tweak + of_nat n) = unat (tweak_blocks_processed tweak) + n"
proof -
  show u: "unat (tweak_blocks_processed tweak + of_nat n) = unat (tweak_blocks_processed tweak) + n"
    using assms(1) by (simp add: unat_word_ariths unat_of_nat)
  then show "ccmode_xts_crypt ctx tweak n inp out =
    (True, \<lparr>tweak_blocks_processed = tweak_blocks_processed tweak + of_nat n, tweak_value = t\<rparr>, c @ drop (length c) out)"
    using assms by (cases tweak) (simp add: ccmode_xts_crypt_def word_less_nat_alt Let_def)
qed

lemma nat_and_15: "n AND 15 = n mod 16" for n :: nat
  using and_block_size [of 16 4 n] by simp

lemma map_nth_suffix: "n \<le> length xs \<Longrightarrow> m = length xs \<Longrightarrow> map ((!) xs) [n..<m] = drop n xs"
  by (rule nth_equalityI) simp_all

definition xts_block :: "'k ccmode_ecb \<Rightarrow> 'k \<Rightarrow> bytes \<Rightarrow> bytes \<Rightarrow> bytes" where
  "xts_block ecb key t b = cc_xor 16 (ecb_block ecb key (cc_xor 16 b t)) t"

lemma length_xts_block [simp]: "length (xts_block ecb key t b) = 16"
  by (simp add: xts_block_def)

lemma xts_loop_one: "xts_crypt_loop ecb key t 1 b = (ccmode_xts_mult_alpha t, xts_block ecb key t b)"
  by (simp add: xts_block_def Let_def)

lemma xts_block_append: "length b = 16 \<Longrightarrow> xts_block ecb key t (b @ x) = xts_block ecb key t b"
  by (simp add: xts_block_def)

text \<open>Sizes of a text of \<open>m\<close> blocks, one block and \<open>r\<close> bytes.\<close>

lemma xts_sizes:
  fixes m r :: nat
  assumes "0 < r" "r < 16"
  shows "(16 * m + 16 + r) AND 15 = r" "16 * m + 16 + r - r = 16 * m + 16" "size_minus (drop_bit 4 (16 * m + 16)) 1 = m"
    "size_minus (16 * m + 16) 16 = 16 * m"
proof -
  have "16 * m + 16 + r = r + (m + 1) * 16" by simp
  then have "(16 * m + 16 + r) mod 16 = r" using assms by (simp only: mod_mult_self1) simp
  then show "(16 * m + 16 + r) AND 15 = r" by (simp only: nat_and_15)
  show "16 * m + 16 + r - r = 16 * m + 16" "size_minus (drop_bit 4 (16 * m + 16)) 1 = m" "size_minus (16 * m + 16) 16 = 16 * m"
    by (simp_all add: drop_bit_eq_div)
qed

lemma pad_xts_encrypt_eq:
  assumes "length h = 16 * m" "length b = 16" "length q = r" "0 < r" "r < 16" "length out = 16 * m + 16 + r"
    "unat (tweak_blocks_processed tweak) + m + 2 \<le> 2 ^ 20" "length ctemp = 16"
    "xts_crypt_loop (xts_ecb ctx) (xts_data_key ctx) (tweak_value tweak) m (h @ b @ q) = (t, c)" "length c = 16 * m"
  defines "cc \<equiv> xts_block (xts_ecb ctx) (xts_data_key ctx) t b"
  shows "snd (ccpad_xts_encrypt (CCMODE_FACTORY_XTS_ENCRYPT e e') ctx tweak ctemp (16 * m + 16 + r) (h @ b @ q) out) =
    c @ xts_block (xts_ecb ctx) (xts_data_key ctx) (ccmode_xts_mult_alpha t) (q @ drop r cc) @ take r cc"
proof -
  let ?E = "xts_block (xts_ecb ctx) (xts_data_key ctx)"
  let ?n = "tweak_blocks_processed tweak"
  let ?t1 = "\<lparr>tweak_blocks_processed = ?n + of_nat m, tweak_value = t\<rparr>"
  let ?t2 = "\<lparr>tweak_blocks_processed = ?n + of_nat m + 1, tweak_value = ccmode_xts_mult_alpha t\<rparr>"
  have u: "unat (?n + of_nat m) = unat ?n + m" "unat (?n + of_nat m + of_nat 1) = unat ?n + m + 1"
    using assms(7) xts_crypt_ok(2) [OF _ assms(9)] xts_crypt_ok(2) [of ?t1 1 ctx, OF _ xts_loop_one] by simp_all
  have 1: "ccmode_xts_crypt ctx tweak m (h @ b @ q) out = (True, ?t1, c @ drop (16 * m) out)"
    using xts_crypt_ok(1) [OF _ assms(9), of out] assms(7,10) by simp
  have 2: "ccmode_xts_crypt ctx ?t1 1 (b @ q) ctemp = (True, ?t2, cc)"
    using xts_crypt_ok(1) [of ?t1 1 ctx, OF _ xts_loop_one, of "b @ q" ctemp] assms(2,7,8) u by (simp add: cc_def xts_block_append)
  have 3: "ccmode_xts_crypt ctx ?t2 1 x y =
      (True, \<lparr>tweak_blocks_processed = ?n + of_nat m + 1 + 1, tweak_value = ccmode_xts_mult_alpha (ccmode_xts_mult_alpha t)\<rparr>,
       ?E (ccmode_xts_mult_alpha t) x @ drop 16 y)" for x y
    using xts_crypt_ok(1) [of ?t2 1 ctx, OF _ xts_loop_one, of x y] assms(7) u by simp
  have l: "length cc = 16" by (simp add: cc_def)
  have d: "drop (16 * m) (h @ b @ q) = b @ q" "drop 16 (b @ q) = q" using assms(1,2) by simp_all
  have r: "map ((!) q) [0..<r] = q" "map ((!) cc) [0..<r] = take r cc" "map ((!) cc) [r..<16] = drop r cc"
    using assms(3-5) l map_nth [of q] by (simp_all add: map_nth_prefix map_nth_suffix)
  show ?thesis
    unfolding ccpad_xts_encrypt_def Let_def xts_sizes [OF assms(4,5)] xts_factory 1 prod.case d 2 r 3
    using assms(1-6,10) l by simp
qed

lemma pad_xts_decrypt_eq:
  assumes "length h = 16 * m" "length b = 16" "length q = r" "0 < r" "r < 16" "length out = 16 * m + 16 + r"
    "unat (tweak_blocks_processed tweak) + m + 2 \<le> 2 ^ 20" "length ptemp = 16"
    "xts_crypt_loop (xts_ecb ctx) (xts_data_key ctx) (tweak_value tweak) m (h @ b @ q) = (t, c)" "length c = 16 * m" "length t = 16"
  defines "pp \<equiv> xts_block (xts_ecb ctx) (xts_data_key ctx) (ccmode_xts_mult_alpha t) b"
  shows "\<exists>tweak'. ccpad_xts_decrypt (CCMODE_FACTORY_XTS_DECRYPT e e') ctx tweak ptemp (16 * m + 16 + r) (h @ b @ q) out =
    Some (16 * m + 16 + r, tweak', c @ xts_block (xts_ecb ctx) (xts_data_key ctx) t (q @ drop r pp) @ take r pp)"
proof -
  let ?E = "xts_block (xts_ecb ctx) (xts_data_key ctx)"
  let ?n = "tweak_blocks_processed tweak"
  let ?a = "ccmode_xts_mult_alpha"
  let ?t1 = "\<lparr>tweak_blocks_processed = ?n + of_nat m, tweak_value = t\<rparr>"
  let ?t2 = "\<lparr>tweak_blocks_processed = ?n + of_nat m, tweak_value = ?a t\<rparr>"
  let ?t3 = "\<lparr>tweak_blocks_processed = ?n + of_nat m + 1, tweak_value = ?a (?a t)\<rparr>"
  let ?t4 = "\<lparr>tweak_blocks_processed = ?n + of_nat m + 1, tweak_value = t\<rparr>"
  have u: "unat (?n + of_nat m) = unat ?n + m" "unat (?n + of_nat m + of_nat 1) = unat ?n + m + 1"
    using assms(7) xts_crypt_ok(2) [OF _ assms(9)] xts_crypt_ok(2) [of ?t1 1 ctx, OF _ xts_loop_one] by simp_all
  have 1: "ccmode_xts_crypt ctx tweak m (h @ b @ q) out = (True, ?t1, c @ drop (16 * m) out)"
    using xts_crypt_ok(1) [OF _ assms(9), of out] assms(7,10) by simp
  have 2: "ccmode_xts_crypt ctx ?t2 1 (b @ q) ptemp = (True, ?t3, pp)"
    using xts_crypt_ok(1) [of ?t2 1 ctx, OF _ xts_loop_one, of "b @ q" ptemp] assms(2,7,8) u by (simp add: pp_def xts_block_append)
  have 3: "ccmode_xts_crypt ctx ?t4 1 x y =
      (True, \<lparr>tweak_blocks_processed = ?n + of_nat m + 1 + 1, tweak_value = ?a t\<rparr>, ?E t x @ drop 16 y)" for x y
    using xts_crypt_ok(1) [of ?t4 1 ctx, OF _ xts_loop_one, of x y] assms(7) u by simp
  have la: "length (?a (?a t)) = 16" using assms(11) by (simp add: xts_mult_alpha_val(1))
  have s: "?t1\<lparr>tweak_value := ?a (tweak_value ?t1)\<rparr> = ?t2" "take 16 (tweak_value ?t1) = t"
    "?t3\<lparr>tweak_value := t @ drop 16 (tweak_value ?t3)\<rparr> = ?t4"
    using assms(11) la by simp_all
  have l: "length pp = 16" by (simp add: pp_def)
  have d: "drop (16 * m) (h @ b @ q) = b @ q" using assms(1) by simp
  have r: "map (\<lambda>x. (b @ q) ! (16 + x)) [0..<r] = q" "map ((!) pp) [0..<r] = take r pp" "map ((!) pp) [r..<16] = drop r pp"
    using assms(2-5) l map_nth [of q] by (simp_all add: map_nth_prefix map_nth_suffix nth_append)
  show ?thesis
    unfolding ccpad_xts_decrypt_def Let_def xts_sizes [OF assms(4,5)] xts_factory 1 prod.case d s 2 r 3
    using assms(1-6,10) l by simp
qed

context block_cipher_pair
begin

text \<open>The ciphertext is as long as the text and decrypts to it, within the limit of blocks.\<close>

lemma pad_xts_inverse:
  assumes "ecb_init enc k m raw = (0, ke)" "ecb_init dec d m raw = (0, kd)" "ecb_block_size enc = 16"
    "xts_ecb ectx = enc" "xts_data_key ectx = ke" "xts_ecb dctx = dec" "xts_data_key dctx = kd"
    "tweak_value tweak = t0" "tweak_value tweak' = t0" "length t0 = 16"
    "unat (tweak_blocks_processed tweak) + (length p + 15) div 16 \<le> 2 ^ 20"
    "unat (tweak_blocks_processed tweak') + (length p + 15) div 16 \<le> 2 ^ 20"
    "16 \<le> length p" "length out = length p" "length out' = length p" "length ctemp = 16" "length ptemp = 16"
    "ccpad_xts_encrypt (CCMODE_FACTORY_XTS_ENCRYPT e e') ectx tweak ctemp (length p) p out = (tw, ct)"
  shows "length ct = length p \<and>
    (\<exists>tw'. ccpad_xts_decrypt (CCMODE_FACTORY_XTS_DECRYPT f f') dctx tweak' ptemp (length p) ct out' = Some (length p, tw', p))"
proof (cases "length p mod 16 = 0")
  case True
  have n: "16 * (length p div 16) = length p" using True by (simp add: minus_mod_eq_mult_div [symmetric])
  have w: "(length p + 15) div 16 = length p div 16" by (subst (1) n [symmetric]) simp
  obtain t c where c: "xts_crypt_loop enc ke t0 (length p div 16) p = (t, c)" by force
  have lc: "length c = length p" using enc.length_xts_loop [OF assms(3,10), of ke "length p div 16" p] c n by simp
  have d: "xts_crypt_loop dec kd t0 (length p div 16) c = (t, p)"
    using xts_loop_inverse [OF assms(1-3,10) _ c, of "[]"] n by simp
  have e: "ct = c"
    using xts_crypt_ok(1) [of tweak "length p div 16" ectx p t c out] assms(4,5,8,11,14,18) c lc True w
    by (simp add: ccpad_xts_encrypt_def nat_and_15 drop_bit_eq_div)
  show ?thesis
    using xts_crypt_ok(1) [of tweak' "length p div 16" dctx c t p out'] assms(6,7,9,12,15) d lc True w
    by (simp add: ccpad_xts_decrypt_def nat_and_15 drop_bit_eq_div e)
next
  case False
  define m where "m = length p div 16 - 1"
  define r where "r = length p mod 16"
  define h b q where "h = take (16 * m) p" and "b = take 16 (drop (16 * m) p)" and "q = drop (16 * m + 16) p"
  have r: "0 < r" "r < 16" using False by (simp_all add: r_def)
  have lp: "length p = 16 * m + 16 + r"
  proof -
    have "1 \<le> length p div 16" using assms(13) by (simp add: Suc_le_eq div_greater_zero_iff)
    then have "16 * (length p div 16) = 16 * m + 16" by (simp add: m_def algebra_simps)
    then show ?thesis using mod_mult_div_eq [of "length p" 16] by (simp add: r_def)
  qed
  have dm: "(length p + 15) div 16 = m + 2"
  proof -
    have "length p + 15 = (r - 1) + (m + 2) * 16" using lp r by simp
    then show ?thesis using r by (simp only: div_mult_self1)
  qed
  have p: "p = h @ b @ q" using append_take_drop_id [of 16 "drop (16 * m) p"] by (simp add: h_def b_def q_def add.commute)
  have l: "length h = 16 * m" "length b = 16" "length q = r" using lp by (simp_all add: h_def b_def q_def)
  obtain t c where c: "xts_crypt_loop enc ke t0 m (h @ b @ q) = (t, c)" by force
  have lc: "length c = 16 * m" "length t = 16" using enc.length_xts_loop [OF assms(3,10), of ke m "h @ b @ q"] c by simp_all
  have dl: "xts_crypt_loop dec kd t0 m (c @ x) = (t, h)" for x
    using xts_loop_inverse [OF assms(1-3,10) _ c, of x] l by simp
  let ?E = "xts_block enc ke" and ?D = "xts_block dec kd"
  have inv: "?D t' (?E t' x) = x" if "length x = 16" for t' x
    using that assms(3) block_inverse [OF assms(1,2), of "cc_xor 16 x t'"] by (simp add: xts_block_def cc_xor_twice)
  define cc where "cc = ?E t b"
  define cm where "cm = ?E (ccmode_xts_mult_alpha t) (q @ drop r cc)"
  have lcc: "length cc = 16" "length cm = 16" "length (q @ drop r cc) = 16" using r l by (simp_all add: cc_def cm_def)
  have ct: "ct = c @ cm @ take r cc"
    using pad_xts_encrypt_eq [OF l r, of out tweak ctemp ectx t c e e'] assms(4,5,8,11,14,16,18) c lc lp dm
    by (simp add: p [symmetric] cc_def cm_def)
  have "\<exists>tw'. ccpad_xts_decrypt (CCMODE_FACTORY_XTS_DECRYPT f f') dctx tweak' ptemp (16 * m + 16 + r) (c @ cm @ take r cc) out' =
      Some (16 * m + 16 + r, tw', h @ ?D t (take r cc @ drop r (?D (ccmode_xts_mult_alpha t) cm)) @ take r (?D (ccmode_xts_mult_alpha t) cm))"
    using pad_xts_decrypt_eq [of c m cm "take r cc" r out' tweak' ptemp dctx t h f f'] assms(6,7,9,12,15,17) lc lcc r lp dm dl l by simp
  moreover have "?D (ccmode_xts_mult_alpha t) cm = q @ drop r cc" unfolding cm_def by (rule inv [OF lcc(3)])
  moreover have "?D t cc = b" unfolding cc_def using l(2) by (rule inv)
  ultimately show ?thesis using l lc lcc r by (simp add: ct lp p [symmetric])
qed

end

section \<open>Beyond the limit\<close>

text \<open>
  Neither function looks at what the mode returns.  A text whose first blocks just reach the limit is encrypted
  up to there; the last whole block is what the buffer held before, and the bytes after it come from the
  stack.
\<close>

lemma pad_xts_encrypt_leaks_stack:
  assumes "length h = 16 * m" "length b = 16" "length q = r" "0 < r" "r < 16" "length out = 16 * m + 16 + r"
    "unat (tweak_blocks_processed tweak) + m = 2 ^ 20" "length ctemp = 16"
    "xts_crypt_loop (xts_ecb ctx) (xts_data_key ctx) (tweak_value tweak) m (h @ b @ q) = (t, c)" "length c = 16 * m"
  shows "snd (ccpad_xts_encrypt (CCMODE_FACTORY_XTS_ENCRYPT e e') ctx tweak ctemp (16 * m + 16 + r) (h @ b @ q) out) =
    c @ take 16 (drop (16 * m) out) @ take r ctemp"
proof -
  let ?n = "tweak_blocks_processed tweak"
  let ?t1 = "\<lparr>tweak_blocks_processed = ?n + of_nat m, tweak_value = t\<rparr>"
  have u: "unat (?n + of_nat m) = 2 ^ 20" using assms(7) xts_crypt_ok(2) [OF _ assms(9)] by simp
  have 1: "ccmode_xts_crypt ctx tweak m (h @ b @ q) out = (True, ?t1, c @ drop (16 * m) out)"
    using xts_crypt_ok(1) [OF _ assms(9), of out] assms(7,10) by simp
  have 2: "ccmode_xts_crypt ctx ?t1 1 x y = (False, ?t1, y)" for x y
    using u by (intro xts_crypt_limit) (simp add: unat_word_ariths)
  have d: "drop (16 * m) (h @ b @ q) = b @ q" "drop 16 (b @ q) = q" using assms(1,2) by simp_all
  have r: "map ((!) q) [0..<r] = q" "map ((!) ctemp) [0..<r] = take r ctemp"
    using assms(3-5,8) map_nth [of q] by (simp_all add: map_nth_prefix)
  show ?thesis
    unfolding ccpad_xts_encrypt_def Let_def xts_sizes [OF assms(4,5)] xts_factory 1 prod.case d 2 r
    using assms(1-6,8,10) by (simp add: take_add [symmetric])
qed

lemma pad_xts_decrypt_null:
  assumes "length h = 16 * m" "length b = 16" "length q = r" "0 < r" "r < 16"
    "2 ^ 20 < unat (tweak_blocks_processed tweak + of_nat m)"
  shows "ccpad_xts_decrypt (CCMODE_FACTORY_XTS_DECRYPT e e') ctx tweak ptemp (16 * m + 16 + r) (h @ b @ q) out = None"
  unfolding ccpad_xts_decrypt_def Let_def xts_sizes [OF assms(4,5)] xts_factory xts_crypt_limit [OF assms(6)]
  using assms(4) by simp

end
