(* ===== verification/Ccmode_Gcm_Mult.thy ===== *)
theory Ccmode_Gcm_Mult
  imports Cc_Priv
begin

unbundle bit_operations_syntax

text \<open>
  \<open>ccmode_gcm_gf_mult.c\<close>: the multiplication of \<open>GF(2^128)\<close> that GCM authenticates with, in constant time.  A
  product without carries is computed by integer multiplications of operands with holes, so that the carries
  end in bits that are masked away; two levels of Karatsuba and a reduction follow.  The routines with 64-bit
  and with 32-bit units are shown equal to the bitwise algorithm of SP 800-38D.
\<close>

section \<open>64-bit units\<close>

definition bmul64 :: "cc_unit \<Rightarrow> cc_unit \<Rightarrow> cc_unit \<times> cc_unit" where
  "bmul64 x y =
     (let m1 = 0x1084210842108421; m2 = 0x2108421084210842; m3 = 0x4210842108421084;
          m4 = 0x8421084210842108; m5 = 0x0842108421084210;
          x1 = ucast (x AND m1); y1 = ucast (y AND m1);
          x2 = ucast (x AND m2); y2 = ucast (y AND m2);
          x3 = ucast (x AND m3); y3 = ucast (y AND m3);
          x4 = ucast (x AND m4); y4 = ucast (y AND m4);
          x5 = ucast (x AND m5); y5 = ucast (y AND m5);
          z = (x1 * y1) XOR (x2 * y5) XOR (x3 * y4) XOR (x4 * y3) XOR (x5 * y2);
          r = z AND (push_bit 64 (ucast m2) OR ucast m1);
          z = (x1 * y2) XOR (x2 * y1) XOR (x3 * y5) XOR (x4 * y4) XOR (x5 * y3);
          r = r OR (z AND (push_bit 64 (ucast m3) OR ucast m2));
          z = (x1 * y3) XOR (x2 * y2) XOR (x3 * y1) XOR (x4 * y5) XOR (x5 * y4);
          r = r OR (z AND (push_bit 64 (ucast m4) OR ucast m3));
          z = (x1 * y4) XOR (x2 * y3) XOR (x3 * y2) XOR (x4 * y1) XOR (x5 * y5);
          r = r OR (z AND (push_bit 64 (ucast m5) OR ucast m4));
          z = (x1 * y5) XOR (x2 * y4) XOR (x3 * y3) XOR (x4 * y2) XOR (x5 * y1);
          r = r OR (z AND (push_bit 64 (ucast m1) OR ucast m5))
      in (ucast (drop_bit 64 r), ucast (r :: cc_dunit)))"

text \<open>From \<open>// Reduce.\<close> on, and the shift before it.\<close>

definition gf_reduce_64 :: "cc_dunit \<Rightarrow> cc_dunit \<Rightarrow> cc_dunit" where
  "gf_reduce_64 z_hi z_lo =
     (let z_hi = push_bit 1 z_hi OR drop_bit 127 z_lo;
          z_lo = push_bit 1 z_lo;
          z_lo = z_lo XOR (push_bit 126 z_lo XOR push_bit 121 z_lo)
      in z_hi XOR (z_lo XOR drop_bit 1 z_lo XOR drop_bit 2 z_lo XOR drop_bit 7 z_lo))"

definition ccmode_gcm_gf_mult_64 :: "bytes \<Rightarrow> bytes \<Rightarrow> bytes" where
  "ccmode_gcm_gf_mult_64 a b =
     (let a_lo = cc_load64_be (drop 8 a); a_hi = cc_load64_be a;
          b_lo = cc_load64_be (drop 8 b); b_hi = cc_load64_be b;
          (z0_hi, z0_lo) = bmul64 a_lo b_lo;
          (z2_hi, z2_lo) = bmul64 a_hi b_hi;
          (z1_hi, z1_lo) = bmul64 (a_hi XOR a_lo) (b_hi XOR b_lo);
          z1_hi = z1_hi XOR (z2_hi XOR z0_hi);
          z1_lo = z1_lo XOR (z2_lo XOR z0_lo);
          z_hi = push_bit 64 (ucast z2_hi) OR ucast (z2_lo XOR z1_hi);
          z_lo = (push_bit 64 (ucast z0_hi) OR ucast z0_lo) XOR push_bit 64 (ucast z1_lo);
          z_hi = gf_reduce_64 z_hi z_lo
      in cc_store64_be (ucast (drop_bit 64 z_hi)) @ cc_store64_be (ucast z_hi))"

section \<open>32-bit units\<close>

definition bmul32 :: "u32 \<Rightarrow> u32 \<Rightarrow> u32 \<times> u32" where
  "bmul32 x y =
     (let m1 = 0x11111111; m2 = 0x22222222; m4 = 0x44444444; m8 = 0x88888888;
          x0 = ucast (x AND m1); x1 = ucast (x AND m2); x2 = ucast (x AND m4); x3 = ucast (x AND m8);
          y0 = ucast (y AND m1); y1 = ucast (y AND m2); y2 = ucast (y AND m4); y3 = ucast (y AND m8);
          z0 = (x0 * y0) XOR (x1 * y3) XOR (x2 * y2) XOR (x3 * y1);
          z1 = (x0 * y1) XOR (x1 * y0) XOR (x2 * y3) XOR (x3 * y2);
          z2 = (x0 * y2) XOR (x1 * y1) XOR (x2 * y0) XOR (x3 * y3);
          z3 = (x0 * y3) XOR (x1 * y2) XOR (x2 * y1) XOR (x3 * y0);
          z0 = z0 AND (push_bit 32 (ucast m1) OR ucast m1);
          z1 = z1 AND (push_bit 32 (ucast m2) OR ucast m2);
          z2 = z2 AND (push_bit 32 (ucast m4) OR ucast m4);
          z3 = z3 AND (push_bit 32 (ucast m8) OR ucast m8);
          z = z0 OR z1 OR z2 OR (z3 :: cc_unit)
      in (ucast (drop_bit 32 z), ucast z))"

text \<open>A product of two 64-bit halves by three of 32 bits: the two words of the result are \<open>(a_h, a_l)\<close> and \<open>(b_h, b_l)\<close>.\<close>

definition bmul32_karatsuba :: "u32 \<Rightarrow> u32 \<Rightarrow> u32 \<Rightarrow> u32 \<Rightarrow> (u32 \<times> u32) \<times> u32 \<times> u32" where
  "bmul32_karatsuba a_h a_l b_h b_l =
     (let (za_h, za_l) = bmul32 a_h b_h;
          (zb_h, zb_l) = bmul32 a_l b_l;
          (t_hi, t_lo) = bmul32 (a_h XOR a_l) (b_h XOR b_l);
          t_hi = t_hi XOR (za_h XOR zb_h);
          t_lo = t_lo XOR (za_l XOR zb_l)
      in ((za_h, za_l XOR t_hi), (zb_h XOR t_lo, zb_l)))"

definition pack32 :: "u32 \<Rightarrow> u32 \<Rightarrow> cc_unit" where
  "pack32 h l = push_bit 32 (ucast h) OR ucast l"

definition gf_reduce_32 :: "cc_unit \<Rightarrow> cc_unit \<Rightarrow> cc_unit \<Rightarrow> cc_unit \<Rightarrow> cc_unit \<times> cc_unit" where
  "gf_reduce_32 z_hi_h z_hi_l z_lo_h z_lo_l =
     (let z_hi_h = push_bit 1 z_hi_h OR drop_bit 63 z_hi_l;
          z_hi_l = push_bit 1 z_hi_l OR drop_bit 63 z_lo_h;
          z_lo_h = push_bit 1 z_lo_h OR drop_bit 63 z_lo_l;
          z_lo_l = push_bit 1 z_lo_l;
          z_lo_h = z_lo_h XOR (push_bit 62 z_lo_l XOR push_bit 57 z_lo_l);
          z_hi_h = z_hi_h XOR (z_lo_h XOR drop_bit 1 z_lo_h XOR drop_bit 2 z_lo_h XOR drop_bit 7 z_lo_h);
          z_hi_l = z_hi_l XOR (z_lo_l XOR drop_bit 1 z_lo_l XOR drop_bit 2 z_lo_l XOR drop_bit 7 z_lo_l);
          z_hi_l = z_hi_l XOR (push_bit 63 z_lo_h XOR push_bit 62 z_lo_h XOR push_bit 57 z_lo_h)
      in (z_hi_h, z_hi_l))"

definition ccmode_gcm_gf_mult_32 :: "bytes \<Rightarrow> bytes \<Rightarrow> bytes" where
  "ccmode_gcm_gf_mult_32 a b =
     (let a_lo_l = cc_load32_be (drop 12 a); a_lo_h = cc_load32_be (drop 8 a);
          a_hi_l = cc_load32_be (drop 4 a); a_hi_h = cc_load32_be a;
          a_hiXlo_h = a_hi_h XOR a_lo_h;
          a_hiXlo_l = a_hi_l XOR a_lo_l;
          b_lo_l = cc_load32_be (drop 12 b); b_lo_h = cc_load32_be (drop 8 b);
          b_hi_l = cc_load32_be (drop 4 b); b_hi_h = cc_load32_be b;
          b_hiXlo_h = b_hi_h XOR b_lo_h;
          b_hiXlo_l = b_hi_l XOR b_lo_l;
          ((z0_a_h, z0_a_l), (z0_b_h, z0_b_l)) = bmul32_karatsuba a_lo_h a_lo_l b_lo_h b_lo_l;
          ((z2_a_h, z2_a_l), (z2_b_h, z2_b_l)) = bmul32_karatsuba a_hi_h a_hi_l b_hi_h b_hi_l;
          ((z1_a_h, z1_a_l), (z1_b_h, z1_b_l)) = bmul32_karatsuba a_hiXlo_h a_hiXlo_l b_hiXlo_h b_hiXlo_l;
          z1_a_h = z1_a_h XOR (z0_a_h XOR z2_a_h);
          z1_a_l = z1_a_l XOR (z0_a_l XOR z2_a_l);
          z1_b_h = z1_b_h XOR (z0_b_h XOR z2_b_h);
          z1_b_l = z1_b_l XOR (z0_b_l XOR z2_b_l);
          z_hi_h = pack32 z2_a_h z2_a_l;
          z_hi_l = pack32 z2_b_h z2_b_l XOR pack32 z1_a_h z1_a_l;
          z_lo_h = pack32 z0_a_h z0_a_l XOR pack32 z1_b_h z1_b_l;
          z_lo_l = pack32 z0_b_h z0_b_l;
          (z_hi_h, z_hi_l) = gf_reduce_32 z_hi_h z_hi_l z_lo_h z_lo_l
      in cc_store64_be z_hi_h @ cc_store64_be z_hi_l)"

text \<open>The 64-bit configuration.\<close>

definition ccmode_gcm_gf_mult :: "bytes \<Rightarrow> bytes \<Rightarrow> bytes" where
  "ccmode_gcm_gf_mult a b = ccmode_gcm_gf_mult_64 a b"

section \<open>The standard's algorithm\<close>

text \<open>
  SP 800-38D, algorithm 1, on blocks read as 128-bit numbers: the leftmost bit of a block is the coefficient
  of \<open>x^0\<close>.
\<close>

definition gf_double :: "cc_dunit \<Rightarrow> cc_dunit" where
  "gf_double v = (if bit v 0 then drop_bit 1 v XOR 0xe1000000000000000000000000000000 else drop_bit 1 v)"

primrec gf_product_loop :: "nat \<Rightarrow> cc_dunit \<Rightarrow> cc_dunit \<Rightarrow> cc_dunit \<times> cc_dunit" where
  "gf_product_loop 0 x y = (0, y)"
| "gf_product_loop (Suc i) x y =
     (let (z, v) = gf_product_loop i x y in (if bit x (127 - i) then z XOR v else z, gf_double v))"

definition gf_product :: "cc_dunit \<Rightarrow> cc_dunit \<Rightarrow> cc_dunit" where
  "gf_product x y = fst (gf_product_loop 128 x y)"

definition gf_load :: "bytes \<Rightarrow> cc_dunit" where
  "gf_load b = push_bit 64 (ucast (cc_load64_be b)) OR ucast (cc_load64_be (drop 8 b))"

definition gf_store :: "cc_dunit \<Rightarrow> bytes" where
  "gf_store z = cc_store64_be (ucast (drop_bit 64 z)) @ cc_store64_be (ucast z)"

section \<open>Sums and products without carries\<close>

primrec xsum :: "nat \<Rightarrow> (nat \<Rightarrow> 'a::len word) \<Rightarrow> 'a word" where
  "xsum 0 f = 0"
| "xsum (Suc n) f = xsum n f XOR f n"

definition clmul :: "'a::len word \<Rightarrow> 'a word \<Rightarrow> 'a word" where
  "clmul x y = xsum LENGTH('a) (\<lambda>i. if bit x i then push_bit i y else 0)"

lemma xsum_xor: "xsum n (\<lambda>i. f i XOR g i) = xsum n f XOR xsum n g"
  by (induction n) (simp_all add: ac_simps)

lemma xsum_zero: "xsum n (\<lambda>i. 0) = 0"
  by (induction n) simp_all

lemma xsum_linear: "L 0 = 0 \<Longrightarrow> (\<And>a b. L (a XOR b) = L a XOR L b) \<Longrightarrow> L (xsum n f) = xsum n (\<lambda>i. L (f i))"
  by (induction n) simp_all

lemma xsum_cong: "(\<And>i. i < n \<Longrightarrow> f i = g i) \<Longrightarrow> xsum n f = xsum n g"
  by (induction n) simp_all

lemma bit_xsum: "bit (xsum n f) p = odd (card {i. i < n \<and> bit (f i) p})"
proof (induction n)
  case (Suc n)
  have "{i. i < Suc n \<and> bit (f i) p} = {i. i < n \<and> bit (f i) p} \<union> (if bit (f n) p then {n} else {})"
    by (auto simp: less_Suc_eq)
  then show ?case using Suc by (auto simp: bit_xor_iff card_insert_if)
qed simp

lemma clmul_xor_left: "clmul (x XOR x') y = clmul x y XOR clmul x' y"
  unfolding clmul_def xsum_xor [symmetric] by (rule xsum_cong) (simp add: bit_xor_iff)

lemma clmul_xor_right: "clmul x (y XOR y') = clmul x y XOR clmul x y'"
  unfolding clmul_def xsum_xor [symmetric] by (rule xsum_cong) (simp add: push_bit_xor)

lemma bit_clmul:
  "bit (clmul x y) p \<longleftrightarrow> p < LENGTH('a) \<and> odd (card {i. i \<le> p \<and> bit x i \<and> bit y (p - i)})" for x :: "'a::len word"
proof (cases "p < LENGTH('a)")
  case True
  have "{i. i < LENGTH('a) \<and> bit (if bit x i then push_bit i y else 0) p} = {i. i \<le> p \<and> bit x i \<and> bit y (p - i)}"
    using True by (auto simp: bit_push_bit_iff split: if_splits)
  then show ?thesis using True by (simp add: clmul_def bit_xsum)
qed (auto dest: bit_imp_le_length)

lemma clmul_zero [simp]: "clmul x 0 = 0" "clmul 0 y = 0"
proof -
  have "xsum n (\<lambda>i. if bit x i then push_bit i 0 else 0) = 0" for n by (induction n) simp_all
  then show "clmul x 0 = 0" by (simp only: clmul_def)
qed (simp add: clmul_def xsum_zero)

lemma clmul_commute: "clmul x y = clmul y x" for x y :: "'a::len word"
proof (rule bit_word_eqI)
  fix p assume "p < LENGTH('a)"
  have "bij_betw (\<lambda>i. p - i) {i. i \<le> p \<and> bit x i \<and> bit y (p - i)} {i. i \<le> p \<and> bit y i \<and> bit x (p - i)}"
    by (rule bij_betw_byWitness [where f' = "\<lambda>i. p - i"]) auto
  then show "bit (clmul x y) p = bit (clmul y x) p" unfolding bit_clmul by (simp only: bij_betw_same_card)
qed

lemma clmul_push: "clmul x (push_bit k y) = push_bit k (clmul x y)" "clmul (push_bit k x) y = push_bit k (clmul x y)"
proof -
  have r: "clmul x (push_bit k y) = push_bit k (clmul x y)" for x y :: "'a word"
    unfolding clmul_def
    by (subst xsum_linear [of "push_bit k"], simp, simp add: push_bit_xor)
      (rule xsum_cong, simp add: push_bit_push_bit add.commute)
  show "clmul x (push_bit k y) = push_bit k (clmul x y)" by (rule r)
  show "clmul (push_bit k x) y = push_bit k (clmul x y)" using r [of y x] by (simp only: clmul_commute)
qed

lemma ucast_clmul:
  assumes "\<And>i. bit x i \<Longrightarrow> i < n" "\<And>i. bit y i \<Longrightarrow> i < n" "2 * n \<le> LENGTH('a)" "LENGTH('a) \<le> LENGTH('b)"
  shows "ucast (clmul x y :: 'a::len word) = clmul (ucast x) (ucast y :: 'b::len word)"
proof (rule bit_word_eqI)
  fix p assume p: "p < LENGTH('b)"
  have "{i. i \<le> p \<and> bit (ucast x :: 'b word) i \<and> bit (ucast y :: 'b word) (p - i)} = {i. i \<le> p \<and> bit x i \<and> bit y (p - i)}"
    using p by (auto simp: bit_simps)
  moreover have "{i. i \<le> p \<and> bit x i \<and> bit y (p - i)} = {}" if "LENGTH('a) \<le> p"
    using assms(1-3) that by fastforce
  ultimately show "bit (ucast (clmul x y) :: 'b word) p = bit (clmul (ucast x) (ucast y :: 'b word)) p"
    using p by (cases "p < LENGTH('a)") (simp_all only: bit_unsigned_iff bit_clmul, simp_all)
qed

lemma karatsuba:
  "clmul (push_bit k ah XOR al) (push_bit k bh XOR bl) =
     push_bit (k + k) (clmul ah bh) XOR
     push_bit k (clmul (ah XOR al) (bh XOR bl) XOR (clmul ah bh XOR clmul al bl)) XOR clmul al bl"
proof -
  have "(p XOR q XOR r XOR t) XOR (p XOR t) = q XOR r" for p q r t :: "'a word"
    by (rule bit_word_eqI) (auto simp: bit_xor_iff)
  then show ?thesis
    by (simp add: clmul_xor_left clmul_xor_right clmul_push push_bit_xor push_bit_push_bit ac_simps)
qed

section \<open>Integer products of numbers with holes\<close>

lemma few_with_residue: "card {i. i < N \<and> i mod s = a} \<le> N div s + 1" for s :: nat
proof -
  let ?S = "{i. i < N \<and> i mod s = a}"
  have "inj_on (\<lambda>i. i div s) ?S"
  proof (rule inj_onI)
    fix i j assume "i \<in> ?S" "j \<in> ?S" "i div s = j div s"
    then show "i = j" using div_mult_mod_eq [of i s] div_mult_mod_eq [of j s] by simp
  qed
  moreover have "(\<lambda>i. i div s) ` ?S \<subseteq> {..N div s}" by (auto intro: div_le_mono)
  ultimately have "card ?S \<le> card {..N div s}" by (intro card_inj_on_le) simp_all
  then show ?thesis by simp
qed

lemma sparse_sum_less:
  assumes "\<And>q. C q < 2 ^ s" "\<And>q. C q \<noteq> 0 \<Longrightarrow> q mod s = c" "c < s"
  shows "(\<Sum>q < s * k + c. C q * 2 ^ q) < (2 :: nat) ^ (s * k + c)"
proof (induction k)
  case 0
  have "C q = 0" if "q < c" for q using assms(2) [of q] assms(3) that by (cases "C q = 0") simp_all
  then show ?case by simp
next
  case (Suc k)
  let ?p = "s * k + c"
  have "C q = 0" if "?p < q" "q < ?p + s" for q
  proof (rule ccontr)
    assume "C q \<noteq> 0"
    then have "q mod s = c" by (rule assms(2))
    moreover define d where "d = q - ?p"
    then have d: "q = s * k + (c + d)" "0 < d" "d < s" using that by simp_all
    ultimately have "(c + d) mod s = c" by simp
    then show False using d(2,3) assms(3) by (cases "c + d < s") (simp_all add: mod_if [of "c + d"])
  qed
  then have "(\<Sum>q \<in> {?p..<?p + s}. C q * 2 ^ q) = (\<Sum>q \<in> {?p}. C q * 2 ^ q)"
    using assms(3) by (intro sum.mono_neutral_right) auto
  moreover have "(\<Sum>q < ?p + s. C q * 2 ^ q) = (\<Sum>q < ?p. C q * 2 ^ q) + (\<Sum>q \<in> {?p..<?p + s}. C q * 2 ^ q)"
    unfolding lessThan_atLeast0 by (rule sum.atLeastLessThan_concat [symmetric]) simp_all
  ultimately have "(\<Sum>q < ?p + s. C q * 2 ^ q) = (\<Sum>q < ?p. C q * 2 ^ q) + C ?p * 2 ^ ?p" by simp
  also have "\<dots> < 2 ^ ?p + C ?p * 2 ^ ?p" using Suc by simp
  also have "\<dots> = (C ?p + 1) * 2 ^ ?p" by simp
  also have "\<dots> \<le> 2 ^ s * 2 ^ ?p" using assms(1) [of ?p] by (intro mult_right_mono) simp_all
  finally show ?case by (simp add: power_add [symmetric] ac_simps)
qed

lemma sparse_sum_bit:
  assumes "\<And>q. C q < 2 ^ s" "\<And>q. C q \<noteq> 0 \<Longrightarrow> q mod s = c" "0 < s" "p mod s = c" "p < M"
  shows "bit (\<Sum>q < M. C q * 2 ^ q) p = odd (C p :: nat)"
proof -
  define L U where "L = (\<Sum>q < p. C q * 2 ^ q)" and "U = (\<Sum>q \<in> {Suc p..<M}. C q * 2 ^ (q - Suc p))"
  have "p = s * (p div s) + c" using assms(4) by (metis mult_div_mod_eq)
  then have L: "L < 2 ^ p"
    using sparse_sum_less [of C s c "p div s"] assms(1-4) unfolding L_def by (metis mod_less_divisor)
  have "(\<Sum>q \<in> {Suc p..<M}. C q * 2 ^ q) = U * 2 ^ Suc p"
    unfolding U_def sum_distrib_right mult.assoc power_add [symmetric] by (intro sum.cong) auto
  moreover have "(\<Sum>q < M. C q * 2 ^ q) = (\<Sum>q < Suc p. C q * 2 ^ q) + (\<Sum>q \<in> {Suc p..<M}. C q * 2 ^ q)"
    unfolding lessThan_atLeast0 using assms(5) by (intro sum.atLeastLessThan_concat [symmetric]) simp_all
  ultimately have "(\<Sum>q < M. C q * 2 ^ q) = L + (C p + 2 * U) * 2 ^ p" by (simp add: L_def algebra_simps)
  then show ?thesis using L by (simp add: bit_iff_odd)
qed

lemma unat_bits: "unat w = (\<Sum>i \<le> LENGTH('a) - 1. of_bool (bit w i) * 2 ^ i)" for w :: "'a::len word"
proof -
  have "{..LENGTH('a) - 1} = {..<LENGTH('a)}" using len_gt_0 [where 'a = 'a] by auto
  moreover have "unat w = take_bit LENGTH('a) (unat w)" by (simp add: take_bit_nat_eq_self)
  then have "unat w = (\<Sum>i < LENGTH('a). of_bool (map (bit (unat w)) [0..<LENGTH('a)] ! i) * 2 ^ i)"
    unfolding horner_sum_bit_eq_take_bit [symmetric] horner_sum_eq_sum length_map length_upt diff_zero lessThan_atLeast0 .
  then have "unat w = (\<Sum>i < LENGTH('a). of_bool (bit w i) * 2 ^ i)"
    by (subst (asm) sum.cong [OF refl, where h = "\<lambda>i. of_bool (bit w i) * 2 ^ i"]) (simp_all add: bit_unsigned_iff)
  ultimately show ?thesis by simp
qed

lemma digit_product:
  assumes "\<And>i. m < i \<Longrightarrow> e i = 0" "\<And>j. n < j \<Longrightarrow> f j = (0 :: nat)"
  shows "(\<Sum>i \<le> m. e i * 2 ^ i) * (\<Sum>j \<le> n. f j * 2 ^ j) = (\<Sum>r \<le> m + n. (\<Sum>k \<le> r. e k * f (r - k)) * 2 ^ r)"
proof (rule of_nat_eq_iff [where 'a = int, THEN iffD1])
  show "int ((\<Sum>i \<le> m. e i * 2 ^ i) * (\<Sum>j \<le> n. f j * 2 ^ j)) = int (\<Sum>r \<le> m + n. (\<Sum>k \<le> r. e k * f (r - k)) * 2 ^ r)"
    using polynomial_product [of m "\<lambda>i. int (e i)" n "\<lambda>j. int (f j)" 2] assms by simp
qed

text \<open>The coefficients of the integer product count the pairs of bits; with holes the counts do not run into each other.\<close>

lemma hole_product:
  fixes x y :: "'a::len word"
  assumes "\<And>i. bit x i \<Longrightarrow> i < N \<and> i mod s = a" "\<And>i. bit y i \<Longrightarrow> i < N \<and> i mod s = b"
    "N div s + 1 < 2 ^ s" "0 < s" "2 * N \<le> LENGTH('a)" "p < LENGTH('a)" "p mod s = (a + b) mod s"
  shows "bit (x * y) p = bit (clmul x y) p"
proof -
  let ?n = "LENGTH('a) - 1"
  define C where "C q = (\<Sum>k \<le> q. of_bool (bit x k) * of_bool (bit y (q - k)) :: nat)" for q
  have card: "C q = card {i. i \<le> q \<and> bit x i \<and> bit y (q - i)}" for q
  proof -
    have "C q = (\<Sum>k \<le> q. of_bool (bit x k \<and> bit y (q - k)))" unfolding C_def by (rule sum.cong) auto
    also have "\<dots> = card ({..q} \<inter> {i. bit x i \<and> bit y (q - i)})" by (simp add: sum_of_bool_eq)
    also have "{..q} \<inter> {i. bit x i \<and> bit y (q - i)} = {i. i \<le> q \<and> bit x i \<and> bit y (q - i)}" by auto
    finally show ?thesis .
  qed
  have "C q \<le> card {i. i < N \<and> i mod s = a}" for q
    unfolding card using assms(1) by (intro card_mono) auto
  then have small: "C q < 2 ^ s" for q by (rule order.trans [OF _ few_with_residue, THEN le_less_trans [OF _ assms(3)]])
  have "q mod s = (a + b) mod s" if "C q \<noteq> 0" for q
  proof -
    from that obtain i where i: "i \<le> q" "bit x i" "bit y (q - i)" unfolding card by (auto simp: card_eq_0_iff)
    then have "i mod s = a" "(q - i) mod s = b" using assms(1,2) by simp_all
    moreover have "q mod s = (i mod s + (q - i) mod s) mod s" using i(1) by (simp only: mod_add_eq le_add_diff_inverse)
    ultimately show ?thesis by (simp only:)
  qed
  note sparse = sparse_sum_bit [of C s "(a + b) mod s" p "Suc (?n + ?n)", OF small this assms(4,7)]
  have "unat x * unat y = (\<Sum>r \<le> ?n + ?n. C r * 2 ^ r)"
    unfolding unat_bits [of x] unat_bits [of y] C_def
    by (rule digit_product) (auto dest: bit_imp_le_length)
  also have "\<dots> = (\<Sum>r < Suc (?n + ?n). C r * 2 ^ r)" by (simp add: lessThan_Suc_atMost)
  finally have prod: "bit (unat x * unat y) p = odd (C p)" using sparse assms(6) by simp
  have "unat z < 2 ^ N" if "\<And>i. bit z i \<Longrightarrow> i < N" for z :: "'a word"
  proof -
    have "take_bit N z = z" by (rule bit_word_eqI) (use that in \<open>auto simp: bit_take_bit_iff\<close>)
    then have "unat z = take_bit N (unat z)" by (metis unsigned_take_bit_eq)
    then show ?thesis by (metis take_bit_nat_less_exp)
  qed
  then have "unat x < 2 ^ N" "unat y < 2 ^ N" using assms(1,2) by blast+
  then have "unat x * unat y < 2 ^ N * 2 ^ N" by (intro mult_strict_mono) simp_all
  also have "\<dots> \<le> 2 ^ LENGTH('a)" using assms(5) by (simp add: power_add [symmetric] mult_2)
  finally have "unat (x * y) = unat x * unat y" by (simp add: unat_word_ariths)
  moreover have "bit (unat (x * y)) p = bit (x * y) p" by (simp only: bit_unsigned_iff) simp
  ultimately have "bit (x * y) p = odd (C p)" using prod by (simp only:)
  then show ?thesis using assms(6) by (simp add: bit_clmul card)
qed

definition holes :: "nat \<Rightarrow> nat \<Rightarrow> nat \<Rightarrow> 'a::len word \<Rightarrow> bool" where
  "holes N s a x \<longleftrightarrow> (\<forall>i. bit x i \<longrightarrow> i < N \<and> i mod s = a)"

lemma clmul_other_residue: "holes N s a x \<Longrightarrow> holes N s b y \<Longrightarrow> p mod s \<noteq> (a + b) mod s \<Longrightarrow> \<not> bit (clmul x y) p"
proof
  assume h: "holes N s a x" "holes N s b y" "p mod s \<noteq> (a + b) mod s" and "bit (clmul x y) p"
  then have "odd (card {i. i \<le> p \<and> bit x i \<and> bit y (p - i)})" by (simp add: bit_clmul)
  then have "{i. i \<le> p \<and> bit x i \<and> bit y (p - i)} \<noteq> {}" by (metis card.empty even_zero)
  then obtain i where i: "i \<le> p" "bit x i" "bit y (p - i)" by blast
  then have "i mod s = a" "(p - i) mod s = b" using h(1,2) by (simp_all add: holes_def)
  moreover have "p mod s = (i mod s + (p - i) mod s) mod s" using i(1) by (simp only: mod_add_eq le_add_diff_inverse)
  ultimately show False using h(3) by (simp only:)
qed

lemma mask_bits_64:
  "\<forall>i \<in> set [0..<64]. bit (0x1084210842108421 :: cc_unit) i = (i mod 5 = 0)"
  "\<forall>i \<in> set [0..<64]. bit (0x2108421084210842 :: cc_unit) i = (i mod 5 = 1)"
  "\<forall>i \<in> set [0..<64]. bit (0x4210842108421084 :: cc_unit) i = (i mod 5 = 2)"
  "\<forall>i \<in> set [0..<64]. bit (0x8421084210842108 :: cc_unit) i = (i mod 5 = 3)"
  "\<forall>i \<in> set [0..<64]. bit (0x0842108421084210 :: cc_unit) i = (i mod 5 = 4)"
  by code_simp+

lemma mask_bits_32:
  "\<forall>i \<in> set [0..<32]. bit (0x11111111 :: u32) i = (i mod 4 = 0)"
  "\<forall>i \<in> set [0..<32]. bit (0x22222222 :: u32) i = (i mod 4 = 1)"
  "\<forall>i \<in> set [0..<32]. bit (0x44444444 :: u32) i = (i mod 4 = 2)"
  "\<forall>i \<in> set [0..<32]. bit (0x88888888 :: u32) i = (i mod 4 = 3)"
  by code_simp+

lemma len_64: "LENGTH(64) = 64" and len_32: "LENGTH(32) = 32"
  by simp_all

lemma mask_bit: "\<forall>i \<in> set [0..<n]. bit w i = (i mod s = c) \<Longrightarrow> LENGTH('a) = n \<Longrightarrow> bit w i \<longleftrightarrow> i < n \<and> i mod s = c"
  for w :: "'a::len word"
  using bit_imp_le_length [of w i] by auto

lemmas mask_bit_64 = mask_bits_64 [THEN mask_bit, OF len_64]
  and mask_bit_32 = mask_bits_32 [THEN mask_bit, OF len_32]

lemma holes_and: "(\<And>i. bit m i \<longleftrightarrow> i < N \<and> i mod s = c) \<Longrightarrow> holes N s c (ucast (x AND m))"
  by (auto simp: holes_def bit_simps)

text \<open>Each residue class of the result is cut out of the five products that contribute to it.\<close>

lemma join_halves:
  "push_bit 64 (ucast (ucast (drop_bit 64 r) :: cc_unit)) OR ucast (ucast r :: cc_unit) = (r :: cc_dunit)"
  "push_bit 32 (ucast (ucast (drop_bit 32 q) :: u32)) OR ucast (ucast q :: u32) = (q :: cc_unit)"
  by (rule bit_word_eqI; auto simp: bit_simps)+

lemma bit_join_64: "bit (push_bit 64 (ucast h) OR ucast l :: cc_dunit) p \<longleftrightarrow> (if p < 64 then bit l p else p < 128 \<and> bit h (p - 64))"
  for h l :: cc_unit
  using bit_imp_le_length [of h "p - 64"] bit_imp_le_length [of l p] by (auto simp: bit_simps)

lemma bit_join_32: "bit (push_bit 32 (ucast h) OR ucast l :: cc_unit) p \<longleftrightarrow> (if p < 32 then bit l p else p < 64 \<and> bit h (p - 32))"
  for h l :: u32
  using bit_imp_le_length [of h "p - 32"] bit_imp_le_length [of l p] by (auto simp: bit_simps)

lemma join_class_64:
  fixes l h :: cc_unit
  assumes "\<And>i. bit l i \<longleftrightarrow> i < 64 \<and> i mod 5 = c" "\<And>i. bit h i \<longleftrightarrow> i < 64 \<and> i mod 5 = c'" "c = (c' + 4) mod 5" "c' < 5"
  shows "bit (push_bit 64 (ucast h) OR ucast l :: cc_dunit) p \<longleftrightarrow> p < 128 \<and> p mod 5 = c"
proof (cases "p < 64")
  case False
  define q where "q = p - 64"
  then have p: "p = q + 64" using False by simp
  have "(q + 64) mod 5 = 4 \<longleftrightarrow> q mod 5 = 0" "(q + 64) mod 5 = 0 \<longleftrightarrow> q mod 5 = 1" "(q + 64) mod 5 = 1 \<longleftrightarrow> q mod 5 = 2"
    "(q + 64) mod 5 = 2 \<longleftrightarrow> q mod 5 = 3" "(q + 64) mod 5 = 3 \<longleftrightarrow> q mod 5 = 4"
    by presburger+
  moreover have "c' = 0 \<or> c' = 1 \<or> c' = 2 \<or> c' = 3 \<or> c' = 4" using assms(4) by linarith
  ultimately have "(q + 64) mod 5 = (c' + 4) mod 5 \<longleftrightarrow> q mod 5 = c'" by (elim disjE) simp_all
  then show ?thesis unfolding bit_join_64 by (simp add: assms(1,2) p) (simp add: assms(3))
qed (simp add: bit_join_64 assms(1))

lemma join_class_32:
  fixes m :: u32
  assumes "\<And>i. bit m i \<longleftrightarrow> i < 32 \<and> i mod 4 = c"
  shows "bit (push_bit 32 (ucast m) OR ucast m :: cc_unit) p \<longleftrightarrow> p < 64 \<and> p mod 4 = c"
proof (cases "p < 32")
  case False
  define q where "q = p - 32"
  then have p: "p = q + 32" using False by simp
  have "(q + 32) mod 4 = q mod 4" by presburger
  then show ?thesis unfolding bit_join_32 by (simp add: assms p)
qed (simp add: bit_join_32 assms)

lemma residue_partner:
  fixes s :: nat
  assumes "a < s" "b < s"
  shows "(a + b) mod s = p mod s \<longleftrightarrow> b = (p + s - a) mod s"
proof -
  have "(a + (p + s - a) mod s) mod s = p mod s" using assms(1) by (simp add: mod_add_right_eq)
  moreover have "b = b'" if e: "(a + b) mod s = (a + b') mod s" and b': "b' < s" for b'
  proof -
    have "(a + c) mod s = (if a + c < s then a + c else a + c - s)" if "c < s" for c
      using assms(1) that by (simp add: mod_if)
    then show ?thesis using e b' assms(2) by (simp split: if_splits)
  qed
  ultimately show ?thesis using assms by (metis mod_less_divisor less_nat_zero_code not_gr_zero)
qed

lemma clmul_by_classes:
  fixes f g :: "nat \<Rightarrow> 'a::len word"
  assumes "\<And>a. a < s \<Longrightarrow> holes N s a (f a)" "\<And>b. b < s \<Longrightarrow> holes N s b (g b)"
    "N div s + 1 < 2 ^ s" "0 < s" "2 * N \<le> LENGTH('a)" "p < LENGTH('a)"
  shows "bit (clmul (xsum s f) (xsum s g)) p = bit (xsum s (\<lambda>a. f a * g ((p + s - a) mod s))) p"
proof -
  have 1: "bit (clmul (f a) (xsum s g)) p = bit (f a * g ((p + s - a) mod s)) p" if a: "a < s" for a
  proof -
    define b where "b = (p + s - a) mod s"
    have b: "b < s" using assms(4) by (simp add: b_def)
    have "c = b" if c: "c < s" "bit (clmul (f a) (g c)) p" for c
    proof -
      have "p mod s = (a + c) mod s" using clmul_other_residue [OF assms(1) [OF a] assms(2) [OF c(1)]] c(2) by blast
      then show ?thesis unfolding b_def residue_partner [OF a c(1), symmetric] by (rule sym)
    qed
    note only = this
    have "{c. c < s \<and> bit (clmul (f a) (g c)) p} = (if bit (clmul (f a) (g b)) p then {b} else {})"
    proof (rule set_eqI)
      fix c show "c \<in> {c. c < s \<and> bit (clmul (f a) (g c)) p} \<longleftrightarrow> c \<in> (if bit (clmul (f a) (g b)) p then {b} else {})"
        using only [of c] b by (cases "c = b") auto
    qed
    moreover have "clmul (f a) (xsum s g) = xsum s (\<lambda>b. clmul (f a) (g b))"
      by (rule xsum_linear) (simp_all add: clmul_xor_right)
    ultimately have "bit (clmul (f a) (xsum s g)) p = bit (clmul (f a) (g b)) p" by (simp add: bit_xsum)
    also have "\<dots> = bit (f a * g b) p"
    proof (rule hole_product [symmetric])
      show "bit (f a) i \<Longrightarrow> i < N \<and> i mod s = a" for i using assms(1) [OF a] by (simp only: holes_def)
      show "bit (g b) i \<Longrightarrow> i < N \<and> i mod s = b" for i using assms(2) [OF b] by (simp only: holes_def)
      show "p mod s = (a + b) mod s" using residue_partner [OF a b, of p] by (simp add: b_def [symmetric])
    qed (rule assms)+
    finally show ?thesis by (simp only: b_def)
  qed
  have "clmul (xsum s f) (xsum s g) = xsum s (\<lambda>a. clmul (f a) (xsum s g))"
    by (rule xsum_linear [of "\<lambda>x. clmul x (xsum s g)"]) (simp_all add: clmul_xor_left)
  moreover have "{a. a < s \<and> bit (clmul (f a) (xsum s g)) p} = {a. a < s \<and> bit (f a * g ((p + s - a) mod s)) p}" using 1 by blast
  ultimately show ?thesis by (simp only: bit_xsum)
qed

lemma xsum_5: "xsum 5 f = f 0 XOR f 1 XOR f 2 XOR f 3 XOR f 4" and xsum_4: "xsum 4 f = f 0 XOR f 1 XOR f 2 XOR f 3"
  by (simp_all add: numeral_eq_Suc ac_simps)

text \<open>A number is the sum of its parts with holes.\<close>

lemma classes_sum:
  assumes "\<And>a i. a < s \<Longrightarrow> bit (f a) i \<longleftrightarrow> bit x i \<and> i mod s = a" "0 < s"
  shows "xsum s f = x"
proof (rule bit_word_eqI)
  fix i
  have "{a. a < s \<and> bit (f a) i} = (if bit x i then {i mod s} else {})" using assms by auto
  then show "bit (xsum s f) i = bit x i" by (simp add: bit_xsum)
qed

lemma bmul64_clmul:
  assumes "bmul64 x y = (hi, lo)"
  shows "push_bit 64 (ucast hi) OR ucast lo = clmul (ucast x) (ucast y :: cc_dunit)"
proof -
  define m1 m2 m3 m4 m5 where m:
    "m1 = (0x1084210842108421 :: cc_unit)" "m2 = (0x2108421084210842 :: cc_unit)" "m3 = (0x4210842108421084 :: cc_unit)"
    "m4 = (0x8421084210842108 :: cc_unit)" "m5 = (0x0842108421084210 :: cc_unit)"
  note mb = mask_bit_64 [folded m]
  define F where "F w a = (ucast (w AND [m1, m2, m3, m4, m5] ! a) :: cc_dunit)" for w :: cc_unit and a
  have lt5: "a < 5 \<longleftrightarrow> a = 0 \<or> a = 1 \<or> a = 2 \<or> a = 3 \<or> a = (4 :: nat)" for a by linarith
  have mbits: "bit ([m1, m2, m3, m4, m5] ! a) i \<longleftrightarrow> i < 64 \<and> i mod 5 = a" if "a < 5" for a i
    using that unfolding lt5 by (elim disjE) (simp_all add: mb)
  have h: "holes 64 5 a (F w a)" if "a < 5" for a w unfolding F_def by (rule holes_and) (rule mbits [OF that])
  have sum: "xsum 5 (F w) = ucast w" for w
    by (rule classes_sum) (auto simp: F_def bit_simps mbits dest: bit_imp_le_length)
  define Z where "Z c = xsum 5 (\<lambda>a. F x a * F y ((c + 5 - a) mod 5))" for c
  have Z: "bit (clmul (ucast x) (ucast y :: cc_dunit)) p = bit (Z p) p" if "p < 128" for p
    using clmul_by_classes [where f = "F x" and g = "F y" and s = 5 and N = 64 and p = p, OF h h] that by (simp add: sum Z_def)
  have Zv:
    "Z 0 = ucast (x AND m1) * ucast (y AND m1) XOR ucast (x AND m2) * ucast (y AND m5) XOR ucast (x AND m3) * ucast (y AND m4) XOR ucast (x AND m4) * ucast (y AND m3) XOR ucast (x AND m5) * ucast (y AND m2)"
    "Z 1 = ucast (x AND m1) * ucast (y AND m2) XOR ucast (x AND m2) * ucast (y AND m1) XOR ucast (x AND m3) * ucast (y AND m5) XOR ucast (x AND m4) * ucast (y AND m4) XOR ucast (x AND m5) * ucast (y AND m3)"
    "Z 2 = ucast (x AND m1) * ucast (y AND m3) XOR ucast (x AND m2) * ucast (y AND m2) XOR ucast (x AND m3) * ucast (y AND m1) XOR ucast (x AND m4) * ucast (y AND m5) XOR ucast (x AND m5) * ucast (y AND m4)"
    "Z 3 = ucast (x AND m1) * ucast (y AND m4) XOR ucast (x AND m2) * ucast (y AND m3) XOR ucast (x AND m3) * ucast (y AND m2) XOR ucast (x AND m4) * ucast (y AND m1) XOR ucast (x AND m5) * ucast (y AND m5)"
    "Z 4 = ucast (x AND m1) * ucast (y AND m5) XOR ucast (x AND m2) * ucast (y AND m4) XOR ucast (x AND m3) * ucast (y AND m3) XOR ucast (x AND m4) * ucast (y AND m2) XOR ucast (x AND m5) * ucast (y AND m1)"
    by (simp_all add: Z_def xsum_5 F_def)
  define k0 k1 k2 k3 k4 where k: "k0 = (push_bit 64 (ucast m2) OR ucast m1 :: cc_dunit)" "k1 = (push_bit 64 (ucast m3) OR ucast m2 :: cc_dunit)"
    "k2 = (push_bit 64 (ucast m4) OR ucast m3 :: cc_dunit)" "k3 = (push_bit 64 (ucast m5) OR ucast m4 :: cc_dunit)"
    "k4 = (push_bit 64 (ucast m1) OR ucast m5 :: cc_dunit)"
  have kb: "bit k0 p \<longleftrightarrow> p < 128 \<and> p mod 5 = 0" "bit k1 p \<longleftrightarrow> p < 128 \<and> p mod 5 = 1" "bit k2 p \<longleftrightarrow> p < 128 \<and> p mod 5 = 2"
    "bit k3 p \<longleftrightarrow> p < 128 \<and> p mod 5 = 3" "bit k4 p \<longleftrightarrow> p < 128 \<and> p mod 5 = 4" for p
    unfolding k by (rule join_class_64 [OF mb(1,2)] join_class_64 [OF mb(2,3)] join_class_64 [OF mb(3,4)] join_class_64 [OF mb(4,5)]
        join_class_64 [OF mb(5,1)]; simp)+
  obtain r where r: "hi = ucast (drop_bit 64 r)" "lo = ucast r"
      "r = ((((Z 0 AND k0) OR (Z 1 AND k1)) OR (Z 2 AND k2)) OR (Z 3 AND k3)) OR (Z 4 AND k4)"
    using assms unfolding bmul64_def Let_def m [symmetric] k [symmetric] prod.inject Zv by blast
  show ?thesis unfolding r(1,2) join_halves
  proof (rule bit_word_eqI)
    fix p assume "p < LENGTH(128)"
    then have p: "p < 128" by simp
    define c where "c = p mod 5"
    have zp: "Z p = Z c"
    proof -
      have "(p + 5 - a) mod 5 = (c + 5 - a) mod 5" if "a < 5" for a
      proof -
        have "p + 5 - a = 5 * (p div 5) + (c + 5 - a)" using that by (simp add: c_def)
        then show ?thesis by simp
      qed
      then show ?thesis unfolding Z_def by (intro xsum_cong) simp
    qed
    have "c < 5" by (simp add: c_def)
    then have "c = 0 \<or> c = 1 \<or> c = 2 \<or> c = 3 \<or> c = 4" unfolding lt5 .
    then show "bit r p = bit (clmul (ucast x) (ucast y :: cc_dunit)) p"
      unfolding Z [OF p] zp r(3) bit_or_iff bit_and_iff kb c_def [symmetric] using p by (elim disjE) simp_all
  qed
qed

lemma bmul32_clmul:
  assumes "bmul32 x y = (hi, lo)"
  shows "push_bit 32 (ucast hi) OR ucast lo = clmul (ucast x) (ucast y :: cc_unit)"
proof -
  define m1 m2 m4 m8 where m: "m1 = (0x11111111 :: u32)" "m2 = (0x22222222 :: u32)" "m4 = (0x44444444 :: u32)" "m8 = (0x88888888 :: u32)"
  note mb = mask_bit_32 [folded m]
  define F where "F w a = (ucast (w AND [m1, m2, m4, m8] ! a) :: cc_unit)" for w :: u32 and a
  have lt4: "a < 4 \<longleftrightarrow> a = 0 \<or> a = 1 \<or> a = 2 \<or> a = (3 :: nat)" for a by linarith
  have mbits: "bit ([m1, m2, m4, m8] ! a) i \<longleftrightarrow> i < 32 \<and> i mod 4 = a" if "a < 4" for a i
    using that unfolding lt4 by (elim disjE) (simp_all add: mb)
  have h: "holes 32 4 a (F w a)" if "a < 4" for a w unfolding F_def by (rule holes_and) (rule mbits [OF that])
  have sum: "xsum 4 (F w) = ucast w" for w
    by (rule classes_sum) (auto simp: F_def bit_simps mbits dest: bit_imp_le_length)
  define Z where "Z c = xsum 4 (\<lambda>a. F x a * F y ((c + 4 - a) mod 4))" for c
  have Z: "bit (clmul (ucast x) (ucast y :: cc_unit)) p = bit (Z p) p" if "p < 64" for p
    using clmul_by_classes [where f = "F x" and g = "F y" and s = 4 and N = 32 and p = p, OF h h] that by (simp add: sum Z_def)
  have Zv:
    "Z 0 = ucast (x AND m1) * ucast (y AND m1) XOR ucast (x AND m2) * ucast (y AND m8) XOR ucast (x AND m4) * ucast (y AND m4) XOR ucast (x AND m8) * ucast (y AND m2)"
    "Z 1 = ucast (x AND m1) * ucast (y AND m2) XOR ucast (x AND m2) * ucast (y AND m1) XOR ucast (x AND m4) * ucast (y AND m8) XOR ucast (x AND m8) * ucast (y AND m4)"
    "Z 2 = ucast (x AND m1) * ucast (y AND m4) XOR ucast (x AND m2) * ucast (y AND m2) XOR ucast (x AND m4) * ucast (y AND m1) XOR ucast (x AND m8) * ucast (y AND m8)"
    "Z 3 = ucast (x AND m1) * ucast (y AND m8) XOR ucast (x AND m2) * ucast (y AND m4) XOR ucast (x AND m4) * ucast (y AND m2) XOR ucast (x AND m8) * ucast (y AND m1)"
    by (simp_all add: Z_def xsum_4 F_def)
  define k1 k2 k4 k8 where k: "k1 = (push_bit 32 (ucast m1) OR ucast m1 :: cc_unit)" "k2 = (push_bit 32 (ucast m2) OR ucast m2 :: cc_unit)"
    "k4 = (push_bit 32 (ucast m4) OR ucast m4 :: cc_unit)" "k8 = (push_bit 32 (ucast m8) OR ucast m8 :: cc_unit)"
  have kb: "bit k1 p \<longleftrightarrow> p < 64 \<and> p mod 4 = 0" "bit k2 p \<longleftrightarrow> p < 64 \<and> p mod 4 = 1" "bit k4 p \<longleftrightarrow> p < 64 \<and> p mod 4 = 2"
    "bit k8 p \<longleftrightarrow> p < 64 \<and> p mod 4 = 3" for p
    unfolding k by (rule join_class_32 [OF mb(1)] join_class_32 [OF mb(2)] join_class_32 [OF mb(3)] join_class_32 [OF mb(4)])+
  obtain r where r: "hi = ucast (drop_bit 32 r)" "lo = ucast r" "r = (Z 0 AND k1) OR (Z 1 AND k2) OR (Z 2 AND k4) OR (Z 3 AND k8)"
    using assms unfolding bmul32_def Let_def m [symmetric] k [symmetric] prod.inject Zv by blast
  show ?thesis unfolding r(1,2) join_halves
  proof (rule bit_word_eqI)
    fix p assume "p < LENGTH(64)"
    then have p: "p < 64" by simp
    define c where "c = p mod 4"
    have zp: "Z p = Z c"
    proof -
      have "(p + 4 - a) mod 4 = (c + 4 - a) mod 4" if "a < 4" for a
      proof -
        have "p + 4 - a = 4 * (p div 4) + (c + 4 - a)" using that by (simp add: c_def)
        then show ?thesis by simp
      qed
      then show ?thesis unfolding Z_def by (intro xsum_cong) simp
    qed
    have "c < 4" by (simp add: c_def)
    then have "c = 0 \<or> c = 1 \<or> c = 2 \<or> c = 3" unfolding lt4 .
    then show "bit r p = bit (clmul (ucast x) (ucast y :: cc_unit)) p"
      unfolding Z [OF p] zp r(3) bit_or_iff bit_and_iff kb c_def [symmetric] using p by (elim disjE) simp_all
  qed
qed

section \<open>Halves\<close>

definition pack64 :: "cc_unit \<Rightarrow> cc_unit \<Rightarrow> cc_dunit" where
  "pack64 h l = push_bit 64 (ucast h) OR ucast l"

lemma bit_pack64: "bit (pack64 h l) p \<longleftrightarrow> (if p < 64 then bit l p else p < 128 \<and> bit h (p - 64))"
  and bit_pack32: "bit (pack32 h' l') q \<longleftrightarrow> (if q < 32 then bit l' q else q < 64 \<and> bit h' (q - 32))"
  by (simp_all only: pack64_def pack32_def bit_join_64 bit_join_32)

lemma pack_inject:
  "pack64 h l = pack64 h' l' \<longleftrightarrow> h = h' \<and> l = l'" "pack32 a b = pack32 a' b' \<longleftrightarrow> a = a' \<and> b = b'"
proof -
  have "ucast (drop_bit 64 (pack64 h l)) = h" "ucast (pack64 h l) = l" for h l
    by (rule bit_word_eqI; auto simp: bit_simps bit_pack64)+
  then show "pack64 h l = pack64 h' l' \<longleftrightarrow> h = h' \<and> l = l'" by metis
  have "ucast (drop_bit 32 (pack32 h l)) = h" "ucast (pack32 h l) = l" for h l
    by (rule bit_word_eqI; auto simp: bit_simps bit_pack32)+
  then show "pack32 a b = pack32 a' b' \<longleftrightarrow> a = a' \<and> b = b'" by metis
qed

lemma pack_xor: "pack64 h l XOR pack64 h' l' = pack64 (h XOR h') (l XOR l')" "pack32 a b XOR pack32 a' b' = pack32 (a XOR a') (b XOR b')"
  by (rule bit_word_eqI; auto simp: bit_simps bit_pack64 bit_pack32)+

lemma bit_lt: "bit (w :: cc_unit) n \<Longrightarrow> n < 64" "bit (v :: u32) n \<Longrightarrow> n < 32" "bit (u :: cc_dunit) n \<Longrightarrow> n < 128"
  using bit_imp_le_length [of w n] bit_imp_le_length [of v n] bit_imp_le_length [of u n] by simp_all

lemma pack_as_xor: "ucast (pack64 h l) = push_bit 64 (ucast h) XOR (ucast l :: 256 word)"
  "ucast (pack32 a b) = push_bit 32 (ucast a) XOR (ucast b :: cc_dunit)"
proof -
  show "ucast (pack64 h l) = push_bit 64 (ucast h) XOR (ucast l :: 256 word)"
    by (rule bit_word_eqI) (use bit_lt(1) [of h] bit_lt(1) [of l] in \<open>force simp: bit_simps bit_pack64\<close>)
  show "ucast (pack32 a b) = push_bit 32 (ucast a) XOR (ucast b :: cc_dunit)"
    by (rule bit_word_eqI) (use bit_lt(2) [of a] bit_lt(2) [of b] in \<open>force simp: bit_simps bit_pack32\<close>)
qed

section \<open>The products agree\<close>

lemma bmul64_pack: "bmul64 x y = (hi, lo) \<Longrightarrow> pack64 hi lo = clmul (ucast x) (ucast y)"
  unfolding pack64_def by (rule bmul64_clmul)

lemma bmul32_pack: "bmul32 x y = (hi, lo) \<Longrightarrow> pack32 hi lo = clmul (ucast x) (ucast y)"
  unfolding pack32_def by (rule bmul32_clmul)

lemma clmul_lift:
  "ucast (clmul (ucast x) (ucast y) :: cc_unit) = clmul (ucast x) (ucast y :: cc_dunit)"
  "ucast (clmul (ucast x') (ucast y') :: cc_dunit) = clmul (ucast x') (ucast y' :: 256 word)"
  for x y :: u32 and x' y' :: cc_unit
proof -
  have u: "ucast (ucast w :: cc_unit) = (ucast w :: cc_dunit)" "ucast (ucast v :: cc_dunit) = (ucast v :: 256 word)" for w :: u32 and v :: cc_unit
    by (rule bit_word_eqI; auto simp: bit_simps dest: bit_lt)+
  have "ucast (clmul (ucast x) (ucast y) :: cc_unit) = clmul (ucast (ucast x :: cc_unit)) (ucast (ucast y :: cc_unit) :: cc_dunit)"
    by (rule ucast_clmul [where n = 32]) (auto simp: bit_simps dest: bit_lt)
  then show "ucast (clmul (ucast x) (ucast y) :: cc_unit) = clmul (ucast x) (ucast y :: cc_dunit)" by (simp only: u)
  have "ucast (clmul (ucast x') (ucast y') :: cc_dunit) = clmul (ucast (ucast x' :: cc_dunit)) (ucast (ucast y' :: cc_dunit) :: 256 word)"
    by (rule ucast_clmul [where n = 64]) (auto simp: bit_simps dest: bit_lt)
  then show "ucast (clmul (ucast x') (ucast y') :: cc_dunit) = clmul (ucast x') (ucast y' :: 256 word)" by (simp only: u)
qed

text \<open>One level of Karatsuba with 32-bit products is the 64-bit product.\<close>

lemma bmul32_karatsuba_eq:
  assumes "bmul32_karatsuba a_h a_l b_h b_l = ((za_h, za_l), (zb_h, zb_l))"
  shows "bmul64 (pack32 a_h a_l) (pack32 b_h b_l) = (pack32 za_h za_l, pack32 zb_h zb_l)"
proof -
  obtain p_h p_l q_h q_l t_h t_l where e: "bmul32 a_h b_h = (p_h, p_l)" "bmul32 a_l b_l = (q_h, q_l)"
      "bmul32 (a_h XOR a_l) (b_h XOR b_l) = (t_h, t_l)" by (metis surj_pair)
  note P = e [THEN bmul32_pack]
  have z: "za_h = p_h" "za_l = p_l XOR (t_h XOR (p_h XOR q_h))" "zb_h = q_h XOR (t_l XOR (p_l XOR q_l))" "zb_l = q_l"
    using assms unfolding bmul32_karatsuba_def e Let_def prod.case prod.inject by blast+
  obtain hi lo where r: "bmul64 (pack32 a_h a_l) (pack32 b_h b_l) = (hi, lo)" by force
  have "pack64 hi lo = push_bit (32 + 32) (ucast (pack32 p_h p_l)) XOR
      push_bit 32 (ucast (pack32 t_h t_l XOR (pack32 p_h p_l XOR pack32 q_h q_l))) XOR ucast (pack32 q_h q_l)"
    unfolding bmul64_pack [OF r] pack_as_xor(2) [of a_h] pack_as_xor(2) [of b_h] karatsuba P
    by (simp add: clmul_lift clmul_lift(1) [of "a_h XOR a_l" "b_h XOR b_l", unfolded unsigned_xor_eq] unsigned_xor_eq)
  also have "\<dots> = pack64 (pack32 za_h za_l) (pack32 zb_h zb_l)"
    unfolding pack_xor z by (rule bit_word_eqI) (use bit_lt(2) in \<open>auto simp: bit_simps bit_pack32 bit_pack64\<close>)
  finally show ?thesis by (simp add: r pack_inject)
qed

text \<open>The reduction, on a product of 256 bits.\<close>

definition gf_reduce :: "256 word \<Rightarrow> cc_dunit" where
  "gf_reduce w = gf_reduce_64 (ucast (drop_bit 128 w)) (ucast w)"

lemma gf_reduce_xor: "gf_reduce (v XOR w) = gf_reduce v XOR gf_reduce w"
proof -
  have or: "push_bit 1 h OR drop_bit 127 l = push_bit 1 h XOR drop_bit 127 l" for h l :: cc_dunit
    by (rule bit_word_eqI; unfold bit_or_iff bit_xor_iff bit_push_bit_iff; auto simp: bit_simps dest: bit_lt)
  show ?thesis
    unfolding gf_reduce_def gf_reduce_64_def Let_def or
    by (simp add: unsigned_xor_eq push_bit_xor drop_bit_xor ac_simps)
qed

definition bxor :: "bool \<Rightarrow> bool \<Rightarrow> bool" where
  "bxor a b \<longleftrightarrow> a \<noteq> b"

lemma bxor_ac: "bxor a b = bxor b a" "bxor (bxor a b) c = bxor a (bxor b c)" "bxor b (bxor a c) = bxor a (bxor b c)"
  by (auto simp: bxor_def)

lemma bxor_simps [simp]: "bxor False a = a" "bxor a False = a" "bxor a a = False" "bxor a (bxor a b) = b"
  by (auto simp: bxor_def)

definition low_bit :: "256 word \<Rightarrow> nat \<Rightarrow> bool" where
  "low_bit w q \<longleftrightarrow> 0 < q \<and> q < 128 \<and> bit w (q - 1)"

definition folded_bit :: "256 word \<Rightarrow> nat \<Rightarrow> bool" where
  "folded_bit w q \<longleftrightarrow> q < 128 \<and> bxor (low_bit w q) (bxor (126 \<le> q \<and> low_bit w (q - 126)) (121 \<le> q \<and> low_bit w (q - 121)))"

lemma bit_gf_reduce:
  "p < 128 \<Longrightarrow> bit (gf_reduce w) p =
     bxor (bit w (127 + p)) (bxor (folded_bit w p) (bxor (folded_bit w (p + 1)) (bxor (folded_bit w (p + 2)) (folded_bit w (p + 7)))))"
proof -
  assume p: "p < 128"
  define lo where "lo = (ucast w :: cc_dunit)"
  have l: "bit (push_bit 1 lo) q = low_bit w q" for q
    unfolding bit_push_bit_iff by (auto simp: low_bit_def lo_def bit_simps)
  define l2 where "l2 = push_bit 1 lo XOR (push_bit 126 (push_bit 1 lo) XOR push_bit 121 (push_bit 1 lo))"
  have f: "bit l2 q = folded_bit w q" for q
    unfolding l2_def folded_bit_def bxor_def bit_xor_iff bit_push_bit_iff [of 126] bit_push_bit_iff [of 121] l
    by (auto simp: low_bit_def)
  have "bit (push_bit 1 (ucast (drop_bit 128 w)) OR drop_bit 127 lo :: cc_dunit) p = bit w (127 + p)"
    unfolding bit_or_iff bit_push_bit_iff using p by (cases p) (auto simp: lo_def bit_simps dest: bit_lt)
  then have "bit (gf_reduce w) p = bxor (bit w (127 + p)) (bxor (bit l2 p) (bxor (bit l2 (1 + p)) (bxor (bit l2 (2 + p)) (bit l2 (7 + p)))))"
    unfolding gf_reduce_def gf_reduce_64_def Let_def lo_def [symmetric] l2_def [symmetric] bit_xor_iff bit_drop_bit_eq comp_def bxor_def
    by simp
  then show ?thesis by (simp add: f add.commute)
qed

text \<open>Dividing by \<open>x\<close> before the reduction is the doubling of the standard after it.\<close>

lemma gf_reduce_half:
  assumes "\<not> bit w 0" "\<not> bit w 255"
  shows "gf_reduce (drop_bit 1 w) = gf_double (gf_reduce w)"
proof (rule bit_word_eqI)
  fix p assume "p < LENGTH(128)"
  then have p: "p < 128" by simp
  define v where "v = drop_bit 1 w"
  have w: "bit v q = bit w (q + 1)" for q by (simp add: v_def bit_drop_bit_eq)
  have l: "low_bit v q = (0 < q \<and> q < 128 \<and> bit w q)" for q
    by (cases q) (simp_all add: low_bit_def w)
  have R: "\<forall>i \<in> set [0..<128]. bit (0xe1000000000000000000000000000000 :: cc_dunit) i = (i \<in> {120, 125, 126, 127})" by code_simp
  have d: "bit (gf_double v) p = bxor (p < 127 \<and> bit v (p + 1)) (bit v 0 \<and> p \<in> {120, 125, 126, 127})" for v
    using R p bit_lt(3) [of v "Suc p"] by (auto simp: gf_double_def bxor_def bit_xor_iff bit_drop_bit_eq)
  show "bit (gf_reduce (drop_bit 1 w)) p = bit (gf_double (gf_reduce w)) p"
  proof (cases "p < 113")
    case True
    have "folded_bit v q = low_bit v q" if "q \<le> 120" for v q using that by (simp add: folded_bit_def)
    then have "folded_bit v p = low_bit v p" "folded_bit v (p + 1) = low_bit v (p + 1)" "folded_bit v (p + 2) = low_bit v (p + 2)"
      "folded_bit v (p + 7) = low_bit v (p + 7)" "folded_bit v (p + 1 + 1) = low_bit v (p + 1 + 1)" "folded_bit v (p + 1 + 2) = low_bit v (p + 1 + 2)"
      "folded_bit v (p + 1 + 7) = low_bit v (p + 1 + 7)" for v using True by simp_all
    note f = this
    have "bit (gf_double (gf_reduce w)) p = bit (gf_reduce w) (p + 1)" unfolding d using True by simp
    also have "\<dots> = bxor (bit w (128 + p)) (bxor (bit w p) (bxor (bit w (p + 1)) (bxor (bit w (p + 2)) (bit w (p + 7)))))"
      using True by (subst bit_gf_reduce; simp only: f; simp add: low_bit_def add.commute)
    also have "\<dots> = bit (gf_reduce v) p"
      using True assms(1) by (subst bit_gf_reduce; simp only: f l w; cases p; simp)
    finally show ?thesis by (simp only: v_def)
  next
    case False
    have "[113..<128] = [113, 114, 115, 116, 117, 118, 119, 120, 121, 122, 123, 124, 125, 126, 127]" by (simp add: upt_rec)
    moreover have "p \<in> set [113..<128]" using False p by (simp only: set_upt atLeastLessThan_iff) simp
    ultimately have "p = 113 \<or> p = 114 \<or> p = 115 \<or> p = 116 \<or> p = 117 \<or> p = 118 \<or> p = 119 \<or> p = 120 \<or> p = 121 \<or> p = 122 \<or>
      p = 123 \<or> p = 124 \<or> p = 125 \<or> p = 126 \<or> p = 127" by (simp only: set_simps insert_iff empty_iff simp_thms)
    then show ?thesis unfolding d v_def [symmetric] using assms
      by (elim disjE; hypsubst) (simp add: bit_gf_reduce w l folded_bit_def low_bit_def bxor_ac numeral_2_eq_2 [symmetric])+
  qed
qed

lemma gf_reduce_shifted: "j \<le> 127 \<Longrightarrow> gf_reduce (push_bit (127 - j) (ucast v)) = (gf_double ^^ j) v"
proof (induction j)
  case 0
  let ?w = "push_bit 127 (ucast v) :: 256 word"
  have "\<not> low_bit ?w q" for q by (cases q) (simp_all add: low_bit_def bit_push_bit_iff)
  then have "folded_bit ?w q = False" for q by (simp add: folded_bit_def)
  then have "bit (gf_reduce ?w) p = bit v p" if "p < 128" for p
    using that by (simp add: bit_gf_reduce bit_push_bit_iff bit_unsigned_iff)
  then show ?case by (intro bit_word_eqI) simp
next
  case (Suc j)
  let ?w = "push_bit (127 - j) (ucast v) :: 256 word"
  have "drop_bit 1 ?w = push_bit (127 - Suc j) (ucast v)"
    by (rule bit_word_eqI) (use Suc.prems bit_lt(3) [of v] in \<open>force simp: bit_simps\<close>)
  moreover have "\<not> bit ?w 0" "\<not> bit ?w 255" using Suc.prems bit_lt(3) [of v "128 + j"] by (auto simp: bit_simps)
  ultimately show ?case using gf_reduce_half [of ?w] Suc by simp
qed

lemma gf_product_loop_eq:
  "gf_product_loop n x y = (xsum n (\<lambda>j. if bit x (127 - j) then (gf_double ^^ j) y else 0), (gf_double ^^ n) y)"
  by (induction n) simp_all

lemma xsum_rev: "xsum n f = xsum n (\<lambda>i. f (n - 1 - i))"
proof (rule bit_word_eqI)
  fix p
  have "bij_betw (\<lambda>i. n - 1 - i) {i. i < n \<and> bit (f i) p} {i. i < n \<and> bit (f (n - 1 - i)) p}"
    by (rule bij_betw_byWitness [where f' = "\<lambda>i. n - 1 - i"]) auto
  then show "bit (xsum n f) p = bit (xsum n (\<lambda>i. f (n - 1 - i))) p" unfolding bit_xsum by (simp only: bij_betw_same_card)
qed

lemma xsum_extend: "(\<And>i. n \<le> i \<Longrightarrow> f i = 0) \<Longrightarrow> n \<le> m \<Longrightarrow> xsum m f = xsum n f"
  by (induction m) (auto simp: le_Suc_eq)

text \<open>The reduction of the product without carries is the product of the standard.\<close>

lemma gf_reduce_clmul: "gf_reduce (clmul (ucast x) (ucast y)) = gf_product x y"
proof -
  let ?f = "\<lambda>i. if bit x i then push_bit i (ucast y) else 0 :: 256 word"
  have "clmul (ucast x) (ucast y :: 256 word) = xsum 256 (\<lambda>i. if bit (ucast x :: 256 word) i then push_bit i (ucast y) else 0)" by (simp add: clmul_def)
  also have "\<dots> = xsum 256 ?f" by (rule xsum_cong) (simp add: bit_simps)
  also have "\<dots> = xsum 128 ?f" by (rule xsum_extend) (auto dest: bit_lt)
  also have "\<dots> = xsum 128 (\<lambda>i. ?f (128 - 1 - i))" by (rule xsum_rev)
  finally have "gf_reduce (clmul (ucast x) (ucast y)) = xsum 128 (\<lambda>i. gf_reduce (?f (128 - 1 - i)))"
    by (simp only:) (rule xsum_linear; simp add: gf_reduce_xor; simp add: gf_reduce_def gf_reduce_64_def)
  also have "\<dots> = xsum 128 (\<lambda>j. if bit x (127 - j) then (gf_double ^^ j) y else 0)"
  proof (rule xsum_cong)
    fix i :: nat assume "i < 128"
    moreover have "gf_reduce 0 = 0" by (simp add: gf_reduce_def gf_reduce_64_def)
    ultimately show "gf_reduce (?f (128 - 1 - i)) = (if bit x (127 - i) then (gf_double ^^ i) y else 0)"
      using gf_reduce_shifted [of i y] by simp
  qed
  finally show ?thesis by (simp only: gf_product_def gf_product_loop_eq fst_conv)
qed

text \<open>Both routines multiply as the standard says.\<close>

lemma gf_mult_64_product:
  "ccmode_gcm_gf_mult_64 a b = gf_store (gf_product (gf_load a) (gf_load b))"
proof -
  define a_hi a_lo b_hi b_lo where ab: "a_hi = cc_load64_be a" "a_lo = cc_load64_be (drop 8 a)" "b_hi = cc_load64_be b"
    "b_lo = cc_load64_be (drop 8 b)"
  obtain p_h p_l q_h q_l t_h t_l where e: "bmul64 a_hi b_hi = (p_h, p_l)" "bmul64 a_lo b_lo = (q_h, q_l)"
      "bmul64 (a_hi XOR a_lo) (b_hi XOR b_lo) = (t_h, t_l)" by (metis surj_pair)
  note P = e [THEN bmul64_pack]
  define z_hi z_lo where z: "z_hi = (push_bit 64 (ucast p_h) OR ucast (p_l XOR (t_h XOR (p_h XOR q_h))) :: cc_dunit)"
    "z_lo = ((push_bit 64 (ucast q_h) OR ucast q_l) XOR push_bit 64 (ucast (t_l XOR (p_l XOR q_l))) :: cc_dunit)"
  have m: "ccmode_gcm_gf_mult_64 a b = gf_store (gf_reduce_64 z_hi z_lo)"
    unfolding ccmode_gcm_gf_mult_64_def ab [symmetric] e Let_def prod.case z gf_store_def ..
  define Z where "Z = clmul (ucast (pack64 a_hi a_lo)) (ucast (pack64 b_hi b_lo) :: 256 word)"
  have Z: "Z = push_bit (64 + 64) (ucast (pack64 p_h p_l)) XOR
      push_bit 64 (ucast (pack64 t_h t_l XOR (pack64 p_h p_l XOR pack64 q_h q_l))) XOR ucast (pack64 q_h q_l)"
    unfolding Z_def pack_as_xor(1) [of a_hi] pack_as_xor(1) [of b_hi] karatsuba P
    by (simp add: clmul_lift clmul_lift(2) [of "a_hi XOR a_lo" "b_hi XOR b_lo", unfolded unsigned_xor_eq] unsigned_xor_eq)
  have h: "ucast (drop_bit 128 Z) = z_hi"
    unfolding Z pack_xor z by (rule bit_word_eqI) (use bit_lt(1) in \<open>auto simp: bit_simps bit_pack64\<close>)
  have l: "ucast Z = z_lo"
    unfolding Z pack_xor z by (rule bit_word_eqI) (use bit_lt(1) in \<open>auto simp: bit_simps bit_pack64\<close>)
  have "gf_load a = pack64 a_hi a_lo" "gf_load b = pack64 b_hi b_lo" by (simp_all only: gf_load_def pack64_def ab)
  then have "gf_product (gf_load a) (gf_load b) = gf_reduce Z" by (simp only: Z_def gf_reduce_clmul)
  then show ?thesis by (simp only: m gf_reduce_def h l)
qed

lemma load_pack: "8 \<le> length a \<Longrightarrow> cc_load64_be a = pack32 (cc_load32_be a) (cc_load32_be (drop 4 a))"
proof -
  assume a: "8 \<le> length a"
  have u: "push_bit 32 (ucast (push_bit k (ucast b) :: u32)) = (push_bit (32 + k) (ucast b) :: cc_unit)"
    "ucast (push_bit k (ucast b) :: u32) = (push_bit k (ucast b) :: cc_unit)" if "k \<le> 24" for b :: byte and k
    by (rule bit_word_eqI; use that bit_imp_le_length [of b] in \<open>force simp: bit_simps\<close>)+
  have z: "push_bit 32 (ucast (ucast b :: u32)) = (push_bit 32 (ucast b) :: cc_unit)" "ucast (ucast b :: u32) = (ucast b :: cc_unit)" for b :: byte
    using u [of 0 b] by simp_all
  show ?thesis
    using a by (simp add: cc_load64_be_def cc_load32_be_def pack32_def unsigned_or_eq push_bit_or u z or.assoc del: push_bit_word_beyond)
qed

lemma gf_reduce_32_eq:
  assumes "gf_reduce_32 a b c d = (h, l)"
  shows "gf_reduce_64 (pack64 a b) (pack64 c d) = pack64 h l"
proof -
  define x y u v where xy: "x = push_bit 1 a OR drop_bit 63 b" "y = push_bit 1 b OR drop_bit 63 c" "u = push_bit 1 c OR drop_bit 63 d"
    "v = push_bit 1 d"
  define u' where u': "u' = u XOR (push_bit 62 v XOR push_bit 57 v)"
  have hl: "h = x XOR (u' XOR drop_bit 1 u' XOR drop_bit 2 u' XOR drop_bit 7 u')"
    "l = (y XOR (v XOR drop_bit 1 v XOR drop_bit 2 v XOR drop_bit 7 v)) XOR (push_bit 63 u' XOR push_bit 62 u' XOR push_bit 57 u')"
    using assms by (simp_all only: gf_reduce_32_def Let_def xy u' prod.inject)
  have 1: "push_bit 1 (pack64 a b) OR drop_bit 127 (pack64 c d) = pack64 x y"
    unfolding xy by (rule bit_word_eqI) (unfold bit_or_iff bit_push_bit_iff bit_drop_bit_eq comp_def bit_pack64, auto dest: bit_lt)
  have 2: "push_bit 1 (pack64 c d) = pack64 u v"
    unfolding xy by (rule bit_word_eqI) (unfold bit_or_iff bit_push_bit_iff bit_drop_bit_eq comp_def bit_pack64, auto dest: bit_lt)
  have 3: "pack64 u v XOR (push_bit 126 (pack64 u v) XOR push_bit 121 (pack64 u v)) = pack64 u' v"
    unfolding u' by (rule bit_word_eqI) (use bit_lt(1) in \<open>auto simp: bit_simps bit_pack64\<close>)
  have 4: "drop_bit k (pack64 u' v) = pack64 (drop_bit k u') (drop_bit k v XOR push_bit (64 - k) u')" if k: "0 < k" "k \<le> 64" for k
  proof (rule bit_word_eqI)
    fix n
    have v: "\<not> bit v (k + n)" if "\<not> k + n < 64" using that bit_lt(1) by blast
    show "bit (drop_bit k (pack64 u' v)) n = bit (pack64 (drop_bit k u') (drop_bit k v XOR push_bit (64 - k) u')) n"
    proof (cases "n < 64")
      case True
      then have "k + n < 128" "64 - k \<le> n \<longleftrightarrow> \<not> k + n < 64" "n - (64 - k) = k + n - 64" using k by linarith+
      then show ?thesis using True v by (cases "k + n < 64") (simp_all add: bit_xor_iff bit_push_bit_iff bit_drop_bit_eq bit_pack64)
    next
      case False
      then have "\<not> k + n < 64" "k + n - 64 = k + (n - 64)" by simp_all
      then show ?thesis using False bit_lt(1) [of u' "k + (n - 64)"] by (auto simp: bit_drop_bit_eq bit_pack64)
    qed
  qed
  show ?thesis unfolding gf_reduce_64_def Let_def 1 2 3 hl
    by (simp add: 4 pack_xor pack_inject ac_simps)
qed

lemma gf_mult_32_eq:
  assumes "length a = 16" "length b = 16"
  shows "ccmode_gcm_gf_mult_32 a b = ccmode_gcm_gf_mult_64 a b"
proof -
  define a_lo_l a_lo_h a_hi_l a_hi_h b_lo_l b_lo_h b_hi_l b_hi_h where ab:
    "a_lo_l = cc_load32_be (drop 12 a)" "a_lo_h = cc_load32_be (drop 8 a)" "a_hi_l = cc_load32_be (drop 4 a)" "a_hi_h = cc_load32_be a"
    "b_lo_l = cc_load32_be (drop 12 b)" "b_lo_h = cc_load32_be (drop 8 b)" "b_hi_l = cc_load32_be (drop 4 b)" "b_hi_h = cc_load32_be b"
  have l: "cc_load64_be a = pack32 a_hi_h a_hi_l" "cc_load64_be (drop 8 a) = pack32 a_lo_h a_lo_l"
    "cc_load64_be b = pack32 b_hi_h b_hi_l" "cc_load64_be (drop 8 b) = pack32 b_lo_h b_lo_l"
    using assms load_pack [of a] load_pack [of "drop 8 a"] load_pack [of b] load_pack [of "drop 8 b"] by (simp_all add: ab)
  obtain z0a_h z0a_l z0b_h z0b_l z2a_h z2a_l z2b_h z2b_l z1a_h z1a_l z1b_h z1b_l where k:
    "bmul32_karatsuba a_lo_h a_lo_l b_lo_h b_lo_l = ((z0a_h, z0a_l), (z0b_h, z0b_l))"
    "bmul32_karatsuba a_hi_h a_hi_l b_hi_h b_hi_l = ((z2a_h, z2a_l), (z2b_h, z2b_l))"
    "bmul32_karatsuba (a_hi_h XOR a_lo_h) (a_hi_l XOR a_lo_l) (b_hi_h XOR b_lo_h) (b_hi_l XOR b_lo_l) = ((z1a_h, z1a_l), (z1b_h, z1b_l))"
    by (metis surj_pair)
  define x1 x2 x3 x4 where x: "x1 = pack32 z2a_h z2a_l"
    "x2 = pack32 z2b_h z2b_l XOR pack32 (z1a_h XOR (z0a_h XOR z2a_h)) (z1a_l XOR (z0a_l XOR z2a_l))"
    "x3 = pack32 z0a_h z0a_l XOR pack32 (z1b_h XOR (z0b_h XOR z2b_h)) (z1b_l XOR (z0b_l XOR z2b_l))" "x4 = pack32 z0b_h z0b_l"
  obtain h l' where r: "gf_reduce_32 x1 x2 x3 x4 = (h, l')" by force
  have m32: "ccmode_gcm_gf_mult_32 a b = cc_store64_be h @ cc_store64_be l'"
    unfolding ccmode_gcm_gf_mult_32_def ab [symmetric] Let_def k prod.case x [symmetric] r ..
  have hi: "push_bit 64 (ucast (pack32 z2a_h z2a_l)) OR ucast (pack32 z2b_h z2b_l XOR
      (pack32 z1a_h z1a_l XOR (pack32 z2a_h z2a_l XOR pack32 z0a_h z0a_l))) = pack64 x1 x2"
    unfolding x pack64_def pack_xor by (simp add: ac_simps)
  have lo: "(push_bit 64 (ucast (pack32 z0a_h z0a_l)) OR ucast (pack32 z0b_h z0b_l)) XOR
      push_bit 64 (ucast (pack32 z1b_h z1b_l XOR (pack32 z2b_h z2b_l XOR pack32 z0b_h z0b_l))) = pack64 x3 x4"
  proof -
    have "push_bit 64 (ucast w) = pack64 w 0" for w by (simp add: pack64_def)
    then show ?thesis unfolding x pack64_def [symmetric] pack_xor by (simp add: pack_xor ac_simps)
  qed
  have "ccmode_gcm_gf_mult_64 a b = gf_store (gf_reduce_64 (pack64 x1 x2) (pack64 x3 x4))"
    unfolding ccmode_gcm_gf_mult_64_def Let_def l pack_xor k [THEN bmul32_karatsuba_eq] prod.case hi [unfolded pack_xor] lo [unfolded pack_xor] gf_store_def ..
  moreover have "gf_store (pack64 h l') = cc_store64_be h @ cc_store64_be l'"
  proof -
    have "ucast (drop_bit 64 (pack64 h l')) = h" "ucast (pack64 h l') = l'"
      by (rule bit_word_eqI; auto simp: bit_simps bit_pack64)+
    then show ?thesis by (simp only: gf_store_def)
  qed
  ultimately show ?thesis by (simp only: m32 gf_reduce_32_eq [OF r])
qed

end
