(* ===== verification/Ccmode_Gcm.thy ===== *)
theory Ccmode_Gcm
  imports Ccmode_Gcm_Mult Ccmode_Stream Ccaes
begin

unbundle bit_operations_syntax

text \<open>
  Galois/counter mode (\<open>ccmode_gcm_*.c\<close>, \<open>ccgcm_*.c\<close>) over any cipher with blocks of 16 bytes.  A context goes
  through the states of \<open>gcm_state\<close>: after a reset it waits for an initial value, then takes additional data, then
  text, and after the tag nothing until the next reset.  \<open>gcm_session\<close> says what a context holds in the middle
  of a message.
\<close>

section \<open>Contexts\<close>

definition CCMODE_GCM_STATE_IV :: nat where "CCMODE_GCM_STATE_IV = 1"
definition CCMODE_GCM_STATE_AAD :: nat where "CCMODE_GCM_STATE_AAD = 2"
definition CCMODE_GCM_STATE_TEXT :: nat where "CCMODE_GCM_STATE_TEXT = 3"
definition CCMODE_GCM_STATE_FINAL :: nat where "CCMODE_GCM_STATE_FINAL = 4"

definition CCMODE_GCM_DECRYPTOR :: nat where "CCMODE_GCM_DECRYPTOR = 78647"
definition CCMODE_GCM_ENCRYPTOR :: nat where "CCMODE_GCM_ENCRYPTOR = 4073947"

definition CCMODE_INVALID_INPUT :: int where "CCMODE_INVALID_INPUT = -67"
definition CCMODE_INVALID_CALL_SEQUENCE :: int where "CCMODE_INVALID_CALL_SEQUENCE = -68"
definition CCMODE_INTEGRITY_FAILURE :: int where "CCMODE_INTEGRITY_FAILURE = -69"

definition CCGCM_TEXT_MAX_NBYTES :: nat where "CCGCM_TEXT_MAX_NBYTES = 2 ^ 36 - 32"

definition CCGCM_FLAGS_INIT_WITH_IV :: "16 word" where "CCGCM_FLAGS_INIT_WITH_IV = 1"

record 'k ccgcm_ctx =
  gcm_H :: bytes
  gcm_X :: bytes
  gcm_Y :: bytes
  gcm_Y_0 :: bytes
  gcm_buf :: bytes
  gcm_state :: nat
  gcm_flags :: "16 word"
  gcm_buf_nbytes :: u32
  gcm_aad_nbytes :: cc_unit
  gcm_text_nbytes :: cc_unit
  gcm_ecb :: "'k ccmode_ecb"
  gcm_ecb_key :: 'k
  gcm_encdec :: nat

record 'k ccmode_gcm =
  gcm_block_size :: nat
  gcm_init :: "'k ccgcm_ctx \<Rightarrow> nat \<Rightarrow> bytes \<Rightarrow> int \<times> 'k ccgcm_ctx"
  gcm_set_iv :: "'k ccgcm_ctx \<Rightarrow> nat \<Rightarrow> bytes option \<Rightarrow> int \<times> 'k ccgcm_ctx"
  gcm_gmac :: "'k ccgcm_ctx \<Rightarrow> nat \<Rightarrow> bytes \<Rightarrow> int \<times> 'k ccgcm_ctx"
  gcm_gcm :: "'k ccgcm_ctx \<Rightarrow> nat \<Rightarrow> bytes \<Rightarrow> int \<times> 'k ccgcm_ctx \<times> bytes"
  gcm_finalize :: "'k ccgcm_ctx \<Rightarrow> nat \<Rightarrow> bytes \<Rightarrow> int \<times> 'k ccgcm_ctx \<times> bytes"
  gcm_reset :: "'k ccgcm_ctx \<Rightarrow> int \<times> 'k ccgcm_ctx"

section \<open>Operations\<close>

definition ccmode_gcm_mult_h :: "'k ccgcm_ctx \<Rightarrow> bytes \<Rightarrow> bytes" where
  "ccmode_gcm_mult_h key I = ccmode_gcm_gf_mult (gcm_H key) I"

definition ccmode_gcm_update_pad :: "'k ccgcm_ctx \<Rightarrow> 'k ccgcm_ctx" where
  "ccmode_gcm_update_pad key =
     (let key = key\<lparr>gcm_Y := take 12 (gcm_Y key) @ inc_uint (drop 12 (gcm_Y key)) 4\<rparr>
      in key\<lparr>gcm_buf := snd (ecb_ecb (gcm_ecb key) (gcm_ecb_key key) 1 (gcm_Y key))\<rparr>)"

definition ccmode_gcm_aad_finalize :: "'k ccgcm_ctx \<Rightarrow> 'k ccgcm_ctx" where
  "ccmode_gcm_aad_finalize key =
     (if gcm_state key = CCMODE_GCM_STATE_AAD
      then let key = (if gcm_aad_nbytes key mod 16 > 0 then key\<lparr>gcm_X := ccmode_gcm_mult_h key (gcm_X key)\<rparr> else key)
           in key\<lparr>gcm_state := CCMODE_GCM_STATE_TEXT\<rparr>
      else key)"

definition ccmode_gcm_reset :: "'k ccgcm_ctx \<Rightarrow> int \<times> 'k ccgcm_ctx" where
  "ccmode_gcm_reset key =
     (0, key\<lparr>gcm_X := replicate 16 0, gcm_buf := replicate 16 0, gcm_buf_nbytes := 0, gcm_state := CCMODE_GCM_STATE_IV,
       gcm_aad_nbytes := 0, gcm_text_nbytes := 0\<rparr>)"

text \<open>The code of \<open>ecb->init\<close> is dropped.\<close>

definition ccmode_gcm_init :: "'k ccmode_ecb \<Rightarrow> nat \<Rightarrow> 'k ccgcm_ctx \<Rightarrow> nat \<Rightarrow> bytes \<Rightarrow> int \<times> 'k ccgcm_ctx" where
  "ccmode_gcm_init ecb encdec key rawkey_nbytes rawkey =
     (if ecb_block_size ecb \<noteq> 16 then (-1, key)
      else let key = key\<lparr>gcm_ecb := ecb, gcm_encdec := encdec\<rparr>;
               (_, k) = ecb_init ecb (gcm_ecb_key key) rawkey_nbytes rawkey;
               key = key\<lparr>gcm_ecb_key := k, gcm_flags := 0\<rparr>;
               (_, key) = ccmode_gcm_reset key
           in (0, key\<lparr>gcm_H := snd (ecb_ecb ecb (gcm_ecb_key key) 1 (gcm_X key))\<rparr>))"

text \<open>\<open>cc_xor(n, X + off, X + off, data)\<close> on a part of a block.\<close>

definition xor_at :: "nat \<Rightarrow> nat \<Rightarrow> bytes \<Rightarrow> bytes \<Rightarrow> bytes" where
  "xor_at off n X data = take off X @ cc_xor n (drop off X) data @ drop (off + n) X"

text \<open>The loops over whole blocks; what is left of the input comes back.\<close>

function gcm_absorb_loop :: "'k ccgcm_ctx \<Rightarrow> bytes \<Rightarrow> nat \<Rightarrow> bytes \<Rightarrow> bytes \<times> nat \<times> bytes" where
  "gcm_absorb_loop key Y nbytes data =
     (if nbytes \<ge> 16
      then gcm_absorb_loop key (ccmode_gcm_mult_h key (cc_xor 16 Y data)) (nbytes - 16) (drop 16 data)
      else (Y, nbytes, data))"
  by pat_completeness auto
termination
  by (relation "measure (\<lambda>(key, Y, nbytes, data). nbytes)") auto

definition ccmode_gcm_set_iv :: "'k ccgcm_ctx \<Rightarrow> nat \<Rightarrow> bytes option \<Rightarrow> int \<times> 'k ccgcm_ctx" where
  "ccmode_gcm_set_iv key iv_nbytes iv =
     (if gcm_state key \<noteq> CCMODE_GCM_STATE_IV \<or> gcm_flags key AND CCGCM_FLAGS_INIT_WITH_IV \<noteq> 0 \<or> iv_nbytes = 0 \<or> iv = None
      then (CCMODE_INVALID_CALL_SEQUENCE, key)
      else let Y = (if iv_nbytes = 12 then take 12 (the iv) @ cc_store32_be 1
                    else let buf = replicate 8 0 @ cc_store64_be (of_nat (iv_nbytes * 8));
                             (Y, n, iv_bytes) = gcm_absorb_loop key (replicate 16 0) iv_nbytes (the iv);
                             Y = (if n > 0 then ccmode_gcm_mult_h key (xor_at 0 n Y iv_bytes) else Y)
                         in ccmode_gcm_mult_h key (cc_xor 16 Y buf));
               key = ccmode_gcm_update_pad (key\<lparr>gcm_Y := Y, gcm_Y_0 := Y\<rparr>)
           in (0, key\<lparr>gcm_state := CCMODE_GCM_STATE_AAD\<rparr>))"

text \<open>
  Each of the three calls that take data has three parts: \<open>finish a partial block, if possible\<close>, which comes back with
  the fill of the block and the input that is left; the loop over whole blocks; the remainder.
\<close>

definition gcm_aad_partial :: "'k ccgcm_ctx \<Rightarrow> nat \<Rightarrow> nat \<Rightarrow> bytes \<Rightarrow> 'k ccgcm_ctx \<times> nat \<times> nat \<times> bytes" where
  "gcm_aad_partial key X_nbytes nbytes data =
     (let X_nbytes_needed = 16 - X_nbytes
      in if X_nbytes > 0 \<and> nbytes \<ge> X_nbytes_needed
         then (key\<lparr>gcm_X := ccmode_gcm_mult_h key (xor_at X_nbytes X_nbytes_needed (gcm_X key) data),
                 gcm_aad_nbytes := gcm_aad_nbytes key + of_nat X_nbytes_needed\<rparr>,
               0, nbytes - X_nbytes_needed, drop X_nbytes_needed data)
         else (key, X_nbytes, nbytes, data))"

function gcm_aad_loop :: "'k ccgcm_ctx \<Rightarrow> nat \<Rightarrow> bytes \<Rightarrow> 'k ccgcm_ctx \<times> nat \<times> bytes" where
  "gcm_aad_loop key nbytes data =
     (if nbytes \<ge> 16
      then gcm_aad_loop (key\<lparr>gcm_X := ccmode_gcm_mult_h key (cc_xor 16 (gcm_X key) data),
             gcm_aad_nbytes := gcm_aad_nbytes key + 16\<rparr>) (nbytes - 16) (drop 16 data)
      else (key, nbytes, data))"
  by pat_completeness auto
termination
  by (relation "measure (\<lambda>(key, nbytes, data). nbytes)") auto

definition ccmode_gcm_aad :: "'k ccgcm_ctx \<Rightarrow> nat \<Rightarrow> bytes \<Rightarrow> int \<times> 'k ccgcm_ctx" where
  "ccmode_gcm_aad key nbytes data =
     (let X_nbytes = unat (gcm_aad_nbytes key mod 16)
      in if gcm_state key \<noteq> CCMODE_GCM_STATE_AAD then (CCMODE_INVALID_CALL_SEQUENCE, key)
         else let (key, X_nbytes, nbytes, data) = gcm_aad_partial key X_nbytes nbytes data;
                  (key, nbytes, data) = (if X_nbytes = 0 then gcm_aad_loop key nbytes data else (key, nbytes, data))
              in if nbytes > 0
                 then (0, key\<lparr>gcm_X := xor_at X_nbytes nbytes (gcm_X key) data, gcm_aad_nbytes := gcm_aad_nbytes key + of_nat nbytes\<rparr>)
                 else (0, key))"

text \<open>Encryption authenticates what it writes.\<close>

definition gcm_encrypt_partial :: "'k ccgcm_ctx \<Rightarrow> nat \<Rightarrow> nat \<Rightarrow> bytes \<Rightarrow> 'k ccgcm_ctx \<times> nat \<times> nat \<times> bytes \<times> bytes" where
  "gcm_encrypt_partial key Xpad_nbytes nbytes ptext =
     (let Xpad_nbytes_needed = 16 - Xpad_nbytes
      in if Xpad_nbytes > 0 \<and> nbytes \<ge> Xpad_nbytes_needed
         then let ctext = cc_xor Xpad_nbytes_needed ptext (drop Xpad_nbytes (gcm_buf key));
                  key = key\<lparr>gcm_X := ccmode_gcm_mult_h key (xor_at Xpad_nbytes Xpad_nbytes_needed (gcm_X key) ctext),
                    gcm_text_nbytes := gcm_text_nbytes key + of_nat Xpad_nbytes_needed\<rparr>
              in (ccmode_gcm_update_pad key, 0, nbytes - Xpad_nbytes_needed, drop Xpad_nbytes_needed ptext, ctext)
         else (key, Xpad_nbytes, nbytes, ptext, []))"

function gcm_encrypt_loop :: "'k ccgcm_ctx \<Rightarrow> nat \<Rightarrow> bytes \<Rightarrow> 'k ccgcm_ctx \<times> nat \<times> bytes \<times> bytes" where
  "gcm_encrypt_loop key nbytes ptext =
     (if nbytes \<ge> 16
      then let ctext = cc_xor 16 ptext (gcm_buf key);
               key = key\<lparr>gcm_X := ccmode_gcm_mult_h key (cc_xor 16 (gcm_X key) ctext), gcm_text_nbytes := gcm_text_nbytes key + 16\<rparr>;
               (key, nbytes, ptext, rest) = gcm_encrypt_loop (ccmode_gcm_update_pad key) (nbytes - 16) (drop 16 ptext)
           in (key, nbytes, ptext, ctext @ rest)
      else (key, nbytes, ptext, []))"
  by pat_completeness auto
termination
  by (relation "measure (\<lambda>(key, nbytes, ptext). nbytes)") auto

definition ccmode_gcm_encrypt :: "'k ccgcm_ctx \<Rightarrow> nat \<Rightarrow> bytes \<Rightarrow> int \<times> 'k ccgcm_ctx \<times> bytes" where
  "ccmode_gcm_encrypt key nbytes ptext =
     (let Xpad_nbytes = unat (gcm_text_nbytes key mod 16);
          key = ccmode_gcm_aad_finalize key
      in if gcm_state key \<noteq> CCMODE_GCM_STATE_TEXT then (CCMODE_INVALID_CALL_SEQUENCE, key, [])
         else if \<not> unat (- 1 - gcm_text_nbytes key) \<ge> nbytes then (CCMODE_INVALID_INPUT, key, [])
         else if \<not> unat (gcm_text_nbytes key + of_nat nbytes) \<le> CCGCM_TEXT_MAX_NBYTES then (CCMODE_INVALID_INPUT, key, [])
         else let (key, Xpad_nbytes, nbytes, ptext, ctext1) = gcm_encrypt_partial key Xpad_nbytes nbytes ptext;
                  (key, nbytes, ptext, ctext2) =
                    (if Xpad_nbytes = 0 then gcm_encrypt_loop key nbytes ptext else (key, nbytes, ptext, []));
                  (key, ctext3) =
                    (if nbytes > 0
                     then let ctext = cc_xor nbytes ptext (drop Xpad_nbytes (gcm_buf key))
                          in (key\<lparr>gcm_X := xor_at Xpad_nbytes nbytes (gcm_X key) ctext,
                                gcm_text_nbytes := gcm_text_nbytes key + of_nat nbytes\<rparr>, ctext)
                     else (key, []))
              in (0, key, ctext1 @ ctext2 @ ctext3))"

text \<open>Decryption authenticates what it reads.\<close>

definition gcm_decrypt_partial :: "'k ccgcm_ctx \<Rightarrow> nat \<Rightarrow> nat \<Rightarrow> bytes \<Rightarrow> 'k ccgcm_ctx \<times> nat \<times> nat \<times> bytes \<times> bytes" where
  "gcm_decrypt_partial key Xpad_nbytes nbytes ctext =
     (let Xpad_nbytes_needed = 16 - Xpad_nbytes
      in if Xpad_nbytes > 0 \<and> nbytes \<ge> Xpad_nbytes_needed
         then let key = key\<lparr>gcm_X := ccmode_gcm_mult_h key (xor_at Xpad_nbytes Xpad_nbytes_needed (gcm_X key) ctext)\<rparr>;
                  ptext = cc_xor Xpad_nbytes_needed ctext (drop Xpad_nbytes (gcm_buf key));
                  key = key\<lparr>gcm_text_nbytes := gcm_text_nbytes key + of_nat Xpad_nbytes_needed\<rparr>
              in (ccmode_gcm_update_pad key, 0, nbytes - Xpad_nbytes_needed, drop Xpad_nbytes_needed ctext, ptext)
         else (key, Xpad_nbytes, nbytes, ctext, []))"

function gcm_decrypt_loop :: "'k ccgcm_ctx \<Rightarrow> nat \<Rightarrow> bytes \<Rightarrow> 'k ccgcm_ctx \<times> nat \<times> bytes \<times> bytes" where
  "gcm_decrypt_loop key nbytes ctext =
     (if nbytes \<ge> 16
      then let key = key\<lparr>gcm_X := ccmode_gcm_mult_h key (cc_xor 16 (gcm_X key) ctext)\<rparr>;
               ptext = cc_xor 16 ctext (gcm_buf key);
               key = key\<lparr>gcm_text_nbytes := gcm_text_nbytes key + 16\<rparr>;
               (key, nbytes, ctext, rest) = gcm_decrypt_loop (ccmode_gcm_update_pad key) (nbytes - 16) (drop 16 ctext)
           in (key, nbytes, ctext, ptext @ rest)
      else (key, nbytes, ctext, []))"
  by pat_completeness auto
termination
  by (relation "measure (\<lambda>(key, nbytes, ctext). nbytes)") auto

definition ccmode_gcm_decrypt :: "'k ccgcm_ctx \<Rightarrow> nat \<Rightarrow> bytes \<Rightarrow> int \<times> 'k ccgcm_ctx \<times> bytes" where
  "ccmode_gcm_decrypt key nbytes ctext =
     (let Xpad_nbytes = unat (gcm_text_nbytes key mod 16);
          key = ccmode_gcm_aad_finalize key
      in if gcm_state key \<noteq> CCMODE_GCM_STATE_TEXT then (CCMODE_INVALID_CALL_SEQUENCE, key, [])
         else if \<not> unat (- 1 - gcm_text_nbytes key) \<ge> nbytes then (CCMODE_INVALID_INPUT, key, [])
         else if \<not> unat (gcm_text_nbytes key + of_nat nbytes) \<le> CCGCM_TEXT_MAX_NBYTES then (CCMODE_INVALID_INPUT, key, [])
         else let (key, Xpad_nbytes, nbytes, ctext, ptext1) = gcm_decrypt_partial key Xpad_nbytes nbytes ctext;
                  (key, nbytes, ctext, ptext2) =
                    (if Xpad_nbytes = 0 then gcm_decrypt_loop key nbytes ctext else (key, nbytes, ctext, []));
                  (key, ptext3) =
                    (if nbytes > 0
                     then (key\<lparr>gcm_X := xor_at Xpad_nbytes nbytes (gcm_X key) ctext,
                             gcm_text_nbytes := gcm_text_nbytes key + of_nat nbytes\<rparr>,
                           cc_xor nbytes ctext (drop Xpad_nbytes (gcm_buf key)))
                     else (key, []))
              in (0, key, ptext1 @ ptext2 @ ptext3))"

text \<open>The tag buffer is read when decrypting, and written in both directions.\<close>

definition ccmode_gcm_finalize :: "'k ccgcm_ctx \<Rightarrow> nat \<Rightarrow> bytes \<Rightarrow> int \<times> 'k ccgcm_ctx \<times> bytes" where
  "ccmode_gcm_finalize key tag_nbytes tag =
     (let key = ccmode_gcm_aad_finalize key
      in if gcm_state key \<noteq> CCMODE_GCM_STATE_TEXT then (CCMODE_INVALID_CALL_SEQUENCE, key, tag)
         else let key = (if gcm_text_nbytes key mod 16 > 0 then key\<lparr>gcm_X := ccmode_gcm_mult_h key (gcm_X key)\<rparr> else key);
                  aad_nbits = gcm_aad_nbytes key * 8;
                  text_nbits = gcm_text_nbytes key * 8;
                  key = key\<lparr>gcm_buf := cc_store64_be aad_nbits @ cc_store64_be text_nbits\<rparr>;
                  key = key\<lparr>gcm_X := ccmode_gcm_mult_h key (cc_xor 16 (gcm_X key) (gcm_buf key))\<rparr>;
                  key = key\<lparr>gcm_buf := snd (ecb_ecb (gcm_ecb key) (gcm_ecb_key key) 1 (gcm_Y_0 key))\<rparr>;
                  out_tag = cc_xor 16 (gcm_X key) (gcm_buf key);
                  tag_nbytes = min tag_nbytes 16;
                  rc = (if gcm_encdec key = CCMODE_GCM_DECRYPTOR
                        then let rc = cc_cmp_safe tag_nbytes out_tag tag;
                                 rc = uint (cc_heaviside_step (of_int rc))
                             in CCMODE_INTEGRITY_FAILURE AND (- rc)
                        else 0)
              in (rc, key\<lparr>gcm_state := CCMODE_GCM_STATE_FINAL\<rparr>, take tag_nbytes out_tag @ drop tag_nbytes tag))"

definition CCMODE_FACTORY_GCM_ENCRYPT :: "'k ccmode_ecb \<Rightarrow> 'k ccmode_gcm" where
  "CCMODE_FACTORY_GCM_ENCRYPT ecb_encrypt =
     \<lparr>gcm_block_size = 1, gcm_init = ccmode_gcm_init ecb_encrypt CCMODE_GCM_ENCRYPTOR, gcm_set_iv = ccmode_gcm_set_iv,
      gcm_gmac = ccmode_gcm_aad, gcm_gcm = ccmode_gcm_encrypt, gcm_finalize = ccmode_gcm_finalize, gcm_reset = ccmode_gcm_reset\<rparr>"

definition CCMODE_FACTORY_GCM_DECRYPT :: "'k ccmode_ecb \<Rightarrow> 'k ccmode_gcm" where
  "CCMODE_FACTORY_GCM_DECRYPT ecb_encrypt =
     \<lparr>gcm_block_size = 1, gcm_init = ccmode_gcm_init ecb_encrypt CCMODE_GCM_DECRYPTOR, gcm_set_iv = ccmode_gcm_set_iv,
      gcm_gmac = ccmode_gcm_aad, gcm_gcm = ccmode_gcm_decrypt, gcm_finalize = ccmode_gcm_finalize, gcm_reset = ccmode_gcm_reset\<rparr>"

definition ccgcm_init_with_iv :: "'k ccmode_gcm \<Rightarrow> 'k ccgcm_ctx \<Rightarrow> nat \<Rightarrow> bytes \<Rightarrow> bytes \<Rightarrow> int \<times> 'k ccgcm_ctx" where
  "ccgcm_init_with_iv mode ctx key_nbytes key iv =
     (let (rc, ctx) = gcm_init mode ctx key_nbytes key;
          (rc, ctx) = (if rc = 0 then gcm_set_iv mode ctx 12 (Some iv) else (rc, ctx))
      in (rc, if rc = 0 then ctx\<lparr>gcm_flags := gcm_flags ctx OR CCGCM_FLAGS_INIT_WITH_IV\<rparr> else ctx))"

text \<open>The result is the code, the context and the initial value written to \<open>iv\<close>.\<close>

definition ccgcm_inc_iv :: "'k ccgcm_ctx \<Rightarrow> bytes \<Rightarrow> int \<times> 'k ccgcm_ctx \<times> bytes" where
  "ccgcm_inc_iv ctx iv =
     (if gcm_state ctx \<noteq> CCMODE_GCM_STATE_IV \<or> gcm_flags ctx AND CCGCM_FLAGS_INIT_WITH_IV = 0
      then (CCMODE_INVALID_CALL_SEQUENCE, ctx, iv)
      else let Y0 = take 4 (gcm_Y_0 ctx) @ inc_uint (drop 4 (gcm_Y_0 ctx)) 8;
               ctx = ccmode_gcm_update_pad (ctx\<lparr>gcm_Y_0 := Y0, gcm_Y := take 16 Y0\<rparr>)
           in (0, ctx\<lparr>gcm_state := CCMODE_GCM_STATE_AAD\<rparr>, take 12 Y0))"

definition ccgcm_set_iv_legacy :: "'k ccmode_gcm \<Rightarrow> 'k ccgcm_ctx \<Rightarrow> nat \<Rightarrow> bytes option \<Rightarrow> int \<times> 'k ccgcm_ctx" where
  "ccgcm_set_iv_legacy mode key iv_nbytes iv =
     (if iv_nbytes = 0 \<or> iv = None
      then if gcm_state key \<noteq> CCMODE_GCM_STATE_IV then (-1, key)
           else let key = ccmode_gcm_update_pad (key\<lparr>gcm_Y := replicate 16 0\<rparr>)
                in (0, key\<lparr>gcm_Y_0 := replicate 16 0, gcm_state := CCMODE_GCM_STATE_AAD\<rparr>)
      else gcm_set_iv mode key iv_nbytes iv)"

text \<open>The calls of the one-shot functions from the initial value on; the first code that is not 0 ends them.\<close>

definition gcm_after_iv :: "'k ccmode_gcm \<Rightarrow> 'k ccgcm_ctx \<Rightarrow> nat \<Rightarrow> bytes \<Rightarrow> nat \<Rightarrow> bytes \<Rightarrow> nat \<Rightarrow> bytes \<Rightarrow> int \<times> bytes \<times> bytes" where
  "gcm_after_iv mode ctx adata_nbytes adata nbytes inp tag_nbytes tag =
     (let (rc, ctx) = gcm_gmac mode ctx adata_nbytes adata
      in if rc \<noteq> 0 then (rc, [], tag)
         else let (rc, ctx, out) = gcm_gcm mode ctx nbytes inp
              in if rc \<noteq> 0 then (rc, out, tag)
                 else let (rc, ctx, tag) = gcm_finalize mode ctx tag_nbytes tag in (rc, out, tag))"

definition ccgcm_one_shot ::
  "'k ccmode_gcm \<Rightarrow> 'k ccgcm_ctx \<Rightarrow> nat \<Rightarrow> bytes \<Rightarrow> nat \<Rightarrow> bytes option \<Rightarrow> nat \<Rightarrow> bytes \<Rightarrow> nat \<Rightarrow> bytes \<Rightarrow> nat \<Rightarrow> bytes \<Rightarrow>
   int \<times> bytes \<times> bytes" where
  "ccgcm_one_shot mode ctx key_nbytes key iv_nbytes iv adata_nbytes adata nbytes inp tag_nbytes tag =
     (let (rc, ctx) = gcm_init mode ctx key_nbytes key
      in if rc \<noteq> 0 then (rc, [], tag)
         else let (rc, ctx) = gcm_set_iv mode ctx iv_nbytes iv
              in if rc \<noteq> 0 then (rc, [], tag) else gcm_after_iv mode ctx adata_nbytes adata nbytes inp tag_nbytes tag)"

definition ccgcm_one_shot_legacy ::
  "'k ccmode_gcm \<Rightarrow> 'k ccgcm_ctx \<Rightarrow> nat \<Rightarrow> bytes \<Rightarrow> nat \<Rightarrow> bytes option \<Rightarrow> nat \<Rightarrow> bytes \<Rightarrow> nat \<Rightarrow> bytes \<Rightarrow> nat \<Rightarrow> bytes \<Rightarrow>
   int \<times> bytes \<times> bytes" where
  "ccgcm_one_shot_legacy mode ctx key_nbytes key iv_nbytes iv adata_nbytes adata nbytes inp tag_nbytes tag =
     (let (rc, ctx) = gcm_init mode ctx key_nbytes key
      in if rc \<noteq> 0 then (rc, [], tag)
         else let (rc, ctx) = ccgcm_set_iv_legacy mode ctx iv_nbytes iv
              in if rc \<noteq> 0 then (rc, [], tag) else gcm_after_iv mode ctx adata_nbytes adata nbytes inp tag_nbytes tag)"

declare gcm_absorb_loop.simps [simp del] gcm_aad_loop.simps [simp del] gcm_encrypt_loop.simps [simp del] gcm_decrypt_loop.simps [simp del]

section \<open>What a context holds\<close>

definition inc32 :: "bytes \<Rightarrow> bytes" where
  "inc32 Y = take 12 Y @ inc_uint (drop 12 Y) 4"

definition gcm_keystream :: "'k ccmode_ecb \<Rightarrow> 'k \<Rightarrow> bytes \<Rightarrow> nat \<Rightarrow> byte" where
  "gcm_keystream ecb k J0 i = ecb_block ecb k ((inc32 ^^ Suc (i div 16)) J0) ! (i mod 16)"

text \<open>The hash, byte by byte: the block so far and the number of bytes in it.\<close>

definition absorb_byte :: "bytes \<Rightarrow> bytes \<times> nat \<Rightarrow> byte \<Rightarrow> bytes \<times> nat" where
  "absorb_byte H st b =
     (let (X, pos) = st; X = X[pos := X ! pos XOR b]
      in if pos = 15 then (ccmode_gcm_gf_mult H X, 0) else (X, pos + 1))"

definition absorb_bytes :: "bytes \<Rightarrow> bytes \<times> nat \<Rightarrow> bytes \<Rightarrow> bytes \<times> nat" where
  "absorb_bytes H = foldl (absorb_byte H)"

definition zero_fill :: "bytes \<Rightarrow> bytes" where
  "zero_fill xs = replicate ((16 - length xs mod 16) mod 16) 0"

definition gcm_hashed :: "nat \<Rightarrow> bytes \<Rightarrow> bytes \<Rightarrow> bytes" where
  "gcm_hashed st A C = (if st = CCMODE_GCM_STATE_AAD then A else A @ zero_fill A @ C)"

definition gcm_session :: "'k ccmode_ecb \<Rightarrow> 'k \<Rightarrow> bytes \<Rightarrow> nat \<Rightarrow> bytes \<Rightarrow> bytes \<Rightarrow> 'k ccgcm_ctx \<Rightarrow> bool" where
  "gcm_session ecb k J0 st A C ctx \<longleftrightarrow>
     gcm_ecb ctx = ecb \<and> gcm_ecb_key ctx = k \<and> gcm_H ctx = ecb_block ecb k (replicate 16 0) \<and>
     gcm_state ctx = st \<and> gcm_Y_0 ctx = J0 \<and> gcm_Y ctx = (inc32 ^^ Suc (length C div 16)) J0 \<and>
     gcm_buf ctx = ecb_block ecb k (gcm_Y ctx) \<and>
     gcm_aad_nbytes ctx = of_nat (length A) \<and> gcm_text_nbytes ctx = of_nat (length C) \<and> (st = CCMODE_GCM_STATE_AAD \<longrightarrow> C = []) \<and>
     gcm_X ctx = fst (absorb_bytes (gcm_H ctx) (replicate 16 0, 0) (gcm_hashed st A C))"

section \<open>Absorbing\<close>

lemma length_gf_mult [simp]: "length (ccmode_gcm_gf_mult a b) = 16"
  by (simp add: ccmode_gcm_gf_mult_def ccmode_gcm_gf_mult_64_def case_prod_beta Let_def)

lemma length_xor_at [simp]: "off + n \<le> length X \<Longrightarrow> length (xor_at off n X d) = length X"
  by (simp add: xor_at_def)

lemma nth_xor_at:
  "off + n \<le> length X \<Longrightarrow> i < length X \<Longrightarrow>
   xor_at off n X d ! i = (if off \<le> i \<and> i < off + n then X ! i XOR d ! (i - off) else X ! i)"
  by (auto simp: xor_at_def nth_append nth_cc_xor)

lemma xor_at_0: "xor_at off 0 X d = X"
  by (simp add: xor_at_def)

lemma xor_at_full: "length X = 16 \<Longrightarrow> xor_at 0 16 X d = cc_xor 16 X d"
  by (simp add: xor_at_def)

lemma xor_at_snoc:
  assumes "off + length c < length X"
  shows "(xor_at off (length c) X c)[off + length c := xor_at off (length c) X c ! (off + length c) XOR b] = xor_at off (Suc (length c)) X (c @ [b])"
  using assms by (intro nth_equalityI) (auto simp: nth_xor_at nth_list_update nth_append)

lemma xor_at_take: "n \<le> length d \<Longrightarrow> xor_at off n X (take n d) = xor_at off n X d"
  by (auto simp: xor_at_def intro!: nth_equalityI simp: nth_cc_xor)

lemma absorb_bytes_simps [simp]:
  "absorb_bytes H st [] = st" "absorb_bytes H st (xs @ ys) = absorb_bytes H (absorb_bytes H st xs) ys"
  "absorb_bytes H st [b] = absorb_byte H st b"
  by (simp_all add: absorb_bytes_def)

lemma absorb_part:
  "length X = 16 \<Longrightarrow> pos + length c < 16 \<Longrightarrow> absorb_bytes H (X, pos) c = (xor_at pos (length c) X c, pos + length c)"
proof (induction c rule: rev_induct)
  case Nil
  then show ?case by (simp add: xor_at_0)
next
  case (snoc b c)
  then show ?case by (simp add: absorb_byte_def Let_def xor_at_snoc)
qed

lemma absorb_full:
  assumes "length X = 16" "pos + length c = 16" "c \<noteq> []"
  shows "absorb_bytes H (X, pos) c = (ccmode_gcm_gf_mult H (xor_at pos (length c) X c), 0)"
proof (cases c rule: rev_cases)
  case (snoc d b)
  then show ?thesis using assms absorb_part [of X pos d H] xor_at_snoc [of pos d X b] by (simp add: absorb_byte_def Let_def)
qed (use assms in simp)

lemma absorb_fst_len: "length X = 16 \<Longrightarrow> pos < 16 \<Longrightarrow>
  length (fst (absorb_bytes H (X, pos) c)) = 16 \<and> snd (absorb_bytes H (X, pos) c) = (pos + length c) mod 16"
proof (induction c rule: rev_induct)
  case (snoc b c)
  obtain Y q where "absorb_bytes H (X, pos) c = (Y, q)" by force
  then show ?case using snoc mod_Suc [of "pos + length c" 16] by (auto simp: absorb_byte_def Let_def)
qed simp

text \<open>Bytes of zeros to the end of a block only finish it.\<close>

lemma absorb_zero_fill:
  assumes "absorb_bytes H (replicate 16 0, 0) A = (X, pos)"
  shows "absorb_bytes H (X, pos) (zero_fill A) = (if pos = 0 then X else ccmode_gcm_gf_mult H X, 0)"
proof -
  have l: "length X = 16" "pos = length A mod 16" using absorb_fst_len [of "replicate 16 0" 0 H A] assms by auto
  show ?thesis
  proof (cases "pos = 0")
    case True
    then show ?thesis using l by (simp add: zero_fill_def)
  next
    case False
    then have z: "zero_fill A = replicate (16 - pos) 0" "pos < 16" using l(2) by (simp_all add: zero_fill_def)
    have "xor_at pos (16 - pos) X (replicate (16 - pos) 0) = X"
      using l z(2) by (intro nth_equalityI) (simp_all add: nth_xor_at)
    then show ?thesis using absorb_full [of X pos "zero_fill A" H] False z l(1) by simp
  qed
qed

lemma gcm_session_hash:
  assumes "gcm_session ecb k J0 st A C ctx"
  shows "length (gcm_X ctx) = 16"
    "absorb_bytes (gcm_H ctx) (replicate 16 0, 0) (gcm_hashed st A C) = (gcm_X ctx, length (gcm_hashed st A C) mod 16)"
  using assms absorb_fst_len [of "replicate 16 0" 0 "gcm_H ctx" "gcm_hashed st A C"]
  by (auto simp: gcm_session_def prod_eq_iff)

lemma zero_fill_length: "(length xs + length (zero_fill xs)) mod 16 = 0"
proof (cases "length xs mod 16 = 0")
  case True
  then show ?thesis by (simp add: zero_fill_def)
next
  case False
  have "length (zero_fill xs) = 16 - length xs mod 16" using False by (simp add: zero_fill_def)
  moreover have "length xs mod 16 < 16" by simp
  ultimately have "length xs + length (zero_fill xs) = 16 * (length xs div 16) + 16"
    using mult_div_mod_eq [of 16 "length xs"] by linarith
  then show ?thesis by simp
qed

lemma hashed_mod:
  "length (gcm_hashed st A C) mod 16 = (if st = CCMODE_GCM_STATE_AAD then length A mod 16 else length C mod 16)"
proof -
  have "length (A @ zero_fill A @ C) mod 16 = ((length A + length (zero_fill A)) mod 16 + length C) mod 16"
    by (simp only: length_append add.assoc [symmetric] mod_add_left_eq)
  then show ?thesis by (simp add: gcm_hashed_def zero_fill_length)
qed

lemma unat_mod_16: "unat (of_nat n mod 16 :: cc_unit) = n mod 16"
proof -
  have "n mod 2 ^ 64 mod 16 = n mod (16 :: nat)" by (rule mod_mod_cancel) simp
  then show ?thesis by (simp add: unat_mod unat_of_nat)
qed

lemma gcm_states [simp]:
  "CCMODE_GCM_STATE_TEXT \<noteq> CCMODE_GCM_STATE_AAD" "CCMODE_GCM_STATE_IV \<noteq> CCMODE_GCM_STATE_AAD"
  "CCMODE_GCM_STATE_FINAL \<noteq> CCMODE_GCM_STATE_AAD" "CCMODE_GCM_STATE_AAD \<noteq> CCMODE_GCM_STATE_TEXT"
  "CCMODE_GCM_STATE_IV \<noteq> CCMODE_GCM_STATE_TEXT" "CCMODE_GCM_STATE_FINAL \<noteq> CCMODE_GCM_STATE_TEXT"
  by (simp_all add: CCMODE_GCM_STATE_IV_def CCMODE_GCM_STATE_AAD_def CCMODE_GCM_STATE_TEXT_def CCMODE_GCM_STATE_FINAL_def)

lemma update_pad_fields [simp]:
  "gcm_H (ccmode_gcm_update_pad c) = gcm_H c" "gcm_X (ccmode_gcm_update_pad c) = gcm_X c"
  "gcm_Y (ccmode_gcm_update_pad c) = inc32 (gcm_Y c)" "gcm_Y_0 (ccmode_gcm_update_pad c) = gcm_Y_0 c"
  "gcm_buf (ccmode_gcm_update_pad c) = ecb_block (gcm_ecb c) (gcm_ecb_key c) (inc32 (gcm_Y c))"
  "gcm_state (ccmode_gcm_update_pad c) = gcm_state c" "gcm_flags (ccmode_gcm_update_pad c) = gcm_flags c"
  "gcm_aad_nbytes (ccmode_gcm_update_pad c) = gcm_aad_nbytes c" "gcm_text_nbytes (ccmode_gcm_update_pad c) = gcm_text_nbytes c"
  "gcm_ecb (ccmode_gcm_update_pad c) = gcm_ecb c" "gcm_ecb_key (ccmode_gcm_update_pad c) = gcm_ecb_key c"
  "gcm_encdec (ccmode_gcm_update_pad c) = gcm_encdec c"
  by (simp_all add: ccmode_gcm_update_pad_def inc32_def)

section \<open>Text in parts\<close>

text \<open>\<open>m\<close> bytes of the input have been taken: what was written and what was hashed.\<close>

definition gcm_advanced ::
  "bool \<Rightarrow> 'k ccmode_ecb \<Rightarrow> 'k \<Rightarrow> bytes \<Rightarrow> bytes \<Rightarrow> bytes \<Rightarrow> nat \<Rightarrow> bytes \<Rightarrow> 'k ccgcm_ctx \<Rightarrow> bytes \<Rightarrow> bool" where
  "gcm_advanced dec ecb k J0 A C m xs ctx out \<longleftrightarrow>
     out = mask_with (\<lambda>i. gcm_keystream ecb k J0 (length C + i)) m xs \<and>
     gcm_session ecb k J0 CCMODE_GCM_STATE_TEXT A (C @ (if dec then take m xs else out)) ctx"

lemma advanced_nothing: "gcm_session ecb k J0 CCMODE_GCM_STATE_TEXT A C ctx \<Longrightarrow> gcm_advanced dec ecb k J0 A C 0 xs ctx []"
  by (simp add: gcm_advanced_def mask_with_def)

lemma advanced_trans:
  assumes "gcm_advanced dec ecb k J0 A C m xs ctx1 o1"
    "gcm_advanced dec ecb k J0 A (C @ (if dec then take m xs else o1)) n (drop m xs) ctx2 o2" "m + n \<le> length xs"
  shows "gcm_advanced dec ecb k J0 A C (m + n) xs ctx2 (o1 @ o2)"
proof -
  let ?h = "if dec then take m xs else o1"
  have o1: "o1 = mask_with (\<lambda>i. gcm_keystream ecb k J0 (length C + i)) m xs" using assms(1) by (simp add: gcm_advanced_def)
  then have l: "length ?h = m" using assms(3) by simp
  have "o2 = mask_with (\<lambda>i. gcm_keystream ecb k J0 (length C + (m + i))) n (drop m xs)"
    using assms(2) l by (simp add: gcm_advanced_def add.assoc)
  then have "o1 @ o2 = mask_with (\<lambda>i. gcm_keystream ecb k J0 (length C + i)) (m + n) xs"
    using assms(3) o1 mask_with_append [of m xs "\<lambda>i. gcm_keystream ecb k J0 (length C + i)" n] by simp
  moreover have "(C @ ?h) @ (if dec then take n (drop m xs) else o2) = C @ (if dec then take (m + n) xs else o1 @ o2)"
    by (simp add: take_add)
  ultimately show ?thesis using assms(2) unfolding gcm_advanced_def by metis
qed

lemma advanced_session: "gcm_advanced dec ecb k J0 A C m xs ctx out \<Longrightarrow>
  gcm_session ecb k J0 CCMODE_GCM_STATE_TEXT A (C @ (if dec then take m xs else out)) ctx"
  by (simp add: gcm_advanced_def)

lemma advanced_length: "gcm_advanced dec ecb k J0 A C m xs ctx out \<Longrightarrow> m \<le> length xs \<Longrightarrow>
  length (C @ (if dec then take m xs else out)) = length C + m"
  by (simp add: gcm_advanced_def)

text \<open>A piece inside one block, and a piece that finishes the block.\<close>

lemma chunk_step:
  assumes "gcm_session ecb k J0 CCMODE_GCM_STATE_TEXT A C ctx" "length C mod 16 + m \<le> 16" "m \<le> length xs" "0 < m"
    "out = cc_xor m xs (drop (length C mod 16) (gcm_buf ctx))" "d = (if dec then xs else out)"
    "c1 = ctx\<lparr>gcm_X := xor_at (length C mod 16) m (gcm_X ctx) d, gcm_text_nbytes := gcm_text_nbytes ctx + of_nat m\<rparr>"
    "length (gcm_buf ctx) = 16"
  shows "length C mod 16 + m < 16 \<Longrightarrow> gcm_advanced dec ecb k J0 A C m xs c1 out"
    "length C mod 16 + m = 16 \<Longrightarrow>
     gcm_advanced dec ecb k J0 A C m xs (ccmode_gcm_update_pad (c1\<lparr>gcm_X := ccmode_gcm_mult_h ctx (gcm_X c1)\<rparr>)) out"
proof -
  define pos q where "pos = length C mod 16" and "q = length C div 16"
  have C: "length C = 16 * q + pos" by (simp add: pos_def q_def)
  have pm: "pos + m \<le> 16" using assms(2) by (simp add: pos_def)
  let ?c = "if dec then take m xs else out"
  have lc: "length ?c = m" using assms(3,5) by simp
  have xd: "xor_at pos m (gcm_X ctx) ?c = xor_at pos m (gcm_X ctx) d" using xor_at_take [of m xs pos "gcm_X ctx"] assms(3,6) by simp
  have S: "gcm_ecb ctx = ecb" "gcm_ecb_key ctx = k" "gcm_H ctx = ecb_block ecb k (replicate 16 0)" "gcm_state ctx = CCMODE_GCM_STATE_TEXT"
    "gcm_Y_0 ctx = J0" "gcm_Y ctx = (inc32 ^^ Suc q) J0" "gcm_buf ctx = ecb_block ecb k ((inc32 ^^ Suc q) J0)"
    "gcm_aad_nbytes ctx = of_nat (length A)" "gcm_text_nbytes ctx = of_nat (length C)"
    using assms(1) by (simp_all add: gcm_session_def q_def)
  have out: "out = mask_with (\<lambda>i. gcm_keystream ecb k J0 (length C + i)) m xs"
  proof (rule nth_equalityI)
    fix i assume "i < length out"
    then have i: "i < m" by (simp add: assms(5))
    then have "(length C + i) div 16 = q" "(length C + i) mod 16 = pos + i" using pm by (simp_all add: C add.assoc)
    then show "out ! i = mask_with (\<lambda>i. gcm_keystream ecb k J0 (length C + i)) m xs ! i"
      using i pm assms(8) by (simp add: assms(5) nth_cc_xor gcm_keystream_def S(7) pos_def [symmetric])
  qed (simp add: assms(5))
  have h: "absorb_bytes (gcm_H ctx) (replicate 16 0, 0) (A @ zero_fill A @ C) = (gcm_X ctx, pos)"
    using gcm_session_hash(2) [OF assms(1)] hashed_mod [of CCMODE_GCM_STATE_TEXT A C] by (simp add: gcm_hashed_def pos_def)
  have X: "length (gcm_X ctx) = 16" by (rule gcm_session_hash(1) [OF assms(1)])
  show "gcm_advanced dec ecb k J0 A C m xs c1 out" if "length C mod 16 + m < 16"
  proof -
    have p: "pos + m < 16" using that by (simp add: pos_def)
    have "absorb_bytes (gcm_H ctx) (gcm_X ctx, pos) ?c = (xor_at pos m (gcm_X ctx) d, pos + m)"
      using absorb_part [OF X, of pos ?c "gcm_H ctx"] p lc xd by simp
    moreover have "length (C @ ?c) div 16 = q" using p by (simp add: lc C)
    ultimately show ?thesis
      using S out h lc unfolding gcm_advanced_def gcm_session_def assms(7) pos_def [symmetric]
      by (simp add: gcm_hashed_def)
  qed
  show "gcm_advanced dec ecb k J0 A C m xs (ccmode_gcm_update_pad (c1\<lparr>gcm_X := ccmode_gcm_mult_h ctx (gcm_X c1)\<rparr>)) out"
    if "length C mod 16 + m = 16"
  proof -
    have p: "pos + m = 16" using that by (simp add: pos_def)
    have "absorb_bytes (gcm_H ctx) (gcm_X ctx, pos) ?c = (ccmode_gcm_gf_mult (gcm_H ctx) (xor_at pos m (gcm_X ctx) d), 0)"
      by (subst absorb_full [OF X]) (use p lc xd assms(4) in \<open>auto simp del: length_0_conv\<close>)
    moreover have "length (C @ ?c) div 16 = Suc q" using p by (simp add: lc C)
    ultimately show ?thesis
      using S out h lc unfolding gcm_advanced_def gcm_session_def assms(7) pos_def [symmetric]
      by (simp add: gcm_hashed_def ccmode_gcm_mult_h_def)
  qed
qed

text \<open>Encryption and decryption differ in what is hashed only; the proofs treat them as one.\<close>

definition gcm_chunk :: "bool \<Rightarrow> 'k ccgcm_ctx \<Rightarrow> nat \<Rightarrow> nat \<Rightarrow> bytes \<Rightarrow> 'k ccgcm_ctx \<times> bytes" where
  "gcm_chunk dec key pos m xs =
     (let out = cc_xor m xs (drop pos (gcm_buf key))
      in (key\<lparr>gcm_X := xor_at pos m (gcm_X key) (if dec then xs else out), gcm_text_nbytes := gcm_text_nbytes key + of_nat m\<rparr>, out))"

definition gcm_block :: "bool \<Rightarrow> 'k ccgcm_ctx \<Rightarrow> nat \<Rightarrow> nat \<Rightarrow> bytes \<Rightarrow> 'k ccgcm_ctx \<times> bytes" where
  "gcm_block dec key pos m xs =
     (let (c, out) = gcm_chunk dec key pos m xs
      in (ccmode_gcm_update_pad (c\<lparr>gcm_X := ccmode_gcm_mult_h key (gcm_X c)\<rparr>), out))"

definition gcm_partial :: "bool \<Rightarrow> 'k ccgcm_ctx \<Rightarrow> nat \<Rightarrow> nat \<Rightarrow> bytes \<Rightarrow> 'k ccgcm_ctx \<times> nat \<times> nat \<times> bytes \<times> bytes" where
  "gcm_partial dec key pos n xs =
     (if pos > 0 \<and> n \<ge> 16 - pos
      then let (c, out) = gcm_block dec key pos (16 - pos) xs in (c, 0, n - (16 - pos), drop (16 - pos) xs, out)
      else (key, pos, n, xs, []))"

lemma partial_eq:
  "gcm_encrypt_partial key pos n xs = gcm_partial False key pos n xs"
  "gcm_decrypt_partial key pos n xs = gcm_partial True key pos n xs"
  by (simp_all add: gcm_encrypt_partial_def gcm_decrypt_partial_def gcm_partial_def gcm_block_def gcm_chunk_def Let_def
      ccmode_gcm_mult_h_def ccmode_gcm_update_pad_def)

text \<open>The loops, block by block.\<close>

lemma block_whole:
  assumes "length (gcm_X key) = 16"
  shows "gcm_block dec key 0 16 xs =
    (ccmode_gcm_update_pad (key\<lparr>gcm_X := ccmode_gcm_mult_h key (cc_xor 16 (gcm_X key) (if dec then xs else cc_xor 16 xs (gcm_buf key))),
       gcm_text_nbytes := gcm_text_nbytes key + 16\<rparr>), cc_xor 16 xs (gcm_buf key))"
proof -
  have "key\<lparr>gcm_text_nbytes := t, gcm_X := x\<rparr> = key\<lparr>gcm_X := x, gcm_text_nbytes := t\<rparr>" for t x by (rule ccgcm_ctx.equality) simp_all
  note swap = this
  show ?thesis using assms by (simp add: gcm_block_def gcm_chunk_def xor_at_full Let_def swap)
qed

lemma loop_step:
  assumes "length (gcm_X key) = 16" "16 \<le> n"
  shows "gcm_encrypt_loop key n xs =
      (let (c, o1) = gcm_block False key 0 16 xs; (c, n, ys, o2) = gcm_encrypt_loop c (n - 16) (drop 16 xs) in (c, n, ys, o1 @ o2))"
    "gcm_decrypt_loop key n xs =
      (let (c, o1) = gcm_block True key 0 16 xs; (c, n, ys, o2) = gcm_decrypt_loop c (n - 16) (drop 16 xs) in (c, n, ys, o1 @ o2))"
proof -
  have t: "gcm_text_nbytes (key\<lparr>gcm_X := x\<rparr>) = gcm_text_nbytes key" "gcm_buf (key\<lparr>gcm_X := x\<rparr>) = gcm_buf key" for x by simp_all
  show "gcm_encrypt_loop key n xs =
      (let (c, o1) = gcm_block False key 0 16 xs; (c, n, ys, o2) = gcm_encrypt_loop c (n - 16) (drop 16 xs) in (c, n, ys, o1 @ o2))"
    by (subst gcm_encrypt_loop.simps) (simp only: assms if_True if_False Let_def block_whole prod.case)
  show "gcm_decrypt_loop key n xs =
      (let (c, o1) = gcm_block True key 0 16 xs; (c, n, ys, o2) = gcm_decrypt_loop c (n - 16) (drop 16 xs) in (c, n, ys, o1 @ o2))"
    by (subst gcm_decrypt_loop.simps) (simp only: assms if_True if_False Let_def block_whole prod.case t)
qed

lemma loop_done: "n < 16 \<Longrightarrow> gcm_encrypt_loop key n xs = (key, n, xs, [])" "n < 16 \<Longrightarrow> gcm_decrypt_loop key n xs = (key, n, xs, [])"
  by (subst gcm_encrypt_loop.simps gcm_decrypt_loop.simps; simp)+

definition gcm_loop :: "bool \<Rightarrow> 'k ccgcm_ctx \<Rightarrow> nat \<Rightarrow> bytes \<Rightarrow> 'k ccgcm_ctx \<times> nat \<times> bytes \<times> bytes" where
  "gcm_loop dec = (if dec then gcm_decrypt_loop else gcm_encrypt_loop)"

lemma gcm_loop_simps:
  "length (gcm_X key) = 16 \<Longrightarrow> 16 \<le> n \<Longrightarrow> gcm_loop dec key n xs =
     (let (c, o1) = gcm_block dec key 0 16 xs; (c, n, ys, o2) = gcm_loop dec c (n - 16) (drop 16 xs) in (c, n, ys, o1 @ o2))"
  "n < 16 \<Longrightarrow> gcm_loop dec key n xs = (key, n, xs, [])"
  by (cases dec; simp add: gcm_loop_def loop_step [of key] loop_done)+

definition gcm_text :: "bool \<Rightarrow> 'k ccgcm_ctx \<Rightarrow> nat \<Rightarrow> bytes \<Rightarrow> 'k ccgcm_ctx \<times> bytes" where
  "gcm_text dec key n xs =
     (let (key, pos, n, xs, o1) = gcm_partial dec key (unat (gcm_text_nbytes key mod 16)) n xs;
          (key, n, xs, o2) = (if pos = 0 then gcm_loop dec key n xs else (key, n, xs, []));
          (key, o3) = (if n > 0 then gcm_chunk dec key pos n xs else (key, []))
      in (key, o1 @ o2 @ o3))"

definition gcm_crypt :: "bool \<Rightarrow> 'k ccgcm_ctx \<Rightarrow> nat \<Rightarrow> bytes \<Rightarrow> int \<times> 'k ccgcm_ctx \<times> bytes" where
  "gcm_crypt dec key n xs =
     (let key = ccmode_gcm_aad_finalize key
      in if gcm_state key \<noteq> CCMODE_GCM_STATE_TEXT then (CCMODE_INVALID_CALL_SEQUENCE, key, [])
         else if \<not> (unat (- 1 - gcm_text_nbytes key) \<ge> n \<and> unat (gcm_text_nbytes key + of_nat n) \<le> CCGCM_TEXT_MAX_NBYTES)
         then (CCMODE_INVALID_INPUT, key, [])
         else let (key, out) = gcm_text dec key n xs in (0, key, out))"

lemma aad_finalize_text_nbytes [simp]: "gcm_text_nbytes (ccmode_gcm_aad_finalize key) = gcm_text_nbytes key"
  by (simp add: ccmode_gcm_aad_finalize_def Let_def)

lemma crypt_eq: "ccmode_gcm_encrypt = gcm_crypt False" "ccmode_gcm_decrypt = gcm_crypt True"
  by (intro ext, simp add: ccmode_gcm_encrypt_def ccmode_gcm_decrypt_def gcm_crypt_def gcm_text_def gcm_chunk_def gcm_loop_def partial_eq
      case_prod_beta Let_def)+

section \<open>Additional data in parts\<close>

lemma aad_step:
  assumes "gcm_session ecb k J0 CCMODE_GCM_STATE_AAD A [] c" "m \<le> length xs" "0 < m"
  shows "length A mod 16 + m < 16 \<Longrightarrow> gcm_session ecb k J0 CCMODE_GCM_STATE_AAD (A @ take m xs) []
      (c\<lparr>gcm_X := xor_at (length A mod 16) m (gcm_X c) xs, gcm_aad_nbytes := gcm_aad_nbytes c + of_nat m\<rparr>)"
    "length A mod 16 + m = 16 \<Longrightarrow> gcm_session ecb k J0 CCMODE_GCM_STATE_AAD (A @ take m xs) []
      (c\<lparr>gcm_X := ccmode_gcm_mult_h c (xor_at (length A mod 16) m (gcm_X c) xs), gcm_aad_nbytes := gcm_aad_nbytes c + of_nat m\<rparr>)"
proof -
  define pos where "pos = length A mod 16"
  have h: "absorb_bytes (gcm_H c) (replicate 16 0, 0) A = (gcm_X c, pos)"
    using gcm_session_hash(2) [OF assms(1)] by (simp add: gcm_hashed_def pos_def)
  note X = gcm_session_hash(1) [OF assms(1)]
  have l: "length (take m xs) = m" "xor_at pos m (gcm_X c) (take m xs) = xor_at pos m (gcm_X c) xs"
    using assms(2) by (simp_all add: xor_at_take)
  show "gcm_session ecb k J0 CCMODE_GCM_STATE_AAD (A @ take m xs) []
      (c\<lparr>gcm_X := xor_at (length A mod 16) m (gcm_X c) xs, gcm_aad_nbytes := gcm_aad_nbytes c + of_nat m\<rparr>)" if "length A mod 16 + m < 16"
    using that assms(1) h l absorb_part [OF X, of pos "take m xs" "gcm_H c"]
    by (simp add: gcm_session_def gcm_hashed_def pos_def)
  have "absorb_bytes (gcm_H c) (gcm_X c, pos) (take m xs) = (ccmode_gcm_gf_mult (gcm_H c) (xor_at pos m (gcm_X c) xs), 0)" if "pos + m = 16"
    using absorb_full [OF X, of pos "take m xs" "gcm_H c"] that l assms(2,3) by fastforce
  then show "gcm_session ecb k J0 CCMODE_GCM_STATE_AAD (A @ take m xs) []
      (c\<lparr>gcm_X := ccmode_gcm_mult_h c (xor_at (length A mod 16) m (gcm_X c) xs), gcm_aad_nbytes := gcm_aad_nbytes c + of_nat m\<rparr>)"
    if "length A mod 16 + m = 16"
    using that assms(1) h l by (simp add: gcm_session_def gcm_hashed_def pos_def ccmode_gcm_mult_h_def)
qed

lemma aad_loop:
  assumes "gcm_session ecb k J0 CCMODE_GCM_STATE_AAD A [] c" "length A mod 16 = 0" "n \<le> length xs"
  shows "\<exists>c'. gcm_aad_loop c n xs = (c', n mod 16, drop (n - n mod 16) xs) \<and>
    gcm_session ecb k J0 CCMODE_GCM_STATE_AAD (A @ take (n - n mod 16) xs) [] c'"
  using assms
proof (induction n arbitrary: A c xs rule: less_induct)
  case (less n)
  show ?case
  proof (cases "n < 16")
    case True
    then show ?thesis using less.prems(1) by (simp add: gcm_aad_loop.simps [of c n])
  next
    case False
    let ?c = "c\<lparr>gcm_X := ccmode_gcm_mult_h c (cc_xor 16 (gcm_X c) xs), gcm_aad_nbytes := gcm_aad_nbytes c + 16\<rparr>"
    have s: "gcm_session ecb k J0 CCMODE_GCM_STATE_AAD (A @ take 16 xs) [] ?c"
      using aad_step(2) [OF less.prems(1), of 16 xs] less.prems(2,3) False gcm_session_hash(1) [OF less.prems(1)] by (simp add: xor_at_full)
    have "n - 16 < n" "length (A @ take 16 xs) mod 16 = 0" "n - 16 \<le> length (drop 16 xs)" using False less.prems(2,3) by simp_all
    from less.IH [OF this(1) s this(2,3)] obtain c' where
      c': "gcm_aad_loop ?c (n - 16) (drop 16 xs) = (c', (n - 16) mod 16, drop (n - 16 - (n - 16) mod 16) (drop 16 xs))"
        "gcm_session ecb k J0 CCMODE_GCM_STATE_AAD ((A @ take 16 xs) @ take (n - 16 - (n - 16) mod 16) (drop 16 xs)) [] c'" by blast
    have m: "(n - 16) mod 16 = n mod 16" "16 + (n - 16 - n mod 16) = n - n mod 16"
      using False by (simp_all add: le_mod_geq)
    have "take (16 + (n - 16 - n mod 16)) xs = take 16 xs @ take (n - 16 - n mod 16) (drop 16 xs)" by (rule take_add)
    then show ?thesis
      using c' m False by (intro exI [of _ c']) (simp add: gcm_aad_loop.simps [of c n] add.commute)
  qed
qed

lemma aad_partial:
  assumes "gcm_session ecb k J0 CCMODE_GCM_STATE_AAD A [] c" "n \<le> length xs" "\<not> (length A mod 16 > 0 \<and> n < 16 - length A mod 16)"
  obtains m c1 where "m \<le> n" "(length A mod 16 + m) mod 16 = 0" "gcm_aad_partial c (length A mod 16) n xs = (c1, 0, n - m, drop m xs)"
    "gcm_session ecb k J0 CCMODE_GCM_STATE_AAD (A @ take m xs) [] c1"
proof (cases "length A mod 16 = 0")
  case True
  then show ?thesis using that [of 0 c] assms(1) by (simp add: gcm_aad_partial_def)
next
  case False
  define m where "m = 16 - length A mod 16"
  have m: "length A mod 16 + m = 16" "m \<le> n" "0 < m" using False assms(3) by (simp_all add: m_def)
  then show ?thesis
    using that [of m] aad_step(2) [OF assms(1), of m xs] assms(2) False by (simp add: gcm_aad_partial_def m_def [symmetric])
qed

lemma gcm_session_aad:
  assumes "gcm_session ecb k J0 CCMODE_GCM_STATE_AAD A [] c" "n \<le> length xs"
  shows "\<exists>c'. ccmode_gcm_aad c n xs = (0, c') \<and> gcm_session ecb k J0 CCMODE_GCM_STATE_AAD (A @ take n xs) [] c'"
proof -
  define pos where "pos = length A mod 16"
  have s: "gcm_state c = CCMODE_GCM_STATE_AAD" "unat (gcm_aad_nbytes c mod 16) = pos"
    using assms(1) by (simp_all add: gcm_session_def unat_mod_16 pos_def)
  show ?thesis
  proof (cases "pos > 0 \<and> n < 16 - pos")
    case True
    then have "pos + n < 16" by linarith
    then show ?thesis
      using aad_step(1) [OF assms, folded pos_def] assms(1) True
      by (cases "n = 0") (simp_all add: ccmode_gcm_aad_def s gcm_aad_partial_def case_prod_beta Let_def)
  next
    case False
    obtain m c1 where m: "m \<le> n" "(pos + m) mod 16 = 0" and 1: "gcm_aad_partial c pos n xs = (c1, 0, n - m, drop m xs)"
        "gcm_session ecb k J0 CCMODE_GCM_STATE_AAD (A @ take m xs) [] c1"
      using aad_partial [OF assms False [unfolded pos_def]] unfolding pos_def by blast
    have l: "length (A @ take m xs) mod 16 = 0" "n - m \<le> length (drop m xs)"
      using m assms(2) mod_add_left_eq [of "length A" 16 m] by (simp_all add: pos_def min_absorb2)
    define r where "r = (n - m) mod 16"
    obtain c2 where 2: "gcm_aad_loop c1 (n - m) (drop m xs) = (c2, r, drop (n - m - r) (drop m xs))"
        "gcm_session ecb k J0 CCMODE_GCM_STATE_AAD ((A @ take m xs) @ take (n - m - r) (drop m xs)) [] c2"
      unfolding r_def using aad_loop [OF 1(2) l] by blast
    have r: "m + (n - m - r) = n - r" "r \<le> n" "r < 16" using m(1) mod_less_eq_dividend [of "n - m" 16] by (simp_all add: r_def)
    have s2: "gcm_session ecb k J0 CCMODE_GCM_STATE_AAD (A @ take (n - r) xs) [] c2"
      using 2(2) take_add [of m "n - m - r" xs] r(1) by simp
    have a: "ccmode_gcm_aad c n xs = (if r > 0
        then (0, c2\<lparr>gcm_X := xor_at 0 r (gcm_X c2) (drop (n - r) xs), gcm_aad_nbytes := gcm_aad_nbytes c2 + of_nat r\<rparr>) else (0, c2))"
      using 1(1) 2(1) s r(1) by (simp add: ccmode_gcm_aad_def add.commute)
    show ?thesis
    proof (cases "r = 0")
      case False
      have "length (A @ take m xs) = length A + m" using m(1) assms(2) by simp
      then have "16 dvd length A + m" using l(1) by (simp only: mod_0_imp_dvd)
      moreover have "16 dvd n - m - r" unfolding r_def by (rule dvd_minus_mod)
      ultimately have "16 dvd (length A + m) + (n - m - r)" by (rule dvd_add)
      then have z: "length (A @ take (n - r) xs) mod 16 = 0" using r(1) assms(2) by (simp add: add.assoc)
      have "gcm_session ecb k J0 CCMODE_GCM_STATE_AAD ((A @ take (n - r) xs) @ take r (drop (n - r) xs)) []
          (c2\<lparr>gcm_X := xor_at 0 r (gcm_X c2) (drop (n - r) xs), gcm_aad_nbytes := gcm_aad_nbytes c2 + of_nat r\<rparr>)"
        using aad_step(1) [OF s2, of r "drop (n - r) xs", unfolded z] r False assms(2) by simp
      moreover have "take (n - r) xs @ take r (drop (n - r) xs) = take n xs" using take_add [of "n - r" r xs] r(2) by simp
      ultimately show ?thesis using a False by simp
    qed (use a s2 in simp)
  qed
qed

section \<open>The functions of SP 800-38D\<close>

function ghash :: "bytes \<Rightarrow> bytes \<Rightarrow> bytes \<Rightarrow> bytes" where
  "ghash H Y data =
     (if length data < 16 then Y
      else ghash H (gf_store (gf_product (gf_load H) (gf_load (cc_xor 16 Y data)))) (drop 16 data))"
  by pat_completeness auto
termination
  by (relation "measure (\<lambda>(H, Y, data). length data)") auto

declare ghash.simps [simp del]

lemma ghash_step: "ghash H Y data = (if length data < 16 then Y else ghash H (ccmode_gcm_gf_mult H (cc_xor 16 Y data)) (drop 16 data))"
  by (simp only: ccmode_gcm_gf_mult_def gf_mult_64_product) (rule ghash.simps)

definition gcm_j0 :: "bytes \<Rightarrow> bytes \<Rightarrow> bytes" where
  "gcm_j0 H iv =
     (if length iv = 12 then iv @ [0, 0, 0, 1]
      else ghash H (replicate 16 0) (iv @ zero_fill iv @ replicate 8 0 @ cc_store64_be (of_nat (8 * length iv))))"

definition gcm_tag :: "'k ccmode_ecb \<Rightarrow> 'k \<Rightarrow> bytes \<Rightarrow> bytes \<Rightarrow> bytes \<Rightarrow> bytes" where
  "gcm_tag ecb k J0 A C =
     cc_xor 16 (ghash (ecb_block ecb k (replicate 16 0)) (replicate 16 0)
       (A @ zero_fill A @ C @ zero_fill C @ cc_store64_be (of_nat (8 * length A)) @ cc_store64_be (of_nat (8 * length C))))
       (ecb_block ecb k J0)"

lemma ghash_absorb: "length X = 16 \<Longrightarrow> length data mod 16 = 0 \<Longrightarrow> absorb_bytes H (X, 0) data = (ghash H X data, 0)"
proof (induction data arbitrary: X rule: length_induct)
  case (1 data)
  show ?case
  proof (cases "length data < 16")
    case True
    then have "data = []" using 1(3) by simp
    then show ?thesis by (simp add: ghash_step [of H X "[]"])
  next
    case False
    have f: "absorb_bytes H (X, 0) (take 16 data) = (ccmode_gcm_gf_mult H (cc_xor 16 X data), 0)"
      using absorb_full [OF 1(2), of 0 "take 16 data" H] False 1(2) xor_at_take [of 16 data 0 X]
      by (simp add: xor_at_full min_absorb2) fastforce
    have "absorb_bytes H (X, 0) (take 16 data @ drop 16 data) = absorb_bytes H (ccmode_gcm_gf_mult H (cc_xor 16 X data), 0) (drop 16 data)"
      by (simp only: absorb_bytes_simps f)
    then show ?thesis using 1(1,3) False by (simp add: ghash_step [of H X data] le_mod_geq)
  qed
qed

text \<open>The loop over the initial value is the hash of its whole blocks.\<close>

lemma absorb_loop_eq:
  "n \<le> length data \<Longrightarrow> gcm_absorb_loop key Y n data = (ghash (gcm_H key) Y (take (n - n mod 16) data), n mod 16, drop (n - n mod 16) data)"
proof (induction n arbitrary: Y data rule: less_induct)
  case (less n)
  show ?case
  proof (cases "n < 16")
    case True
    then show ?thesis by (simp add: gcm_absorb_loop.simps [of key Y n] ghash_step [of _ _ "[]"])
  next
    case False
    have m: "(n - 16) mod 16 = n mod 16" "16 + (n - 16 - n mod 16) = n - n mod 16" using False by (simp_all add: le_mod_geq)
    have d: "take (n - n mod 16) data = take 16 data @ take (n - 16 - n mod 16) (drop 16 data)" "cc_xor 16 Y (take 16 data @ z) = cc_xor 16 Y data" for z
      using m(2) take_add [of 16 "n - 16 - n mod 16" data] False less.prems by (auto intro!: nth_equalityI simp: nth_cc_xor nth_append)
    have "ghash (gcm_H key) Y (take (n - n mod 16) data) =
        ghash (gcm_H key) (ccmode_gcm_gf_mult (gcm_H key) (cc_xor 16 Y data)) (take (n - 16 - n mod 16) (drop 16 data))"
      using False less.prems d by (subst ghash_step) (simp add: min_absorb2)
    then show ?thesis
      using less.IH [of "n - 16" "drop 16 data"] False less.prems m
      by (simp add: gcm_absorb_loop.simps [of key Y n] ccmode_gcm_mult_h_def add.commute)
  qed
qed

text \<open>The initial counter block.\<close>

lemma set_iv_j0:
  assumes "iv_nbytes = length iv" "iv_nbytes \<noteq> 12"
  shows "(let (Y, n, rest) = gcm_absorb_loop key (replicate 16 0) iv_nbytes iv;
        Y = (if n > 0 then ccmode_gcm_mult_h key (xor_at 0 n Y rest) else Y)
      in ccmode_gcm_mult_h key (cc_xor 16 Y (replicate 8 0 @ cc_store64_be (of_nat (iv_nbytes * 8))))) = gcm_j0 (gcm_H key) iv"
proof -
  define n where "n = length iv mod 16"
  define h t where "h = take (length iv - n) iv" and "t = drop (length iv - n) iv"
  let ?H = "gcm_H key" and ?z = "replicate 16 0 :: bytes"
  let ?L = "replicate 8 0 @ cc_store64_be (of_nat (iv_nbytes * 8))"
  have l: "length h mod 16 = 0" "length t = n" "n < 16" "iv = h @ t" "zero_fill t = zero_fill iv"
    by (simp_all add: h_def t_def n_def zero_fill_def)
  have Y: "length (ghash ?H ?z h) = 16" "absorb_bytes ?H (?z, 0) h = (ghash ?H ?z h, 0)"
    using ghash_absorb [of ?z h ?H] absorb_fst_len [of ?z 0 ?H h] l(1) by simp_all
  have p: "absorb_bytes ?H (?z, 0) iv = (xor_at 0 n (ghash ?H ?z h) t, n)"
    using absorb_part [OF Y(1), of 0 t ?H] l(2,3) unfolding l(4) by (simp add: Y(2))
  define Y' where "Y' = (if n > 0 then ccmode_gcm_mult_h key (xor_at 0 n (ghash ?H ?z h) t) else ghash ?H ?z h)"
  have Y': "absorb_bytes ?H (?z, 0) (iv @ zero_fill iv) = (Y', 0)" "length Y' = 16"
    using absorb_zero_fill [OF p] p Y(1) by (auto simp: Y'_def ccmode_gcm_mult_h_def xor_at_0)
  have L: "length ?L = 16" "?L \<noteq> []" by simp_all
  have "absorb_bytes ?H (Y', 0) ?L = (ccmode_gcm_gf_mult ?H (cc_xor 16 Y' ?L), 0)"
    using absorb_full [OF Y'(2) _ L(2), of 0 ?H] xor_at_full [OF Y'(2), of ?L] unfolding L(1) by (simp del: absorb_bytes_simps)
  then have "absorb_bytes ?H (?z, 0) ((iv @ zero_fill iv) @ ?L) = (ccmode_gcm_gf_mult ?H (cc_xor 16 Y' ?L), 0)"
    by (simp only: absorb_bytes_simps(2) [of _ _ "iv @ zero_fill iv"] Y'(1))
  moreover have "absorb_bytes ?H (?z, 0) ((iv @ zero_fill iv) @ ?L) = (ghash ?H ?z ((iv @ zero_fill iv) @ ?L), 0)"
    using zero_fill_length [of iv] by (intro ghash_absorb) (simp_all add: add.assoc [symmetric] mod_add_left_eq [symmetric, of "length iv + _"])
  moreover have "gcm_absorb_loop key ?z iv_nbytes iv = (ghash ?H ?z h, n, t)"
    using absorb_loop_eq [of iv_nbytes iv key ?z] assms(1) by (simp add: h_def t_def n_def)
  ultimately show ?thesis
    using assms by (simp add: gcm_j0_def Y'_def [symmetric] ccmode_gcm_mult_h_def mult.commute)
qed

context block_cipher
begin

lemma gcm_session_buf: "gcm_session ecb k J0 st A C c \<Longrightarrow> length (gcm_buf c) = ecb_block_size ecb"
  by (simp add: gcm_session_def)

lemma block_advanced:
  assumes "gcm_session ecb k J0 CCMODE_GCM_STATE_TEXT A C c" "ecb_block_size ecb = 16" "length C mod 16 + m = 16" "m \<le> length xs" "0 < m"
    "gcm_block dec c (length C mod 16) m xs = (c', out)"
  shows "gcm_advanced dec ecb k J0 A C m xs c' out"
  using chunk_step(2) [OF assms(1) _ assms(4,5) refl refl refl, of dec] assms gcm_session_buf [OF assms(1)]
  by (auto simp: gcm_block_def gcm_chunk_def Let_def)

lemma chunk_advanced:
  assumes "gcm_session ecb k J0 CCMODE_GCM_STATE_TEXT A C c" "ecb_block_size ecb = 16" "length C mod 16 + m < 16" "m \<le> length xs" "0 < m"
    "gcm_chunk dec c (length C mod 16) m xs = (c', out)"
  shows "gcm_advanced dec ecb k J0 A C m xs c' out"
  using chunk_step(1) [OF assms(1) _ assms(4,5) refl refl refl, of dec] assms gcm_session_buf [OF assms(1)]
  by (auto simp: gcm_chunk_def Let_def)

lemma loop_advanced:
  assumes "gcm_session ecb k J0 CCMODE_GCM_STATE_TEXT A C c" "ecb_block_size ecb = 16" "length C mod 16 = 0" "n \<le> length xs"
  shows "\<exists>c' out. gcm_loop dec c n xs = (c', n mod 16, drop (n - n mod 16) xs, out) \<and> gcm_advanced dec ecb k J0 A C (n - n mod 16) xs c' out"
  using assms
proof (induction n arbitrary: C c xs rule: less_induct)
  case (less n)
  show ?case
  proof (cases "n < 16")
    case True
    then show ?thesis using advanced_nothing [OF less.prems(1)] by (simp add: gcm_loop_simps(2))
  next
    case False
    obtain c1 o1 where 1: "gcm_block dec c 0 16 xs = (c1, o1)" by force
    have a1: "gcm_advanced dec ecb k J0 A C 16 xs c1 o1"
      using block_advanced [OF less.prems(1,2), of 16 xs dec c1 o1] less.prems(3,4) False 1 by simp
    define C1 where "C1 = C @ (if dec then take 16 xs else o1)"
    have l1: "length C1 = length C + 16" using advanced_length [OF a1] less.prems(4) False by (simp add: C1_def)
    have s1: "gcm_session ecb k J0 CCMODE_GCM_STATE_TEXT A C1 c1" unfolding C1_def by (rule advanced_session [OF a1])
    have "n - 16 < n" "n - 16 \<le> length (drop 16 xs)" "length C1 mod 16 = 0" using False less.prems(3,4) l1 by simp_all
    from less.IH [OF this(1) s1 less.prems(2) this(3,2)]
    obtain c2 o2 where 2: "gcm_loop dec c1 (n - 16) (drop 16 xs) = (c2, (n - 16) mod 16, drop (n - 16 - (n - 16) mod 16) (drop 16 xs), o2)"
        "gcm_advanced dec ecb k J0 A C1 (n - 16 - (n - 16) mod 16) (drop 16 xs) c2 o2"
      by blast
    have m: "(n - 16) mod 16 = n mod 16" "16 + (n - 16 - n mod 16) = n - n mod 16"
      using False by (simp_all add: le_mod_geq)
    have "gcm_advanced dec ecb k J0 A C (16 + (n - 16 - n mod 16)) xs c2 (o1 @ o2)"
      by (rule advanced_trans [OF a1]) (use 2(2) m less.prems(4) False in \<open>simp_all add: C1_def\<close>)
    moreover have "gcm_loop dec c n xs = (c2, n mod 16, drop (n - n mod 16) xs, o1 @ o2)"
      using gcm_loop_simps(1) [of c n dec xs] gcm_session_hash(1) [OF less.prems(1)] False 1 2(1) m by simp
    ultimately show ?thesis using m by simp
  qed
qed

text \<open>The first part ends at the end of a block, unless the whole input fits in the block.\<close>

lemma partial_advanced:
  assumes "gcm_session ecb k J0 CCMODE_GCM_STATE_TEXT A C c" "ecb_block_size ecb = 16" "n \<le> length xs"
    "\<not> (length C mod 16 > 0 \<and> n < 16 - length C mod 16)"
  obtains m c1 o1 where "m \<le> n" "(length C + m) mod 16 = 0"
    "gcm_partial dec c (length C mod 16) n xs = (c1, 0, n - m, drop m xs, o1)" "gcm_advanced dec ecb k J0 A C m xs c1 o1"
proof (cases "length C mod 16 > 0")
  case True
  define pos where "pos = length C mod 16"
  obtain c1 o1 where b: "gcm_block dec c pos (16 - pos) xs = (c1, o1)" by force
  have p: "0 < pos" "pos < 16" "16 - pos \<le> n" using True assms(4) by (simp_all add: pos_def)
  have "gcm_advanced dec ecb k J0 A C (16 - pos) xs c1 o1"
    using block_advanced [OF assms(1,2), of "16 - pos" xs dec c1 o1] b p assms(3) by (simp add: pos_def)
  moreover have "(length C + (16 - pos)) mod 16 = 0"
    using p(2) mod_add_left_eq [of "length C" 16 "16 - pos"] by (simp add: pos_def [symmetric])
  ultimately show ?thesis using that [of "16 - pos" c1 o1] b p by (simp add: gcm_partial_def pos_def)
next
  case False
  then show ?thesis using that [of 0 c "[]"] advanced_nothing [OF assms(1)] by (simp add: gcm_partial_def)
qed

lemma text_advanced:
  assumes "gcm_session ecb k J0 CCMODE_GCM_STATE_TEXT A C c" "ecb_block_size ecb = 16" "n \<le> length xs"
  shows "\<exists>c' out. gcm_text dec c n xs = (c', out) \<and> gcm_advanced dec ecb k J0 A C n xs c' out"
proof -
  have p: "unat (gcm_text_nbytes c mod 16) = length C mod 16" using assms(1) by (simp add: gcm_session_def unat_mod_16)
  show ?thesis
  proof (cases "length C mod 16 > 0 \<and> n < 16 - length C mod 16")
    case True
    then have t: "gcm_text dec c n xs = (if n > 0 then gcm_chunk dec c (length C mod 16) n xs else (c, []))"
      by (simp add: gcm_text_def gcm_partial_def p case_prod_beta Let_def)
    obtain c' out where "gcm_chunk dec c (length C mod 16) n xs = (c', out)" by force
    moreover have "length C mod 16 + n < 16" using True by linarith
    ultimately show ?thesis
      using chunk_advanced [OF assms(1,2) _ assms(3), of dec c' out] advanced_nothing [OF assms(1)] t by (cases "n = 0") simp_all
  next
    case False
    obtain m c1 o1 where m: "m \<le> n" "(length C + m) mod 16 = 0"
        and 1: "gcm_partial dec c (length C mod 16) n xs = (c1, 0, n - m, drop m xs, o1)" "gcm_advanced dec ecb k J0 A C m xs c1 o1"
      by (rule partial_advanced [OF assms False])
    define r where "r = (n - m) mod 16"
    have r: "r < 16" "m + (n - m - r) = n - r" "r \<le> n" "n - m \<le> length (drop m xs)"
      using assms(3) m(1) mod_less_eq_dividend [of "n - m" 16] by (simp_all add: r_def)
    have l1: "length (C @ (if dec then take m xs else o1)) mod 16 = 0"
      using advanced_length [OF 1(2)] m assms(3) by simp
    from loop_advanced [OF advanced_session [OF 1(2)] assms(2) l1 r(4), of dec] obtain c2 o2 where
      2: "gcm_loop dec c1 (n - m) (drop m xs) = (c2, r, drop (n - m - r) (drop m xs), o2)"
        "gcm_advanced dec ecb k J0 A (C @ (if dec then take m xs else o1)) (n - m - r) (drop m xs) c2 o2"
      unfolding r_def by blast
    have a2: "gcm_advanced dec ecb k J0 A C (n - r) xs c2 (o1 @ o2)"
      using advanced_trans [OF 1(2) 2(2)] r(2,3) assms(3) by simp
    have "16 dvd length C + (n - r)"
      using m(2) dvd_minus_mod [of 16 "n - m"] r(2) by (metis add.assoc dvd_add mod_0_imp_dvd r_def)
    then have l2: "length (C @ (if dec then take (n - r) xs else o1 @ o2)) mod 16 = 0"
      using advanced_length [OF a2] assms(3) by simp
    obtain c3 o3 where 3: "gcm_chunk dec c2 0 r (drop (n - r) xs) = (c3, o3)" by force
    have t: "gcm_text dec c n xs = (if r > 0 then (c3, o1 @ o2 @ o3) else (c2, o1 @ o2))"
      unfolding gcm_text_def p 1 using 3 r(2) by (simp add: 2(1) add.commute)
    show ?thesis
    proof (cases "r = 0")
      case False
      have "gcm_advanced dec ecb k J0 A (C @ (if dec then take (n - r) xs else o1 @ o2)) r (drop (n - r) xs) c3 o3"
      proof (rule chunk_advanced [OF advanced_session [OF a2] assms(2)], unfold l2)
        show "r \<le> length (drop (n - r) xs)" using r(3) assms(3) by simp
      qed (use 3 r(1) False in simp_all)
      then show ?thesis using advanced_trans [OF a2, of r c3 o3] r(3) assms(3) t False by simp
    qed (use a2 t in simp)
  qed
qed

text \<open>The end of the additional data.\<close>

lemma gcm_session_finalize_aad:
  assumes "gcm_session ecb k J0 CCMODE_GCM_STATE_AAD A [] c"
  shows "gcm_session ecb k J0 CCMODE_GCM_STATE_TEXT A [] (ccmode_gcm_aad_finalize c)"
proof -
  have "absorb_bytes (gcm_H c) (replicate 16 0, 0) A = (gcm_X c, length A mod 16)"
    using gcm_session_hash(2) [OF assms] by (simp add: gcm_hashed_def)
  note z = absorb_zero_fill [OF this] this
  have "gcm_aad_nbytes c mod 16 > 0 \<longleftrightarrow> length A mod 16 \<noteq> 0"
  proof -
    have "gcm_aad_nbytes c mod 16 = 0 \<longleftrightarrow> unat (gcm_aad_nbytes c mod 16) = 0" by (simp only: unat_eq_0)
    then show ?thesis using assms by (simp add: gcm_session_def unat_mod_16 word_neq_0_conv [symmetric])
  qed
  then show ?thesis
    using assms z unfolding gcm_session_def ccmode_gcm_aad_finalize_def
    by (cases "length A mod 16 = 0") (simp_all add: gcm_hashed_def ccmode_gcm_mult_h_def Let_def)
qed

lemma finalize_text [simp]: "gcm_state c = CCMODE_GCM_STATE_TEXT \<Longrightarrow> ccmode_gcm_aad_finalize c = c"
  by (simp add: ccmode_gcm_aad_finalize_def)

lemma gcm_session_finalized:
  assumes "gcm_session ecb k J0 st A C c" "st = CCMODE_GCM_STATE_AAD \<or> st = CCMODE_GCM_STATE_TEXT"
  shows "gcm_session ecb k J0 CCMODE_GCM_STATE_TEXT A C (ccmode_gcm_aad_finalize c)"
proof (cases "st = CCMODE_GCM_STATE_AAD")
  case True
  then have "C = []" using assms(1) by (simp add: gcm_session_def)
  then show ?thesis using True assms(1) gcm_session_finalize_aad by simp
next
  case False
  then have "gcm_state c = CCMODE_GCM_STATE_TEXT" using assms by (simp add: gcm_session_def)
  then show ?thesis using False assms by simp
qed

text \<open>The two guards of the calls on text are the limit of the standard.\<close>

lemma gcm_text_guard:
  assumes "t \<le> CCGCM_TEXT_MAX_NBYTES" "n < 2 ^ 64"
  shows "unat (- 1 - of_nat t :: cc_unit) \<ge> n \<and> unat (of_nat t + of_nat n :: cc_unit) \<le> CCGCM_TEXT_MAX_NBYTES \<longleftrightarrow>
    t + n \<le> CCGCM_TEXT_MAX_NBYTES"
proof -
  have t: "t < 2 ^ 63" using assms(1) by (simp add: CCGCM_TEXT_MAX_NBYTES_def)
  have "unat (- 1 - of_nat t :: cc_unit) = 2 ^ 64 - 1 - t"
    using t by (simp add: unat_sub_if' unat_of_nat unsigned_minus_1_eq_mask mask_eq_exp_minus_1)
  moreover have "unat (of_nat t + of_nat n :: cc_unit) = (t + n) mod 2 ^ 64" by (simp add: unat_of_nat flip: of_nat_add)
  ultimately show ?thesis using t assms by (cases "t + n < 2 ^ 64") (auto simp: CCGCM_TEXT_MAX_NBYTES_def)
qed

lemma gcm_session_crypt:
  assumes "gcm_session ecb k J0 st A C c" "st = CCMODE_GCM_STATE_AAD \<or> st = CCMODE_GCM_STATE_TEXT" "ecb_block_size ecb = 16"
    "n \<le> length xs" "n < 2 ^ 64" "length C \<le> CCGCM_TEXT_MAX_NBYTES" "out = mask_with (\<lambda>i. gcm_keystream ecb k J0 (length C + i)) n xs"
  shows "length C + n \<le> CCGCM_TEXT_MAX_NBYTES \<Longrightarrow> \<exists>c'. gcm_crypt dec c n xs = (0, c', out) \<and>
      gcm_session ecb k J0 CCMODE_GCM_STATE_TEXT A (C @ (if dec then take n xs else out)) c'"
    "\<not> length C + n \<le> CCGCM_TEXT_MAX_NBYTES \<Longrightarrow> gcm_crypt dec c n xs = (CCMODE_INVALID_INPUT, ccmode_gcm_aad_finalize c, [])"
proof -
  let ?f = "ccmode_gcm_aad_finalize c"
  have f: "gcm_session ecb k J0 CCMODE_GCM_STATE_TEXT A C ?f" by (rule gcm_session_finalized [OF assms(1,2)])
  then have s: "gcm_state ?f = CCMODE_GCM_STATE_TEXT" "gcm_text_nbytes ?f = of_nat (length C)" by (simp_all add: gcm_session_def)
  note g = gcm_text_guard [OF assms(6,5)]
  show "gcm_crypt dec c n xs = (CCMODE_INVALID_INPUT, ?f, [])" if "\<not> length C + n \<le> CCGCM_TEXT_MAX_NBYTES"
    unfolding gcm_crypt_def Let_def s g using that by simp
  obtain c' o' where t: "gcm_text dec ?f n xs = (c', o')" and "gcm_advanced dec ecb k J0 A C n xs c' o'"
    using text_advanced [OF f assms(3,4)] by blast
  then have o: "o' = out" "gcm_session ecb k J0 CCMODE_GCM_STATE_TEXT A (C @ (if dec then take n xs else out)) c'"
    by (auto simp: gcm_advanced_def assms(7))
  show "\<exists>c'. gcm_crypt dec c n xs = (0, c', out) \<and>
      gcm_session ecb k J0 CCMODE_GCM_STATE_TEXT A (C @ (if dec then take n xs else out)) c'" if "length C + n \<le> CCGCM_TEXT_MAX_NBYTES"
    unfolding gcm_crypt_def Let_def s g using that t o by (intro exI [of _ c']) simp
qed

end

end
