(* ===== verification/Ccmode_Gcm_Session.thy ===== *)
theory Ccmode_Gcm_Session
  imports Ccmode_Gcm
begin

unbundle bit_operations_syntax

text \<open>
  Whole messages in Galois/counter mode: what the calls leave alone, a session from the initial value to the tag, the
  one-shot calls and SP 800-38D, messages in pieces, and the initial values of consecutive messages.
\<close>

section \<open>What the calls leave alone\<close>

definition gcm_fixed :: "'k ccgcm_ctx \<Rightarrow> 'k ccmode_ecb \<times> 'k \<times> bytes \<times> bytes \<times> nat \<times> 16 word" where
  "gcm_fixed c = (gcm_ecb c, gcm_ecb_key c, gcm_H c, gcm_Y_0 c, gcm_encdec c, gcm_flags c)"

lemma fixed_fields [simp]:
  "gcm_fixed (c\<lparr>gcm_X := x\<rparr>) = gcm_fixed c" "gcm_fixed (c\<lparr>gcm_Y := x\<rparr>) = gcm_fixed c"
  "gcm_fixed (c\<lparr>gcm_buf := x\<rparr>) = gcm_fixed c"
  "gcm_fixed (c\<lparr>gcm_state := st\<rparr>) = gcm_fixed c" "gcm_fixed (c\<lparr>gcm_buf_nbytes := w\<rparr>) = gcm_fixed c"
  "gcm_fixed (c\<lparr>gcm_aad_nbytes := v\<rparr>) = gcm_fixed c" "gcm_fixed (c\<lparr>gcm_text_nbytes := v\<rparr>) = gcm_fixed c"
  by (simp_all add: gcm_fixed_def)

lemma fixed_update_pad [simp]: "gcm_fixed (ccmode_gcm_update_pad c) = gcm_fixed c"
  by (simp add: ccmode_gcm_update_pad_def Let_def)

lemma fixed_aad_finalize [simp]: "gcm_fixed (ccmode_gcm_aad_finalize c) = gcm_fixed c"
  by (simp add: ccmode_gcm_aad_finalize_def Let_def)

lemma fixed_aad_loop [simp]: "gcm_fixed (fst (gcm_aad_loop c n d)) = gcm_fixed c"
proof (induction c n d rule: gcm_aad_loop.induct)
  case (1 c n d)
  then show ?case by (cases "16 \<le> n") (simp_all add: gcm_aad_loop.simps [of c n])
qed

lemma fixed_crypt_loop:
  "gcm_fixed (fst (gcm_encrypt_loop c n d)) = gcm_fixed c" "gcm_fixed (fst (gcm_decrypt_loop c n d)) = gcm_fixed c"
proof -
  show "gcm_fixed (fst (gcm_encrypt_loop c n d)) = gcm_fixed c"
  proof (induction c n d rule: gcm_encrypt_loop.induct)
    case (1 c n d)
    then show ?case by (cases "16 \<le> n") (simp_all add: gcm_encrypt_loop.simps [of c n] Let_def case_prod_beta)
  qed
  show "gcm_fixed (fst (gcm_decrypt_loop c n d)) = gcm_fixed c"
  proof (induction c n d rule: gcm_decrypt_loop.induct)
    case (1 c n d)
    then show ?case by (cases "16 \<le> n") (simp_all add: gcm_decrypt_loop.simps [of c n] Let_def case_prod_beta)
  qed
qed

lemma fixed_loop [simp]: "gcm_fixed (fst (gcm_loop dec c n d)) = gcm_fixed c"
  by (simp add: gcm_loop_def fixed_crypt_loop)

lemma fixed_chunk [simp]: "gcm_fixed (fst (gcm_chunk dec c pos m d)) = gcm_fixed c"
  by (simp add: gcm_chunk_def Let_def)

lemma fixed_partial [simp]: "gcm_fixed (fst (gcm_partial dec c pos n d)) = gcm_fixed c"
  by (simp add: gcm_partial_def gcm_block_def case_prod_beta)

lemma fixed_aad [simp]: "gcm_fixed (snd (ccmode_gcm_aad c n d)) = gcm_fixed c"
  by (simp add: ccmode_gcm_aad_def gcm_aad_partial_def case_prod_beta Let_def)

lemma fixed_crypt [simp]: "gcm_fixed (fst (snd (gcm_crypt dec c n d))) = gcm_fixed c"
  by (simp add: gcm_crypt_def gcm_text_def case_prod_beta Let_def)

lemma fixed_finalize [simp]: "gcm_fixed (fst (snd (ccmode_gcm_finalize c n tag))) = gcm_fixed c"
  by (simp add: ccmode_gcm_finalize_def Let_def)

lemma fixed_reset [simp]: "gcm_fixed (snd (ccmode_gcm_reset c)) = gcm_fixed c"
  by (simp add: ccmode_gcm_reset_def)

section \<open>From the key to the tag\<close>

definition gcm_ready :: "'k ccmode_ecb \<Rightarrow> 'k \<Rightarrow> 'k ccgcm_ctx \<Rightarrow> bool" where
  "gcm_ready ecb k c \<longleftrightarrow>
     gcm_ecb c = ecb \<and> gcm_ecb_key c = k \<and> gcm_H c = ecb_block ecb k (replicate 16 0) \<and> gcm_state c = CCMODE_GCM_STATE_IV \<and>
     gcm_X c = replicate 16 0 \<and> gcm_aad_nbytes c = 0 \<and> gcm_text_nbytes c = 0"

text \<open>Every initial value goes through this step.\<close>

definition gcm_started :: "bytes \<Rightarrow> 'k ccgcm_ctx \<Rightarrow> 'k ccgcm_ctx" where
  "gcm_started J0 c = (ccmode_gcm_update_pad (c\<lparr>gcm_Y := J0, gcm_Y_0 := J0\<rparr>))\<lparr>gcm_state := CCMODE_GCM_STATE_AAD\<rparr>"

lemma started_encdec [simp]: "gcm_encdec (gcm_started J0 c) = gcm_encdec c"
  by (simp add: gcm_started_def)

lemma started_session: "gcm_ready ecb k c \<Longrightarrow> gcm_session ecb k J0 CCMODE_GCM_STATE_AAD [] [] (gcm_started J0 c)"
  by (simp add: gcm_ready_def gcm_session_def gcm_started_def gcm_hashed_def)

lemma store32_one: "cc_store32_be 1 = [0, 0, 0, 1]"
  by code_simp

lemma set_iv_started:
  assumes "gcm_state c = CCMODE_GCM_STATE_IV" "gcm_flags c AND CCGCM_FLAGS_INIT_WITH_IV = 0" "iv \<noteq> []"
  shows "ccmode_gcm_set_iv c (length iv) (Some iv) = (0, gcm_started (gcm_j0 (gcm_H c) iv) c)"
proof (cases "length iv = 12")
  case True
  then show ?thesis
    using assms by (simp add: ccmode_gcm_set_iv_def gcm_started_def gcm_j0_def store32_one Let_def)
next
  case False
  show ?thesis
    using set_iv_j0 [OF refl False, of c] assms False
    by (simp add: ccmode_gcm_set_iv_def gcm_started_def Let_def case_prod_beta)
qed

lemma reset_ready: "gcm_ecb c = ecb \<Longrightarrow> gcm_ecb_key c = k \<Longrightarrow> gcm_H c = ecb_block ecb k (replicate 16 0) \<Longrightarrow>
  fst (ccmode_gcm_reset c) = 0 \<and> gcm_ready ecb k (snd (ccmode_gcm_reset c))"
  by (simp add: ccmode_gcm_reset_def gcm_ready_def)

lemma init_eq:
  assumes "ecb_block_size ecb = 16" "ecb_init ecb (gcm_ecb_key c) n raw = (rc, k)"
  shows "ccmode_gcm_init ecb encdec c n raw = (0, (snd (ccmode_gcm_reset (c\<lparr>gcm_ecb := ecb, gcm_encdec := encdec, gcm_ecb_key := k,
    gcm_flags := 0\<rparr>)))\<lparr>gcm_H := ecb_block ecb k (replicate 16 0)\<rparr>)"
proof -
  have f: "gcm_ecb_key (c\<lparr>gcm_ecb := ecb, gcm_encdec := encdec\<rparr>) = gcm_ecb_key c"
    "gcm_ecb_key (snd (ccmode_gcm_reset (c\<lparr>gcm_ecb := ecb, gcm_encdec := encdec, gcm_ecb_key := k, gcm_flags := 0\<rparr>))) = k"
    "gcm_X (snd (ccmode_gcm_reset x)) = replicate 16 0" for x :: "'a ccgcm_ctx"
    by (simp_all add: ccmode_gcm_reset_def)
  show ?thesis
    by (simp only: ccmode_gcm_init_def assms if_False simp_thms Let_def case_prod_beta fst_conv snd_conv f ecb_block_def)
qed

lemma init_ready:
  assumes "ecb_block_size ecb = 16" "ecb_init ecb (gcm_ecb_key c) n raw = (rc, k)"
  shows "\<exists>c'. ccmode_gcm_init ecb encdec c n raw = (0, c') \<and> gcm_ready ecb k c' \<and> gcm_encdec c' = encdec \<and> gcm_flags c' = 0"
  unfolding init_eq [OF assms] by (simp add: ccmode_gcm_reset_def gcm_ready_def)

context block_cipher
begin

lemma gcm_session_finalize:
  assumes "gcm_session ecb k J0 st A C c" "st = CCMODE_GCM_STATE_AAD \<or> st = CCMODE_GCM_STATE_TEXT" "ecb_block_size ecb = 16"
    "T = gcm_tag ecb k J0 A C"
  shows "\<exists>c'. gcm_state c' = CCMODE_GCM_STATE_FINAL \<and> gcm_fixed c' = gcm_fixed c \<and> ccmode_gcm_finalize c n tag =
    (if gcm_encdec c = CCMODE_GCM_DECRYPTOR \<and> cc_cmp_safe (min n 16) T tag \<noteq> 0 then CCMODE_INTEGRITY_FAILURE else 0,
     c', take (min n 16) T @ drop (min n 16) tag)"
proof -
  let ?f = "ccmode_gcm_aad_finalize c" and ?H = "ecb_block ecb k (replicate 16 0)" and ?z = "replicate 16 0 :: bytes"
  let ?L = "cc_store64_be (of_nat (8 * length A)) @ cc_store64_be (of_nat (8 * length C))"
  have f: "gcm_session ecb k J0 CCMODE_GCM_STATE_TEXT A C ?f" by (rule gcm_session_finalized [OF assms(1,2)])
  then have s: "gcm_state ?f = CCMODE_GCM_STATE_TEXT" "gcm_text_nbytes ?f = of_nat (length C)" "gcm_aad_nbytes ?f = of_nat (length A)"
    "gcm_H ?f = ?H" "gcm_ecb ?f = ecb" "gcm_ecb_key ?f = k" "gcm_Y_0 ?f = J0" by (simp_all add: gcm_session_def)
  have e: "gcm_encdec ?f = gcm_encdec c" using fixed_aad_finalize [of c] by (simp only: gcm_fixed_def prod.inject)
  have h: "absorb_bytes ?H (?z, 0) (A @ zero_fill A @ C) = (gcm_X ?f, length C mod 16)"
    using gcm_session_hash(2) [OF f] hashed_mod [of CCMODE_GCM_STATE_TEXT A C] by (simp add: gcm_hashed_def s(4))
  define X1 where "X1 = (if gcm_text_nbytes ?f mod 16 > 0 then ccmode_gcm_mult_h ?f (gcm_X ?f) else gcm_X ?f)"
  have "gcm_text_nbytes ?f mod 16 > 0 \<longleftrightarrow> length C mod 16 \<noteq> 0"
    using unat_mod_16 [of "length C"] unfolding s(2) word_greater_zero_iff by (metis unat_0 unat_eq_0)
  moreover have "zero_fill C = zero_fill (A @ zero_fill A @ C)"
    using hashed_mod [of CCMODE_GCM_STATE_TEXT A C] by (simp add: gcm_hashed_def zero_fill_def)
  ultimately have X1: "absorb_bytes ?H (?z, 0) ((A @ zero_fill A @ C) @ zero_fill C) = (X1, 0)" "length X1 = 16"
    using absorb_zero_fill [OF h] gcm_session_hash(1) [OF f]
    unfolding absorb_bytes_simps(2) [of _ _ "A @ zero_fill A @ C"] h by (simp_all add: X1_def ccmode_gcm_mult_h_def s(4))
  have L: "length ?L = 16" by simp
  then have L: "length ?L = 16" "?L \<noteq> []" by (force simp del: length_append)+
  have "absorb_bytes ?H (X1, 0) ?L = (ccmode_gcm_gf_mult ?H (cc_xor 16 X1 ?L), 0)"
    using absorb_full [OF X1(2) _ L(2), of 0 ?H] xor_at_full [OF X1(2), of ?L] unfolding L(1) by (simp del: absorb_bytes_simps)
  then have "absorb_bytes ?H (?z, 0) (((A @ zero_fill A @ C) @ zero_fill C) @ ?L) = (ccmode_gcm_gf_mult ?H (cc_xor 16 X1 ?L), 0)"
    by (simp only: absorb_bytes_simps(2) [of _ _ "(A @ zero_fill A @ C) @ zero_fill C"] X1(1))
  moreover have "16 dvd (length A + length (zero_fill A)) + (length C + length (zero_fill C)) + length ?L"
    unfolding L(1) by (intro dvd_add mod_0_imp_dvd zero_fill_length) simp
  then have "length (((A @ zero_fill A @ C) @ zero_fill C) @ ?L) mod 16 = 0"
    by (intro dvd_imp_mod_0) (simp only: length_append ac_simps)
  then have "absorb_bytes ?H (?z, 0) (((A @ zero_fill A @ C) @ zero_fill C) @ ?L) = (ghash ?H ?z (((A @ zero_fill A @ C) @ zero_fill C) @ ?L), 0)"
    by (intro ghash_absorb) simp_all
  ultimately have T: "T = cc_xor 16 (ccmode_gcm_gf_mult ?H (cc_xor 16 X1 ?L)) (ecb_block ecb k J0)"
    by (simp add: assms(4) gcm_tag_def)
  have m: "of_nat a * 8 = (of_nat (8 * a) :: cc_unit)" for a by (simp add: mult.commute)
  have i: "CCMODE_INTEGRITY_FAILURE AND - uint (cc_heaviside_step (of_int (cc_cmp_safe j x y))) =
      (if cc_cmp_safe j x y \<noteq> 0 then CCMODE_INTEGRITY_FAILURE else 0)" for j x y
    by (simp add: cc_cmp_safe_eq CCMODE_INTEGRITY_FAILURE_def)
  have u: "(if gcm_text_nbytes ?f mod 16 > 0 then ?f\<lparr>gcm_X := ccmode_gcm_mult_h ?f (gcm_X ?f)\<rparr> else ?f) = ?f\<lparr>gcm_X := X1\<rparr>"
    by (simp add: X1_def)
  let ?r = "ccmode_gcm_finalize c n tag"
  have "fst ?r = (if gcm_encdec c = CCMODE_GCM_DECRYPTOR \<and> cc_cmp_safe (min n 16) T tag \<noteq> 0 then CCMODE_INTEGRITY_FAILURE else 0)"
    "snd (snd ?r) = take (min n 16) T @ drop (min n 16) tag" "gcm_state (fst (snd ?r)) = CCMODE_GCM_STATE_FINAL"
    unfolding ccmode_gcm_finalize_def Let_def u
    by (simp_all add: s s(2) [simplified] e m i T ecb_block_def [symmetric] ccmode_gcm_mult_h_def cc_heaviside_step_eq [of 0] del: cc_heaviside_step_eq)
  then show ?thesis by (intro exI [of _ "fst (snd ?r)"] conjI fixed_finalize) (auto simp: prod_eq_iff)
qed

end

section \<open>One-shot calls, and calls in pieces\<close>

definition gcm_mode :: "bool \<Rightarrow> 'k ccmode_ecb \<Rightarrow> 'k ccmode_gcm" where
  "gcm_mode dec ecb = (if dec then CCMODE_FACTORY_GCM_DECRYPT ecb else CCMODE_FACTORY_GCM_ENCRYPT ecb)"

lemma gcm_mode_fields [simp]:
  "gcm_gmac (gcm_mode dec ecb) = ccmode_gcm_aad" "gcm_gcm (gcm_mode dec ecb) = gcm_crypt dec"
  "gcm_finalize (gcm_mode dec ecb) = ccmode_gcm_finalize" "gcm_reset (gcm_mode dec ecb) = ccmode_gcm_reset"
  "gcm_init (gcm_mode dec ecb) = ccmode_gcm_init ecb (if dec then CCMODE_GCM_DECRYPTOR else CCMODE_GCM_ENCRYPTOR)"
  "gcm_set_iv (gcm_mode dec ecb) = ccmode_gcm_set_iv"
  by (simp_all add: gcm_mode_def CCMODE_FACTORY_GCM_ENCRYPT_def CCMODE_FACTORY_GCM_DECRYPT_def crypt_eq)

lemma encryptor_decryptor [simp]: "CCMODE_GCM_ENCRYPTOR \<noteq> CCMODE_GCM_DECRYPTOR"
  by (simp add: CCMODE_GCM_ENCRYPTOR_def CCMODE_GCM_DECRYPTOR_def)

text \<open>The result of a whole message, in one direction or the other.\<close>

definition gcm_result ::
  "bool \<Rightarrow> 'k ccmode_ecb \<Rightarrow> 'k \<Rightarrow> bytes \<Rightarrow> bytes \<Rightarrow> bytes \<Rightarrow> nat \<Rightarrow> bytes \<Rightarrow> int \<times> bytes \<times> bytes" where
  "gcm_result dec ecb k J0 A xs n tag =
     (let out = mask_with (gcm_keystream ecb k J0) (length xs) xs;
          T = gcm_tag ecb k J0 A (if dec then xs else out)
      in (if dec \<and> cc_cmp_safe (min n 16) T tag \<noteq> 0 then CCMODE_INTEGRITY_FAILURE else 0,
          out, take (min n 16) T @ drop (min n 16) tag))"

lemma gcm_result_cong: "ecb_block ecb k' = ecb_block ecb k \<Longrightarrow> gcm_result dec ecb k' J0 A xs n tag = gcm_result dec ecb k J0 A xs n tag"
  by (simp add: gcm_result_def gcm_keystream_def gcm_tag_def mask_with_def)

text \<open>Additional data and text handed over in pieces; the first code that is not 0 ends the calls.\<close>

fun gcm_aad_calls :: "'k ccmode_gcm \<Rightarrow> 'k ccgcm_ctx \<Rightarrow> bytes list \<Rightarrow> int \<times> 'k ccgcm_ctx" where
  "gcm_aad_calls mode c [] = (0, c)"
| "gcm_aad_calls mode c (bs # bss) =
     (let (rc, c) = gcm_gmac mode c (length bs) bs in if rc \<noteq> 0 then (rc, c) else gcm_aad_calls mode c bss)"

fun gcm_text_calls :: "'k ccmode_gcm \<Rightarrow> 'k ccgcm_ctx \<Rightarrow> bytes list \<Rightarrow> int \<times> 'k ccgcm_ctx \<times> bytes" where
  "gcm_text_calls mode c [] = (0, c, [])"
| "gcm_text_calls mode c (bs # bss) =
     (let (rc, c, out) = gcm_gcm mode c (length bs) bs
      in if rc \<noteq> 0 then (rc, c, out)
         else let (rc, c, rest) = gcm_text_calls mode c bss in (rc, c, out @ rest))"

definition gcm_message_in_pieces ::
  "'k ccmode_gcm \<Rightarrow> 'k ccgcm_ctx \<Rightarrow> bytes list \<Rightarrow> bytes list \<Rightarrow> nat \<Rightarrow> bytes \<Rightarrow> int \<times> bytes \<times> bytes" where
  "gcm_message_in_pieces mode c aads texts n tag =
     (let (rc, c) = gcm_aad_calls mode c aads
      in if rc \<noteq> 0 then (rc, [], tag)
         else let (rc, c, out) = gcm_text_calls mode c texts
              in if rc \<noteq> 0 then (rc, out, tag)
                 else let (rc, c, tag) = gcm_finalize mode c n tag in (rc, out, tag))"

definition gcm_in_pieces ::
  "'k ccmode_gcm \<Rightarrow> 'k ccgcm_ctx \<Rightarrow> nat \<Rightarrow> bytes \<Rightarrow> bytes \<Rightarrow> bytes list \<Rightarrow> bytes list \<Rightarrow> nat \<Rightarrow> bytes \<Rightarrow> int \<times> bytes \<times> bytes" where
  "gcm_in_pieces mode ctx kn raw iv aads texts n tag =
     (let (rc, ctx) = gcm_init mode ctx kn raw
      in if rc \<noteq> 0 then (rc, [], tag)
         else let (rc, ctx) = gcm_set_iv mode ctx (length iv) (Some iv)
              in if rc \<noteq> 0 then (rc, [], tag) else gcm_message_in_pieces mode ctx aads texts n tag)"

lemma after_iv_pieces: "gcm_after_iv mode c (length A) A (length xs) xs n tag = gcm_message_in_pieces mode c [A] [xs] n tag"
  by (simp add: gcm_after_iv_def gcm_message_in_pieces_def case_prod_beta Let_def)

lemma gcm_session_aad_calls:
  "gcm_session ecb k J0 CCMODE_GCM_STATE_AAD A [] c \<Longrightarrow>
   \<exists>c'. gcm_aad_calls (gcm_mode dec e) c bss = (0, c') \<and> gcm_session ecb k J0 CCMODE_GCM_STATE_AAD (A @ concat bss) [] c' \<and>
     gcm_fixed c' = gcm_fixed c"
proof (induction bss arbitrary: A c)
  case (Cons bs bss)
  obtain d where d: "ccmode_gcm_aad c (length bs) bs = (0, d)" "gcm_session ecb k J0 CCMODE_GCM_STATE_AAD (A @ bs) [] d"
    using gcm_session_aad [OF Cons.prems order_refl, of bs] by auto
  from Cons.IH [OF d(2)] show ?case using d(1) fixed_aad [of c "length bs" bs] by auto
qed simp

context block_cipher
begin

lemma gcm_session_text_calls:
  "gcm_session ecb k J0 st A C c \<Longrightarrow> st = CCMODE_GCM_STATE_AAD \<or> st = CCMODE_GCM_STATE_TEXT \<Longrightarrow> ecb_block_size ecb = 16 \<Longrightarrow>
   length C + length (concat bss) \<le> CCGCM_TEXT_MAX_NBYTES \<Longrightarrow>
   out = mask_with (\<lambda>i. gcm_keystream ecb k J0 (length C + i)) (length (concat bss)) (concat bss) \<Longrightarrow>
   \<exists>c' st'. gcm_text_calls (gcm_mode dec e) c bss = (0, c', out) \<and> (st' = CCMODE_GCM_STATE_AAD \<or> st' = CCMODE_GCM_STATE_TEXT) \<and>
     gcm_session ecb k J0 st' A (C @ (if dec then concat bss else out)) c' \<and> gcm_fixed c' = gcm_fixed c"
proof (induction bss arbitrary: C c st out)
  case Nil
  then show ?case by (auto simp: mask_with_def)
next
  case (Cons bs bss)
  let ?ks = "\<lambda>i. gcm_keystream ecb k J0 (length C + i)"
  have n: "length bs < 2 ^ 64" "length C + length bs \<le> CCGCM_TEXT_MAX_NBYTES" "length C \<le> CCGCM_TEXT_MAX_NBYTES"
    using Cons.prems(4) by (simp_all add: CCGCM_TEXT_MAX_NBYTES_def)
  define o1 where "o1 = mask_with ?ks (length bs) bs"
  define C1 where "C1 = C @ (if dec then bs else o1)"
  define o2 where "o2 = mask_with (\<lambda>i. gcm_keystream ecb k J0 (length C1 + i)) (length (concat bss)) (concat bss)"
  have l1: "length C1 = length C + length bs" by (simp add: C1_def o1_def)
  obtain d where d: "gcm_crypt dec c (length bs) bs = (0, d, o1)" "gcm_session ecb k J0 CCMODE_GCM_STATE_TEXT A C1 d"
    using gcm_session_crypt(1) [OF Cons.prems(1-3) order_refl n(1,3) o1_def n(2), of dec] unfolding C1_def take_all [OF order_refl] by blast
  have f: "gcm_fixed d = gcm_fixed c" using fixed_crypt [of dec c "length bs" bs] d(1) by simp
  have "length C1 + length (concat bss) \<le> CCGCM_TEXT_MAX_NBYTES" using Cons.prems(4) l1 by simp
  from Cons.IH [OF d(2) _ Cons.prems(3) this o2_def] obtain c' st' where
    c': "gcm_text_calls (gcm_mode dec e) d bss = (0, c', o2)" "st' = CCMODE_GCM_STATE_AAD \<or> st' = CCMODE_GCM_STATE_TEXT"
      "gcm_session ecb k J0 st' A (C1 @ (if dec then concat bss else o2)) c'" "gcm_fixed c' = gcm_fixed d"
    by blast
  have "out = o1 @ o2"
    using mask_with_append [of "length bs" "bs @ concat bss" ?ks "length (concat bss)"]
      mask_with_cong [of "length bs" "bs @ concat bss" bs ?ks]
    by (simp add: Cons.prems(5) o1_def o2_def l1 nth_append add.assoc)
  then have "C1 @ (if dec then concat bss else o2) = C @ (if dec then concat (bs # bss) else out)" by (simp add: C1_def)
  then show ?case using c' d(1) f \<open>out = o1 @ o2\<close> by auto
qed

lemma message_in_pieces:
  assumes "gcm_session ecb k J0 CCMODE_GCM_STATE_AAD [] [] c" "ecb_block_size ecb = 16" "length (concat texts) \<le> CCGCM_TEXT_MAX_NBYTES"
    "gcm_encdec c = CCMODE_GCM_DECRYPTOR \<longleftrightarrow> dec"
  shows "gcm_message_in_pieces (gcm_mode dec e) c aads texts n tag = gcm_result dec ecb k J0 (concat aads) (concat texts) n tag"
proof -
  obtain c1 where 1: "gcm_aad_calls (gcm_mode dec e) c aads = (0, c1)" "gcm_session ecb k J0 CCMODE_GCM_STATE_AAD (concat aads) [] c1"
      "gcm_fixed c1 = gcm_fixed c"
    using gcm_session_aad_calls [OF assms(1), of dec e aads] by auto
  define out where "out = mask_with (gcm_keystream ecb k J0) (length (concat texts)) (concat texts)"
  obtain c2 st where 2: "gcm_text_calls (gcm_mode dec e) c1 texts = (0, c2, out)" "st = CCMODE_GCM_STATE_AAD \<or> st = CCMODE_GCM_STATE_TEXT"
      "gcm_session ecb k J0 st (concat aads) (if dec then concat texts else out) c2" "gcm_fixed c2 = gcm_fixed c1"
    using gcm_session_text_calls [OF 1(2) _ assms(2), of texts out dec e] assms(3) by (auto simp: out_def)
  have e: "gcm_encdec c2 = gcm_encdec c" using 2(4) 1(3) by (simp add: gcm_fixed_def)
  from gcm_session_finalize [OF 2(3,2) assms(2) refl, of n tag] show ?thesis
    using 1(1) 2(1) e assms(4) by (auto simp: gcm_message_in_pieces_def gcm_result_def out_def Let_def)
qed

lemma in_pieces:
  assumes "ecb_block_size ecb = 16" "ecb_init ecb (gcm_ecb_key ctx) kn raw = (rc, k)" "iv \<noteq> []"
    "length (concat texts) \<le> CCGCM_TEXT_MAX_NBYTES" "H = ecb_block ecb k (replicate 16 0)"
  shows "gcm_in_pieces (gcm_mode dec ecb) ctx kn raw iv aads texts n tag =
    gcm_result dec ecb k (gcm_j0 H iv) (concat aads) (concat texts) n tag"
proof -
  let ?e = "if dec then CCMODE_GCM_DECRYPTOR else CCMODE_GCM_ENCRYPTOR"
  obtain c where c: "ccmode_gcm_init ecb ?e ctx kn raw = (0, c)" "gcm_ready ecb k c" "gcm_encdec c = ?e" "gcm_flags c = 0"
    using init_ready [OF assms(1,2)] by blast
  have "gcm_H c = H" "gcm_state c = CCMODE_GCM_STATE_IV" using c(2) by (simp_all add: gcm_ready_def assms(5))
  then have i: "ccmode_gcm_set_iv c (length iv) (Some iv) = (0, gcm_started (gcm_j0 H iv) c)"
    using set_iv_started [of c iv] assms(3) c(4) by simp
  have "gcm_encdec (gcm_started (gcm_j0 H iv) c) = CCMODE_GCM_DECRYPTOR \<longleftrightarrow> dec" using c(3) by simp
  from message_in_pieces [OF started_session [OF c(2)] assms(1) assms(4) this] show ?thesis
    by (simp add: gcm_in_pieces_def c(1) i)
qed

lemma one_shot:
  assumes "ecb_block_size ecb = 16" "ecb_init ecb (gcm_ecb_key ctx) kn raw = (rc, k)" "iv \<noteq> []" "length xs \<le> CCGCM_TEXT_MAX_NBYTES"
    "H = ecb_block ecb k (replicate 16 0)"
  shows "ccgcm_one_shot (gcm_mode dec ecb) ctx kn raw (length iv) (Some iv) (length A) A (length xs) xs n tag =
    gcm_result dec ecb k (gcm_j0 H iv) A xs n tag"
proof -
  have "ccgcm_one_shot (gcm_mode dec ecb) ctx kn raw (length iv) (Some iv) (length A) A (length xs) xs n tag =
      gcm_in_pieces (gcm_mode dec ecb) ctx kn raw iv [A] [xs] n tag"
    by (simp only: ccgcm_one_shot_def gcm_in_pieces_def after_iv_pieces)
  then show ?thesis using in_pieces [OF assms(1-3) _ assms(5), of "[xs]" dec "[A]" n tag] assms(4) by simp
qed

text \<open>A text above the limit is refused.\<close>

lemma text_too_long:
  assumes "gcm_session ecb k J0 CCMODE_GCM_STATE_AAD [] [] c" "ecb_block_size ecb = 16" "n \<le> length xs" "n < 2 ^ 64"
    "CCGCM_TEXT_MAX_NBYTES < n"
  shows "gcm_after_iv (gcm_mode dec e) c (length A) A n xs tn tag = (CCMODE_INVALID_INPUT, [], tag)"
proof -
  obtain c1 where 1: "ccmode_gcm_aad c (length A) A = (0, c1)" "gcm_session ecb k J0 CCMODE_GCM_STATE_AAD A [] c1"
    using gcm_session_aad [OF assms(1) order_refl, of A] by auto
  have "gcm_crypt dec c1 n xs = (CCMODE_INVALID_INPUT, ccmode_gcm_aad_finalize c1, [])"
    using gcm_session_crypt(2) [OF 1(2) _ assms(2-4) _ refl, of dec] assms(5) by simp
  then show ?thesis using 1(1) by (simp add: gcm_after_iv_def CCMODE_INVALID_INPUT_def)
qed

lemma one_shot_too_long:
  assumes "ecb_block_size ecb = 16" "ecb_init ecb (gcm_ecb_key ctx) kn raw = (rc, k)" "iv \<noteq> []" "n \<le> length xs" "n < 2 ^ 64"
    "CCGCM_TEXT_MAX_NBYTES < n"
  shows "ccgcm_one_shot (gcm_mode dec ecb) ctx kn raw (length iv) (Some iv) (length A) A n xs tn tag = (CCMODE_INVALID_INPUT, [], tag)"
proof -
  obtain c where c: "gcm_init (gcm_mode dec ecb) ctx kn raw = (0, c)" "gcm_ready ecb k c" "gcm_flags c = 0"
    using init_ready [OF assms(1,2)] by force
  have "gcm_state c = CCMODE_GCM_STATE_IV" using c(2) by (simp add: gcm_ready_def)
  then show ?thesis
    using set_iv_started [of c iv] assms(3) c text_too_long [OF started_session [OF c(2)] assms(1,4-6)]
    by (simp add: ccgcm_one_shot_def del: gcm_mode_fields(5))
qed

text \<open>What was encrypted decrypts, and only under its own tag.\<close>

lemma one_shot_inverse:
  assumes "ecb_block_size ecb = 16" "ecb_init ecb (gcm_ecb_key ctx) kn raw = (rc, k)" "ecb_init ecb (gcm_ecb_key ctx') kn raw = (rc', k')"
    "ecb_block ecb k' = ecb_block ecb k"
    "iv \<noteq> []" "length xs \<le> CCGCM_TEXT_MAX_NBYTES" "0 < n" "n \<le> 16" "n \<le> length tag"
    "ccgcm_one_shot (CCMODE_FACTORY_GCM_ENCRYPT ecb) ctx kn raw (length iv) (Some iv) (length A) A (length xs) xs n tag = (r, C, T)"
  shows "r = 0 \<and> length C = length xs \<and>
    ccgcm_one_shot (CCMODE_FACTORY_GCM_DECRYPT ecb) ctx' kn raw (length iv) (Some iv) (length A) A (length C) C n T = (0, xs, T)"
proof -
  define J0 where "J0 = gcm_j0 (ecb_block ecb k (replicate 16 0)) iv"
  have e: "gcm_result False ecb k J0 A xs n tag = (r, C, T)"
    using one_shot [OF assms(1,2,5,6) refl, of False A n tag] assms(10) by (simp add: gcm_mode_def J0_def)
  then have C: "r = 0" "C = mask_with (gcm_keystream ecb k J0) (length xs) xs" "T = take n (gcm_tag ecb k J0 A C) @ drop n tag"
    using assms(8) by (auto simp: gcm_result_def Let_def min_absorb1)
  then have l: "length C = length xs" "length (gcm_tag ecb k J0 A C) = 16" by (simp_all add: gcm_tag_def)
  have "cc_cmp_safe n (gcm_tag ecb k J0 A C) T = 0"
    by (subst cc_cmp_safe_take) (use assms(7-9) l(2) in \<open>simp_all add: C(3)\<close>)
  then have "gcm_result True ecb k J0 A C n T = (0, xs, T)"
    using assms(8,9) l mask_with_twice [of "length xs" xs "gcm_keystream ecb k J0"] C(2,3)
    by (simp add: gcm_result_def Let_def min_absorb1)
  then show ?thesis
    using one_shot [OF assms(1,3,5) _ refl, of C True A n T] C(1) l(1) assms(4,6) gcm_result_cong [OF assms(4)]
    by (simp add: gcm_mode_def J0_def)
qed

end

section \<open>Any sequence of calls\<close>

datatype gcm_call = Gcm_set_iv nat "bytes option" | Gcm_inc_iv bytes | Gcm_aad nat bytes | Gcm_text nat bytes
  | Gcm_finalize nat bytes | Gcm_reset | Gcm_set_iv_legacy nat "bytes option" | Gcm_init nat bytes | Gcm_init_with_iv nat bytes bytes

text \<open>One call: its code, the context after it, and the initial value it handed out.\<close>

fun gcm_exec :: "'k ccmode_gcm \<Rightarrow> gcm_call \<Rightarrow> 'k ccgcm_ctx \<Rightarrow> int \<times> 'k ccgcm_ctx \<times> bytes list" where
  "gcm_exec mode (Gcm_set_iv n iv) c = (let (rc, c) = gcm_set_iv mode c n iv in (rc, c, if rc = 0 then [take n (the iv)] else []))"
| "gcm_exec mode (Gcm_inc_iv iv) c = (let (rc, c, iv) = ccgcm_inc_iv c iv in (rc, c, if rc = 0 then [iv] else []))"
| "gcm_exec mode (Gcm_aad n bs) c = (let (rc, c) = gcm_gmac mode c n bs in (rc, c, []))"
| "gcm_exec mode (Gcm_text n bs) c = (let (rc, c, out) = gcm_gcm mode c n bs in (rc, c, []))"
| "gcm_exec mode (Gcm_finalize n tag) c = (let (rc, c, tag) = gcm_finalize mode c n tag in (rc, c, []))"
| "gcm_exec mode Gcm_reset c = (let (rc, c) = gcm_reset mode c in (rc, c, []))"
| "gcm_exec mode (Gcm_set_iv_legacy n iv) c =
     (let (rc, c) = ccgcm_set_iv_legacy mode c n iv in (rc, c, if rc = 0 then [take n (the iv)] else []))"
| "gcm_exec mode (Gcm_init n raw) c = (let (rc, c) = gcm_init mode c n raw in (rc, c, []))"
| "gcm_exec mode (Gcm_init_with_iv n raw iv) c =
     (let (rc, c) = ccgcm_init_with_iv mode c n raw iv in (rc, c, if rc = 0 then [take 12 iv] else []))"

fun gcm_run :: "'k ccmode_gcm \<Rightarrow> gcm_call list \<Rightarrow> 'k ccgcm_ctx \<Rightarrow> 'k ccgcm_ctx \<times> bytes list" where
  "gcm_run mode [] c = (c, [])"
| "gcm_run mode (x # xs) c =
     (let (rc, c, ivs) = gcm_exec mode x c; (c, rest) = gcm_run mode xs c in (c, ivs @ rest))"

text \<open>The initial values of \<open>ccgcm_inc_iv\<close>.\<close>

definition iv_next :: "bytes \<Rightarrow> bytes" where
  "iv_next iv = take 4 iv @ inc_uint (drop 4 iv) 8"

lemma length_iv_next [simp]: "4 \<le> length iv \<Longrightarrow> length (iv_next iv) = length iv"
  by (simp add: iv_next_def)

lemma iv_next_parts: "length v = 12 \<Longrightarrow> take 4 (iv_next v) = take 4 v \<and> drop 4 (iv_next v) = inc_uint (drop 4 v) 8"
  by (simp add: iv_next_def)

lemma iv_nexts:
  assumes "length iv = 12"
  shows "length ((iv_next ^^ j) iv) = 12 \<and> take 4 ((iv_next ^^ j) iv) = take 4 iv \<and>
    be_val (drop 4 ((iv_next ^^ j) iv)) = (be_val (drop 4 iv) + j) mod 2 ^ 64"
proof (induction j)
  case 0
  then show ?case using assms be_val_bound [of "drop 4 iv"] by simp
next
  case (Suc j)
  let ?v = "(iv_next ^^ j) iv"
  have "be_val (inc_uint (drop 4 ?v) 8) = (be_val (drop 4 ?v) + 1) mod 256 ^ 8"
    using inc_uint_val [of 8 "drop 4 ?v"] Suc by simp
  then show ?case using Suc iv_next_parts [of ?v] by (simp add: mod_Suc_eq)
qed

lemma add_mod_inj: "(b + i) mod M = (b + j) mod M \<Longrightarrow> i \<le> j \<Longrightarrow> j < M \<Longrightarrow> i = j" for i j M b :: nat
  using mod_eq_dvd_iff_nat [of "b + i" "b + j" M] by (auto dest: dvd_imp_le)

lemma iv_nexts_distinct:
  assumes "length iv = 12" "n \<le> 2 ^ 64"
  shows "distinct (map (\<lambda>j. (iv_next ^^ j) iv) [0..<n])"
proof -
  let ?b = "be_val (drop 4 iv)"
  have "i = j" if "i < n" "j < n" "(iv_next ^^ i) iv = (iv_next ^^ j) iv" for i j
  proof -
    have e: "(?b + i) mod 2 ^ 64 = (?b + j) mod 2 ^ 64"
      using iv_nexts [OF assms(1), of i] iv_nexts [OF assms(1), of j] that(3) by simp
    show ?thesis
    proof (cases "i \<le> j")
      case True
      show ?thesis by (rule add_mod_inj [OF e True]) (use that(2) assms(2) in linarith)
    next
      case False
      show ?thesis by (rule add_mod_inj [OF e [symmetric], symmetric]) (use False that(1) assms(2) in linarith)+
    qed
  qed
  then show ?thesis by (auto simp: distinct_map inj_on_def)
qed

text \<open>A context that \<open>ccgcm_init_with_iv\<close> set up and whose last initial value was \<open>iv\<close>.\<close>

definition gcm_counting :: "bytes \<Rightarrow> 'k ccgcm_ctx \<Rightarrow> bool" where
  "gcm_counting iv c \<longleftrightarrow> length iv = 12 \<and> gcm_Y_0 c = iv @ [0, 0, 0, 1] \<and> gcm_flags c AND CCGCM_FLAGS_INIT_WITH_IV \<noteq> 0"

lemma counting_fixed: "gcm_counting iv c \<Longrightarrow> gcm_fixed c' = gcm_fixed c \<Longrightarrow> gcm_counting iv c'"
  by (simp add: gcm_counting_def gcm_fixed_def)

lemma counting_set_iv: "gcm_counting iv c \<Longrightarrow> ccmode_gcm_set_iv c n v = (CCMODE_INVALID_CALL_SEQUENCE, c)"
  by (simp add: gcm_counting_def ccmode_gcm_set_iv_def)

lemma inc_iv_started: "gcm_counting iv c \<Longrightarrow> ccgcm_inc_iv c buf =
   (if gcm_state c = CCMODE_GCM_STATE_IV then (0, gcm_started (iv_next iv @ [0, 0, 0, 1]) c, iv_next iv)
    else (CCMODE_INVALID_CALL_SEQUENCE, c, buf))"
proof -
  assume c: "gcm_counting iv c"
  have "gcm_Y_0 c = iv @ [0, 0, 0, 1]" "length iv = 12" using c by (simp_all add: gcm_counting_def)
  then have "take 4 (gcm_Y_0 c) @ inc_uint (drop 4 (gcm_Y_0 c)) 8 = iv_next iv @ [0, 0, 0, 1]"
    using inc_uint_append [of 8 "drop 4 iv" "[0, 0, 0, 1]"] by (simp add: iv_next_def)
  moreover have swap: "c\<lparr>gcm_Y_0 := x, gcm_Y := y\<rparr> = c\<lparr>gcm_Y := y, gcm_Y_0 := x\<rparr>" for x y by (rule ccgcm_ctx.equality) simp_all
  ultimately show ?thesis using c by (simp add: ccgcm_inc_iv_def gcm_counting_def gcm_started_def Let_def swap)
qed

text \<open>
  The calls that give up the count: an initialisation, and the deprecated call with an empty initial value.
\<close>

fun gcm_starts_over :: "gcm_call \<Rightarrow> bool" where
  "gcm_starts_over (Gcm_init n raw) \<longleftrightarrow> True"
| "gcm_starts_over (Gcm_init_with_iv n raw iv) \<longleftrightarrow> True"
| "gcm_starts_over (Gcm_set_iv_legacy n iv) \<longleftrightarrow> n = 0 \<or> iv = None"
| "gcm_starts_over x \<longleftrightarrow> False"

lemma fixed_exec: "(\<forall>n v. x \<noteq> Gcm_set_iv n v \<and> x \<noteq> Gcm_set_iv_legacy n v) \<Longrightarrow> (\<forall>v. x \<noteq> Gcm_inc_iv v) \<Longrightarrow> \<not> gcm_starts_over x \<Longrightarrow>
  gcm_fixed (fst (snd (gcm_exec (gcm_mode dec ecb) x c))) = gcm_fixed c \<and> snd (snd (gcm_exec (gcm_mode dec ecb) x c)) = []"
  by (cases x) (simp_all add: case_prod_beta Let_def)

lemma counting_exec:
  assumes "gcm_counting iv c" "gcm_exec (gcm_mode dec ecb) x c = (rc, c', ivs)" "\<not> gcm_starts_over x"
  shows "ivs = [] \<and> gcm_counting iv c' \<or> ivs = [iv_next iv] \<and> gcm_counting (iv_next iv) c'"
proof (cases x)
  case (Gcm_inc_iv buf)
  then show ?thesis
    using assms inc_iv_started [OF assms(1), of buf] by (auto simp: gcm_counting_def gcm_started_def CCMODE_INVALID_CALL_SEQUENCE_def split: if_splits)
next
  case (Gcm_set_iv n v)
  then show ?thesis using assms counting_set_iv [OF assms(1), of n v] by (simp add: CCMODE_INVALID_CALL_SEQUENCE_def)
next
  case (Gcm_set_iv_legacy n v)
  then show ?thesis
    using assms counting_set_iv [OF assms(1), of n v] by (auto simp: ccgcm_set_iv_legacy_def CCMODE_INVALID_CALL_SEQUENCE_def)
qed (use assms(2,3) counting_fixed [OF assms(1), of c'] fixed_exec [of x dec ecb c] in simp_all)

lemma counting_run:
  "gcm_counting iv c \<Longrightarrow> gcm_run (gcm_mode dec ecb) xs c = (c', ivs) \<Longrightarrow> \<forall>x \<in> set xs. \<not> gcm_starts_over x \<Longrightarrow>
   ivs = map (\<lambda>j. (iv_next ^^ Suc j) iv) [0..<length ivs] \<and> length ivs \<le> length xs"
proof (induction xs arbitrary: iv c ivs)
  case (Cons x xs)
  obtain rc d v where d: "gcm_exec (gcm_mode dec ecb) x c = (rc, d, v)" by (cases "gcm_exec (gcm_mode dec ecb) x c") force
  obtain r where r: "gcm_run (gcm_mode dec ecb) xs d = (c', r)" "ivs = v @ r" using Cons.prems(2) d by (auto split: prod.splits)
  have "\<not> gcm_starts_over x" and no: "\<forall>x \<in> set xs. \<not> gcm_starts_over x" using Cons.prems(3) by simp_all
  from counting_exec [OF Cons.prems(1) d this(1)] show ?case
  proof
    assume v: "v = [] \<and> gcm_counting iv d"
    then show ?thesis using Cons.IH [OF _ r(1) no] r(2) by fastforce
  next
    assume v: "v = [iv_next iv] \<and> gcm_counting (iv_next iv) d"
    then have "r = map (\<lambda>j. (iv_next ^^ Suc j) (iv_next iv)) [0..<length r] \<and> length r \<le> length xs" using Cons.IH [OF _ r(1) no] by blast
    then have "r = map (\<lambda>j. (iv_next ^^ Suc (Suc j)) iv) [0..<length r]" "length r \<le> length xs" by (simp_all add: funpow_swap1)
    moreover have "map (\<lambda>j. (iv_next ^^ Suc j) iv) [0..<Suc (length r)] = iv_next iv # map (\<lambda>j. (iv_next ^^ Suc (Suc j)) iv) [0..<length r]"
      by (simp only: upt_conv_Cons zero_less_Suc list.map map_Suc_upt [symmetric] map_map o_def) simp
    ultimately show ?thesis using v r(2) by simp
  qed
qed simp

lemma init_with_iv_counting:
  assumes "ccgcm_init_with_iv (gcm_mode dec ecb) ctx kn raw iv = (0, c)" "length iv = 12"
  shows "gcm_counting iv c \<and> gcm_state c = CCMODE_GCM_STATE_AAD"
proof -
  obtain d where d: "ccmode_gcm_init ecb (if dec then CCMODE_GCM_DECRYPTOR else CCMODE_GCM_ENCRYPTOR) ctx kn raw = (0, d)"
      "ccmode_gcm_set_iv d 12 (Some iv) = (0, snd (ccmode_gcm_set_iv d 12 (Some iv)))"
      "c = (snd (ccmode_gcm_set_iv d 12 (Some iv)))\<lparr>gcm_flags := gcm_flags (snd (ccmode_gcm_set_iv d 12 (Some iv))) OR CCGCM_FLAGS_INIT_WITH_IV\<rparr>"
    using assms(1) by (auto simp: ccgcm_init_with_iv_def Let_def split: prod.splits if_splits)
  have f: "gcm_flags d AND CCGCM_FLAGS_INIT_WITH_IV = 0" "gcm_state d = CCMODE_GCM_STATE_IV"
    using d(2) by (auto simp: ccmode_gcm_set_iv_def CCMODE_INVALID_CALL_SEQUENCE_def split: if_splits)
  have "iv \<noteq> []" using assms(2) by auto
  then have "snd (ccmode_gcm_set_iv d 12 (Some iv)) = gcm_started (iv @ [0, 0, 0, 1]) d"
    using set_iv_started [OF f(2,1), of iv] assms(2) by (simp add: gcm_j0_def)
  moreover have "bit ((w OR CCGCM_FLAGS_INIT_WITH_IV) AND CCGCM_FLAGS_INIT_WITH_IV) 0" for w
    by (simp add: CCGCM_FLAGS_INIT_WITH_IV_def bit_and_iff bit_or_iff)
  then have "(w OR CCGCM_FLAGS_INIT_WITH_IV) AND CCGCM_FLAGS_INIT_WITH_IV \<noteq> 0" for w
    by (metis bit_0_eq bot_apply bot_bool_def)
  ultimately show ?thesis using assms(2) d(3) by (simp add: gcm_counting_def gcm_started_def)
qed

text \<open>
  An empty initial value goes past the test of the flag: \<open>ccgcm_set_iv_legacy\<close> starts a message with the counter
  block of zeros, and the next \<open>ccgcm_inc_iv\<close> counts from there.
\<close>

lemma legacy_iv_restarts_counter:
  assumes "gcm_counting iv c" "gcm_state c = CCMODE_GCM_STATE_IV"
  shows "\<exists>c'. ccgcm_set_iv_legacy (gcm_mode dec ecb) c 0 None = (0, c') \<and> gcm_Y_0 c' = replicate 16 0 \<and>
    snd (snd (ccgcm_inc_iv (snd (ccmode_gcm_reset c')) buf)) = [0, 0, 0, 0, 0, 0, 0, 0, 0, 0, 0, 1]"
proof -
  have i: "replicate 4 0 @ take 8 (inc_uint (replicate 12 0) 8) = [0, 0, 0, 0, 0, 0, 0, 0, 0, 0, 0, 1]"
    by code_simp
  show ?thesis
    using assms by (simp add: ccgcm_set_iv_legacy_def gcm_counting_def ccmode_gcm_reset_def ccgcm_inc_iv_def ccmode_gcm_update_pad_def i Let_def)
qed

section \<open>The shape of a context\<close>

definition gcm_wf :: "'k ccmode_ecb \<Rightarrow> 'k ccgcm_ctx \<Rightarrow> bool" where
  "gcm_wf ecb c \<longleftrightarrow>
     gcm_ecb c = ecb \<and> length (gcm_H c) = 16 \<and> length (gcm_X c) = 16 \<and> length (gcm_Y c) = 16 \<and> length (gcm_Y_0 c) = 16 \<and>
     length (gcm_buf c) = 16 \<and>
     gcm_state c \<in> {CCMODE_GCM_STATE_IV, CCMODE_GCM_STATE_AAD, CCMODE_GCM_STATE_TEXT, CCMODE_GCM_STATE_FINAL}"

lemma wf_X [simp]: "gcm_wf ecb c \<Longrightarrow> length x = 16 \<Longrightarrow> gcm_wf ecb (c\<lparr>gcm_X := x\<rparr>)"
  by (simp add: gcm_wf_def)

lemma wf_counts [simp]:
  "gcm_wf ecb (c\<lparr>gcm_aad_nbytes := v\<rparr>) = gcm_wf ecb c" "gcm_wf ecb (c\<lparr>gcm_text_nbytes := v\<rparr>) = gcm_wf ecb c"
  by (simp_all add: gcm_wf_def)

lemma wf_states [simp]:
  "gcm_wf ecb c \<Longrightarrow> gcm_wf ecb (c\<lparr>gcm_state := CCMODE_GCM_STATE_AAD\<rparr>)" "gcm_wf ecb c \<Longrightarrow> gcm_wf ecb (c\<lparr>gcm_state := CCMODE_GCM_STATE_TEXT\<rparr>)"
  "gcm_wf ecb c \<Longrightarrow> gcm_wf ecb (c\<lparr>gcm_state := CCMODE_GCM_STATE_FINAL\<rparr>)"
  by (simp_all add: gcm_wf_def)

lemma length_inc32 [simp]: "length Y = 16 \<Longrightarrow> length (inc32 Y) = 16"
  by (simp add: inc32_def)

lemma wf_aad_finalize [simp]: "gcm_wf ecb c \<Longrightarrow> gcm_wf ecb (ccmode_gcm_aad_finalize c)"
  by (simp add: ccmode_gcm_aad_finalize_def ccmode_gcm_mult_h_def Let_def)

lemma wf_reset: "gcm_wf ecb c \<Longrightarrow> gcm_wf ecb (snd (ccmode_gcm_reset c))"
  by (simp add: ccmode_gcm_reset_def gcm_wf_def)

lemma length_mult_h [simp]: "length (ccmode_gcm_mult_h c x) = 16"
  by (simp add: ccmode_gcm_mult_h_def)

lemma wf_aad_loop: "gcm_wf ecb c \<Longrightarrow> gcm_aad_loop c n d = (c', n', d') \<Longrightarrow> gcm_wf ecb c' \<and> n' < 16"
proof (induction c n d rule: gcm_aad_loop.induct)
  case (1 c n d)
  then show ?case by (cases "16 \<le> n") (simp_all add: gcm_aad_loop.simps [of c n])
qed

lemma wf_aad:
  assumes "gcm_wf ecb c"
  shows "gcm_wf ecb (snd (ccmode_gcm_aad c n d))"
proof -
  define pos where "pos = unat (gcm_aad_nbytes c mod 16)"
  have pos: "pos < 16" unfolding pos_def by (simp add: unat_mod)
  obtain c1 p1 n1 d1 where 1: "gcm_aad_partial c pos n d = (c1, p1, n1, d1)" by (cases "gcm_aad_partial c pos n d") auto
  have w1: "gcm_wf ecb c1" "p1 = 0 \<or> p1 + n1 < 16"
    using 1 assms pos by (auto simp: gcm_aad_partial_def Let_def split: if_splits)
  obtain c2 n2 d2 where 2: "(if p1 = 0 then gcm_aad_loop c1 n1 d1 else (c1, n1, d1)) = (c2, n2, d2)"
    by (cases "if p1 = 0 then gcm_aad_loop c1 n1 d1 else (c1, n1, d1)") auto
  have w2: "gcm_wf ecb c2" "p1 + n2 < 16"
    using w1 wf_aad_loop [OF w1(1), of n1 d1 c2 n2 d2] 2 by (auto split: if_splits)
  have x: "length (gcm_X c2) = 16" using w2(1) by (simp add: gcm_wf_def)
  show ?thesis using assms w2 x by (simp add: ccmode_gcm_aad_def pos_def [symmetric] 1 2)
qed

context block_cipher
begin

lemma wf_update_pad: "gcm_wf ecb c \<Longrightarrow> ecb_block_size ecb = 16 \<Longrightarrow> gcm_wf ecb (ccmode_gcm_update_pad c)"
  by (simp add: gcm_wf_def)

lemma wf_chunk:
  "gcm_wf ecb c \<Longrightarrow> pos + m \<le> 16 \<Longrightarrow> gcm_chunk dec c pos m xs = (c', out) \<Longrightarrow> gcm_wf ecb c' \<and> length out = m"
  by (auto simp: gcm_chunk_def Let_def) (simp_all add: gcm_wf_def)

lemma wf_block:
  "gcm_wf ecb c \<Longrightarrow> ecb_block_size ecb = 16 \<Longrightarrow> pos + m \<le> 16 \<Longrightarrow> gcm_block dec c pos m xs = (c', out) \<Longrightarrow>
   gcm_wf ecb c' \<and> length out = m"
  using wf_chunk [of c pos m dec xs] by (auto simp: gcm_block_def wf_update_pad split: prod.splits)

lemma wf_loop:
  "gcm_wf ecb c \<Longrightarrow> ecb_block_size ecb = 16 \<Longrightarrow> gcm_loop dec c n xs = (c', n', ys, out) \<Longrightarrow>
   gcm_wf ecb c' \<and> n' < 16 \<and> length out + n' = n"
proof (induction n arbitrary: c xs out rule: less_induct)
  case (less n)
  show ?case
  proof (cases "n < 16")
    case True
    then show ?thesis using less.prems by (simp add: gcm_loop_simps)
  next
    case False
    obtain d o1 where d: "gcm_block dec c 0 16 xs = (d, o1)" by force
    obtain d' m zs o2 where l: "gcm_loop dec d (n - 16) (drop 16 xs) = (d', m, zs, o2)" by (cases "gcm_loop dec d (n - 16) (drop 16 xs)") auto
    have "gcm_loop dec c n xs = (d', m, zs, o1 @ o2)"
      using gcm_loop_simps(1) [of c n dec xs] less.prems(1) False d l by (simp add: gcm_wf_def)
    then show ?thesis
      using less.IH [OF _ _ less.prems(2), of "n - 16" d "drop 16 xs" o2] wf_block [OF less.prems(1,2) _ d] l less.prems(3) False by auto
  qed
qed

lemma wf_text:
  assumes "gcm_wf ecb c" "ecb_block_size ecb = 16" "gcm_text dec c n xs = (c', out)"
  shows "gcm_wf ecb c' \<and> length out = n"
proof -
  define pos where "pos = unat (gcm_text_nbytes c mod 16)"
  have pos: "pos < 16" unfolding pos_def by (simp add: unat_mod)
  obtain c1 p1 n1 x1 o1 where 1: "gcm_partial dec c pos n xs = (c1, p1, n1, x1, o1)" by (cases "gcm_partial dec c pos n xs") auto
  have w1: "gcm_wf ecb c1" "p1 = 0 \<or> p1 + n1 < 16" "length o1 + n1 = n"
    using 1 assms(1) pos wf_block [OF assms(1,2), of pos "16 - pos" dec xs]
    by (auto simp: gcm_partial_def Let_def split: if_splits prod.splits)
  obtain c2 n2 x2 o2 where 2: "(if p1 = 0 then gcm_loop dec c1 n1 x1 else (c1, n1, x1, [])) = (c2, n2, x2, o2)"
    by (cases "if p1 = 0 then gcm_loop dec c1 n1 x1 else (c1, n1, x1, [])") auto
  have w2: "gcm_wf ecb c2" "p1 + n2 < 16" "length o2 + n2 = n1"
    using w1 wf_loop [OF w1(1) assms(2), of dec n1 x1 c2 n2 x2 o2] 2 by (auto split: if_splits)
  obtain c3 o3 where 3: "gcm_chunk dec c2 p1 n2 x2 = (c3, o3)" by force
  have "gcm_text dec c n xs = (if n2 > 0 then (c3, o1 @ o2 @ o3) else (c2, o1 @ o2))"
    by (simp add: gcm_text_def pos_def [symmetric] 1 2 3)
  then show ?thesis using wf_chunk [OF w2(1) _ 3] w1(3) w2 assms(3) by (auto split: if_splits)
qed

lemma wf_crypt:
  assumes "gcm_wf ecb c" "ecb_block_size ecb = 16" "gcm_crypt dec c n xs = (rc, c', out)"
  shows "gcm_wf ecb c' \<and> length out = (if rc = 0 then n else 0)"
proof -
  obtain d o1 where d: "gcm_text dec (ccmode_gcm_aad_finalize c) n xs = (d, o1)" by force
  then show ?thesis
    using assms wf_text [OF wf_aad_finalize [OF assms(1)] assms(2) d]
    by (auto simp: gcm_crypt_def Let_def CCMODE_INVALID_CALL_SEQUENCE_def CCMODE_INVALID_INPUT_def split: if_splits)
qed

lemma wf_finalize:
  assumes "gcm_wf ecb c" "ecb_block_size ecb = 16" "ccmode_gcm_finalize c n tag = (rc, c', out)" "n \<le> length tag"
  shows "gcm_wf ecb c' \<and> length out = length tag"
proof -
  let ?f = "ccmode_gcm_aad_finalize c"
  have f: "gcm_wf ecb (if gcm_text_nbytes ?f mod 16 > 0 then ?f\<lparr>gcm_X := ccmode_gcm_mult_h ?f (gcm_X ?f)\<rparr> else ?f)"
    using assms(1) by simp
  have b: "gcm_wf ecb d \<Longrightarrow> length x = 16 \<Longrightarrow> gcm_wf ecb (d\<lparr>gcm_buf := x\<rparr>)" for d :: "'k ccgcm_ctx" and x by (simp add: gcm_wf_def)
  have e: "gcm_wf ecb d \<Longrightarrow> length (snd (ecb_ecb (gcm_ecb d) (gcm_ecb_key d) 1 x)) = 16" for d :: "'k ccgcm_ctx" and x
    using length_block [of "gcm_ecb_key d" x] assms(2) unfolding gcm_wf_def ecb_block_def by (elim conjE) (simp only:)
  show ?thesis
  proof (cases "gcm_state ?f = CCMODE_GCM_STATE_TEXT")
    case True
    have "gcm_wf ecb (fst (snd (ccmode_gcm_finalize c n tag)))"
      unfolding ccmode_gcm_finalize_def Let_def using True
      by (simp only: if_False simp_thms fst_conv snd_conv) (intro wf_states b e wf_X f; simp)
    moreover have "length (snd (snd (ccmode_gcm_finalize c n tag))) = length tag"
      using True assms(4) by (simp add: ccmode_gcm_finalize_def Let_def)
    ultimately show ?thesis by (simp add: assms(3))
  next
    case False
    then show ?thesis using assms(1,3) by (auto simp: ccmode_gcm_finalize_def)
  qed
qed

lemma wf_started: "gcm_wf ecb c \<Longrightarrow> ecb_block_size ecb = 16 \<Longrightarrow> length J0 = 16 \<Longrightarrow> gcm_wf ecb (gcm_started J0 c)"
  by (simp add: gcm_started_def gcm_wf_def)

lemma wf_set_iv:
  assumes "gcm_wf ecb c" "ecb_block_size ecb = 16" "iv \<noteq> None \<longrightarrow> n \<le> length (the iv)"
  shows "gcm_wf ecb (snd (ccmode_gcm_set_iv c n iv))"
  using assms wf_started [OF assms(1,2)] unfolding ccmode_gcm_set_iv_def
  by (auto simp: gcm_started_def Let_def case_prod_beta)

lemma wf_inc_iv:
  assumes "gcm_wf ecb c" "ecb_block_size ecb = 16"
  shows "gcm_wf ecb (fst (snd (ccgcm_inc_iv c iv)))"
  using assms by (simp add: ccgcm_inc_iv_def gcm_wf_def Let_def)

lemma wf_init:
  assumes "ecb_block_size ecb = 16" "length (gcm_Y c) = 16" "length (gcm_Y_0 c) = 16"
  shows "gcm_wf ecb (snd (ccmode_gcm_init ecb encdec c n raw))"
proof -
  let ?k = "snd (ecb_init ecb (gcm_ecb_key c) n raw)"
  have i: "ccmode_gcm_init ecb encdec c n raw = (0, (snd (ccmode_gcm_reset (c\<lparr>gcm_ecb := ecb, gcm_encdec := encdec, gcm_ecb_key := ?k,
      gcm_flags := 0\<rparr>)))\<lparr>gcm_H := ecb_block ecb ?k (replicate 16 0)\<rparr>)"
    by (rule init_eq [OF assms(1)]) (rule surjective_pairing)
  show ?thesis unfolding i using assms by (simp add: gcm_wf_def ccmode_gcm_reset_def)
qed

lemma wf_init_again: "gcm_wf ecb c \<Longrightarrow> ecb_block_size ecb = 16 \<Longrightarrow> gcm_wf ecb (snd (ccmode_gcm_init ecb encdec c n raw))"
  by (rule wf_init) (simp_all add: gcm_wf_def)

lemma wf_legacy:
  "gcm_wf ecb c \<Longrightarrow> ecb_block_size ecb = 16 \<Longrightarrow>
   gcm_wf ecb ((ccmode_gcm_update_pad (c\<lparr>gcm_Y := replicate 16 0\<rparr>))\<lparr>gcm_Y_0 := replicate 16 0, gcm_state := CCMODE_GCM_STATE_AAD\<rparr>)"
  using wf_update_pad [of "c\<lparr>gcm_Y := replicate 16 0\<rparr>"] by (simp add: gcm_wf_def)

lemma wf_exec:
  assumes "gcm_wf ecb c" "ecb_block_size ecb = 16" "\<And>n iv. x = Gcm_set_iv n (Some iv) \<Longrightarrow> n \<le> length iv"
    "\<And>n tag. x = Gcm_finalize n tag \<Longrightarrow> n \<le> length tag" "gcm_exec (gcm_mode dec ecb) x c = (rc, c', ivs)"
    "\<And>n iv. x = Gcm_set_iv_legacy n (Some iv) \<Longrightarrow> n \<le> length iv" "\<And>n raw iv. x = Gcm_init_with_iv n raw iv \<Longrightarrow> 12 \<le> length iv"
  shows "gcm_wf ecb c'"
proof (cases x)
  case (Gcm_set_iv n iv)
  then show ?thesis using wf_set_iv [OF assms(1,2), of iv n] assms(3,5) by (auto simp: case_prod_beta Let_def)
next
  case (Gcm_inc_iv iv)
  then show ?thesis using wf_inc_iv [OF assms(1,2), of iv] assms(5) by (auto simp: case_prod_beta Let_def)
next
  case (Gcm_aad n bs)
  then show ?thesis using wf_aad [OF assms(1), of n bs] assms(5) by (auto simp: case_prod_beta Let_def)
next
  case (Gcm_text n bs)
  then show ?thesis using wf_crypt [OF assms(1,2), of dec n bs] assms(5) by (auto split: prod.splits)
next
  case (Gcm_finalize n tag)
  then show ?thesis using wf_finalize [OF assms(1,2), of n tag] assms(4,5) by (auto split: prod.splits)
next
  case Gcm_reset
  then show ?thesis using wf_reset [OF assms(1)] assms(5) by (auto simp: case_prod_beta Let_def)
next
  case (Gcm_set_iv_legacy n iv)
  have "gcm_wf ecb (snd (ccgcm_set_iv_legacy (gcm_mode dec ecb) c n iv))"
    using wf_set_iv [OF assms(1,2), of iv n] wf_legacy [OF assms(1,2)] assms(1) assms(6) [of n] Gcm_set_iv_legacy
    by (auto simp: ccgcm_set_iv_legacy_def Let_def)
  then show ?thesis using Gcm_set_iv_legacy assms(5) by (auto simp: case_prod_beta Let_def)
next
  case (Gcm_init n raw)
  then show ?thesis using wf_init_again [OF assms(1,2)] assms(5) by (auto simp: case_prod_beta Let_def)
next
  case (Gcm_init_with_iv n raw iv)
  have "gcm_wf ecb (snd (ccgcm_init_with_iv (gcm_mode dec ecb) c n raw iv))"
    using wf_init_again [OF assms(1,2)] wf_set_iv [OF wf_init_again [OF assms(1,2)] assms(2), of "Some iv" 12] assms(7) [OF Gcm_init_with_iv]
    by (auto simp: ccgcm_init_with_iv_def Let_def case_prod_beta gcm_wf_def)
  then show ?thesis using Gcm_init_with_iv assms(5) by (auto simp: case_prod_beta Let_def)
qed

end

fun gcm_call_fits :: "gcm_call \<Rightarrow> bool" where
  "gcm_call_fits (Gcm_set_iv n (Some iv)) \<longleftrightarrow> n \<le> length iv"
| "gcm_call_fits (Gcm_finalize n tag) \<longleftrightarrow> n \<le> length tag"
| "gcm_call_fits (Gcm_set_iv_legacy n (Some iv)) \<longleftrightarrow> n \<le> length iv"
| "gcm_call_fits (Gcm_init_with_iv n raw iv) \<longleftrightarrow> 12 \<le> length iv"
| "gcm_call_fits x \<longleftrightarrow> True"

context block_cipher
begin

lemma wf_run:
  "gcm_wf ecb c \<Longrightarrow> ecb_block_size ecb = 16 \<Longrightarrow> list_all gcm_call_fits xs \<Longrightarrow>
   gcm_run (gcm_mode dec ecb) xs c = (c', ivs) \<Longrightarrow> gcm_wf ecb c'"
proof (induction xs arbitrary: c ivs)
  case (Cons x xs)
  obtain rc d v where d: "gcm_exec (gcm_mode dec ecb) x c = (rc, d, v)" by (cases "gcm_exec (gcm_mode dec ecb) x c") force
  have "gcm_wf ecb d" by (rule wf_exec [OF Cons.prems(1,2) _ _ d]) (use Cons.prems(3) in auto)
  then show ?case using Cons.IH [OF _ Cons.prems(2)] Cons.prems(3,4) d by (auto split: prod.splits)
qed simp

end

section \<open>Over AES\<close>

text \<open>What the key context held before makes no difference to the cipher.\<close>

lemma aes_same_block:
  assumes "ccaes_ecb_encrypt_init x n raw = (0, k)" "ccaes_ecb_encrypt_init y n raw = (0, k')"
  shows "ccaes_ltc_ecb_encrypt k' = ccaes_ltc_ecb_encrypt k"
proof
  fix b
  let ?r = "aes_half_round_count (ccaes_key_length_to_nbytes n)" and ?ks = "aes_key_words (ccaes_key_length_to_nbytes n) raw"
  have "aes_scheduled ?r ?ks k" "aes_scheduled ?r ?ks k'"
    using assms aes_init_scheduled [of raw n x k] aes_init_scheduled [of raw n y k'] by (simp_all add: aes_init_eq)
  then show "ccaes_ltc_ecb_encrypt k' b = ccaes_ltc_ecb_encrypt k b" by (simp only: encrypt_block_eq)
qed

abbreviation gcm_blank :: "ltc_rijndael_keysched ccgcm_ctx" where
  "gcm_blank \<equiv> \<lparr>gcm_H = replicate 16 0, gcm_X = replicate 16 1, gcm_Y = replicate 16 2, gcm_Y_0 = replicate 16 3, gcm_buf = replicate 16 4,
     gcm_state = 9, gcm_flags = 1, gcm_buf_nbytes = 7, gcm_aad_nbytes = 8, gcm_text_nbytes = 9, gcm_ecb = ccaes_ltc_ecb_decrypt_mode,
     gcm_ecb_key = aes_blank, gcm_encdec = 0\<rparr>"

lemma init_with_iv_accepts:
  assumes "ecb_block_size ecb = 16" "length iv = 12"
  shows "fst (ccgcm_init_with_iv (gcm_mode dec ecb) ctx kn raw iv) = 0"
proof -
  let ?e = "if dec then CCMODE_GCM_DECRYPTOR else CCMODE_GCM_ENCRYPTOR"
  obtain rc k where "ecb_init ecb (gcm_ecb_key ctx) kn raw = (rc, k)" by force
  from init_ready [OF assms(1) this, of ?e]
  obtain c where c: "ccmode_gcm_init ecb ?e ctx kn raw = (0, c)" "gcm_ready ecb k c" "gcm_flags c = 0" by blast
  have "iv \<noteq> []" using assms(2) by auto
  then have "fst (ccmode_gcm_set_iv c 12 (Some iv)) = 0"
    using set_iv_started [of c iv] c(2,3) assms(2) by (simp add: gcm_ready_def)
  then show ?thesis using c(1) by (simp add: ccgcm_init_with_iv_def case_prod_beta)
qed

text \<open>\<open>ccmode_gcm_init\<close> drops the code of the key set-up.\<close>

lemma gcm_bad_key:
  assumes "ccaes_key_length_validation kn \<noteq> 0"
  shows "\<exists>c'. ccmode_gcm_init ccaes_ltc_ecb_encrypt_mode encdec ctx kn raw = (0, c') \<and> gcm_ecb_key c' = gcm_ecb_key ctx"
proof -
  have "ecb_init ccaes_ltc_ecb_encrypt_mode (gcm_ecb_key ctx) kn raw = (ccaes_key_length_validation kn, gcm_ecb_key ctx)"
    using assms by (simp add: ccaes_ecb_encrypt_init_def)
  then show ?thesis using init_ready [of ccaes_ltc_ecb_encrypt_mode ctx kn raw _ _ encdec] by (force simp: gcm_ready_def)
qed

end
