(* ===== verification/Ccwrap.thy ===== *)
theory Ccwrap
  imports Ccaes
begin

unbundle bit_operations_syntax

text \<open>
  Key wrapping of RFC 3394 (\<open>ccwrap/src\<close>) over any cipher with blocks of 16 bytes: six passes over the semiblocks, each
  step a block that chains the first semiblock.  The lemmas undo the steps one by one, in both directions.
\<close>

definition CCERR_INTEGRITY :: int where "CCERR_INTEGRITY = -2"
definition CCWRAP_SEMIBLOCK :: nat where "CCWRAP_SEMIBLOCK = 8"
definition CCWRAP_MAXSEMIBLOCKS :: nat where "CCWRAP_MAXSEMIBLOCKS = 8193"

text \<open>The memory of the constant.\<close>

definition CCWRAP_IV :: bytes where "CCWRAP_IV = replicate 8 0xa6"

text \<open>Sizes wrap around at the width of \<open>size_t\<close>.\<close>

definition ccwrap_wrapped_size :: "nat \<Rightarrow> nat" where
  "ccwrap_wrapped_size data_size = (data_size + CCWRAP_SEMIBLOCK) mod 2 ^ 64"

definition ccwrap_unwrapped_size :: "nat \<Rightarrow> nat" where
  "ccwrap_unwrapped_size data_size = (if data_size < CCWRAP_SEMIBLOCK then 0 else data_size - CCWRAP_SEMIBLOCK)"

definition ccwrap_argsvalid :: "'k ccmode_ecb \<Rightarrow> nat \<Rightarrow> nat \<Rightarrow> bool" where
  "ccwrap_argsvalid ecb pbytes cbytes =
     (if ecb_block_size ecb \<noteq> CCWRAP_SEMIBLOCK * 2 then False
      else if pbytes mod CCWRAP_SEMIBLOCK \<noteq> 0 then False
      else if cbytes mod CCWRAP_SEMIBLOCK \<noteq> 0 then False
      else if (pbytes + CCWRAP_SEMIBLOCK) mod 2 ^ 64 \<noteq> cbytes then False
      else let n = pbytes div CCWRAP_SEMIBLOCK in if n < 2 then False else if n \<ge> CCWRAP_MAXSEMIBLOCKS then False else True)"

definition put_semiblock :: "nat \<Rightarrow> bytes \<Rightarrow> bytes \<Rightarrow> bytes" where
  "put_semiblock k bs out = take k out @ bs @ drop (k + 8) out"

text \<open>The bodies of the loops; the state is \<open>R[0]\<close> and the output buffer.\<close>

definition wrap_step :: "'k ccmode_ecb \<Rightarrow> 'k \<Rightarrow> nat \<Rightarrow> nat \<Rightarrow> bytes \<times> bytes \<Rightarrow> nat \<Rightarrow> bytes \<times> bytes" where
  "wrap_step ecb_mode ecb_key n j s i =
     (let (R0, out) = s; R1 = take 8 (drop (i * CCWRAP_SEMIBLOCK) out);
          R = snd (ecb_ecb ecb_mode ecb_key 1 (R0 @ R1))
      in (cc_xor 8 (take 8 R) (cc_store64_be (of_nat (n * j + i))), put_semiblock (i * CCWRAP_SEMIBLOCK) (drop 8 R) out))"

definition unwrap_step :: "'k ccmode_ecb \<Rightarrow> 'k \<Rightarrow> nat \<Rightarrow> nat \<Rightarrow> bytes \<times> bytes \<Rightarrow> nat \<Rightarrow> bytes \<times> bytes" where
  "unwrap_step ecb_mode ecb_key n j s i =
     (let (R0, out) = s; R1 = take 8 (drop ((i - 1) * CCWRAP_SEMIBLOCK) out);
          R = snd (ecb_ecb ecb_mode ecb_key 1 (cc_xor 8 R0 (cc_store64_be (of_nat (n * j + i))) @ R1))
      in (take 8 R, put_semiblock ((i - 1) * CCWRAP_SEMIBLOCK) (drop 8 R) out))"

definition ccwrap_auth_encrypt_withiv ::
  "'k ccmode_ecb \<Rightarrow> 'k \<Rightarrow> nat \<Rightarrow> bytes \<Rightarrow> bytes \<Rightarrow> bytes \<Rightarrow> int \<times> nat \<times> bytes" where
  "ccwrap_auth_encrypt_withiv ecb_mode ecb_key nbytes inp out iv =
     (let obytes = ccwrap_wrapped_size nbytes
      in if \<not> ccwrap_argsvalid ecb_mode nbytes obytes then (CCERR_PARAMETER, 0, out)
         else let n = nbytes div CCWRAP_SEMIBLOCK;
                  out = take CCWRAP_SEMIBLOCK out @ take nbytes inp @ drop (CCWRAP_SEMIBLOCK + nbytes) out;
                  (R0, out) = foldl (\<lambda>s j. foldl (wrap_step ecb_mode ecb_key n j) s [1..<Suc n]) (take 8 iv, out) [0..<6]
              in (0, obytes, put_semiblock 0 R0 out))"

definition ccwrap_auth_decrypt_withiv ::
  "'k ccmode_ecb \<Rightarrow> 'k \<Rightarrow> nat \<Rightarrow> bytes \<Rightarrow> bytes \<Rightarrow> bytes \<Rightarrow> int \<times> nat \<times> bytes" where
  "ccwrap_auth_decrypt_withiv ecb_mode ecb_key nbytes inp out iv =
     (let obytes = ccwrap_unwrapped_size nbytes; cleared = (\<lambda>out. replicate (ccwrap_unwrapped_size nbytes) 0 @ drop (ccwrap_unwrapped_size nbytes) out)
      in if \<not> ccwrap_argsvalid ecb_mode obytes nbytes then (CCERR_PARAMETER, 0, cleared out)
         else let n = nbytes div CCWRAP_SEMIBLOCK - 1;
                  out = take obytes (drop CCWRAP_SEMIBLOCK inp) @ drop obytes out;
                  (R0, out) = foldl (\<lambda>s j. foldl (unwrap_step ecb_mode ecb_key n j) s (rev [1..<Suc n])) (take 8 inp, out) (rev [0..<6])
              in if cc_cmp_safe 8 R0 iv = 0 then (0, obytes, out) else (CCERR_INTEGRITY, 0, cleared out))"

definition ccwrap_auth_encrypt :: "'k ccmode_ecb \<Rightarrow> 'k \<Rightarrow> nat \<Rightarrow> bytes \<Rightarrow> bytes \<Rightarrow> int \<times> nat \<times> bytes" where
  "ccwrap_auth_encrypt ecb_mode ecb_key nbytes inp out = ccwrap_auth_encrypt_withiv ecb_mode ecb_key nbytes inp out CCWRAP_IV"

definition ccwrap_auth_decrypt :: "'k ccmode_ecb \<Rightarrow> 'k \<Rightarrow> nat \<Rightarrow> bytes \<Rightarrow> bytes \<Rightarrow> int \<times> nat \<times> bytes" where
  "ccwrap_auth_decrypt ecb_mode ecb_key nbytes inp out = ccwrap_auth_decrypt_withiv ecb_mode ecb_key nbytes inp out CCWRAP_IV"

section \<open>The steps on the semiblocks\<close>

text \<open>The same step on the list of semiblocks, without the buffer around it, for a block function.\<close>

definition semi_wrap :: "(bytes \<Rightarrow> bytes) \<Rightarrow> nat \<Rightarrow> bytes \<times> bytes \<Rightarrow> nat \<times> nat \<Rightarrow> bytes \<times> bytes" where
  "semi_wrap f n s ji =
     (let (A, R) = s; (j, i) = ji; B = f (A @ take 8 (drop (8 * (i - 1)) R))
      in (cc_xor 8 (take 8 B) (cc_store64_be (of_nat (n * j + i))), put_semiblock (8 * (i - 1)) (drop 8 B) R))"

definition semi_unwrap :: "(bytes \<Rightarrow> bytes) \<Rightarrow> nat \<Rightarrow> bytes \<times> bytes \<Rightarrow> nat \<times> nat \<Rightarrow> bytes \<times> bytes" where
  "semi_unwrap g n s ji =
     (let (A, R) = s; (j, i) = ji;
          B = g (cc_xor 8 A (cc_store64_be (of_nat (n * j + i))) @ take 8 (drop (8 * (i - 1)) R))
      in (take 8 B, put_semiblock (8 * (i - 1)) (drop 8 B) R))"

definition semi_ok :: "nat \<Rightarrow> bytes \<times> bytes \<Rightarrow> bool" where
  "semi_ok n s \<longleftrightarrow> length (fst s) = 8 \<and> length (snd s) = 8 * n"

definition wrap_order :: "nat \<Rightarrow> (nat \<times> nat) list" where
  "wrap_order n = concat (map (\<lambda>j. map (Pair j) [1..<Suc n]) [0..<6])"

lemma put_length: "k + 8 \<le> length out \<Longrightarrow> length bs = 8 \<Longrightarrow> length (put_semiblock k bs out) = length out"
  by (simp add: put_semiblock_def)

lemma put_read: "k + 8 \<le> length out \<Longrightarrow> length bs = 8 \<Longrightarrow> take 8 (drop k (put_semiblock k bs out)) = bs"
  by (simp add: put_semiblock_def)

lemma put_semiblock_twice: "k + 8 \<le> length out \<Longrightarrow> length bs = 8 \<Longrightarrow> put_semiblock k cs (put_semiblock k bs out) = put_semiblock k cs out"
  by (simp add: put_semiblock_def)

lemma put_same: "put_semiblock k (take 8 (drop k out)) out = out"
proof -
  have "drop (k + 8) out = drop 8 (drop k out)" by (simp add: add.commute)
  then show ?thesis by (simp only: put_semiblock_def append_take_drop_id)
qed

lemma put_inside:
  "k + 8 \<le> length R \<Longrightarrow> length P = p \<Longrightarrow> put_semiblock (p + k) bs (P @ R @ T) = P @ put_semiblock k bs R @ T"
  by (simp add: put_semiblock_def)

lemma read_inside:
  "k + 8 \<le> length R \<Longrightarrow> length P = p \<Longrightarrow> take 8 (drop (p + k) (P @ R @ T)) = take 8 (drop k R)"
  by simp

lemmas read_front = read_inside [where P = "[]" and p = 0, simplified append_Nil add_0 list.size]
lemmas put_front = put_inside [where P = "[]" and p = 0, simplified append_Nil add_0 list.size]

lemma xor8_twice: "length a = 8 \<Longrightarrow> length c = 8 \<Longrightarrow> cc_xor 8 (cc_xor 8 a c) c = a"
  by (rule nth_equalityI) (simp_all add: nth_cc_xor xor.assoc)

text \<open>One direction of a pair of inverse block functions.\<close>

definition undoes :: "(bytes \<Rightarrow> bytes) \<Rightarrow> (bytes \<Rightarrow> bytes) \<Rightarrow> bool" where
  "undoes g f \<longleftrightarrow> (\<forall>b. length (f b) = 16 \<and> length (g b) = 16) \<and> (\<forall>b. length b = 16 \<longrightarrow> g (f b) = b)"

lemma semi_step_ok:
  assumes "undoes g f" "semi_ok n s" "1 \<le> i" "i \<le> n"
  shows "semi_ok n (semi_wrap f n s (j, i))" "semi_ok n (semi_unwrap g n s (j, i))"
    "semi_unwrap g n (semi_wrap f n s (j, i)) (j, i) = s"
proof -
  obtain A R where s: "s = (A, R)" by force
  have l: "length A = 8" "length R = 8 * n" "8 * (i - 1) + 8 \<le> length R" using assms(2-4) by (auto simp: semi_ok_def s)
  let ?x = "take 8 (drop (8 * (i - 1)) R)" and ?t = "cc_store64_be (of_nat (n * j + i))"
  have x: "length ?x = 8" using l(3) by simp
  have f: "length (f b) = 16" "length (g b) = 16" for b using assms(1) by (simp_all add: undoes_def)
  show "semi_ok n (semi_wrap f n s (j, i))" "semi_ok n (semi_unwrap g n s (j, i))"
    using f l by (simp_all add: semi_wrap_def semi_unwrap_def semi_ok_def s put_length Let_def)
  let ?B = "f (A @ ?x)"
  have "g ?B = A @ ?x" using assms(1) l(1) x by (simp add: undoes_def)
  moreover have "cc_xor 8 (cc_xor 8 (take 8 ?B) ?t) ?t = take 8 ?B" by (rule xor8_twice) (simp_all add: f)
  ultimately show "semi_unwrap g n (semi_wrap f n s (j, i)) (j, i) = s"
    using l x f by (simp add: semi_wrap_def semi_unwrap_def s Let_def put_read put_semiblock_twice put_same)
qed

lemma semi_steps:
  assumes "undoes g f" "semi_ok n s" "\<And>j i. (j, i) \<in> set js \<Longrightarrow> 1 \<le> i \<and> i \<le> n"
  shows "semi_ok n (foldl (semi_wrap f n) s js) \<and> semi_ok n (foldl (semi_unwrap g n) s js) \<and>
    foldl (semi_unwrap g n) (foldl (semi_wrap f n) s js) (rev js) = s"
  using assms(2,3)
proof (induction js arbitrary: s)
  case (Cons ji js)
  obtain j i where ji: "ji = (j, i)" by force
  have i: "1 \<le> i" "i \<le> n" using Cons.prems(2) [of j i] by (simp_all add: ji)
  note o = semi_step_ok [OF assms(1) Cons.prems(1) i, of j]
  have "\<And>j i. (j, i) \<in> set js \<Longrightarrow> 1 \<le> i \<and> i \<le> n" using Cons.prems(2) by (meson list.set_intros(2))
  with Cons.IH [OF o(1)] Cons.IH [OF o(2)] show ?case by (simp add: ji o(3))
qed simp

lemma semi_step_back:
  assumes "undoes f g" "semi_ok n s" "1 \<le> i" "i \<le> n"
  shows "semi_wrap f n (semi_unwrap g n s (j, i)) (j, i) = s"
proof -
  obtain A R where s: "s = (A, R)" by force
  have l: "length A = 8" "length R = 8 * n" "8 * (i - 1) + 8 \<le> length R" using assms(2-4) by (auto simp: semi_ok_def s)
  let ?x = "take 8 (drop (8 * (i - 1)) R)" and ?t = "cc_store64_be (of_nat (n * j + i))"
  have x: "length ?x = 8" using l(3) by simp
  have g: "length (g b) = 16" for b using assms(1) by (simp add: undoes_def)
  let ?C = "cc_xor 8 A ?t @ ?x"
  have "f (g ?C) = ?C" using assms(1) x by (simp add: undoes_def)
  moreover have "cc_xor 8 (cc_xor 8 A ?t) ?t = A" by (rule xor8_twice) (simp_all add: l)
  ultimately show ?thesis
    using l x g by (simp add: semi_wrap_def semi_unwrap_def s Let_def put_read put_semiblock_twice put_same)
qed

lemma semi_steps_back:
  assumes "undoes f g" "semi_ok n s" "\<And>j i. (j, i) \<in> set js \<Longrightarrow> 1 \<le> i \<and> i \<le> n"
  shows "foldl (semi_wrap f n) (foldl (semi_unwrap g n) s (rev js)) js = s"
  using assms(2,3)
proof (induction js arbitrary: s rule: rev_induct)
  case (snoc ji js)
  obtain j i where ji: "ji = (j, i)" by force
  have i: "1 \<le> i" "i \<le> n" using snoc.prems(2) [of j i] by (simp_all add: ji)
  have b: "\<And>j i. (j, i) \<in> set js \<Longrightarrow> 1 \<le> i \<and> i \<le> n" using snoc.prems(2) by (metis UnI1 set_append)
  have "semi_ok n (semi_unwrap g n s (j, i))"
    using snoc.prems(1) i assms(1) by (cases s) (auto simp: semi_ok_def semi_unwrap_def undoes_def Let_def put_length)
  from snoc.IH [OF this b] show ?case by (simp add: ji semi_step_back [OF assms(1) snoc.prems(1) i])
qed simp

section \<open>The calls\<close>

lemma foldl_nested:
  "foldl (\<lambda>s j. foldl (h j) s xs) s js = foldl (\<lambda>s (j, i). h j s i) s (concat (map (\<lambda>j. map (Pair j) xs) js))"
proof (induction js arbitrary: s)
  case (Cons j js)
  have "foldl (h j) s xs = foldl (\<lambda>s (j, i). h j s i) s (map (Pair j) xs)" by (induction xs arbitrary: s) simp_all
  then show ?case using Cons by simp
qed simp

lemma rev_order: "rev (wrap_order n) = concat (map (\<lambda>j. map (Pair j) (rev [1..<Suc n])) (rev [0..<6]))"
  by (simp only: wrap_order_def rev_concat map_map rev_map o_def)

lemma wrap_order_bounds: "(j, i) \<in> set (wrap_order n) \<Longrightarrow> 1 \<le> i \<and> i \<le> n"
  by (auto simp: wrap_order_def)

lemma wrap_steps:
  assumes "undoes g (ecb_block ecb key)" "semi_ok n (A, R)" "\<And>j i. (j, i) \<in> set js \<Longrightarrow> 1 \<le> i \<and> i \<le> n" "length P = 8"
  shows "foldl (\<lambda>s (j, i). wrap_step ecb key n j s i) (A, P @ R @ T) js =
    (let (A, R) = foldl (semi_wrap (ecb_block ecb key) n) (A, R) js in (A, P @ R @ T))"
  using assms(2,3)
proof (induction js arbitrary: A R)
  case (Cons ji js)
  obtain j i where ji: "ji = (j, i)" by force
  have i: "1 \<le> i" "i \<le> n" using Cons.prems(2) [of j i] by (simp_all add: ji)
  obtain A' R' where r: "semi_wrap (ecb_block ecb key) n (A, R) (j, i) = (A', R')" by force
  have o: "semi_ok n (A', R')" using semi_step_ok(1) [OF assms(1) Cons.prems(1) i, of j] by (simp add: r)
  have l: "i * CCWRAP_SEMIBLOCK = 8 + 8 * (i - 1)" "8 * (i - 1) + 8 \<le> length R"
    using i Cons.prems(1) by (auto simp: CCWRAP_SEMIBLOCK_def semi_ok_def)
  have "wrap_step ecb key n j (A, P @ R @ T) i = (A', P @ R' @ T)"
    using r unfolding wrap_step_def semi_wrap_def l(1) Let_def prod.case read_inside [OF l(2) assms(4)]
      put_inside [OF l(2) assms(4)] ecb_block_def by simp
  moreover have "\<And>j i. (j, i) \<in> set js \<Longrightarrow> 1 \<le> i \<and> i \<le> n" using Cons.prems(2) by (meson list.set_intros(2))
  ultimately show ?case using Cons.IH [OF o] by (simp add: ji r)
qed simp

lemma unwrap_steps:
  assumes "undoes (ecb_block ecb key) f" "semi_ok n (A, R)" "\<And>j i. (j, i) \<in> set js \<Longrightarrow> 1 \<le> i \<and> i \<le> n"
  shows "foldl (\<lambda>s (j, i). unwrap_step ecb key n j s i) (A, R @ T) js =
    (let (A, R) = foldl (semi_unwrap (ecb_block ecb key) n) (A, R) js in (A, R @ T))"
  using assms(2,3)
proof (induction js arbitrary: A R)
  case (Cons ji js)
  obtain j i where ji: "ji = (j, i)" by force
  have i: "1 \<le> i" "i \<le> n" using Cons.prems(2) [of j i] by (simp_all add: ji)
  obtain A' R' where r: "semi_unwrap (ecb_block ecb key) n (A, R) (j, i) = (A', R')" by force
  have o: "semi_ok n (A', R')" using semi_step_ok(2) [OF assms(1) Cons.prems(1) i, of j] by (simp add: r)
  have l: "(i - 1) * CCWRAP_SEMIBLOCK = 8 * (i - 1)" "8 * (i - 1) + 8 \<le> length R"
    using i Cons.prems(1) by (auto simp: CCWRAP_SEMIBLOCK_def semi_ok_def)
  have "unwrap_step ecb key n j (A, R @ T) i = (A', R' @ T)"
    using r unfolding unwrap_step_def semi_unwrap_def l(1) Let_def prod.case read_front [OF l(2) refl]
      put_front [OF l(2) refl] ecb_block_def by simp
  moreover have "\<And>j i. (j, i) \<in> set js \<Longrightarrow> 1 \<le> i \<and> i \<le> n" using Cons.prems(2) by (meson list.set_intros(2))
  ultimately show ?case using Cons.IH [OF o] by (simp add: ji r)
qed simp

definition wrap_valid :: "nat \<Rightarrow> bool" where
  "wrap_valid n \<longleftrightarrow> n mod 8 = 0 \<and> 16 \<le> n \<and> n < 8 * CCWRAP_MAXSEMIBLOCKS"

lemma wrapped_size: "wrap_valid m \<Longrightarrow> ccwrap_wrapped_size m = m + 8"
  by (simp add: wrap_valid_def ccwrap_wrapped_size_def CCWRAP_SEMIBLOCK_def CCWRAP_MAXSEMIBLOCKS_def)

lemma argsvalid_wrapped: "ecb_block_size ecb = 16 \<Longrightarrow> ccwrap_argsvalid ecb m (ccwrap_wrapped_size m) = wrap_valid m"
proof -
  have "(m + 8) mod 18446744073709551616 mod 8 = (m + 8) mod 8" by (rule mod_mod_cancel) simp
  then show "ecb_block_size ecb = 16 \<Longrightarrow> ?thesis"
    by (auto simp: ccwrap_argsvalid_def ccwrap_wrapped_size_def wrap_valid_def CCWRAP_SEMIBLOCK_def CCWRAP_MAXSEMIBLOCKS_def Let_def)
qed

lemma encrypt_eq:
  assumes "ecb_block_size ecb = 16" "undoes g (ecb_block ecb key)" "length inp = m" "wrap_valid m" "length iv = 8" "m + 8 \<le> length out"
    "(A, R) = foldl (semi_wrap (ecb_block ecb key) (m div 8)) (iv, inp) (wrap_order (m div 8))"
  shows "ccwrap_auth_encrypt_withiv ecb key m inp out iv = (0, m + 8, A @ R @ drop (m + 8) out)"
proof -
  have m: "m = 8 * (m div 8)" using assms(4) by (simp add: wrap_valid_def) presburger
  have o: "semi_ok (m div 8) (iv, inp)" using assms(3,5) m by (simp add: semi_ok_def)
  have b: "\<And>j i. (j, i) \<in> set (wrap_order (m div 8)) \<Longrightarrow> 1 \<le> i \<and> i \<le> m div 8" by (rule wrap_order_bounds)
  have ar: "semi_ok (m div 8) (A, R)" using semi_steps [OF assms(2) o, of "wrap_order (m div 8)"] b assms(7) by auto
  note w = wrap_steps [OF _ o, of g ecb key "wrap_order (m div 8)" "take 8 out" "drop (8 + m) out"]
  have "foldl (\<lambda>s j. foldl (wrap_step ecb key (m div 8) j) s [1..<Suc (m div 8)]) (iv, take 8 out @ inp @ drop (8 + m) out) [0..<6] =
      (A, take 8 out @ R @ drop (8 + m) out)"
    unfolding foldl_nested wrap_order_def [symmetric]
    using w assms(2,6) b by (simp add: assms(7) [symmetric])
  then show ?thesis
    using assms(1,3,4,5,6) ar unfolding ccwrap_auth_encrypt_withiv_def argsvalid_wrapped [OF assms(1)] Let_def
    by (simp add: wrapped_size [OF assms(4)] CCWRAP_SEMIBLOCK_def put_semiblock_def add.commute semi_ok_def)
qed

lemma decrypt_eq:
  assumes "ecb_block_size ecb = 16" "undoes (ecb_block ecb key) f" "length A = 8" "length R = m" "wrap_valid m" "m \<le> length out"
    "(B, P) = foldl (semi_unwrap (ecb_block ecb key) (m div 8)) (A, R) (rev (wrap_order (m div 8)))"
  shows "ccwrap_auth_decrypt_withiv ecb key (m + 8) (A @ R) out iv =
    (if cc_cmp_safe 8 B iv = 0 then (0, m, P @ drop m out) else (CCERR_INTEGRITY, 0, replicate m 0 @ drop m out))"
proof -
  have m: "m = 8 * (m div 8)" "m mod 8 = 0" using assms(5) by (simp_all add: wrap_valid_def) presburger
  have o: "semi_ok (m div 8) (A, R)" using assms(3,4) m by (simp add: semi_ok_def)
  have b: "\<And>j i. (j, i) \<in> set (rev (wrap_order (m div 8))) \<Longrightarrow> 1 \<le> i \<and> i \<le> m div 8" using wrap_order_bounds by simp
  have "semi_ok (m div 8) (foldl (semi_unwrap (ecb_block ecb key) (m div 8)) (A, R) (rev (wrap_order (m div 8))))"
    using semi_steps [OF assms(2) o, of "rev (wrap_order (m div 8))"] b by blast
  then have bp: "semi_ok (m div 8) (B, P)" by (simp add: assms(7))
  have n: "(m + 8) div 8 - 1 = m div 8" by simp
  have v: "ccwrap_argsvalid ecb m (m + 8)"
    using argsvalid_wrapped [OF assms(1), of m] assms(5) by (simp add: wrapped_size [OF assms(5)])
  have u: "ccwrap_unwrapped_size (m + 8) = m" by (simp add: ccwrap_unwrapped_size_def CCWRAP_SEMIBLOCK_def)
  have "foldl (\<lambda>s j. foldl (unwrap_step ecb key (m div 8) j) s (rev [1..<Suc (m div 8)])) (A, R @ drop m out) (rev [0..<6]) = (B, P @ drop m out)"
    unfolding foldl_nested rev_order [symmetric]
    using unwrap_steps [OF assms(2) o, of "rev (wrap_order (m div 8))" "drop m out"] b by (simp add: assms(7) [symmetric])
  then show ?thesis
    using assms(3-6) bp m v
    unfolding ccwrap_auth_decrypt_withiv_def Let_def u CCWRAP_SEMIBLOCK_def n
    by (simp add: semi_ok_def del: upt_Suc)
qed

section \<open>Wrapping and unwrapping\<close>

context block_cipher_pair
begin

lemma inverse_undoes:
  assumes "ecb_block_size enc = 16" "ecb_init enc k n raw = (0, ke)" "ecb_init dec d n raw = (0, kd)"
  shows "undoes (ecb_block dec kd) (ecb_block enc ke)" "undoes (ecb_block enc ke) (ecb_block dec kd)"
  using block_inverse [OF assms(2,3)] block_inverse' [OF assms(2,3)] assms(1) same_size by (simp_all add: undoes_def)

lemma wrap_unwrap:
  assumes "ecb_block_size enc = 16" "ecb_init enc k n raw = (0, ke)" "ecb_init dec d n raw = (0, kd)"
    "length p = m" "wrap_valid m" "length iv = 8" "m + 8 \<le> length out" "m \<le> length out'"
  shows "ccwrap_auth_decrypt_withiv dec kd (m + 8) (take (m + 8) (snd (snd (ccwrap_auth_encrypt_withiv enc ke m p out iv)))) out' iv =
    (0, m, p @ drop m out')"
proof -
  note u = inverse_undoes [OF assms(1-3)]
  have m: "m = 8 * (m div 8)" using assms(5) by (simp add: wrap_valid_def) presburger
  have o: "semi_ok (m div 8) (iv, p)" using assms(4,6) m by (simp add: semi_ok_def)
  obtain A R where e: "(A, R) = foldl (semi_wrap (ecb_block enc ke) (m div 8)) (iv, p) (wrap_order (m div 8))" by (metis surj_pair)
  have b: "\<And>j i. (j, i) \<in> set (wrap_order (m div 8)) \<Longrightarrow> 1 \<le> i \<and> i \<le> m div 8" by (rule wrap_order_bounds)
  note s = semi_steps [OF u(1) o, of "wrap_order (m div 8)", folded e]
  have ar: "length A = 8" "length R = m" using s b m by (auto simp: semi_ok_def)
  have "ccwrap_auth_encrypt_withiv enc ke m p out iv = (0, m + 8, A @ R @ drop (m + 8) out)"
    using encrypt_eq [OF assms(1) u(1) assms(4-7) e] .
  moreover have "ccwrap_auth_decrypt_withiv dec kd (m + 8) (A @ R) out' iv = (0, m, p @ drop m out')"
    using decrypt_eq [OF _ u(1) ar assms(5,8), of iv p iv] s b assms(1,6) by (simp add: same_size cc_cmp_safe_take)
  ultimately show ?thesis using ar by simp
qed

lemma unwrap_wrap:
  assumes "ecb_block_size enc = 16" "ecb_init enc k n raw = (0, ke)" "ecb_init dec d n raw = (0, kd)"
    "length c = m + 8" "wrap_valid m" "length iv = 8" "m \<le> length out" "m + 8 \<le> length out'"
    "ccwrap_auth_decrypt_withiv dec kd (m + 8) c out iv = (r, l, p)"
  shows "r = 0 \<and> l = m \<and> take (m + 8) (snd (snd (ccwrap_auth_encrypt_withiv enc ke m (take m p) out' iv))) = c \<or>
    r = CCERR_INTEGRITY \<and> l = 0 \<and> take m p = replicate m 0"
proof -
  note u = inverse_undoes [OF assms(1-3)]
  have m: "m = 8 * (m div 8)" using assms(5) by (simp add: wrap_valid_def) presburger
  define A R where "A = take 8 c" and "R = drop 8 c"
  have ar: "length A = 8" "length R = m" and c: "c = A @ R" using assms(4) by (simp_all add: A_def R_def)
  have o: "semi_ok (m div 8) (A, R)" using ar m by (simp add: semi_ok_def)
  obtain B P where e: "(B, P) = foldl (semi_unwrap (ecb_block dec kd) (m div 8)) (A, R) (rev (wrap_order (m div 8)))" by (metis surj_pair)
  have b: "\<And>j i. (j, i) \<in> set (wrap_order (m div 8)) \<Longrightarrow> 1 \<le> i \<and> i \<le> m div 8" by (rule wrap_order_bounds)
  have bp: "semi_ok (m div 8) (B, P)"
    using semi_steps [OF u(1) o, of "rev (wrap_order (m div 8))", folded e] b by simp
  then have l: "length B = 8" "length P = m" using m by (simp_all add: semi_ok_def)
  have bk: "foldl (semi_wrap (ecb_block enc ke) (m div 8)) (B, P) (wrap_order (m div 8)) = (A, R)"
    using semi_steps_back [OF u(2) o, of "wrap_order (m div 8)", folded e] b by simp
  have d: "ccwrap_auth_decrypt_withiv dec kd (m + 8) c out iv =
      (if B = iv then (0, m, P @ drop m out) else (CCERR_INTEGRITY, 0, replicate m 0 @ drop m out))"
    using decrypt_eq [OF _ u(1) ar assms(5,7) e, of iv] assms(1,6) l by (simp add: same_size cc_cmp_safe_take c)
  show ?thesis
  proof (cases "B = iv")
    case True
    have "ccwrap_auth_encrypt_withiv enc ke m P out' iv = (0, m + 8, A @ R @ drop (m + 8) out')"
      using encrypt_eq [OF assms(1) u(1) l(2) assms(5,6,8), of A R] bk by (simp add: True)
    then have w: "take (m + 8) (snd (snd (ccwrap_auth_encrypt_withiv enc ke m P out' iv))) = c" using ar by (simp add: c)
    have r: "r = 0" "l = m" "p = P @ drop m out" using d assms(9) by (simp_all add: True)
    have "take m p = P" using l by (simp add: r(3))
    with w r(1,2) show ?thesis by simp
  qed (use d assms(9) in simp)
qed

end

end
