(* ===== verification/Ccrng.thy ===== *)
theory Ccrng
  imports Cc_Priv
begin

unbundle bit_operations_syntax

text \<open>
  Random number generators (\<open>ccrng/src\<close>).  A generator is a state with a function that may fail, and, as some
  generators loop, may not return: the result is an option.  \<open>ccrng_uniform\<close> draws until a number fits; whether it
  returns depends on what the generator draws.  The two generators that read a given sequence of bytes are at the end.
\<close>

section \<open>The interface\<close>

definition CCERR_CRYPTO_CONFIG :: int where "CCERR_CRYPTO_CONFIG = -5"
definition CCERR_OUT_OF_ENTROPY :: int where "CCERR_OUT_OF_ENTROPY = -10"

record 'r ccrng_state =
  rng_generate :: "'r \<Rightarrow> nat \<Rightarrow> (int \<times> 'r \<times> bytes) option"
  rng_state :: 'r

definition ccrng_generate :: "'r ccrng_state \<Rightarrow> nat \<Rightarrow> (int \<times> 'r ccrng_state \<times> bytes) option" where
  "ccrng_generate rng outlen =
     (case rng_generate rng (rng_state rng) outlen of
        None \<Rightarrow> None
      | Some (err, s, out) \<Rightarrow> Some (err, rng\<lparr>rng_state := s\<rparr>, out))"

section \<open>Numbers below a bound\<close>

text \<open>The eight bytes drawn are the memory of a \<open>uint64_t\<close>, on a machine with the low byte first.\<close>

partial_function (option) ccrng_uniform_loop ::
  "'r ccrng_state \<Rightarrow> cc_unit \<Rightarrow> cc_unit \<Rightarrow> (int \<times> 'r ccrng_state \<times> cc_unit) option" where
  "ccrng_uniform_loop rng msk bound =
     (case ccrng_generate rng 8 of
        None \<Rightarrow> None
      | Some (err, rng, bs) \<Rightarrow>
          if err \<noteq> 0 then Some (err, rng, 0)
          else let rand = cc_load64_le bs AND msk
               in if rand < bound then Some (0, rng, rand) else ccrng_uniform_loop rng msk bound)"

definition uniform_mask :: "cc_unit \<Rightarrow> cc_unit" where
  "uniform_mask bound = drop_bit (unat (cc_clz64 bound)) (- 1)"

definition ccrng_uniform :: "'r ccrng_state \<Rightarrow> cc_unit \<Rightarrow> (int \<times> 'r ccrng_state \<times> cc_unit) option" where
  "ccrng_uniform rng bound =
     (if bound < 2 then Some (CCERR_PARAMETER, rng, 0) else ccrng_uniform_loop rng (uniform_mask bound) bound)"

section \<open>Generators that read a sequence\<close>

record ccrng_sequence_state =
  seq_state :: bytes
  seq_len :: nat

definition sequence_repeat_generate :: "ccrng_sequence_state \<Rightarrow> nat \<Rightarrow> (int \<times> ccrng_sequence_state \<times> bytes) option" where
  "sequence_repeat_generate rng entropy_size =
     (if seq_len rng = 0 then Some (CCERR_CRYPTO_CONFIG, rng, [])
      else Some (0, rng, map (\<lambda>i. seq_state rng ! (i mod seq_len rng)) [0..<entropy_size]))"

definition ccrng_sequence_init :: "nat \<Rightarrow> bytes \<Rightarrow> int \<times> ccrng_sequence_state ccrng_state" where
  "ccrng_sequence_init len sequence =
     (0, \<lparr>rng_generate = sequence_repeat_generate, rng_state = \<lparr>seq_state = sequence, seq_len = len\<rparr>\<rparr>)"

definition non_repeat_sequence_generate :: "ccrng_sequence_state \<Rightarrow> nat \<Rightarrow> (int \<times> ccrng_sequence_state \<times> bytes) option" where
  "non_repeat_sequence_generate rng entropy_size =
     (if seq_len rng < entropy_size then Some (CCERR_OUT_OF_ENTROPY, rng, [])
      else Some (0, rng\<lparr>seq_state := drop entropy_size (seq_state rng), seq_len := seq_len rng - entropy_size\<rparr>,
        take entropy_size (seq_state rng)))"

definition ccrng_sequence_non_repeat_init :: "nat \<Rightarrow> bytes \<Rightarrow> int \<times> ccrng_sequence_state ccrng_state" where
  "ccrng_sequence_non_repeat_init len sequence =
     (0, \<lparr>rng_generate = non_repeat_sequence_generate, rng_state = \<lparr>seq_state = sequence, seq_len = len\<rparr>\<rparr>)"

section \<open>When the loop returns\<close>

text \<open>The draws of a generator, as long as none fails: the state after draw \<open>k\<close> and the number drawn.\<close>

definition rng_draw :: "'r ccrng_state \<Rightarrow> ('r ccrng_state \<times> cc_unit) option" where
  "rng_draw rng =
     (case ccrng_generate rng 8 of Some (err, rng, bs) \<Rightarrow> if err = 0 then Some (rng, cc_load64_le bs) else None | None \<Rightarrow> None)"

primrec rng_draws :: "nat \<Rightarrow> 'r ccrng_state \<Rightarrow> ('r ccrng_state \<times> cc_unit) option" where
  "rng_draws 0 rng = rng_draw rng"
| "rng_draws (Suc k) rng = (case rng_draw rng of Some (rng, w) \<Rightarrow> rng_draws k rng | None \<Rightarrow> None)"

definition first_fit :: "'r ccrng_state \<Rightarrow> cc_unit \<Rightarrow> cc_unit \<Rightarrow> nat \<Rightarrow> 'r ccrng_state \<Rightarrow> cc_unit \<Rightarrow> bool" where
  "first_fit rng msk bound k rng' v \<longleftrightarrow>
     (\<exists>w. rng_draws k rng = Some (rng', w) \<and> v = w AND msk \<and> v < bound) \<and>
     (\<forall>j < k. \<exists>r w. rng_draws j rng = Some (r, w) \<and> bound \<le> w AND msk)"

lemma first_fit_Suc:
  assumes "rng_draw rng = Some (r, w)"
  shows "first_fit rng msk bound (Suc k) rng' v \<longleftrightarrow> bound \<le> w AND msk \<and> first_fit r msk bound k rng' v"
  by (auto simp: first_fit_def assms All_less_Suc2)

lemma loop_draw:
  assumes "rng_draw rng = Some (r, w)"
  shows "ccrng_uniform_loop rng msk bound =
    (if w AND msk < bound then Some (0, r, w AND msk) else ccrng_uniform_loop r msk bound)"
  using assms by (subst ccrng_uniform_loop.simps) (auto simp: rng_draw_def Let_def split: option.splits if_splits)

lemma first_fit_returns:
  "first_fit rng msk bound k rng' v \<Longrightarrow> ccrng_uniform_loop rng msk bound = Some (0, rng', v)"
proof (induction k arbitrary: rng)
  case 0
  then show ?case by (auto simp: first_fit_def loop_draw)
next
  case (Suc k)
  then have "rng_draws (Suc k) rng \<noteq> None" by (auto simp: first_fit_def)
  then obtain r w where r: "rng_draw rng = Some (r, w)" by (auto split: option.splits)
  then show ?case using Suc by (simp add: loop_draw [OF r] first_fit_Suc [OF r] not_less [symmetric])
qed

lemma returns_first_fit:
  "ccrng_uniform_loop rng msk bound = Some res \<Longrightarrow> fst res = 0 \<longrightarrow> (\<exists>k. first_fit rng msk bound k (fst (snd res)) (snd (snd res)))"
proof (rule ccrng_uniform_loop.raw_induct
    [where P = "\<lambda>rng msk bound res. fst res = 0 \<longrightarrow> (\<exists>k. first_fit rng msk bound k (fst (snd res)) (snd (snd res)))"])
  fix f :: "'a ccrng_state \<Rightarrow> cc_unit \<Rightarrow> cc_unit \<Rightarrow> (int \<times> 'a ccrng_state \<times> cc_unit) option" and rng msk bound res
  assume ih: "\<And>rng msk bound res. f rng msk bound = Some res \<Longrightarrow>
      fst res = 0 \<longrightarrow> (\<exists>k. first_fit rng msk bound k (fst (snd res)) (snd (snd res)))"
    and body: "(case ccrng_generate rng 8 of None \<Rightarrow> None
      | Some (err, rng, bs) \<Rightarrow>
          if err \<noteq> 0 then Some (err, rng, 0)
          else let rand = cc_load64_le bs AND msk in if rand < bound then Some (0, rng, rand) else f rng msk bound) = Some res"
  show "fst res = 0 \<longrightarrow> (\<exists>k. first_fit rng msk bound k (fst (snd res)) (snd (snd res)))"
  proof
    assume ok: "fst res = 0"
    then obtain r w where r: "rng_draw rng = Some (r, w)"
      using body by (force simp: rng_draw_def split: option.splits if_splits prod.splits)
    have b: "(if w AND msk < bound then Some (0, r, w AND msk) else f r msk bound) = Some res"
      using body r by (auto simp: rng_draw_def Let_def split: option.splits if_splits)
    show "\<exists>k. first_fit rng msk bound k (fst (snd res)) (snd (snd res))"
    proof (cases "w AND msk < bound")
      case True
      then have "first_fit rng msk bound 0 r (w AND msk)" by (simp add: first_fit_def r)
      then show ?thesis using b True by auto
    next
      case False
      then obtain k where "first_fit r msk bound k (fst (snd res)) (snd (snd res))" using ih [of r msk bound res] ok b by auto
      then have "first_fit rng msk bound (Suc k) (fst (snd res)) (snd (snd res))" using False by (simp add: first_fit_Suc [OF r])
      then show ?thesis by blast
    qed
  qed
qed

section \<open>The numbers that fit\<close>

lemma uniform_mask_bits:
  assumes "2 \<le> bound" "c = unat (cc_clz64 bound)"
  shows "c < 64" "unat (w AND uniform_mask bound) = unat w mod 2 ^ (64 - c)" "unat bound \<le> 2 ^ (64 - c)" "2 ^ (63 - c) \<le> unat bound"
proof -
  have "bound \<noteq> 0" using assms(1) by auto
  from cc_clz64_bounds [OF this] show c: "c < 64" "unat bound \<le> 2 ^ (64 - c)" "2 ^ (63 - c) \<le> unat bound" by (simp_all add: assms(2))
  have "uniform_mask bound = mask (64 - c)"
    unfolding uniform_mask_def assms(2) [symmetric] by (rule bit_word_eqI) (use c(1) in \<open>auto simp: bit_simps\<close>)
  then show "unat (w AND uniform_mask bound) = unat w mod 2 ^ (64 - c)"
    by (simp only: take_bit_eq_mask [symmetric] unsigned_take_bit_eq) (simp add: take_bit_eq_mod)
qed

text \<open>Every number below the bound comes from as many words as any other, and half of the words at least fit.\<close>

lemma card_low_bits:
  assumes "c \<le> 64" "S \<subseteq> {..<2 ^ (64 - c)}"
  shows "card {w :: cc_unit. unat w mod 2 ^ (64 - c) \<in> S} = 2 ^ c * card S"
proof -
  let ?m = "2 ^ (64 - c) :: nat"
  have m: "?m * 2 ^ c = 2 ^ 64" using assms(1) by (simp flip: power_add)
  have "bij_betw (\<lambda>(q, s). of_nat (?m * q + s) :: cc_unit) ({..<2 ^ c} \<times> S) {w. unat w mod ?m \<in> S}"
  proof (rule bij_betw_byWitness [where f' = "\<lambda>w. (unat w div ?m, unat w mod ?m)"])
    have lt: "?m * q + s < 2 ^ 64" if "q < 2 ^ c" "s \<in> S" for q s
    proof -
      have "s < ?m" using that(2) assms(2) by auto
      then have "?m * q + s < ?m * (q + 1)" by simp
      also have "\<dots> \<le> ?m * 2 ^ c" using that(1) by (intro mult_le_mono2) simp
      finally show ?thesis using m by simp
    qed
    have u: "unat (of_nat (?m * q + s) :: cc_unit) = ?m * q + s" if "q < 2 ^ c" "s \<in> S" for q s
      using lt [OF that] by (simp only: unat_of_nat) simp
    show "\<forall>a \<in> {..<2 ^ c} \<times> S. (\<lambda>w. (unat w div ?m, unat w mod ?m)) ((\<lambda>(q, s). of_nat (?m * q + s) :: cc_unit) a) = a"
      using assms(2) by (auto simp: u simp del: of_nat_add of_nat_mult)
    show "\<forall>w \<in> {w. unat w mod ?m \<in> S}. (\<lambda>(q, s). of_nat (?m * q + s) :: cc_unit) (unat w div ?m, unat w mod ?m) = w"
      by (simp del: of_nat_add of_nat_mult add: mult_div_mod_eq)
    show "(\<lambda>(q, s). of_nat (?m * q + s) :: cc_unit) ` ({..<2 ^ c} \<times> S) \<subseteq> {w. unat w mod ?m \<in> S}"
      using assms(2) by (auto simp: u simp del: of_nat_add of_nat_mult)
    have "unat w div ?m < 2 ^ c" for w :: cc_unit
      by (rule less_mult_imp_div_less) (use word_bound [of w] m in \<open>simp add: mult.commute\<close>)
    then show "(\<lambda>w. (unat w div ?m, unat w mod ?m)) ` {w :: cc_unit. unat w mod ?m \<in> S} \<subseteq> {..<2 ^ c} \<times> S" by auto
  qed
  then have "card {w :: cc_unit. unat w mod ?m \<in> S} = card ({..<2 ^ c :: nat} \<times> S)" by (simp add: bij_betw_same_card)
  then show ?thesis by (simp add: card_cartesian_product)
qed

lemma uniform_counts:
  assumes "2 \<le> bound" "c = unat (cc_clz64 bound)"
  shows "v < bound \<Longrightarrow> card {w. w AND uniform_mask bound = v} = 2 ^ c" "2 ^ 63 \<le> card {w. w AND uniform_mask bound < bound}"
proof -
  note b = uniform_mask_bits [OF assms]
  show "card {w. w AND uniform_mask bound = v} = 2 ^ c" if v: "v < bound"
  proof -
    have "{w. w AND uniform_mask bound = v} = {w. unat w mod 2 ^ (64 - c) \<in> {unat v}}"
      by (simp add: word_unat_eq_iff b(2))
    then show ?thesis
      using card_low_bits [of c "{unat v}"] b(1,3) v by (simp add: word_less_nat_alt)
  qed
  have "{w. w AND uniform_mask bound < bound} = {w. unat w mod 2 ^ (64 - c) \<in> {..<unat bound}}"
    by (simp add: word_less_nat_alt b(2))
  then have "card {w. w AND uniform_mask bound < bound} = 2 ^ c * unat bound"
    using card_low_bits [of c "{..<unat bound}"] b(1,3) by simp
  moreover have "2 ^ c * 2 ^ (63 - c) = (2 :: nat) ^ 63" using b(1) by (simp flip: power_add)
  moreover have "2 ^ c * 2 ^ (63 - c) \<le> 2 ^ c * unat bound" using b(4) by (rule mult_le_mono2)
  ultimately show "2 ^ 63 \<le> card {w. w AND uniform_mask bound < bound}" by simp
qed

text \<open>A generator that starts its sequence again on every call draws one number for ever.\<close>

lemma sequence_draws:
  assumes "snd (ccrng_sequence_init len s) = rng" "0 < len"
  shows "rng_draws k rng = Some (rng, cc_load64_le (map (\<lambda>i. s ! (i mod len)) [0..<8]))"
proof -
  have "rng_draw rng = Some (rng, cc_load64_le (map (\<lambda>i. s ! (i mod len)) [0..<8]))"
    using assms by (auto simp: ccrng_sequence_init_def rng_draw_def ccrng_generate_def sequence_repeat_generate_def)
  then show ?thesis by (induction k) simp_all
qed

end
