(* ===== verification/Ccdrbg.thy ===== *)
theory Ccdrbg
  imports Cchmac Cckdf Ccrng
begin

unbundle bit_operations_syntax

text \<open>
  HMAC_DRBG of SP 800-90A (\<open>ccdrbg_nisthmac.c\<close>) and the generator interface over it (\<open>ccrng_drbg.c\<close>).
  \<open>drbg_holds\<close> relates the context to the working state of the standard: key, value and the number of requests since
  the last seed.  The argument \<open>hc\<close> is what the memory of the HMAC contexts on the stack holds.
\<close>

section \<open>Contexts\<close>

definition CCDRBG_STATUS_NEED_RESEED :: int where "CCDRBG_STATUS_NEED_RESEED = -62"
definition CCDRBG_STATUS_PARAM_ERROR :: int where "CCDRBG_STATUS_PARAM_ERROR = -63"
definition CCDRBG_STATUS_ABORT :: int where "CCDRBG_STATUS_ABORT = -64"

definition CCDRBG_MAX_ENTROPY_SIZE :: nat where "CCDRBG_MAX_ENTROPY_SIZE = 2 ^ 16"
definition CCDRBG_MAX_ADDITIONALINPUT_SIZE :: nat where "CCDRBG_MAX_ADDITIONALINPUT_SIZE = 2 ^ 16"
definition CCDRBG_MAX_PSINPUT_SIZE :: nat where "CCDRBG_MAX_PSINPUT_SIZE = 2 ^ 16"
definition CCDRBG_MAX_REQUEST_SIZE :: nat where "CCDRBG_MAX_REQUEST_SIZE = 2 ^ 16"
definition CCDRBG_RESEED_INTERVAL :: cc_unit where "CCDRBG_RESEED_INTERVAL = 2 ^ 48"

definition NISTHMAC_MAX_OUTPUT_SIZE :: nat where "NISTHMAC_MAX_OUTPUT_SIZE = 64"

definition MIN_REQ_ENTROPY :: "'s ccdigest_info \<Rightarrow> nat" where
  "MIN_REQ_ENTROPY di = di_output_size di div 2"

record 's ccdrbg_nisthmac_custom =
  hd_di :: "'s ccdigest_info"
  hd_strictFIPS :: bool

text \<open>The pointer \<open>custom\<close> is null after \<open>done\<close>.\<close>

record 's ccdrbg_nisthmac_state =
  hd_custom :: "'s ccdrbg_nisthmac_custom option"
  hd_key :: bytes
  hd_V :: bytes
  hd_reseed_counter :: cc_unit

section \<open>Operations\<close>

definition nisthmac_done :: "'s ccdrbg_nisthmac_state \<Rightarrow> 's ccdrbg_nisthmac_state" where
  "nisthmac_done ctx =
     \<lparr>hd_custom = None, hd_key = replicate NISTHMAC_MAX_OUTPUT_SIZE 0, hd_V = replicate NISTHMAC_MAX_OUTPUT_SIZE 0,
      hd_reseed_counter = 0\<rparr>"

fun update_inputs :: "'s ccdigest_info \<Rightarrow> 's cchmac_ctx \<Rightarrow> nat \<Rightarrow> (nat \<times> bytes) list \<Rightarrow> 's cchmac_ctx \<times> nat" where
  "update_inputs di hc data_nbytes [] = (hc, data_nbytes)"
| "update_inputs di hc data_nbytes ((nbytes, buf) # args) =
     update_inputs di (cchmac_update di hc nbytes buf) (data_nbytes + nbytes) args"

text \<open>A round of \<open>update\<close>, for the byte \<open>b\<close>.\<close>

definition nisthmac_update_round ::
  "'s cchmac_ctx \<Rightarrow> 's ccdrbg_nisthmac_state \<Rightarrow> nat \<Rightarrow> byte \<Rightarrow> (nat \<times> bytes) list \<Rightarrow> 's ccdrbg_nisthmac_state \<times> nat" where
  "nisthmac_update_round hc ctx data_nbytes b args =
     (let info = hd_di (the (hd_custom ctx)); outlen = di_output_size info;
          hmac_ctx = cchmac_init info hc outlen (hd_key ctx);
          hmac_ctx = cchmac_update info hmac_ctx outlen (hd_V ctx);
          hmac_ctx = cchmac_update info hmac_ctx 1 [b];
          (hmac_ctx, data_nbytes) = update_inputs info hmac_ctx data_nbytes args;
          (hmac_ctx, mac) = cchmac_final info hmac_ctx;
          ctx = ctx\<lparr>hd_key := mac @ drop outlen (hd_key ctx)\<rparr>
      in (ctx\<lparr>hd_V := cchmac info hc outlen (hd_key ctx) outlen (hd_V ctx) @ drop outlen (hd_V ctx)\<rparr>, data_nbytes))"

definition nisthmac_update ::
  "'s cchmac_ctx \<Rightarrow> 's ccdrbg_nisthmac_state \<Rightarrow> (nat \<times> bytes) list \<Rightarrow> 's ccdrbg_nisthmac_state" where
  "nisthmac_update hc ctx args =
     (let (ctx, data_nbytes) = nisthmac_update_round hc ctx 0 0 args
      in if data_nbytes = 0 then ctx else fst (nisthmac_update_round hc ctx data_nbytes 1 args))"

definition entropy_isvalid :: "nat \<Rightarrow> 's ccdigest_info \<Rightarrow> bool" where
  "entropy_isvalid entropy_nbytes info \<longleftrightarrow> entropy_nbytes \<le> CCDRBG_MAX_ENTROPY_SIZE \<and> entropy_nbytes \<ge> MIN_REQ_ENTROPY info"

definition nisthmac_init ::
  "'s cchmac_ctx \<Rightarrow> 's ccdrbg_nisthmac_custom \<Rightarrow> 's ccdrbg_nisthmac_state \<Rightarrow> nat \<Rightarrow> bytes \<Rightarrow> nat \<Rightarrow> bytes \<Rightarrow> nat \<Rightarrow> bytes \<Rightarrow>
   int \<times> 's ccdrbg_nisthmac_state" where
  "nisthmac_init hc custom ctx entropy_nbytes entropy nonce_nbytes nonce ps_nbytes ps =
     (let ctx = ctx\<lparr>hd_custom := Some custom\<rparr>; digest_info = hd_di custom; outlen = di_output_size digest_info
      in if \<not> outlen \<le> NISTHMAC_MAX_OUTPUT_SIZE then (CCDRBG_STATUS_PARAM_ERROR, ctx)
         else if \<not> entropy_isvalid entropy_nbytes digest_info then (CCDRBG_STATUS_PARAM_ERROR, ctx)
         else if \<not> ps_nbytes \<le> CCDRBG_MAX_PSINPUT_SIZE then (CCDRBG_STATUS_PARAM_ERROR, ctx)
         else let ctx = ctx\<lparr>hd_key := replicate outlen 0 @ drop outlen (hd_key ctx), hd_V := replicate outlen 1 @ drop outlen (hd_V ctx)\<rparr>;
                  ctx = nisthmac_update hc ctx [(entropy_nbytes, entropy), (nonce_nbytes, nonce), (ps_nbytes, ps)]
              in (0, ctx\<lparr>hd_reseed_counter := 1\<rparr>))"

definition add_isvalid :: "nat \<Rightarrow> bool" where
  "add_isvalid add_nbytes \<longleftrightarrow> add_nbytes \<le> CCDRBG_MAX_ADDITIONALINPUT_SIZE"

definition nisthmac_reseed ::
  "'s cchmac_ctx \<Rightarrow> 's ccdrbg_nisthmac_state \<Rightarrow> nat \<Rightarrow> bytes \<Rightarrow> nat \<Rightarrow> bytes \<Rightarrow> int \<times> 's ccdrbg_nisthmac_state" where
  "nisthmac_reseed hc ctx entropy_nbytes entropy add_nbytes add =
     (if \<not> entropy_isvalid entropy_nbytes (hd_di (the (hd_custom ctx))) then (CCDRBG_STATUS_PARAM_ERROR, ctx)
      else if \<not> add_isvalid add_nbytes then (CCDRBG_STATUS_PARAM_ERROR, ctx)
      else let ctx = nisthmac_update hc ctx [(entropy_nbytes, entropy), (add_nbytes, add)]
           in (0, ctx\<lparr>hd_reseed_counter := 1\<rparr>))"

text \<open>
  The loop over the output, with the test that two values in a row differ.  It comes back with the value, the bytes
  written and whether the test failed.  For a digest without output it would not end.
\<close>

partial_function (option) nisthmac_output ::
  "'s ccdigest_info \<Rightarrow> 's cchmac_ctx \<Rightarrow> bytes \<Rightarrow> bytes \<Rightarrow> nat \<Rightarrow> (bool \<times> bytes \<times> bytes) option" where
  "nisthmac_output info hc key V out_nbytes =
     (if out_nbytes > 0
      then let outlen = di_output_size info; Vprev = take outlen V;
               V = cchmac info hc outlen key outlen V @ drop outlen V
           in if cc_cmp_safe outlen Vprev V = 0 then Some (True, V, [])
              else let n = min out_nbytes outlen
                   in Option.bind (nisthmac_output info hc key V (out_nbytes - n))
                        (\<lambda>(abort, V', out). Some (abort, V', take n V @ out))
      else Some (False, V, []))"

definition nisthmac_generate ::
  "'s cchmac_ctx \<Rightarrow> 's ccdrbg_nisthmac_state \<Rightarrow> nat \<Rightarrow> nat \<Rightarrow> bytes \<Rightarrow> (int \<times> 's ccdrbg_nisthmac_state \<times> bytes) option" where
  "nisthmac_generate hc ctx out_nbytes add_nbytes add =
     (let custom = the (hd_custom ctx); info = hd_di custom
      in if \<not> out_nbytes \<le> CCDRBG_MAX_REQUEST_SIZE then Some (CCDRBG_STATUS_PARAM_ERROR, ctx, [])
         else if \<not> add_isvalid add_nbytes then Some (CCDRBG_STATUS_PARAM_ERROR, ctx, [])
         else if \<not> (hd_reseed_counter ctx \<le> CCDRBG_RESEED_INTERVAL \<or> \<not> hd_strictFIPS custom)
         then Some (CCDRBG_STATUS_NEED_RESEED, ctx, [])
         else let ctx = (if add_nbytes > 0 then nisthmac_update hc ctx [(add_nbytes, add)] else ctx)
              in case nisthmac_output info hc (hd_key ctx) (hd_V ctx) out_nbytes of
                   None \<Rightarrow> None
                 | Some (abort, V, out) \<Rightarrow>
                     (let ctx = ctx\<lparr>hd_V := V\<rparr>
                      in if abort then Some (CCDRBG_STATUS_ABORT, nisthmac_done ctx, out)
                         else let ctx = nisthmac_update hc ctx [(add_nbytes, add)]
                              in Some (0, ctx\<lparr>hd_reseed_counter := hd_reseed_counter ctx + 1\<rparr>, out)))"

record 'd ccdrbg_info =
  drbg_init :: "'d \<Rightarrow> nat \<Rightarrow> bytes \<Rightarrow> nat \<Rightarrow> bytes \<Rightarrow> nat \<Rightarrow> bytes \<Rightarrow> int \<times> 'd"
  drbg_reseed :: "'d \<Rightarrow> nat \<Rightarrow> bytes \<Rightarrow> nat \<Rightarrow> bytes \<Rightarrow> int \<times> 'd"
  drbg_generate :: "'d \<Rightarrow> nat \<Rightarrow> nat \<Rightarrow> bytes \<Rightarrow> (int \<times> 'd \<times> bytes) option"
  drbg_done :: "'d \<Rightarrow> 'd"

definition ccdrbg_factory_nisthmac :: "'s cchmac_ctx \<Rightarrow> 's ccdrbg_nisthmac_custom \<Rightarrow> 's ccdrbg_nisthmac_state ccdrbg_info" where
  "ccdrbg_factory_nisthmac hc custom =
     \<lparr>drbg_init = nisthmac_init hc custom, drbg_reseed = nisthmac_reseed hc, drbg_generate = nisthmac_generate hc,
      drbg_done = nisthmac_done\<rparr>"

section \<open>The generator interface\<close>

record 'd ccrng_drbg_state =
  rd_info :: "'d ccdrbg_info"
  rd_state :: "'d option"

definition rng_drbg_generate :: "'d ccrng_drbg_state \<Rightarrow> nat \<Rightarrow> (int \<times> 'd ccrng_drbg_state \<times> bytes) option" where
  "rng_drbg_generate rng nbytes =
     (case drbg_generate (rd_info rng) (the (rd_state rng)) nbytes 0 [] of
        None \<Rightarrow> None
      | Some (err, s, out) \<Rightarrow> Some (err, rng\<lparr>rd_state := Some s\<rparr>, out))"

definition ccrng_drbg_init_withdrbg :: "'d ccdrbg_info \<Rightarrow> 'd \<Rightarrow> int \<times> 'd ccrng_drbg_state ccrng_state" where
  "ccrng_drbg_init_withdrbg drbg_info drbg_state =
     (0, \<lparr>rng_generate = rng_drbg_generate, rng_state = \<lparr>rd_info = drbg_info, rd_state = Some drbg_state\<rparr>\<rparr>)"

text \<open>\<open>corecrypto drbg based rng\<close> and the zero byte at its end.\<close>

definition drbg_const_seed :: bytes where
  "drbg_const_seed = [99, 111, 114, 101, 99, 114, 121, 112, 116, 111, 32, 100, 114, 98, 103, 32, 98, 97, 115, 101, 100, 32,
     114, 110, 103, 0]"

definition ccrng_drbg_init ::
  "'d ccrng_drbg_state ccrng_state \<Rightarrow> 'd ccdrbg_info \<Rightarrow> 'd \<Rightarrow> nat \<Rightarrow> bytes \<Rightarrow> int \<times> 'd ccrng_drbg_state ccrng_state \<times> 'd" where
  "ccrng_drbg_init rng drbg_info drbg_state len seed =
     (let (err, drbg_state) = drbg_init drbg_info drbg_state len seed len seed 26 drbg_const_seed
      in if err \<noteq> 0 then (err, rng, drbg_state)
         else let (err, rng) = ccrng_drbg_init_withdrbg drbg_info drbg_state in (err, rng, drbg_state))"

definition ccrng_drbg_reseed ::
  "'d ccrng_drbg_state ccrng_state \<Rightarrow> nat \<Rightarrow> bytes \<Rightarrow> nat \<Rightarrow> bytes \<Rightarrow> int \<times> 'd ccrng_drbg_state ccrng_state" where
  "ccrng_drbg_reseed rng entropylen entropy inlen inp =
     (let r = rng_state rng; (err, s) = drbg_reseed (rd_info r) (the (rd_state r)) entropylen entropy inlen inp
      in (err, rng\<lparr>rng_state := r\<lparr>rd_state := Some s\<rparr>\<rparr>))"

definition ccrng_drbg_done :: "'d ccrng_drbg_state ccrng_state \<Rightarrow> 'd ccrng_drbg_state ccrng_state \<times> 'd" where
  "ccrng_drbg_done rng =
     (let r = rng_state rng in (rng\<lparr>rng_state := r\<lparr>rd_state := None\<rparr>\<rparr>, drbg_done (rd_info r) (the (rd_state r))))"

section \<open>The functions of SP 800-90A\<close>

definition hmac_drbg_update_1 :: "'s ccdigest_info \<Rightarrow> byte \<Rightarrow> bytes \<Rightarrow> bytes \<times> bytes \<Rightarrow> bytes \<times> bytes" where
  "hmac_drbg_update_1 di b data KV =
     (let (K, V) = KV; K = hmac_value di K (V @ [b] @ data) in (K, hmac_value di K V))"

definition hmac_drbg_update :: "'s ccdigest_info \<Rightarrow> bytes \<Rightarrow> bytes \<times> bytes \<Rightarrow> bytes \<times> bytes" where
  "hmac_drbg_update di data KV =
     (let KV = hmac_drbg_update_1 di 0 data KV in if data = [] then KV else hmac_drbg_update_1 di 1 data KV)"

definition hmac_drbg_V :: "'s ccdigest_info \<Rightarrow> bytes \<Rightarrow> bytes \<Rightarrow> nat \<Rightarrow> bytes" where
  "hmac_drbg_V di K V i = (hmac_value di K ^^ i) V"

definition drbg_holds :: "'s ccdigest_info \<Rightarrow> bool \<Rightarrow> bytes \<times> bytes \<Rightarrow> cc_unit \<Rightarrow> 's ccdrbg_nisthmac_state \<Rightarrow> bool" where
  "drbg_holds di strict KV count ctx \<longleftrightarrow>
     hd_custom ctx = Some \<lparr>hd_di = di, hd_strictFIPS = strict\<rparr> \<and>
     length (hd_key ctx) = NISTHMAC_MAX_OUTPUT_SIZE \<and> length (hd_V ctx) = NISTHMAC_MAX_OUTPUT_SIZE \<and>
     di_output_size di \<le> NISTHMAC_MAX_OUTPUT_SIZE \<and>
     KV = (take (di_output_size di) (hd_key ctx), take (di_output_size di) (hd_V ctx)) \<and> hd_reseed_counter ctx = count"

definition stack_ok :: "'s ccdigest_info \<Rightarrow> 's cchmac_ctx \<Rightarrow> bool" where
  "stack_ok di hc \<longleftrightarrow> length (digest_data (hmac_digest hc)) = di_block_size di"

text \<open>How many blocks of \<open>h\<close> bytes hold \<open>n\<close> bytes.\<close>

definition block_count :: "nat \<Rightarrow> nat \<Rightarrow> nat" where
  "block_count n h = (n + (h - 1)) div h"

text \<open>Two values in a row agree among the first \<open>k\<close> of the output.\<close>

definition drbg_repeats :: "'s ccdigest_info \<Rightarrow> bytes \<Rightarrow> bytes \<Rightarrow> nat \<Rightarrow> bool" where
  "drbg_repeats di K V k \<longleftrightarrow> (\<exists>i < k. hmac_drbg_V di K V (Suc i) = hmac_drbg_V di K V i)"

context digest
begin

lemma update_inputs_absorbed:
  "hmac_absorbed di key hc msg \<Longrightarrow> (\<And>n bs. (n, bs) \<in> set args \<Longrightarrow> n \<le> length bs) \<Longrightarrow>
   update_inputs di hc m args = (hc', m') \<Longrightarrow>
   hmac_absorbed di key hc' (msg @ concat (map (\<lambda>(n, bs). take n bs) args)) \<and>
   m' = m + length (concat (map (\<lambda>(n, bs). take n bs) args))"
proof (induction args arbitrary: hc msg m)
  case (Cons a args)
  obtain n bs where a: "a = (n, bs)" by force
  have n: "n \<le> length bs" using Cons.prems(2) a by auto
  have h: "hmac_absorbed di key (cchmac_update di hc n bs) (msg @ take n bs)" by (rule cchmac_update_absorbed [OF Cons.prems(1) n])
  show ?case using Cons.IH [OF h, of "m + n"] Cons.prems(2,3) n by (auto simp: a min_absorb2)
qed simp

lemma update_round_eq:
  assumes "drbg_holds di strict KV count ctx" "stack_ok di hc" "\<And>n bs. (n, bs) \<in> set args \<Longrightarrow> n \<le> length bs"
    "data = concat (map (\<lambda>(n, bs). take n bs) args)"
  shows "snd (nisthmac_update_round hc ctx m b args) = m + length data \<and>
    drbg_holds di strict (hmac_drbg_update_1 di b data KV) count (fst (nisthmac_update_round hc ctx m b args))"
proof -
  let ?l = "di_output_size di" and ?K = "take (di_output_size di) (hd_key ctx)" and ?V = "take (di_output_size di) (hd_V ctx)"
  have c: "hd_custom ctx = Some \<lparr>hd_di = di, hd_strictFIPS = strict\<rparr>" "KV = (?K, ?V)" "?l \<le> length (hd_key ctx)" "?l \<le> length (hd_V ctx)"
    "length (hd_key ctx) = NISTHMAC_MAX_OUTPUT_SIZE" "length (hd_V ctx) = NISTHMAC_MAX_OUTPUT_SIZE" "hd_reseed_counter ctx = count"
    "?l \<le> NISTHMAC_MAX_OUTPUT_SIZE"
    using assms(1) by (simp_all add: drbg_holds_def)
  let ?h = "cchmac_update di (cchmac_update di (cchmac_init di hc ?l (hd_key ctx)) ?l (hd_V ctx)) 1 [b]"
  have "hmac_absorbed di ?K ?h (?V @ [b])"
    using cchmac_update_absorbed [OF cchmac_update_absorbed [OF cchmac_init_absorbed [OF assms(2) [unfolded stack_ok_def] c(3)] c(4)], of 1 "[b]"]
    by simp
  note k = this
  obtain h' m' where h: "update_inputs di ?h m args = (h', m')" by force
  have a: "hmac_absorbed di ?K h' ((?V @ [b]) @ data)" "m' = m + length data"
    using update_inputs_absorbed [OF k assms(3) h] by (simp_all add: assms(4))
  obtain h'' mac where f: "cchmac_final di h' = (h'', mac)" by force
  have mac: "mac = hmac_value di ?K (?V @ [b] @ data)" using cchmac_final_absorbed(1) [OF a(1)] f by simp
  then have l: "length mac = ?l" by simp
  let ?key = "mac @ drop ?l (hd_key ctx)"
  have v: "cchmac di hc ?l ?key ?l (hd_V ctx) = hmac_value di mac ?V"
    using cchmac_value [OF assms(2) [unfolded stack_ok_def], of ?l ?key ?l "hd_V ctx"] c(4) l by simp
  have r: "nisthmac_update_round hc ctx m b args =
      (ctx\<lparr>hd_key := ?key, hd_V := hmac_value di mac ?V @ drop ?l (hd_V ctx)\<rparr>, m')"
    using h f v by (simp add: nisthmac_update_round_def c(1) Let_def)
  have u: "hmac_drbg_update_1 di b data KV = (mac, hmac_value di mac ?V)" by (simp add: hmac_drbg_update_1_def c(2) mac Let_def)
  show ?thesis using c a(2) l unfolding r u by (simp add: drbg_holds_def)
qed

lemma update_eq:
  assumes "drbg_holds di strict KV count ctx" "stack_ok di hc" "\<And>n bs. (n, bs) \<in> set args \<Longrightarrow> n \<le> length bs"
    "data = concat (map (\<lambda>(n, bs). take n bs) args)"
  shows "drbg_holds di strict (hmac_drbg_update di data KV) count (nisthmac_update hc ctx args)"
proof -
  obtain c1 m1 where 1: "nisthmac_update_round hc ctx 0 0 args = (c1, m1)" by force
  with update_round_eq [OF assms, of 0 0]
  have r: "m1 = length data" "drbg_holds di strict (hmac_drbg_update_1 di 0 data KV) count c1" by simp_all
  have "drbg_holds di strict (hmac_drbg_update_1 di 1 data (hmac_drbg_update_1 di 0 data KV)) count (fst (nisthmac_update_round hc c1 m1 1 args))"
    using update_round_eq [OF r(2) assms(2-4)] by simp
  then show ?thesis using r by (cases "data = []") (simp_all add: nisthmac_update_def hmac_drbg_update_def 1 Let_def)
qed

lemma output_step:
  assumes "stack_ok di hc" "length key = NISTHMAC_MAX_OUTPUT_SIZE" "length V = NISTHMAC_MAX_OUTPUT_SIZE" "di_output_size di \<le> NISTHMAC_MAX_OUTPUT_SIZE"
    "V' = hmac_value di (take (di_output_size di) key) (take (di_output_size di) V)" "0 < m"
  shows "nisthmac_output di hc key V m =
    (if V' = take (di_output_size di) V then Some (True, V' @ drop (di_output_size di) V, [])
     else Option.bind (nisthmac_output di hc key (V' @ drop (di_output_size di) V) (m - min m (di_output_size di)))
       (\<lambda>(abort, W, out). Some (abort, W, take m V' @ out)))"
proof -
  let ?l = "di_output_size di"
  have v: "cchmac di hc ?l key ?l V = V'" using cchmac_value [OF assms(1) [unfolded stack_ok_def], of ?l key ?l V] assms(2-5) by simp
  have l: "length V' = ?l" by (simp add: assms(5))
  have "cc_cmp_safe ?l (take ?l V) (V' @ drop ?l V) = 0 \<longleftrightarrow> V' = take ?l V"
    using cc_cmp_safe_take [of ?l "take ?l V" "V' @ drop ?l V"] output_pos assms(3,4) l by auto
  moreover have "take (min m ?l) (V' @ drop ?l V) = take m V'" using l by (simp add: min_def)
  ultimately show ?thesis using assms(6) by (subst nisthmac_output.simps) (simp add: v Let_def del: take_append)
qed

text \<open>The blocks of the output: the loop stops early when two values in a row agree.\<close>

lemma hmac_drbg_V_Suc: "hmac_drbg_V di K (hmac_value di K V) i = hmac_drbg_V di K V (Suc i)"
  by (simp add: hmac_drbg_V_def funpow_swap1)

lemma ceiling_step:
  assumes "0 < l" "0 < m"
  shows "block_count m l = Suc (block_count (m - min m l) l)"
proof (cases "m \<le> l")
  case True
  have "(m + (l - 1)) div l = 1" by (rule div_nat_eqI) (use True assms in simp_all)
  then show ?thesis using True assms(1) by (simp add: block_count_def min_absorb1)
next
  case False
  then have e: "m + (l - 1) = (m - min m l + (l - 1)) + l" by simp
  show ?thesis unfolding block_count_def e by (rule trans [OF div_add_self2]) (use assms(1) in simp_all)
qed

lemma block_count_0: "block_count 0 (di_output_size di) = 0"
  using output_pos by (simp add: block_count_def)

lemma repeats_Suc:
  "drbg_repeats di K V (Suc k) \<longleftrightarrow> hmac_value di K V = V \<or> drbg_repeats di K (hmac_value di K V) k"
  by (auto simp: drbg_repeats_def hmac_drbg_V_Suc less_Suc_eq_0_disj) (auto simp: hmac_drbg_V_def)

lemma output_eq:
  assumes "stack_ok di hc" "length key = NISTHMAC_MAX_OUTPUT_SIZE" "di_output_size di \<le> NISTHMAC_MAX_OUTPUT_SIZE" "K = take (di_output_size di) key"
  shows "length V = NISTHMAC_MAX_OUTPUT_SIZE \<Longrightarrow> V0 = take (di_output_size di) V \<Longrightarrow> k = block_count m (di_output_size di) \<Longrightarrow>
    (drbg_repeats di K V0 k \<longrightarrow> (\<exists>W out. nisthmac_output di hc key V m = Some (True, W, out))) \<and>
    (\<not> drbg_repeats di K V0 k \<longrightarrow> nisthmac_output di hc key V m =
      Some (False, hmac_drbg_V di K V0 k @ drop (di_output_size di) V, take m (concat (map (\<lambda>i. hmac_drbg_V di K V0 (Suc i)) [0..<k]))))"
proof (induction m arbitrary: V V0 k rule: less_induct)
  case (less m)
  let ?l = "di_output_size di"
  show ?case
  proof (cases "m = 0")
    case True
    then show ?thesis using less.prems output_pos
      by (subst (1 2) nisthmac_output.simps) (simp add: drbg_repeats_def hmac_drbg_V_def block_count_0)
  next
    case False
    let ?V' = "hmac_value di K V0" and ?m = "m - min m ?l"
    have m: "?m < m" "0 < m" using False output_pos by auto
    have k: "k = Suc (block_count ?m ?l)" unfolding less.prems(3) by (rule ceiling_step [OF output_pos m(2)])
    have o: "nisthmac_output di hc key V m =
        (if ?V' = V0 then Some (True, ?V' @ drop ?l V, [])
         else Option.bind (nisthmac_output di hc key (?V' @ drop ?l V) ?m) (\<lambda>(abort, W, out). Some (abort, W, take m ?V' @ out)))"
      unfolding less.prems(2) assms(4) by (rule output_step [OF assms(1,2) less.prems(1) assms(3) refl m(2)])
    have l: "length (?V' @ drop ?l V) = NISTHMAC_MAX_OUTPUT_SIZE" using less.prems(1) assms(3) by simp
    note ih = less.IH [OF m(1) l _ refl, of ?V', simplified]
    show ?thesis
    proof (cases "?V' = V0")
      case True
      then show ?thesis by (simp add: o k repeats_Suc)
    next
      case False
      have "take m (concat (map (\<lambda>i. hmac_drbg_V di K V0 (Suc i)) [0..<k])) =
          take m ?V' @ take ?m (concat (map (\<lambda>i. hmac_drbg_V di K ?V' (Suc i)) [0..<block_count ?m ?l]))"
      proof -
        have "map (\<lambda>i. hmac_drbg_V di K V0 (Suc i)) [0..<k] = ?V' # map (\<lambda>i. hmac_drbg_V di K ?V' (Suc i)) [0..<block_count ?m ?l]"
          unfolding k upt_conv_Cons [OF zero_less_Suc] map_Suc_upt [symmetric]
          by (simp add: hmac_drbg_V_Suc o_def) (simp add: hmac_drbg_V_def)
        moreover have "m - di_output_size di = ?m" by (simp add: min_def)
        ultimately show ?thesis by simp
      qed
      then show ?thesis using False ih by (auto simp: o k repeats_Suc hmac_drbg_V_Suc)
    qed
  qed
qed

text \<open>The calls on the context and the functions of the standard.\<close>

lemma drbg_holds_start:
  assumes "length (hd_key ctx) = NISTHMAC_MAX_OUTPUT_SIZE" "length (hd_V ctx) = NISTHMAC_MAX_OUTPUT_SIZE"
    "di_output_size di \<le> NISTHMAC_MAX_OUTPUT_SIZE"
  shows "drbg_holds di strict (replicate (di_output_size di) 0, replicate (di_output_size di) 1) (hd_reseed_counter ctx)
    (ctx\<lparr>hd_custom := Some \<lparr>hd_di = di, hd_strictFIPS = strict\<rparr>, hd_key := replicate (di_output_size di) 0 @ drop (di_output_size di) (hd_key ctx),
      hd_V := replicate (di_output_size di) 1 @ drop (di_output_size di) (hd_V ctx)\<rparr>)"
  using assms by (simp add: drbg_holds_def)

lemma drbg_holds_counter: "drbg_holds di strict KV count ctx \<Longrightarrow> drbg_holds di strict KV v (ctx\<lparr>hd_reseed_counter := v\<rparr>)"
  by (simp add: drbg_holds_def)

lemma init_refines:
  assumes "stack_ok di hc" "length (hd_key ctx) = NISTHMAC_MAX_OUTPUT_SIZE" "length (hd_V ctx) = NISTHMAC_MAX_OUTPUT_SIZE"
    "di_output_size di \<le> NISTHMAC_MAX_OUTPUT_SIZE" "entropy_isvalid (length e) di" "length ps \<le> CCDRBG_MAX_PSINPUT_SIZE"
  shows "\<exists>c. nisthmac_init hc \<lparr>hd_di = di, hd_strictFIPS = strict\<rparr> ctx (length e) e (length nonce) nonce (length ps) ps = (0, c) \<and>
    drbg_holds di strict
      (hmac_drbg_update di (e @ nonce @ ps) (replicate (di_output_size di) 0, replicate (di_output_size di) 1)) 1 c"
  using update_eq [OF drbg_holds_start [OF assms(2-4), of strict] assms(1), of "[(length e, e), (length nonce, nonce), (length ps, ps)]"]
    assms(4-6) by (auto simp: nisthmac_init_def Let_def intro: drbg_holds_counter)

lemma reseed_refines:
  assumes "drbg_holds di strict KV count ctx" "stack_ok di hc" "entropy_isvalid (length e) di" "add_isvalid (length add)"
  shows "\<exists>c. nisthmac_reseed hc ctx (length e) e (length add) add = (0, c) \<and>
    drbg_holds di strict (hmac_drbg_update di (e @ add) KV) 1 c"
proof -
  have "hd_custom ctx = Some \<lparr>hd_di = di, hd_strictFIPS = strict\<rparr>" using assms(1) by (simp add: drbg_holds_def)
  then show ?thesis
    using update_eq [OF assms(1,2), of "[(length e, e), (length add, add)]"] assms(3,4)
    by (auto simp: nisthmac_reseed_def Let_def intro: drbg_holds_counter)
qed

lemma generate_refines:
  assumes "drbg_holds di strict KV count ctx" "stack_ok di hc" "n \<le> CCDRBG_MAX_REQUEST_SIZE" "add_isvalid (length add)"
    "\<not> strict \<or> count \<le> CCDRBG_RESEED_INTERVAL" "(K, V) = (if add = [] then KV else hmac_drbg_update di add KV)"
    "k = block_count n (di_output_size di)"
  shows "drbg_repeats di K V k \<Longrightarrow> \<exists>out. nisthmac_generate hc ctx n (length add) add = Some (CCDRBG_STATUS_ABORT, nisthmac_done ctx, out)"
    "\<not> drbg_repeats di K V k \<Longrightarrow> \<exists>c. nisthmac_generate hc ctx n (length add) add =
        Some (0, c, take n (concat (map (\<lambda>i. hmac_drbg_V di K V (Suc i)) [0..<k]))) \<and>
      drbg_holds di strict (hmac_drbg_update di add (K, hmac_drbg_V di K V k)) (count + 1) c"
proof -
  let ?l = "di_output_size di" and ?c = "if add = [] then ctx else nisthmac_update hc ctx [(length add, add)]"
  have c: "hd_custom ctx = Some \<lparr>hd_di = di, hd_strictFIPS = strict\<rparr>" "hd_reseed_counter ctx = count" using assms(1) by (simp_all add: drbg_holds_def)
  have h: "drbg_holds di strict (K, V) count ?c"
    using update_eq [OF assms(1,2), of "[(length add, add)]"] assms(1,6) by (auto split: if_splits)
  then have l: "length (hd_key ?c) = NISTHMAC_MAX_OUTPUT_SIZE" "length (hd_V ?c) = NISTHMAC_MAX_OUTPUT_SIZE" "?l \<le> NISTHMAC_MAX_OUTPUT_SIZE"
    "K = take ?l (hd_key ?c)" "V = take ?l (hd_V ?c)" "hd_reseed_counter ?c = count"
    unfolding drbg_holds_def by (elim conjE; simp only: prod.inject)+
  have g: "nisthmac_generate hc ctx n (length add) add =
      (case nisthmac_output di hc (hd_key ?c) (hd_V ?c) n of None \<Rightarrow> None
       | Some (abort, V, out) \<Rightarrow>
           if abort then Some (CCDRBG_STATUS_ABORT, nisthmac_done (?c\<lparr>hd_V := V\<rparr>), out)
           else let ctx = nisthmac_update hc (?c\<lparr>hd_V := V\<rparr>) [(length add, add)]
                in Some (0, ctx\<lparr>hd_reseed_counter := hd_reseed_counter ctx + 1\<rparr>, out))"
    unfolding nisthmac_generate_def Let_def using assms(3-5) by (auto simp: c)
  note o = output_eq [OF assms(2) l(1,3,4) l(2,5) assms(7)]
  show "\<exists>out. nisthmac_generate hc ctx n (length add) add = Some (CCDRBG_STATUS_ABORT, nisthmac_done ctx, out)" if "drbg_repeats di K V k"
    using o that g by (force simp: nisthmac_done_def)
  assume "\<not> drbg_repeats di K V k"
  then have o: "nisthmac_output di hc (hd_key ?c) (hd_V ?c) n =
      Some (False, hmac_drbg_V di K V k @ drop ?l (hd_V ?c), take n (concat (map (\<lambda>i. hmac_drbg_V di K V (Suc i)) [0..<k])))"
    using o by blast
  let ?d = "?c\<lparr>hd_V := hmac_drbg_V di K V k @ drop ?l (hd_V ?c)\<rparr>"
  have "length (hmac_drbg_V di K V k) = ?l" using l(2,3,5) by (cases k) (simp_all add: hmac_drbg_V_def)
  then have "drbg_holds di strict (K, hmac_drbg_V di K V k) count ?d" using h l(2,3,4) by (simp add: drbg_holds_def)
  from update_eq [OF this assms(2), of "[(length add, add)]" add]
  have u: "drbg_holds di strict (hmac_drbg_update di add (K, hmac_drbg_V di K V k)) count (nisthmac_update hc ?d [(length add, add)])" by simp
  then have "hd_reseed_counter (nisthmac_update hc ?d [(length add, add)]) = count" by (simp add: drbg_holds_def)
  then show "\<exists>c. nisthmac_generate hc ctx n (length add) add =
        Some (0, c, take n (concat (map (\<lambda>i. hmac_drbg_V di K V (Suc i)) [0..<k]))) \<and>
      drbg_holds di strict (hmac_drbg_update di add (K, hmac_drbg_V di K V k)) (count + 1) c"
    unfolding g o Let_def using drbg_holds_counter [OF u, of "count + 1"] by (simp del: if_split)
qed

lemma generate_needs_reseed:
  assumes "drbg_holds di True KV count ctx" "n \<le> CCDRBG_MAX_REQUEST_SIZE" "add_isvalid m" "CCDRBG_RESEED_INTERVAL < count"
  shows "nisthmac_generate hc ctx n m add = Some (CCDRBG_STATUS_NEED_RESEED, ctx, [])"
  using assms by (simp add: nisthmac_generate_def drbg_holds_def not_le Let_def)

text \<open>Every call of \<open>generate\<close> returns.\<close>

lemma generate_returns:
  assumes "drbg_holds di strict KV count ctx" "stack_ok di hc" "m \<le> length add"
  shows "nisthmac_generate hc ctx n m add \<noteq> None"
proof -
  let ?c = "if m > 0 then nisthmac_update hc ctx [(m, add)] else ctx"
  have c: "hd_custom ctx = Some \<lparr>hd_di = di, hd_strictFIPS = strict\<rparr>" using assms(1) by (simp add: drbg_holds_def)
  have "drbg_holds di strict (if m > 0 then hmac_drbg_update di (take m add) KV else KV) count ?c"
    using update_eq [OF assms(1,2), of "[(m, add)]" "take m add"] assms(1,3) by simp
  then obtain K V where h: "drbg_holds di strict (K, V) count ?c" by (metis surj_pair)
  have "nisthmac_output di hc (hd_key ?c) (hd_V ?c) n \<noteq> None"
    using output_eq [OF assms(2) _ _ refl _ refl refl, of "hd_key ?c" "hd_V ?c" n] h unfolding drbg_holds_def by blast
  then show ?thesis unfolding nisthmac_generate_def Let_def by (auto simp: c split: if_splits)
qed

end

text \<open>Which requests are refused, and that a refused one changes nothing.\<close>

lemma generate_codes:
  assumes "drbg_holds di strict KV count ctx" "nisthmac_generate hc ctx n m add = Some (rc, c, out)"
  shows "(rc = CCDRBG_STATUS_PARAM_ERROR \<longleftrightarrow> 2 ^ 16 < n \<or> 2 ^ 16 < m) \<and>
    (rc = CCDRBG_STATUS_NEED_RESEED \<longleftrightarrow> n \<le> 2 ^ 16 \<and> m \<le> 2 ^ 16 \<and> strict \<and> 2 ^ 48 < count) \<and>
    (rc = CCDRBG_STATUS_PARAM_ERROR \<or> rc = CCDRBG_STATUS_NEED_RESEED \<longrightarrow> c = ctx \<and> out = [])"
proof -
  have "hd_custom ctx = Some \<lparr>hd_di = di, hd_strictFIPS = strict\<rparr>" "hd_reseed_counter ctx = count"
    using assms(1) by (simp_all add: drbg_holds_def)
  then show ?thesis
    using assms(2) unfolding nisthmac_generate_def Let_def add_isvalid_def
      CCDRBG_MAX_REQUEST_SIZE_def CCDRBG_MAX_ADDITIONALINPUT_SIZE_def CCDRBG_RESEED_INTERVAL_def
      CCDRBG_STATUS_PARAM_ERROR_def CCDRBG_STATUS_NEED_RESEED_def CCDRBG_STATUS_ABORT_def
    by (auto split: if_splits option.splits)
qed

end
