(* ===== verification/Spec2Isabelle.thy ===== *)
theory Spec2Isabelle
  imports Cc_Priv Ccn_Arith Ccn_Count Ccn_Mux Ccn_Shift Ccn_Cond Ccn_Mul Ccn_Codec Ccder_Encode Ccder_Decode Ccder_Compat Cc_Stream Ccchacha20 Ccpoly1305 Ccpoly1305_Tag Ccaead Ccdigest Ccsha256 Cchmac Cckdf Ccansikdf Ccnistkdf Ccmode_Ecb Ccrc2 Ccmode_Cbc Ccpad Ccmode_Stream Ccaes_Tab Ccaes Ccaes_Fips Ccmode_Xts Ccpad_Xts Ccmode_Gcm_Mult Ccmode_Gcm Ccmode_Gcm_Session Ccwrap Ccrng Ccdrbg
begin

text \<open>
  A verification library for parts of corecrypto, Apple's cryptographic library in C.

  \<^bold>\<open>Conventions.\<close>  A C array is a list; a buffer with its length argument is the list and a
  \<open>nat\<close>.  \<open>cc_unit\<close> (the digit of a big number, and \<open>size_t\<close> and \<open>uint64_t\<close> where they wrap) is
  \<open>64 word\<close>, \<open>uint32_t\<close> is \<open>32 word\<close> (\<open>u32\<close>), bytes are \<open>8 word\<close>; the double-width
  type of the multiplications is \<open>128 word\<close>.  Output buffers are returned.  A function that returns an
  error code gives a sum with the code on the left, or the code beside the results.  Loops are
  recursive functions over the index the loop counts with; every one is shown to terminate by its
  definition, so no fuel is needed.  The two loops that need not end, of \<open>ccrng_uniform\<close> and of the HMAC generator, are
  options, \<open>None\<close> standing for a loop without end; when they return is proved.  Where the code has a random mask (\<open>ccn_mux_next_mask\<close>) the state of the
  generator is an argument, and the theorems hold for every state.  \<open>CC_ENSURE_DIT_ENABLED\<close>
  and the clearing of secrets have no effect on results and are left out.

  \<^bold>\<open>Theories.\<close>
  \<open>Cc_Prelude\<close>: lists of digits as numbers (\<open>le_val\<close>, \<open>be_val\<close>, \<open>ccn_val\<close>), word lemmas, the
  collections the proofs use.
  \<open>Cc_Priv\<close>: \<open>cc_priv.h\<close>, \<open>ccn_op.h\<close>, \<open>cc_cmp_safe.c\<close>: loads and stores, constant-time selection and
  comparison, leading and trailing zeros.
  \<open>Ccn_Arith\<close>, \<open>Ccn_Count\<close>, \<open>Ccn_Mux\<close>, \<open>Ccn_Shift\<close>, \<open>Ccn_Cond\<close>, \<open>Ccn_Mul\<close>: the units of
  \<open>ccn/src\<close>; each operation is related to the number its operands denote.
  \<open>Ccn_Codec\<close>: \<open>ccn_read_uint.c\<close>, \<open>ccn_write_uint.c\<close>, \<open>ccn_write_int.c\<close>.
  \<open>Ccder_Encode\<close>, \<open>Ccder_Decode\<close>, \<open>Ccder_Compat\<close>: \<open>ccder/src\<close>.  A blob is the buffer with the two
  pointers as indices; encoding goes from the back.  \<open>emits f bs\<close> is the contract of an encoder: it
  puts exactly \<open>bs\<close> before the current end, or fails and the item does not fit.  Decoders work on
  the bytes between the pointers.
  \<open>Cc_Stream\<close>: two interfaces as locales, \<open>stream_cipher\<close> (a context that masks its input with a
  key stream) and \<open>absorber\<close> (a context that absorbs bytes); what follows from each about input in
  pieces.
  \<open>Ccchacha20\<close>, \<open>Ccpoly1305\<close>, \<open>Ccpoly1305_Tag\<close>, \<open>Ccaead\<close>:
  \<open>ccchacha20poly1305/src/ccchacha20poly1305.c\<close>.  ChaCha20 is an instance of \<open>stream_cipher\<close>, Poly1305
  of \<open>absorber\<close>; the authenticated cipher uses both through these.  \<open>aead_session\<close> says what a context
  holds in the middle of a message, \<open>aead_step\<close> which call may follow which.
  \<open>Ccdigest\<close>, \<open>Ccsha256\<close>: \<open>ccdigest/src\<close> and the portable SHA-256 of \<open>ccsha2/src\<close>.  A digest is a record with a
  compression function, as the structure \<open>ccdigest_info\<close> is.  The locale \<open>compression\<close> states how a
  compression function treats a sequence of blocks, \<open>digest\<close> adds what the final function promises,
  \<open>digest_64\<close> is the instance of \<open>digest\<close> that the final functions of \<open>ccdigest_final_64be.c\<close> and
  \<open>ccdigest_final_64le.c\<close> give.  \<open>digest_absorbed\<close> is the invariant of a context.
  \<open>Cchmac\<close>, \<open>Cckdf\<close>, \<open>Ccansikdf\<close>, \<open>Ccnistkdf\<close>: HMAC and the key derivation functions HKDF, PBKDF2, ANSI X9.63
  and SP 800-108 over it, each proved in the locale \<open>digest\<close> to compute the formula of its standard.
  \<open>Ccmode_Ecb\<close>, \<open>Ccrc2\<close>, \<open>Ccmode_Cbc\<close>: the interface of a block cipher (\<open>block_cipher\<close> for one direction,
  \<open>block_cipher_pair\<close> for both), RC2 as an instance, CBC over any cipher.
  \<open>Ccmode_Stream\<close>: CTR, OFB, CFB and CFB8.  CTR and OFB are instances of \<open>stream_cipher\<close>, so input in pieces
  gives what input at once gives.
  \<open>Ccpad\<close>: PKCS7 padding and the three forms of ciphertext stealing, over any cipher.
  \<open>Ccaes_Tab\<close>, \<open>Ccaes\<close>: the portable AES of \<open>ccaes/src/ltc\<close>: its tables, and what each entry is; key
  schedules and both directions, an instance of \<open>block_cipher_pair\<close>.  \<open>encrypt_steps\<close> and \<open>sub_shift\<close> are the
  rounds on a four by four state.  \<open>Ccaes_Fips\<close>: the cipher of FIPS 197, written from the standard and from none of these
  tables, and the proof that the table-driven encryption is this cipher.
  \<open>Ccmode_Xts\<close>, \<open>Ccpad_Xts\<close>: XTS and its ciphertext stealing.
  \<open>Ccmode_Gcm_Mult\<close>: \<open>ccmode_gcm_gf_mult.c\<close>, whose integer products with holes between the bits are shown to be
  products without carries, and its reduction to be the one of SP 800-38D (\<open>gf_product\<close> is the bit by bit
  multiplication).  \<open>Ccmode_Gcm\<close>: the calls of GCM; \<open>gcm_session\<close> says what a context holds in the middle of a
  message, \<open>ghash\<close>, \<open>gcm_j0\<close> and \<open>gcm_tag\<close> are the functions of the standard.  \<open>Ccmode_Gcm_Session\<close>: whole messages,
  the counting initial values, the shape every call keeps.
  \<open>Ccwrap\<close>: the key wrapping of \<open>ccwrap/src\<close> over any cipher with blocks of 16 bytes; each step of the passes is undone by
  the step of the other direction.
  \<open>Ccrng\<close>: \<open>ccrng_uniform.c\<close> and \<open>ccrng_sequence.c\<close>; a generator is a state with a function that may fail or not return.
  \<open>Ccdrbg\<close>: \<open>ccdrbg_nisthmac.c\<close> and \<open>ccrng_drbg.c\<close>; \<open>drbg_holds\<close> relates a context to the working state of SP 800-90A,
  which the calls are proved to update as the standard says, in the locale \<open>digest\<close>.

  \<^bold>\<open>Properties.\<close>  The theorems below are the ones that matter to a caller: the round trips, what the
  decoders accept, the bounds of what is written, the agreement of optimised routines with plain ones,
  the state machine of the authenticated cipher, the formulas of the standards, and the places where the code does not do what it
  means to do.

  \<^bold>\<open>Bounds.\<close>  Number lengths are below \<open>2 ^ 58\<close> units where a bit count must not wrap, below \<open>2 ^ 28\<close>
  where a size must fit the \<open>0xffffffff\<close> limit of a DER length or an \<open>int\<close>.  Nothing larger can be held in memory.
  Where a size of the source could wrap around for an argument no buffer can have (\<open>cc_ceiling\<close>, the subtractions of the
  paddings, the sizes of wrapped keys), the model wraps around too.

  \<^bold>\<open>Not modelled.\<close>  Assembly, the SIMD form of ChaCha20, the other block ciphers and
  compression functions; CTR_DRBG, Fortuna and the generators that read the entropy of the system; CCM, OMAC and the SIV modes; curves, RSA, modular arithmetic and the protocols on them are left for later
  work.
\<close>

section \<open>Authenticated encryption\<close>

text \<open>
  C1: Decrypting with \<open>ccchacha20poly1305_decrypt_oneshot\<close> what
  \<open>ccchacha20poly1305_encrypt_oneshot\<close> produced under the same key, nonce and additional
  data returns 0 and the plaintext, whatever the two stack contexts held before.
\<close>

theorem aead_roundtrip:
  assumes "aead_sized ctx" "aead_sized ctx'" "length text \<le> CCCHACHA20POLY1305_TEXT_MAX_NBYTES"
    "ccchacha20poly1305_encrypt_oneshot ctx key nonce (length aad) aad (length text) text = (rv, ctext, tag)"
  shows "rv = 0 \<and> length ctext = length text \<and> length tag = 16 \<and>
    ccchacha20poly1305_decrypt_oneshot ctx' key nonce (length aad) aad (length ctext) ctext tag = (0, text)"
proof -
  have e: "rv = 0" "ctext = mask_with (aead_stream key nonce) (length text) text" "tag = aead_tag key nonce aad ctext"
    using encrypt_oneshot_eq [OF assms(1) order_refl order_refl assms(3), of key nonce aad] assms(4) by auto
  have t: "length tag = 16" by (simp add: e(3) length_aead_tag)
  have "ccchacha20poly1305_decrypt_oneshot ctx' key nonce (length aad) aad (length ctext) ctext tag =
      (0, mask_with (aead_stream key nonce) (length ctext) ctext)"
    using decrypt_oneshot_eq [OF assms(2) order_refl order_refl, of ctext tag key nonce aad] assms(3) t
    by (simp add: e(2) flip: e(3)) (simp add: e(3) e(2) length_aead_tag)
  moreover have "mask_with (aead_stream key nonce) (length ctext) ctext = text"
    by (simp add: e(2) mask_with_twice)
  ultimately show ?thesis using e(1) t by (simp add: e(2))
qed

lemma aead_roundtrip_witness:
  "\<exists>ctext tag. length tag = 16 \<and>
    ccchacha20poly1305_decrypt_oneshot aead_stack (replicate 32 1) (replicate 12 2) (length [1, 2 :: byte]) [1, 2]
      (length ctext) ctext tag = (0, [10, 20, 30])"
proof -
  obtain rv ctext tag where "ccchacha20poly1305_encrypt_oneshot aead_stack (replicate 32 1) (replicate 12 2)
      (length [1, 2 :: byte]) [1, 2] (length [10, 20, 30 :: byte]) [10, 20, 30] = (rv, ctext, tag)"
    by (metis surj_pair)
  from aead_roundtrip [OF aead_sized_stack aead_sized_stack _ this] show ?thesis
    by (auto simp: CCCHACHA20POLY1305_TEXT_MAX_NBYTES_def)
qed

text \<open>
  C2: \<open>ccchacha20poly1305_decrypt_oneshot\<close> accepts exactly the tag of the ciphertext it is given
  (over the additional data, the ciphertext, their paddings and their two lengths), and returns -1 for
  any other; the text it writes is the unmasked ciphertext in both cases.
\<close>

theorem aead_decrypt_accepts_only_the_tag:
  assumes "aead_sized ctx" "length ctext \<le> CCCHACHA20POLY1305_TEXT_MAX_NBYTES" "length tag = 16"
  shows "ccchacha20poly1305_decrypt_oneshot ctx key nonce (length aad) aad (length ctext) ctext tag =
    (if tag = snd (ccpoly1305 poly_blank (take 32 (chacha20_keyblock (aead_words key nonce)))
          (length (aead_mac_data aad ctext)) (aead_mac_data aad ctext)) then 0 else - 1,
     mask_with (aead_stream key nonce) (length ctext) ctext)"
  using decrypt_oneshot_eq [OF assms(1) order_refl order_refl assms(2), of tag key nonce aad] assms(3)
  by (simp add: aead_tag_def aead_otk_def Let_def)

lemma aead_decrypt_accepts_only_the_tag_witness:
  "ccchacha20poly1305_decrypt_oneshot aead_stack (replicate 32 1) (replicate 12 2) (length [9 :: byte]) [9]
      (length [5, 6 :: byte]) [5, 6] (replicate 16 0) =
    (if replicate 16 0 = snd (ccpoly1305 poly_blank (take 32 (chacha20_keyblock (aead_words (replicate 32 1) (replicate 12 2))))
          (length (aead_mac_data [9] [5, 6])) (aead_mac_data [9] [5, 6])) then 0 else - 1,
     mask_with (aead_stream (replicate 32 1) (replicate 12 2)) (length [5, 6 :: byte]) [5, 6])"
  by (rule aead_decrypt_accepts_only_the_tag [OF aead_sized_stack]) (simp_all add: CCCHACHA20POLY1305_TEXT_MAX_NBYTES_def)

text \<open>
  C3: Passing the additional data and the plaintext in any number of pieces of any size to
  \<open>ccchacha20poly1305_aad\<close> and \<open>ccchacha20poly1305_encrypt\<close> gives the return code,
  ciphertext and tag of the one-shot call on their concatenations.
\<close>

theorem aead_pieces_equal_oneshot:
  assumes "aead_sized ctx" "aead_sized ctx'" "length (concat texts) \<le> CCCHACHA20POLY1305_TEXT_MAX_NBYTES"
  shows "encrypt_in_pieces ctx key nonce aads texts =
    ccchacha20poly1305_encrypt_oneshot ctx' key nonce (length (concat aads)) (concat aads)
      (length (concat texts)) (concat texts)"
  by (rule encrypt_in_pieces_eq [OF assms])

lemma aead_pieces_equal_oneshot_witness:
  "encrypt_in_pieces aead_stack (replicate 32 1) (replicate 12 2) [[1], [2, 3]] [[4, 5], [], [6]] =
    ccchacha20poly1305_encrypt_oneshot aead_stack (replicate 32 1) (replicate 12 2)
      (length (concat [[1 :: byte], [2, 3]])) (concat [[1], [2, 3]])
      (length (concat [[4, 5 :: byte], [], [6]])) (concat [[4, 5], [], [6]])"
  by (rule aead_pieces_equal_oneshot [OF aead_sized_stack aead_sized_stack])
    (simp add: CCCHACHA20POLY1305_TEXT_MAX_NBYTES_def)

text \<open>
  C4: Every call on any context is a transition of the state machine \<open>aead_step\<close>, with the
  call's return code; a call the machine does not enable in the context's state returns 1 and leaves
  the whole context as it was.
\<close>

theorem aead_calls_refine_machine:
  "case aead_exec call ctx of (rv, ctx') \<Rightarrow>
     aead_step (aead_status ctx) call rv (aead_status ctx') \<and>
     (aead_enabled (aead_status ctx) call \<or> (rv = 1 \<and> ctx' = ctx))"
proof (cases "aead_exec call ctx")
  case (Pair rv ctx')
  then show ?thesis using aead_exec_refines [OF Pair] aead_exec_refused [of ctx call] by auto
qed

text \<open>
  C5: In any sequence of calls without a reset, at most one nonce is accepted, and texts are accepted in
  one direction only: never both an encryption and a decryption.
\<close>

theorem aead_nonce_once_one_direction:
  assumes "Reset \<notin> set calls" "aead_run calls ctx = (rvs, ctx')"
  shows "accepted is_nonce calls rvs \<le> 1 \<and>
    (accepted is_decrypt calls rvs = 0 \<or> accepted is_encrypt calls rvs = 0)"
  using run_nonces [OF assms] run_direction [OF assms] by (auto split: if_splits)

lemma aead_nonce_once_one_direction_witness:
  "\<exists>rvs c. aead_run [SetNonce [1], SetNonce [2], IncNonce [1]] (snd (ccchacha20poly1305_init aead_stack [7])) = (rvs, c) \<and>
    rvs ! 0 = 0 \<and> accepted is_nonce [SetNonce [1], SetNonce [2], IncNonce [1]] rvs \<le> 1"
proof -
  let ?calls = "[SetNonce [1], SetNonce [2], IncNonce [1]]" and ?c = "snd (ccchacha20poly1305_init aead_stack [7])"
  obtain rvs c where r: "aead_run ?calls ?c = (rvs, c)" by (metis surj_pair)
  have "aead_status ?c = STATE_SETNONCE" by (simp add: ccchacha20poly1305_init_def ccchacha20poly1305_reset_def Let_def)
  then have "fst (aead_exec (SetNonce [1]) ?c) = 0" by (simp add: ccchacha20poly1305_setnonce_def Let_def case_prod_beta)
  then have "rvs ! 0 = 0" using r by (auto simp: case_prod_beta Let_def)
  with aead_nonce_once_one_direction [OF _ r] r show ?thesis by auto
qed

text \<open>
  C6: A text longer than \<open>CCCHACHA20POLY1305_TEXT_MAX_NBYTES\<close> is refused by
  \<open>ccchacha20poly1305_encrypt\<close>, but \<open>ccchacha20poly1305_encrypt_oneshot\<close> does not look at
  the return code: it returns 0, writes no ciphertext, and the tag it gives is the tag of the empty
  ciphertext.
\<close>

theorem aead_oneshot_too_long:
  assumes "aead_sized ctx" "length text < 2 ^ 64" "CCCHACHA20POLY1305_TEXT_MAX_NBYTES < length text"
  shows "ccchacha20poly1305_encrypt_oneshot ctx key nonce (length aad) aad (length text) text =
    (0, [], aead_tag key nonce aad [])"
  using encrypt_oneshot_too_long [OF assms(1) order_refl order_refl assms(2,3), of key nonce aad] by simp

lemma aead_oneshot_too_long_witness:
  "ccchacha20poly1305_encrypt_oneshot aead_stack (replicate 32 1) (replicate 12 2) (length [9 :: byte]) [9]
      (length (replicate (2 ^ 38) 0 :: bytes)) (replicate (2 ^ 38) 0) =
    (0, [], aead_tag (replicate 32 1) (replicate 12 2) [9] [])"
proof (rule aead_oneshot_too_long [OF aead_sized_stack])
  show "length (replicate (2 ^ 38) 0 :: bytes) < 2 ^ 64" by (simp only: length_replicate) simp
  show "CCCHACHA20POLY1305_TEXT_MAX_NBYTES < length (replicate (2 ^ 38) 0 :: bytes)"
    by (simp only: length_replicate) (simp add: CCCHACHA20POLY1305_TEXT_MAX_NBYTES_def)
qed

section \<open>ChaCha20 and Poly1305\<close>

text \<open>
  C7: The one-shot \<open>ccchacha20\<close> masks byte \<open>i\<close> of its input with byte \<open>i mod 64\<close> of the block function
  at the counter plus \<open>i div 64\<close> (modulo \<open>2 ^ 32\<close>), for any length, also one that is no multiple of the
  block size, and whatever the stack context held before.
\<close>

theorem chacha_oneshot_blocks:
  assumes "length (chacha_state ctx) = 16" "length src = n"
  shows "ccchacha20 ctx key nonce counter n src =
    (0, map (\<lambda>i. src ! i XOR
        chacha20_keyblock ((aead_words key nonce)[12 := counter + of_nat (i div 64)]) ! (i mod 64)) [0..<n])"
proof -
  obtain w0 w1 w2 w3 w4 w5 w6 w7 w8 w9 w10 w11 w12 w13 w14 w15 where
    w: "chacha_state ctx = [w0, w1, w2, w3, w4, w5, w6, w7, w8, w9, w10, w11, w12, w13, w14, w15]"
    using assms(1) by (auto simp: numeral_eq_Suc length_Suc_conv)
  let ?w = "(aead_words key nonce)[12 := counter]"
  have s: "chacha_state (ccchacha20_setcounter (ccchacha20_setnonce (ccchacha20_init ctx key) nonce) counter) = ?w"
    by (simp add: ccchacha20_setcounter_def ccchacha20_setnonce_def ccchacha20_init_def ccchacha20_reset_def Let_def w
        aead_words_def kChaCha20Constants_def upt_conv_Cons)
  have "chacha20_stream ?w i = chacha20_keyblock ((aead_words key nonce)[12 := counter + of_nat (i div 64)]) ! (i mod 64)" for i
    using chacha20_stream_shift [of ?w "i div 64" "i mod 64"]
      chacha20_stream_block [of "?w[12 := ?w ! 12 + of_nat (i div 64)]" "i mod 64"] by simp
  with chacha20_xor_loop_eq [of ?w n src "replicate 64 0"] assms(2) s show ?thesis
    by (simp add: ccchacha20_def ccchacha20_xor_def Let_def case_prod_beta mask_with_def)
qed

lemma chacha_oneshot_blocks_witness:
  "ccchacha20 \<lparr>chacha_state = replicate 16 0, chacha_buffer = replicate 64 0, chacha_leftover = 5\<rparr>
      (map of_nat [0..<32]) (replicate 12 1) 4294967295 100 (replicate 100 0) =
    (0, map (\<lambda>i. replicate 100 0 ! i XOR chacha20_keyblock
        ((aead_words (map of_nat [0..<32]) (replicate 12 1))[12 := 4294967295 + of_nat (i div 64)]) ! (i mod 64)) [0..<100])"
  by (rule chacha_oneshot_blocks) simp_all

text \<open>
  C8: \<open>ccpoly1305\<close> computes the Poly1305 authenticator of RFC 8439 - the polynomial in the clamped key
  over the padded blocks modulo \<open>2 ^ 130 - 5\<close>, plus the second half of the key modulo \<open>2 ^ 128\<close> -
  whenever the accumulator's lowest limb fits 26 bits after the last carry pass.
\<close>

theorem poly_tag_is_mac:
  assumes "length key = 32" "length (poly_buf ctx) = 16" "length msg = n"
    "unat (poly_h0 (poly_last (ccpoly1305_update (ccpoly1305_init ctx key) n msg))) < 2 ^ 26"
  shows "le_val 256 (snd (ccpoly1305 ctx key n msg)) =
    (poly1305_acc (poly_clamp key) 0 msg + le_val 256 (drop 16 key)) mod 2 ^ 128"
  using ccpoly1305_val [OF assms(1,2) _ assms(4)] assms(3) by (simp add: poly_mac_def)

lemma poly_tag_is_mac_witness:
  "le_val 256 (snd (ccpoly1305 poly_blank (replicate 32 1) 3 [1, 2, 3])) =
    (poly1305_acc (poly_clamp (replicate 32 1)) 0 [1, 2, 3] + le_val 256 (drop 16 (replicate 32 1 :: bytes))) mod 2 ^ 128"
proof (rule poly_tag_is_mac)
  have "poly_h0 (poly_last (ccpoly1305_update (ccpoly1305_init poly_blank (replicate 32 1)) 3 [1, 2, 3])) = 50808838"
    by code_simp
  then show "unat (poly_h0 (poly_last (ccpoly1305_update (ccpoly1305_init poly_blank (replicate 32 1)) 3 [1, 2, 3]))) < 2 ^ 26"
    by simp
qed (simp_all add: poly_blank_def)

text \<open>
  C9: Without that condition the tag can be wrong: \<open>ccpoly1305_final\<close> ends its carry pass at the lowest
  limb, which can keep 27 bits, and then joins the limbs with an OR.  For this key and this
  one-block message the code's tag is \<open>0x4000004\<close>, the authenticator \<open>0x8000004\<close>.
\<close>

theorem poly_lost_carry:
  "le_val 256 (snd (ccpoly1305 poly_blank poly_bad_key (length poly_bad_msg) poly_bad_msg)) = 0x4000004 \<and>
   (poly1305_acc (poly_clamp poly_bad_key) 0 poly_bad_msg + le_val 256 (drop 16 poly_bad_key)) mod 2 ^ 128 = 0x8000004"
proof -
  have "length poly_bad_msg = 16" by (simp add: poly_bad_msg_def)
  then show ?thesis using poly_bad_tag poly_bad_mac by (simp add: poly_mac_def)
qed

section \<open>Block ciphers and modes\<close>

text \<open>
  C10: AES of the portable implementation: for every key it accepts, decryption undoes encryption and encryption
  undoes decryption, on every block, whatever the key contexts held before.
\<close>

theorem aes_roundtrip:
  assumes "ccaes_ecb_encrypt_init k n raw = (0, ke)" "ccaes_ecb_decrypt_init d n raw = (0, kd)" "length b = 16"
  shows "ccaes_ltc_ecb_decrypt kd (ccaes_ltc_ecb_encrypt ke b) = b \<and> ccaes_ltc_ecb_encrypt ke (ccaes_ltc_ecb_decrypt kd b) = b"
  using aes.block_inverse [of k n raw ke d kd b] aes.block_inverse' [of k n raw ke d kd b] assms by simp

lemma aes_roundtrip_witness:
  "\<exists>ke kd. ccaes_ltc_ecb_decrypt kd (ccaes_ltc_ecb_encrypt ke (replicate 16 7)) = replicate 16 7 \<and>
    ccaes_ecb_encrypt_init aes_blank 16 (replicate 16 1) = (0, ke)"
proof -
  obtain k where k: "ccaes_ecb_encrypt_init aes_blank 16 (replicate 16 1) = (0, k)"
      "ccaes_ecb_decrypt_init aes_blank 16 (replicate 16 1) = (0, k)"
    by (rule aes_set_up [of 16 aes_blank "replicate 16 1"]) (simp_all add: aes_key_lengths)
  show ?thesis using aes_roundtrip [OF k length_replicate] k by blast
qed

text \<open>
  C11: For keys of 16, 24 and 32 bytes, with the length given in bytes or in bits, the key set-up succeeds and the table-driven
  encryption is the cipher of FIPS 197: \<open>fips_cipher\<close> of \<open>Ccaes_Fips\<close>, which is written from the standard and uses none of the
  tables of the code - its S-box is the inverse in \<open>GF(2^8)\<close> and the affine map, its key expansion takes \<open>Nk\<close> words with
  the powers of \<open>x\<close> as round constants, its \<open>Nk + 6\<close> rounds work on sixteen bytes.
\<close>

theorem aes_is_fips197:
  assumes "Nk \<in> {4, 6, 8}" "n = 4 * Nk \<or> n = 32 * Nk" "length key = 4 * Nk" "length b = 16"
  shows "\<exists>k. ccaes_ltc_init key n 0 skey = (0, k) \<and> ccaes_ltc_ecb_encrypt k b = fips_cipher Nk key b"
proof -
  have n: "n \<in> {16, 128, 24, 192, 32, 256}" "ccaes_key_length_to_nbytes n = 4 * Nk"
    using assms(1,2) by (auto simp: ccaes_key_length_to_nbytes_def)
  then obtain k where k: "ccaes_ltc_init key n 0 skey = (0, k)"
    using aes_init_accepts [of key n skey] by (metis aes_key_lengths prod.collapse)
  then show ?thesis using encrypt_is_fips_cipher [OF k _ assms(4)] n(2) assms(3) by simp
qed

lemma aes_is_fips197_witness:
  "\<exists>k. ccaes_ltc_init (map of_nat [0..<32]) 256 0 aes_blank = (0, k) \<and>
    ccaes_ltc_ecb_encrypt k (replicate 16 7) = fips_cipher 8 (map of_nat [0..<32]) (replicate 16 7)"
  by (rule aes_is_fips197) simp_all

text \<open>
  C12: Counter mode over AES masks block \<open>j\<close> of the text with the cipher of the counter block plus \<open>j\<close>: its first
  eight bytes are those of the initial block, its last eight count modulo \<open>2^64\<close>.  The text may have any length.
\<close>

theorem ctr_counts_64_bits:
  assumes "ccaes_ecb_encrypt_init (ctr_ecb_key ctx) k raw = (0, key)" "length iv = 16" "n \<le> length xs"
  shows "\<exists>C. (\<forall>j. length (C j) = 16 \<and> take 8 (C j) = take 8 iv \<and> be_val (drop 8 (C j)) = (be_val (drop 8 iv) + j) mod 2 ^ 64) \<and>
    ccctr_one_shot (CCMODE_FACTORY_CTR_CRYPT ccaes_ltc_ecb_encrypt_mode) ctx k raw iv n xs =
      (0, map (\<lambda>i. xs ! i XOR ccaes_ltc_ecb_encrypt key (C (i div 16)) ! (i mod 16)) [0..<n])"
proof (intro exI conjI)
  show "\<forall>j. length ((ctr_increment 16 ^^ j) iv) = 16 \<and> take 8 ((ctr_increment 16 ^^ j) iv) = take 8 iv \<and>
      be_val (drop 8 ((ctr_increment 16 ^^ j) iv)) = (be_val (drop 8 iv) + j) mod 2 ^ 64"
    using ctr_increments [OF assms(2)] by simp
  show "ccctr_one_shot (CCMODE_FACTORY_CTR_CRYPT ccaes_ltc_ecb_encrypt_mode) ctx k raw iv n xs =
      (0, map (\<lambda>i. xs ! i XOR ccaes_ltc_ecb_encrypt key ((ctr_increment 16 ^^ (i div 16)) iv) ! (i mod 16)) [0..<n])"
    using aes.enc.ctr_one_shot [of ctx k raw key n xs iv] assms
    by (simp add: mask_with_def ctr_keystream_def ctr_blocks_def)
qed

lemma ctr_counts_64_bits_witness:
  "\<exists>key C. (\<forall>j. be_val (drop 8 (C j)) = (be_val (replicate 8 255) + j) mod 2 ^ 64) \<and>
    ccctr_one_shot (CCMODE_FACTORY_CTR_CRYPT ccaes_ltc_ecb_encrypt_mode)
      \<lparr>ctr_ecb = ccaes_ltc_ecb_encrypt_mode, ctr_pad_offset = 3, ctr_pad = [], ctr_ctr = [],
       ctr_ecb_key = aes_blank\<rparr>
      16 (replicate 16 1) (replicate 16 255) 20 (replicate 20 9) =
      (0, map (\<lambda>i. replicate 20 9 ! i XOR ccaes_ltc_ecb_encrypt key (C (i div 16)) ! (i mod 16)) [0..<20])"
proof -
  let ?c = "\<lparr>ctr_ecb = ccaes_ltc_ecb_encrypt_mode, ctr_pad_offset = 3, ctr_pad = [], ctr_ctr = [], ctr_ecb_key = aes_blank\<rparr>"
  obtain k where "ccaes_ecb_encrypt_init (ctr_ecb_key ?c) 16 (replicate 16 1) = (0, k)"
    by (rule aes_set_up [of 16 "ctr_ecb_key ?c" "replicate 16 1"]) (simp_all add: aes_key_lengths)
  from ctr_counts_64_bits [OF this, of "replicate 16 255" 20 "replicate 20 9"] show ?thesis by fastforce
qed

text \<open>
  C13: The three forms of ciphertext stealing over AES in CBC mode: for a text of more than one block, of any
  length, the ciphertext is as long as the text and decrypts to it.
\<close>

theorem cts_roundtrip:
  assumes "ccaes_ecb_encrypt_init k n raw = (0, ke)" "ccaes_ecb_decrypt_init d n raw = (0, kd)"
    "length iv = 16" "16 < length p"
    "(encrypt, decrypt) \<in> {(ccpad_cts1_encrypt, ccpad_cts1_decrypt), (ccpad_cts2_encrypt, ccpad_cts2_decrypt),
      (ccpad_cts3_encrypt, ccpad_cts3_decrypt)}"
    "encrypt (CCMODE_FACTORY_CBC_ENCRYPT ccaes_ltc_ecb_encrypt_mode)
      \<lparr>cbc_ecb = ccaes_ltc_ecb_encrypt_mode, cbc_key = ke\<rparr> iv (length p) p = (len, iv', ct)"
  shows "len = length p \<and> length ct = length p \<and>
    (\<exists>iv'. decrypt (CCMODE_FACTORY_CBC_DECRYPT ccaes_ltc_ecb_decrypt_mode)
      \<lparr>cbc_ecb = ccaes_ltc_ecb_decrypt_mode, cbc_key = kd\<rparr> iv (length p) ct = (length p, iv', p))"
  using assms aes.cts1_inverse [of k n raw ke d kd iv p len iv' ct] aes.cts2_inverse [of k n raw ke d kd iv p len iv' ct]
    aes.cts3_inverse [of k n raw ke d kd iv p len iv' ct] by auto

lemma cts_roundtrip_witness:
  "\<exists>kd ct iv'. length ct = 20 \<and>
    ccpad_cts3_decrypt (CCMODE_FACTORY_CBC_DECRYPT ccaes_ltc_ecb_decrypt_mode)
      \<lparr>cbc_ecb = ccaes_ltc_ecb_decrypt_mode, cbc_key = kd\<rparr> (replicate 16 5) 20 ct = (20, iv', replicate 20 9)"
proof -
  obtain k where k: "ccaes_ecb_encrypt_init aes_blank 16 (replicate 16 1) = (0, k)"
      "ccaes_ecb_decrypt_init aes_blank 16 (replicate 16 1) = (0, k)"
    by (rule aes_set_up [of 16 aes_blank "replicate 16 1"]) (simp_all add: aes_key_lengths)
  obtain len iv' ct where e: "ccpad_cts3_encrypt (CCMODE_FACTORY_CBC_ENCRYPT ccaes_ltc_ecb_encrypt_mode)
      \<lparr>cbc_ecb = ccaes_ltc_ecb_encrypt_mode, cbc_key = k\<rparr> (replicate 16 5) (length (replicate 20 9 :: bytes)) (replicate 20 9) = (len, iv', ct)"
    by (metis surj_pair)
  have "len = length (replicate 20 9 :: bytes) \<and> length ct = length (replicate 20 9 :: bytes) \<and>
    (\<exists>iv'. ccpad_cts3_decrypt (CCMODE_FACTORY_CBC_DECRYPT ccaes_ltc_ecb_decrypt_mode) \<lparr>cbc_ecb = ccaes_ltc_ecb_decrypt_mode, cbc_key = k\<rparr>
      (replicate 16 5) (length (replicate 20 9 :: bytes)) ct = (length (replicate 20 9 :: bytes), iv', replicate 20 9))"
    by (rule cts_roundtrip [where encrypt = ccpad_cts3_encrypt and decrypt = ccpad_cts3_decrypt, OF k _ _ _ e]) simp_all
  then show ?thesis unfolding length_replicate by blast
qed

text \<open>
  C14: PKCS7 padding over AES in CBC mode: the ciphertext is the next whole number of blocks above the text (a
  whole block more when the text fills its blocks), and the decryption gives the length of the text, the
  text and the padding after it.
\<close>

theorem pkcs7_roundtrip:
  assumes "ccaes_ecb_encrypt_init k n raw = (0, ke)" "ccaes_ecb_decrypt_init d n raw = (0, kd)" "length iv = 16"
    "ccpad_pkcs7_encrypt (CCMODE_FACTORY_CBC_ENCRYPT ccaes_ltc_ecb_encrypt_mode)
      \<lparr>cbc_ecb = ccaes_ltc_ecb_encrypt_mode, cbc_key = ke\<rparr> iv (length p) p = (len, iv', ct)"
  shows "len = (length p div 16 + 1) * 16 \<and> length ct = len \<and>
    ccpad_pkcs7_decrypt (CCMODE_FACTORY_CBC_DECRYPT ccaes_ltc_ecb_decrypt_mode)
      \<lparr>cbc_ecb = ccaes_ltc_ecb_decrypt_mode, cbc_key = kd\<rparr> iv len ct =
      Some (length p, iv', p @ replicate (16 - length p mod 16) (of_nat (16 - length p mod 16)))"
  using aes.pkcs7_inverse [of k n raw ke d kd iv 4 p len iv' ct] assms by (simp add: pkcs7_pad_def)

lemma pkcs7_roundtrip_witness:
  "\<exists>kd iv' ct. ccpad_pkcs7_decrypt (CCMODE_FACTORY_CBC_DECRYPT ccaes_ltc_ecb_decrypt_mode)
      \<lparr>cbc_ecb = ccaes_ltc_ecb_decrypt_mode, cbc_key = kd\<rparr> (replicate 16 5) 32 ct =
      Some (17, iv', replicate 17 9 @ replicate 15 15)"
proof -
  obtain k where k: "ccaes_ecb_encrypt_init aes_blank 16 (replicate 16 1) = (0, k)"
      "ccaes_ecb_decrypt_init aes_blank 16 (replicate 16 1) = (0, k)"
    by (rule aes_set_up [of 16 aes_blank "replicate 16 1"]) (simp_all add: aes_key_lengths)
  obtain len iv' ct where e: "ccpad_pkcs7_encrypt (CCMODE_FACTORY_CBC_ENCRYPT ccaes_ltc_ecb_encrypt_mode)
      \<lparr>cbc_ecb = ccaes_ltc_ecb_encrypt_mode, cbc_key = k\<rparr> (replicate 16 5) (length (replicate 17 9 :: bytes)) (replicate 17 9) = (len, iv', ct)"
    by (metis surj_pair)
  have n: "(17 div 16 + 1) * 16 = (32 :: nat)" "17 mod 16 = (1 :: nat)" "16 - 1 = (15 :: nat)" "(of_nat 15 :: 8 word) = 15" by simp_all
  show ?thesis using pkcs7_roundtrip [OF k length_replicate e] unfolding length_replicate n by blast
qed

text \<open>
  C15: Ciphertext stealing over AES in XTS mode: for a text of at least one block that stays within the
  \<open>2^20\<close> blocks allowed under one tweak, the ciphertext is as long as the text and decrypts to it under the same
  tweak, whatever the buffers on the stack held.
\<close>

theorem xts_pad_roundtrip:
  assumes "ccaes_ecb_encrypt_init k n raw = (0, xts_data_key ectx)" "ccaes_ecb_decrypt_init d n raw = (0, xts_data_key dctx)"
    "xts_ecb ectx = ccaes_ltc_ecb_encrypt_mode" "xts_ecb dctx = ccaes_ltc_ecb_decrypt_mode"
    "tweak_value tweak' = tweak_value tweak" "length (tweak_value tweak) = 16"
    "unat (tweak_blocks_processed tweak) + (length p + 15) div 16 \<le> 2 ^ 20"
    "unat (tweak_blocks_processed tweak') + (length p + 15) div 16 \<le> 2 ^ 20"
    "16 \<le> length p" "length out = length p" "length out' = length p" "length ctemp = 16" "length ptemp = 16"
    "ccpad_xts_encrypt (CCMODE_FACTORY_XTS_ENCRYPT e e') ectx tweak ctemp (length p) p out = (tw, ct)"
  shows "length ct = length p \<and>
    (\<exists>tw'. ccpad_xts_decrypt (CCMODE_FACTORY_XTS_DECRYPT f f') dctx tweak' ptemp (length p) ct out' = Some (length p, tw', p))"
  by (rule aes.pad_xts_inverse [where m = n, unfolded aes_fields,
        OF assms(1,2) refl assms(3) refl assms(4) refl refl assms(5-)])

lemma xts_pad_roundtrip_witness:
  "\<exists>k ct tw'. ccpad_xts_decrypt (CCMODE_FACTORY_XTS_DECRYPT ccaes_ltc_ecb_decrypt_mode ccaes_ltc_ecb_encrypt_mode)
     \<lparr>xts_ecb = ccaes_ltc_ecb_decrypt_mode, xts_ecb_encrypt = ccaes_ltc_ecb_encrypt_mode, xts_data_key = k, xts_tweak_key = k\<rparr>
     \<lparr>tweak_blocks_processed = 0, tweak_value = replicate 16 3\<rparr> (replicate 16 0) 20 ct (replicate 20 0) = Some (20, tw', replicate 20 9)"
proof -
  obtain k where k: "ccaes_ecb_encrypt_init aes_blank 16 (replicate 16 1) = (0, k)"
      "ccaes_ecb_decrypt_init aes_blank 16 (replicate 16 1) = (0, k)"
    by (rule aes_set_up [of 16 aes_blank "replicate 16 1"]) (simp_all add: aes_key_lengths)
  let ?e = "\<lparr>xts_ecb = ccaes_ltc_ecb_encrypt_mode, xts_ecb_encrypt = ccaes_ltc_ecb_encrypt_mode, xts_data_key = k, xts_tweak_key = k\<rparr>"
  let ?d = "\<lparr>xts_ecb = ccaes_ltc_ecb_decrypt_mode, xts_ecb_encrypt = ccaes_ltc_ecb_encrypt_mode, xts_data_key = k, xts_tweak_key = k\<rparr>"
  let ?t = "\<lparr>tweak_blocks_processed = 0, tweak_value = replicate 16 3\<rparr>"
  obtain tw ct where e: "ccpad_xts_encrypt (CCMODE_FACTORY_XTS_ENCRYPT ccaes_ltc_ecb_encrypt_mode ccaes_ltc_ecb_encrypt_mode) ?e ?t
      (replicate 16 0) (length (replicate 20 9 :: bytes)) (replicate 20 9) (replicate 20 0) = (tw, ct)"
    by force
  have "length ct = length (replicate 20 9 :: bytes) \<and>
    (\<exists>tw'. ccpad_xts_decrypt (CCMODE_FACTORY_XTS_DECRYPT ccaes_ltc_ecb_decrypt_mode ccaes_ltc_ecb_encrypt_mode) ?d ?t
      (replicate 16 0) (length (replicate 20 9 :: bytes)) ct (replicate 20 0) = Some (length (replicate 20 9 :: bytes), tw', replicate 20 9))"
    by (rule xts_pad_roundtrip [OF _ _ _ _ _ _ _ _ _ _ _ _ _ e, of aes_blank 16 "replicate 16 1" aes_blank]) (simp_all add: k)
  then show ?thesis unfolding length_replicate by blast
qed

text \<open>
  C16: \<open>ccpad_xts_encrypt\<close> does not look at what the mode returns.  When the blocks before the last whole one just
  reach the limit of \<open>2^20\<close>, the last whole block of the output keeps what the buffer held, and the bytes after it
  are copied from a buffer on the stack that was never written.
\<close>

theorem pad_xts_leaks_stack:
  assumes "length p = 16 * m + 16 + r" "0 < r" "r < 16" "length out = length p" "length ctemp = 16"
    "unat (tweak_blocks_processed tweak) + m = 2 ^ 20" "length (tweak_value tweak) = 16"
    "xts_ecb ctx = ccaes_ltc_ecb_encrypt_mode"
    "ccpad_xts_encrypt (CCMODE_FACTORY_XTS_ENCRYPT e e') ctx tweak ctemp (length p) p out = (tweak', ct)"
  shows "drop (16 * m) ct = take 16 (drop (16 * m) out) @ take r ctemp"
proof -
  define h b q where "h = take (16 * m) p" and "b = take 16 (drop (16 * m) p)" and "q = drop (16 * m + 16) p"
  have p: "p = h @ b @ q" using append_take_drop_id [of 16 "drop (16 * m) p"] by (simp add: h_def b_def q_def add.commute)
  have l: "length h = 16 * m" "length b = 16" "length q = r" using assms(1) by (simp_all add: h_def b_def q_def)
  obtain t c where c: "xts_crypt_loop (xts_ecb ctx) (xts_data_key ctx) (tweak_value tweak) m (h @ b @ q) = (t, c)" by force
  have lc: "length c = 16 * m"
    using aes.enc.length_xts_loop [of "tweak_value tweak" "xts_data_key ctx" m "h @ b @ q"] c assms(7,8) by simp
  show ?thesis
    using pad_xts_encrypt_leaks_stack [OF l assms(2,3) _ assms(6,5) c lc, of out e e'] assms(1,4,9) lc
    by (simp add: p [symmetric])
qed

lemma pad_xts_leaks_stack_witness:
  "\<exists>ctx tweak' ct. ccpad_xts_encrypt (CCMODE_FACTORY_XTS_ENCRYPT ccaes_ltc_ecb_encrypt_mode ccaes_ltc_ecb_encrypt_mode)
     (ctx :: (ltc_rijndael_keysched, ltc_rijndael_keysched) ccxts_ctx)
     \<lparr>tweak_blocks_processed = 2 ^ 20, tweak_value = replicate 16 3\<rparr> (replicate 16 0x5a) 18 (replicate 18 9) (replicate 18 0) = (tweak', ct) \<and>
     drop 16 ct = replicate 2 0x5a"
proof -
  let ?c = "\<lparr>xts_ecb = ccaes_ltc_ecb_encrypt_mode, xts_ecb_encrypt = ccaes_ltc_ecb_encrypt_mode, xts_data_key = undefined, xts_tweak_key = undefined\<rparr>
    :: (ltc_rijndael_keysched, ltc_rijndael_keysched) ccxts_ctx"
  let ?t = "\<lparr>tweak_blocks_processed = 2 ^ 20, tweak_value = replicate 16 3\<rparr>"
  obtain tweak' ct where e: "ccpad_xts_encrypt (CCMODE_FACTORY_XTS_ENCRYPT ccaes_ltc_ecb_encrypt_mode ccaes_ltc_ecb_encrypt_mode) ?c
      ?t (replicate 16 0x5a) (length (replicate 18 9 :: bytes)) (replicate 18 9) (replicate 18 0) = (tweak', ct)"
    by force
  have "drop (16 * 0) ct = take 16 (drop (16 * 0) (replicate 18 0)) @ take 2 (replicate 16 0x5a)"
    by (rule pad_xts_leaks_stack [where m = 0 and r = 2, OF _ _ _ _ _ _ _ _ e]) simp_all
  then have "drop 16 ct = replicate 2 0x5a" by simp
  with e show ?thesis by (simp, blast)
qed

text \<open>
  C17: The multiplication of \<open>GF(2^128)\<close> in GCM, in its form with 64-bit products and in its form with 32-bit
  products, is the multiplication bit by bit of SP 800-38D, with the polynomial \<open>1 + x + x^2 + x^7 + x^128\<close>.
\<close>

theorem gf_mult_is_product:
  assumes "length a = 16" "length b = 16"
  shows "ccmode_gcm_gf_mult_64 a b = gf_store (gf_product (gf_load a) (gf_load b)) \<and>
    ccmode_gcm_gf_mult_32 a b = gf_store (gf_product (gf_load a) (gf_load b)) \<and>
    ccmode_gcm_gf_mult a b = gf_store (gf_product (gf_load a) (gf_load b))"
  using gf_mult_64_product [of a b] gf_mult_32_eq [OF assms] by (simp add: ccmode_gcm_gf_mult_def)

lemma gf_mult_is_product_witness:
  "ccmode_gcm_gf_mult_32 (replicate 16 0xa5) (replicate 16 0x3c) =
    gf_store (gf_product (gf_load (replicate 16 0xa5)) (gf_load (replicate 16 0x3c)))"
  using gf_mult_is_product [of "replicate 16 0xa5" "replicate 16 0x3c"] by simp

text \<open>
  C18: One-shot GCM encryption with AES is the function of SP 800-38D, for an initial value of any length but zero, and any
  lengths of the additional data and of the text up to the limit: the text is masked with the cipher of the counter
  blocks after \<open>J0\<close>, whose last four bytes count modulo \<open>2^32\<close>, and the tag is the hash of the padded data and
  lengths masked with the cipher of \<open>J0\<close>, cut to the length asked for.
\<close>

theorem gcm_encrypts_as_sp800_38d:
  assumes "ccaes_ecb_encrypt_init (gcm_ecb_key ctx) kn raw = (0, k)" "iv \<noteq> []" "length P \<le> CCGCM_TEXT_MAX_NBYTES"
    "H = ccaes_ltc_ecb_encrypt k (replicate 16 0)" "J0 = gcm_j0 H iv"
    "C = map (\<lambda>i. P ! i XOR ccaes_ltc_ecb_encrypt k ((inc32 ^^ Suc (i div 16)) J0) ! (i mod 16)) [0..<length P]"
    "T = cc_xor 16 (ghash H (replicate 16 0) (A @ zero_fill A @ C @ zero_fill C @
      cc_store64_be (of_nat (8 * length A)) @ cc_store64_be (of_nat (8 * length C)))) (ccaes_ltc_ecb_encrypt k J0)"
  shows "ccgcm_one_shot (CCMODE_FACTORY_GCM_ENCRYPT ccaes_ltc_ecb_encrypt_mode) ctx kn raw (length iv) (Some iv)
      (length A) A (length P) P n tag = (0, C, take (min n 16) T @ drop (min n 16) tag)"
proof -
  have C: "C = mask_with (gcm_keystream ccaes_ltc_ecb_encrypt_mode k J0) (length P) P"
    by (simp add: assms(6) mask_with_def gcm_keystream_def)
  have T: "T = gcm_tag ccaes_ltc_ecb_encrypt_mode k J0 A C" by (simp add: assms(7) gcm_tag_def assms(4))
  have "ccgcm_one_shot (gcm_mode False ccaes_ltc_ecb_encrypt_mode) ctx kn raw (length iv) (Some iv) (length A) A (length P) P n tag =
      gcm_result False ccaes_ltc_ecb_encrypt_mode k J0 A P n tag"
    unfolding assms(5) by (rule aes.enc.one_shot) (simp_all add: assms(1-4))
  then show ?thesis by (simp add: gcm_mode_def gcm_result_def C [symmetric] T [symmetric] Let_def)
qed

lemma gcm_encrypts_as_sp800_38d_witness:
  "\<exists>C. length C = 3 \<and> ccgcm_one_shot (CCMODE_FACTORY_GCM_ENCRYPT ccaes_ltc_ecb_encrypt_mode) gcm_blank 16 (replicate 16 1)
      (length (replicate 12 2 :: bytes)) (Some (replicate 12 2)) (length [7, 8 :: byte]) [7, 8] (length [1, 2, 3 :: byte]) [1, 2, 3] 0 [] = (0, C, [])"
proof -
  obtain k where "ccaes_ecb_encrypt_init (gcm_ecb_key gcm_blank) 16 (replicate 16 1) = (0, k)"
    by (rule aes_set_up [of 16 "gcm_ecb_key gcm_blank" "replicate 16 1"]) (simp_all add: aes_key_lengths)
  from gcm_encrypts_as_sp800_38d [OF this _ _ refl refl refl refl, of "replicate 12 2" "[1, 2, 3]" "[7, 8]" 0 "[]"]
  show ?thesis by (simp add: CCGCM_TEXT_MAX_NBYTES_def)
qed

text \<open>
  C19: One-shot GCM decryption with AES returns 0 for the tag of the ciphertext it was given and for no other, whatever the
  length asked for up to 16 bytes; a tag of no bytes is never accepted.  In both cases it writes the unmasked text, and
  the right tag over the one it was given.
\<close>

theorem gcm_accepts_only_the_tag:
  assumes "ccaes_ecb_encrypt_init (gcm_ecb_key ctx) kn raw = (0, k)" "iv \<noteq> []" "length C \<le> CCGCM_TEXT_MAX_NBYTES"
    "J0 = gcm_j0 (ccaes_ltc_ecb_encrypt k (replicate 16 0)) iv" "T = gcm_tag ccaes_ltc_ecb_encrypt_mode k J0 A C"
    "n \<le> 16" "n \<le> length tag"
  shows "ccgcm_one_shot (CCMODE_FACTORY_GCM_DECRYPT ccaes_ltc_ecb_encrypt_mode) ctx kn raw (length iv) (Some iv)
      (length A) A (length C) C n tag =
    (if 0 < n \<and> take n tag = take n T then 0 else CCMODE_INTEGRITY_FAILURE,
     mask_with (gcm_keystream ccaes_ltc_ecb_encrypt_mode k J0) (length C) C, take n T @ drop n tag)"
proof -
  have "length T = 16" by (simp add: assms(5) gcm_tag_def)
  then have "cc_cmp_safe n T tag = 0 \<longleftrightarrow> 0 < n \<and> take n tag = take n T"
    using cc_cmp_safe_take [of n T tag] assms(6,7) by (simp add: eq_commute [of "take n tag"])
  moreover have "ccgcm_one_shot (gcm_mode True ccaes_ltc_ecb_encrypt_mode) ctx kn raw (length iv) (Some iv) (length A) A (length C) C n tag =
      gcm_result True ccaes_ltc_ecb_encrypt_mode k J0 A C n tag"
    unfolding assms(4) by (rule aes.enc.one_shot) (simp_all add: assms(1-3))
  ultimately show ?thesis using assms(6) by (simp add: gcm_mode_def gcm_result_def assms(5) [symmetric] Let_def min_absorb1)
qed

lemma gcm_accepts_only_the_tag_witness:
  "fst (ccgcm_one_shot (CCMODE_FACTORY_GCM_DECRYPT ccaes_ltc_ecb_encrypt_mode) gcm_blank 16 (replicate 16 1)
      (length (replicate 12 2 :: bytes)) (Some (replicate 12 2)) (length ([] :: bytes)) [] (length [1, 2, 3 :: byte]) [1, 2, 3] 0 []) =
      CCMODE_INTEGRITY_FAILURE"
proof -
  obtain k where "ccaes_ecb_encrypt_init (gcm_ecb_key gcm_blank) 16 (replicate 16 1) = (0, k)"
    by (rule aes_set_up [of 16 "gcm_ecb_key gcm_blank" "replicate 16 1"]) (simp_all add: aes_key_lengths)
  from gcm_accepts_only_the_tag [OF this _ _ refl refl, of "replicate 12 2" "[1, 2, 3]" 0 "[]" "[]"]
  show ?thesis by (simp add: CCGCM_TEXT_MAX_NBYTES_def)
qed

text \<open>
  C20: What one-shot GCM encryption wrote decrypts, under the same key, initial value and additional data and with its tag of
  1 to 16 bytes, to the text, with code 0.  The contexts on the stack may hold anything.
\<close>

theorem gcm_roundtrip:
  assumes "kn \<in> {16, 24, 32, 128, 192, 256}" "iv \<noteq> []" "length P \<le> CCGCM_TEXT_MAX_NBYTES" "0 < n" "n \<le> 16" "n \<le> length tag"
    "ccgcm_one_shot (CCMODE_FACTORY_GCM_ENCRYPT ccaes_ltc_ecb_encrypt_mode) ctx kn raw (length iv) (Some iv)
      (length A) A (length P) P n tag = (rc, C, T)"
  shows "rc = 0 \<and> length C = length P \<and>
    ccgcm_one_shot (CCMODE_FACTORY_GCM_DECRYPT ccaes_ltc_ecb_encrypt_mode) ctx' kn raw (length iv) (Some iv)
      (length A) A (length C) C n T = (0, P, T)"
proof -
  have "ccaes_key_length_validation kn = 0" using assms(1) by (auto simp: aes_key_lengths)
  then obtain k k' where k: "ccaes_ecb_encrypt_init (gcm_ecb_key ctx) kn raw = (0, k)" "ccaes_ecb_encrypt_init (gcm_ecb_key ctx') kn raw = (0, k')"
    using aes_set_up [of kn "gcm_ecb_key ctx" raw] aes_set_up [of kn "gcm_ecb_key ctx'" raw] by metis
  show ?thesis
    by (rule aes.enc.one_shot_inverse [where k = k and k' = k' and rc = 0 and rc' = 0, OF _ _ _ _ assms(2-7)]) (use k aes_same_block [OF k] in simp_all)
qed

lemma gcm_roundtrip_witness:
  "\<exists>C T. ccgcm_one_shot (CCMODE_FACTORY_GCM_DECRYPT ccaes_ltc_ecb_encrypt_mode) gcm_blank 16 (replicate 16 1)
      (length [9 :: byte]) (Some [9]) (length [7, 8 :: byte]) [7, 8] (length C) C 16 T = (0, [1, 2, 3], T)"
proof -
  obtain rc C T where "ccgcm_one_shot (CCMODE_FACTORY_GCM_ENCRYPT ccaes_ltc_ecb_encrypt_mode) gcm_blank 16 (replicate 16 1)
      (length [9 :: byte]) (Some [9]) (length [7, 8 :: byte]) [7, 8] (length [1, 2, 3 :: byte]) [1, 2, 3] 16 (replicate 16 0) = (rc, C, T)"
    by (metis surj_pair)
  from gcm_roundtrip [OF _ _ _ _ _ _ this] show ?thesis by (auto simp: CCGCM_TEXT_MAX_NBYTES_def)
qed

text \<open>
  C21: In either direction, GCM with the additional data and the text handed over in any number of pieces of any lengths gives
  the code, the text and the tag of the one-shot call on their concatenations.
\<close>

theorem gcm_pieces_equal_one_shot:
  assumes "iv \<noteq> []" "length (concat texts) \<le> CCGCM_TEXT_MAX_NBYTES"
    "mode = (if dec then CCMODE_FACTORY_GCM_DECRYPT ccaes_ltc_ecb_encrypt_mode else CCMODE_FACTORY_GCM_ENCRYPT ccaes_ltc_ecb_encrypt_mode)"
  shows "gcm_in_pieces mode ctx kn raw iv aads texts n tag =
    ccgcm_one_shot mode ctx kn raw (length iv) (Some iv) (length (concat aads)) (concat aads) (length (concat texts)) (concat texts) n tag"
proof -
  obtain rc k where "ecb_init ccaes_ltc_ecb_encrypt_mode (gcm_ecb_key ctx) kn raw = (rc, k)" by force
  moreover have "mode = gcm_mode dec ccaes_ltc_ecb_encrypt_mode" by (simp add: assms(3) gcm_mode_def)
  ultimately show ?thesis
    using aes.enc.in_pieces [OF _ _ assms(1,2) refl, of ctx kn raw rc k dec aads n tag]
      aes.enc.one_shot [OF _ _ assms(1,2) refl, of ctx kn raw rc k dec "concat aads" n tag]
    by simp
qed

lemma gcm_pieces_equal_one_shot_witness:
  "gcm_in_pieces (CCMODE_FACTORY_GCM_DECRYPT ccaes_ltc_ecb_encrypt_mode) gcm_blank 16 (replicate 16 1) [9] [[1], [2, 3]] [[4, 5], [], [6]] 2 [0, 0] =
    ccgcm_one_shot (CCMODE_FACTORY_GCM_DECRYPT ccaes_ltc_ecb_encrypt_mode) gcm_blank 16 (replicate 16 1) (length [9 :: byte]) (Some [9])
      (length (concat [[1 :: byte], [2, 3]])) (concat [[1], [2, 3]]) (length (concat [[4, 5 :: byte], [], [6]])) (concat [[4, 5], [], [6]]) 2 [0, 0]"
  by (rule gcm_pieces_equal_one_shot [where dec = True]) (simp_all add: CCGCM_TEXT_MAX_NBYTES_def)

text \<open>
  C22: After \<open>ccgcm_init_with_iv\<close> and up to the next initialisation, whatever calls follow, in whatever order - also attempts to
  set another initial value, by \<open>ccgcm_set_iv\<close> or the deprecated \<open>ccgcm_set_iv_legacy\<close> - the initial values taken into use
  keep the first four bytes and count in the last eight modulo \<open>2^64\<close>; below \<open>2^64\<close> calls none comes twice, and none is the
  first one.  Left out is \<open>ccgcm_set_iv_legacy\<close> with an empty initial value, which starts the count again at zero.
\<close>

theorem gcm_initial_values_never_repeat:
  assumes "mode = (if dec then CCMODE_FACTORY_GCM_DECRYPT ecb else CCMODE_FACTORY_GCM_ENCRYPT ecb)" "length iv = 12"
    "ccgcm_init_with_iv mode ctx kn raw iv = (0, c)" "gcm_run mode xs c = (c', ivs)" "length xs < 2 ^ 64"
    "\<forall>x \<in> set xs. \<not> gcm_starts_over x"
  shows "distinct (iv # ivs) \<and> (\<forall>j < length ivs. length (ivs ! j) = 12 \<and> take 4 (ivs ! j) = take 4 iv \<and>
    be_val (drop 4 (ivs ! j)) = (be_val (drop 4 iv) + Suc j) mod 2 ^ 64)"
proof -
  have m: "mode = gcm_mode dec ecb" by (simp add: assms(1) gcm_mode_def)
  have "gcm_counting iv c" using init_with_iv_counting [OF assms(3) [unfolded m] assms(2)] ..
  from counting_run [OF this assms(4) [unfolded m] assms(6)]
  have r: "ivs = map (\<lambda>j. (iv_next ^^ Suc j) iv) [0..<length ivs]" "length ivs \<le> length xs" by simp_all
  have n: "ivs ! j = (iv_next ^^ Suc j) iv" if "j < length ivs" for j
    using arg_cong [OF r(1), of "\<lambda>l. l ! j"] that by simp
  have "iv # ivs = map (\<lambda>j. (iv_next ^^ j) iv) [0..<Suc (length ivs)]"
    by (rule nth_equalityI) (auto simp: nth_Cons n simp del: upt_Suc funpow.simps split: nat.splits)
  moreover have "distinct (map (\<lambda>j. (iv_next ^^ j) iv) [0..<Suc (length ivs)])"
    by (rule iv_nexts_distinct [OF assms(2)]) (use r(2) assms(5) in linarith)
  ultimately show ?thesis using n iv_nexts [OF assms(2)] by (simp del: funpow.simps)
qed

lemma gcm_initial_values_never_repeat_witness:
  "\<exists>c c' ivs. ccgcm_init_with_iv (CCMODE_FACTORY_GCM_ENCRYPT ccaes_ltc_ecb_encrypt_mode) gcm_blank 16 (replicate 16 1) (replicate 12 2) = (0, c) \<and>
    gcm_run (CCMODE_FACTORY_GCM_ENCRYPT ccaes_ltc_ecb_encrypt_mode) [Gcm_reset, Gcm_inc_iv [], Gcm_reset, Gcm_set_iv_legacy 1 (Some [5]), Gcm_inc_iv []] c = (c', ivs) \<and>
    distinct (replicate 12 2 # ivs)"
proof -
  let ?m = "CCMODE_FACTORY_GCM_ENCRYPT ccaes_ltc_ecb_encrypt_mode"
  obtain c where c: "ccgcm_init_with_iv ?m gcm_blank 16 (replicate 16 1) (replicate 12 2) = (0, c)"
    using init_with_iv_accepts [of ccaes_ltc_ecb_encrypt_mode "replicate 12 2" False gcm_blank 16 "replicate 16 1"]
    by (auto simp: gcm_mode_def prod_eq_iff)
  obtain c' ivs where r: "gcm_run ?m [Gcm_reset, Gcm_inc_iv [], Gcm_reset, Gcm_set_iv_legacy 1 (Some [5]), Gcm_inc_iv []] c = (c', ivs)" by force
  from gcm_initial_values_never_repeat [OF _ _ c r, of False] have "distinct (replicate 12 2 # ivs)" by simp
  with c r show ?thesis by blast
qed

text \<open>
  C23: From \<open>ccmode_gcm_init\<close> on, whatever calls follow, in whatever order - initialisations and the deprecated
  \<open>ccgcm_set_iv_legacy\<close> among them - the blocks of a context stay 16 bytes long and its
  state is one of the four; a call that returns 0 writes as many bytes of text as it was given, any other call none, and
  the tag buffer keeps its length.
\<close>

theorem gcm_calls_keep_the_shape:
  assumes "length (gcm_Y ctx) = 16" "length (gcm_Y_0 ctx) = 16" "list_all gcm_call_fits xs"
    "mode = (if dec then CCMODE_FACTORY_GCM_DECRYPT ccaes_ltc_ecb_encrypt_mode else CCMODE_FACTORY_GCM_ENCRYPT ccaes_ltc_ecb_encrypt_mode)"
    "gcm_run mode xs (snd (gcm_init mode ctx kn raw)) = (c, ivs)"
  shows "gcm_wf ccaes_ltc_ecb_encrypt_mode c \<and>
    (\<forall>n bs. length (snd (snd (gcm_gcm mode c n bs))) = (if fst (gcm_gcm mode c n bs) = 0 then n else 0)) \<and>
    (\<forall>n tag. n \<le> length tag \<longrightarrow> length (snd (snd (gcm_finalize mode c n tag))) = length tag)"
proof -
  have m: "mode = gcm_mode dec ccaes_ltc_ecb_encrypt_mode" by (simp add: assms(4) gcm_mode_def)
  have "gcm_wf ccaes_ltc_ecb_encrypt_mode (snd (gcm_init mode ctx kn raw))"
    unfolding m gcm_mode_fields by (rule aes.enc.wf_init) (simp_all add: assms(1,2))
  from aes.enc.wf_run [OF this [unfolded m] _ assms(3) assms(5) [unfolded m]] have w: "gcm_wf ccaes_ltc_ecb_encrypt_mode c" by (simp add: m)
  then show ?thesis
    using aes.enc.wf_crypt [OF w, of dec] aes.enc.wf_finalize [OF w] unfolding m gcm_mode_fields by (metis aes_fields(1) prod.collapse)
qed

lemma gcm_calls_keep_the_shape_witness:
  "gcm_wf ccaes_ltc_ecb_encrypt_mode (fst (gcm_run (CCMODE_FACTORY_GCM_DECRYPT ccaes_ltc_ecb_encrypt_mode) [Gcm_text 5 [1, 2, 3, 4, 5], Gcm_reset, Gcm_set_iv_legacy 0 None]
    (snd (gcm_init (CCMODE_FACTORY_GCM_DECRYPT ccaes_ltc_ecb_encrypt_mode) gcm_blank 16 (replicate 16 1)))))"
proof -
  let ?m = "CCMODE_FACTORY_GCM_DECRYPT ccaes_ltc_ecb_encrypt_mode"
  obtain c ivs where r: "gcm_run ?m [Gcm_text 5 [1, 2, 3, 4, 5], Gcm_reset, Gcm_set_iv_legacy 0 None] (snd (gcm_init ?m gcm_blank 16 (replicate 16 1))) = (c, ivs)" by force
  from gcm_calls_keep_the_shape [OF _ _ _ _ r, of True] have "gcm_wf ccaes_ltc_ecb_encrypt_mode c" by simp
  then show ?thesis by (simp only: r fst_conv)
qed

section \<open>DER\<close>

text \<open>
  C24: An elliptic curve private key encoded into a buffer of the size
  \<open>ccder_encode_eckey_size\<close> returns fills it exactly (the returned pointer is the
  start of the buffer), and decoding it gives back the private key, the object
  identifier and the public key, whichever optional parts are present.
\<close>

theorem eckey_roundtrip:
  assumes "0 < length priv" "length priv < 2 ^ 30" "length pub < 2 ^ 30"
    "\<And>o'. oid = Some o' \<Longrightarrow> \<exists>arcs. length arcs < 100 \<and> o' = tlv CCDER_OBJECT_IDENTIFIER arcs"
    "length m = ccder_encode_eckey_size (length priv) oid (length pub)"
  shows "\<exists>out. ccder_encode_eckey (length priv) priv oid (length pub) pub 0 (Some (length m)) m = (Some 0, out) \<and>
    length out = length m \<and>
    ccder_decode_eckey (Some (out @ rest)) =
      Some (rest, \<lparr>eckey_version = 1, priv_key = priv, eckey_oid = oid, pub_key = pub,
        pub_key_bit_count = 8 * length pub\<rparr>)"
proof (intro exI conjI)
  have o: "ccoid_size o' \<le> length o' \<and> length o' < 0x80" if "oid = Some o'" for o'
  proof -
    from assms(4) [OF that] obtain arcs where "length arcs < 100" "o' = tlv CCDER_OBJECT_IDENTIFIER arcs" by blast
    then show ?thesis using ccoid_size_tlv [of arcs] length_tlv_le [of CCDER_OBJECT_IDENTIFIER arcs] by simp
  qed
  show "ccder_encode_eckey (length priv) priv oid (length pub) pub 0 (Some (length m)) m = (Some 0, eckey_bytes priv oid pub)"
    by (rule encode_eckey_fills [OF assms(1-3) o assms(5)])
  show "length (eckey_bytes priv oid pub) = length m"
    using eckey_size_exact [OF assms(2,3) o] assms(5) by simp
  have "\<exists>arcs. length arcs < 0x80 \<and> o' = tlv CCDER_OBJECT_IDENTIFIER arcs" if "oid = Some o'" for o'
  proof -
    from assms(4) [OF that] obtain arcs where "length arcs < 100" "o' = tlv CCDER_OBJECT_IDENTIFIER arcs" by blast
    then show ?thesis by (intro exI [of _ arcs]) simp
  qed
  then show "ccder_decode_eckey (Some (eckey_bytes priv oid pub @ rest)) =
      Some (rest, \<lparr>eckey_version = 1, priv_key = priv, eckey_oid = oid, pub_key = pub,
        pub_key_bit_count = 8 * length pub\<rparr>)"
    by (rule decode_eckey_through_pointer [OF assms(2,3)])
qed

lemma eckey_roundtrip_witness:
  "\<exists>out. ccder_encode_eckey (length [7::byte]) [7] (Some [6, 1, 42]) (length [4::byte, 9]) [4, 9] 0 (Some 20) (replicate 20 0) =
      (Some 0, out) \<and> length out = 20 \<and>
    ccder_decode_eckey (Some (out @ [5])) =
    Some ([5], \<lparr>eckey_version = 1, priv_key = [7], eckey_oid = Some [6, 1, 42], pub_key = [4, 9],
      pub_key_bit_count = 16\<rparr>)"
proof -
  have l: "ccder_encode_eckey_size (length [7::byte]) (Some [6, 1, 42]) (length [4::byte, 9]) = 20" by code_simp
  have o: "[6, 1, 42] = tlv CCDER_OBJECT_IDENTIFIER [42]" by code_simp
  have "\<exists>arcs. length arcs < 100 \<and> o' = tlv CCDER_OBJECT_IDENTIFIER arcs" if "Some [6, 1, 42] = Some o'" for o'
    using that o by (intro exI [of _ "[42]"]) simp
  from eckey_roundtrip [where oid = "Some [6, 1, 42]" and priv = "[7]" and pub = "[4, 9]"
      and m = "replicate 20 0" and rest = "[5]", OF _ _ _ this] l
  show ?thesis by simp
qed

text \<open>
  C25: An unsigned integer of \<open>n\<close> units encoded into a buffer of \<open>ccder_sizeof_integer\<close> bytes fills
  it exactly, and the strict decoder reads it back, leaving what follows the item.
\<close>

theorem integer_roundtrip:
  assumes "length s = n" "n < 2 ^ 28" "length m = ccder_sizeof_integer n s"
  shows "\<exists>out. ccder_encode_integer n s 0 (Some (length m)) m = (Some 0, out) \<and> length out = length m \<and>
    ccder_decode_uint_strict n (Some (out @ rest)) = Some (rest, s)"
proof -
  let ?out = "tlv CCDER_INTEGER (ccn_write_int n s (ccn_write_int_size n s))"
  have l: "length ?out = length m"
    using ccder_sizeof_implicit_integer_eq [OF assms(1,2)] assms(3) by (simp add: ccder_sizeof_integer_def)
  have "ccder_encode_integer n s 0 (Some (length m)) m = (Some 0, ?out)"
    using encode_with_emits [OF ccder_blob_encode_implicit_integer_emits [OF assms(1,2)], of 0 "length m" m CCDER_INTEGER] l
    by (simp add: ccder_encode_integer_def ccder_blob_encode_integer_def write_at_def)
  moreover have "ccder_decode_uint_strict n (Some (?out @ rest)) = Some (rest, s)"
    unfolding ccder_decode_uint_strict_def
    by (rule decode_with_Some) (use decode_encode_uint(2) [OF assms(1,2)] in simp)
  ultimately show ?thesis using l by blast
qed

lemma integer_roundtrip_witness:
  "\<exists>out. ccder_encode_integer 2 [128, 255] 0 (Some (length (replicate 12 (9 :: byte)))) (replicate 12 9) = (Some 0, out) \<and>
    length out = length (replicate 12 (9 :: byte)) \<and> ccder_decode_uint_strict 2 (Some (out @ [1, 2])) = Some ([1, 2], [128, 255])"
proof (rule integer_roundtrip)
  show "length (replicate 12 (9 :: byte)) = ccder_sizeof_integer 2 [128, 255]" by code_simp
qed simp_all

text \<open>
  C26: The strict integer decoder accepts one content only: after an INTEGER tag, the length and
  the body it consumed are the ones the encoder writes for the value it returns (minimal length
  octets, no superfluous leading zero, no negative number).
\<close>

theorem uint_strict_accepts_canonical_only:
  assumes "ccder_blob_decode_uint_strict bs n = (rest, Some s)" "n < 2 ^ 58"
  shows "length s = n \<and> ccder_blob_decode_tag bs =
    (len_bytes (ccn_write_int_size n s) @ ccn_write_int n s (ccn_write_int_size n s) @ rest, Some CCDER_INTEGER)"
  using decode_uint_strict_canonical [OF assms] ccn_write_int_val(1) [of s n] assms(2) by simp

lemma uint_strict_accepts_canonical_only_witness:
  "ccder_blob_decode_tag [2, 2, 0, 129, 7] =
    (len_bytes (ccn_write_int_size 1 [129]) @ ccn_write_int 1 [129] (ccn_write_int_size 1 [129]) @ [7], Some CCDER_INTEGER)"
  by (rule uint_strict_accepts_canonical_only [THEN conjunct2]) (code_simp, simp)

text \<open>
  C27: \<open>ccder_encode_implicit_integer\<close> succeeds exactly when the space between the two pointers is
  at least \<open>ccder_sizeof_implicit_integer\<close>; then it returns the end minus that size and writes
  nothing below it nor from the end on.
\<close>

theorem encode_integer_fits_iff:
  assumes "length s = n" "n < 2 ^ 28" "p \<le> e" "e \<le> length m"
  shows "case ccder_encode_implicit_integer tag n s p (Some e) m of (r, m') \<Rightarrow>
    if ccder_sizeof_implicit_integer tag n s \<le> e - p
    then r = Some (e - ccder_sizeof_implicit_integer tag n s) \<and>
      take (e - ccder_sizeof_implicit_integer tag n s) m' = take (e - ccder_sizeof_implicit_integer tag n s) m \<and>
      drop e m' = drop e m
    else r = None"
proof -
  note sz = ccder_sizeof_implicit_integer_eq [OF assms(1,2), of tag]
  show ?thesis
    using encode_with_emits [OF ccder_blob_encode_implicit_integer_emits [OF assms(1,2), of tag] assms(3,4)] assms(4)
    by (auto simp: ccder_encode_implicit_integer_def sz write_at_def split: prod.splits)
qed

lemma encode_integer_fits_iff_witness:
  "case ccder_encode_implicit_integer CCDER_INTEGER 1 [200] 1 (Some 5) (replicate 8 9) of (r, m') \<Rightarrow>
    if ccder_sizeof_implicit_integer CCDER_INTEGER 1 [200] \<le> 5 - 1
    then r = Some (5 - ccder_sizeof_implicit_integer CCDER_INTEGER 1 [200]) \<and>
      take (5 - ccder_sizeof_implicit_integer CCDER_INTEGER 1 [200]) m' =
        take (5 - ccder_sizeof_implicit_integer CCDER_INTEGER 1 [200]) (replicate 8 9) \<and>
      drop 5 m' = drop 5 (replicate 8 9)
    else r = None"
  by (rule encode_integer_fits_iff) simp_all

section \<open>Multi-precision arithmetic\<close>

text \<open>
  C28: \<open>ccn_add\<close> and \<open>ccn_sub\<close> compute sum and difference modulo \<open>2 ^ (64 n)\<close>, and return exactly the
  carry or borrow out of the top unit.
\<close>

theorem add_sub_with_carry:
  assumes "length s = n" "length t = n"
  shows "case (ccn_add n s t, ccn_sub n s t) of ((c, r), (b, d)) \<Rightarrow>
    length r = n \<and> ccn_val r = (ccn_val s + ccn_val t) mod 2 ^ (64 * n) \<and>
    unat c = (ccn_val s + ccn_val t) div 2 ^ (64 * n) \<and>
    length d = n \<and> int (ccn_val d) = (int (ccn_val s) - int (ccn_val t)) mod 2 ^ (64 * n) \<and>
    b = (if ccn_val s < ccn_val t then 1 else 0)"
proof -
  obtain c r where a: "ccn_add n s t = (c, r)" by force
  obtain b d where u: "ccn_sub n s t = (b, d)" by force
  note av = ccn_add_val [OF assms a] and uv = ccn_sub_val [OF assms u]
  have lt: "ccn_val r < 2 ^ (64 * n)" "ccn_val d < 2 ^ (64 * n)" "ccn_val s < 2 ^ (64 * n)" "ccn_val t < 2 ^ (64 * n)"
    using ccn_val_bound [of r] ccn_val_bound [of d] ccn_val_bound [of s] ccn_val_bound [of t] av(1) uv(1) assms by simp_all
  have "ccn_val r = (ccn_val s + ccn_val t) mod 2 ^ (64 * n)" "unat c = (ccn_val s + ccn_val t) div 2 ^ (64 * n)"
    using av(3) lt(1) by (simp_all flip: av(3))
  moreover have "b = (if ccn_val s < ccn_val t then 1 else 0)"
  proof -
    have b: "b = of_nat (unat b)" by simp
    consider "unat b = 0" | "unat b = 1" using uv(2) by linarith
    then show ?thesis
    proof cases
      case 1
      then have "b = 0" "\<not> ccn_val s < ccn_val t" using uv(3) b by simp_all
      then show ?thesis by simp
    next
      case 2
      then have "b = 1" "ccn_val s < ccn_val t" using uv(3) lt(2) b by simp_all
      then show ?thesis by simp
    qed
  qed
  moreover have "int (ccn_val d) = (int (ccn_val s) - int (ccn_val t)) mod 2 ^ (64 * n)"
  proof -
    have "int (ccn_val s) - int (ccn_val t) = int (ccn_val d) - 2 ^ (64 * n) * int (unat b)"
      using arg_cong [OF uv(3), of int] by simp
    then show ?thesis using lt(2) by (simp add: mod_diff_left_eq zmod_zminus1_eq_if mod_pos_pos_trivial flip: mod_diff_right_eq)
  qed
  ultimately show ?thesis using av(1) uv(1) by (simp add: a u)
qed

lemma add_sub_with_carry_witness:
  "ccn_val (snd (ccn_add 1 [5] [7])) = 12 \<and> fst (ccn_sub 1 [5] [7]) = 1"
  using add_sub_with_carry [of "[5]" 1 "[7]"] by (simp add: ccn_val_def case_prod_beta)

text \<open>
  C29: \<open>ccn_mul\<close> (two multiplier units per pass, delayed carries) computes the full product in \<open>2 n\<close>
  units, and so does the variant that adds one row after the other.
\<close>

theorem mul_is_product:
  assumes "length s = n" "length t = n" "0 < n"
  shows "length (ccn_mul n s t) = 2 * n \<and> ccn_val (ccn_mul n s t) = ccn_val s * ccn_val t \<and>
    ccn_mul_by_rows n s t = ccn_mul n s t"
  using ccn_mul_val [OF assms] ccn_mul_by_rows_eq [OF assms] by simp

lemma mul_is_product_witness:
  "length (ccn_mul 3 [- 1, 2, 3] [4, - 5, 6]) = 2 * 3 \<and>
    ccn_val (ccn_mul 3 [- 1, 2, 3] [4, - 5, 6]) = ccn_val [- 1, 2, 3] * ccn_val [4, - 5, 6] \<and>
    ccn_mul_by_rows 3 [- 1, 2, 3] [4, - 5, 6] = ccn_mul 3 [- 1, 2, 3] [4, - 5, 6]"
  by (rule mul_is_product) simp_all

section \<open>Octet strings\<close>

text \<open>
  C30: Reading back what \<open>ccn_write_uint\<close> wrote into a large enough buffer gives the number, and the
  bytes written are its shortest big-endian form.
\<close>

theorem write_then_read:
  assumes "length s = n" "n < 2 ^ 58" "ccn_write_uint_size n s \<le> out_size"
  shows "ccn_read_uint n (ccn_write_uint n s out_size) = Inr s \<and>
    (\<forall>k. (length (ccn_write_uint n s out_size) \<le> k) = (ccn_val s < 256 ^ k))"
  using read_write_uint [OF assms] ccn_write_uint_full(1) [OF assms] ccn_write_uint_size_least [OF assms(1,2)] by simp

lemma write_then_read_witness:
  "ccn_read_uint 2 (ccn_write_uint 2 [5, 7] 20) = Inr [5, 7] \<and>
    (\<forall>k. (length (ccn_write_uint 2 [5, 7] 20) \<le> k) = (ccn_val [5, 7] < 256 ^ k))"
proof (rule write_then_read)
  show "ccn_write_uint_size 2 [5, 7] \<le> 20" by code_simp
qed simp_all

section \<open>Digests and key derivation\<close>

text \<open>
  C31: \<open>ccdigest\<close> with the SHA-256 of \<open>ccsha256_ltc_di.c\<close> is the compression of the whole message padded as
  FIPS 180-4 says: a \<open>0x80\<close> byte, zeros up to eight bytes before the end of a block, the bit count in
  big-endian order.  It does not matter what the context held before, how the message meets the blocks, or
  that the last block may split in two.
\<close>

theorem sha256_pads_and_compresses:
  assumes "length (digest_data dc) = 64"
  defines "padded \<equiv> \<lambda>msg. msg @ [0x80] @
     replicate ((if length msg mod 64 < 56 then 55 else 119) - length msg mod 64) 0 @ cc_store64_be (of_nat (8 * length msg))"
  shows "ccdigest ccsha256_ltc_di dc (length msg) msg = concat (map cc_store32_be
      (map ((!) (ccsha256_ltc_compress ccsha256_initial_state (length (padded msg) div 64) (padded msg))) [0..<8]))"
proof -
  have "ccdigest ccsha256_ltc_di dc (length msg) msg = digest_value ccsha256_ltc_di msg"
    using sha256.ccdigest_value [of dc "length msg" msg] assms(1) by simp
  then show ?thesis
    unfolding sha256.value_padded padded_def digest_padded_def sha256_fields by (simp add: comp_def)
qed

lemma sha256_pads_and_compresses_witness:
  "ccdigest ccsha256_ltc_di (digest_blank ccsha256_ltc_di) (length [0x61, 0x62, 0x63 :: byte]) [0x61, 0x62, 0x63] =
    concat (map cc_store32_be (map ((!) (ccsha256_ltc_compress ccsha256_initial_state 1
      ([0x61, 0x62, 0x63, 0x80] @ replicate 52 0 @ cc_store64_be 24))) [0..<8]))"
  using sha256_pads_and_compresses [of "digest_blank ccsha256_ltc_di" "[0x61, 0x62, 0x63]"]
  by (simp add: digest_blank_def)

text \<open>
  C32: \<open>cchmac\<close> is HMAC: with the key (its digest when it is longer than a block) padded with zeros to a
  block, the digest of the key XOR \<open>0x5c\<close>, followed by the digest of the key XOR \<open>0x36\<close> and the message.
  The contexts start with any contents.
\<close>

theorem hmac_sha256:
  assumes "length (digest_data (hmac_digest hc)) = 64" "length (digest_data dc) = 64"
  defines "H \<equiv> \<lambda>m. ccdigest ccsha256_ltc_di dc (length m) m"
  defines "k \<equiv> \<lambda>key. let k = (if length key \<le> 64 then key else H key) in k @ replicate (64 - length k) 0"
  shows "cchmac ccsha256_ltc_di hc (length key) key (length msg) msg =
    H (map (\<lambda>b. b XOR 0x5c) (k key) @ H (map (\<lambda>b. b XOR 0x36) (k key) @ msg))"
proof -
  have H: "H m = digest_value ccsha256_ltc_di m" for m
    using sha256.ccdigest_value [of dc "length m" m] assms(2) by (simp add: H_def)
  show ?thesis
    using sha256.cchmac_value [of hc "length key" key "length msg" msg] assms(1)
    by (simp add: H k_def hmac_value_def hmac_pad_def hmac_key_def)
qed

lemma hmac_sha256_witness:
  "cchmac ccsha256_ltc_di \<lparr>hmac_digest = digest_blank ccsha256_ltc_di, hmac_ostate = []\<rparr> (length [7 :: byte]) [7]
    (length [1, 2 :: byte]) [1, 2] =
    ccdigest ccsha256_ltc_di (digest_blank ccsha256_ltc_di) 96 (0x5b # replicate 63 0x5c @
      ccdigest ccsha256_ltc_di (digest_blank ccsha256_ltc_di) 66 (0x31 # replicate 63 0x36 @ [1, 2]))"
  using hmac_sha256 [of "\<lparr>hmac_digest = digest_blank ccsha256_ltc_di, hmac_ostate = []\<rparr>" "digest_blank ccsha256_ltc_di" "[7]" "[1, 2]"]
    sha256.ccdigest_value [of "digest_blank ccsha256_ltc_di" 66 "0x31 # replicate 63 0x36 @ [1, 2]"]
  by (simp add: digest_blank_def)

text \<open>
  C33: For at most \<open>2^32 - 1\<close> blocks, the limit of RFC 8018, \<open>ccpbkdf2_hmac\<close> computes the key of that standard: block \<open>i\<close> is the XOR of \<open>U(1), ..., U(count)\<close>, where
  \<open>U(1)\<close> is the HMAC of the salt and the block number and each further \<open>U\<close> the HMAC of the one before.
  The code never sets up the HMAC key again and keeps each \<open>U\<close> in the data buffer of the context.
\<close>

theorem pbkdf2_blocks_xor:
  fixes pw salt :: bytes
  assumes "length (digest_data (hmac_digest hc)) = 64" "dkLen \<le> 0xffffffff * 32" "0 < count" "count < 2 ^ 64 - 1"
  defines "mac \<equiv> \<lambda>m. cchmac ccsha256_ltc_di hc (length pw) pw (length m) m"
  defines "U \<equiv> \<lambda>i j. (mac ^^ j) (salt @ cc_store32_be (of_nat i))"
  shows "ccpbkdf2_hmac ccsha256_ltc_di hc (length pw) pw (length salt) salt count dkLen =
    Inr (take dkLen (concat (map (\<lambda>i. foldl (cc_xor 32) (U i 1) (map (U i) [2..<Suc count])) [1..<Suc (Suc (dkLen div 32))])))"
proof -
  have mac: "mac m = hmac_value ccsha256_ltc_di pw m" for m
    using sha256.cchmac_value [of hc "length pw" pw "length m" m] assms(1) by (simp add: mac_def)
  have U: "U i j = pbkdf2_U ccsha256_ltc_di pw salt i j" for i j
    by (induction j) (simp_all add: U_def mac)
  have "pbkdf2_T ccsha256_ltc_di pw salt i j = foldl (cc_xor 32) (U i 1) (map (U i) [2..<Suc (Suc j)])" for i j
    by (induction j) (simp_all add: U numeral_2_eq_2)
  with assms(3) have T: "pbkdf2_T ccsha256_ltc_di pw salt i (count - 1) = foldl (cc_xor 32) (U i 1) (map (U i) [2..<Suc count])" for i
    by (metis Suc_diff_1)
  have "dkLen div 32 \<le> 0xffffffff" using div_le_mono [OF assms(2), of 32] by simp
  then show ?thesis
    using sha256.ccpbkdf2_hmac_value [of hc pw salt count dkLen] assms(1) by (simp only: sha256_fields T) simp
qed

lemma pbkdf2_blocks_xor_witness:
  "ccpbkdf2_hmac ccsha256_ltc_di \<lparr>hmac_digest = digest_blank ccsha256_ltc_di, hmac_ostate = []\<rparr> (length [7 :: byte]) [7]
    (length [1, 2 :: byte]) [1, 2] 1 32 =
    Inr (take 32 (concat (map (\<lambda>i. cchmac ccsha256_ltc_di \<lparr>hmac_digest = digest_blank ccsha256_ltc_di, hmac_ostate = []\<rparr> 1 [7] 6
      ([1, 2] @ cc_store32_be (of_nat i))) [1..<3])))"
  using pbkdf2_blocks_xor [of "\<lparr>hmac_digest = digest_blank ccsha256_ltc_di, hmac_ostate = []\<rparr>" 32 1 "[7]" "[1, 2]"]
  by (simp add: digest_blank_def numeral_3_eq_3)

text \<open>
  C34: \<open>cchkdf\<close> is HKDF (RFC 5869): from the HMAC of the input under the salt (32 zero bytes when it is empty)
  the blocks \<open>T(i)\<close>, each the HMAC of the block before, the info and the byte \<open>i\<close>, cut to the length asked
  for; above 255 blocks it returns \<open>CCERR_PARAMETER\<close>.  The 31 largest lengths of \<open>size_t\<close> escape that test, as the rounding
  up to blocks wraps around: the call succeeds and writes nothing.
\<close>

theorem hkdf_chain:
  fixes salt ikm info :: bytes
  assumes "length (digest_data (hmac_digest hc)) = 64" "dk < 2 ^ 64"
  defines "mac \<equiv> \<lambda>key m. cchmac ccsha256_ltc_di hc (length key) key (length m) m"
  defines "prk \<equiv> mac (if salt = [] then replicate 32 0 else salt) ikm"
  defines "T \<equiv> rec_nat [] (\<lambda>i t. mac prk (t @ info @ [of_nat (Suc i)]))"
  shows "cchkdf ccsha256_ltc_di hc (length ikm) ikm (length salt) salt (length info) info dk =
    (if 2 ^ 64 - 31 \<le> dk then Inr []
     else if 255 * 32 < dk then Inl CCERR_PARAMETER else Inr (take dk (concat (map T [1..<Suc ((dk + 31) div 32)]))))"
proof -
  have mac: "mac key m = hmac_value ccsha256_ltc_di key m" for key m
    using sha256.cchmac_value [of hc "length key" key "length m" m] assms(1) by (simp add: mac_def)
  have "T i = hkdf_T ccsha256_ltc_di prk info i" for i
    by (induction i) (simp_all add: T_def mac)
  then have T: "T = hkdf_T ccsha256_ltc_di prk info" ..
  have e: "cchkdf_extract ccsha256_ltc_di hc (length salt) salt (length ikm) ikm = prk"
    using sha256.cchkdf_extract_value [of hc salt ikm] assms(1) by (simp add: prk_def mac)
  have "length prk = 32" using sha256.length_hmac_value by (simp add: prk_def mac)
  note l = this
  show ?thesis
  proof (cases "2 ^ 64 - 31 \<le> dk")
    case True
    then show ?thesis using sha256.cchkdf_expand_wraps [of dk prk hc info] assms(2) l by (simp add: cchkdf_def e)
  next
    case False
    then have "dk + 31 < 2 ^ 64" by simp
    then have "cc_ceiling dk 32 = (dk + 31) div 32" by (simp add: cc_ceiling_def)
    then show ?thesis
      using sha256.cchkdf_expand_value [of hc dk prk info] assms(1) False l by (simp add: cchkdf_def e T Let_def del: upt_Suc)
  qed
qed

lemma hkdf_chain_witness:
  "cchkdf ccsha256_ltc_di \<lparr>hmac_digest = digest_blank ccsha256_ltc_di, hmac_ostate = []\<rparr> 1 [7] 0 [] 0 [] 9000 = Inl CCERR_PARAMETER"
  using hkdf_chain [where hc = "\<lparr>hmac_digest = digest_blank ccsha256_ltc_di, hmac_ostate = []\<rparr>" and salt = "[]" and ikm = "[7]"
      and info = "[]" and dk = 9000]
  by (simp add: digest_blank_def)

text \<open>
  C35: \<open>ccnistkdf_ctr_hmac\<close> is the counter mode of SP 800-108: block \<open>i\<close> is the HMAC of the counter, the label,
  a zero byte, the context and the length in bits, all numbers in big-endian order.
\<close>

theorem nistkdf_counter_mode:
  assumes "length (digest_data (hmac_digest hc)) = 64" "key \<noteq> []" "0 < dkLen" "dkLen * 8 < 2 ^ 32"
    "length stack = length label + length context' + 5"
  defines "K \<equiv> \<lambda>i. let m = cc_store32_be (of_nat i) @ label @ [0] @ context' @ cc_store32_be (of_nat (dkLen * 8))
     in cchmac ccsha256_ltc_di hc (length key) key (length m) m"
  shows "ccnistkdf_ctr_hmac ccsha256_ltc_di hc stack (length key) (Some key) (length label) (Some label)
      (length context') (Some context') dkLen = Inr (take dkLen (concat (map K [1..<Suc (Suc (dkLen div 32))])))"
proof -
  have "K = ctr_K ccsha256_ltc_di key (fixed_data label context' dkLen)"
    using sha256.cchmac_value [OF _ order_refl order_refl, of hc key] assms(1)
    by (simp add: fun_eq_iff K_def Let_def ctr_K_def fixed_data_def)
  then show ?thesis
    using sha256.ctr_hmac_value [of hc key dkLen stack label context'] assms(1-5) by (simp del: upt_Suc)
qed

lemma nistkdf_counter_mode_witness:
  "ccnistkdf_ctr_hmac ccsha256_ltc_di \<lparr>hmac_digest = digest_blank ccsha256_ltc_di, hmac_ostate = []\<rparr> [9, 9, 9, 9, 9, 9, 9]
      1 (Some [7]) 1 (Some [5]) 1 (Some [6]) 16 =
    Inr (take 16 (concat (map (\<lambda>i. let m = cc_store32_be (of_nat i) @ [5, 0, 6, 0, 0, 0, 0x80]
      in cchmac ccsha256_ltc_di \<lparr>hmac_digest = digest_blank ccsha256_ltc_di, hmac_ostate = []\<rparr> 1 [7] (length m) m) [1])))"
  using nistkdf_counter_mode [of "\<lparr>hmac_digest = digest_blank ccsha256_ltc_di, hmac_ostate = []\<rparr>" "[7]" 16 "[9, 9, 9, 9, 9, 9, 9]" "[5]" "[6]"]
  by (simp add: digest_blank_def cc_store32_be_def Let_def)

text \<open>
  C36: From 512 MiB of output on, up to the limit of \<open>2^32 - 1\<close> blocks, \<open>construct_fixed_data\<close> refuses and writes nothing, but \<open>ccnistkdf_ctr_hmac\<close>
  drops its return code: it returns success with blocks computed from the counter and the uninitialised
  stack buffer alone, whatever label and context are.
\<close>

theorem nistkdf_ignores_too_long:
  assumes "length (digest_data (hmac_digest hc)) = 64" "key \<noteq> []" "2 ^ 29 \<le> dkLen" "dkLen \<le> 0xffffffff * 32"
    "length stack = length label + length context' + 5"
  defines "K \<equiv> \<lambda>i. let m = cc_store32_be (of_nat i) @ stack in cchmac ccsha256_ltc_di hc (length key) key (length m) m"
  shows "ccnistkdf_ctr_hmac ccsha256_ltc_di hc stack (length key) (Some key) (length label) (Some label)
      (length context') (Some context') dkLen = Inr (take dkLen (concat (map K [1..<Suc (Suc (dkLen div 32))])))"
proof -
  have "K = ctr_K ccsha256_ltc_di key stack"
    using sha256.cchmac_value [OF _ order_refl order_refl, of hc key] assms(1)
    by (simp add: fun_eq_iff K_def Let_def ctr_K_def)
  then show ?thesis
    using sha256.ctr_hmac_too_long [of hc key dkLen stack label context'] assms(1-5) by (simp del: upt_Suc)
qed

lemma nistkdf_ignores_too_long_witness:
  "ccnistkdf_ctr_hmac ccsha256_ltc_di \<lparr>hmac_digest = digest_blank ccsha256_ltc_di, hmac_ostate = []\<rparr> [9, 9, 9, 9, 9, 9, 9]
      1 (Some [7]) 1 (Some [5]) 1 (Some [6]) 536870912 =
    ccnistkdf_ctr_hmac ccsha256_ltc_di \<lparr>hmac_digest = digest_blank ccsha256_ltc_di, hmac_ostate = []\<rparr> [9, 9, 9, 9, 9, 9, 9]
      1 (Some [7]) 1 (Some [50]) 1 (Some [60]) 536870912"
  using nistkdf_ignores_too_long [of "\<lparr>hmac_digest = digest_blank ccsha256_ltc_di, hmac_ostate = []\<rparr>" "[7]" 536870912 "[9, 9, 9, 9, 9, 9, 9]" "[5]" "[6]"]
    nistkdf_ignores_too_long [of "\<lparr>hmac_digest = digest_blank ccsha256_ltc_di, hmac_ostate = []\<rparr>" "[7]" 536870912 "[9, 9, 9, 9, 9, 9, 9]" "[50]" "[60]"]
  by (simp add: digest_blank_def del: upt_Suc)

section \<open>Key wrapping\<close>

text \<open>
  C37: Key wrapping with AES: unwrapping accepts exactly the wrapped keys.  Of a wrapped key it gives back the key; when it returns 0,
  wrapping what it wrote gives the input again; otherwise it returns \<open>CCERR_INTEGRITY\<close>, the length 0 and a cleared buffer.
  This holds for every key length the header allows, whatever the key contexts and the output buffers held before.
\<close>

theorem unwrap_accepts_only_wrapped:
  assumes "ccaes_ecb_encrypt_init k n raw = (0, ke)" "ccaes_ecb_decrypt_init d n raw = (0, kd)" "length c = m + 8"
    "m mod 8 = 0" "16 \<le> m" "m \<le> 65536" "m \<le> length out" "m + 8 \<le> length out'"
    "ccwrap_auth_decrypt ccaes_ltc_ecb_decrypt_mode kd (m + 8) c out = (r, l, p)"
  defines "wrapped \<equiv> \<lambda>q. take (m + 8) (snd (snd (ccwrap_auth_encrypt ccaes_ltc_ecb_encrypt_mode ke m q out')))"
  shows "(\<forall>q. length q = m \<and> wrapped q = c \<longrightarrow> r = 0 \<and> l = m \<and> take m p = q) \<and>
    (r = 0 \<and> l = m \<and> wrapped (take m p) = c \<or> r = CCERR_INTEGRITY \<and> l = 0 \<and> take m p = replicate m 0)"
proof -
  have v: "wrap_valid m" using assms(4-6) by (simp add: wrap_valid_def CCWRAP_MAXSEMIBLOCKS_def)
  have iv: "length CCWRAP_IV = 8" by (simp add: CCWRAP_IV_def)
  have i: "ecb_init ccaes_ltc_ecb_encrypt_mode k n raw = (0, ke)" "ecb_init ccaes_ltc_ecb_decrypt_mode d n raw = (0, kd)"
    using assms(1,2) by simp_all
  have "r = 0 \<and> l = m \<and> take m p = q" if "length q = m" "wrapped q = c" for q
    using aes.wrap_unwrap [OF _ i that(1) v iv assms(8,7)] assms(9) that
    unfolding wrapped_def ccwrap_auth_encrypt_def ccwrap_auth_decrypt_def by simp
  moreover have "r = 0 \<and> l = m \<and> wrapped (take m p) = c \<or> r = CCERR_INTEGRITY \<and> l = 0 \<and> take m p = replicate m 0"
    using aes.unwrap_wrap [OF _ i assms(3) v iv assms(7,8) assms(9) [unfolded ccwrap_auth_decrypt_def]]
    unfolding wrapped_def ccwrap_auth_encrypt_def by simp
  ultimately show ?thesis by blast
qed

lemma unwrap_accepts_only_wrapped_witness:
  "\<exists>ke kd r l p. ccwrap_auth_decrypt ccaes_ltc_ecb_decrypt_mode kd (16 + 8) (replicate 24 5) (replicate 16 9) = (r, l, p) \<and>
    (r = 0 \<and> take (16 + 8) (snd (snd (ccwrap_auth_encrypt ccaes_ltc_ecb_encrypt_mode ke 16 (take 16 p) (replicate 24 0)))) = replicate 24 5 \<or>
     r = CCERR_INTEGRITY \<and> take 16 p = replicate 16 0)"
proof -
  obtain ke where k: "ccaes_ecb_encrypt_init aes_blank 16 (replicate 16 1) = (0, ke)" "ccaes_ecb_decrypt_init aes_blank 16 (replicate 16 1) = (0, ke)"
    by (rule aes_set_up [of 16 aes_blank "replicate 16 1"]) (simp_all add: aes_key_lengths)
  obtain r l p where d: "ccwrap_auth_decrypt ccaes_ltc_ecb_decrypt_mode ke (16 + 8) (replicate 24 5) (replicate 16 9) = (r, l, p)"
    by (metis surj_pair)
  show ?thesis using unwrap_accepts_only_wrapped [OF k _ _ _ _ _ _ d, of "replicate 24 0"] d by auto
qed

section \<open>Random numbers\<close>






text \<open>
  C40: \<open>ccrng_uniform\<close>, for a bound of at least 2 and over any generator, returns as soon as a draw fits: it gives a number exactly when the draws up to some draw \<open>k\<close>
  succeed, draw \<open>k\<close> cut to the bits of the bound is below the bound and no draw before it was, and the number is that draw.
  At least half of all words fit, and every number below the bound comes from equally many words.
\<close>

theorem uniform_takes_first_fit:
  assumes "2 \<le> bound"
  shows "(ccrng_uniform rng bound = Some (0, rng', v) \<longleftrightarrow>
      (\<exists>k. (\<exists>w. rng_draws k rng = Some (rng', w) \<and> v = w AND uniform_mask bound \<and> v < bound) \<and>
        (\<forall>j < k. \<exists>r w. rng_draws j rng = Some (r, w) \<and> bound \<le> w AND uniform_mask bound))) \<and>
    2 ^ 63 \<le> card {w. w AND uniform_mask bound < bound} \<and>
    (\<forall>u < bound. card {w. w AND uniform_mask bound = u} = 2 ^ unat (cc_clz64 bound))"
proof -
  have u: "ccrng_uniform rng bound = ccrng_uniform_loop rng (uniform_mask bound) bound"
    using leD [OF assms] by (simp add: ccrng_uniform_def)
  have "ccrng_uniform rng bound = Some (0, rng', v) \<longleftrightarrow> (\<exists>k. first_fit rng (uniform_mask bound) bound k rng' v)"
    using first_fit_returns [of rng "uniform_mask bound" bound _ rng' v] returns_first_fit [of rng "uniform_mask bound" bound "(0, rng', v)"]
    unfolding u by auto
  then show ?thesis using uniform_counts [OF assms refl] by (simp add: first_fit_def)
qed

lemma uniform_takes_first_fit_witness:
  "ccrng_uniform (snd (ccrng_sequence_init 1 [1])) 3 = Some (0, snd (ccrng_sequence_init 1 [1]), 1)"
proof -
  let ?rng = "snd (ccrng_sequence_init 1 [1])" and ?w = "cc_load64_le (map (\<lambda>i. [1] ! (i mod 1)) [0..<8])"
  have "?w AND uniform_mask 3 = 1 \<and> (1 :: cc_unit) < 3" by code_simp
  moreover have "rng_draws 0 ?rng = Some (?rng, ?w)" by (rule sequence_draws [OF refl]) simp
  ultimately have "\<exists>k. (\<exists>w. rng_draws k ?rng = Some (?rng, w) \<and> 1 = w AND uniform_mask 3 \<and> (1 :: cc_unit) < 3) \<and>
      (\<forall>j < k. \<exists>r w. rng_draws j ?rng = Some (r, w) \<and> 3 \<le> w AND uniform_mask 3)"
    by (intro exI [of _ 0] conjI exI [of _ ?w]) simp_all
  then show ?thesis using uniform_takes_first_fit [of 3 ?rng ?rng 1] by simp
qed

end
